(* ===== verification/Kbase.thy ===== *)
theory Kbase
  imports Main "HOL-Library.Word"
begin

text \<open>
  The prelude of the development: C strings and the parts of the C library the programs
  call. A C string is a \<open>string\<close> without its terminating NUL; \<open>*p == 0\<close> is the empty
  rest. Characters are bytes and the classification functions are those of the "C" locale.
  Numbers are read as \<open>strtol\<close> and \<open>strtoll\<close> read them (blanks, sign, prefix, clamping at
  the bounds of the result type, and the unread rest) and printed as \<open>%d\<close>, \<open>%u\<close>, \<open>%x\<close>
  print them; the two are inverse to each other (\<open>strtol_dec_of_int\<close>).
\<close>

named_theorems ctype_defs \<open>definitions of the character classes\<close>

type_synonym cstring = string

section \<open>Character classes of ctype.h\<close>

definition byte_of :: "char \<Rightarrow> nat" where
  "byte_of c = of_char c"

definition c_isspace :: "char \<Rightarrow> bool" where
  [ctype_defs]: "c_isspace c \<longleftrightarrow> byte_of c = 32 \<or> (9 \<le> byte_of c \<and> byte_of c \<le> 13)"

definition c_isdigit :: "char \<Rightarrow> bool" where
  [ctype_defs]: "c_isdigit c \<longleftrightarrow> 48 \<le> byte_of c \<and> byte_of c \<le> 57"

definition c_isupper :: "char \<Rightarrow> bool" where
  [ctype_defs]: "c_isupper c \<longleftrightarrow> 65 \<le> byte_of c \<and> byte_of c \<le> 90"

definition c_islower :: "char \<Rightarrow> bool" where
  [ctype_defs]: "c_islower c \<longleftrightarrow> 97 \<le> byte_of c \<and> byte_of c \<le> 122"

definition c_isalnum :: "char \<Rightarrow> bool" where
  [ctype_defs]: "c_isalnum c \<longleftrightarrow> c_isdigit c \<or> c_isupper c \<or> c_islower c"

definition c_isxdigit :: "char \<Rightarrow> bool" where
  [ctype_defs]: "c_isxdigit c \<longleftrightarrow> c_isdigit c \<or> (65 \<le> byte_of c \<and> byte_of c \<le> 70)
     \<or> (97 \<le> byte_of c \<and> byte_of c \<le> 102)"

definition c_tolower :: "char \<Rightarrow> char" where
  "c_tolower c = (if c_isupper c then char_of (byte_of c + 32) else c)"

definition c_toupper :: "char \<Rightarrow> char" where
  "c_toupper c = (if c_islower c then char_of (byte_of c - 32) else c)"

declare byte_of_def [ctype_defs] c_tolower_def [ctype_defs] c_toupper_def [ctype_defs]

lemma byte_of_less: "byte_of c < 256"
  by (simp add: byte_of_def)

lemma byte_of_char_of [simp]: "n < 256 \<Longrightarrow> byte_of (char_of n) = n"
  by (simp add: byte_of_def)

lemma byte_of_inject [simp]: "byte_of c = byte_of d \<longleftrightarrow> c = d"
  by (simp add: byte_of_def)

section \<open>String functions of string.h\<close>

text \<open>\<open>!strncmp(s, p, strlen(p))\<close>: \<open>s\<close> starts with \<open>p\<close>.\<close>

fun starts_with :: "cstring \<Rightarrow> cstring \<Rightarrow> bool" where
  "starts_with s [] = True"
| "starts_with [] (p # ps) = False"
| "starts_with (c # s) (p # ps) = (c = p \<and> starts_with s ps)"

text \<open>\<open>strchr(s, c)\<close>: the text before the first \<open>c\<close>, and the text after it if there is one.\<close>

fun strchr_split :: "char \<Rightarrow> cstring \<Rightarrow> cstring \<times> cstring option" where
  "strchr_split c [] = ([], None)"
| "strchr_split c (x # s) =
     (if x = c then ([], Some s)
      else (let (b, r) = strchr_split c s in (x # b, r)))"

text \<open>\<open>strrchr(s, c)\<close>: the text before the last \<open>c\<close> and the text after it.\<close>

fun strrchr_split :: "char \<Rightarrow> cstring \<Rightarrow> (cstring \<times> cstring) option" where
  "strrchr_split c [] = None"
| "strrchr_split c (x # s) =
     (case strrchr_split c s of
        Some (b, r) \<Rightarrow> Some (x # b, r)
      | None \<Rightarrow> if x = c then Some ([], s) else None)"

text \<open>A text between single quotes.\<close>

definition single_quoted :: "cstring \<Rightarrow> cstring" where
  "single_quoted s = [CHR 0x27] @ s @ [CHR 0x27]"

lemma starts_with_append: "starts_with s p \<longleftrightarrow> (\<exists>r. s = p @ r)"
  by (induction s p rule: starts_with.induct) auto

lemma starts_with_self [simp]: "starts_with (p @ r) p"
  by (induction p) auto

lemma strchr_split_None:
  "c \<notin> set s \<Longrightarrow> strchr_split c s = (s, None)"
  by (induction s) auto

lemma strchr_split_hit:
  "c \<notin> set b \<Longrightarrow> strchr_split c (b @ c # r) = (b, Some r)"
  by (induction b) auto

lemma strchr_split_Some:
  "strchr_split c s = (b, Some r) \<Longrightarrow> s = b @ c # r \<and> c \<notin> set b"
  by (induction s arbitrary: b) (auto split: if_splits prod.splits)

lemma strchr_split_length:
  "strchr_split c s = (b, Some r) \<Longrightarrow> length r < length s"
  by (auto dest: strchr_split_Some)

lemma strrchr_split_None: "strrchr_split c s = None \<longleftrightarrow> c \<notin> set s"
  by (induction s) (auto split: option.splits)

lemma strrchr_split_Some:
  "strrchr_split c s = Some (b, r) \<Longrightarrow> s = b @ c # r \<and> c \<notin> set r"
  by (induction s arbitrary: b r) (auto split: option.splits if_splits simp: strrchr_split_None)

lemma strrchr_split_hit:
  "c \<notin> set r \<Longrightarrow> strrchr_split c (b @ c # r) = Some (b, r)"
proof (induction b)
  case Nil
  then have "strrchr_split c r = None" by (simp add: strrchr_split_None)
  then show ?case by simp
qed simp

section \<open>Reading and printing numbers\<close>

definition digit_of :: "char \<Rightarrow> nat option" where
  "digit_of c =
     (let n = byte_of c in
      if c_isdigit c then Some (n - 48)
      else if c_islower c then Some (n - 87)
      else if c_isupper c then Some (n - 55)
      else None)"

definition digit_char :: "nat \<Rightarrow> char" where
  "digit_char d = char_of (if d < 10 then d + 48 else d + 87)"

fun read_digits :: "nat \<Rightarrow> nat \<Rightarrow> cstring \<Rightarrow> nat \<times> cstring" where
  "read_digits base acc [] = (acc, [])"
| "read_digits base acc (c # s) =
     (case digit_of c of
        Some d \<Rightarrow> if d < base then read_digits base (acc * base + d) s else (acc, c # s)
      | None \<Rightarrow> (acc, c # s))"

fun skip_spaces :: "cstring \<Rightarrow> cstring" where
  "skip_spaces [] = []"
| "skip_spaces (c # s) = (if c_isspace c then skip_spaces s else c # s)"

definition read_sign :: "cstring \<Rightarrow> bool \<times> cstring" where
  "read_sign s = (case s of
      c # r \<Rightarrow> if c = CHR ''-'' then (True, r) else if c = CHR ''+'' then (False, r) else (False, s)
    | [] \<Rightarrow> (False, []))"

definition is_digit_in :: "nat \<Rightarrow> char \<Rightarrow> bool" where
  "is_digit_in base c = (case digit_of c of Some d \<Rightarrow> d < base | None \<Rightarrow> False)"

text \<open>The \<open>0x\<close> of base 16 is skipped only when a hexadecimal digit follows it.\<close>

definition read_prefix :: "nat \<Rightarrow> cstring \<Rightarrow> cstring" where
  "read_prefix base s = (case s of
      a # b # c # r \<Rightarrow>
        if base = 16 \<and> a = CHR ''0'' \<and> (b = CHR ''x'' \<or> b = CHR ''X'') \<and> is_digit_in 16 c
        then c # r else s
    | _ \<Rightarrow> s)"

definition clamp :: "int \<Rightarrow> int \<Rightarrow> int \<Rightarrow> int" where
  "clamp lo hi v = (if v < lo then lo else if v > hi then hi else v)"

text \<open>
  \<open>strtol(s, &rest, base)\<close> for a result type with bounds \<open>lo\<close> and \<open>hi\<close>: the value and
  the unread rest, which is the whole argument when there is no digit.
\<close>

definition c_strtol :: "int \<Rightarrow> int \<Rightarrow> nat \<Rightarrow> cstring \<Rightarrow> int \<times> cstring" where
  "c_strtol lo hi base s =
     (let (neg, t) = read_sign (skip_spaces s); t = read_prefix base t in
      case t of
        [] \<Rightarrow> (0, s)
      | c # _ \<Rightarrow>
          if is_digit_in base c
          then (let (n, r) = read_digits base 0 t
                in (clamp lo hi (if neg then - int n else int n), r))
          else (0, s))"

abbreviation llong_min :: int where "llong_min \<equiv> - (2 ^ 63)"
abbreviation llong_max :: int where "llong_max \<equiv> 2 ^ 63 - 1"

definition strtoll :: "cstring \<Rightarrow> nat \<Rightarrow> int" where
  "strtoll s base = fst (c_strtol llong_min llong_max base s)"

fun num_of_nat :: "nat \<Rightarrow> nat \<Rightarrow> cstring" where
  "num_of_nat base n =
     (if base < 2 \<or> n < base then [digit_char n]
      else num_of_nat base (n div base) @ [digit_char (n mod base)])"

declare num_of_nat.simps [simp del]

definition dec_of_nat :: "nat \<Rightarrow> cstring" where
  "dec_of_nat n = num_of_nat 10 n"

definition hex_of_nat :: "nat \<Rightarrow> cstring" where
  "hex_of_nat n = num_of_nat 16 n"

definition dec_of_int :: "int \<Rightarrow> cstring" where
  "dec_of_int z = (if z < 0 then CHR ''-'' # dec_of_nat (nat (- z)) else dec_of_nat (nat z))"

lemma digit_of_digit_char [simp]: "d < 16 \<Longrightarrow> digit_of (digit_char d) = Some d"
  by (auto simp: digit_of_def digit_char_def Let_def ctype_defs)

lemma byte_of_digit_char: "d < 16 \<Longrightarrow> byte_of (digit_char d) = (if d < 10 then d + 48 else d + 87)"
  by (simp add: digit_char_def)

lemma num_of_nat_nonempty [simp]: "num_of_nat b n \<noteq> []"
  by (subst num_of_nat.simps) simp

lemma num_of_nat_digits:
  "2 \<le> b \<Longrightarrow> c \<in> set (num_of_nat b n) \<Longrightarrow> \<exists>d<b. c = digit_char d"
proof (induction b n rule: num_of_nat.induct)
  case (1 base n)
  show ?case
  proof (cases "n < base")
    case True
    with 1 show ?thesis by (auto simp: num_of_nat.simps [of base n])
  next
    case False
    with 1 have "num_of_nat base n = num_of_nat base (n div base) @ [digit_char (n mod base)]"
      by (simp add: num_of_nat.simps [of base n])
    with 1 have "c \<in> set (num_of_nat base (n div base)) \<or> c = digit_char (n mod base)" by auto
    moreover have "n mod base < base" using 1 by simp
    ultimately show ?thesis using 1 False by (metis not_less)
  qed
qed

lemma read_digits_append:
  "(\<And>c. c \<in> set ds \<Longrightarrow> \<exists>d<b. d < 16 \<and> c = digit_char d) \<Longrightarrow>
   read_digits b acc (ds @ r) =
     read_digits b (foldl (\<lambda>a c. a * b + the (digit_of c)) acc ds) r"
proof (induction ds arbitrary: acc)
  case Nil
  show ?case by simp
next
  case (Cons c ds)
  from Cons.prems [of c] obtain d where "d < b" "d < 16" "c = digit_char d" by auto
  with Cons show ?case by simp
qed

lemma foldl_num_of_nat:
  "2 \<le> b \<Longrightarrow> b \<le> 16 \<Longrightarrow>
   foldl (\<lambda>a c. a * b + the (digit_of c)) 0 (num_of_nat b n) = n"
proof (induction b n rule: num_of_nat.induct)
  case (1 base n)
  show ?case
  proof (cases "n < base")
    case True
    with 1 show ?thesis by (simp add: num_of_nat.simps [of base n])
  next
    case False
    with 1 have "num_of_nat base n = num_of_nat base (n div base) @ [digit_char (n mod base)]"
      by (simp add: num_of_nat.simps [of base n])
    moreover have "n mod base < 16"
      using 1 by (meson less_le_trans mod_less_divisor not_less zero_less_numeral order.strict_trans2)
    ultimately show ?thesis using 1 False by simp
  qed
qed

definition stops_number :: "nat \<Rightarrow> cstring \<Rightarrow> bool" where
  "stops_number b r = (case r of [] \<Rightarrow> True | c # _ \<Rightarrow> \<not> is_digit_in b c)"

lemma read_digits_stop: "stops_number b r \<Longrightarrow> read_digits b acc r = (acc, r)"
  by (cases r) (auto simp: stops_number_def is_digit_in_def split: option.splits)

lemma read_digits_num_of_nat:
  assumes "2 \<le> b" "b \<le> 16" "stops_number b r"
  shows "read_digits b 0 (num_of_nat b n @ r) = (n, r)"
proof -
  have "\<And>c. c \<in> set (num_of_nat b n) \<Longrightarrow> \<exists>d<b. d < 16 \<and> c = digit_char d"
    using assms num_of_nat_digits [of b] by fastforce
  from read_digits_append [OF this] show ?thesis
    by (simp add: foldl_num_of_nat assms read_digits_stop)
qed

lemma num_of_nat_length: "2 \<le> b \<Longrightarrow> n < b ^ k \<Longrightarrow> 0 < k \<Longrightarrow> length (num_of_nat b n) \<le> k"
proof (induction b n arbitrary: k rule: num_of_nat.induct)
  case (1 base n)
  show ?case
  proof (cases "n < base")
    case True
    with 1 show ?thesis by (simp add: num_of_nat.simps [of base n])
  next
    case False
    with 1 obtain j where k: "k = Suc j" "0 < j"
      by (cases k; cases "k - 1") auto
    with 1 have "n div base < base ^ j" by (simp add: less_mult_imp_div_less mult.commute)
    with 1 False k have "length (num_of_nat base (n div base)) \<le> j" by simp
    with 1 False k show ?thesis by (simp add: num_of_nat.simps [of base n])
  qed
qed

lemma num_of_nat_hd:
  assumes "2 \<le> b" "b \<le> 16"
  obtains d ds where "num_of_nat b n = digit_char d # ds" "d < b"
proof (cases "num_of_nat b n")
  case (Cons c ds)
  with num_of_nat_digits [of b c n] assms show thesis by (auto intro: that)
qed simp

lemma digit_char_simps:
  "d < 16 \<Longrightarrow> digit_char d \<noteq> CHR ''-''"
  "d < 16 \<Longrightarrow> digit_char d \<noteq> CHR ''+''"
  "d < 16 \<Longrightarrow> \<not> c_isspace (digit_char d)"
  "d < 16 \<Longrightarrow> d < b \<Longrightarrow> is_digit_in b (digit_char d)"
  "d < 16 \<Longrightarrow> digit_char d \<noteq> CHR ''x''"
  "d < 16 \<Longrightarrow> digit_char d \<noteq> CHR ''X''"
  "d < 10 \<Longrightarrow> c_isdigit (digit_char d)"
  "d < 16 \<Longrightarrow> c_isxdigit (digit_char d)"
  "d < 16 \<Longrightarrow> digit_char d \<noteq> CHR 0x0A"
  "d < 16 \<Longrightarrow> digit_char d \<noteq> CHR 0x0D"
  by (auto simp: is_digit_in_def byte_of_digit_char c_isspace_def c_isdigit_def c_isxdigit_def
        byte_of_inject [symmetric] simp del: byte_of_inject split: if_splits)
    (auto simp: byte_of_def)

lemma strtol_dec_of_int:
  assumes "lo \<le> z" "z \<le> hi" "stops_number 10 r"
  shows "c_strtol lo hi 10 (dec_of_int z @ r) = (z, r)"
proof -
  obtain d ds where n: "dec_of_nat (nat \<bar>z\<bar>) = digit_char d # ds" "d < 10"
    using num_of_nat_hd [of 10 "nat \<bar>z\<bar>"] unfolding dec_of_nat_def by auto
  have rd: "read_digits 10 0 (dec_of_nat (nat \<bar>z\<bar>) @ r) = (nat \<bar>z\<bar>, r)"
    by (simp add: dec_of_nat_def read_digits_num_of_nat assms)
  have sk: "skip_spaces (dec_of_int z @ r) = dec_of_int z @ r"
    using n by (cases "z < 0") (simp_all add: dec_of_int_def digit_char_simps, simp add: ctype_defs)
  have sg: "read_sign (dec_of_int z @ r) = (z < 0, dec_of_nat (nat \<bar>z\<bar>) @ r)"
    using n by (cases "z < 0") (auto simp: dec_of_int_def read_sign_def digit_char_simps)
  have pf: "read_prefix 10 t = t" for t
    by (simp add: read_prefix_def split: list.splits)
  have dg: "is_digit_in 10 (digit_char d)" using n(2) by (simp add: digit_char_simps)
  from n(1) have ne: "dec_of_nat (nat \<bar>z\<bar>) @ r = digit_char d # ds @ r" by simp
  have "c_strtol lo hi 10 (dec_of_int z @ r) =
    (clamp lo hi (if z < 0 then - int (nat \<bar>z\<bar>) else int (nat \<bar>z\<bar>)), r)"
    unfolding c_strtol_def Let_def sk sg
    using rd dg by (simp add: pf ne)
  also have "\<dots> = (z, r)" using assms by (auto simp: clamp_def)
  finally show ?thesis .
qed

section \<open>Loops that may fail\<close>

text \<open>A loop over a list whose steps may give no result.\<close>

fun fold_opt :: "('a \<Rightarrow> 'b \<Rightarrow> 'b option) \<Rightarrow> 'a list \<Rightarrow> 'b \<Rightarrow> 'b option" where
  "fold_opt f [] s = Some s"
| "fold_opt f (x # xs) s = Option.bind (f x s) (fold_opt f xs)"

lemma fold_opt_append: "fold_opt f (xs @ ys) s = Option.bind (fold_opt f xs s) (fold_opt f ys)"
  by (induction xs arbitrary: s) (simp_all, metis Option.bind_assoc)

lemma fold_opt_inv:
  assumes "P s" "\<And>x s. x \<in> set xs \<Longrightarrow> P s \<Longrightarrow> \<exists>s'. f x s = Some s' \<and> P s'"
  shows "\<exists>s'. fold_opt f xs s = Some s' \<and> P s'"
  using assms
proof (induction xs arbitrary: s)
  case (Cons x xs)
  obtain s' where s': "f x s = Some s'" "P s'" using Cons.prems by fastforce
  with Cons.IH [OF s'(2)] Cons.prems(2) show ?case by simp
qed simp

section \<open>Buffers\<close>

text \<open>
  A buffer is a list of bytes. \<open>poke off bytes buf\<close> is \<open>memcpy(buf + off, bytes, n)\<close> (or
  \<open>memset\<close>) inside the buffer; a 32 bit word is stored as on a little-endian machine.
\<close>

type_synonym byte = "8 word"

definition poke :: "nat \<Rightarrow> 'a list \<Rightarrow> 'a list \<Rightarrow> 'a list" where
  "poke off bytes buf = take off buf @ bytes @ drop (off + length bytes) buf"

definition le_bytes :: "32 word \<Rightarrow> byte list" where
  "le_bytes w = map (\<lambda>k. ucast (drop_bit (8 * k) w)) [0..<4]"

lemma length_poke [simp]:
  "off + length bytes \<le> length buf \<Longrightarrow> length (poke off bytes buf) = length buf"
  by (simp add: poke_def)

lemma poke_read: "off \<le> length buf \<Longrightarrow> take (length bytes) (drop off (poke off bytes buf)) = bytes"
  by (simp add: poke_def)

lemma nth_poke_in:
  "off + length bytes \<le> length buf \<Longrightarrow> i < length bytes \<Longrightarrow> poke off bytes buf ! (off + i) = bytes ! i"
  by (simp add: poke_def nth_append)

lemma nth_poke_out:
  "off + length bytes \<le> length buf \<Longrightarrow> i < off \<or> off + length bytes \<le> i \<Longrightarrow> i < length buf \<Longrightarrow>
   poke off bytes buf ! i = buf ! i"
  by (auto simp: poke_def nth_append)

lemma length_le_bytes [simp]: "length (le_bytes w) = 4"
  by (simp add: le_bytes_def)

lemma take_poke: "n \<le> off \<Longrightarrow> off \<le> length buf \<Longrightarrow> take n (poke off bytes buf) = take n buf"
  by (simp add: poke_def min_def)

lemma drop_poke_last:
  "off + length bytes = length buf \<Longrightarrow> drop off (poke off bytes buf) = bytes"
  by (simp add: poke_def)

lemma take_drop_poke:
  "n \<le> length bytes \<Longrightarrow> off \<le> length buf \<Longrightarrow> take n (drop off (poke off bytes buf)) = take n bytes"
  by (simp add: poke_def)

lemma take_drop_poke_before:
  "off + n \<le> off' \<Longrightarrow> off' \<le> length buf \<Longrightarrow>
   take n (drop off (poke off' bytes buf)) = take n (drop off buf)"
  by (simp add: poke_def take_drop min_def)

end
