(* ===== verification/Kexpr.thy ===== *)
theory Kexpr
  imports Kbase
begin

text \<open>
  Kconfig expressions, from \<open>support/kconfig/expr.h\<close> and \<open>expr.c\<close>: the tristate values, the
  expression tree, its allocation, evaluation, printing, and the rewriting functions the menu
  code runs on dependencies (\<open>expr_eq\<close>, \<open>expr_eliminate_eq\<close>, \<open>expr_eliminate_yn\<close>,
  \<open>expr_transform\<close>, \<open>expr_trans_bool\<close>, \<open>expr_trans_compare\<close>, \<open>expr_extract_eq\<close>,
  \<open>expr_join_or\<close>, \<open>expr_join_and\<close>). A \<open>struct expr *\<close> that may be NULL is an
  \<open>expr option\<close>. Values of HOL are immutable, so the copies the C code makes before it
  destroys an argument are the argument itself (\<open>expr_copy_logical\<close>), a function that
  changes a tree through a pointer returns the changed tree, and \<open>expr_free\<close> is only
  modelled for what it releases. The global \<open>trans_count\<close> is returned as the number of
  increments where a caller can see it.
\<close>

named_theorems kval \<open>the value of an expression and of its parts\<close>
named_theorems knodes \<open>the number of nodes of an expression\<close>

section \<open>Tristate values\<close>

datatype tristate = T_no | T_mod | T_yes

text \<open>The enumeration's numbers: \<open>no\<close> 0, \<open>mod\<close> 1, \<open>yes\<close> 2; the order is theirs.\<close>

fun tri_num :: "tristate \<Rightarrow> nat" where
  "tri_num T_no = 0"
| "tri_num T_mod = 1"
| "tri_num T_yes = 2"

lemma tri_num_inject [simp]: "tri_num a = tri_num b \<longleftrightarrow> a = b"
  by (cases a; cases b) auto

instantiation tristate :: linorder
begin

definition less_eq_tristate :: "tristate \<Rightarrow> tristate \<Rightarrow> bool" where
  "less_eq_tristate a b \<longleftrightarrow> tri_num a \<le> tri_num b"

definition less_tristate :: "tristate \<Rightarrow> tristate \<Rightarrow> bool" where
  "less_tristate a b \<longleftrightarrow> tri_num a < tri_num b"

instance
  by standard (auto simp: less_eq_tristate_def less_tristate_def simp flip: tri_num_inject)

end

lemmas tri_order = less_eq_tristate_def less_tristate_def

definition EXPR_OR :: "tristate \<Rightarrow> tristate \<Rightarrow> tristate" where
  "EXPR_OR dep1 dep2 = (if dep1 > dep2 then dep1 else dep2)"

definition EXPR_AND :: "tristate \<Rightarrow> tristate \<Rightarrow> tristate" where
  "EXPR_AND dep1 dep2 = (if dep1 < dep2 then dep1 else dep2)"

fun EXPR_NOT :: "tristate \<Rightarrow> tristate" where
  "EXPR_NOT T_no = T_yes"
| "EXPR_NOT T_mod = T_mod"
| "EXPR_NOT T_yes = T_no"

lemma tri_num_EXPR_NOT: "tri_num (EXPR_NOT d) = 2 - tri_num d"
  by (cases d) auto

text \<open>
  The laws of the three connectives the rewriting functions rely on, as an interface: a
  bounded distributive lattice with an involution that satisfies De Morgan's laws. The
  complement laws are not among them: \<open>m && !m\<close> is \<open>m\<close>.
\<close>

locale tristate_logic =
  fixes meet :: "'v \<Rightarrow> 'v \<Rightarrow> 'v" and join :: "'v \<Rightarrow> 'v \<Rightarrow> 'v" and neg :: "'v \<Rightarrow> 'v"
    and top :: 'v and bot :: 'v
  assumes meet_assoc: "meet (meet a b) c = meet a (meet b c)"
    and meet_commute: "meet a b = meet b a"
    and meet_idem: "meet a a = a"
    and meet_join_absorb: "meet a (join a b) = a"
    and meet_join_distrib: "meet a (join b c) = join (meet a b) (meet a c)"
    and meet_top: "meet top a = a"
    and meet_bot: "meet bot a = bot"
    and neg_neg: "neg (neg a) = a"
    and neg_meet: "neg (meet a b) = join (neg a) (neg b)"
    and neg_top: "neg top = bot"
begin

lemma join_as_neg: "join a b = neg (meet (neg a) (neg b))"
  by (simp add: neg_meet neg_neg)

lemma neg_join: "neg (join a b) = meet (neg a) (neg b)"
  by (simp add: join_as_neg neg_neg)

lemma neg_bot: "neg bot = top"
  by (simp flip: neg_top add: neg_neg)

lemma join_assoc: "join (join a b) c = join a (join b c)"
  by (simp add: join_as_neg neg_neg meet_assoc)

lemma join_commute: "join a b = join b a"
  by (simp add: join_as_neg meet_commute)

lemma join_idem: "join a a = a"
  by (simp add: join_as_neg meet_idem neg_neg)

lemma join_bot: "join bot a = a"
  by (simp add: join_as_neg neg_bot meet_top neg_neg)

lemma join_top: "join top a = top"
  by (simp add: join_as_neg neg_top meet_bot neg_bot)

lemma meet_left_commute: "meet a (meet b c) = meet b (meet a c)"
  by (metis meet_assoc meet_commute)

lemma join_left_commute: "join a (join b c) = join b (join a c)"
  by (metis join_assoc join_commute)

lemma join_meet_absorb: "join a (meet a b) = a"
  by (metis meet_join_absorb meet_join_distrib meet_idem)

lemmas meet_ac = meet_assoc meet_commute meet_left_commute meet_idem
lemmas join_ac = join_assoc join_commute join_left_commute join_idem

lemma meet_top_right: "meet a top = a"
  by (metis meet_commute meet_top)

lemma meet_bot_right: "meet a bot = bot"
  by (metis meet_commute meet_bot)

lemma join_top_right: "join a top = top"
  by (metis join_commute join_top)

lemma join_bot_right: "join a bot = a"
  by (metis join_commute join_bot)

lemmas unit_laws = meet_top meet_bot join_top join_bot
  meet_top_right meet_bot_right join_top_right join_bot_right

end

interpretation tri: tristate_logic EXPR_AND EXPR_OR EXPR_NOT T_yes T_no
proof
  fix a b c :: tristate
  show "EXPR_AND (EXPR_AND a b) c = EXPR_AND a (EXPR_AND b c)"
    by (cases a; cases b; cases c) (simp_all add: EXPR_AND_def tri_order)
  show "EXPR_AND a b = EXPR_AND b a" by (auto simp: EXPR_AND_def)
  show "EXPR_AND a a = a" by (simp add: EXPR_AND_def)
  show "EXPR_AND a (EXPR_OR a b) = a" by (auto simp: EXPR_AND_def EXPR_OR_def)
  show "EXPR_AND a (EXPR_OR b c) = EXPR_OR (EXPR_AND a b) (EXPR_AND a c)"
    by (cases a; cases b; cases c) (simp_all add: EXPR_AND_def EXPR_OR_def tri_order)
  show "EXPR_AND T_yes a = a" by (cases a) (simp_all add: EXPR_AND_def tri_order)
  show "EXPR_AND T_no a = T_no" by (cases a) (simp_all add: EXPR_AND_def tri_order)
  show "EXPR_NOT (EXPR_NOT a) = a" by (cases a) simp_all
  show "EXPR_NOT (EXPR_AND a b) = EXPR_OR (EXPR_NOT a) (EXPR_NOT b)"
    by (cases a; cases b) (simp_all add: EXPR_AND_def EXPR_OR_def tri_order)
  show "EXPR_NOT T_yes = T_no" by simp
qed

lemmas tri_unit [simp] = tri.unit_laws
declare tri.meet_idem [simp] tri.join_idem [simp] tri.neg_neg [simp]


section \<open>Symbols and expressions\<close>

text \<open>
  The address of a \<open>struct symbol\<close>: the four static symbols of \<open>symbol.c\<close> and the symbols
  the table allocates. Two pointers are equal exactly when the references are.
\<close>

datatype symref = SymYes | SymMod | SymNo | SymEmpty | SymId nat

datatype symbol_type =
  S_UNKNOWN | S_BOOLEAN | S_TRISTATE | S_INT | S_HEX | S_STRING | S_OTHER

datatype expr_type =
  E_NONE | E_OR | E_AND | E_NOT | E_EQUAL | E_UNEQUAL | E_LIST | E_SYMBOL | E_RANGE

datatype expr =
    ENone
  | EOr expr expr
  | EAnd expr expr
  | ENot expr
  | EEqual symref symref
  | EUnequal symref symref
  | EList "expr option" symref
  | ESymbol symref
  | ERange symref symref

fun etype :: "expr \<Rightarrow> expr_type" where
  "etype ENone = E_NONE"
| "etype (EOr _ _) = E_OR"
| "etype (EAnd _ _) = E_AND"
| "etype (ENot _) = E_NOT"
| "etype (EEqual _ _) = E_EQUAL"
| "etype (EUnequal _ _) = E_UNEQUAL"
| "etype (EList _ _) = E_LIST"
| "etype (ESymbol _) = E_SYMBOL"
| "etype (ERange _ _) = E_RANGE"

text \<open>
  What \<open>expr.c\<close> reads of the symbols: the type, the name, whether \<open>SYMBOL_CONST\<close> is set, and,
  once the symbol is calculated, \<open>curr.tri\<close> and the string of \<open>sym_get_string_value\<close>.
\<close>

record symview =
  sv_type :: "symref \<Rightarrow> symbol_type"
  sv_name :: "symref \<Rightarrow> cstring option"
  sv_const :: "symref \<Rightarrow> bool"
  sv_tri :: "symref \<Rightarrow> tristate"
  sv_str :: "symref \<Rightarrow> cstring"

text \<open>
  The expressions of dependencies: E\_LIST (the members of a choice), E\_RANGE (the bounds of
  a range) and E\_NONE only occur at the root of a property's expression.
\<close>

fun logical :: "expr \<Rightarrow> bool" where
  "logical (EOr l r) = (logical l \<and> logical r)"
| "logical (EAnd l r) = (logical l \<and> logical r)"
| "logical (ENot x) = logical x"
| "logical (EEqual _ _) = True"
| "logical (EUnequal _ _) = True"
| "logical (ESymbol _) = True"
| "logical _ = False"

fun nodes :: "expr \<Rightarrow> nat" where
  "nodes (EOr l r) = Suc (nodes l + nodes r)"
| "nodes (EAnd l r) = Suc (nodes l + nodes r)"
| "nodes (ENot x) = Suc (nodes x)"
| "nodes (EList (Some l) _) = Suc (nodes l)"
| "nodes _ = 1"

lemma nodes_pos [simp]: "0 < nodes e"
  by (cases e rule: nodes.cases) auto

lemma nodes_ge_1 [simp]: "Suc 0 \<le> nodes e"
  using nodes_pos [of e] by linarith

section \<open>Allocation, copying, freeing\<close>

definition expr_alloc_symbol :: "symref \<Rightarrow> expr" where
  "expr_alloc_symbol s = ESymbol s"

text \<open>The callers pass E\_NOT and E\_LIST (whose symbol they store next) to the first, E\_OR and
  E\_AND to the second, E\_EQUAL, E\_UNEQUAL and E\_RANGE to the third.\<close>

definition expr_alloc_one :: "expr_type \<Rightarrow> expr \<Rightarrow> expr" where
  "expr_alloc_one type ce = (if type = E_NOT then ENot ce else ENone)"

definition expr_alloc_two :: "expr_type \<Rightarrow> expr \<Rightarrow> expr \<Rightarrow> expr" where
  "expr_alloc_two type e1 e2 =
     (case type of E_OR \<Rightarrow> EOr e1 e2 | E_AND \<Rightarrow> EAnd e1 e2 | _ \<Rightarrow> ENone)"

definition expr_alloc_comp :: "expr_type \<Rightarrow> symref \<Rightarrow> symref \<Rightarrow> expr" where
  "expr_alloc_comp type s1 s2 =
     (case type of E_EQUAL \<Rightarrow> EEqual s1 s2 | E_UNEQUAL \<Rightarrow> EUnequal s1 s2
      | E_RANGE \<Rightarrow> ERange s1 s2 | _ \<Rightarrow> ENone)"

fun expr_alloc_and :: "expr option \<Rightarrow> expr option \<Rightarrow> expr option" where
  "expr_alloc_and None e2 = e2"
| "expr_alloc_and (Some e1) (Some e2) = Some (expr_alloc_two E_AND e1 e2)"
| "expr_alloc_and (Some e1) None = Some e1"

fun expr_alloc_or :: "expr option \<Rightarrow> expr option \<Rightarrow> expr option" where
  "expr_alloc_or None e2 = e2"
| "expr_alloc_or (Some e1) (Some e2) = Some (expr_alloc_two E_OR e1 e2)"
| "expr_alloc_or (Some e1) None = Some e1"

text \<open>
  \<open>expr_copy\<close> of a non-NULL expression. E\_NONE and E\_RANGE cannot be copied: the result is
  NULL, with a message. A connective over such an expression would be left with a NULL member,
  and an E\_LIST makes the code copy a symbol as if it were an expression; neither is a
  usable expression, and both are \<open>None\<close> here.
\<close>

fun expr_copy :: "expr \<Rightarrow> expr option" where
  "expr_copy (ESymbol s) = Some (ESymbol s)"
| "expr_copy (ENot x) = map_option ENot (expr_copy x)"
| "expr_copy (EEqual s t) = Some (EEqual s t)"
| "expr_copy (EUnequal s t) = Some (EUnequal s t)"
| "expr_copy (EAnd l r) =
     (case (expr_copy l, expr_copy r) of
        (Some l', Some r') \<Rightarrow> Some (EAnd l' r') | _ \<Rightarrow> None)"
| "expr_copy (EOr l r) =
     (case (expr_copy l, expr_copy r) of
        (Some l', Some r') \<Rightarrow> Some (EOr l' r') | _ \<Rightarrow> None)"
| "expr_copy _ = None"

lemma expr_copy_logical [simp]: "logical e \<Longrightarrow> expr_copy e = Some e"
  by (induction e rule: logical.induct) auto

lemma expr_copy_Some: "expr_copy e = Some e' \<Longrightarrow> e' = e \<and> logical e"
  by (induction e arbitrary: e' rule: expr_copy.induct) (auto split: option.splits)

text \<open>
  The nodes \<open>expr_free\<close> gives back to the allocator. The case of E\_NOT returns before the
  final \<open>free(e)\<close>. A list or a range only releases its own node.
\<close>

fun expr_free :: "expr \<Rightarrow> nat" where
  "expr_free (ENot x) = expr_free x"
| "expr_free (EOr l r) = expr_free l + expr_free r + 1"
| "expr_free (EAnd l r) = expr_free l + expr_free r + 1"
| "expr_free _ = 1"

fun not_nodes :: "expr \<Rightarrow> nat" where
  "not_nodes (ENot x) = Suc (not_nodes x)"
| "not_nodes (EOr l r) = not_nodes l + not_nodes r"
| "not_nodes (EAnd l r) = not_nodes l + not_nodes r"
| "not_nodes _ = 0"

lemma expr_free_nodes: "logical e \<Longrightarrow> expr_free e + not_nodes e = nodes e"
  by (induction e rule: logical.induct) auto

definition expr_is_yes :: "expr option \<Rightarrow> bool" where
  "expr_is_yes e = (case e of None \<Rightarrow> True | Some x \<Rightarrow> x = ESymbol SymYes)"

definition expr_is_no :: "expr option \<Rightarrow> bool" where
  "expr_is_no e = (case e of None \<Rightarrow> False | Some x \<Rightarrow> x = ESymbol SymNo)"

section \<open>The value of an expression\<close>

text \<open>
  \<open>expr_calc_value\<close> over symbols that have been calculated. E\_LIST, E\_RANGE and E\_NONE print a
  message and are \<open>no\<close>.
\<close>

fun expr_val :: "symview \<Rightarrow> expr \<Rightarrow> tristate" where
  "expr_val v (ESymbol s) = sv_tri v s"
| "expr_val v (EAnd l r) = EXPR_AND (expr_val v l) (expr_val v r)"
| "expr_val v (EOr l r) = EXPR_OR (expr_val v l) (expr_val v r)"
| "expr_val v (ENot x) = EXPR_NOT (expr_val v x)"
| "expr_val v (EEqual s t) = (if sv_str v s = sv_str v t then T_yes else T_no)"
| "expr_val v (EUnequal s t) = (if sv_str v s = sv_str v t then T_no else T_yes)"
| "expr_val v _ = T_no"

fun expr_val_opt :: "symview \<Rightarrow> expr option \<Rightarrow> tristate" where
  "expr_val_opt v None = T_yes"
| "expr_val_opt v (Some e) = expr_val v e"

lemma expr_val_alloc_and [kval]:
  "expr_val_opt v (expr_alloc_and a b) = EXPR_AND (expr_val_opt v a) (expr_val_opt v b)"
  by (cases a; cases b) (simp_all add: expr_alloc_two_def)

text \<open>
  The state of the symbols after \<open>sym_calc_value\<close>, as far as the rewriting functions rely on it:
  the three constants have their values and strings, a boolean symbol is not \<open>mod\<close>, the string of
  a boolean or tristate symbol tells its tristate, and different constants have different strings.
\<close>

fun tri_string :: "tristate \<Rightarrow> cstring" where
  "tri_string T_no = ''n''"
| "tri_string T_mod = ''m''"
| "tri_string T_yes = ''y''"

lemma tri_string_inject [simp]: "tri_string a = tri_string b \<longleftrightarrow> a = b"
  by (cases a; cases b) auto

definition sane :: "symview \<Rightarrow> bool" where
  "sane v \<longleftrightarrow>
     sv_tri v SymYes = T_yes \<and> sv_tri v SymMod = T_mod \<and> sv_tri v SymNo = T_no \<and>
     sv_str v SymYes = ''y'' \<and> sv_str v SymMod = ''m'' \<and> sv_str v SymNo = ''n'' \<and>
     (\<forall>s. sv_type v s = S_BOOLEAN \<longrightarrow> sv_tri v s \<noteq> T_mod) \<and>
     (\<forall>s. sv_type v s \<in> {S_BOOLEAN, S_TRISTATE} \<longrightarrow> sv_str v s = tri_string (sv_tri v s)) \<and>
     (\<forall>s t. sv_const v s \<longrightarrow> sv_const v t \<longrightarrow> sv_str v s = sv_str v t \<longrightarrow> s = t)"

lemma saneD:
  assumes "sane v"
  shows "sv_tri v SymYes = T_yes" "sv_tri v SymMod = T_mod" "sv_tri v SymNo = T_no"
    and "sv_str v SymYes = ''y''" "sv_str v SymMod = ''m''" "sv_str v SymNo = ''n''"
    and "sv_type v s = S_BOOLEAN \<Longrightarrow> sv_tri v s \<noteq> T_mod"
    and "sv_type v s = S_BOOLEAN \<Longrightarrow> sv_str v s = tri_string (sv_tri v s)"
    and "sv_type v s = S_TRISTATE \<Longrightarrow> sv_str v s = tri_string (sv_tri v s)"
    and "sv_const v s \<Longrightarrow> sv_const v t \<Longrightarrow> sv_str v s = sv_str v t \<Longrightarrow> s = t"
  using assms unfolding sane_def by simp_all

section \<open>Removing the constants y and n: expr\_eliminate\_yn\<close>

fun expr_eliminate_yn :: "expr \<Rightarrow> expr" where
  "expr_eliminate_yn (EAnd l r) =
     (let l' = expr_eliminate_yn l; r' = expr_eliminate_yn r in
      if l' = ESymbol SymNo then ESymbol SymNo
      else if l' = ESymbol SymYes then r'
      else if r' = ESymbol SymNo then ESymbol SymNo
      else if r' = ESymbol SymYes then l'
      else EAnd l' r')"
| "expr_eliminate_yn (EOr l r) =
     (let l' = expr_eliminate_yn l; r' = expr_eliminate_yn r in
      if l' = ESymbol SymNo then r'
      else if l' = ESymbol SymYes then ESymbol SymYes
      else if r' = ESymbol SymNo then l'
      else if r' = ESymbol SymYes then ESymbol SymYes
      else EOr l' r')"
| "expr_eliminate_yn e = e"

lemma expr_val_eliminate_yn [kval]:
  "sane v \<Longrightarrow> expr_val v (expr_eliminate_yn e) = expr_val v e"
proof (induction e rule: expr_eliminate_yn.induct)
  case (1 l r)
  then show ?case by (auto simp: Let_def saneD simp flip: "1.IH")
next
  case (2 l r)
  then show ?case by (auto simp: Let_def saneD simp flip: "2.IH")
qed auto

lemma nodes_eliminate_yn [knodes]: "nodes (expr_eliminate_yn e) \<le> nodes e"
  by (induction e rule: expr_eliminate_yn.induct) (auto simp: Let_def)

lemma logical_eliminate_yn [simp]: "logical e \<Longrightarrow> logical (expr_eliminate_yn e)"
  by (induction e rule: expr_eliminate_yn.induct) (auto simp: Let_def)

text \<open>No constant is left as a member of a connective that the function reaches.\<close>

fun yn_free :: "expr \<Rightarrow> bool" where
  "yn_free (EAnd l r) = (yn_free l \<and> yn_free r \<and> {l, r} \<inter> {ESymbol SymYes, ESymbol SymNo} = {})"
| "yn_free (EOr l r) = (yn_free l \<and> yn_free r \<and> {l, r} \<inter> {ESymbol SymYes, ESymbol SymNo} = {})"
| "yn_free _ = True"

lemma yn_free_eliminate_yn: "yn_free (expr_eliminate_yn e)"
  by (induction e rule: expr_eliminate_yn.induct) (auto simp: Let_def)

lemma eliminate_yn_id: "yn_free e \<Longrightarrow> expr_eliminate_yn e = e"
  by (induction e rule: yn_free.induct) (auto simp: Let_def)

section \<open>A concrete state of the symbols\<close>

text \<open>
  The four static symbols and tristate or boolean symbols with given values, as
  \<open>sym_calc_value\<close> leaves them.
\<close>

definition sample_view :: "(nat \<Rightarrow> symbol_type) \<Rightarrow> (nat \<Rightarrow> tristate) \<Rightarrow> symview" where
  "sample_view ty val =
     \<lparr> sv_type = (\<lambda>s. case s of SymId i \<Rightarrow> ty i | _ \<Rightarrow> S_UNKNOWN),
       sv_name = (\<lambda>s. case s of SymYes \<Rightarrow> Some ''y'' | SymMod \<Rightarrow> Some ''m'' | SymNo \<Rightarrow> Some ''n''
                    | SymEmpty \<Rightarrow> Some '''' | SymId i \<Rightarrow> Some (CHR ''S'' # dec_of_nat i)),
       sv_const = (\<lambda>s. s \<in> {SymYes, SymMod, SymNo}),
       sv_tri = (\<lambda>s. case s of SymYes \<Rightarrow> T_yes | SymMod \<Rightarrow> T_mod | SymId i \<Rightarrow> val i | _ \<Rightarrow> T_no),
       sv_str = (\<lambda>s. case s of SymYes \<Rightarrow> ''y'' | SymMod \<Rightarrow> ''m'' | SymNo \<Rightarrow> ''n'' | SymEmpty \<Rightarrow> ''''
                   | SymId i \<Rightarrow> tri_string (val i)) \<rparr>"

lemma sane_sample_view [simp]:
  "\<forall>i. ty i = S_BOOLEAN \<longrightarrow> val i \<noteq> T_mod \<Longrightarrow> sane (sample_view ty val)"
  by (auto simp: sane_def sample_view_def split: symref.splits)

lemmas sample_view_simps [simp] = sample_view_def [THEN arg_cong, of sv_type, simplified]
  sample_view_def [THEN arg_cong, of sv_tri, simplified]
  sample_view_def [THEN arg_cong, of sv_str, simplified]
  sample_view_def [THEN arg_cong, of sv_const, simplified]

section \<open>Properties\<close>

text \<open>
  C19: \<open>expr_eliminate_yn\<close> keeps the value of every expression, never makes it larger, leaves no
  constant y or n as a member of a connective it reaches, and has nothing more to do after that.
\<close>

theorem eliminate_yn_correct:
  assumes "sane v"
  shows "expr_val v (expr_eliminate_yn e) = expr_val v e \<and>
    nodes (expr_eliminate_yn e) \<le> nodes e \<and> yn_free (expr_eliminate_yn e) \<and>
    expr_eliminate_yn (expr_eliminate_yn e) = expr_eliminate_yn e"
  using assms by (simp add: kval knodes yn_free_eliminate_yn eliminate_yn_id)

theorem eliminate_yn_correct_witness:
  "expr_val (sample_view (\<lambda>_. S_TRISTATE) (\<lambda>_. T_mod))
     (expr_eliminate_yn (EAnd (EOr (ESymbol (SymId 0)) (ESymbol SymNo)) (ESymbol SymYes))) = T_mod"
  using eliminate_yn_correct [of "sample_view (\<lambda>_. S_TRISTATE) (\<lambda>_. T_mod)"
      "EAnd (EOr (ESymbol (SymId 0)) (ESymbol SymNo)) (ESymbol SymYes)"]
  by simp

end
