(* ===== verification/Kequal.thy ===== *)
theory Kequal
  imports Kexpr
begin

text \<open>
  Comparing expressions and taking out what two of them share: \<open>__expr_eliminate_eq\<close>,
  \<open>expr_eliminate_eq\<close>, \<open>expr_eq\<close>, \<open>expr_extract_eq\<close> of \<open>expr.c\<close>. The functions walk down both
  arguments through the connective in question and do something with every pair of members;
  the walk is \<open>descend\<close>, over a step for a pair of members (locale \<open>member_step\<close>), and
  \<open>descend_unfold\<close> is the recursion of the C code. \<open>expr_eq\<close> of two conjunctions (or
  disjunctions) cancels common members in copies of both and looks whether the same symbol is
  left, so it calls itself through \<open>expr_eliminate_eq\<close>; it ends because the members compared
  are smaller (\<open>eliminate_eq_by_cong\<close>). The invariant of all of them is \<open>shares\<close>: what was
  removed from the two sides has the same value.
\<close>

section \<open>The walk over both arguments\<close>

text \<open>
  \<open>descend_right\<close> is the part where \<open>e1\<close> is not of the type. The state \<open>s\<close> is what the walk
  carries along: \<open>trans_count\<close> or the extracted expression.
\<close>

fun descend_right ::
  "('s \<Rightarrow> expr \<Rightarrow> expr \<Rightarrow> 's \<times> expr \<times> expr) \<Rightarrow> expr_type \<Rightarrow> 's \<Rightarrow> expr \<Rightarrow> expr \<Rightarrow> 's \<times> expr \<times> expr" where
  "descend_right step type s e1 (EAnd l r) =
     (if type = E_AND
      then (let (s, e1, l) = descend_right step type s e1 l;
                (s, e1, r) = descend_right step type s e1 r
            in (s, e1, EAnd l r))
      else step s e1 (EAnd l r))"
| "descend_right step type s e1 (EOr l r) =
     (if type = E_OR
      then (let (s, e1, l) = descend_right step type s e1 l;
                (s, e1, r) = descend_right step type s e1 r
            in (s, e1, EOr l r))
      else step s e1 (EOr l r))"
| "descend_right step type s e1 e2 = step s e1 e2"

fun descend ::
  "('s \<Rightarrow> expr \<Rightarrow> expr \<Rightarrow> 's \<times> expr \<times> expr) \<Rightarrow> expr_type \<Rightarrow> 's \<Rightarrow> expr \<Rightarrow> expr \<Rightarrow> 's \<times> expr \<times> expr" where
  "descend step type s (EAnd l r) e2 =
     (if type = E_AND
      then (let (s, l, e2) = descend step type s l e2;
                (s, r, e2) = descend step type s r e2
            in (s, EAnd l r, e2))
      else descend_right step type s (EAnd l r) e2)"
| "descend step type s (EOr l r) e2 =
     (if type = E_OR
      then (let (s, l, e2) = descend step type s l e2;
                (s, r, e2) = descend step type s r e2
            in (s, EOr l r, e2))
      else descend_right step type s (EOr l r) e2)"
| "descend step type s e1 e2 = descend_right step type s e1 e2"

lemma descend_not_type:
  "etype e1 \<noteq> t \<Longrightarrow> descend step t s e1 e2 = descend_right step t s e1 e2"
  by (cases e1) auto

text \<open>
  A step for members never makes a side larger, and what it puts in the place of a member is
  not of the type of the walk either.
\<close>

locale member_step =
  fixes step :: "'s \<Rightarrow> expr \<Rightarrow> expr \<Rightarrow> 's \<times> expr \<times> expr" and t :: expr_type
  assumes step_nodes: "step s x y = (s', a, b) \<Longrightarrow> nodes a \<le> nodes x \<and> nodes b \<le> nodes y"
    and step_type: "step s x y = (s', a, b) \<Longrightarrow> t \<noteq> E_SYMBOL \<Longrightarrow>
      etype x \<noteq> t \<Longrightarrow> etype a \<noteq> t"
begin

lemma descend_right_nodes:
  "descend_right step t s e1 e2 = (s', a, b) \<Longrightarrow> nodes a \<le> nodes e1 \<and> nodes b \<le> nodes e2"
proof (induction e2 arbitrary: s e1 s' a b)
  case (EAnd l r)
  then show ?case by (fastforce dest: step_nodes split: if_splits prod.splits)
next
  case (EOr l r)
  then show ?case by (fastforce dest: step_nodes split: if_splits prod.splits)
qed (auto dest: step_nodes)

lemma descend_nodes:
  "descend step t s e1 e2 = (s', a, b) \<Longrightarrow> nodes a \<le> nodes e1 \<and> nodes b \<le> nodes e2"
proof (induction e1 arbitrary: s e2 s' a b)
  case (EAnd l r)
  then show ?case by (fastforce dest: descend_right_nodes split: if_splits prod.splits)
next
  case (EOr l r)
  then show ?case by (fastforce dest: descend_right_nodes split: if_splits prod.splits)
qed (auto dest: descend_right_nodes)

lemma descend_right_type:
  "t \<noteq> E_SYMBOL \<Longrightarrow> descend_right step t s e1 e2 = (s', a, b) \<Longrightarrow> etype e1 \<noteq> t \<Longrightarrow> etype a \<noteq> t"
proof (induction e2 arbitrary: s e1 s' a b)
  case (EAnd l r)
  then show ?case by (fastforce dest: step_type split: if_splits prod.splits)
next
  case (EOr l r)
  then show ?case by (fastforce dest: step_type split: if_splits prod.splits)
qed (auto dest: step_type)

text \<open>The recursion of the C code: both branches call the function itself.\<close>

lemma descend_unfold:
  "descend step t s e1 e2 =
     (case e1 of
        EAnd l r \<Rightarrow> if t = E_AND
          then (let (s, l, e2) = descend step t s l e2; (s, r, e2) = descend step t s r e2
                in (s, EAnd l r, e2))
          else descend_right step t s e1 e2
      | EOr l r \<Rightarrow> if t = E_OR
          then (let (s, l, e2) = descend step t s l e2; (s, r, e2) = descend step t s r e2
                in (s, EOr l r, e2))
          else descend_right step t s e1 e2
      | _ \<Rightarrow> descend_right step t s e1 e2)"
  by (cases e1) auto

lemma descend_unfold_right:
  "t \<noteq> E_SYMBOL \<Longrightarrow> etype e1 \<noteq> t \<Longrightarrow> descend step t s e1 e2 =
     (case e2 of
        EAnd l r \<Rightarrow> if t = E_AND
          then (let (s, e1, l) = descend step t s e1 l; (s, e1, r) = descend step t s e1 r
                in (s, e1, EAnd l r))
          else step s e1 e2
      | EOr l r \<Rightarrow> if t = E_OR
          then (let (s, e1, l) = descend step t s e1 l; (s, e1, r) = descend step t s e1 r
                in (s, e1, EOr l r))
          else step s e1 e2
      | _ \<Rightarrow> step s e1 e2)"
  using descend_right_type [of s e1]
  by (cases e2) (auto simp: descend_not_type split: prod.splits)

text \<open>Only pairs of members are looked at, each no larger than the side it comes from.\<close>

lemma descend_right_cong_le:
  "(\<And>s x y. nodes x \<le> nodes e1 \<Longrightarrow> nodes y \<le> nodes e2 \<Longrightarrow> step' s x y = step s x y) \<Longrightarrow>
   descend_right step' t s e1 e2 = descend_right step t s e1 e2"
proof (induction e2 arbitrary: s e1)
  case (EAnd l r)
  have l: "descend_right step' t s e1 l = descend_right step t s e1 l"
    by (rule EAnd.IH) (use EAnd.prems in simp)
  have r: "\<And>s x. nodes x \<le> nodes e1 \<Longrightarrow> descend_right step' t s x r = descend_right step t s x r"
    by (rule EAnd.IH) (use EAnd.prems in simp)
  have m: "step' s e1 (EAnd l r) = step s e1 (EAnd l r)" by (rule EAnd.prems) simp_all
  obtain s' a b where g: "descend_right step t s e1 l = (s', a, b)" by (metis prod_cases3)
  with l r [of a s'] m descend_right_nodes [OF g] show ?case
    by (cases "t = E_AND") simp_all
next
  case (EOr l r)
  have l: "descend_right step' t s e1 l = descend_right step t s e1 l"
    by (rule EOr.IH) (use EOr.prems in simp)
  have r: "\<And>s x. nodes x \<le> nodes e1 \<Longrightarrow> descend_right step' t s x r = descend_right step t s x r"
    by (rule EOr.IH) (use EOr.prems in simp)
  have m: "step' s e1 (EOr l r) = step s e1 (EOr l r)" by (rule EOr.prems) simp_all
  obtain s' a b where g: "descend_right step t s e1 l = (s', a, b)" by (metis prod_cases3)
  with l r [of a s'] m descend_right_nodes [OF g] show ?case
    by (cases "t = E_OR") simp_all
qed auto

lemma descend_cong_le:
  "(\<And>s x y. nodes x \<le> nodes e1 \<Longrightarrow> nodes y \<le> nodes e2 \<Longrightarrow> step' s x y = step s x y) \<Longrightarrow>
   descend step' t s e1 e2 = descend step t s e1 e2"
proof (induction e1 arbitrary: s e2)
  case (EAnd l r)
  have l: "descend step' t s l e2 = descend step t s l e2"
    by (rule EAnd.IH) (use EAnd.prems in simp)
  have r: "\<And>s y. nodes y \<le> nodes e2 \<Longrightarrow> descend step' t s r y = descend step t s r y"
    by (rule EAnd.IH) (use EAnd.prems in simp)
  have m: "descend_right step' t s (EAnd l r) e2 = descend_right step t s (EAnd l r) e2"
    by (rule descend_right_cong_le) (rule EAnd.prems)
  obtain s' a b where g: "descend step t s l e2 = (s', a, b)" by (metis prod_cases3)
  with l r [of b s'] m descend_nodes [OF g] show ?case
    by (cases "t = E_AND") simp_all
next
  case (EOr l r)
  have l: "descend step' t s l e2 = descend step t s l e2"
    by (rule EOr.IH) (use EOr.prems in simp)
  have r: "\<And>s y. nodes y \<le> nodes e2 \<Longrightarrow> descend step' t s r y = descend step t s r y"
    by (rule EOr.IH) (use EOr.prems in simp)
  have m: "descend_right step' t s (EOr l r) e2 = descend_right step t s (EOr l r) e2"
    by (rule descend_right_cong_le) (rule EOr.prems)
  obtain s' a b where g: "descend step t s l e2 = (s', a, b)" by (metis prod_cases3)
  with l r [of b s'] m descend_nodes [OF g] show ?case
    by (cases "t = E_OR") simp_all
qed (auto intro: descend_right_cong_le)

text \<open>The members are strictly smaller as soon as one side is split.\<close>

lemma descend_right_cong_less:
  assumes "\<And>s x y. nodes x + nodes y < nodes e1 + nodes e2 \<Longrightarrow> step' s x y = step s x y"
    and "etype e2 = t" "t \<in> {E_OR, E_AND}"
  shows "descend_right step' t s e1 e2 = descend_right step t s e1 e2"
proof -
  have sub: "descend_right step' t s x y = descend_right step t s x y"
    if "nodes x \<le> nodes e1" "nodes y < nodes e2" for s x y
    by (rule descend_right_cong_le) (use assms(1) that in simp)
  from assms(2,3) show ?thesis
  proof (cases e2)
    case (EAnd l r)
    obtain s' a b where g: "descend_right step t s e1 l = (s', a, b)" by (metis prod_cases3)
    from EAnd sub [of e1 l s] sub [of a r s'] descend_right_nodes [OF g] g assms(2)
    show ?thesis by simp
  next
    case (EOr l r)
    obtain s' a b where g: "descend_right step t s e1 l = (s', a, b)" by (metis prod_cases3)
    from EOr sub [of e1 l s] sub [of a r s'] descend_right_nodes [OF g] g assms(2)
    show ?thesis by simp
  qed auto
qed

lemma descend_cong_less:
  assumes "\<And>s x y. nodes x + nodes y < nodes e1 + nodes e2 \<Longrightarrow> step' s x y = step s x y"
    and "etype e1 = t \<or> etype e2 = t" "t \<in> {E_OR, E_AND}"
  shows "descend step' t s e1 e2 = descend step t s e1 e2"
proof (cases "etype e1 = t")
  case True
  have sub: "descend step' t s x y = descend step t s x y"
    if "nodes x < nodes e1" "nodes y \<le> nodes e2" for s x y
    by (rule descend_cong_le) (use assms(1) that in simp)
  from True assms(3) show ?thesis
  proof (cases e1)
    case (EAnd l r)
    obtain s' a b where g: "descend step t s l e2 = (s', a, b)" by (metis prod_cases3)
    from EAnd sub [of l e2 s] sub [of r b s'] descend_nodes [OF g] g True show ?thesis by simp
  next
    case (EOr l r)
    obtain s' a b where g: "descend step t s l e2 = (s', a, b)" by (metis prod_cases3)
    from EOr sub [of l e2 s] sub [of r b s'] descend_nodes [OF g] g True show ?thesis by simp
  qed auto
next
  case False
  have "descend_right step' t s e1 e2 = descend_right step t s e1 e2"
    by (rule descend_right_cong_less [OF assms(1)]) (use assms(2,3) False in simp_all)
  then show ?thesis by (simp only: descend_not_type [OF False])
qed

end

section \<open>What is removed from both sides has the same value\<close>

definition neutral :: "expr_type \<Rightarrow> expr" where
  "neutral type = (if type = E_OR then ESymbol SymNo else ESymbol SymYes)"

lemma neutral_simps [simp]:
  "nodes (neutral t) = 1" "etype (neutral t) = E_SYMBOL" "logical (neutral t)"
  by (simp_all add: neutral_def)

definition opv :: "expr_type \<Rightarrow> tristate \<Rightarrow> tristate \<Rightarrow> tristate" where
  "opv t a b = (if t = E_OR then EXPR_OR a b else EXPR_AND a b)"

lemma opv_assoc: "opv t (opv t a b) c = opv t a (opv t b c)"
  by (simp add: opv_def tri.meet_assoc tri.join_assoc)

lemma opv_commute: "opv t a b = opv t b a"
  by (simp add: opv_def tri.meet_commute tri.join_commute)

lemma opv_left_commute: "opv t a (opv t b c) = opv t b (opv t a c)"
  by (metis opv_assoc opv_commute)

lemmas opv_ac = opv_assoc opv_commute opv_left_commute

lemma opv_neutral [simp]:
  "sane v \<Longrightarrow> opv t a (expr_val v (neutral t)) = a"
  "sane v \<Longrightarrow> opv t (expr_val v (neutral t)) a = a"
  by (simp_all add: opv_def neutral_def saneD)

lemma opv_idem [simp]: "opv t a a = a"
  by (simp add: opv_def)

definition shares :: "symview \<Rightarrow> expr_type \<Rightarrow> expr \<times> expr \<Rightarrow> expr \<times> expr \<Rightarrow> bool" where
  "shares v t p q \<longleftrightarrow> (\<exists>m. expr_val v (fst p) = opv t m (expr_val v (fst q)) \<and>
                        expr_val v (snd p) = opv t m (expr_val v (snd q)))"

lemma shares_refl: "sane v \<Longrightarrow> shares v t p p"
  unfolding shares_def
  by (rule exI [of _ "expr_val v (neutral t)"]) simp

lemma shares_neutral:
  "sane v \<Longrightarrow> expr_val v e1 = expr_val v e2 \<Longrightarrow> shares v t (e1, e2) (neutral t, neutral t)"
  unfolding shares_def by (intro exI [of _ "expr_val v e1"]) simp

lemma shares_split_right:
  assumes "shares v t (e1, l) (a, l')" "shares v t (a, r) (a', r')"
    and "expr_val v e2 = opv t (expr_val v l) (expr_val v r)"
    and "expr_val v e2' = opv t (expr_val v l') (expr_val v r')"
  shows "shares v t (e1, e2) (a', e2')"
proof -
  obtain m n where "expr_val v e1 = opv t m (expr_val v a)" "expr_val v l = opv t m (expr_val v l')"
    "expr_val v a = opv t n (expr_val v a')" "expr_val v r = opv t n (expr_val v r')"
    using assms(1,2) unfolding shares_def by auto
  then show ?thesis
    unfolding shares_def by (intro exI [of _ "opv t m n"]) (simp add: assms(3,4) opv_ac)
qed

lemma shares_sym: "shares v t (a, b) (c, d) \<Longrightarrow> shares v t (b, a) (d, c)"
  unfolding shares_def by auto

lemma shares_split_left:
  assumes "shares v t (l, e2) (l', b)" "shares v t (r, b) (r', b')"
    and "expr_val v e1 = opv t (expr_val v l) (expr_val v r)"
    and "expr_val v e1' = opv t (expr_val v l') (expr_val v r')"
  shows "shares v t (e1, e2) (e1', b')"
  by (rule shares_sym, rule shares_split_right [OF shares_sym shares_sym]) (rule assms)+

lemma expr_val_conn:
  "expr_val v (EAnd l r) = opv E_AND (expr_val v l) (expr_val v r)"
  "expr_val v (EOr l r) = opv E_OR (expr_val v l) (expr_val v r)"
  by (simp_all add: opv_def)

lemma shares_descend_right:
  assumes "\<And>s x y s' a b. step s x y = (s', a, b) \<Longrightarrow> shares v t (x, y) (a, b)"
  shows "descend_right step t s e1 e2 = (s', a, b) \<Longrightarrow> shares v t (e1, e2) (a, b)"
proof (induction e2 arbitrary: s e1 s' a b)
  case (EAnd l r)
  show ?case
  proof (cases "t = E_AND")
    case True
    with EAnd.prems obtain s1 a1 l' r' where
      d: "descend_right step t s e1 l = (s1, a1, l')" "descend_right step t s1 a1 r = (s', a, r')"
      and b: "b = EAnd l' r'"
      by (auto split: prod.splits)
    from EAnd.IH(1) [OF d(1)] EAnd.IH(2) [OF d(2)] show ?thesis
      unfolding b True by (rule shares_split_right [OF _ _ expr_val_conn(1) expr_val_conn(1)])
  next
    case False
    with EAnd.prems show ?thesis by (simp add: assms)
  qed
next
  case (EOr l r)
  show ?case
  proof (cases "t = E_OR")
    case True
    with EOr.prems obtain s1 a1 l' r' where
      d: "descend_right step t s e1 l = (s1, a1, l')" "descend_right step t s1 a1 r = (s', a, r')"
      and b: "b = EOr l' r'"
      by (auto split: prod.splits)
    from EOr.IH(1) [OF d(1)] EOr.IH(2) [OF d(2)] show ?thesis
      unfolding b True by (rule shares_split_right [OF _ _ expr_val_conn(2) expr_val_conn(2)])
  next
    case False
    with EOr.prems show ?thesis by (simp add: assms)
  qed
qed (simp_all add: assms)

lemma shares_descend:
  assumes "\<And>s x y s' a b. step s x y = (s', a, b) \<Longrightarrow> shares v t (x, y) (a, b)"
  shows "descend step t s e1 e2 = (s', a, b) \<Longrightarrow> shares v t (e1, e2) (a, b)"
proof (induction e1 arbitrary: s e2 s' a b)
  case (EAnd l r)
  show ?case
  proof (cases "t = E_AND")
    case True
    with EAnd.prems obtain s1 b1 l' r' where
      d: "descend step t s l e2 = (s1, l', b1)" "descend step t s1 r b1 = (s', r', b)"
      and a: "a = EAnd l' r'"
      by (auto split: prod.splits)
    from EAnd.IH(1) [OF d(1)] EAnd.IH(2) [OF d(2)] show ?thesis
      unfolding a True by (rule shares_split_left [OF _ _ expr_val_conn(1) expr_val_conn(1)])
  next
    case False
    with EAnd.prems show ?thesis by (simp add: shares_descend_right [OF assms])
  qed
next
  case (EOr l r)
  show ?case
  proof (cases "t = E_OR")
    case True
    with EOr.prems obtain s1 b1 l' r' where
      d: "descend step t s l e2 = (s1, l', b1)" "descend step t s1 r b1 = (s', r', b)"
      and a: "a = EOr l' r'"
      by (auto split: prod.splits)
    from EOr.IH(1) [OF d(1)] EOr.IH(2) [OF d(2)] show ?thesis
      unfolding a True by (rule shares_split_left [OF _ _ expr_val_conn(2) expr_val_conn(2)])
  next
    case False
    with EOr.prems show ?thesis by (simp add: shares_descend_right [OF assms])
  qed
qed (simp_all add: shares_descend_right [OF assms])

section \<open>__expr\_eliminate\_eq, expr\_eliminate\_eq, expr\_eq\<close>

text \<open>
  The end of \<open>__expr_eliminate_eq\<close>, for two members: equal members become the neutral symbol of
  the connective, unless both are the symbol y or both are n. The state is \<open>trans_count\<close>;
  \<open>type\<close> is E\_OR or E\_AND.
\<close>

definition elim_eq_members ::
  "(expr \<Rightarrow> expr \<Rightarrow> bool) \<Rightarrow> expr_type \<Rightarrow> nat \<Rightarrow> expr \<Rightarrow> expr \<Rightarrow> nat \<times> expr \<times> expr" where
  "elim_eq_members eq type trans_count e1 e2 =
     (if etype e1 = E_SYMBOL \<and> etype e2 = E_SYMBOL \<and> e1 = e2 \<and>
         (e1 = ESymbol SymYes \<or> e1 = ESymbol SymNo) then (trans_count, e1, e2)
      else if \<not> eq e1 e2 then (trans_count, e1, e2)
      else (trans_count + 1, neutral type, neutral type))"

interpretation elim: member_step "elim_eq_members eq t" t
  for eq :: "expr \<Rightarrow> expr \<Rightarrow> bool" and t
  by unfold_locales (auto simp: elim_eq_members_def split: if_splits)

definition eliminate_eq_by ::
  "(expr \<Rightarrow> expr \<Rightarrow> bool) \<Rightarrow> nat \<Rightarrow> expr \<Rightarrow> expr \<Rightarrow> nat \<times> expr \<times> expr" where
  "eliminate_eq_by eq trans_count e1 e2 =
     (let (c, a, b) =
            (if etype e1 \<in> {E_OR, E_AND}
             then descend (elim_eq_members eq (etype e1)) (etype e1) trans_count e1 e2
             else (trans_count, e1, e2));
          (c, a, b) =
            (if etype a \<noteq> etype b \<and> etype b \<in> {E_OR, E_AND}
             then descend (elim_eq_members eq (etype b)) (etype b) c a b
             else (c, a, b))
      in (c, expr_eliminate_yn a, expr_eliminate_yn b))"

text \<open>The function only compares expressions that are smaller than its arguments.\<close>

lemma elim_eq_members_cong:
  "eq' e1 e2 = eq e1 e2 \<Longrightarrow> elim_eq_members eq' t c e1 e2 = elim_eq_members eq t c e1 e2"
  by (cases "e1 = e2") (simp_all add: elim_eq_members_def)

lemma elim_descend_cong:
  assumes "\<And>x y. nodes x + nodes y < N \<Longrightarrow> f x y = g x y"
    and "nodes e1 + nodes e2 \<le> N" "etype e1 = t \<or> etype e2 = t" "t \<in> {E_OR, E_AND}"
  shows "descend (elim_eq_members f t) t c e1 e2 = descend (elim_eq_members g t) t c e1 e2"
  by (rule elim.descend_cong_less) (use assms in \<open>auto intro!: elim_eq_members_cong\<close>)

lemma eliminate_eq_by_cong [fundef_cong]:
  assumes "c = c'" "e1 = e1'" "e2 = e2'"
    and fg: "\<And>x y. nodes x + nodes y < nodes e1' + nodes e2' \<Longrightarrow> f x y = g x y"
  shows "eliminate_eq_by f c e1 e2 = eliminate_eq_by g c' e1' e2'"
proof -
  let ?r = "\<lambda>h. if etype e1' \<in> {E_OR, E_AND}
      then descend (elim_eq_members h (etype e1')) (etype e1') c' e1' e2' else (c', e1', e2')"
  have 1: "?r f = ?r g"
  proof (cases "etype e1' \<in> {E_OR, E_AND}")
    case True
    have "descend (elim_eq_members f (etype e1')) (etype e1') c' e1' e2' =
          descend (elim_eq_members g (etype e1')) (etype e1') c' e1' e2'"
      by (rule elim_descend_cong [where N = "nodes e1' + nodes e2'"]) (use fg True in simp_all)
    then show ?thesis by simp
  qed simp
  obtain d a b where r: "?r g = (d, a, b)" by (metis prod_cases3)
  have "nodes a \<le> nodes e1' \<and> nodes b \<le> nodes e2'"
    using r elim.descend_nodes [of g "etype e1'" c' e1' e2' d a b] by (auto split: if_splits)
  then have "nodes a + nodes b \<le> nodes e1' + nodes e2'" by simp
  then have 2: "descend (elim_eq_members f (etype b)) (etype b) d a b =
      descend (elim_eq_members g (etype b)) (etype b) d a b" if "etype b \<in> {E_OR, E_AND}"
    by (intro elim_descend_cong [where N = "nodes e1' + nodes e2'"]) (use fg that in simp_all)
  show ?thesis
  proof (cases "etype b \<in> {E_OR, E_AND}")
    case True
    show ?thesis unfolding eliminate_eq_by_def assms(1-3) 1 r Let_def prod.case 2 [OF True] ..
  next
    case False
    show ?thesis unfolding eliminate_eq_by_def assms(1-3) 1 r Let_def prod.case
      by (simp only: False if_False HOL.simp_thms)
  qed
qed

definition same_symbol :: "nat \<times> expr \<times> expr \<Rightarrow> bool" where
  "same_symbol r = (case r of (_, a, b) \<Rightarrow> etype a = E_SYMBOL \<and> etype b = E_SYMBOL \<and> a = b)"

text \<open>\<open>expr_eq\<close> puts \<open>trans_count\<close> back, so that its value in the nested call does not matter.\<close>

function expr_eq :: "expr \<Rightarrow> expr \<Rightarrow> bool" where
  "expr_eq e1 e2 =
     (if etype e1 \<noteq> etype e2 then False
      else case e1 of
        EEqual _ _ \<Rightarrow> e1 = e2
      | EUnequal _ _ \<Rightarrow> e1 = e2
      | ESymbol _ \<Rightarrow> e1 = e2
      | ENot x1 \<Rightarrow> (case e2 of ENot x2 \<Rightarrow> expr_eq x1 x2 | _ \<Rightarrow> False)
      | EAnd _ _ \<Rightarrow> same_symbol (eliminate_eq_by expr_eq 0 e1 e2)
      | EOr _ _ \<Rightarrow> same_symbol (eliminate_eq_by expr_eq 0 e1 e2)
      | _ \<Rightarrow> False)"
  by pat_completeness auto
termination
  by (relation "measure (\<lambda>(e1, e2). nodes e1 + nodes e2)") auto

declare expr_eq.simps [simp del]

lemmas expr_eq_simps =
  expr_eq.simps [of ENone] expr_eq.simps [of "EOr l r" for l r] expr_eq.simps [of "EAnd l r" for l r]
  expr_eq.simps [of "ENot x" for x] expr_eq.simps [of "EEqual s t" for s t]
  expr_eq.simps [of "EUnequal s t" for s t] expr_eq.simps [of "EList l s" for l s]
  expr_eq.simps [of "ESymbol s" for s] expr_eq.simps [of "ERange s t" for s t]

definition expr_eliminate_eq ::
  "nat \<Rightarrow> expr option \<Rightarrow> expr option \<Rightarrow> nat \<times> expr option \<times> expr option" where
  "expr_eliminate_eq trans_count ep1 ep2 =
     (case (ep1, ep2) of
        (Some e1, Some e2) \<Rightarrow>
          (let (c, a, b) = eliminate_eq_by expr_eq trans_count e1 e2 in (c, Some a, Some b))
      | _ \<Rightarrow> (trans_count, ep1, ep2))"

lemma elim_shares:
  assumes "sane v" "\<And>x y. eq x y \<Longrightarrow> expr_val v x = expr_val v y"
    and "descend (elim_eq_members eq t) t c e1 e2 = (c', a, b)"
  shows "shares v t (e1, e2) (a, b)"
proof (rule shares_descend [OF _ assms(3)])
  fix s x y s' a b
  assume "elim_eq_members eq t s x y = (s', a, b)"
  with assms(1,2) show "shares v t (x, y) (a, b)"
    by (auto simp: elim_eq_members_def shares_refl shares_neutral split: if_splits)
qed

text \<open>What \<open>expr_eliminate_eq\<close> leaves: two factors taken out, one for each walk.\<close>

lemma eliminate_eq_by_shares:
  assumes "sane v" "\<And>x y. eq x y \<Longrightarrow> expr_val v x = expr_val v y"
    and "eliminate_eq_by eq c e1 e2 = (c', a, b)"
  obtains t t' a' b' a'' b'' where
    "shares v t (e1, e2) (a', b')" "shares v t' (a', b') (a'', b'')"
    "expr_val v a'' = expr_val v a" "expr_val v b'' = expr_val v b"
    "etype e1 = etype e2 \<Longrightarrow> etype e1 \<in> {E_OR, E_AND} \<Longrightarrow> t = etype e1"
proof -
  let ?r = "if etype e1 \<in> {E_OR, E_AND}
      then descend (elim_eq_members eq (etype e1)) (etype e1) c e1 e2 else (c, e1, e2)"
  obtain d a' b' where r: "?r = (d, a', b')" by (metis prod_cases3)
  let ?q = "if etype a' \<noteq> etype b' \<and> etype b' \<in> {E_OR, E_AND}
      then descend (elim_eq_members eq (etype b')) (etype b') d a' b' else (d, a', b')"
  obtain d' a'' b'' where q: "?q = (d', a'', b'')" by (metis prod_cases3)
  have "shares v (etype e1) (e1, e2) (a', b')"
    using r elim_shares [OF assms(1,2)] by (auto simp: shares_refl [OF assms(1)] split: if_splits)
  moreover have "shares v (etype b') (a', b') (a'', b'')"
    using q elim_shares [OF assms(1,2)] by (auto simp: shares_refl [OF assms(1)] split: if_splits)
  moreover have "a = expr_eliminate_yn a''" "b = expr_eliminate_yn b''"
    using assms(3) unfolding eliminate_eq_by_def r Let_def prod.case q by simp_all
  ultimately show thesis
    using that by (metis expr_val_eliminate_yn [OF assms(1)])
qed

section \<open>Equal expressions have equal values\<close>

lemma shares_val:
  "shares v t (a, b) (c, d) \<Longrightarrow> expr_val v c = expr_val v d \<Longrightarrow> expr_val v a = expr_val v b"
  unfolding shares_def by auto

lemma eliminate_eq_by_val:
  assumes "sane v" "\<And>x y. eq x y \<Longrightarrow> expr_val v x = expr_val v y"
    and "eliminate_eq_by eq c e1 e2 = (c', a, b)" "expr_val v a = expr_val v b"
  shows "expr_val v e1 = expr_val v e2"
  using eliminate_eq_by_shares [OF assms(1-3)] shares_val assms(4) by metis

lemma expr_eq_sound:
  "sane v \<Longrightarrow> expr_eq e1 e2 \<Longrightarrow> expr_val v e1 = expr_val v e2"
proof (induction "nodes e1 + nodes e2" arbitrary: e1 e2 rule: less_induct)
  case less
  define eq where "eq x y = (expr_eq x y \<and> nodes x + nodes y < nodes e1 + nodes e2)" for x y
  have eq: "eliminate_eq_by expr_eq 0 e1 e2 = eliminate_eq_by eq 0 e1 e2"
    by (rule eliminate_eq_by_cong) (simp_all add: eq_def)
  have sound: "eq x y \<Longrightarrow> expr_val v x = expr_val v y" for x y
    using less.hyps less.prems(1) by (auto simp: eq_def)
  have conn: "expr_val v e1 = expr_val v e2" if "same_symbol (eliminate_eq_by expr_eq 0 e1 e2)"
  proof -
    obtain c a b where r: "eliminate_eq_by eq 0 e1 e2 = (c, a, b)" by (metis prod_cases3)
    with that have "a = b" by (simp add: eq same_symbol_def)
    with eliminate_eq_by_val [OF less.prems(1) sound r] show ?thesis by simp
  qed
  from less.prems(2) show ?case
  proof (cases e1)
    case (ENot x1)
    with less.prems(2) obtain x2 where e2: "e2 = ENot x2" "expr_eq x1 x2"
      by (cases e2) (auto simp: expr_eq_simps)
    with less.hyps [of x1 x2] less.prems(1) ENot show ?thesis by simp
  qed (use less.prems(2) conn in \<open>auto simp: expr_eq_simps split: if_splits\<close>)
qed

lemma expr_eq_refl_leaf [simp]:
  "expr_eq (ESymbol s) (ESymbol s)" "expr_eq (EEqual s t) (EEqual s t)"
  "expr_eq (EUnequal s t) (EUnequal s t)"
  by (simp_all add: expr_eq_simps)

text \<open>
  The other direction does not hold, and \<open>expr_eq\<close> does not even know that an expression is
  itself: a double negation is only compared by its inner expressions, but members that cancel
  leave a connective of its constants, which \<open>expr_eliminate_yn\<close> folds.
\<close>

section \<open>expr\_extract\_eq\<close>

text \<open>The end of \<open>expr_extract_eq\<close> for two members; the state is \<open>*ep\<close>.\<close>

definition extract_members ::
  "expr_type \<Rightarrow> expr option \<Rightarrow> expr \<Rightarrow> expr \<Rightarrow> expr option \<times> expr \<times> expr" where
  "extract_members type ep e1 e2 =
     (if expr_eq e1 e2
      then (Some (case ep of None \<Rightarrow> e1 | Some x \<Rightarrow> expr_alloc_two type x e1),
            neutral type, neutral type)
      else (ep, e1, e2))"

definition expr_extract_eq ::
  "expr_type \<Rightarrow> expr option \<Rightarrow> expr \<Rightarrow> expr \<Rightarrow> expr option \<times> expr \<times> expr" where
  "expr_extract_eq type ep e1 e2 = descend (extract_members type) type ep e1 e2"

definition extract_then_fold ::
  "expr_type \<Rightarrow> expr \<Rightarrow> expr \<Rightarrow> expr option \<times> expr \<times> expr" where
  "extract_then_fold type e1 e2 =
     (let (tmp, a, b) = expr_extract_eq type None e1 e2 in
      if tmp = None then (tmp, a, b) else (tmp, expr_eliminate_yn a, expr_eliminate_yn b))"

definition expr_extract_eq_and :: "expr \<Rightarrow> expr \<Rightarrow> expr option \<times> expr \<times> expr" where
  "expr_extract_eq_and e1 e2 = extract_then_fold E_AND e1 e2"

definition expr_extract_eq_or :: "expr \<Rightarrow> expr \<Rightarrow> expr option \<times> expr \<times> expr" where
  "expr_extract_eq_or e1 e2 = extract_then_fold E_OR e1 e2"

interpretation extr: member_step "extract_members t" t for t
  by unfold_locales (auto simp: extract_members_def split: if_splits)

text \<open>
  The value of the factor that was taken out so far; before the first one it is the neutral
  value. \<open>extracts\<close>: the new factor is the old one with \<open>m\<close> added, and \<open>m\<close> was taken out of both sides.
\<close>

definition factor_val :: "symview \<Rightarrow> expr_type \<Rightarrow> expr option \<Rightarrow> tristate" where
  "factor_val v t ep = (case ep of None \<Rightarrow> expr_val v (neutral t) | Some x \<Rightarrow> expr_val v x)"

definition extracts ::
  "symview \<Rightarrow> expr_type \<Rightarrow> expr option \<times> expr \<times> expr \<Rightarrow> expr option \<times> expr \<times> expr \<Rightarrow> bool" where
  "extracts v t p q \<longleftrightarrow>
     (\<exists>m. factor_val v t (fst q) = opv t (factor_val v t (fst p)) m \<and>
          expr_val v (fst (snd p)) = opv t m (expr_val v (fst (snd q))) \<and>
          expr_val v (snd (snd p)) = opv t m (expr_val v (snd (snd q))))"

lemma extracts_refl: "sane v \<Longrightarrow> extracts v t p p"
  unfolding extracts_def by (rule exI [of _ "expr_val v (neutral t)"]) simp

lemma extracts_members:
  assumes "sane v" "t \<in> {E_OR, E_AND}" "extract_members t ep x y = (ep', a, b)"
  shows "extracts v t (ep, x, y) (ep', a, b)"
proof (cases "expr_eq x y")
  case True
  with expr_eq_sound [OF assms(1) True] assms show ?thesis
    unfolding extracts_def extract_members_def
    by (intro exI [of _ "expr_val v x"])
      (auto simp: factor_val_def expr_alloc_two_def opv_def saneD neutral_def split: option.splits)
next
  case False
  with assms show ?thesis by (simp add: extract_members_def extracts_refl)
qed

lemma extracts_split_right:
  assumes "extracts v t (s, e1, l) (s1, a1, l')" "extracts v t (s1, a1, r) (s2, a2, r')"
    and "expr_val v e2 = opv t (expr_val v l) (expr_val v r)"
    and "expr_val v e2' = opv t (expr_val v l') (expr_val v r')"
  shows "extracts v t (s, e1, e2) (s2, a2, e2')"
proof -
  obtain m n where "factor_val v t s1 = opv t (factor_val v t s) m"
    "expr_val v e1 = opv t m (expr_val v a1)" "expr_val v l = opv t m (expr_val v l')"
    "factor_val v t s2 = opv t (factor_val v t s1) n"
    "expr_val v a1 = opv t n (expr_val v a2)" "expr_val v r = opv t n (expr_val v r')"
    using assms(1,2) unfolding extracts_def by auto
  then show ?thesis
    unfolding extracts_def by (intro exI [of _ "opv t m n"]) (simp add: assms(3,4) opv_ac)
qed

lemma extracts_swap: "extracts v t (s, a, b) (s', c, d) \<Longrightarrow> extracts v t (s, b, a) (s', d, c)"
  unfolding extracts_def by auto

lemma extracts_split_left:
  assumes "extracts v t (s, l, e2) (s1, l', b1)" "extracts v t (s1, r, b1) (s2, r', b2)"
    and "expr_val v e1 = opv t (expr_val v l) (expr_val v r)"
    and "expr_val v e1' = opv t (expr_val v l') (expr_val v r')"
  shows "extracts v t (s, e1, e2) (s2, e1', b2)"
  by (rule extracts_swap, rule extracts_split_right [OF extracts_swap extracts_swap]) (rule assms)+

lemma extracts_descend_right:
  assumes "sane v" "t \<in> {E_OR, E_AND}"
  shows "descend_right (extract_members t) t s e1 e2 = (s', a, b) \<Longrightarrow>
    extracts v t (s, e1, e2) (s', a, b)"
proof (induction e2 arbitrary: s e1 s' a b)
  case (EAnd l r)
  show ?case
  proof (cases "t = E_AND")
    case True
    with EAnd.prems obtain s1 a1 l' r' where
      d: "descend_right (extract_members t) t s e1 l = (s1, a1, l')"
        "descend_right (extract_members t) t s1 a1 r = (s', a, r')"
      and b: "b = EAnd l' r'"
      by (auto split: prod.splits)
    from EAnd.IH(1) [OF d(1)] EAnd.IH(2) [OF d(2)] show ?thesis
      unfolding b True by (rule extracts_split_right [OF _ _ expr_val_conn(1) expr_val_conn(1)])
  qed (use EAnd.prems in \<open>simp add: extracts_members [OF assms]\<close>)
next
  case (EOr l r)
  show ?case
  proof (cases "t = E_OR")
    case True
    with EOr.prems obtain s1 a1 l' r' where
      d: "descend_right (extract_members t) t s e1 l = (s1, a1, l')"
        "descend_right (extract_members t) t s1 a1 r = (s', a, r')"
      and b: "b = EOr l' r'"
      by (auto split: prod.splits)
    from EOr.IH(1) [OF d(1)] EOr.IH(2) [OF d(2)] show ?thesis
      unfolding b True by (rule extracts_split_right [OF _ _ expr_val_conn(2) expr_val_conn(2)])
  qed (use EOr.prems in \<open>simp add: extracts_members [OF assms]\<close>)
qed (simp_all add: extracts_members [OF assms])

lemma extracts_descend:
  assumes "sane v" "t \<in> {E_OR, E_AND}"
  shows "descend (extract_members t) t s e1 e2 = (s', a, b) \<Longrightarrow>
    extracts v t (s, e1, e2) (s', a, b)"
proof (induction e1 arbitrary: s e2 s' a b)
  case (EAnd l r)
  show ?case
  proof (cases "t = E_AND")
    case True
    with EAnd.prems obtain s1 b1 l' r' where
      d: "descend (extract_members t) t s l e2 = (s1, l', b1)"
        "descend (extract_members t) t s1 r b1 = (s', r', b)"
      and a: "a = EAnd l' r'"
      by (auto split: prod.splits)
    from EAnd.IH(1) [OF d(1)] EAnd.IH(2) [OF d(2)] show ?thesis
      unfolding a True by (rule extracts_split_left [OF _ _ expr_val_conn(1) expr_val_conn(1)])
  qed (use EAnd.prems in \<open>simp add: extracts_descend_right [OF assms]\<close>)
next
  case (EOr l r)
  show ?case
  proof (cases "t = E_OR")
    case True
    with EOr.prems obtain s1 b1 l' r' where
      d: "descend (extract_members t) t s l e2 = (s1, l', b1)"
        "descend (extract_members t) t s1 r b1 = (s', r', b)"
      and a: "a = EOr l' r'"
      by (auto split: prod.splits)
    from EOr.IH(1) [OF d(1)] EOr.IH(2) [OF d(2)] show ?thesis
      unfolding a True by (rule extracts_split_left [OF _ _ expr_val_conn(2) expr_val_conn(2)])
  qed (use EOr.prems in \<open>simp add: extracts_descend_right [OF assms]\<close>)
qed (simp_all add: extracts_descend_right [OF assms])

text \<open>The factor put in front of what is left gives back each of the two expressions.\<close>

lemma extract_then_fold_val:
  assumes "sane v" "t \<in> {E_OR, E_AND}" "extract_then_fold t e1 e2 = (Some f, a, b)"
  shows "expr_val v e1 = opv t (expr_val v f) (expr_val v a)"
    and "expr_val v e2 = opv t (expr_val v f) (expr_val v b)"
proof -
  obtain a' b' where d: "descend (extract_members t) t None e1 e2 = (Some f, a', b')"
    and "a = expr_eliminate_yn a'" "b = expr_eliminate_yn b'"
    using assms(3) unfolding extract_then_fold_def expr_extract_eq_def
    by (auto split: prod.splits if_splits)
  with extracts_descend [OF assms(1,2) d] assms(1)
  show "expr_val v e1 = opv t (expr_val v f) (expr_val v a)"
    and "expr_val v e2 = opv t (expr_val v f) (expr_val v b)"
    unfolding extracts_def by (auto simp: factor_val_def kval)
qed

text \<open>Nothing in common: the expressions are as they were.\<close>

lemma extract_members_None: "extract_members t s x y = (None, a, b) \<Longrightarrow> s = None \<and> a = x \<and> b = y"
  by (auto simp: extract_members_def split: if_splits)

lemma descend_right_None:
  "descend_right (extract_members t) t s e1 e2 = (None, a, b) \<Longrightarrow> s = None \<and> a = e1 \<and> b = e2"
proof (induction e2 arbitrary: s e1 a b)
  case (EAnd l r)
  then show ?case by (fastforce dest: extract_members_None split: if_splits prod.splits)
next
  case (EOr l r)
  then show ?case by (fastforce dest: extract_members_None split: if_splits prod.splits)
qed (auto dest: extract_members_None)

lemma descend_None:
  "descend (extract_members t) t s e1 e2 = (None, a, b) \<Longrightarrow> s = None \<and> a = e1 \<and> b = e2"
proof (induction e1 arbitrary: s e2 a b)
  case (EAnd l r)
  then show ?case by (fastforce dest: descend_right_None split: if_splits prod.splits)
next
  case (EOr l r)
  then show ?case by (fastforce dest: descend_right_None split: if_splits prod.splits)
qed (auto dest: descend_right_None)

lemma extract_then_fold_None:
  "extract_then_fold t e1 e2 = (None, a, b) \<Longrightarrow> a = e1 \<and> b = e2"
  by (auto simp: extract_then_fold_def expr_extract_eq_def dest: descend_None
      split: prod.splits if_splits)

section \<open>Properties\<close>

text \<open>
  expressions that \<open>expr_eq\<close> takes for equal have the same value, whatever the values of the
  symbols are.
\<close>

theorem expr_eq_correct:
  assumes "sane v" "expr_eq e1 e2"
  shows "expr_val v e1 = expr_val v e2"
  using assms by (rule expr_eq_sound)

theorem expr_eq_correct_witness:
  "expr_val (sample_view (\<lambda>_. S_TRISTATE) (\<lambda>i. if i = 0 then T_mod else T_yes))
     (EAnd (ESymbol (SymId 0)) (EAnd (ENot (ESymbol (SymId 5))) (ESymbol (SymId 2)))) =
   expr_val (sample_view (\<lambda>_. S_TRISTATE) (\<lambda>i. if i = 0 then T_mod else T_yes))
     (EAnd (EAnd (ESymbol (SymId 2)) (ESymbol (SymId 0))) (ENot (ESymbol (SymId 5))))"
  by (rule expr_eq_correct)
    (simp_all add: expr_eq_simps eliminate_eq_by_def elim_eq_members_def neutral_def same_symbol_def)

text \<open>
  the factor \<open>expr_extract_eq_and\<close> and \<open>expr_extract_eq_or\<close> take out, joined again with what is
  left of an expression, is the expression; where they find none, the expressions are unchanged.
\<close>

theorem extract_eq_correct:
  assumes "sane v"
  shows "(case expr_extract_eq_and e1 e2 of
      (Some f, a, b) \<Rightarrow> expr_val v e1 = expr_val v (EAnd f a) \<and> expr_val v e2 = expr_val v (EAnd f b)
    | (None, a, b) \<Rightarrow> a = e1 \<and> b = e2) \<and>
    (case expr_extract_eq_or e1 e2 of
      (Some f, a, b) \<Rightarrow> expr_val v e1 = expr_val v (EOr f a) \<and> expr_val v e2 = expr_val v (EOr f b)
    | (None, a, b) \<Rightarrow> a = e1 \<and> b = e2)"
  using extract_then_fold_None [of E_AND e1 e2] extract_then_fold_val [OF assms, of E_AND e1 e2]
    extract_then_fold_None [of E_OR e1 e2] extract_then_fold_val [OF assms, of E_OR e1 e2]
  by (auto simp: expr_extract_eq_and_def expr_extract_eq_or_def opv_def split: prod.splits option.splits)

theorem extract_eq_correct_witness:
  "expr_extract_eq_or (EOr (ESymbol (SymId 0)) (ESymbol (SymId 5)))
       (EOr (ESymbol (SymId 2)) (ESymbol (SymId 0))) =
     (Some (ESymbol (SymId 0)), ESymbol (SymId 5), ESymbol (SymId 2)) \<and>
   expr_val (sample_view (\<lambda>_. S_TRISTATE) (\<lambda>_. T_mod)) (EOr (ESymbol (SymId 0)) (ESymbol (SymId 5))) =
     T_mod"
proof -
  have e: "expr_extract_eq_or (EOr (ESymbol (SymId 0)) (ESymbol (SymId 5)))
       (EOr (ESymbol (SymId 2)) (ESymbol (SymId 0))) =
     (Some (ESymbol (SymId 0)), ESymbol (SymId 5), ESymbol (SymId 2))"
    by (simp add: expr_extract_eq_or_def extract_then_fold_def expr_extract_eq_def extract_members_def
        expr_eq_simps eliminate_eq_by_def elim_eq_members_def neutral_def same_symbol_def)
  show ?thesis
    using extract_eq_correct [of "sample_view (\<lambda>_. S_TRISTATE) (\<lambda>_. T_mod)"
        "EOr (ESymbol (SymId 0)) (ESymbol (SymId 5))" "EOr (ESymbol (SymId 2)) (ESymbol (SymId 0))"]
    by (simp add: e)
qed

end
