(* ===== verification/Ktransform.thy ===== *)
theory Ktransform
  imports Kequal
begin

text \<open>
  The rewriting functions of \<open>expr.c\<close> that work on one expression: \<open>expr_transform\<close>,
  \<open>expr_trans_bool\<close>, \<open>expr_trans_compare\<close>, and the questions \<open>expr_contains_symbol\<close>,
  \<open>expr_depends_symbol\<close>, \<open>expr_compare_type\<close> with the printer \<open>expr_print\<close> that asks the last
  one. The lemmas give the value of what each function returns, the form \<open>expr_transform\<close>
  brings an expression to, and that a second call changes nothing.
\<close>

section \<open>expr\_transform\<close>

text \<open>
  The children first, then the node. \<open>ty\<close> is the type of the symbols. The members of a list, a
  range and E\_NONE are no expressions for this function; only E\_LIST is named by the code
  and left alone, the other two never reach it.
\<close>

function expr_transform :: "(symref \<Rightarrow> symbol_type) \<Rightarrow> expr \<Rightarrow> expr" where
  "expr_transform ty (EEqual s t) =
     (if ty s \<noteq> S_BOOLEAN then EEqual s t
      else if t = SymNo then ENot (ESymbol s)
      else if t = SymMod then ESymbol SymNo
      else if t = SymYes then ESymbol s
      else EEqual s t)"
| "expr_transform ty (EUnequal s t) =
     (if ty s \<noteq> S_BOOLEAN then EUnequal s t
      else if t = SymNo then ESymbol s
      else if t = SymMod then ESymbol SymYes
      else if t = SymYes then ENot (ESymbol s)
      else EUnequal s t)"
| "expr_transform ty (ESymbol s) = ESymbol s"
| "expr_transform ty (EList l s) = EList l s"
| "expr_transform ty (ERange s t) = ERange s t"
| "expr_transform ty ENone = ENone"
| "expr_transform ty (EAnd l r) = EAnd (expr_transform ty l) (expr_transform ty r)"
| "expr_transform ty (EOr l r) = EOr (expr_transform ty l) (expr_transform ty r)"
| "expr_transform ty (ENot x) =
     (case expr_transform ty x of
        ENot y \<Rightarrow> expr_transform ty y
      | EEqual s t \<Rightarrow> EUnequal s t
      | EUnequal s t \<Rightarrow> EEqual s t
      | EOr a b \<Rightarrow> expr_transform ty (EAnd (ENot a) (ENot b))
      | EAnd a b \<Rightarrow> expr_transform ty (EOr (ENot a) (ENot b))
      | ESymbol s \<Rightarrow>
          if s = SymYes then ESymbol SymNo
          else if s = SymMod then ESymbol SymMod
          else if s = SymNo then ESymbol SymYes
          else ENot (ESymbol s)
      | y \<Rightarrow> ENot y)"
  by pat_completeness auto

text \<open>
  The calls on the result of a call need a bound for it: a negation counts twice what is below
  it, so that pushing it down the two members of a connective makes the weight smaller.
\<close>

fun weight :: "expr \<Rightarrow> nat" where
  "weight (EAnd l r) = weight l + weight r + 1"
| "weight (EOr l r) = weight l + weight r + 1"
| "weight (ENot x) = 2 * weight x"
| "weight (ESymbol s) = 1"
| "weight _ = 2"

lemma weight_pos [simp]: "0 < weight e"
  by (induction e rule: weight.induct) auto

lemma weight_transform_dom:
  "expr_transform_dom (ty, e) \<Longrightarrow> weight (expr_transform ty e) \<le> weight e"
proof (induction ty e rule: expr_transform.pinduct)
  case (9 ty x)
  have ps: "expr_transform ty (ENot x) = (case expr_transform ty x of
        ENot y \<Rightarrow> expr_transform ty y
      | EEqual s t \<Rightarrow> EUnequal s t
      | EUnequal s t \<Rightarrow> EEqual s t
      | EOr a b \<Rightarrow> expr_transform ty (EAnd (ENot a) (ENot b))
      | EAnd a b \<Rightarrow> expr_transform ty (EOr (ENot a) (ENot b))
      | ESymbol s \<Rightarrow>
          if s = SymYes then ESymbol SymNo
          else if s = SymMod then ESymbol SymMod
          else if s = SymNo then ESymbol SymYes
          else ENot (ESymbol s)
      | y \<Rightarrow> ENot y)"
    by (rule expr_transform.psimps(9) [OF "9.hyps"])
  show ?case
  proof (cases "expr_transform ty x")
    case (EOr a b)
    from "9.IH"(2) [OF EOr] "9.IH"(1) ps EOr show ?thesis by simp
  next
    case (EAnd a b)
    from "9.IH"(3) [OF EAnd] "9.IH"(1) ps EAnd show ?thesis by simp
  next
    case (ENot y)
    from "9.IH"(4) [OF ENot] "9.IH"(1) ps ENot show ?thesis by simp
  qed (use "9.IH"(1) ps in auto)
qed (auto simp: expr_transform.psimps)

termination expr_transform
proof (relation "measure (\<lambda>(ty, e). weight e)")
  fix ty x y
  assume "expr_transform ty x = ENot y" "expr_transform_dom (ty, x)"
  with weight_transform_dom [of ty x] have "2 * weight y \<le> weight x"
    by simp
  moreover have "0 < weight y" by simp
  ultimately have "weight y < 2 * weight x" by linarith
  then show "((ty, y), ty, ENot x) \<in> measure (\<lambda>(ty, e). weight e)" by simp
next
  fix ty x a b
  assume "expr_transform ty x = EOr a b" "expr_transform_dom (ty, x)"
  with weight_transform_dom [of ty x]
  show "((ty, EAnd (ENot a) (ENot b)), ty, ENot x) \<in> measure (\<lambda>(ty, e). weight e)"
    by simp
next
  fix ty x a b
  assume "expr_transform ty x = EAnd a b" "expr_transform_dom (ty, x)"
  with weight_transform_dom [of ty x]
  show "((ty, EOr (ENot a) (ENot b)), ty, ENot x) \<in> measure (\<lambda>(ty, e). weight e)"
    by simp
qed auto

definition expr_transform_opt :: "(symref \<Rightarrow> symbol_type) \<Rightarrow> expr option \<Rightarrow> expr option" where
  "expr_transform_opt ty = map_option (expr_transform ty)"

lemma boolean_compare:
  assumes "sane v" "sv_type v s = S_BOOLEAN"
  shows "sv_str v s = ''n'' \<longleftrightarrow> sv_tri v s = T_no" "sv_str v s = ''y'' \<longleftrightarrow> sv_tri v s = T_yes"
    "sv_str v s \<noteq> ''m''" "sv_tri v s = T_no \<or> sv_tri v s = T_yes"
  using saneD(7,8) [OF assms] by (cases "sv_tri v s"; simp)+

lemma val_transform_not:
  assumes "sane v"
  shows "expr_val v (case y of
        ENot z \<Rightarrow> g z
      | EEqual s t \<Rightarrow> EUnequal s t
      | EUnequal s t \<Rightarrow> EEqual s t
      | EOr a b \<Rightarrow> h a b
      | EAnd a b \<Rightarrow> k a b
      | ESymbol s \<Rightarrow>
          if s = SymYes then ESymbol SymNo
          else if s = SymMod then ESymbol SymMod
          else if s = SymNo then ESymbol SymYes
          else ENot (ESymbol s)
      | y \<Rightarrow> ENot y) =
    (case y of ENot z \<Rightarrow> expr_val v (g z) | EOr a b \<Rightarrow> expr_val v (h a b)
      | EAnd a b \<Rightarrow> expr_val v (k a b) | _ \<Rightarrow> EXPR_NOT (expr_val v y))"
  using assms by (cases y) (simp_all add: saneD)

lemma expr_val_transform [kval]:
  "sane v \<Longrightarrow> ty = sv_type v \<Longrightarrow> expr_val v (expr_transform ty e) = expr_val v e"
proof (induction ty e rule: expr_transform.induct)
  case (1 ty s t)
  then show ?case using boolean_compare [of v s] by (auto simp: saneD)
next
  case (2 ty s t)
  then show ?case using boolean_compare [of v s] by (auto simp: saneD)
next
  case (9 ty x)
  show ?case
  proof (cases "expr_transform ty x")
    case (EOr a b)
    with "9.IH"(1,2) "9.prems" show ?thesis
      by (simp add: val_transform_not del: expr_transform.simps(7) flip: tri.neg_join)
  next
    case (EAnd a b)
    with "9.IH"(1,3) "9.prems" show ?thesis
      by (simp add: val_transform_not del: expr_transform.simps(8) flip: tri.neg_meet)
  next
    case (ENot y)
    with "9.IH"(1) "9.prems" have x: "expr_val v x = EXPR_NOT (expr_val v y)"
      by (metis expr_val.simps(4))
    from ENot "9.IH"(4) "9.prems" show ?thesis by (simp add: x val_transform_not)
  qed (use "9.IH"(1) "9.prems" in \<open>auto simp: saneD\<close>)
qed auto

section \<open>The form it brings an expression to\<close>

text \<open>
  Only symbols that are not constants are negated, and no boolean symbol is compared with a
  constant: such a comparison is the symbol or its negation. The constants are not boolean
  symbols themselves (\<open>symbol_yes\<close> and the others have the type S\_UNKNOWN).
\<close>

fun transformed :: "(symref \<Rightarrow> symbol_type) \<Rightarrow> expr \<Rightarrow> bool" where
  "transformed ty (EEqual s t) = (ty s = S_BOOLEAN \<longrightarrow> t \<notin> {SymYes, SymMod, SymNo})"
| "transformed ty (EUnequal s t) = (ty s = S_BOOLEAN \<longrightarrow> t \<notin> {SymYes, SymMod, SymNo})"
| "transformed ty (EAnd l r) = (transformed ty l \<and> transformed ty r)"
| "transformed ty (EOr l r) = (transformed ty l \<and> transformed ty r)"
| "transformed ty (ENot x) =
     (case x of ESymbol s \<Rightarrow> s \<notin> {SymYes, SymMod, SymNo} | _ \<Rightarrow> False)"
| "transformed ty (ESymbol s) = True"
| "transformed ty _ = False"

definition plain_constants :: "(symref \<Rightarrow> symbol_type) \<Rightarrow> bool" where
  "plain_constants ty \<longleftrightarrow> S_BOOLEAN \<notin> {ty SymYes, ty SymMod, ty SymNo}"

lemma logical_transform [simp]: "logical e \<Longrightarrow> logical (expr_transform ty e)"
proof (induction ty e rule: expr_transform.induct)
  case (9 ty x)
  then have lx: "logical (expr_transform ty x)" by simp
  show ?case
  proof (cases "expr_transform ty x")
    case (EOr a b)
    with "9.IH"(2) [OF EOr] lx show ?thesis by (simp del: expr_transform.simps(7))
  next
    case (EAnd a b)
    with "9.IH"(3) [OF EAnd] lx show ?thesis by (simp del: expr_transform.simps(8))
  next
    case (ENot y)
    with "9.IH"(4) [OF ENot] lx show ?thesis by simp
  qed (use lx in auto)
qed auto

lemma transformed_transform:
  "plain_constants ty \<Longrightarrow> logical e \<Longrightarrow> transformed ty (expr_transform ty e)"
proof (induction ty e rule: expr_transform.induct)
  case (9 ty x)
  then have lx: "logical (expr_transform ty x)" by simp
  show ?case
  proof (cases "expr_transform ty x")
    case (EOr a b)
    with "9.IH"(2) [OF EOr] lx "9.prems" show ?thesis by (simp del: expr_transform.simps(7))
  next
    case (EAnd a b)
    with "9.IH"(3) [OF EAnd] lx "9.prems" show ?thesis by (simp del: expr_transform.simps(8))
  next
    case (ENot y)
    with "9.IH"(4) [OF ENot] lx "9.prems" show ?thesis by simp
  qed (use "9.IH"(1) "9.prems" lx in auto)
qed (auto simp: plain_constants_def)

lemma transform_transformed: "transformed ty e \<Longrightarrow> expr_transform ty e = e"
  by (induction ty e rule: transformed.induct) (auto split: expr.splits)

section \<open>expr\_trans\_bool\<close>

fun expr_trans_bool :: "(symref \<Rightarrow> symbol_type) \<Rightarrow> expr \<Rightarrow> expr" where
  "expr_trans_bool ty (EAnd l r) = EAnd (expr_trans_bool ty l) (expr_trans_bool ty r)"
| "expr_trans_bool ty (EOr l r) = EOr (expr_trans_bool ty l) (expr_trans_bool ty r)"
| "expr_trans_bool ty (ENot x) = ENot (expr_trans_bool ty x)"
| "expr_trans_bool ty (EUnequal s t) =
     (if ty s = S_TRISTATE \<and> t = SymNo then ESymbol s else EUnequal s t)"
| "expr_trans_bool ty e = e"

text \<open>
  \<open>FOO!=n\<close> is y where FOO is m, so the result may be smaller, but it is n exactly when the
  expression was: enough where the question is whether a dependency holds at all.
\<close>

lemma EXPR_OR_no [simp]: "EXPR_OR a b = T_no \<longleftrightarrow> a = T_no \<and> b = T_no"
  by (cases a; cases b) (simp_all add: EXPR_OR_def tri_order)

lemma EXPR_AND_no [simp]: "EXPR_AND a b = T_no \<longleftrightarrow> a = T_no \<or> b = T_no"
  by (cases a; cases b) (simp_all add: EXPR_AND_def tri_order)

lemma EXPR_AND_mono: "a \<le> a' \<Longrightarrow> b \<le> b' \<Longrightarrow> EXPR_AND a b \<le> EXPR_AND a' b'"
  by (auto simp: EXPR_AND_def)

lemma EXPR_OR_mono: "a \<le> a' \<Longrightarrow> b \<le> b' \<Longrightarrow> EXPR_OR a b \<le> EXPR_OR a' b'"
  by (auto simp: EXPR_OR_def)

lemma T_yes_greatest [simp]: "a \<le> T_yes"
  by (cases a) (simp_all add: tri_order)

lemma T_no_least [simp]: "T_no \<le> a"
  by (cases a) (simp_all add: tri_order)

lemma trans_bool_le:
  "sane v \<Longrightarrow> ty = sv_type v \<Longrightarrow> transformed ty e \<Longrightarrow>
   expr_val v (expr_trans_bool ty e) \<le> expr_val v e"
proof (induction ty e rule: expr_trans_bool.induct)
  case (4 ty s t)
  then show ?case using saneD(9) [of v s] by (cases "sv_tri v s") (auto simp: saneD)
qed (auto simp: EXPR_AND_mono EXPR_OR_mono split: expr.splits)

lemma trans_bool_no_iff:
  "sane v \<Longrightarrow> ty = sv_type v \<Longrightarrow> transformed ty e \<Longrightarrow>
   expr_val v (expr_trans_bool ty e) = T_no \<longleftrightarrow> expr_val v e = T_no"
proof (induction ty e rule: expr_trans_bool.induct)
  case (4 ty s t)
  then show ?case using saneD(9) [of v s] by (cases "sv_tri v s") (auto simp: saneD)
qed (auto split: expr.splits)

section \<open>expr\_trans\_compare\<close>

text \<open>
  Turns an expression that is compared with one of the three constants into the comparison of
  its symbols. \<open>type\<close> is E\_EQUAL or E\_UNEQUAL. A connective compared with anything but y
  and n is returned itself, not its parts; the last case, a comparison that is compared with no
  constant, is NULL in the code, and the connectives would store the NULL.
\<close>

fun expr_trans_compare :: "expr \<Rightarrow> expr_type \<Rightarrow> symref \<Rightarrow> expr option" where
  "expr_trans_compare (EAnd l r) type s =
     (case (expr_trans_compare l E_EQUAL s, expr_trans_compare r E_EQUAL s) of
        (Some a, Some b) \<Rightarrow>
          (let e = (if s = SymYes then expr_alloc_two E_AND a b
                    else if s = SymNo then expr_alloc_two E_OR a b else EAnd l r)
           in Some (if type = E_UNEQUAL then expr_alloc_one E_NOT e else e))
      | _ \<Rightarrow> None)"
| "expr_trans_compare (EOr l r) type s =
     (case (expr_trans_compare l E_EQUAL s, expr_trans_compare r E_EQUAL s) of
        (Some a, Some b) \<Rightarrow>
          (let e = (if s = SymYes then expr_alloc_two E_OR a b
                    else if s = SymNo then expr_alloc_two E_AND a b else EOr l r)
           in Some (if type = E_UNEQUAL then expr_alloc_one E_NOT e else e))
      | _ \<Rightarrow> None)"
| "expr_trans_compare (ENot x) type s =
     expr_trans_compare x (if type = E_EQUAL then E_UNEQUAL else E_EQUAL) s"
| "expr_trans_compare (EUnequal a b) type s =
     (let e = EUnequal a b in
      if type = E_EQUAL
      then (if s = SymYes then expr_copy e
            else if s = SymMod then Some (expr_alloc_symbol SymNo)
            else if s = SymNo then map_option (expr_alloc_one E_NOT) (expr_copy e)
            else None)
      else (if s = SymYes then map_option (expr_alloc_one E_NOT) (expr_copy e)
            else if s = SymMod then Some (expr_alloc_symbol SymYes)
            else if s = SymNo then expr_copy e
            else None))"
| "expr_trans_compare (EEqual a b) type s =
     (let e = EEqual a b in
      if type = E_EQUAL
      then (if s = SymYes then expr_copy e
            else if s = SymMod then Some (expr_alloc_symbol SymNo)
            else if s = SymNo then map_option (expr_alloc_one E_NOT) (expr_copy e)
            else None)
      else (if s = SymYes then map_option (expr_alloc_one E_NOT) (expr_copy e)
            else if s = SymMod then Some (expr_alloc_symbol SymYes)
            else if s = SymNo then expr_copy e
            else None))"
| "expr_trans_compare (ESymbol a) type s = Some (expr_alloc_comp type a s)"
| "expr_trans_compare _ type s = None"

fun expr_trans_compare_opt :: "expr option \<Rightarrow> expr_type \<Rightarrow> symref \<Rightarrow> expr option" where
  "expr_trans_compare_opt None type s =
     (let e = expr_alloc_symbol s
      in Some (if type = E_UNEQUAL then expr_alloc_one E_NOT e else e))"
| "expr_trans_compare_opt (Some e) type s = expr_trans_compare e type s"

text \<open>
  The two-valued expressions: constants other than m, and boolean symbols. For them the
  result is y or n as the comparison holds. With a tristate symbol it is not, as
  \<open>!FOO = y\<close> becomes \<open>FOO != y\<close>, which holds for m.
\<close>

fun two_valued :: "symview \<Rightarrow> expr \<Rightarrow> bool" where
  "two_valued v (EAnd l r) = (two_valued v l \<and> two_valued v r)"
| "two_valued v (EOr l r) = (two_valued v l \<and> two_valued v r)"
| "two_valued v (ENot x) = two_valued v x"
| "two_valued v (EEqual _ _) = True"
| "two_valued v (EUnequal _ _) = True"
| "two_valued v (ESymbol s) = (s = SymYes \<or> s = SymNo \<or> sv_type v s = S_BOOLEAN)"
| "two_valued v _ = False"

lemma EXPR_AND_yes [simp]: "EXPR_AND a b = T_yes \<longleftrightarrow> a = T_yes \<and> b = T_yes"
  by (cases a; cases b) (simp_all add: EXPR_AND_def tri_order)

lemma EXPR_OR_yes [simp]: "EXPR_OR a b = T_yes \<longleftrightarrow> a = T_yes \<or> b = T_yes"
  by (cases a; cases b) (simp_all add: EXPR_OR_def tri_order)

lemma EXPR_NOT_eq [simp]:
  "EXPR_NOT a = T_yes \<longleftrightarrow> a = T_no" "EXPR_NOT a = T_no \<longleftrightarrow> a = T_yes" "EXPR_NOT a = T_mod \<longleftrightarrow> a = T_mod"
  by (cases a; simp)+

lemma two_valued_val: "sane v \<Longrightarrow> two_valued v e \<Longrightarrow> expr_val v e \<in> {T_yes, T_no}"
  by (induction v e rule: two_valued.induct)
    (auto simp: saneD EXPR_AND_def EXPR_OR_def dest: boolean_compare(4))

lemma two_valued_logical: "two_valued v e \<Longrightarrow> logical e"
  by (induction v e rule: two_valued.induct) auto

fun const_val :: "symref \<Rightarrow> tristate" where
  "const_val SymYes = T_yes"
| "const_val SymMod = T_mod"
| "const_val _ = T_no"

definition cmp_val :: "expr_type \<Rightarrow> tristate \<Rightarrow> symref \<Rightarrow> tristate" where
  "cmp_val type x s =
     (if (x = const_val s) = (type = E_EQUAL) then T_yes else T_no)"

lemma trans_compare_val:
  "sane v \<Longrightarrow> two_valued v e \<Longrightarrow> type \<in> {E_EQUAL, E_UNEQUAL} \<Longrightarrow> s \<in> {SymYes, SymNo} \<Longrightarrow>
   \<exists>e'. expr_trans_compare e type s = Some e' \<and> two_valued v e' \<and>
        expr_val v e' = cmp_val type (expr_val v e) s"
proof (induction e type s rule: expr_trans_compare.induct)
  case (1 l r type s)
  obtain a b where "expr_trans_compare l E_EQUAL s = Some a" "two_valued v a"
      "expr_val v a = cmp_val E_EQUAL (expr_val v l) s"
      "expr_trans_compare r E_EQUAL s = Some b" "two_valued v b"
      "expr_val v b = cmp_val E_EQUAL (expr_val v r) s"
    using "1.IH" "1.prems" by fastforce
  with "1.prems" two_valued_val [of v l] two_valued_val [of v r] show ?case
    by (auto simp: expr_alloc_two_def expr_alloc_one_def cmp_val_def)
next
  case (2 l r type s)
  obtain a b where "expr_trans_compare l E_EQUAL s = Some a" "two_valued v a"
      "expr_val v a = cmp_val E_EQUAL (expr_val v l) s"
      "expr_trans_compare r E_EQUAL s = Some b" "two_valued v b"
      "expr_val v b = cmp_val E_EQUAL (expr_val v r) s"
    using "2.IH" "2.prems" by fastforce
  with "2.prems" two_valued_val [of v l] two_valued_val [of v r] show ?case
    by (auto simp: expr_alloc_two_def expr_alloc_one_def cmp_val_def)
next
  case (3 x type s)
  then have tv: "expr_val v x \<in> {T_yes, T_no}" using two_valued_val by auto
  obtain e' where "expr_trans_compare x (if type = E_EQUAL then E_UNEQUAL else E_EQUAL) s = Some e'"
      "two_valued v e'"
      "expr_val v e' = cmp_val (if type = E_EQUAL then E_UNEQUAL else E_EQUAL) (expr_val v x) s"
    using "3.IH" "3.prems" by fastforce
  with tv "3.prems" show ?case by (auto simp: cmp_val_def)
next
  case (6 a type s)
  then show ?case
    using saneD(1-6) [of v] boolean_compare [of v a]
    by (auto simp: expr_alloc_comp_def cmp_val_def)
qed (auto simp: expr_alloc_one_def cmp_val_def)

section \<open>The symbols of an expression\<close>

fun expr_contains_symbol :: "expr \<Rightarrow> symref \<Rightarrow> bool" where
  "expr_contains_symbol (EAnd l r) s = (expr_contains_symbol l s \<or> expr_contains_symbol r s)"
| "expr_contains_symbol (EOr l r) s = (expr_contains_symbol l s \<or> expr_contains_symbol r s)"
| "expr_contains_symbol (ESymbol a) s = (a = s)"
| "expr_contains_symbol (EEqual a b) s = (a = s \<or> b = s)"
| "expr_contains_symbol (EUnequal a b) s = (a = s \<or> b = s)"
| "expr_contains_symbol (ENot x) s = expr_contains_symbol x s"
| "expr_contains_symbol _ s = False"

fun expr_depends_symbol :: "expr \<Rightarrow> symref \<Rightarrow> bool" where
  "expr_depends_symbol (EAnd l r) s = (expr_depends_symbol l s \<or> expr_depends_symbol r s)"
| "expr_depends_symbol (ESymbol a) s = (a = s)"
| "expr_depends_symbol (EEqual a b) s = (a = s \<and> (b = SymYes \<or> b = SymMod))"
| "expr_depends_symbol (EUnequal a b) s = (a = s \<and> b = SymNo)"
| "expr_depends_symbol _ s = False"

text \<open>
  \<open>v'\<close> is \<open>v\<close> with a different value for \<open>s\<close>: an expression that does not contain \<open>s\<close> does not
  see it.
\<close>

lemma expr_val_other_symbol:
  "\<not> expr_contains_symbol e s \<Longrightarrow>
   (\<And>x. x \<noteq> s \<Longrightarrow> sv_tri v x = sv_tri v' x \<and> sv_str v x = sv_str v' x) \<Longrightarrow>
   expr_val v e = expr_val v' e"
  by (induction e s rule: expr_contains_symbol.induct) auto

text \<open>A symbol an expression depends on is needed: where it is n, so is the expression.\<close>

lemma depends_symbol_val:
  "sane v \<Longrightarrow> sv_type v s \<in> {S_BOOLEAN, S_TRISTATE} \<Longrightarrow> sv_tri v s = T_no \<Longrightarrow>
   expr_depends_symbol e s \<Longrightarrow> expr_val v e = T_no"
  by (induction e s rule: expr_depends_symbol.induct) (auto simp: saneD)

lemma depends_contains: "expr_depends_symbol e s \<Longrightarrow> expr_contains_symbol e s"
  by (induction e s rule: expr_depends_symbol.induct) auto

section \<open>Printing\<close>

text \<open>The order of the connectives; the cases fall through to the ones below them.\<close>

definition expr_compare_type :: "expr_type \<Rightarrow> expr_type \<Rightarrow> int" where
  "expr_compare_type t1 t2 =
     (if t1 = t2 then 0
      else if t1 \<in> {E_EQUAL, E_UNEQUAL} \<and> t2 = E_NOT then 1
      else if t1 \<in> {E_EQUAL, E_UNEQUAL, E_NOT} \<and> t2 = E_AND then 1
      else if t1 \<in> {E_EQUAL, E_UNEQUAL, E_NOT, E_AND} \<and> t2 = E_OR then 1
      else if t1 \<in> {E_EQUAL, E_UNEQUAL, E_NOT, E_AND, E_OR} \<and> t2 = E_LIST then 1
      else if t1 \<in> {E_EQUAL, E_UNEQUAL, E_NOT, E_AND, E_OR, E_LIST} \<and> t2 = E_NONE then 1
      else -1)"

text \<open>
  \<open>expr_print\<close> calls \<open>fn\<close> with a symbol or NULL and a string: the list of these calls. The string
  is None where the code passes the NULL name of a symbol that stands on the right.
\<close>

type_synonym print_call = "symref option \<times> cstring option"

definition print_lit :: "cstring \<Rightarrow> print_call" where
  "print_lit s = (None, Some s)"

definition print_sym :: "symview \<Rightarrow> symref \<Rightarrow> print_call" where
  "print_sym v s = (Some s, sv_name v s)"

definition print_left :: "symview \<Rightarrow> symref \<Rightarrow> print_call" where
  "print_left v s = (if sv_name v s = None then print_lit ''<choice>'' else print_sym v s)"

definition print_paren :: "expr_type \<Rightarrow> expr_type \<Rightarrow> print_call list \<Rightarrow> print_call list" where
  "print_paren prevtoken type calls =
     (if expr_compare_type prevtoken type > 0
      then print_lit ''('' # calls @ [print_lit '')''] else calls)"

fun expr_print :: "symview \<Rightarrow> expr \<Rightarrow> expr_type \<Rightarrow> print_call list" where
  "expr_print v (ESymbol s) prevtoken = print_paren prevtoken E_SYMBOL [print_left v s]"
| "expr_print v (ENot x) prevtoken =
     print_paren prevtoken E_NOT (print_lit ''!'' # expr_print v x E_NOT)"
| "expr_print v (EEqual s t) prevtoken =
     print_paren prevtoken E_EQUAL [print_left v s, print_lit ''='', print_sym v t]"
| "expr_print v (EUnequal s t) prevtoken =
     print_paren prevtoken E_UNEQUAL [print_left v s, print_lit ''!='', print_sym v t]"
| "expr_print v (EOr l r) prevtoken =
     print_paren prevtoken E_OR (expr_print v l E_OR @ print_lit '' || '' # expr_print v r E_OR)"
| "expr_print v (EAnd l r) prevtoken =
     print_paren prevtoken E_AND (expr_print v l E_AND @ print_lit '' && '' # expr_print v r E_AND)"
| "expr_print v (EList None s) prevtoken = print_paren prevtoken E_LIST [print_sym v s]"
| "expr_print v (EList (Some l) s) prevtoken =
     print_paren prevtoken E_LIST (print_sym v s # print_lit '' ^ '' # expr_print v l E_LIST)"
| "expr_print v (ERange s t) prevtoken =
     print_paren prevtoken E_RANGE
       [print_lit ''['', print_sym v s, print_lit '' '', print_sym v t, print_lit '']'']"
| "expr_print v ENone prevtoken = print_paren prevtoken E_NONE [print_lit ''<unknown type 0>'']"

definition expr_print_opt :: "symview \<Rightarrow> expr option \<Rightarrow> expr_type \<Rightarrow> print_call list" where
  "expr_print_opt v e prevtoken =
     (case e of None \<Rightarrow> [print_lit ''y''] | Some x \<Rightarrow> expr_print v x prevtoken)"

text \<open>\<open>expr_fprint\<close>: the strings one after the other; None where one of them is NULL.\<close>

definition expr_fprint :: "symview \<Rightarrow> expr option \<Rightarrow> cstring option" where
  "expr_fprint v e = map_option concat (those (map snd (expr_print_opt v e E_NONE)))"

section \<open>What expr\_eliminate\_eq says about a dependency\<close>

lemma shares_le: "shares v t (x, y) (a, b) \<Longrightarrow> expr_val v a \<le> expr_val v b \<Longrightarrow> expr_val v x \<le> expr_val v y"
  by (auto simp: shares_def opv_def EXPR_AND_mono EXPR_OR_mono)

section \<open>Properties\<close>

text \<open>
  \<open>expr_eliminate_eq\<close> removes what both sides have in common. If what is left of the first is
  below what is left of the second, the first was below the second; in particular this is so
  where nothing is left of the second (\<open>menu_finalize\<close> asks this to nest an entry).
\<close>

theorem eliminate_eq_implies:
  assumes "sane v" "expr_eliminate_eq c (Some e1) (Some e2) = (c', Some a, Some b)"
    and "expr_is_yes (Some b) \<or> expr_val v a \<le> expr_val v b"
  shows "expr_val v e1 \<le> expr_val v e2"
proof -
  have e: "eliminate_eq_by expr_eq c e1 e2 = (c', a, b)"
    using assms(2) by (simp add: expr_eliminate_eq_def split: prod.splits)
  have "expr_val v a \<le> expr_val v b"
    using assms(1,3) by (auto simp: expr_is_yes_def saneD)
  moreover obtain t t' a' b' a'' b'' where "shares v t (e1, e2) (a', b')"
    "shares v t' (a', b') (a'', b'')" "expr_val v a'' = expr_val v a" "expr_val v b'' = expr_val v b"
    by (rule eliminate_eq_by_shares [OF assms(1) expr_eq_sound [OF assms(1)] e])
  ultimately show ?thesis by (metis shares_le)
qed

theorem eliminate_eq_implies_witness:
  "expr_val (sample_view (\<lambda>_. S_TRISTATE) (\<lambda>_. T_mod)) (EAnd (ESymbol (SymId 0)) (ESymbol (SymId 5)))
     \<le> expr_val (sample_view (\<lambda>_. S_TRISTATE) (\<lambda>_. T_mod)) (ESymbol (SymId 5))"
  by (rule eliminate_eq_implies [where c = 0 and c' = 1 and a = "ESymbol (SymId 0)" and b = "ESymbol SymYes"])
    (simp_all add: expr_eliminate_eq_def eliminate_eq_by_def elim_eq_members_def neutral_def
      same_symbol_def expr_is_yes_def expr_eq_simps)

text \<open>C22: \<open>expr_transform\<close> keeps the value of every expression over the symbols whose types it reads.\<close>

theorem transform_value:
  assumes "sane v"
  shows "expr_val v (expr_transform (sv_type v) e) = expr_val v e"
  using assms by (simp add: kval)

theorem transform_value_witness:
  "expr_val (sample_view (\<lambda>_. S_BOOLEAN) (\<lambda>_. T_yes)) (ENot (EAnd (EUnequal (SymId 0) SymNo) (ESymbol SymMod)))
     = T_mod"
  using transform_value [of "sample_view (\<lambda>_. S_BOOLEAN) (\<lambda>_. T_yes)"
      "ENot (EAnd (EUnequal (SymId 0) SymNo) (ESymbol SymMod))"]
  by simp

text \<open>
  C21: \<open>expr_transform\<close> ends, and brings every dependency to negation normal form: only symbols that
  are not constants are negated and no boolean symbol is compared with a constant. A second
  run changes nothing.
\<close>

theorem transform_normal_form:
  assumes "plain_constants ty" "logical e"
  shows "transformed ty (expr_transform ty e) \<and>
    expr_transform ty (expr_transform ty e) = expr_transform ty e"
  using transformed_transform [OF assms] by (simp add: transform_transformed)

theorem transform_normal_form_witness:
  "expr_transform (\<lambda>_. S_TRISTATE) (ENot (EOr (ENot (ESymbol (SymId 0))) (EEqual (SymId 5) SymYes))) =
     EAnd (ESymbol (SymId 0)) (EUnequal (SymId 5) SymYes) \<and>
   transformed (\<lambda>_. S_TRISTATE) (EAnd (ESymbol (SymId 0)) (EUnequal (SymId 5) SymYes))"
  using transform_normal_form [of "\<lambda>_. S_TRISTATE"
      "ENot (EOr (ENot (ESymbol (SymId 0))) (EEqual (SymId 5) SymYes))"]
  by (simp add: plain_constants_def)

text \<open>
  \<open>expr_trans_bool\<close>, run on a transformed expression as \<open>menu_finalize\<close> does, never raises its
  value, and the result is n exactly where the expression was.
\<close>

theorem trans_bool_correct:
  assumes "sane v" "transformed (sv_type v) e"
  shows "expr_val v (expr_trans_bool (sv_type v) e) \<le> expr_val v e \<and>
    (expr_val v (expr_trans_bool (sv_type v) e) = T_no \<longleftrightarrow> expr_val v e = T_no)"
  using assms trans_bool_le trans_bool_no_iff by blast

theorem trans_bool_correct_witness:
  "expr_val (sample_view (\<lambda>_. S_TRISTATE) (\<lambda>_. T_mod)) (EUnequal (SymId 0) SymNo) = T_yes \<and>
   expr_val (sample_view (\<lambda>_. S_TRISTATE) (\<lambda>_. T_mod))
     (expr_trans_bool (sv_type (sample_view (\<lambda>_. S_TRISTATE) (\<lambda>_. T_mod))) (EUnequal (SymId 0) SymNo)) \<noteq> T_no"
  using trans_bool_correct [of "sample_view (\<lambda>_. S_TRISTATE) (\<lambda>_. T_mod)" "EUnequal (SymId 0) SymNo"]
  by simp

text \<open>
  on an expression of boolean symbols and comparisons, \<open>expr_trans_compare\<close> with y or n gives an
  expression, again of this kind, which is y where the comparison holds and n where not.
\<close>

theorem trans_compare_correct:
  assumes "sane v" "two_valued v e" "type \<in> {E_EQUAL, E_UNEQUAL}" "s \<in> {SymYes, SymNo}"
  shows "\<exists>e'. expr_trans_compare e type s = Some e' \<and> two_valued v e' \<and>
    (expr_val v e' = T_yes \<longleftrightarrow> (expr_val v e = const_val s) = (type = E_EQUAL)) \<and>
    (expr_val v e' = T_no \<longleftrightarrow> (expr_val v e = const_val s) \<noteq> (type = E_EQUAL))"
  using trans_compare_val [OF assms] by (auto simp: cmp_val_def split: if_splits)

theorem trans_compare_correct_witness:
  "expr_trans_compare (EAnd (ESymbol (SymId 0)) (ENot (ESymbol (SymId 5)))) E_EQUAL SymNo =
     Some (EOr (EEqual (SymId 0) SymNo) (EUnequal (SymId 5) SymNo)) \<and>
   expr_val (sample_view (\<lambda>_. S_BOOLEAN) (\<lambda>_. T_yes))
     (EOr (EEqual (SymId 0) SymNo) (EUnequal (SymId 5) SymNo)) = T_yes"
  using trans_compare_correct [of "sample_view (\<lambda>_. S_BOOLEAN) (\<lambda>_. T_yes)"
      "EAnd (ESymbol (SymId 0)) (ENot (ESymbol (SymId 5)))" E_EQUAL SymNo]
  by (simp add: expr_alloc_two_def expr_alloc_comp_def)

text \<open>
  a symbol that \<open>expr_contains_symbol\<close> does not find has no influence on the value, and a
  boolean or tristate symbol that \<open>expr_depends_symbol\<close> finds is needed: at n it makes the
  expression n.
\<close>

theorem contains_depends_correct:
  assumes "sane v"
    and "\<And>x. x \<noteq> s \<Longrightarrow> sv_tri v x = sv_tri v' x \<and> sv_str v x = sv_str v' x"
  shows "(expr_val v e = expr_val v' e \<or> expr_contains_symbol e s) \<and>
    (expr_depends_symbol e s \<longrightarrow> expr_contains_symbol e s \<and>
      (sv_type v s \<in> {S_BOOLEAN, S_TRISTATE} \<and> sv_tri v s = T_no \<longrightarrow> expr_val v e = T_no))"
  using expr_val_other_symbol [OF _ assms(2)] depends_symbol_val [OF assms(1)] depends_contains by blast

theorem contains_depends_correct_witness:
  "expr_val (sample_view (\<lambda>_. S_TRISTATE) (\<lambda>_. T_no)) (EAnd (EUnequal (SymId 0) SymNo) (ESymbol (SymId 5))) = T_no"
  using contains_depends_correct [of "sample_view (\<lambda>_. S_TRISTATE) (\<lambda>_. T_no)" "SymId 0"
      "sample_view (\<lambda>_. S_TRISTATE) (\<lambda>i. if i = 0 then T_yes else T_no)"
      "EAnd (EUnequal (SymId 0) SymNo) (ESymbol (SymId 5))"]
  by (simp split: symref.splits)

end
