(* ===== verification/Kdups.thy ===== *)
theory Kdups
  imports Ktransform
begin

text \<open>
  Removing what an expression says twice: \<open>expr_join_or\<close>, \<open>expr_join_and\<close>,
  \<open>expr_eliminate_dups1\<close>, \<open>expr_eliminate_dups2\<close>, \<open>expr_eliminate_dups\<close> and
  \<open>expr_simplify_unmet_dep\<close> of \<open>expr.c\<close>. The two walks get two pointers into the same tree and
  change the tree below both of them while they run, so here they work on one tree and two paths.
  Two pointers are equal exactly when the paths are. The tree under a path only changes at the
  members of the connective the walk follows, so the paths stay valid (\<open>shape\<close>, locale
  \<open>slot_walk\<close>). Both walks end, never make a tree larger, and where they count a change they
  leave a constant that \<open>expr_eliminate_yn\<close> removes, so the loop around them ends too.
\<close>

section \<open>Joining two members\<close>

fun join_sym1 :: "expr \<Rightarrow> symref option" where
  "join_sym1 (EEqual s _) = Some s"
| "join_sym1 (EUnequal s _) = Some s"
| "join_sym1 (ESymbol s) = Some s"
| "join_sym1 (ENot (EEqual s _)) = Some s"
| "join_sym1 (ENot (EUnequal s _)) = Some s"
| "join_sym1 (ENot (ESymbol s)) = Some s"
| "join_sym1 _ = None"

fun join_sym2 :: "expr \<Rightarrow> symref option" where
  "join_sym2 (EEqual s _) = Some s"
| "join_sym2 (EUnequal s _) = Some s"
| "join_sym2 (ESymbol s) = Some s"
| "join_sym2 (ENot (ESymbol s)) = Some s"
| "join_sym2 _ = None"

text \<open>\<open>right.sym\<close> of a comparison; \<open>eq_to e c\<close> is \<open>e->type == E_EQUAL && e->right.sym == &c\<close>.\<close>

fun right_sym :: "expr \<Rightarrow> symref option" where
  "right_sym (EEqual _ t) = Some t"
| "right_sym (EUnequal _ t) = Some t"
| "right_sym _ = None"

definition eq_to :: "expr \<Rightarrow> symref \<Rightarrow> bool" where
  "eq_to e c \<longleftrightarrow> etype e = E_EQUAL \<and> right_sym e = Some c"

definition ne_to :: "expr \<Rightarrow> symref \<Rightarrow> bool" where
  "ne_to e c \<longleftrightarrow> etype e = E_UNEQUAL \<and> right_sym e = Some c"

definition is_sym :: "expr \<Rightarrow> bool" where
  "is_sym e \<longleftrightarrow> etype e = E_SYMBOL"

fun is_not_sym :: "expr \<Rightarrow> bool" where
  "is_not_sym (ENot (ESymbol _)) = True"
| "is_not_sym _ = False"

text \<open>\<open>either p q e1 e2\<close>: one of the two is the one, and the other the other.\<close>

definition either :: "(expr \<Rightarrow> bool) \<Rightarrow> (expr \<Rightarrow> bool) \<Rightarrow> expr \<Rightarrow> expr \<Rightarrow> bool" where
  "either p q e1 e2 \<longleftrightarrow> p e1 \<and> q e2 \<or> q e1 \<and> p e2"

definition expr_join_or :: "symview \<Rightarrow> expr \<Rightarrow> expr \<Rightarrow> expr option" where
  "expr_join_or v e1 e2 =
     (if expr_eq e1 e2 then expr_copy e1
      else case (join_sym1 e1, join_sym2 e2) of
        (Some sym1, Some sym2) \<Rightarrow>
          if sym1 \<noteq> sym2 then None
          else if sv_type v sym1 \<noteq> S_BOOLEAN \<and> sv_type v sym1 \<noteq> S_TRISTATE then None
          else if sv_type v sym1 = S_TRISTATE \<and> either (\<lambda>e. eq_to e SymYes) (\<lambda>e. eq_to e SymMod) e1 e2
          then Some (expr_alloc_comp E_UNEQUAL sym1 SymNo)
          else if sv_type v sym1 = S_TRISTATE \<and> either (\<lambda>e. eq_to e SymYes) (\<lambda>e. eq_to e SymNo) e1 e2
          then Some (expr_alloc_comp E_UNEQUAL sym1 SymMod)
          else if sv_type v sym1 = S_TRISTATE \<and> either (\<lambda>e. eq_to e SymMod) (\<lambda>e. eq_to e SymNo) e1 e2
          then Some (expr_alloc_comp E_UNEQUAL sym1 SymYes)
          else if sv_type v sym1 = S_BOOLEAN \<and> either is_not_sym is_sym e1 e2
          then Some (expr_alloc_symbol SymYes)
          else None
      | _ \<Rightarrow> None)"

text \<open>The clause for \<open>(a='b') && (a!='c')\<close>: nothing when one of the constants is not constant.\<close>

definition join_eq_ne :: "symview \<Rightarrow> symref \<Rightarrow> expr \<Rightarrow> expr \<Rightarrow> expr option" where
  "join_eq_ne v sym1 x y =
     (if etype x = E_EQUAL \<and> etype y = E_UNEQUAL
      then (case (right_sym x, right_sym y) of
              (Some b, Some c) \<Rightarrow>
                if sv_const v c \<and> sv_const v b
                then Some (if b \<noteq> c then expr_alloc_comp E_EQUAL sym1 b else expr_alloc_symbol SymNo)
                else None
            | _ \<Rightarrow> None)
      else None)"

definition expr_join_and :: "symview \<Rightarrow> expr \<Rightarrow> expr \<Rightarrow> expr option" where
  "expr_join_and v e1 e2 =
     (if expr_eq e1 e2 then expr_copy e1
      else case (join_sym1 e1, join_sym2 e2) of
        (Some sym1, Some sym2) \<Rightarrow>
          if sym1 \<noteq> sym2 then None
          else if sv_type v sym1 \<noteq> S_BOOLEAN \<and> sv_type v sym1 \<noteq> S_TRISTATE then None
          else if either is_sym (\<lambda>e. eq_to e SymYes) e1 e2
          then Some (expr_alloc_comp E_EQUAL sym1 SymYes)
          else if either is_sym (\<lambda>e. ne_to e SymNo) e1 e2
          then Some (expr_alloc_symbol sym1)
          else if either is_sym (\<lambda>e. ne_to e SymMod) e1 e2
          then Some (expr_alloc_comp E_EQUAL sym1 SymYes)
          else if sv_type v sym1 = S_TRISTATE
          then (case join_eq_ne v sym1 e1 e2 of
                  Some e \<Rightarrow> Some e
                | None \<Rightarrow>
                    (case join_eq_ne v sym1 e2 e1 of
                       Some e \<Rightarrow> Some e
                     | None \<Rightarrow>
                         if either (\<lambda>e. ne_to e SymYes) (\<lambda>e. ne_to e SymNo) e1 e2
                         then Some (expr_alloc_comp E_EQUAL sym1 SymMod)
                         else if either (\<lambda>e. ne_to e SymYes) (\<lambda>e. ne_to e SymMod) e1 e2
                         then Some (expr_alloc_comp E_EQUAL sym1 SymNo)
                         else if either (\<lambda>e. ne_to e SymMod) (\<lambda>e. ne_to e SymNo) e1 e2
                         then Some (expr_alloc_comp E_EQUAL sym1 SymYes)
                         else None))
          else None
      | _ \<Rightarrow> None)"

text \<open>What the symbol in question says about the two members and about the result.\<close>

lemma tristate_compare:
  assumes "sane v" "sv_type v s = S_BOOLEAN \<or> sv_type v s = S_TRISTATE"
  shows "sv_str v s = ''y'' \<longleftrightarrow> sv_tri v s = T_yes" "sv_str v s = ''m'' \<longleftrightarrow> sv_tri v s = T_mod"
    "sv_str v s = ''n'' \<longleftrightarrow> sv_tri v s = T_no"
  using saneD(8,9) [OF assms(1), of s] assms(2) by (cases "sv_tri v s"; auto)+

lemma eq_toD: "eq_to e c \<Longrightarrow> \<exists>s. e = EEqual s c"
  by (cases e) (auto simp: eq_to_def)

lemma ne_toD: "ne_to e c \<Longrightarrow> \<exists>s. e = EUnequal s c"
  by (cases e) (auto simp: ne_to_def)

lemma is_symD: "is_sym e \<Longrightarrow> \<exists>s. e = ESymbol s"
  by (cases e) (auto simp: is_sym_def)

lemma is_not_symD: "is_not_sym e \<Longrightarrow> \<exists>s. e = ENot (ESymbol s)"
  by (cases e rule: is_not_sym.cases) auto

lemmas join_shapes = eq_toD ne_toD is_symD is_not_symD

lemma copy_val: "expr_copy e = Some x \<Longrightarrow> x = e"
  by (drule expr_copy_Some) simp

lemma join_or_val:
  assumes "sane v" "expr_join_or v e1 e2 = Some x"
  shows "expr_val v x = EXPR_OR (expr_val v e1) (expr_val v e2)"
proof (cases "expr_eq e1 e2")
  case True
  with assms show ?thesis
    using expr_eq_sound [OF assms(1) True] by (auto simp: expr_join_or_def dest: copy_val)
next
  case False
  with assms(2) obtain s where s: "join_sym1 e1 = Some s" "join_sym2 e2 = Some s"
      "sv_type v s = S_BOOLEAN \<or> sv_type v s = S_TRISTATE"
    by (auto simp: expr_join_or_def split: option.splits if_splits)
  note st = saneD(1-6) [OF assms(1)] saneD(7) [OF assms(1), of s] tristate_compare [OF assms(1) s(3)]
  show ?thesis
    using False assms(2) s st
    by (cases "sv_tri v s")
      (auto simp: expr_join_or_def either_def expr_alloc_comp_def expr_alloc_symbol_def
        split: if_splits dest!: join_shapes)
qed

lemma join_eq_ne_val:
  assumes "sane v" "join_eq_ne v s x y = Some z" "join_sym1 x = Some s \<or> join_sym2 x = Some s"
    "join_sym1 y = Some s \<or> join_sym2 y = Some s"
  shows "expr_val v z = EXPR_AND (expr_val v x) (expr_val v y)"
  using assms saneD(10) [OF assms(1)] saneD(1-6) [OF assms(1)]
  by (cases x; cases y) (auto simp: join_eq_ne_def expr_alloc_comp_def expr_alloc_symbol_def split: if_splits)

lemma join_and_val:
  assumes "sane v" "expr_join_and v e1 e2 = Some x"
  shows "expr_val v x = EXPR_AND (expr_val v e1) (expr_val v e2)"
proof (cases "expr_eq e1 e2")
  case True
  with assms show ?thesis
    using expr_eq_sound [OF assms(1) True] by (auto simp: expr_join_and_def dest: copy_val)
next
  case False
  with assms(2) obtain s where s: "join_sym1 e1 = Some s" "join_sym2 e2 = Some s"
      "sv_type v s = S_BOOLEAN \<or> sv_type v s = S_TRISTATE"
    by (auto simp: expr_join_and_def split: option.splits if_splits)
  note st = saneD(1-6) [OF assms(1)] saneD(7) [OF assms(1), of s] tristate_compare [OF assms(1) s(3)]
  consider "join_eq_ne v s e1 e2 = Some x" | "join_eq_ne v s e2 e1 = Some x"
    | "either is_sym (\<lambda>e. eq_to e SymYes) e1 e2" "x = EEqual s SymYes"
    | "either is_sym (\<lambda>e. ne_to e SymNo) e1 e2" "x = ESymbol s"
    | "either is_sym (\<lambda>e. ne_to e SymMod) e1 e2" "x = EEqual s SymYes"
    | "either (\<lambda>e. ne_to e SymYes) (\<lambda>e. ne_to e SymNo) e1 e2" "x = EEqual s SymMod"
    | "either (\<lambda>e. ne_to e SymYes) (\<lambda>e. ne_to e SymMod) e1 e2" "x = EEqual s SymNo"
    | "either (\<lambda>e. ne_to e SymMod) (\<lambda>e. ne_to e SymNo) e1 e2" "x = EEqual s SymYes"
    using False assms(2) s
    by (auto simp: expr_join_and_def expr_alloc_comp_def expr_alloc_symbol_def
        split: if_splits option.splits)
  then show ?thesis
  proof cases
    case 1
    with join_eq_ne_val [OF assms(1) 1] s show ?thesis by simp
  next
    case 2
    with join_eq_ne_val [OF assms(1) 2] s show ?thesis by (simp add: tri.meet_commute)
  qed (use s st in \<open>cases "sv_tri v s"; auto simp: either_def dest!: join_shapes\<close>)+
qed

text \<open>The result has at least a node less than the two together, and is two-valued if they are.\<close>

definition join_result :: "symview \<Rightarrow> expr \<Rightarrow> expr \<Rightarrow> expr \<Rightarrow> bool" where
  "join_result v e1 e2 x \<longleftrightarrow> logical x \<and> nodes x < nodes e1 + nodes e2 \<and>
     (etype x = etype e1 \<or> etype x \<notin> {E_OR, E_AND}) \<and> (two_valued v e1 \<longrightarrow> two_valued v e2 \<longrightarrow> two_valued v x)"

lemma join_result_leaf:
  "etype x \<in> {E_EQUAL, E_UNEQUAL} \<or> x \<in> {ESymbol SymYes, ESymbol SymNo} \<Longrightarrow> join_result v e1 e2 x"
  using nodes_pos [of e1] nodes_pos [of e2]
  by (cases x) (auto simp: join_result_def simp del: nodes_pos)

lemma join_result_copy: "expr_copy e1 = Some x \<Longrightarrow> join_result v e1 e2 x"
  by (auto simp: join_result_def dest: expr_copy_Some)

lemma join_or_result: "expr_join_or v e1 e2 = Some x \<Longrightarrow> join_result v e1 e2 x"
  by (auto simp: expr_join_or_def expr_alloc_comp_def expr_alloc_symbol_def
      split: if_splits option.splits intro: join_result_copy join_result_leaf)

lemma join_eq_ne_result: "join_eq_ne v s x y = Some z \<Longrightarrow> join_result v e1 e2 z"
  by (auto simp: join_eq_ne_def expr_alloc_comp_def expr_alloc_symbol_def
      split: if_splits option.splits intro: join_result_leaf)

lemma join_and_result: "expr_join_and v e1 e2 = Some x \<Longrightarrow> join_result v e1 e2 x"
proof (cases "expr_eq e1 e2")
  case True
  assume "expr_join_and v e1 e2 = Some x"
  with True show ?thesis by (auto simp: expr_join_and_def intro: join_result_copy)
next
  case False
  assume "expr_join_and v e1 e2 = Some x"
  with False obtain s where s: "join_sym1 e1 = Some s" "join_sym2 e2 = Some s"
    and "join_eq_ne v s e1 e2 = Some x \<or> join_eq_ne v s e2 e1 = Some x \<or> etype x = E_EQUAL \<or>
      x = ESymbol s \<and> either is_sym (\<lambda>e. ne_to e SymNo) e1 e2"
    by (auto simp: expr_join_and_def expr_alloc_comp_def expr_alloc_symbol_def
        split: if_splits option.splits)
  then show ?thesis
  proof (elim disjE)
    assume "x = ESymbol s \<and> either is_sym (\<lambda>e. ne_to e SymNo) e1 e2"
    with s show ?thesis by (auto simp: join_result_def either_def dest!: join_shapes)
  qed (auto intro: join_eq_ne_result join_result_leaf)
qed

section \<open>Slots of a tree\<close>

text \<open>A \<open>struct expr **\<close> into a tree: the way from the root to the pointer.\<close>

datatype dir = Lft | Rgt

type_synonym path = "dir list"

fun get_at :: "path \<Rightarrow> expr \<Rightarrow> expr" where
  "get_at (Lft # p) (EAnd l r) = get_at p l"
| "get_at (Rgt # p) (EAnd l r) = get_at p r"
| "get_at (Lft # p) (EOr l r) = get_at p l"
| "get_at (Rgt # p) (EOr l r) = get_at p r"
| "get_at _ e = e"

fun put_at :: "path \<Rightarrow> expr \<Rightarrow> expr \<Rightarrow> expr" where
  "put_at [] x e = x"
| "put_at (Lft # p) x (EAnd l r) = EAnd (put_at p x l) r"
| "put_at (Rgt # p) x (EAnd l r) = EAnd l (put_at p x r)"
| "put_at (Lft # p) x (EOr l r) = EOr (put_at p x l) r"
| "put_at (Rgt # p) x (EOr l r) = EOr l (put_at p x r)"
| "put_at _ x e = e"

text \<open>The part of a tree a walk along the connective \<open>t\<close> sees: its members are the tips.\<close>

datatype spine = Tip | Fork spine spine

fun shape :: "expr_type \<Rightarrow> expr \<Rightarrow> spine" where
  "shape t (EAnd l r) = (if t = E_AND then Fork (shape t l) (shape t r) else Tip)"
| "shape t (EOr l r) = (if t = E_OR then Fork (shape t l) (shape t r) else Tip)"
| "shape t e = Tip"

fun slot :: "path \<Rightarrow> spine \<Rightarrow> spine option" where
  "slot [] s = Some s"
| "slot (Lft # p) (Fork l r) = slot p l"
| "slot (Rgt # p) (Fork l r) = slot p r"
| "slot _ Tip = None"

lemma slot_append: "slot (p @ [d]) s = Option.bind (slot p s) (slot [d])"
  by (induction p s rule: slot.induct) auto

lemma slot_Tip [simp]: "slot p Tip = Some s \<longleftrightarrow> p = [] \<and> s = Tip"
  by (cases p; cases "hd p") auto

text \<open>Both connectives at once.\<close>

definition conn :: "expr_type \<Rightarrow> bool" where
  "conn t \<longleftrightarrow> t = E_OR \<or> t = E_AND"

lemma conn_mem [simp]: "t \<in> {E_OR, E_AND} \<longleftrightarrow> conn t"
  by (simp add: conn_def)

lemma shape_Fork:
  assumes "shape t e = Fork a b"
  obtains l r where "e = expr_alloc_two t l r" "shape t l = a" "shape t r = b"
  using assms by (cases e) (auto simp: expr_alloc_two_def split: if_splits)

lemma two_simps:
  assumes "conn t"
  shows "shape t (expr_alloc_two t l r) = Fork (shape t l) (shape t r)"
    "get_at (Lft # p) (expr_alloc_two t l r) = get_at p l"
    "get_at (Rgt # p) (expr_alloc_two t l r) = get_at p r"
    "put_at (Lft # p) x (expr_alloc_two t l r) = expr_alloc_two t (put_at p x l) r"
    "put_at (Rgt # p) x (expr_alloc_two t l r) = expr_alloc_two t l (put_at p x r)"
    "nodes (expr_alloc_two t l r) = Suc (nodes l + nodes r)"
    "expr_val v (expr_alloc_two t l r) = opv t (expr_val v l) (expr_val v r)"
    "logical (expr_alloc_two t l r) = (logical l \<and> logical r)"
    "two_valued v (expr_alloc_two t l r) = (two_valued v l \<and> two_valued v r)"
    "etype (expr_alloc_two t l r) = t"
    "yn_free (expr_alloc_two t l r) =
      (yn_free l \<and> yn_free r \<and> {l, r} \<inter> {ESymbol SymYes, ESymbol SymNo} = {})"
  using assms by (auto simp: conn_def expr_alloc_two_def opv_def)

lemma two_inject:
  "conn t \<Longrightarrow> expr_alloc_two t l r = expr_alloc_two t l' r' \<longleftrightarrow> l = l' \<and> r = r'"
  by (auto simp: conn_def expr_alloc_two_def)

lemma shape_Tip: "conn t \<Longrightarrow> shape t e = Tip \<longleftrightarrow> etype e \<noteq> t"
  by (cases e) (auto simp: conn_def)

text \<open>Induction along a path: a tree with a slot there is a connective with a slot in one member.\<close>

lemma slot_Cons:
  assumes "slot (d # p) (shape t e) = Some s"
  obtains l r where "e = expr_alloc_two t l r" "d = Lft" "slot p (shape t l) = Some s"
  | l r where "e = expr_alloc_two t l r" "d = Rgt" "slot p (shape t r) = Some s"
proof (cases "shape t e")
  case Tip
  with assms show thesis by (cases d) auto
next
  case (Fork a b)
  then obtain l r where e: "e = expr_alloc_two t l r" "shape t l = a" "shape t r = b"
    by (rule shape_Fork)
  show thesis
  proof (cases d)
    case Lft
    with that(1) [OF e(1) Lft] assms Fork e show thesis by simp
  next
    case Rgt
    with that(2) [OF e(1) Rgt] assms Fork e show thesis by simp
  qed
qed

lemma shape_get_at:
  "conn t \<Longrightarrow> slot p (shape t e) = Some s \<Longrightarrow> shape t (get_at p e) = s"
  by (induction p arbitrary: e) (auto elim!: slot_Cons simp: two_simps)

lemma shape_put_at:
  "conn t \<Longrightarrow> slot p (shape t e) = Some (shape t x) \<Longrightarrow> shape t (put_at p x e) = shape t e"
  by (induction p arbitrary: e) (auto elim!: slot_Cons simp: two_simps)

lemma nodes_put_at:
  "conn t \<Longrightarrow> slot p (shape t e) = Some s \<Longrightarrow>
   nodes (put_at p x e) + nodes (get_at p e) = nodes e + nodes x"
  by (induction p arbitrary: e) (fastforce elim!: slot_Cons simp: two_simps)+

lemma nodes_get_at:
  "conn t \<Longrightarrow> slot p (shape t e) = Some s \<Longrightarrow> nodes (get_at p e) + length p \<le> nodes e"
  by (induction p arbitrary: e) (fastforce elim!: slot_Cons simp: two_simps)+

lemma logical_get_at: "conn t \<Longrightarrow> slot p (shape t e) = Some s \<Longrightarrow> logical e \<Longrightarrow> logical (get_at p e)"
  by (induction p arbitrary: e) (auto elim!: slot_Cons simp: two_simps)

lemma logical_put_at:
  "conn t \<Longrightarrow> slot p (shape t e) = Some s \<Longrightarrow> logical e \<Longrightarrow> logical x \<Longrightarrow> logical (put_at p x e)"
  by (induction p arbitrary: e) (auto elim!: slot_Cons simp: two_simps)

lemma two_valued_get_at:
  "conn t \<Longrightarrow> slot p (shape t e) = Some s \<Longrightarrow> two_valued v e \<Longrightarrow> two_valued v (get_at p e)"
  by (induction p arbitrary: e) (auto elim!: slot_Cons simp: two_simps)

lemma two_valued_put_at:
  "conn t \<Longrightarrow> slot p (shape t e) = Some s \<Longrightarrow> two_valued v e \<Longrightarrow> two_valued v x \<Longrightarrow>
   two_valued v (put_at p x e)"
  by (induction p arbitrary: e) (auto elim!: slot_Cons simp: two_simps)

lemma two_valued_neutral [simp]: "two_valued v (neutral t)"
  by (simp add: neutral_def)

text \<open>The members are apart from each other.\<close>

lemma get_put_other:
  "conn t \<Longrightarrow> slot p (shape t e) = Some Tip \<Longrightarrow> slot q (shape t e) = Some Tip \<Longrightarrow> p \<noteq> q \<Longrightarrow>
   get_at q (put_at p x e) = get_at q e"
proof (induction p arbitrary: q e)
  case Nil
  then show ?case by (cases q) (auto elim!: slot_Cons simp: two_simps)
next
  case (Cons d p)
  then show ?case by (cases q) (auto elim!: slot_Cons simp: two_simps two_inject)
qed

text \<open>The value of a tree as the value in a slot, or in two slots, and the rest.\<close>

definition opv_unit :: "expr_type \<Rightarrow> tristate" where
  "opv_unit t = (if t = E_OR then T_no else T_yes)"

lemma opv_unit [simp]: "opv t a (opv_unit t) = a" "opv t (opv_unit t) a = a"
  by (simp_all add: opv_def opv_unit_def)

lemma put_at_val:
  "conn t \<Longrightarrow> slot p (shape t e) = Some s \<Longrightarrow>
   \<exists>m. \<forall>x. expr_val v (put_at p x e) = opv t (expr_val v x) m"
proof (induction p arbitrary: e)
  case Nil
  show ?case by (rule exI [of _ "opv_unit t"]) simp
next
  case (Cons d p)
  from Cons.prems(2) show ?case
  proof (cases rule: slot_Cons)
    case (1 l r)
    then obtain m where "\<forall>x. expr_val v (put_at p x l) = opv t (expr_val v x) m"
      using Cons by blast
    with 1 show ?thesis
      by (intro exI [of _ "opv t m (expr_val v r)"]) (simp add: two_simps [OF Cons.prems(1)] opv_ac)
  next
    case (2 l r)
    then obtain m where "\<forall>x. expr_val v (put_at p x r) = opv t (expr_val v x) m"
      using Cons by blast
    with 2 show ?thesis
      by (intro exI [of _ "opv t m (expr_val v l)"]) (simp add: two_simps [OF Cons.prems(1)] opv_ac)
  qed
qed

lemma put_get_at: "conn t \<Longrightarrow> slot p (shape t e) = Some s \<Longrightarrow> put_at p (get_at p e) e = e"
  by (induction p arbitrary: e) (auto elim!: slot_Cons simp: two_simps)

lemma get_put_at: "conn t \<Longrightarrow> slot p (shape t e) = Some s \<Longrightarrow> get_at p (put_at p x e) = x"
  by (induction p arbitrary: e) (auto elim!: slot_Cons simp: two_simps)

text \<open>The value of the whole is the value of a slot combined with it: once more makes no difference.\<close>

lemma slot_val_absorb:
  assumes "conn t" "slot p (shape t e) = Some s"
  shows "opv t (expr_val v (get_at p e)) (expr_val v e) = expr_val v e"
proof -
  obtain m where "\<forall>x. expr_val v (put_at p x e) = opv t (expr_val v x) m"
    using put_at_val [OF assms] by blast
  then have "expr_val v e = opv t (expr_val v (get_at p e)) m" by (metis put_get_at [OF assms])
  then show ?thesis by (simp flip: opv_assoc)
qed

lemma put_at_same_val:
  assumes "conn t" "slot p (shape t e) = Some s" "expr_val v x = expr_val v (get_at p e)"
  shows "expr_val v (put_at p x e) = expr_val v e"
  using put_at_val [OF assms(1,2), of v] put_get_at [OF assms(1,2)] assms(3) by metis

lemma put_two_val_ex:
  "conn t \<Longrightarrow> slot p (shape t e) = Some Tip \<Longrightarrow> slot q (shape t e) = Some Tip \<Longrightarrow> p \<noteq> q \<Longrightarrow>
   \<exists>m. \<forall>x y. expr_val v (put_at q y (put_at p x e)) = opv t (opv t (expr_val v x) (expr_val v y)) m"
proof (induction p arbitrary: q e)
  case Nil
  then show ?case by (cases q) (auto elim!: slot_Cons simp: two_simps)
next
  case (Cons d p)
  note t = two_simps [OF Cons.prems(1)]
  from Cons.prems obtain d' q' where q: "q = d' # q'"
    by (cases q) (auto elim!: slot_Cons simp: t)
  from Cons.prems(2) obtain l r where e: "e = expr_alloc_two t l r" by (rule slot_Cons)
  show ?case
  proof (cases d; cases d')
    assume d: "d = Lft" "d' = Lft"
    then obtain m where "\<forall>x y. expr_val v (put_at q' y (put_at p x l)) =
        opv t (opv t (expr_val v x) (expr_val v y)) m"
      using Cons.IH [of l q'] Cons.prems by (auto simp: e q t)
    then show ?thesis
      by (intro exI [of _ "opv t m (expr_val v r)"]) (simp add: e q d t opv_ac)
  next
    assume d: "d = Rgt" "d' = Rgt"
    then obtain m where "\<forall>x y. expr_val v (put_at q' y (put_at p x r)) =
        opv t (opv t (expr_val v x) (expr_val v y)) m"
      using Cons.IH [of r q'] Cons.prems by (auto simp: e q t)
    then show ?thesis
      by (intro exI [of _ "opv t m (expr_val v l)"]) (simp add: e q d t opv_ac)
  next
    assume d: "d = Lft" "d' = Rgt"
    then obtain m n where "\<forall>x. expr_val v (put_at p x l) = opv t (expr_val v x) m"
        "\<forall>y. expr_val v (put_at q' y r) = opv t (expr_val v y) n"
      using put_at_val [OF Cons.prems(1), of p l Tip v] put_at_val [OF Cons.prems(1), of q' r Tip v] Cons.prems
      by (auto simp: e q t)
    then show ?thesis by (intro exI [of _ "opv t m n"]) (simp add: e q d t opv_ac)
  next
    assume d: "d = Rgt" "d' = Lft"
    then obtain m n where "\<forall>x. expr_val v (put_at p x r) = opv t (expr_val v x) m"
        "\<forall>y. expr_val v (put_at q' y l) = opv t (expr_val v y) n"
      using put_at_val [OF Cons.prems(1), of p r Tip v] put_at_val [OF Cons.prems(1), of q' l Tip v] Cons.prems
      by (auto simp: e q t)
    then show ?thesis by (intro exI [of _ "opv t m n"]) (simp add: e q d t opv_ac)
  qed
qed

lemma put_two_val:
  assumes "conn t" "slot p (shape t e) = Some Tip" "slot q (shape t e) = Some Tip" "p \<noteq> q"
    and "opv t (expr_val v x) (expr_val v y) = opv t (expr_val v (get_at p e)) (expr_val v (get_at q e))"
  shows "expr_val v (put_at q y (put_at p x e)) = expr_val v e"
  using put_two_val_ex [OF assms(1-4), of v] put_get_at [OF assms(1)] assms by metis

text \<open>Where a constant y or n is left as a member, \<open>expr_eliminate_yn\<close> has something to do.\<close>

definition is_yn :: "expr \<Rightarrow> bool" where
  "is_yn e \<longleftrightarrow> e = ESymbol SymYes \<or> e = ESymbol SymNo"

lemma is_yn_neutral [simp]: "is_yn (neutral t)"
  by (simp add: is_yn_def neutral_def)

lemma yn_free_two:
  "conn t \<Longrightarrow> yn_free (expr_alloc_two t l r) \<longleftrightarrow> yn_free l \<and> yn_free r \<and> \<not> is_yn l \<and> \<not> is_yn r"
  by (auto simp: two_simps is_yn_def)

lemma yn_free_put_at:
  "conn t \<Longrightarrow> slot p (shape t e) = Some s \<Longrightarrow> (yn_free x \<Longrightarrow> yn_free (get_at p e)) \<Longrightarrow>
   (is_yn (get_at p e) \<Longrightarrow> is_yn x) \<Longrightarrow> yn_free (put_at p x e) \<Longrightarrow> yn_free e"
proof (induction p arbitrary: e)
  case Nil
  then show ?case by simp
next
  case (Cons d p)
  note t = two_simps(1-5) [OF Cons.prems(1)] yn_free_two [OF Cons.prems(1)]
  have leaf: "is_yn l \<Longrightarrow> slot p (shape t l) = Some s \<Longrightarrow> p = []" for l
    by (cases p; cases "hd p") (auto simp: is_yn_def)
  from Cons.prems(2) show ?case
  proof (cases rule: slot_Cons)
    case (1 l r)
    with Cons.prems Cons.IH [of l] leaf [of l] show ?thesis by (auto simp: t)
  next
    case (2 l r)
    with Cons.prems Cons.IH [of r] leaf [of r] show ?thesis by (auto simp: t)
  qed
qed

lemma put_yn_not_yn_free:
  "conn t \<Longrightarrow> p \<noteq> [] \<Longrightarrow> slot p (shape t e) = Some s \<Longrightarrow> is_yn x \<Longrightarrow> \<not> yn_free (put_at p x e)"
proof (induction p arbitrary: e)
  case (Cons d p)
  note t = two_simps(1-5) [OF Cons.prems(1)] yn_free_two [OF Cons.prems(1)]
  from Cons.prems(3) show ?case
  proof (cases rule: slot_Cons)
    case (1 l r)
    with Cons.prems Cons.IH [of l] show ?thesis by (cases p) (auto simp: t)
  next
    case (2 l r)
    with Cons.prems Cons.IH [of r] show ?thesis by (cases p) (auto simp: t)
  qed
qed simp

lemma not_yn_free_shrinks: "\<not> yn_free e \<Longrightarrow> nodes (expr_eliminate_yn e) < nodes e"
proof (induction e rule: expr_eliminate_yn.induct)
  case (1 l r)
  with nodes_eliminate_yn [of l] nodes_eliminate_yn [of r] show ?case by (auto simp: Let_def)
next
  case (2 l r)
  with nodes_eliminate_yn [of l] nodes_eliminate_yn [of r] show ?case by (auto simp: Let_def)
qed auto

section \<open>A walk over all pairs of slots\<close>

text \<open>
  What both walks do, over the work for a pair of members and, for the second walk, the work that
  follows where \<open>e2\<close> was split. The state is \<open>trans_count\<close> and the tree. If the work at the
  members returns, keeps the shape and makes a step of \<open>rel\<close>, so does the walk.
\<close>

locale slot_walk =
  fixes t :: expr_type
    and walk :: "path \<Rightarrow> path \<Rightarrow> nat \<times> expr \<Rightarrow> (nat \<times> expr) option"
    and member :: "path \<Rightarrow> path \<Rightarrow> nat \<times> expr \<Rightarrow> (nat \<times> expr) option"
    and after :: "path \<Rightarrow> path \<Rightarrow> nat \<times> expr \<Rightarrow> (nat \<times> expr) option"
    and ok :: "nat \<times> expr \<Rightarrow> bool"
    and rel :: "nat \<times> expr \<Rightarrow> nat \<times> expr \<Rightarrow> bool"
  assumes walk_unfold:
    "walk p1 p2 st =
       (if etype (get_at p1 (snd st)) = t
        then Option.bind (walk (p1 @ [Lft]) p2 st) (walk (p1 @ [Rgt]) p2)
        else if etype (get_at p2 (snd st)) = t
        then Option.bind (Option.bind (walk p1 (p2 @ [Lft]) st) (walk p1 (p2 @ [Rgt]))) (after p1 p2)
        else member p1 p2 st)"
    and ok_conn: "ok st \<Longrightarrow> conn t"
    and rel_trans: "rel a b \<Longrightarrow> rel b c \<Longrightarrow> rel a c"
    and rel_ok: "rel a b \<Longrightarrow> ok a \<Longrightarrow> ok b"
    and rel_shape: "rel a b \<Longrightarrow> shape t (snd b) = shape t (snd a)"
    and member_step: "ok st \<Longrightarrow> slot p1 (shape t (snd st)) = Some Tip \<Longrightarrow>
      slot p2 (shape t (snd st)) = Some Tip \<Longrightarrow> \<exists>st'. member p1 p2 st = Some st' \<and> rel st st'"
    and after_step: "ok st \<Longrightarrow> slot p1 (shape t (snd st)) = Some Tip \<Longrightarrow>
      slot p2 (shape t (snd st)) = Some (Fork l r) \<Longrightarrow> \<exists>st'. after p1 p2 st = Some st' \<and> rel st st'"
begin

lemma type_at:
  "ok st \<Longrightarrow> slot p (shape t e) = Some s \<Longrightarrow> etype (get_at p e) = t \<longleftrightarrow> s \<noteq> Tip"
  using shape_get_at [OF ok_conn] shape_Tip [OF ok_conn] by metis

lemma walk_right:
  "ok st \<Longrightarrow> slot p1 (shape t (snd st)) = Some Tip \<Longrightarrow> slot p2 (shape t (snd st)) = Some s \<Longrightarrow>
   \<exists>st'. walk p1 p2 st = Some st' \<and> rel st st'"
proof (induction s arbitrary: p2 st)
  case Tip
  then show ?case using member_step by (simp add: walk_unfold [of p1 p2] type_at [OF Tip.prems(1)])
next
  case (Fork l r)
  have sl: "slot (p2 @ [Lft]) (shape t (snd st)) = Some l" "slot (p2 @ [Rgt]) (shape t (snd st)) = Some r"
    using Fork.prems by (simp_all add: slot_append)
  obtain st1 where 1: "walk p1 (p2 @ [Lft]) st = Some st1" "rel st st1"
    using Fork.IH(1) [OF Fork.prems(1,2) sl(1)] by blast
  note s1 = rel_shape [OF 1(2)] and o1 = rel_ok [OF 1(2) Fork.prems(1)]
  obtain st2 where 2: "walk p1 (p2 @ [Rgt]) st1 = Some st2" "rel st1 st2"
    using Fork.IH(2) [OF o1] Fork.prems(2) sl(2) s1 by metis
  note s2 = rel_shape [OF 2(2)] and o2 = rel_ok [OF 2(2) o1]
  obtain st3 where 3: "after p1 p2 st2 = Some st3" "rel st2 st3"
    using after_step [OF o2] Fork.prems(2,3) s1 s2 by metis
  have "walk p1 p2 st = Some st3"
    using Fork.prems(2,3) 1 2 3 by (simp add: walk_unfold [of p1 p2] type_at [OF Fork.prems(1)])
  then show ?case using rel_trans 1(2) 2(2) 3(2) by blast
qed

lemma walk_step:
  "ok st \<Longrightarrow> slot p1 (shape t (snd st)) = Some s1 \<Longrightarrow> slot p2 (shape t (snd st)) = Some s2 \<Longrightarrow>
   \<exists>st'. walk p1 p2 st = Some st' \<and> rel st st'"
proof (induction s1 arbitrary: p1 st)
  case Tip
  then show ?case by (rule walk_right)
next
  case (Fork l r)
  have sl: "slot (p1 @ [Lft]) (shape t (snd st)) = Some l" "slot (p1 @ [Rgt]) (shape t (snd st)) = Some r"
    using Fork.prems by (simp_all add: slot_append)
  obtain st1 where 1: "walk (p1 @ [Lft]) p2 st = Some st1" "rel st st1"
    using Fork.IH(1) [OF Fork.prems(1) sl(1) Fork.prems(3)] by blast
  note s1 = rel_shape [OF 1(2)] and o1 = rel_ok [OF 1(2) Fork.prems(1)]
  obtain st2 where 2: "walk (p1 @ [Rgt]) p2 st1 = Some st2" "rel st1 st2"
    using Fork.IH(2) [OF o1] Fork.prems(3) sl(2) s1 by metis
  have "walk p1 p2 st = Some st2"
    using Fork.prems(2) 1 2 by (simp add: walk_unfold [of p1 p2] type_at [OF Fork.prems(1)])
  then show ?case using rel_trans 1(2) 2(2) by blast
qed

end

section \<open>expr\_eliminate\_dups1\<close>

definition expr_join :: "symview \<Rightarrow> expr_type \<Rightarrow> expr \<Rightarrow> expr \<Rightarrow> expr option" where
  "expr_join v type = (if type = E_OR then expr_join_or v else expr_join_and v)"

definition join_slots :: "symview \<Rightarrow> expr_type \<Rightarrow> path \<Rightarrow> path \<Rightarrow> nat \<times> expr \<Rightarrow> nat \<times> expr" where
  "join_slots v type p1 p2 st =
     (case expr_join v type (get_at p1 (snd st)) (get_at p2 (snd st)) of
        None \<Rightarrow> st
      | Some tmp \<Rightarrow> (fst st + 1, put_at p2 tmp (put_at p1 (neutral type) (snd st))))"

text \<open>
  \<open>type\<close> is E\_OR or E\_AND. The call with \<open>&e1, &e1\<close> works on the tree at the slot \<open>e1\<close>, with the
  empty path twice.
\<close>

partial_function (option) expr_eliminate_dups1 ::
  "symview \<Rightarrow> expr_type \<Rightarrow> path \<Rightarrow> path \<Rightarrow> nat \<times> expr \<Rightarrow> (nat \<times> expr) option" where
  "expr_eliminate_dups1 v type p1 p2 st =
     (let e1 = get_at p1 (snd st); e2 = get_at p2 (snd st) in
      if etype e1 = type
      then Option.bind (expr_eliminate_dups1 v type (p1 @ [Lft]) p2 st)
             (\<lambda>st. expr_eliminate_dups1 v type (p1 @ [Rgt]) p2 st)
      else if etype e2 = type
      then Option.bind (expr_eliminate_dups1 v type p1 (p2 @ [Lft]) st)
             (\<lambda>st. expr_eliminate_dups1 v type p1 (p2 @ [Rgt]) st)
      else if p1 = p2 then Some st
      else Option.bind
             (if etype e1 = E_OR \<or> etype e1 = E_AND
              then Option.bind (expr_eliminate_dups1 v (etype e1) [] [] (fst st, e1))
                     (\<lambda>r. Some (fst r, put_at p1 (snd r) (snd st)))
              else Some st)
             (\<lambda>st. Some (join_slots v type p1 p2 st)))"

text \<open>
  What each of the two walks does to \<open>trans_count\<close> and the tree. \<open>b\<close>: the value is kept in any
  case (the first walk), or only for two-valued expressions (the second).
\<close>

definition simplifies ::
  "bool \<Rightarrow> symview \<Rightarrow> expr_type \<Rightarrow> nat \<times> expr \<Rightarrow> nat \<times> expr \<Rightarrow> bool" where
  "simplifies b v t p q \<longleftrightarrow>
     shape t (snd q) = shape t (snd p) \<and>
     (logical (snd p) \<longrightarrow> logical (snd q)) \<and>
     nodes (snd q) \<le> nodes (snd p) \<and>
     (yn_free (snd q) \<longrightarrow> yn_free (snd p)) \<and>
     (q = p \<or> fst p < fst q \<and> \<not> yn_free (snd q)) \<and>
     (two_valued v (snd p) \<longrightarrow> two_valued v (snd q)) \<and>
     (sane v \<longrightarrow> b \<or> two_valued v (snd p) \<longrightarrow> expr_val v (snd q) = expr_val v (snd p))"

lemma simplifiesD:
  assumes "simplifies b v t (c, e) (c', e')"
  shows "shape t e' = shape t e" "logical e \<Longrightarrow> logical e'" "nodes e' \<le> nodes e"
    "yn_free e' \<Longrightarrow> yn_free e" "c' = c \<and> e' = e \<or> c < c' \<and> \<not> yn_free e'"
    "two_valued v e \<Longrightarrow> two_valued v e'"
    "sane v \<Longrightarrow> b \<or> two_valued v e \<Longrightarrow> expr_val v e' = expr_val v e"
  using assms by (auto simp: simplifies_def)

lemma simplifies_refl [simp]: "simplifies b v t p p"
  by (simp add: simplifies_def)

lemma simplifies_trans:
  assumes "simplifies b v t p q" "simplifies b v t q r"
  shows "simplifies b v t p r"
proof (cases "q = p \<or> r = q")
  case True
  with assms show ?thesis by auto
next
  case False
  note f = assms [unfolded simplifies_def]
  from False f have "fst p < fst r \<and> \<not> yn_free (snd r)" by linarith
  moreover have "two_valued v (snd p) \<Longrightarrow> two_valued v (snd r)" using f by blast
  moreover have "sane v \<Longrightarrow> b \<or> two_valued v (snd p) \<Longrightarrow> expr_val v (snd r) = expr_val v (snd p)"
    using f by metis
  moreover have "nodes (snd r) \<le> nodes (snd p)" using f by linarith
  moreover have "shape t (snd r) = shape t (snd p)" using f by metis
  moreover have "logical (snd p) \<Longrightarrow> logical (snd r)" using f by blast
  ultimately show ?thesis unfolding simplifies_def by simp
qed

lemma yn_free_put_inner:
  "conn t \<Longrightarrow> slot p (shape t e) = Some s \<Longrightarrow> yn_free (put_at p x e) \<Longrightarrow> yn_free x"
  by (induction p arbitrary: e) (auto elim!: slot_Cons simp: two_simps)

lemma shape_conn_root:
  assumes "conn t'" "conn t" "t \<noteq> t'" "etype e = t'" "shape t' x = shape t' e"
  shows "etype x = t'" "shape t x = Tip"
proof -
  show "etype x = t'" using assms shape_Tip [OF assms(1), of x] shape_Tip [OF assms(1), of e] by simp
  with assms show "shape t x = Tip" using shape_Tip [OF assms(2), of x] by simp
qed

lemma conn_not_yn: "conn (etype e) \<Longrightarrow> \<not> is_yn e"
  by (auto simp: is_yn_def conn_def)

text \<open>A simplified member makes a simplified tree.\<close>

lemma simplifies_put:
  assumes "conn t" "conn (etype (get_at p e))" "slot p (shape t e) = Some Tip"
    and "simplifies b v (etype (get_at p e)) (c, get_at p e) (c', x)"
  shows "simplifies b v t (c, e) (c', put_at p x e)"
proof -
  note s = simplifiesD [OF assms(4)]
  have ne: "etype (get_at p e) \<noteq> t"
    using shape_get_at [OF assms(1,3)] shape_Tip [OF assms(1)] by simp
  note x = shape_conn_root [OF assms(2,1) ne [symmetric] refl s(1)]
  have 1: "yn_free (put_at p x e) \<Longrightarrow> yn_free e"
    by (rule yn_free_put_at [OF assms(1,3) s(4)]) (simp_all add: conn_not_yn [OF assms(2)])
  have 2: "(c', put_at p x e) = (c, e) \<or> c < c' \<and> \<not> yn_free (put_at p x e)"
    using s(5)
  proof (elim disjE conjE)
    assume "c' = c" "x = get_at p e"
    then show ?thesis using put_get_at [OF assms(1,3)] by simp
  next
    assume "c < c'" "\<not> yn_free x"
    then show ?thesis using yn_free_put_inner [OF assms(1,3)] by blast
  qed
  have 3: "shape t (put_at p x e) = shape t e"
    by (rule shape_put_at [OF assms(1)]) (simp add: x assms(3))
  have 4: "nodes (put_at p x e) \<le> nodes e"
    using nodes_put_at [OF assms(1,3), of x] s(3) by linarith
  have 5: "logical e \<Longrightarrow> logical (put_at p x e)"
    by (rule logical_put_at [OF assms(1,3) _ s(2)]) (auto intro: logical_get_at [OF assms(1,3)])
  have 6: "two_valued v e \<Longrightarrow> two_valued v (put_at p x e)"
    by (rule two_valued_put_at [OF assms(1,3) _ s(6)]) (auto intro: two_valued_get_at [OF assms(1,3)])
  have 7: "sane v \<Longrightarrow> b \<or> two_valued v e \<Longrightarrow> expr_val v (put_at p x e) = expr_val v e"
    by (rule put_at_same_val [OF assms(1,3) s(7)]) (auto intro: two_valued_get_at [OF assms(1,3)])
  show ?thesis unfolding simplifies_def snd_conv fst_conv using 1 2 3 4 5 6 7 by (intro conjI impI) simp_all
qed

lemma shape_result:
  "conn t \<Longrightarrow> shape t e1 = Tip \<Longrightarrow> join_result v e1 e2 x \<Longrightarrow> shape t x = Tip"
  by (auto simp: join_result_def shape_Tip conn_def)

lemma join_slots_simplifies:
  assumes "conn t" "slot p1 (shape t e) = Some Tip" "slot p2 (shape t e) = Some Tip" "p1 \<noteq> p2"
    and "logical e"
  shows "simplifies b v t (c, e) (join_slots v t p1 p2 (c, e))"
proof (cases "expr_join v t (get_at p1 e) (get_at p2 e)")
  case None
  then show ?thesis by (simp add: join_slots_def)
next
  case (Some x)
  let ?e1 = "put_at p1 (neutral t) e"
  let ?e = "put_at p2 x ?e1"
  have res: "join_result v (get_at p1 e) (get_at p2 e) x"
    using Some by (auto simp: expr_join_def split: if_splits intro: join_or_result join_and_result)
  note r = res [unfolded join_result_def]
  have val: "sane v \<Longrightarrow> expr_val v x = opv t (expr_val v (get_at p1 e)) (expr_val v (get_at p2 e))"
    using Some by (auto simp: expr_join_def opv_def split: if_splits dest: join_or_val join_and_val)
  have sn: "shape t (neutral t) = Tip" using assms(1) by (simp add: shape_Tip) (auto simp: conn_def)
  have s1: "shape t ?e1 = shape t e"
    by (rule shape_put_at [OF assms(1)]) (simp add: sn assms(2))
  have p2: "slot p2 (shape t ?e1) = Some Tip" by (simp add: s1 assms(3))
  have "shape t x = Tip"
    by (rule shape_result [OF assms(1) _ res]) (rule shape_get_at [OF assms(1,2)])
  then have s2: "shape t ?e = shape t ?e1"
    by (intro shape_put_at [OF assms(1)]) (simp add: p2)
  have ne: "p1 \<noteq> []" using assms(2-4) by auto
  have other: "get_at p2 ?e1 = get_at p2 e"
    by (rule get_put_other [OF assms(1-4)])
  have p1: "slot p1 (shape t ?e) = Some Tip" "slot p1 (shape t ?e1) = Some Tip"
    by (simp_all add: s1 s2 assms(2))
  have "get_at p1 ?e = neutral t"
    using get_put_other [OF assms(1) p2 p1(2)] assms(4) get_put_at [OF assms(1,2)] by simp
  with put_get_at [OF assms(1) p1(1)] put_yn_not_yn_free [OF assms(1) ne p1(1), of "neutral t"]
  have yn2: "\<not> yn_free ?e" by simp
  have n: "nodes ?e \<le> nodes e"
    using nodes_put_at [OF assms(1,2), of "neutral t"] nodes_put_at [OF assms(1) p2, of x] r other
    by simp
  have l: "logical ?e"
    using r assms(5) by (intro logical_put_at [OF assms(1) p2] logical_put_at [OF assms(1,2)]) simp_all
  have t: "two_valued v e \<Longrightarrow> two_valued v ?e"
    using r two_valued_get_at [OF assms(1,2)] two_valued_get_at [OF assms(1,3)]
    by (intro two_valued_put_at [OF assms(1) p2] two_valued_put_at [OF assms(1,2)]) simp_all
  have v: "sane v \<Longrightarrow> expr_val v ?e = expr_val v e"
    by (rule put_two_val [OF assms(1-4)]) (simp add: val)
  have "join_slots v t p1 p2 (c, e) = (c + 1, ?e)" using Some by (simp add: join_slots_def)
  then show ?thesis
    unfolding simplifies_def using s1 s2 yn2 n l t v by simp
qed

text \<open>The part of the function that is about two members.\<close>

definition dups1_members ::
  "symview \<Rightarrow> expr_type \<Rightarrow> path \<Rightarrow> path \<Rightarrow> nat \<times> expr \<Rightarrow> (nat \<times> expr) option" where
  "dups1_members v type p1 p2 st =
     (if p1 = p2 then Some st
      else Option.bind
             (if conn (etype (get_at p1 (snd st)))
              then Option.bind
                     (expr_eliminate_dups1 v (etype (get_at p1 (snd st))) [] []
                        (fst st, get_at p1 (snd st)))
                     (\<lambda>r. Some (fst r, put_at p1 (snd r) (snd st)))
              else Some st)
             (\<lambda>st. Some (join_slots v type p1 p2 st)))"

lemma dups1_unfold:
  "expr_eliminate_dups1 v t p1 p2 st =
     (if etype (get_at p1 (snd st)) = t
      then Option.bind (expr_eliminate_dups1 v t (p1 @ [Lft]) p2 st)
             (expr_eliminate_dups1 v t (p1 @ [Rgt]) p2)
      else if etype (get_at p2 (snd st)) = t
      then Option.bind (Option.bind (expr_eliminate_dups1 v t p1 (p2 @ [Lft]) st)
             (expr_eliminate_dups1 v t p1 (p2 @ [Rgt]))) Some
      else dups1_members v t p1 p2 st)"
  unfolding dups1_members_def conn_def
  by (subst expr_eliminate_dups1.simps) (simp add: Let_def)

definition dups1_done :: "symview \<Rightarrow> expr_type \<Rightarrow> nat \<times> expr \<Rightarrow> bool" where
  "dups1_done v t p \<longleftrightarrow>
     (\<exists>q. expr_eliminate_dups1 v t [] [] p = Some q \<and> simplifies True v t p q)"

definition dups1_ok :: "symview \<Rightarrow> nat \<Rightarrow> expr_type \<Rightarrow> nat \<times> expr \<Rightarrow> bool" where
  "dups1_ok v N t p \<longleftrightarrow> conn t \<and> logical (snd p) \<and> nodes (snd p) \<le> N \<and>
     (\<forall>c e. conn (etype e) \<longrightarrow> logical e \<longrightarrow> nodes e < N \<longrightarrow> dups1_done v (etype e) (c, e))"

lemma slot_nonempty:
  assumes "slot p (shape t e) = Some Tip" "slot q (shape t e) = Some s" "p \<noteq> q"
  shows "p \<noteq> []"
  using assms by auto

lemma dups1_members_step:
  assumes "dups1_ok v N t st" "slot p1 (shape t (snd st)) = Some Tip"
    "slot p2 (shape t (snd st)) = Some Tip"
  shows "\<exists>st'. dups1_members v t p1 p2 st = Some st' \<and> simplifies True v t st st'"
proof (cases "p1 = p2")
  case True
  then show ?thesis by (simp add: dups1_members_def)
next
  case False
  obtain c e where st: "st = (c, e)" by (cases st)
  note ok = assms(1) [unfolded dups1_ok_def st snd_conv]
  from ok have ct: "conn t" and le: "logical e" by simp_all
  note sl = assms(2,3) [unfolded st snd_conv]
  let ?e1 = "get_at p1 e"
  show ?thesis
  proof (cases "conn (etype ?e1)")
    case True
    have "nodes ?e1 < N"
      using nodes_get_at [OF ct sl(1)] slot_nonempty [OF sl False] ok by (cases p1) auto
    with ok True logical_get_at [OF ct sl(1) le] have "dups1_done v (etype ?e1) (c, ?e1)" by blast
    then obtain c' x where x: "expr_eliminate_dups1 v (etype ?e1) [] [] (c, ?e1) = Some (c', x)"
        "simplifies True v (etype ?e1) (c, ?e1) (c', x)"
      by (auto simp: dups1_done_def)
    have s: "simplifies True v t (c, e) (c', put_at p1 x e)"
      by (rule simplifies_put [OF ct True sl(1) x(2)])
    note d = simplifiesD [OF s]
    have "simplifies True v t (c', put_at p1 x e) (join_slots v t p1 p2 (c', put_at p1 x e))"
      by (rule join_slots_simplifies [OF ct _ _ False]) (simp_all add: d(1) sl d(2) [OF le])
    with s x(1) False True show ?thesis
      unfolding st by (auto simp: dups1_members_def intro: simplifies_trans)
  next
    case no: False
    with join_slots_simplifies [OF ct sl False le] False show ?thesis
      unfolding st by (auto simp: dups1_members_def)
  qed
qed

interpretation dups1: slot_walk t "expr_eliminate_dups1 v t" "dups1_members v t" "\<lambda>_ _. Some"
    "dups1_ok v N t" "simplifies True v t"
  for v N t
proof
  fix p1 p2 st
  show "expr_eliminate_dups1 v t p1 p2 st =
     (if etype (get_at p1 (snd st)) = t
      then Option.bind (expr_eliminate_dups1 v t (p1 @ [Lft]) p2 st)
             (expr_eliminate_dups1 v t (p1 @ [Rgt]) p2)
      else if etype (get_at p2 (snd st)) = t
      then Option.bind (Option.bind (expr_eliminate_dups1 v t p1 (p2 @ [Lft]) st)
             (expr_eliminate_dups1 v t p1 (p2 @ [Rgt]))) Some
      else dups1_members v t p1 p2 st)"
    by (rule dups1_unfold)
next
  fix a b assume "simplifies True v t a b" "dups1_ok v N t a"
  then show "dups1_ok v N t b"
    using simplifiesD [of True v t "fst a" "snd a" "fst b" "snd b"] by (auto simp: dups1_ok_def)
next
  fix a b assume "simplifies True v t a b"
  then show "shape t (snd b) = shape t (snd a)" by (simp add: simplifies_def)
next
  fix st assume "dups1_ok v N t st"
  then show "conn t" by (simp add: dups1_ok_def)
qed (blast intro: simplifies_trans dups1_members_step simplifies_refl)+

lemma dups1_total:
  "conn (etype e) \<Longrightarrow> logical e \<Longrightarrow> dups1_done v (etype e) (c, e)"
proof (induction "nodes e" arbitrary: e c rule: less_induct)
  case less
  have "dups1_ok v (nodes e) (etype e) (c, e)"
    using less by (simp add: dups1_ok_def)
  then show ?case
    unfolding dups1_done_def by (rule dups1.walk_step) simp_all
qed

section \<open>expr\_eliminate\_dups2\<close>

text \<open>
  The end of the function, for the member \<open>e1\<close>: \<open>(FOO || BAR) && (!FOO && !BAR) -> n\<close> and
  \<open>(FOO && BAR) || (!FOO || !BAR) -> y\<close>.
\<close>

definition dups2_check :: "symview \<Rightarrow> path \<Rightarrow> path \<Rightarrow> nat \<times> expr \<Rightarrow> nat \<times> expr" where
  "dups2_check v p1 p2 st =
     (let e1 = get_at p1 (snd st); e2 = get_at p2 (snd st);
          tmp1 = expr_transform (sv_type v) (expr_alloc_one E_NOT e1)
      in case etype e1 of
           E_OR \<Rightarrow>
             (let (tmp, tmp1, tmp2) = expr_extract_eq_and tmp1 e2
              in if expr_is_yes (Some tmp1)
                 then (fst st + 1, put_at p1 (expr_alloc_symbol SymNo) (snd st)) else st)
         | E_AND \<Rightarrow>
             (let (tmp, tmp1, tmp2) = expr_extract_eq_or tmp1 e2
              in if expr_is_no (Some tmp1)
                 then (fst st + 1, put_at p1 (expr_alloc_symbol SymYes) (snd st)) else st)
         | _ \<Rightarrow> st)"

text \<open>
  Other than in the first walk there is no return after \<open>e2\<close> was split: the end of the function
  also runs with the whole connective as \<open>e2\<close>.
\<close>

partial_function (option) expr_eliminate_dups2 ::
  "symview \<Rightarrow> expr_type \<Rightarrow> path \<Rightarrow> path \<Rightarrow> nat \<times> expr \<Rightarrow> (nat \<times> expr) option" where
  "expr_eliminate_dups2 v type p1 p2 st =
     (if etype (get_at p1 (snd st)) = type
      then Option.bind (expr_eliminate_dups2 v type (p1 @ [Lft]) p2 st)
             (\<lambda>st. expr_eliminate_dups2 v type (p1 @ [Rgt]) p2 st)
      else Option.bind
        (if etype (get_at p2 (snd st)) = type
         then Option.bind (expr_eliminate_dups2 v type p1 (p2 @ [Lft]) st)
                (\<lambda>st. expr_eliminate_dups2 v type p1 (p2 @ [Rgt]) st)
         else Some st)
        (\<lambda>st. let e1 = get_at p1 (snd st) in
           if p1 = p2 then Some st
           else if etype e1 = E_OR \<or> etype e1 = E_AND
           then Option.bind (expr_eliminate_dups2 v (etype e1) [] [] (fst st, e1))
                  (\<lambda>r. Some (dups2_check v p1 p2 (fst r, put_at p1 (snd r) (snd st))))
           else Some st))"

definition dups2_members ::
  "symview \<Rightarrow> path \<Rightarrow> path \<Rightarrow> nat \<times> expr \<Rightarrow> (nat \<times> expr) option" where
  "dups2_members v p1 p2 st =
     (let e1 = get_at p1 (snd st) in
      if p1 = p2 then Some st
      else if conn (etype e1)
      then Option.bind (expr_eliminate_dups2 v (etype e1) [] [] (fst st, e1))
             (\<lambda>r. Some (dups2_check v p1 p2 (fst r, put_at p1 (snd r) (snd st))))
      else Some st)"

lemma dups2_unfold:
  "expr_eliminate_dups2 v t p1 p2 st =
     (if etype (get_at p1 (snd st)) = t
      then Option.bind (expr_eliminate_dups2 v t (p1 @ [Lft]) p2 st)
             (expr_eliminate_dups2 v t (p1 @ [Rgt]) p2)
      else if etype (get_at p2 (snd st)) = t
      then Option.bind (Option.bind (expr_eliminate_dups2 v t p1 (p2 @ [Lft]) st)
             (expr_eliminate_dups2 v t p1 (p2 @ [Rgt]))) (dups2_members v p1 p2)
      else dups2_members v p1 p2 st)"
  unfolding dups2_members_def conn_def
  by (subst expr_eliminate_dups2.simps) (simp add: Let_def)

text \<open>
  For a two-valued expression the check is right: the member and \<open>e2\<close> contradict each other, and
  the whole is below both of them (above, for a disjunction).
\<close>

lemma extract_neutral_absorbs:
  assumes "sane v" "conn t" "extract_then_fold t e1 e2 = (ep, neutral t, b)"
  shows "opv t (expr_val v e1) (expr_val v e2) = expr_val v e2"
proof (cases ep)
  case None
  with extract_then_fold_None assms(3) have "e1 = neutral t" by metis
  with assms(1) show ?thesis by simp
next
  case (Some f)
  have "expr_val v e1 = opv t (expr_val v f) (expr_val v (neutral t))"
    "expr_val v e2 = opv t (expr_val v f) (expr_val v b)"
    using extract_then_fold_val [OF assms(1) _ assms(3) [unfolded Some]] assms(2)
    by (simp_all del: insert_iff)
  with assms(1) show ?thesis by (simp flip: opv_assoc)
qed

lemma two_valued_contradiction:
  assumes "sane v" "two_valued v e"
  shows "EXPR_AND (expr_val v e) (EXPR_NOT (expr_val v e)) = T_no"
    "EXPR_OR (expr_val v e) (EXPR_NOT (expr_val v e)) = T_yes"
  using two_valued_val [OF assms] by auto

lemma check_val:
  assumes "sane v" "conn t" "slot p1 (shape t e) = Some Tip" "slot p2 (shape t e) = Some s"
    and "etype (get_at p1 e) = t'" "conn t'" "two_valued v e"
    and "extract_then_fold t (expr_transform (sv_type v) (ENot (get_at p1 e))) (get_at p2 e) =
      (ep, neutral t, b)"
  shows "expr_val v (put_at p1 (neutral t') e) = expr_val v e"
proof -
  let ?E = "expr_val v (get_at p1 e)" and ?F = "expr_val v (get_at p2 e)" and ?T = "expr_val v e"
  have ne: "t' \<noteq> t" using shape_get_at [OF assms(2,3)] shape_Tip [OF assms(2)] assms(5) by auto
  note c = two_valued_contradiction [OF assms(1) two_valued_get_at [OF assms(2,3,7)]]
  have N: "opv t (EXPR_NOT ?E) ?F = ?F"
    using extract_neutral_absorbs [OF assms(1,2,8)] assms(1)
    by (simp add: kval del: expr_transform.simps(9))
  have "?T = opv t ?E (opv t ?F ?T)"
    using slot_val_absorb [OF assms(2,3)] slot_val_absorb [OF assms(2,4)] by simp
  also have "\<dots> = opv t (opv t ?E (EXPR_NOT ?E)) (opv t ?F ?T)"
    by (subst N [symmetric]) (simp only: opv_assoc)
  finally have T: "?T = expr_val v (neutral t')"
    using c ne assms(1,2,6) by (auto simp: conn_def opv_def neutral_def saneD)
  obtain m where "\<forall>x. expr_val v (put_at p1 x e) = opv t (expr_val v x) m"
    using put_at_val [OF assms(2,3)] by blast
  with T ne assms(1,2,6) show ?thesis by (auto simp: conn_def opv_def neutral_def saneD)
qed

lemma put_constant_simplifies:
  assumes "conn t" "slot p1 (shape t e) = Some Tip" "p1 \<noteq> []" "logical e"
    and "sane v \<Longrightarrow> two_valued v e \<Longrightarrow> expr_val v (put_at p1 (neutral t') e) = expr_val v e"
  shows "simplifies False v t (c, e) (c + 1, put_at p1 (neutral t') e)"
proof -
  have sn: "shape t (neutral t') = Tip" using assms(1) by (simp add: shape_Tip) (auto simp: conn_def)
  show ?thesis
    unfolding simplifies_def snd_conv fst_conv
  proof (intro conjI impI)
    show "shape t (put_at p1 (neutral t') e) = shape t e"
      by (rule shape_put_at [OF assms(1)]) (simp add: sn assms(2))
    show "logical (put_at p1 (neutral t') e)"
      by (rule logical_put_at [OF assms(1,2,4)]) simp
    show "nodes (put_at p1 (neutral t') e) \<le> nodes e"
      using nodes_put_at [OF assms(1,2), of "neutral t'"] nodes_ge_1 [of "get_at p1 e"]
      by (simp del: nodes_ge_1)
    have "\<not> yn_free (put_at p1 (neutral t') e)"
      by (rule put_yn_not_yn_free [OF assms(1,3,2)]) simp
    then show "(c + 1, put_at p1 (neutral t') e) = (c, e) \<or>
        c < c + 1 \<and> \<not> yn_free (put_at p1 (neutral t') e)"
      and "yn_free (put_at p1 (neutral t') e) \<Longrightarrow> yn_free e" by simp_all
    show "two_valued v e \<Longrightarrow> two_valued v (put_at p1 (neutral t') e)"
      by (rule two_valued_put_at [OF assms(1,2)]) simp_all
    show "sane v \<Longrightarrow> False \<or> two_valued v e \<Longrightarrow> expr_val v (put_at p1 (neutral t') e) = expr_val v e"
      using assms(5) by simp
  qed
qed

lemma dups2_check_simplifies:
  assumes "conn t" "slot p1 (shape t e) = Some Tip" "slot p2 (shape t e) = Some s"
    and "conn (etype (get_at p1 e))" "p1 \<noteq> []" "logical e"
  shows "simplifies False v t (c, e) (dups2_check v p1 p2 (c, e))"
proof -
  let ?n = "neutral (etype (get_at p1 e))"
  let ?N = "expr_transform (sv_type v) (ENot (get_at p1 e))"
  obtain ep a b where x: "extract_then_fold t ?N (get_at p2 e) = (ep, a, b)" by (metis prod_cases3)
  have "etype (get_at p1 e) \<noteq> t" using shape_get_at [OF assms(1,2)] shape_Tip [OF assms(1)] by auto
  with assms(1,4) x have check: "dups2_check v p1 p2 (c, e) =
      (if a = neutral t then (c + 1, put_at p1 ?n e) else (c, e))"
    by (auto simp: dups2_check_def conn_def neutral_def expr_alloc_one_def expr_alloc_symbol_def
        expr_is_yes_def expr_is_no_def expr_extract_eq_and_def expr_extract_eq_or_def Let_def
        simp del: expr_transform.simps(9))
  show ?thesis
  proof (cases "a = neutral t")
    case True
    have "simplifies False v t (c, e) (c + 1, put_at p1 ?n e)"
      by (rule put_constant_simplifies [OF assms(1,2,5,6)])
        (rule check_val [OF _ assms(1-3) refl assms(4) _ x [unfolded True]])
    with check True show ?thesis by simp
  qed (simp add: check)
qed

definition dups2_done :: "symview \<Rightarrow> expr_type \<Rightarrow> nat \<times> expr \<Rightarrow> bool" where
  "dups2_done v t p \<longleftrightarrow>
     (\<exists>q. expr_eliminate_dups2 v t [] [] p = Some q \<and> simplifies False v t p q)"

definition dups2_ok :: "symview \<Rightarrow> nat \<Rightarrow> expr_type \<Rightarrow> nat \<times> expr \<Rightarrow> bool" where
  "dups2_ok v N t p \<longleftrightarrow> conn t \<and> logical (snd p) \<and> nodes (snd p) \<le> N \<and>
     (\<forall>c e. conn (etype e) \<longrightarrow> logical e \<longrightarrow> nodes e < N \<longrightarrow> dups2_done v (etype e) (c, e))"

lemma dups2_members_step:
  assumes "dups2_ok v N t st" "slot p1 (shape t (snd st)) = Some Tip"
    "slot p2 (shape t (snd st)) = Some s"
  shows "\<exists>st'. dups2_members v p1 p2 st = Some st' \<and> simplifies False v t st st'"
proof -
  obtain c e where st: "st = (c, e)" by (cases st)
  note ok = assms(1) [unfolded dups2_ok_def st snd_conv]
  from ok have ct: "conn t" and le: "logical e" by simp_all
  note sl = assms(2,3) [unfolded st snd_conv]
  let ?e1 = "get_at p1 e"
  show ?thesis
  proof (cases "p1 \<noteq> p2 \<and> conn (etype ?e1)")
    case True
    then have ne: "p1 \<noteq> []" and cn: "conn (etype ?e1)" using slot_nonempty [OF sl] by auto
    have "nodes ?e1 < N" using nodes_get_at [OF ct sl(1)] ne ok by (cases p1) auto
    with ok cn logical_get_at [OF ct sl(1) le] have "dups2_done v (etype ?e1) (c, ?e1)" by blast
    then obtain c' x where x: "expr_eliminate_dups2 v (etype ?e1) [] [] (c, ?e1) = Some (c', x)"
        "simplifies False v (etype ?e1) (c, ?e1) (c', x)"
      by (auto simp: dups2_done_def)
    have s: "simplifies False v t (c, e) (c', put_at p1 x e)"
      by (rule simplifies_put [OF ct cn sl(1) x(2)])
    note d = simplifiesD [OF s]
    have nt: "etype ?e1 \<noteq> t" using shape_get_at [OF ct sl(1)] shape_Tip [OF ct] by auto
    have ex: "etype x = etype ?e1"
      by (rule shape_conn_root(1) [OF cn ct nt [symmetric] refl simplifiesD(1) [OF x(2)]])
    have sl': "slot p1 (shape t (put_at p1 x e)) = Some Tip" "slot p2 (shape t (put_at p1 x e)) = Some s"
      using sl by (simp_all only: d(1))
    have g: "conn (etype (get_at p1 (put_at p1 x e)))"
      by (simp only: get_put_at [OF ct sl(1)] ex cn)
    have "simplifies False v t (c', put_at p1 x e) (dups2_check v p1 p2 (c', put_at p1 x e))"
      by (rule dups2_check_simplifies [OF ct sl' g ne d(2) [OF le]])
    from simplifies_trans [OF s this]
    have "simplifies False v t (c, e) (dups2_check v p1 p2 (c', put_at p1 x e))" .
    moreover have "dups2_members v p1 p2 (c, e) = Some (dups2_check v p1 p2 (c', put_at p1 x e))"
      using True by (simp add: dups2_members_def x(1))
    ultimately show ?thesis unfolding st by blast
  next
    case False
    then show ?thesis unfolding st by (auto simp: dups2_members_def Let_def)
  qed
qed

interpretation dups2: slot_walk t "expr_eliminate_dups2 v t" "dups2_members v" "dups2_members v"
    "dups2_ok v N t" "simplifies False v t"
  for v N t
proof
  fix p1 p2 st
  show "expr_eliminate_dups2 v t p1 p2 st =
     (if etype (get_at p1 (snd st)) = t
      then Option.bind (expr_eliminate_dups2 v t (p1 @ [Lft]) p2 st)
             (expr_eliminate_dups2 v t (p1 @ [Rgt]) p2)
      else if etype (get_at p2 (snd st)) = t
      then Option.bind (Option.bind (expr_eliminate_dups2 v t p1 (p2 @ [Lft]) st)
             (expr_eliminate_dups2 v t p1 (p2 @ [Rgt]))) (dups2_members v p1 p2)
      else dups2_members v p1 p2 st)"
    by (rule dups2_unfold)
next
  fix a b assume "simplifies False v t a b" "dups2_ok v N t a"
  then show "dups2_ok v N t b"
    using simplifiesD [of False v t "fst a" "snd a" "fst b" "snd b"] by (auto simp: dups2_ok_def)
next
  fix a b assume "simplifies False v t a b"
  then show "shape t (snd b) = shape t (snd a)" by (simp add: simplifies_def)
next
  fix st assume "dups2_ok v N t st"
  then show "conn t" by (simp add: dups2_ok_def)
qed (blast intro: simplifies_trans dups2_members_step simplifies_refl)+

lemma dups2_total:
  "conn (etype e) \<Longrightarrow> logical e \<Longrightarrow> dups2_done v (etype e) (c, e)"
proof (induction "nodes e" arbitrary: e c rule: less_induct)
  case less
  have "dups2_ok v (nodes e) (etype e) (c, e)"
    using less by (simp add: dups2_ok_def)
  then show ?case
    unfolding dups2_done_def by (rule dups2.walk_step) simp_all
qed

section \<open>expr\_eliminate\_dups\<close>

text \<open>One turn of the loop: the new \<open>trans_count\<close> and the tree.\<close>

definition dups_turn :: "symview \<Rightarrow> expr \<Rightarrow> (nat \<times> expr) option" where
  "dups_turn v e =
     (if etype e = E_OR \<or> etype e = E_AND
      then Option.bind (expr_eliminate_dups1 v (etype e) [] [] (0, e))
             (\<lambda>st. expr_eliminate_dups2 v (etype (snd st)) [] [] st)
      else Some (0, e))"

partial_function (option) dups_loop :: "symview \<Rightarrow> expr \<Rightarrow> expr option" where
  "dups_loop v e =
     Option.bind (dups_turn v e)
       (\<lambda>st. if fst st = 0 then Some (snd st) else dups_loop v (expr_eliminate_yn (snd st)))"

text \<open>\<open>trans_count\<close> is put back at the end; NULL comes back as it is.\<close>

definition expr_eliminate_dups :: "symview \<Rightarrow> expr option \<Rightarrow> expr option option" where
  "expr_eliminate_dups v e =
     (case e of None \<Rightarrow> Some None | Some x \<Rightarrow> map_option Some (dups_loop v x))"

lemma dups_turn_total:
  assumes "logical e"
  shows "\<exists>c e'. dups_turn v e = Some (c, e') \<and> logical e' \<and> nodes e' \<le> nodes e \<and>
    (c = 0 \<and> e' = e \<or> 0 < c \<and> \<not> yn_free e') \<and> (two_valued v e \<longrightarrow> two_valued v e') \<and>
    (sane v \<longrightarrow> two_valued v e \<longrightarrow> expr_val v e' = expr_val v e)"
proof (cases "conn (etype e)")
  case True
  obtain c1 e1 where 1: "expr_eliminate_dups1 v (etype e) [] [] (0, e) = Some (c1, e1)"
      "simplifies True v (etype e) (0, e) (c1, e1)"
    using dups1_total [OF True assms, of v 0] by (auto simp: dups1_done_def)
  note d1 = simplifiesD [OF 1(2)]
  have t: "etype e1 = etype e"
    using d1(1) shape_Tip [OF True, of e1] shape_Tip [OF True, of e] by simp
  obtain c2 e2 where 2: "expr_eliminate_dups2 v (etype e1) [] [] (c1, e1) = Some (c2, e2)"
      "simplifies False v (etype e1) (c1, e1) (c2, e2)"
    using dups2_total [of e1 v c1] True d1(2) [OF assms] t by (auto simp: dups2_done_def)
  note d2 = simplifiesD [OF 2(2)]
  have "dups_turn v e = Some (c2, e2)" using True 1(1) 2(1) by (simp add: dups_turn_def conn_def)
  moreover have "c2 = 0 \<and> e2 = e \<or> 0 < c2 \<and> \<not> yn_free e2"
    using d1(5) d2(5) by auto
  moreover have "logical e2" by (rule d2(2) [OF d1(2) [OF assms]])
  moreover have "nodes e2 \<le> nodes e" using d1(3) d2(3) by simp
  moreover have "two_valued v e \<Longrightarrow> two_valued v e2" using d1(6) d2(6) by blast
  moreover have "sane v \<Longrightarrow> two_valued v e \<Longrightarrow> expr_val v e2 = expr_val v e"
    using d1(6,7) d2(7) by metis
  ultimately show ?thesis by blast
next
  case False
  with assms show ?thesis by (simp add: dups_turn_def conn_def)
qed

lemma two_valued_eliminate_yn: "two_valued v e \<Longrightarrow> two_valued v (expr_eliminate_yn e)"
  by (induction e rule: expr_eliminate_yn.induct) (auto simp: Let_def)

lemma dups_loop_total:
  "logical e \<Longrightarrow> \<exists>e'. dups_loop v e = Some e' \<and> logical e' \<and> nodes e' \<le> nodes e \<and>
     dups_turn v e' = Some (0, e') \<and> (two_valued v e \<longrightarrow> two_valued v e') \<and>
     (sane v \<longrightarrow> two_valued v e \<longrightarrow> expr_val v e' = expr_val v e)"
proof (induction "nodes e" arbitrary: e rule: less_induct)
  case less
  obtain c e1 where 1: "dups_turn v e = Some (c, e1)" "logical e1" "nodes e1 \<le> nodes e"
      "c = 0 \<and> e1 = e \<or> 0 < c \<and> \<not> yn_free e1" "two_valued v e \<longrightarrow> two_valued v e1"
      "sane v \<longrightarrow> two_valued v e \<longrightarrow> expr_val v e1 = expr_val v e"
    using dups_turn_total [OF less.prems] by blast
  show ?case
  proof (cases "c = 0")
    case True
    with 1 less.prems show ?thesis by (simp add: dups_loop.simps [of v e])
  next
    case False
    with 1 have "nodes (expr_eliminate_yn e1) < nodes e"
      using not_yn_free_shrinks [of e1] by simp
    from less.hyps [OF this] 1(2) obtain e' where
      2: "dups_loop v (expr_eliminate_yn e1) = Some e'" "logical e'"
        "nodes e' \<le> nodes (expr_eliminate_yn e1)" "dups_turn v e' = Some (0, e')"
        "two_valued v (expr_eliminate_yn e1) \<longrightarrow> two_valued v e'"
        "sane v \<longrightarrow> two_valued v (expr_eliminate_yn e1) \<longrightarrow>
          expr_val v e' = expr_val v (expr_eliminate_yn e1)"
      by auto
    have "dups_loop v e = Some e'" using 1(1) 2(1) False by (simp add: dups_loop.simps [of v e])
    with 1 2 nodes_eliminate_yn [of e1] two_valued_eliminate_yn [of v e1] show ?thesis
      by (auto simp: kval)
  qed
qed

declare expr_eliminate_dups1.simps [code] expr_eliminate_dups2.simps [code] dups_loop.simps [code]

section \<open>expr\_simplify\_unmet\_dep\<close>

text \<open>
  The loop of \<open>expr_get_leftmost_symbol\<close> goes to the left until it meets a symbol. A comparison
  has a symbol there where the loop takes an expression, so the result is None: the loop reads
  a \<open>struct symbol\<close> as a \<open>struct expr\<close>.
\<close>

fun expr_get_leftmost_symbol :: "expr \<Rightarrow> expr option" where
  "expr_get_leftmost_symbol (ESymbol s) = expr_copy (ESymbol s)"
| "expr_get_leftmost_symbol (EAnd l r) = expr_get_leftmost_symbol l"
| "expr_get_leftmost_symbol (EOr l r) = expr_get_leftmost_symbol l"
| "expr_get_leftmost_symbol (ENot x) = expr_get_leftmost_symbol x"
| "expr_get_leftmost_symbol (EList (Some l) _) = expr_get_leftmost_symbol l"
| "expr_get_leftmost_symbol _ = None"

definition leftmost_opt :: "expr option \<Rightarrow> expr option option" where
  "leftmost_opt e =
     (case e of None \<Rightarrow> Some None | Some x \<Rightarrow> map_option Some (expr_get_leftmost_symbol x))"

text \<open>The outer None: not defined (or no end); the inner one: NULL.\<close>

fun expr_simplify_unmet_dep :: "symview \<Rightarrow> expr \<Rightarrow> expr option \<Rightarrow> expr option option" where
  "expr_simplify_unmet_dep v (EOr l r) e2 =
     Option.bind (expr_simplify_unmet_dep v l e2)
       (\<lambda>a. Option.bind (expr_simplify_unmet_dep v r e2) (\<lambda>b. Some (expr_alloc_and a b)))"
| "expr_simplify_unmet_dep v (EAnd l r) e2 =
     Option.bind (expr_eliminate_dups v (expr_alloc_and (Some (EAnd l r)) e2))
       (\<lambda>e. leftmost_opt
          (case e of Some x \<Rightarrow> if \<not> expr_eq x (EAnd l r) then Some (EAnd l r) else None
           | None \<Rightarrow> None))"
| "expr_simplify_unmet_dep v e1 e2 = leftmost_opt (Some e1)"

lemma leftmost_contains:
  "expr_get_leftmost_symbol e = Some x \<Longrightarrow> logical e \<Longrightarrow>
   \<exists>s. x = ESymbol s \<and> expr_contains_symbol e s"
  by (induction e rule: expr_get_leftmost_symbol.induct) auto

lemma leftmost_opt_contains:
  "leftmost_opt (Some e) = Some (Some x) \<Longrightarrow> logical e \<Longrightarrow> expr_contains_symbol x s \<Longrightarrow>
   expr_contains_symbol e s"
  using leftmost_contains [of e x] by (auto simp: leftmost_opt_def)

lemma alloc_and_contains:
  "expr_alloc_and a b = Some x \<Longrightarrow> expr_contains_symbol x s \<Longrightarrow>
   (\<exists>y. a = Some y \<and> expr_contains_symbol y s) \<or> (\<exists>y. b = Some y \<and> expr_contains_symbol y s)"
  by (cases a; cases b) (auto simp: expr_alloc_two_def)

lemma simplify_unmet_dep_contains:
  "expr_simplify_unmet_dep v e1 e2 = Some (Some x) \<Longrightarrow> logical e1 \<Longrightarrow> expr_contains_symbol x s \<Longrightarrow>
   expr_contains_symbol e1 s"
proof (induction v e1 e2 arbitrary: x rule: expr_simplify_unmet_dep.induct)
  case (1 v l r e2)
  then obtain a b where "expr_simplify_unmet_dep v l e2 = Some a"
      "expr_simplify_unmet_dep v r e2 = Some b" "expr_alloc_and a b = Some x"
    by (auto split: bind_splits)
  with "1.IH" "1.prems" alloc_and_contains [of a b x s] show ?case by auto
next
  case (2 v l r e2)
  then have "leftmost_opt (Some (EAnd l r)) = Some (Some x)"
    by (auto simp: leftmost_opt_def split: bind_splits option.splits if_splits)
  with 2 leftmost_opt_contains [of "EAnd l r" x s] show ?case by auto
qed (use leftmost_opt_contains in \<open>fastforce\<close>)+

section \<open>Properties\<close>

text \<open>
  where \<open>expr_join_or\<close> or \<open>expr_join_and\<close> gives an expression for two members, it has the value
  of the connective of the two, for every tristate value of the symbols.
\<close>

theorem join_correct:
  assumes "sane v"
  shows "(\<forall>x. expr_join_or v e1 e2 = Some x \<longrightarrow> expr_val v x = expr_val v (EOr e1 e2)) \<and>
    (\<forall>x. expr_join_and v e1 e2 = Some x \<longrightarrow> expr_val v x = expr_val v (EAnd e1 e2))"
  using join_or_val [OF assms] join_and_val [OF assms] by simp

theorem join_correct_witness:
  "expr_join_or (sample_view (\<lambda>_. S_TRISTATE) (\<lambda>_. T_mod)) (EEqual (SymId 0) SymYes) (EEqual (SymId 0) SymNo) =
     Some (EUnequal (SymId 0) SymMod) \<and>
   expr_val (sample_view (\<lambda>_. S_TRISTATE) (\<lambda>_. T_mod)) (EUnequal (SymId 0) SymMod) =
     expr_val (sample_view (\<lambda>_. S_TRISTATE) (\<lambda>_. T_mod)) (EOr (EEqual (SymId 0) SymYes) (EEqual (SymId 0) SymNo))"
proof -
  have "expr_join_or (sample_view (\<lambda>_. S_TRISTATE) (\<lambda>_. T_mod)) (EEqual (SymId 0) SymYes) (EEqual (SymId 0) SymNo) =
     Some (EUnequal (SymId 0) SymMod)" by code_simp
  with join_correct [of "sample_view (\<lambda>_. S_TRISTATE) (\<lambda>_. T_mod)" "EEqual (SymId 0) SymYes" "EEqual (SymId 0) SymNo"]
  show ?thesis by simp
qed

text \<open>
  the first walk over the pairs of members, \<open>expr_eliminate_dups1\<close>, ends; it keeps the value for
  all tristate values, adds no node, and where it joined two members it left a constant that
  \<open>expr_eliminate_yn\<close> will fold.
\<close>

theorem eliminate_dups1_correct:
  assumes "logical e" "etype e \<in> {E_OR, E_AND}"
  shows "\<exists>c' e'. expr_eliminate_dups1 v (etype e) [] [] (c, e) = Some (c', e') \<and>
    nodes e' \<le> nodes e \<and> (c' = c \<and> e' = e \<or> c < c' \<and> \<not> yn_free e') \<and>
    (sane v \<longrightarrow> expr_val v e' = expr_val v e)"
proof -
  have "conn (etype e)" using assms(2) by (auto simp: conn_def)
  from dups1_total [OF this assms(1), of v c] show ?thesis
    unfolding dups1_done_def by (auto dest: simplifiesD)
qed

theorem eliminate_dups1_correct_witness:
  "expr_eliminate_dups1 (sample_view (\<lambda>_. S_TRISTATE) (\<lambda>_. T_mod)) E_AND [] []
      (0, EAnd (ESymbol (SymId 0)) (ESymbol (SymId 0))) =
     Some (1, EAnd (ESymbol SymYes) (ESymbol (SymId 0))) \<and>
   expr_val (sample_view (\<lambda>_. S_TRISTATE) (\<lambda>_. T_mod)) (EAnd (ESymbol SymYes) (ESymbol (SymId 0))) =
     expr_val (sample_view (\<lambda>_. S_TRISTATE) (\<lambda>_. T_mod)) (EAnd (ESymbol (SymId 0)) (ESymbol (SymId 0)))"
proof -
  have "expr_eliminate_dups1 (sample_view (\<lambda>_. S_TRISTATE) (\<lambda>_. T_mod)) E_AND [] []
      (0, EAnd (ESymbol (SymId 0)) (ESymbol (SymId 0))) =
     Some (1, EAnd (ESymbol SymYes) (ESymbol (SymId 0)))" by code_simp
  with eliminate_dups1_correct [of "EAnd (ESymbol (SymId 0)) (ESymbol (SymId 0))"
      "sample_view (\<lambda>_. S_TRISTATE) (\<lambda>_. T_mod)" 0]
  show ?thesis by simp
qed

text \<open>
  C20: \<open>expr_eliminate_dups\<close> ends for every dependency and gives an expression that is not larger and
  that a further turn of its loop leaves alone; on boolean symbols and comparisons the value
  is the same.
\<close>

theorem eliminate_dups_correct:
  assumes "logical e"
  shows "\<exists>e'. expr_eliminate_dups v (Some e) = Some (Some e') \<and> logical e' \<and> nodes e' \<le> nodes e \<and>
    dups_turn v e' = Some (0, e') \<and>
    (sane v \<and> two_valued v e \<longrightarrow> two_valued v e' \<and> expr_val v e' = expr_val v e)"
  using dups_loop_total [OF assms, of v] by (auto simp: expr_eliminate_dups_def)

theorem eliminate_dups_correct_witness:
  "expr_eliminate_dups (sample_view (\<lambda>_. S_BOOLEAN) (\<lambda>_. T_yes))
      (Some (EOr (EEqual (SymId 0) SymYes) (EOr (ESymbol (SymId 3)) (EEqual (SymId 0) SymYes)))) =
     Some (Some (EOr (ESymbol (SymId 3)) (EEqual (SymId 0) SymYes))) \<and>
   dups_turn (sample_view (\<lambda>_. S_BOOLEAN) (\<lambda>_. T_yes))
     (EOr (ESymbol (SymId 3)) (EEqual (SymId 0) SymYes)) =
     Some (0, EOr (ESymbol (SymId 3)) (EEqual (SymId 0) SymYes))"
proof -
  have "expr_eliminate_dups (sample_view (\<lambda>_. S_BOOLEAN) (\<lambda>_. T_yes))
      (Some (EOr (EEqual (SymId 0) SymYes) (EOr (ESymbol (SymId 3)) (EEqual (SymId 0) SymYes)))) =
     Some (Some (EOr (ESymbol (SymId 3)) (EEqual (SymId 0) SymYes)))" by code_simp
  with eliminate_dups_correct [of "EOr (EEqual (SymId 0) SymYes) (EOr (ESymbol (SymId 3)) (EEqual (SymId 0) SymYes))"
      "sample_view (\<lambda>_. S_BOOLEAN) (\<lambda>_. T_yes)"]
  show ?thesis by simp
qed

text \<open>
  for tristate symbols the second walk does not keep the value: with FOO at m,
  \<open>(FOO || BAR) && (!FOO && !BAR)\<close> is m and becomes n.
\<close>

theorem eliminate_dups_tristate:
  "\<exists>v e. sane v \<and> logical e \<and> expr_val v e = T_mod \<and>
     expr_eliminate_dups v (Some e) = Some (Some (ESymbol SymNo))"
proof (intro exI conjI)
  let ?v = "sample_view (\<lambda>_. S_TRISTATE) (\<lambda>i. if i = 0 then T_mod else T_no)"
  let ?e = "EAnd (EOr (ESymbol (SymId 0)) (ESymbol (SymId 5)))
    (EAnd (ENot (ESymbol (SymId 0))) (ENot (ESymbol (SymId 5))))"
  show "sane ?v" "logical ?e" by simp_all
  show "expr_val ?v ?e = T_mod" by code_simp
  show "expr_eliminate_dups ?v (Some ?e) = Some (Some (ESymbol SymNo))" by code_simp
qed

text \<open>
  what \<open>expr_simplify_unmet_dep\<close> reports of a reverse dependency only names symbols of it.
\<close>

theorem simplify_unmet_dep_symbols:
  assumes "expr_simplify_unmet_dep v e1 e2 = Some (Some x)" "logical e1" "expr_contains_symbol x s"
  shows "expr_contains_symbol e1 s"
  using assms by (rule simplify_unmet_dep_contains)

theorem simplify_unmet_dep_symbols_witness:
  "expr_contains_symbol (EOr (EAnd (ESymbol (SymId 0)) (ENot (ESymbol (SymId 5)))) (ESymbol (SymId 4))) (SymId 4)"
proof (rule simplify_unmet_dep_symbols)
  show "expr_simplify_unmet_dep (sample_view (\<lambda>_. S_BOOLEAN) (\<lambda>_. T_yes))
      (EOr (EAnd (ESymbol (SymId 0)) (ENot (ESymbol (SymId 5)))) (ESymbol (SymId 4))) (Some (ESymbol (SymId 5))) =
    Some (Some (EAnd (ESymbol (SymId 0)) (ESymbol (SymId 4))))" by code_simp
qed simp_all

end
