(* ===== verification/Ksymbol.thy ===== *)
theory Ksymbol
  imports Kexpr
begin

text \<open>
  The symbols of a configuration, from \<open>support/kconfig/expr.h\<close> and \<open>symbol.c\<close>: \<open>struct symbol\<close> and
  \<open>struct property\<close> as records, the table with its hash buckets and the globals beside it as a
  state, \<open>sym_lookup\<close> and \<open>sym_find\<close>, the properties and their allocation. A pointer to a symbol is
  a \<open>symref\<close>; the bits of \<open>flags\<close> are a set. \<open>curr.val\<close> and the \<open>val\<close> of \<open>def\<close> hold a string or,
  for a choice, a symbol; of \<open>def\<close> the program uses \<open>S_DEF_USER\<close> and \<open>S_DEF_AUTO\<close>.
\<close>

unbundle bit_operations_syntax

section \<open>Symbols and properties\<close>

datatype sflag =
    SYMBOL_CONST | SYMBOL_CHECK | SYMBOL_CHOICE | SYMBOL_CHOICEVAL | SYMBOL_VALID | SYMBOL_OPTIONAL
  | SYMBOL_WRITE | SYMBOL_CHANGED | SYMBOL_AUTO | SYMBOL_CHECKED | SYMBOL_WARNED | SYMBOL_DEF_USER
  | SYMBOL_DEF_AUTO | SYMBOL_DEF3 | SYMBOL_DEF4 | SYMBOL_NEED_SET_CHOICE_VALUES

datatype prop_type =
    P_UNKNOWN | P_PROMPT | P_COMMENT | P_MENU | P_DEFAULT | P_CHOICE | P_SELECT | P_RANGE | P_ENV
  | P_SYMBOL

text \<open>
  \<open>visible.tri\<close> of a property without a text is written right before each use; it is returned
  instead. That of a prompt is kept in the table (\<open>vis_tri\<close>, by symbol and place in its list).
\<close>

record property =
  p_type :: prop_type
  p_text :: "cstring option"
  p_visible :: "expr option"
  p_expr :: "expr option"
  p_menu :: "nat option"
  p_pos :: "cstring \<times> nat"

datatype sval = V_NULL | V_str cstring | V_sym symref

record symbol =
  s_name :: "cstring option"
  s_type :: symbol_type
  s_curr :: "sval \<times> tristate"
  s_user :: "sval \<times> tristate"
  s_auto :: "sval \<times> tristate"
  s_visible :: tristate
  s_flags :: "sflag set"
  s_props :: "property list"
  s_dir_dep :: "expr option \<times> tristate"
  s_rev_dep :: "expr option \<times> tristate"

text \<open>What \<open>memset\<close> makes of a new symbol, and the four static ones.\<close>

definition blank_symbol :: symbol where
  "blank_symbol = \<lparr>s_name = None, s_type = S_UNKNOWN, s_curr = (V_NULL, T_no), s_user = (V_NULL, T_no),
     s_auto = (V_NULL, T_no), s_visible = T_no, s_flags = {}, s_props = [], s_dir_dep = (None, T_no), s_rev_dep = (None, T_no)\<rparr>"

definition symbol_yes :: symbol where
  "symbol_yes = blank_symbol\<lparr>s_name := Some ''y'', s_curr := (V_str ''y'', T_yes),
     s_flags := {SYMBOL_CONST, SYMBOL_VALID}\<rparr>"

definition symbol_mod :: symbol where
  "symbol_mod = blank_symbol\<lparr>s_name := Some ''m'', s_curr := (V_str ''m'', T_mod),
     s_flags := {SYMBOL_CONST, SYMBOL_VALID}\<rparr>"

definition symbol_no :: symbol where
  "symbol_no = blank_symbol\<lparr>s_name := Some ''n'', s_curr := (V_str ''n'', T_no),
     s_flags := {SYMBOL_CONST, SYMBOL_VALID}\<rparr>"

definition symbol_empty :: symbol where
  "symbol_empty = blank_symbol\<lparr>s_name := Some [], s_curr := (V_str [], T_no), s_flags := {SYMBOL_VALID}\<rparr>"

definition sym_is_choice :: "symbol \<Rightarrow> bool" where
  "sym_is_choice s \<longleftrightarrow> SYMBOL_CHOICE \<in> s_flags s"

definition sym_is_choice_value :: "symbol \<Rightarrow> bool" where
  "sym_is_choice_value s \<longleftrightarrow> SYMBOL_CHOICEVAL \<in> s_flags s"

definition sym_is_optional :: "symbol \<Rightarrow> bool" where
  "sym_is_optional s \<longleftrightarrow> SYMBOL_OPTIONAL \<in> s_flags s"

definition sym_has_value :: "symbol \<Rightarrow> bool" where
  "sym_has_value s \<longleftrightarrow> SYMBOL_DEF_USER \<in> s_flags s"

definition sym_get_tristate_value :: "symbol \<Rightarrow> tristate" where
  "sym_get_tristate_value s = snd (s_curr s)"

fun sym_type_name :: "symbol_type \<Rightarrow> cstring" where
  "sym_type_name S_BOOLEAN = ''boolean''"
| "sym_type_name S_TRISTATE = ''tristate''"
| "sym_type_name S_INT = ''integer''"
| "sym_type_name S_HEX = ''hex''"
| "sym_type_name S_STRING = ''string''"
| "sym_type_name S_UNKNOWN = ''unknown''"
| "sym_type_name S_OTHER = ''???''"

fun prop_get_type_name :: "prop_type \<Rightarrow> cstring" where
  "prop_get_type_name P_PROMPT = ''prompt''"
| "prop_get_type_name P_ENV = ''env''"
| "prop_get_type_name P_COMMENT = ''comment''"
| "prop_get_type_name P_MENU = ''menu''"
| "prop_get_type_name P_DEFAULT = ''default''"
| "prop_get_type_name P_CHOICE = ''choice''"
| "prop_get_type_name P_SELECT = ''select''"
| "prop_get_type_name P_RANGE = ''range''"
| "prop_get_type_name P_SYMBOL = ''symbol''"
| "prop_get_type_name P_UNKNOWN = ''unknown''"

text \<open>
  For E\_LIST the code returns \<open>left\<close>, which is the next cell of the list there, as a symbol; no
  caller passes such a property, and the model answers NULL.
\<close>

definition prop_get_symbol :: "property \<Rightarrow> symref option" where
  "prop_get_symbol p = (case p_expr p of Some (ESymbol s) \<Rightarrow> Some s | _ \<Rightarrow> None)"

definition sym_get_choice_prop :: "symbol \<Rightarrow> property option" where
  "sym_get_choice_prop s = find (\<lambda>p. p_type p = P_CHOICE) (s_props s)"

definition sym_get_env_prop :: "symbol \<Rightarrow> property option" where
  "sym_get_env_prop s = find (\<lambda>p. p_type p = P_ENV) (s_props s)"

text \<open>\<open>expr_list_for_each_sym\<close>: the symbols of a list, from the head on.\<close>

fun expr_list_syms :: "expr \<Rightarrow> symref list" where
  "expr_list_syms (EList None s) = [s]"
| "expr_list_syms (EList (Some l) s) = s # expr_list_syms l"
| "expr_list_syms _ = []"

definition choice_syms :: "symbol \<Rightarrow> symref list" where
  "choice_syms s = (case sym_get_choice_prop s of
      Some p \<Rightarrow> (case p_expr p of Some e \<Rightarrow> expr_list_syms e | None \<Rightarrow> [])
    | None \<Rightarrow> [])"

definition sym_is_changable :: "symbol \<Rightarrow> bool" where
  "sym_is_changable s \<longleftrightarrow> s_visible s > snd (s_rev_dep s)"

section \<open>The table\<close>

record symtab =
  syms :: "symref \<Rightarrow> symbol"
  vis_tri :: "symref \<Rightarrow> nat \<Rightarrow> tristate"
  buckets :: "nat \<Rightarrow> symref list"
  next_id :: nat
  modules_sym :: "symref option"
  modules_val :: tristate
  sym_change_count :: nat
  menus_changed :: "nat set"
  sym_env_list :: "symref list"
  current_pos :: "cstring \<times> nat"
  inited :: bool
  warnings :: "cstring list"

fun static_symbol :: "symref \<Rightarrow> symbol" where
  "static_symbol SymYes = symbol_yes"
| "static_symbol SymMod = symbol_mod"
| "static_symbol SymNo = symbol_no"
| "static_symbol SymEmpty = symbol_empty"
| "static_symbol (SymId i) = blank_symbol"

definition empty_symtab :: symtab where
  "empty_symtab = \<lparr>syms = static_symbol, vis_tri = (\<lambda>_ _. T_no), buckets = (\<lambda>_. []), next_id = 0, modules_sym = None,
     modules_val = T_no, sym_change_count = 0, menus_changed = {}, sym_env_list = [],
     current_pos = ([], 0), inited = False, warnings = []\<rparr>"

definition upd_sym :: "symref \<Rightarrow> (symbol \<Rightarrow> symbol) \<Rightarrow> symtab \<Rightarrow> symtab" where
  "upd_sym r f st = st\<lparr>syms := (syms st)(r := f (syms st r))\<rparr>"

definition set_flags :: "symref \<Rightarrow> sflag set \<Rightarrow> symtab \<Rightarrow> symtab" where
  "set_flags r fs = upd_sym r (\<lambda>s. s\<lparr>s_flags := s_flags s \<union> fs\<rparr>)"

definition clear_flags :: "symref \<Rightarrow> sflag set \<Rightarrow> symtab \<Rightarrow> symtab" where
  "clear_flags r fs = upd_sym r (\<lambda>s. s\<lparr>s_flags := s_flags s - fs\<rparr>)"

definition SYMBOL_HASHSIZE :: nat where "SYMBOL_HASHSIZE = 9973"

definition SYMBOL_MAXLENGTH :: nat where "SYMBOL_MAXLENGTH = 256"

text \<open>The fnv32 hash; a \<open>char\<close> is signed and is extended to the width of the hash.\<close>

fun strhash_from :: "32 word \<Rightarrow> cstring \<Rightarrow> 32 word" where
  "strhash_from h [] = h"
| "strhash_from h (c # s) = strhash_from ((h XOR scast (of_char c :: 8 word)) * 0x01000193) s"

definition strhash :: "cstring \<Rightarrow> 32 word" where
  "strhash s = strhash_from 2166136261 s"

definition bucket_of :: "cstring option \<Rightarrow> nat" where
  "bucket_of name = (case name of None \<Rightarrow> 0 | Some n \<Rightarrow> unat (strhash n) mod SYMBOL_HASHSIZE)"

fun static_name :: "cstring \<Rightarrow> symref option" where
  "static_name [c] = (if c = CHR ''y'' then Some SymYes else if c = CHR ''m'' then Some SymMod
     else if c = CHR ''n'' then Some SymNo else None)"
| "static_name _ = None"

definition lookup_matches :: "symtab \<Rightarrow> cstring \<Rightarrow> sflag set \<Rightarrow> symref \<Rightarrow> bool" where
  "lookup_matches st n fs r \<longleftrightarrow> s_name (syms st r) = Some n \<and>
     (if fs \<noteq> {} then s_flags (syms st r) \<inter> fs \<noteq> {}
      else s_flags (syms st r) \<inter> {SYMBOL_CONST, SYMBOL_CHOICE} = {})"

definition new_symbol :: "cstring option \<Rightarrow> sflag set \<Rightarrow> symtab \<Rightarrow> symref \<times> symtab" where
  "new_symbol name fs st =
     (let r = SymId (next_id st); h = bucket_of name
      in (r, st\<lparr>syms := (syms st)(r := blank_symbol\<lparr>s_name := name, s_flags := fs\<rparr>),
                buckets := (buckets st)(h := r # buckets st h), next_id := next_id st + 1\<rparr>))"

definition sym_lookup :: "cstring option \<Rightarrow> sflag set \<Rightarrow> symtab \<Rightarrow> symref \<times> symtab" where
  "sym_lookup name fs st =
     (case name of
        None \<Rightarrow> new_symbol None fs st
      | Some n \<Rightarrow>
          (case static_name n of
             Some r \<Rightarrow> (r, st)
           | None \<Rightarrow>
               (case find (lookup_matches st n fs) (buckets st (bucket_of name)) of
                  Some r \<Rightarrow> (r, st)
                | None \<Rightarrow> new_symbol name fs st)))"

definition find_matches :: "symtab \<Rightarrow> cstring \<Rightarrow> symref \<Rightarrow> bool" where
  "find_matches st n r \<longleftrightarrow> s_name (syms st r) = Some n \<and> SYMBOL_CONST \<notin> s_flags (syms st r)"

definition sym_find :: "cstring option \<Rightarrow> symtab \<Rightarrow> symref option" where
  "sym_find name st =
     (case name of
        None \<Rightarrow> None
      | Some n \<Rightarrow>
          (case static_name n of
             Some r \<Rightarrow> Some r
           | None \<Rightarrow> find (find_matches st n) (buckets st (bucket_of name))))"

text \<open>\<open>for_all_symbols\<close>: the symbols in the buckets, without those of type S\_OTHER.\<close>

definition hashed :: "symtab \<Rightarrow> symref \<Rightarrow> bool" where
  "hashed st r \<longleftrightarrow> (\<exists>i < SYMBOL_HASHSIZE. r \<in> set (buckets st i))"

definition for_all_symbols :: "(symbol \<Rightarrow> symbol) \<Rightarrow> symtab \<Rightarrow> symtab" where
  "for_all_symbols f st =
     st\<lparr>syms := (\<lambda>r. if hashed st r \<and> s_type (syms st r) \<noteq> S_OTHER then f (syms st r) else syms st r)\<rparr>"

section \<open>Allocating properties\<close>

text \<open>A property without a symbol is only returned; one with a symbol is also appended to its list.\<close>

definition prop_alloc :: "prop_type \<Rightarrow> symtab \<Rightarrow> property" where
  "prop_alloc type st = \<lparr>p_type = type, p_text = None, p_visible = None, p_expr = None, p_menu = None,
     p_pos = current_pos st\<rparr>"

definition add_prop :: "symref \<Rightarrow> property \<Rightarrow> symtab \<Rightarrow> symtab" where
  "add_prop r p = upd_sym r (\<lambda>s. s\<lparr>s_props := s_props s @ [p]\<rparr>)"

definition sym_add_default :: "symref \<Rightarrow> cstring \<Rightarrow> symtab \<Rightarrow> symtab" where
  "sym_add_default r def st =
     (let p = prop_alloc P_DEFAULT st; (c, st) = sym_lookup (Some def) {SYMBOL_CONST} st
      in add_prop r (p\<lparr>p_expr := Some (expr_alloc_symbol c)\<rparr>) st)"

definition sym_init :: "cstring \<Rightarrow> symtab \<Rightarrow> symtab" where
  "sym_init release st =
     (if inited st then st
      else let (r, st) = sym_lookup (Some ''UNAME_RELEASE'') {} (st\<lparr>inited := True\<rparr>);
               st = upd_sym r (\<lambda>s. s\<lparr>s_type := S_STRING, s_flags := insert SYMBOL_AUTO (s_flags s)\<rparr>) st
           in sym_add_default r release st)"

text \<open>
  \<open>r\<close> is \<open>current_entry->sym\<close>, \<open>getenv\<close> the environment; the text of \<open>menu_warn\<close> comes without the
  position.
\<close>

definition prop_add_env :: "symref \<Rightarrow> (cstring \<Rightarrow> cstring option) \<Rightarrow> cstring \<Rightarrow> symtab \<Rightarrow> symtab" where
  "prop_add_env r getenv env st =
     (let st = set_flags r {SYMBOL_AUTO} st in
      case sym_get_env_prop (syms st r) of
        Some p \<Rightarrow>
          (case prop_get_symbol p of
             Some sym2 \<Rightarrow>
               (case s_name (syms st sym2) of
                  Some n \<Rightarrow> if n \<noteq> env
                    then st\<lparr>warnings := warnings st @ [''redefining environment symbol from '' @ n]\<rparr> else st
                | None \<Rightarrow> st)
           | None \<Rightarrow> st)
      | None \<Rightarrow>
          let p = prop_alloc P_ENV st; (c, st) = sym_lookup (Some env) {SYMBOL_CONST} st;
              st = add_prop r (p\<lparr>p_expr := Some (expr_alloc_symbol c)\<rparr>) st;
              st = st\<lparr>sym_env_list := r # sym_env_list st\<rparr>
          in case getenv env of
               Some v \<Rightarrow> sym_add_default r v st
             | None \<Rightarrow> st\<lparr>warnings := warnings st @ [''environment variable '' @ env @ '' undefined'']\<rparr>)"

section \<open>The invariant of the table\<close>

text \<open>
  Lookups ask for a symbol, for a constant or for a choice. Every symbol in a bucket was allocated, once, and its name
  hashes to the bucket; no two symbols answer the same request; the names \<open>y\<close>, \<open>m\<close>, \<open>n\<close> are
  those of the static symbols.
\<close>

definition request_flags :: "sflag set \<Rightarrow> bool" where
  "request_flags fs \<longleftrightarrow> fs = {} \<or> fs = {SYMBOL_CONST} \<or> fs = {SYMBOL_CHOICE}"

definition in_bucket :: "symtab \<Rightarrow> nat \<Rightarrow> symref \<Rightarrow> bool" where
  "in_bucket st i r \<longleftrightarrow> (\<exists>k < next_id st. r = SymId k) \<and> bucket_of (s_name (syms st r)) = i \<and>
     (\<forall>n. s_name (syms st r) = Some n \<longrightarrow> static_name n = None)"

definition table_ok :: "symtab \<Rightarrow> bool" where
  "table_ok st \<longleftrightarrow>
     (\<forall>i. distinct (buckets st i) \<and> (\<forall>r \<in> set (buckets st i). in_bucket st i r)) \<and>
     (\<forall>i r r' n fs. r \<in> set (buckets st i) \<longrightarrow> r' \<in> set (buckets st i) \<longrightarrow> request_flags fs \<longrightarrow>
        lookup_matches st n fs r \<longrightarrow> lookup_matches st n fs r' \<longrightarrow> r = r')"

lemma bucket_of_less: "bucket_of name < SYMBOL_HASHSIZE"
  by (simp add: bucket_of_def SYMBOL_HASHSIZE_def split: option.splits)

lemma table_okD:
  assumes "table_ok st"
  shows "distinct (buckets st i)" "r \<in> set (buckets st i) \<Longrightarrow> in_bucket st i r"
    and "r \<in> set (buckets st i) \<Longrightarrow> r' \<in> set (buckets st i) \<Longrightarrow> request_flags fs \<Longrightarrow> lookup_matches st n fs r \<Longrightarrow>
      lookup_matches st n fs r' \<Longrightarrow> r = r'"
  using assms unfolding table_ok_def by blast+

lemma table_ok_empty: "table_ok empty_symtab"
  by (simp add: table_ok_def empty_symtab_def)

lemma new_symbol_simps:
  "fst (new_symbol name fs st) = SymId (next_id st)"
  "syms (snd (new_symbol name fs st)) =
     (syms st)(SymId (next_id st) := blank_symbol\<lparr>s_name := name, s_flags := fs\<rparr>)"
  "buckets (snd (new_symbol name fs st)) =
     (buckets st)(bucket_of name := SymId (next_id st) # buckets st (bucket_of name))"
  "next_id (snd (new_symbol name fs st)) = next_id st + 1"
  by (simp_all add: new_symbol_def Let_def)

lemma not_next:
  assumes "table_ok st" "r \<in> set (buckets st i)"
  shows "r \<noteq> SymId (next_id st)"
  using table_okD(2) [OF assms] by (auto simp: in_bucket_def)

text \<open>A symbol the table does not have yet: \<open>new_symbol\<close> keeps the invariant.\<close>

lemma new_symbol_old:
  assumes "table_ok st" "r \<in> set (buckets st i)"
  shows "syms (snd (new_symbol name fs st)) r = syms st r"
    "lookup_matches (snd (new_symbol name fs st)) n gs r = lookup_matches st n gs r"
    "find_matches (snd (new_symbol name fs st)) n r = find_matches st n r"
proof -
  show o: "syms (snd (new_symbol name fs st)) r = syms st r"
    using not_next [OF assms] by (simp add: new_symbol_simps)
  show "lookup_matches (snd (new_symbol name fs st)) n gs r = lookup_matches st n gs r"
    "find_matches (snd (new_symbol name fs st)) n r = find_matches st n r"
    by (simp_all add: lookup_matches_def find_matches_def o)
qed

lemma new_symbol_matches:
  assumes "request_flags fs" "request_flags gs"
  shows "lookup_matches (snd (new_symbol name fs st)) n gs (SymId (next_id st)) \<longleftrightarrow> name = Some n \<and> gs = fs"
  using assms by (auto simp: lookup_matches_def new_symbol_simps request_flags_def blank_symbol_def)

lemma new_symbol_ok:
  assumes ok: "table_ok st" and fs: "request_flags fs"
    and static: "\<And>n. name = Some n \<Longrightarrow> static_name n = None"
    and fresh: "\<And>n r. name = Some n \<Longrightarrow> r \<in> set (buckets st (bucket_of name)) \<Longrightarrow> \<not> lookup_matches st n fs r"
  shows "table_ok (snd (new_symbol name fs st))"
proof -
  let ?st = "snd (new_symbol name fs st)" and ?r = "SymId (next_id st)"
  note old = new_symbol_old [OF ok]
  have mem: "r \<in> set (buckets ?st i) \<longleftrightarrow> r \<in> set (buckets st i) \<or> (i = bucket_of name \<and> r = ?r)" for r i
    by (auto simp: new_symbol_simps)
  have new: "syms ?st ?r = blank_symbol\<lparr>s_name := name, s_flags := fs\<rparr>"
    by (simp add: new_symbol_simps)
  show ?thesis
    unfolding table_ok_def
  proof (intro conjI allI impI ballI)
    fix i
    show "distinct (buckets ?st i)"
      using table_okD(1) [OF ok] not_next [OF ok] by (auto simp: new_symbol_simps)
    fix r
    assume "r \<in> set (buckets ?st i)"
    then consider "r \<in> set (buckets st i)" | "i = bucket_of name" "r = ?r" using mem by blast
    then show "in_bucket ?st i r"
    proof cases
      case 1
      with table_okD(2) [OF ok 1] show ?thesis
        by (auto simp: in_bucket_def old(1) [OF 1] new_symbol_simps(4))
    next
      case 2
      have "in_bucket ?st (bucket_of name) ?r"
        unfolding in_bucket_def new using static by (simp add: new_symbol_simps(4) blank_symbol_def)
      with 2 show ?thesis by simp
    qed
  next
    fix i r r' n gs
    assume r: "r \<in> set (buckets ?st i)" "r' \<in> set (buckets ?st i)" and gs: "request_flags gs"
      and m: "lookup_matches ?st n gs r" "lookup_matches ?st n gs r'"
    have no: False if "x \<in> set (buckets st (bucket_of name))" "lookup_matches ?st n gs x" "lookup_matches ?st n gs ?r" for x
      using that(3) new_symbol_matches [OF fs gs] fresh [of n x] that(1,2) old(2) [OF that(1)] by auto
    from r mem consider "r \<in> set (buckets st i)" "r' \<in> set (buckets st i)"
      | "r \<in> set (buckets st i)" "i = bucket_of name" "r' = ?r"
      | "r' \<in> set (buckets st i)" "i = bucket_of name" "r = ?r" | "r = ?r" "r' = ?r" by blast
    then show "r = r'"
    proof cases
      case 1
      with m show ?thesis
        using table_okD(3) [OF ok 1 gs] old(2) [OF 1(1)] old(2) [OF 1(2)] by blast
    next
      case 2
      with no [of r] m show ?thesis by blast
    next
      case 3
      with no [of r'] m show ?thesis by blast
    qed simp
  qed
qed

lemma find_None_mem: "find P xs = None \<Longrightarrow> x \<in> set xs \<Longrightarrow> \<not> P x"
  by (auto simp: find_None_iff)

lemma find_mem: "x \<in> set xs \<Longrightarrow> P x \<Longrightarrow> \<exists>y. find P xs = Some y"
  by (cases "find P xs") (auto simp: find_None_iff)

lemma find_SomeD: "find P xs = Some x \<Longrightarrow> x \<in> set xs \<and> P x"
  by (auto simp: find_Some_iff)

lemma sym_lookup_ok:
  assumes "table_ok st" "request_flags fs"
  shows "table_ok (snd (sym_lookup name fs st))"
proof (cases name)
  case None
  then show ?thesis using new_symbol_ok [OF assms, of None] by (simp add: sym_lookup_def)
next
  case (Some n)
  show ?thesis
  proof (cases "static_name n")
    case None
    show ?thesis
    proof (cases "find (lookup_matches st n fs) (buckets st (bucket_of name))")
      case f: None
      have "table_ok (snd (new_symbol (Some n) fs st))"
        by (rule new_symbol_ok [OF assms]) (use None f Some find_None_mem [OF f] in auto)
      with Some None f show ?thesis by (simp add: sym_lookup_def)
    qed (use assms(1) Some None in \<open>simp add: sym_lookup_def\<close>)
  qed (use assms(1) Some in \<open>simp add: sym_lookup_def\<close>)
qed

lemma find_unique:
  assumes "\<And>x y. x \<in> set xs \<Longrightarrow> y \<in> set xs \<Longrightarrow> P x \<Longrightarrow> P y \<Longrightarrow> x = y"
  shows "find P xs = Some r \<longleftrightarrow> r \<in> set xs \<and> P r"
proof
  assume r: "r \<in> set xs \<and> P r"
  then obtain x where x: "find P xs = Some x" using find_mem [of r xs P] by blast
  from find_SomeD [OF this] have "x = r" using assms [of x r] r by simp
  with x show "find P xs = Some r" by simp
qed (rule find_SomeD)

lemma find_request:
  assumes "table_ok st" "request_flags fs"
  shows "find (lookup_matches st n fs) (buckets st i) = Some r \<longleftrightarrow>
    r \<in> set (buckets st i) \<and> lookup_matches st n fs r"
  by (rule find_unique) (rule table_okD(3) [OF assms(1) _ _ assms(2)])

text \<open>The symbol that answers a request stays the one, whatever else is looked up.\<close>

definition answers :: "symtab \<Rightarrow> cstring \<Rightarrow> sflag set \<Rightarrow> symref \<Rightarrow> bool" where
  "answers st n fs r \<longleftrightarrow> sym_lookup (Some n) fs st = (r, st)"

lemma answers_iff:
  assumes "table_ok st" "request_flags fs"
  shows "answers st n fs r \<longleftrightarrow> (case static_name n of Some x \<Rightarrow> r = x
    | None \<Rightarrow> r \<in> set (buckets st (bucket_of (Some n))) \<and> lookup_matches st n fs r)"
proof (cases "static_name n")
  case None
  note find_request [OF assms, of n "bucket_of (Some n)" r]
  moreover have "snd (new_symbol (Some n) fs st) \<noteq> st"
    using new_symbol_simps(4) [of "Some n" fs st] by auto
  ultimately show ?thesis
    using None by (auto simp: answers_def sym_lookup_def split: option.splits)
qed (auto simp: answers_def sym_lookup_def)

lemma lookup_answers:
  assumes "table_ok st" "request_flags fs"
  shows "answers (snd (sym_lookup (Some n) fs st)) n fs (fst (sym_lookup (Some n) fs st))"
proof (cases "static_name n")
  case None
  let ?f = "find (lookup_matches st n fs) (buckets st (bucket_of (Some n)))"
  show ?thesis
  proof (cases ?f)
    case f: None
    have l: "sym_lookup (Some n) fs st = new_symbol (Some n) fs st" using None f by (simp add: sym_lookup_def)
    have "table_ok (snd (new_symbol (Some n) fs st))" using sym_lookup_ok [OF assms, of "Some n"] l by simp
    then show ?thesis
      using new_symbol_matches [OF assms(2,2), of "Some n" st n] None
      by (simp add: l answers_iff [OF _ assms(2)] new_symbol_simps)
  next
    case (Some r)
    then show ?thesis using None by (simp add: answers_def sym_lookup_def)
  qed
qed (simp add: answers_def sym_lookup_def)

lemma answers_kept:
  assumes ok: "table_ok st" and fs: "request_flags fs" "request_flags gs" and r: "answers st n fs r"
  shows "answers (snd (sym_lookup name gs st)) n fs r"
proof (cases "snd (sym_lookup name gs st) = st")
  case False
  then have l: "snd (sym_lookup name gs st) = snd (new_symbol name gs st)"
    by (auto simp: sym_lookup_def split: option.splits)
  have ok': "table_ok (snd (new_symbol name gs st))" using sym_lookup_ok [OF ok fs(2), of name] l by simp
  show ?thesis
    using r new_symbol_old(2) [OF ok]
    by (auto simp: l answers_iff [OF ok fs(1)] answers_iff [OF ok' fs(1)] new_symbol_simps(3) split: option.splits)
qed (use r in simp)

section \<open>Lookup and find as an interface\<close>

text \<open>
  What the parser and the readers of configuration files rely on: the first \<open>lookup\<close> of a name makes
  a symbol, every later one and every \<open>find\<close> gives the same.
\<close>

locale symbol_table =
  fixes lookup :: "'n \<Rightarrow> 't \<Rightarrow> 's \<times> 't" and find_sym :: "'n \<Rightarrow> 't \<Rightarrow> 's option"
    and inv :: "'t \<Rightarrow> bool"
  assumes lookup_inv: "inv t \<Longrightarrow> inv (snd (lookup n t))"
    and find_lookup: "inv t \<Longrightarrow> find_sym n (snd (lookup n t)) = Some (fst (lookup n t))"
    and lookup_found: "inv t \<Longrightarrow> find_sym n t = Some s \<Longrightarrow> lookup n t = (s, t)"
    and find_kept: "inv t \<Longrightarrow> find_sym m t = Some s \<Longrightarrow> find_sym m (snd (lookup n t)) = Some s"
begin

lemma lookup_again: "inv t \<Longrightarrow> lookup n (snd (lookup n t)) = (fst (lookup n t), snd (lookup n t))"
  by (rule lookup_found [OF lookup_inv find_lookup])

lemma lookup_determined: "inv t \<Longrightarrow> find_sym n t = Some s \<Longrightarrow> fst (lookup n (snd (lookup m t))) = s"
  using lookup_found [OF lookup_inv find_kept] by simp

end

text \<open>
  \<open>sym_find\<close> also takes choices, of which the grammar allows a name (\<open>choice_named\<close>). Without one of the name in the table it
  finds the symbol that a lookup gives.
\<close>

definition choice_named :: "symtab \<Rightarrow> cstring \<Rightarrow> bool" where
  "choice_named st n \<longleftrightarrow> (\<exists>r \<in> set (buckets st (bucket_of (Some n))).
     s_name (syms st r) = Some n \<and> SYMBOL_CHOICE \<in> s_flags (syms st r))"

lemma find_cong_set: "(\<And>x. x \<in> set xs \<Longrightarrow> P x = Q x) \<Longrightarrow> find P xs = find Q xs"
  by (induction xs) auto

lemma find_matches_eq:
  assumes "\<not> choice_named st n"
  shows "find (find_matches st n) (buckets st (bucket_of (Some n))) =
    find (lookup_matches st n {}) (buckets st (bucket_of (Some n)))"
  by (rule find_cong_set) (use assms in \<open>auto simp: choice_named_def find_matches_def lookup_matches_def\<close>)

lemma sym_find_answers:
  assumes "table_ok st" "\<not> choice_named st n"
  shows "sym_find (Some n) st = Some r \<longleftrightarrow> answers st n {} r"
proof -
  have "request_flags {}" by (simp add: request_flags_def)
  note find_request [OF assms(1) this, of n "bucket_of (Some n)" r]
  then show ?thesis
    by (auto simp: sym_find_def find_matches_eq [OF assms(2)] answers_iff [OF assms(1)] request_flags_def
        split: option.splits)
qed

lemma answers_found:
  assumes "table_ok st" "answers st n {} r"
  shows "\<exists>x. sym_find (Some n) st = Some x \<and>
    (x = r \<or> s_name (syms st x) = Some n \<and> SYMBOL_CHOICE \<in> s_flags (syms st x))"
proof (cases "static_name n")
  case None
  have r: "r \<in> set (buckets st (bucket_of (Some n)))" "lookup_matches st n {} r"
    using assms(2) None by (simp_all add: answers_iff [OF assms(1)] request_flags_def)
  then have "find_matches st n r" by (auto simp: lookup_matches_def find_matches_def)
  with find_mem [OF r(1), of "find_matches st n"] obtain x where x: "find (find_matches st n) (buckets st (bucket_of (Some n))) = Some x"
    by blast
  from find_SomeD [OF x] have m: "x \<in> set (buckets st (bucket_of (Some n)))" "find_matches st n x" by simp_all
  show ?thesis
  proof (cases "SYMBOL_CHOICE \<in> s_flags (syms st x)")
    case False
    with m(2) have "lookup_matches st n {} x" by (auto simp: lookup_matches_def find_matches_def)
    with table_okD(3) [OF assms(1) m(1) r(1) _ _ r(2)] have "x = r" by (simp add: request_flags_def)
    with x None show ?thesis by (simp add: sym_find_def)
  qed (use x None m(2) in \<open>simp add: sym_find_def find_matches_def\<close>)
next
  case (Some x)
  then show ?thesis
    using assms(2) by (simp add: answers_iff [OF assms(1)] request_flags_def sym_find_def)
qed

lemma choice_named_lookup:
  assumes "table_ok st" "request_flags fs" "name \<noteq> Some n \<or> fs \<noteq> {SYMBOL_CHOICE}"
  shows "choice_named (snd (sym_lookup name fs st)) n = choice_named st n"
proof (cases "snd (sym_lookup name fs st) = st")
  case False
  then have l: "snd (sym_lookup name fs st) = snd (new_symbol name fs st)"
    by (auto simp: sym_lookup_def split: option.splits)
  show ?thesis
    using assms(2,3) new_symbol_old(1) [OF assms(1), of _ _ name fs]
    by (auto simp: l choice_named_def new_symbol_simps blank_symbol_def request_flags_def)
qed simp

text \<open>The interface, on tables without a named choice, as all tables of the configuration files are.\<close>

interpretation table: symbol_table "\<lambda>n. sym_lookup (Some n) {}" "\<lambda>n. sym_find (Some n)"
  "\<lambda>st. table_ok st \<and> (\<forall>n. \<not> choice_named st n)"
proof
  fix st n m r
  assume inv: "table_ok st \<and> (\<forall>n. \<not> choice_named st n)"
  then have ok: "table_ok st" by simp
  have fs: "request_flags {}" by (simp add: request_flags_def)
  let ?st = "snd (sym_lookup (Some n) {} st)"
  show inv': "table_ok ?st \<and> (\<forall>n. \<not> choice_named ?st n)"
    using inv sym_lookup_ok [OF ok fs] choice_named_lookup [OF ok fs] by simp
  show "sym_find (Some n) ?st = Some (fst (sym_lookup (Some n) {} st))"
    using inv' lookup_answers [OF ok fs, of n] by (simp add: sym_find_answers)
  show "sym_lookup (Some n) {} st = (r, st)" if "sym_find (Some n) st = Some r"
    using that inv by (simp add: sym_find_answers answers_def)
  show "sym_find (Some m) ?st = Some r" if "sym_find (Some m) st = Some r"
    using that inv inv' answers_kept [OF ok fs fs] by (simp add: sym_find_answers)
qed

definition lookups :: "(cstring option \<times> sflag set) list \<Rightarrow> symtab \<Rightarrow> symtab" where
  "lookups qs st = foldl (\<lambda>t q. snd (sym_lookup (fst q) (snd q) t)) st qs"

lemma lookups_Cons: "lookups (q # qs) st = lookups qs (snd (sym_lookup (fst q) (snd q) st))"
  by (simp add: lookups_def)

lemma lookups_kept:
  "table_ok st \<Longrightarrow> list_all (request_flags \<circ> snd) qs \<Longrightarrow> table_ok (lookups qs st) \<and>
   (\<forall>n fs r. request_flags fs \<longrightarrow> answers st n fs r \<longrightarrow> answers (lookups qs st) n fs r) \<and>
   (\<forall>n. (Some n, {SYMBOL_CHOICE}) \<notin> set qs \<longrightarrow> choice_named (lookups qs st) n = choice_named st n)"
proof (induction qs arbitrary: st)
  case (Cons q qs)
  let ?st = "snd (sym_lookup (fst q) (snd q) st)"
  have q: "request_flags (snd q)" using Cons.prems(2) by simp
  have ok: "table_ok ?st" by (rule sym_lookup_ok [OF Cons.prems(1) q])
  have c: "choice_named ?st n = choice_named st n" if "(Some n, {SYMBOL_CHOICE}) \<notin> set (q # qs)" for n
    by (rule choice_named_lookup [OF Cons.prems(1) q]) (use that in \<open>cases q; auto\<close>)
  have a: "answers ?st n fs r" if "request_flags fs" "answers st n fs r" for n fs r
    by (rule answers_kept [OF Cons.prems(1) that(1) q that(2)])
  have "list_all (request_flags \<circ> snd) qs" using Cons.prems(2) by (simp add: comp_def)
  from Cons.IH [OF ok this] c a show ?case unfolding lookups_Cons by simp
qed (simp add: lookups_def)

section \<open>Properties\<close>

text \<open>
  C38: the symbol that the first \<open>sym_lookup\<close> of a name makes, as a symbol, a constant or a choice, is the one every later
  lookup of that kind gives, whatever symbols, constants and choices are looked up in between; and the
  invariant of the table (each symbol once, in the bucket of its name, no two of a name and kind) is kept. \<open>sym_find\<close> gives the
  symbol too, unless a choice of that name has been looked up: then it may give the choice, and does after the choice is made.
\<close>

theorem sym_lookup_interns:
  assumes "table_ok st" "list_all (request_flags \<circ> snd) qs" "request_flags fs"
    and "sym_lookup (Some n) fs st = (r, st')"
  shows "table_ok (lookups qs st') \<and> sym_lookup (Some n) fs (lookups qs st') = (r, lookups qs st') \<and>
    (fs = {} \<longrightarrow> (\<exists>x. sym_find (Some n) (lookups qs st') = Some x \<and>
       (x = r \<or> s_name (syms (lookups qs st') x) = Some n \<and> SYMBOL_CHOICE \<in> s_flags (syms (lookups qs st') x)))) \<and>
    (fs = {} \<and> \<not> choice_named st n \<and> (Some n, {SYMBOL_CHOICE}) \<notin> set qs \<longrightarrow>
       sym_find (Some n) (lookups qs st') = Some r) \<and>
    (fs = {SYMBOL_CHOICE} \<and> next_id st' \<noteq> next_id st \<longrightarrow> sym_find (Some n) st' = Some r)"
proof -
  have st': "st' = snd (sym_lookup (Some n) fs st)" "r = fst (sym_lookup (Some n) fs st)" using assms(4) by simp_all
  have ok: "table_ok st'" "answers st' n fs r"
    using sym_lookup_ok [OF assms(1,3)] lookup_answers [OF assms(1,3)] by (simp_all add: st')
  from lookups_kept [OF ok(1) assms(2)] ok(2) assms(3)
  have l: "table_ok (lookups qs st')" "answers (lookups qs st') n fs r"
    "(Some n, {SYMBOL_CHOICE}) \<notin> set qs \<longrightarrow> choice_named (lookups qs st') n = choice_named st' n" by auto
  have c: "sym_find (Some n) (lookups qs st') = Some r"
    if "fs = {}" "\<not> choice_named st n" "(Some n, {SYMBOL_CHOICE}) \<notin> set qs"
    using l that choice_named_lookup [OF assms(1,3), of "Some n" n] by (simp add: sym_find_answers st')
  have new: "sym_find (Some n) st' = Some r" if fs: "fs = {SYMBOL_CHOICE}" and n: "next_id st' \<noteq> next_id st"
  proof -
    have s: "static_name n = None" "find (lookup_matches st n fs) (buckets st (bucket_of (Some n))) = None"
      using n by (auto simp: st' sym_lookup_def split: option.splits)
    then have "st' = snd (new_symbol (Some n) fs st)" "r = SymId (next_id st)"
      by (simp_all add: st' sym_lookup_def new_symbol_simps)
    then show ?thesis
      using s(1) fs by (simp add: sym_find_def new_symbol_simps find_matches_def blank_symbol_def)
  qed
  have f: "\<exists>x. sym_find (Some n) (lookups qs st') = Some x \<and>
       (x = r \<or> s_name (syms (lookups qs st') x) = Some n \<and> SYMBOL_CHOICE \<in> s_flags (syms (lookups qs st') x))"
    if "fs = {}"
    using answers_found [OF l(1)] l(2) that by simp
  show ?thesis using l(1,2) c new f by (simp add: answers_def)
qed

theorem sym_lookup_interns_witness:
  "sym_lookup (Some ''FOO'') {} (lookups [(Some ''FOO'', {SYMBOL_CONST}), (Some ''BAR'', {}), (None, {SYMBOL_CHOICE})]
     (snd (sym_lookup (Some ''FOO'') {} empty_symtab))) =
   (SymId 0, lookups [(Some ''FOO'', {SYMBOL_CONST}), (Some ''BAR'', {}), (None, {SYMBOL_CHOICE})]
     (snd (sym_lookup (Some ''FOO'') {} empty_symtab)))"
proof -
  have "sym_lookup (Some ''FOO'') {} empty_symtab =
      (SymId 0, snd (sym_lookup (Some ''FOO'') {} empty_symtab))"
    by (simp add: sym_lookup_def empty_symtab_def new_symbol_def Let_def)
  from sym_lookup_interns [OF table_ok_empty _ _ this,
      of "[(Some ''FOO'', {SYMBOL_CONST}), (Some ''BAR'', {}), (None, {SYMBOL_CHOICE})]"]
  show ?thesis by (simp add: request_flags_def)
qed

end
