(* ===== verification/Kstring.thy ===== *)
theory Kstring
  imports Ksymbol
begin

text \<open>
  The functions of \<open>symbol.c\<close> on strings: which strings are values of a type (\<open>sym_string_valid\<close>),
  quoting (\<open>sym_escape_string_value\<close>, with the reading in \<open>confdata.c\<close> that undoes it), expansion of
  \<open>$NAME\<close> (\<open>sym_expand_string_value\<close>, with its buffer), and the order of search results
  (\<open>sym_rel_comp\<close>).
\<close>

section \<open>Valid values\<close>

text \<open>The NUL at the end is no digit, so an empty rest is refused where a digit must follow.\<close>

definition int_valid :: "cstring \<Rightarrow> bool" where
  "int_valid str =
     (let str = (case str of ch # r \<Rightarrow> if ch = CHR ''-'' then r else str | [] \<Rightarrow> []) in
      case str of
        [] \<Rightarrow> False
      | ch # str \<Rightarrow>
          if \<not> c_isdigit ch then False
          else if ch = CHR ''0'' \<and> str \<noteq> [] then False
          else list_all c_isdigit str)"

definition skip_0x :: "cstring \<Rightarrow> cstring" where
  "skip_0x str = (case str of
      a # b # r \<Rightarrow> if a = CHR ''0'' \<and> (b = CHR ''x'' \<or> b = CHR ''X'') then r else str
    | _ \<Rightarrow> str)"

definition hex_valid :: "cstring \<Rightarrow> bool" where
  "hex_valid str =
     (case skip_0x str of [] \<Rightarrow> False | ch # r \<Rightarrow> c_isxdigit ch \<and> list_all c_isxdigit r)"

fun sym_string_valid :: "symbol_type \<Rightarrow> cstring \<Rightarrow> bool" where
  "sym_string_valid S_STRING str = True"
| "sym_string_valid S_INT str = int_valid str"
| "sym_string_valid S_HEX str = hex_valid str"
| "sym_string_valid S_BOOLEAN str = (str \<noteq> [] \<and> hd str \<in> set ''yYmMnN'')"
| "sym_string_valid S_TRISTATE str = (str \<noteq> [] \<and> hd str \<in> set ''yYmMnN'')"
| "sym_string_valid S_UNKNOWN str = False"
| "sym_string_valid S_OTHER str = False"

text \<open>Digits without a leading zero are the printed form of their value.\<close>

lemma isdigit_digit_char: "c_isdigit c \<longleftrightarrow> (\<exists>d<10. c = digit_char d)"
proof
  assume d: "c_isdigit c"
  then have "48 \<le> byte_of c" "byte_of c \<le> 57" by (simp_all add: c_isdigit_def)
  then have "c = digit_char (byte_of c - 48)"
    by (simp add: digit_char_def flip: byte_of_inject)
  with \<open>byte_of c \<le> 57\<close> \<open>48 \<le> byte_of c\<close> show "\<exists>d<10. c = digit_char d"
    by (intro exI [of _ "byte_of c - 48"]) simp
qed (auto simp: digit_char_simps)

lemma digit_char_0: "d < 16 \<Longrightarrow> digit_char d = CHR ''0'' \<longleftrightarrow> d = 0"
proof -
  assume "d < 16"
  moreover have "CHR ''0'' = digit_char 0"
    by (simp add: digit_char_def flip: byte_of_inject) (simp add: byte_of_def)
  ultimately show ?thesis by (auto simp: byte_of_digit_char simp flip: byte_of_inject)
qed

definition digits_value :: "cstring \<Rightarrow> nat" where
  "digits_value ds = foldl (\<lambda>a c. a * 10 + the (digit_of c)) 0 ds"

lemma digits_value_pos:
  "list_all c_isdigit ds \<Longrightarrow> ds \<noteq> [] \<Longrightarrow> hd ds \<noteq> CHR ''0'' \<Longrightarrow> 0 < digits_value ds"
proof (induction ds rule: rev_induct)
  case (snoc c ds)
  then obtain d where d: "d < 10" "c = digit_char d" by (auto simp: isdigit_digit_char)
  show ?case
  proof (cases "ds = []")
    case True
    with snoc.prems d have "d \<noteq> 0" by (auto simp: digit_char_0)
    with True d show ?thesis by (simp add: digits_value_def)
  next
    case False
    with snoc show ?thesis by (simp add: digits_value_def)
  qed
qed simp

lemma num_of_digits_value:
  "list_all c_isdigit ds \<Longrightarrow> ds \<noteq> [] \<Longrightarrow> hd ds \<noteq> CHR ''0'' \<or> length ds = 1 \<Longrightarrow>
   num_of_nat 10 (digits_value ds) = ds"
proof (induction ds rule: rev_induct)
  case (snoc c ds)
  then obtain d where d: "d < 10" "c = digit_char d" by (auto simp: isdigit_digit_char)
  show ?case
  proof (cases "ds = []")
    case True
    with d show ?thesis by (simp add: digits_value_def num_of_nat.simps [of 10 d])
  next
    case False
    with snoc have IH: "num_of_nat 10 (digits_value ds) = ds" "0 < digits_value ds"
      using digits_value_pos [of ds] by auto
    have v: "digits_value (ds @ [c]) = digits_value ds * 10 + d"
      using d by (simp add: digits_value_def)
    have "\<not> digits_value ds * 10 + d < 10" using IH(2) by simp
    then show ?thesis
      using IH(1) d v by (simp add: num_of_nat.simps [of 10 "digits_value ds * 10 + d"])
  qed
qed simp

lemma num_of_nat_leading: "0 < n \<Longrightarrow> hd (num_of_nat 10 n) \<noteq> CHR ''0''"
proof (induction "10 :: nat" n rule: num_of_nat.induct)
  case (1 n)
  show ?case
  proof (cases "n < 10")
    case True
    with 1 show ?thesis by (simp add: num_of_nat.simps [of 10 n] digit_char_0)
  next
    case False
    with 1 show ?thesis by (simp add: num_of_nat.simps [of 10 n])
  qed
qed

lemma num_of_nat_isdigit: "list_all c_isdigit (num_of_nat 10 n)"
  using num_of_nat_digits [of 10 _ n] by (auto simp: list_all_iff isdigit_digit_char)


text \<open>The valid values of an integer: the printed integers, and \<open>-0\<close>.\<close>

lemma int_valid_digits:
  "int_valid s \<longleftrightarrow> (\<exists>ds. (s = ds \<or> s = CHR ''-'' # ds) \<and> list_all c_isdigit ds \<and> ds \<noteq> [] \<and>
     (hd ds \<noteq> CHR ''0'' \<or> length ds = 1))" (is "_ = ?r")
proof
  assume v: "int_valid s"
  define t where "t = (case s of ch # r \<Rightarrow> if ch = CHR ''-'' then r else s | [] \<Rightarrow> [])"
  have "s = t \<or> s = CHR ''-'' # t" by (auto simp: t_def split: list.splits if_splits)
  with v show ?r
    unfolding int_valid_def t_def [symmetric] Let_def
    by (intro exI [of _ t]) (auto split: list.splits if_splits)
next
  assume ?r
  then obtain ds where ds: "s = ds \<or> s = CHR ''-'' # ds" "list_all c_isdigit ds" "ds \<noteq> []"
    "hd ds \<noteq> CHR ''0'' \<or> length ds = 1" by blast
  from ds(2,3) have "hd ds \<noteq> CHR ''-''"
    by (cases ds) (auto simp: isdigit_digit_char digit_char_simps)
  with ds show "int_valid s"
    by (cases ds) (auto simp: int_valid_def Let_def split: list.splits)
qed

lemma int_valid_iff: "int_valid s \<longleftrightarrow> s = ''-0'' \<or> (\<exists>z. s = dec_of_int z)"
proof
  assume "int_valid s"
  then obtain ds where s: "s = ds \<or> s = CHR ''-'' # ds" and ds: "list_all c_isdigit ds" "ds \<noteq> []"
    "hd ds \<noteq> CHR ''0'' \<or> length ds = 1" by (auto simp: int_valid_digits)
  have n: "dec_of_nat (digits_value ds) = ds"
    unfolding dec_of_nat_def by (rule num_of_digits_value [OF ds])
  show "s = ''-0'' \<or> (\<exists>z. s = dec_of_int z)"
  proof (cases "s = ds")
    case True
    with n show ?thesis by (intro disjI2 exI [of _ "int (digits_value ds)"]) (simp add: dec_of_int_def)
  next
    case False
    with s have s: "s = CHR ''-'' # ds" by blast
    show ?thesis
    proof (cases "digits_value ds = 0")
      case True
      with digits_value_pos [OF ds(1,2)] ds(2,3) have "ds = ''0''" by (cases ds) auto
      with s show ?thesis by simp
    next
      case False
      with s n show ?thesis
        by (intro disjI2 exI [of _ "- int (digits_value ds)"]) (simp add: dec_of_int_def)
    qed
  qed
next
  have zero: "dec_of_nat 0 = ''0''"
    using digit_char_0 [of 0] by (simp add: dec_of_nat_def num_of_nat.simps [of 10 0])
  have d: "list_all c_isdigit (dec_of_nat n) \<and> dec_of_nat n \<noteq> [] \<and>
      (hd (dec_of_nat n) \<noteq> CHR ''0'' \<or> length (dec_of_nat n) = 1)" for n
    using num_of_nat_isdigit [of n] num_of_nat_leading [of n] zero
    by (cases "n = 0") (simp_all add: dec_of_nat_def)
  assume "s = ''-0'' \<or> (\<exists>z. s = dec_of_int z)"
  then obtain n where "s = dec_of_nat n \<or> s = CHR ''-'' # dec_of_nat n"
    using zero by (metis dec_of_int_def)
  with d [of n] show "int_valid s" unfolding int_valid_digits by blast
qed

text \<open>The valid values of a hexadecimal number.\<close>

lemma x_not_xdigit: "\<not> c_isxdigit (CHR ''x'')" "\<not> c_isxdigit (CHR ''X'')"
  by (simp_all add: ctype_defs)

lemma hex_valid_iff:
  "hex_valid s \<longleftrightarrow> (\<exists>ds. ds \<noteq> [] \<and> list_all c_isxdigit ds \<and>
     (s = ds \<or> s = CHR ''0'' # CHR ''x'' # ds \<or> s = CHR ''0'' # CHR ''X'' # ds))" (is "_ = ?r")
proof
  assume "hex_valid s"
  then have "skip_0x s \<noteq> [] \<and> list_all c_isxdigit (skip_0x s)"
    by (auto simp: hex_valid_def split: list.splits)
  moreover have "s = skip_0x s \<or> s = CHR ''0'' # CHR ''x'' # skip_0x s \<or> s = CHR ''0'' # CHR ''X'' # skip_0x s"
    by (auto simp: skip_0x_def split: list.splits if_splits)
  ultimately show ?r by blast
next
  assume ?r
  then obtain ds where ds: "ds \<noteq> []" "list_all c_isxdigit ds"
    and s: "s = ds \<or> s = CHR ''0'' # CHR ''x'' # ds \<or> s = CHR ''0'' # CHR ''X'' # ds" by blast
  have "skip_0x ds = ds"
    using ds(2) by (auto simp: skip_0x_def x_not_xdigit split: list.splits)
  then have "skip_0x s = ds" using s by (auto simp: skip_0x_def)
  with ds show "hex_valid s" by (auto simp: hex_valid_def split: list.splits)
qed


section \<open>Quoting\<close>

text \<open>\<open>strcspn(p, "\"\\")\<close>: the characters up to the first quote or backslash.\<close>

definition needs_escape :: "char \<Rightarrow> bool" where
  "needs_escape c \<longleftrightarrow> c = CHR 0x22 \<or> c = CHR 0x5C"

text \<open>The first loop: one more byte for each of them. The second loop writes the result.\<close>

definition escape_reslen :: "cstring \<Rightarrow> nat" where
  "escape_reslen s = length s + 2 + 1 + length (filter needs_escape s)"

function escape_loop :: "cstring \<Rightarrow> cstring" where
  "escape_loop p =
     (let l = takeWhile (\<lambda>c. \<not> needs_escape c) p in
      case dropWhile (\<lambda>c. \<not> needs_escape c) p of
        [] \<Rightarrow> l
      | c # r \<Rightarrow> l @ CHR 0x5C # c # escape_loop r)"
  by pat_completeness auto
termination
proof (relation "measure length")
  fix p l :: cstring and c r
  assume "dropWhile (\<lambda>c. \<not> needs_escape c) p = c # r"
  then show "(r, p) \<in> measure length"
    using length_dropWhile_le [of "\<lambda>c. \<not> needs_escape c" p] by simp
qed simp

declare escape_loop.simps [simp del]

definition sym_escape_string_value :: "cstring \<Rightarrow> cstring" where
  "sym_escape_string_value s = [CHR 0x22] @ escape_loop s @ [CHR 0x22]"

text \<open>
  The reading in \<open>conf_set_sym_val\<close>: after the opening quote up to the next one that has no
  backslash before it; None without one. What follows it is ignored.
\<close>

fun conf_unescape :: "cstring \<Rightarrow> cstring option" where
  "conf_unescape [] = None"
| "conf_unescape (c # p) =
     (if c = CHR 0x22 then Some []
      else if c = CHR 0x5C
      then (case p of [] \<Rightarrow> None | d # p \<Rightarrow> map_option ((#) d) (conf_unescape p))
      else map_option ((#) c) (conf_unescape p))"

definition conf_string_value :: "cstring \<Rightarrow> cstring option" where
  "conf_string_value p =
     (case p of [] \<Rightarrow> None | c # r \<Rightarrow> if c = CHR 0x22 then conf_unescape r else None)"

lemma unescape_plain:
  "\<forall>c \<in> set l. \<not> needs_escape c \<Longrightarrow> conf_unescape (l @ r) = map_option ((@) l) (conf_unescape r)"
  by (cases "conf_unescape r"; induction l) (simp_all add: needs_escape_def)

lemma unescape_escape_loop: "conf_unescape (escape_loop s @ CHR 0x22 # rest) = Some s"
proof (induction s rule: escape_loop.induct)
  case (1 p)
  define l t where "l = takeWhile (\<lambda>c. \<not> needs_escape c) p" and "t = dropWhile (\<lambda>c. \<not> needs_escape c) p"
  have p: "p = l @ t" by (simp add: l_def t_def)
  have e: "escape_loop p = (case t of [] \<Rightarrow> l | c # r \<Rightarrow> l @ CHR 0x5C # c # escape_loop r)"
    unfolding l_def t_def by (rule escape_loop.simps [unfolded Let_def])
  have l: "\<forall>c \<in> set l. \<not> needs_escape c" unfolding l_def by (auto dest: set_takeWhileD)
  show ?case
  proof (cases t)
    case Nil
    with e p have "escape_loop p = l" "p = l" by simp_all
    then show ?thesis using unescape_plain [OF l] by simp
  next
    case (Cons c r)
    have "conf_unescape (escape_loop r @ CHR 0x22 # rest) = Some r"
      by (rule "1.IH" [OF l_def Cons [unfolded t_def]])
    moreover have "escape_loop p = l @ CHR 0x5C # c # escape_loop r" "p = l @ c # r"
      using e p Cons by simp_all
    ultimately show ?thesis using unescape_plain [OF l] by simp
  qed
qed

lemma escape_loop_length: "length (escape_loop s) = length s + length (filter needs_escape s)"
proof (induction s rule: escape_loop.induct)
  case (1 p)
  define l t where "l = takeWhile (\<lambda>c. \<not> needs_escape c) p" and "t = dropWhile (\<lambda>c. \<not> needs_escape c) p"
  have p: "p = l @ t" by (simp add: l_def t_def)
  have e: "escape_loop p = (case t of [] \<Rightarrow> l | c # r \<Rightarrow> l @ CHR 0x5C # c # escape_loop r)"
    unfolding l_def t_def by (rule escape_loop.simps [unfolded Let_def])
  have l: "filter needs_escape l = []"
    unfolding l_def by (auto simp: filter_empty_conv dest: set_takeWhileD)
  show ?case
  proof (cases t)
    case Nil
    with e p have "escape_loop p = l" "p = l" by simp_all
    then show ?thesis using l by simp
  next
    case (Cons c r)
    have "needs_escape c" using Cons hd_dropWhile [of "\<lambda>c. \<not> needs_escape c" p] by (simp add: t_def)
    moreover have "length (escape_loop r) = length r + length (filter needs_escape r)"
      by (rule "1.IH" [OF l_def Cons [unfolded t_def]])
    moreover have "escape_loop p = l @ CHR 0x5C # c # escape_loop r" "p = l @ c # r"
      using e p Cons by simp_all
    ultimately show ?thesis using l by simp
  qed
qed

section \<open>Expansion of names\<close>

text \<open>
  \<open>look\<close> stands for \<open>sym_find\<close>, \<open>sym_calc_value\<close> and \<open>sym_get_string_value\<close> together, which change
  the state of the symbols; a name that is not found gives the empty string. \<open>append_to\<close> is
  \<open>strcat\<close> into a buffer of \<open>n\<close> bytes, None where it would write behind its end; so is the name of
  a symbol that does not fit into its buffer.
\<close>

definition append_to :: "nat \<Rightarrow> cstring \<Rightarrow> cstring \<Rightarrow> cstring option" where
  "append_to n res s = (if length res + length s + 1 \<le> n then Some (res @ s) else None)"

definition is_name_char :: "char \<Rightarrow> bool" where
  "is_name_char c \<longleftrightarrow> c_isalnum c \<or> c = CHR ''_''"

lemma rest_shorter:
  "(b, Some src) = strchr_split c inp \<Longrightarrow> length (dropWhile P src) < length inp"
  by (metis strchr_split_length le_less_trans length_dropWhile_le)

function expand_loop ::
  "('t \<Rightarrow> cstring \<Rightarrow> cstring \<times> 't) \<Rightarrow> 't \<Rightarrow> cstring \<Rightarrow> cstring \<Rightarrow> nat \<Rightarrow> (cstring \<times> 't) option" where
  "expand_loop look st inp res reslen =
     (case strchr_split (CHR ''$'') inp of
        (_, None) \<Rightarrow> map_option (\<lambda>res. (res, st)) (append_to reslen res inp)
      | (b, Some src) \<Rightarrow>
          Option.bind (append_to reslen res b) (\<lambda>res.
          let name = takeWhile is_name_char src; src = dropWhile is_name_char src in
          if length name + 1 > SYMBOL_MAXLENGTH then None
          else
            let (symval, st) = look st name;
                newlen = length res + length symval + length src + 1;
                reslen = (if newlen > reslen then newlen else reslen)
            in Option.bind (append_to reslen res symval) (\<lambda>res. expand_loop look st src res reslen)))"
  by pat_completeness auto
termination
  by (relation "measure (\<lambda>(look, st, inp, res, reslen). length inp)") (auto intro: rest_shorter)

declare expand_loop.simps [simp del]

definition sym_expand_string_value ::
  "('t \<Rightarrow> cstring \<Rightarrow> cstring \<times> 't) \<Rightarrow> 't \<Rightarrow> cstring \<Rightarrow> (cstring \<times> 't) option" where
  "sym_expand_string_value look st inp = expand_loop look st inp [] (length inp + 1)"

text \<open>The text without the buffer; the names are looked up from left to right.\<close>

function expand_text :: "('t \<Rightarrow> cstring \<Rightarrow> cstring \<times> 't) \<Rightarrow> 't \<Rightarrow> cstring \<Rightarrow> cstring \<times> 't" where
  "expand_text look st inp =
     (case strchr_split (CHR ''$'') inp of
        (_, None) \<Rightarrow> (inp, st)
      | (b, Some src) \<Rightarrow>
          let (symval, st) = look st (takeWhile is_name_char src);
              (r, st) = expand_text look st (dropWhile is_name_char src)
          in (b @ symval @ r, st))"
  by pat_completeness auto
termination
  by (relation "measure (\<lambda>(look, st, inp). length inp)") (auto intro: rest_shorter)

declare expand_text.simps [simp del]

definition names_short :: "cstring \<Rightarrow> bool" where
  "names_short inp \<longleftrightarrow>
     (\<forall>b s. inp = b @ CHR ''$'' # s \<longrightarrow> length (takeWhile is_name_char s) < SYMBOL_MAXLENGTH)"

lemma names_short_rest:
  assumes "names_short inp" "strchr_split (CHR ''$'') inp = (b, Some src)"
  shows "length (takeWhile is_name_char src) < SYMBOL_MAXLENGTH"
    and "names_short (dropWhile is_name_char src)"
proof -
  have inp: "inp = b @ CHR ''$'' # src" using strchr_split_Some [OF assms(2)] by simp
  with assms(1) show "length (takeWhile is_name_char src) < SYMBOL_MAXLENGTH"
    by (auto simp: names_short_def)
  show "names_short (dropWhile is_name_char src)"
    unfolding names_short_def
  proof (intro allI impI)
    fix b' s
    assume "dropWhile is_name_char src = b' @ CHR ''$'' # s"
    then have "src = (takeWhile is_name_char src @ b') @ CHR ''$'' # s"
      by (metis append.assoc takeWhile_dropWhile_id)
    with inp have "inp = (b @ CHR ''$'' # takeWhile is_name_char src @ b') @ CHR ''$'' # s" by simp
    with assms(1) show "length (takeWhile is_name_char s) < SYMBOL_MAXLENGTH"
      unfolding names_short_def by blast
  qed
qed

text \<open>
  The buffer always has room for what is there, the rest of the input and the NUL: no write goes
  behind its end.
\<close>

lemma expand_loop_text:
  "length res + length inp + 1 \<le> reslen \<Longrightarrow> names_short inp \<Longrightarrow>
   expand_loop look st inp res reslen =
     Some (res @ fst (expand_text look st inp), snd (expand_text look st inp))"
proof (induction look st inp res reslen rule: expand_loop.induct)
  case (1 look st inp res reslen)
  obtain b y where y: "strchr_split (CHR ''$'') inp = (b, y)" by fastforce
  show ?case
  proof (cases y)
    case None
    with y "1.prems" show ?thesis
      by (simp add: expand_loop.simps [of look st inp] expand_text.simps [of look st inp] append_to_def)
  next
    case (Some src)
    have inp: "inp = b @ CHR ''$'' # src" using strchr_split_Some y Some by blast
    let ?name = "takeWhile is_name_char src" and ?rest = "dropWhile is_name_char src"
    obtain v st' where v: "look st ?name = (v, st')" by fastforce
    have src: "length ?rest \<le> length src" by (rule length_dropWhile_le)
    define n where "n = (if length (res @ b) + length v + length ?rest + 1 > reslen
      then length (res @ b) + length v + length ?rest + 1 else reslen)"
    have b: "append_to reslen res b = Some (res @ b)"
      using "1.prems" inp by (simp add: append_to_def)
    have a: "append_to n (res @ b) v = Some (res @ b @ v)"
      by (simp add: append_to_def n_def)
    have nm: "\<not> length ?name + 1 > SYMBOL_MAXLENGTH"
      using names_short_rest(1) [of inp b src] "1.prems" y Some by simp
    have "expand_loop look st' ?rest (res @ b @ v) n =
        Some ((res @ b @ v) @ fst (expand_text look st' ?rest), snd (expand_text look st' ?rest))"
    proof (unfold n_def, rule "1.IH" [OF y [symmetric] Some b refl refl nm refl v [symmetric] refl refl])
      show "append_to (if length (res @ b) + length v + length ?rest + 1 > reslen
        then length (res @ b) + length v + length ?rest + 1 else reslen) (res @ b) v = Some (res @ b @ v)"
        using a by (simp add: n_def)
    qed (use names_short_rest(2) [of inp b src] "1.prems" y Some in \<open>simp_all add: n_def\<close>)
    moreover have "expand_loop look st inp res reslen = expand_loop look st' ?rest (res @ b @ v) n"
      using y Some b nm v
      by (simp add: expand_loop.simps [of look st inp] Let_def n_def) (simp add: append_to_def)
    ultimately show ?thesis
      using y Some v by (simp add: expand_text.simps [of look st inp] split_def Let_def)
  qed
qed


section \<open>The order of search results\<close>

text \<open>\<open>strcmp\<close>: bytes are compared as unsigned numbers; only the sign matters.\<close>

fun strcmp :: "cstring \<Rightarrow> cstring \<Rightarrow> int" where
  "strcmp [] [] = 0"
| "strcmp [] (_ # _) = -1"
| "strcmp (_ # _) [] = 1"
| "strcmp (a # s) (b # t) =
     (if byte_of a < byte_of b then -1 else if byte_of a > byte_of b then 1 else strcmp s t)"

record sym_match =
  m_sym :: symref
  m_name :: cstring
  m_so :: nat
  m_eo :: nat

definition sym_rel_comp :: "sym_match \<Rightarrow> sym_match \<Rightarrow> int" where
  "sym_rel_comp s1 s2 =
     (let exact1 = (m_eo s1 - m_so s1 = length (m_name s1));
          exact2 = (m_eo s2 - m_so s2 = length (m_name s2))
      in if exact1 \<and> \<not> exact2 then -1
         else if \<not> exact1 \<and> exact2 then 1
         else strcmp (m_name s1) (m_name s2))"

lemma strcmp_range: "strcmp s t \<in> {-1, 0, 1}"
  by (induction s t rule: strcmp.induct) auto

lemma strcmp_swap: "strcmp t s = - strcmp s t"
  by (induction s t rule: strcmp.induct) auto

lemma strcmp_0: "strcmp s t = 0 \<longleftrightarrow> s = t"
  by (induction s t rule: strcmp.induct) (auto simp flip: byte_of_inject)

lemma strcmp_Cons_le:
  "strcmp (a # s) (b # t) \<le> 0 \<longleftrightarrow> byte_of a < byte_of b \<or> a = b \<and> strcmp s t \<le> 0"
  by (cases "byte_of a" "byte_of b" rule: linorder_cases) auto

lemma strcmp_trans: "strcmp s t \<le> 0 \<Longrightarrow> strcmp t u \<le> 0 \<Longrightarrow> strcmp s u \<le> 0"
proof (induction s t arbitrary: u rule: strcmp.induct)
  case (4 a s b t)
  show ?case
  proof (cases u)
    case Nil
    with "4.prems" show ?thesis by simp
  next
    case (Cons c u')
    note p = "4.prems" [unfolded Cons strcmp_Cons_le]
    show ?thesis
    proof (cases "a = b \<and> b = c")
      case True
      with p "4.IH" [of u'] Cons show ?thesis by simp
    next
      case False
      with p have "byte_of a < byte_of c" by auto
      with Cons show ?thesis by simp
    qed
  qed
next
  case 1
  then show ?case by (cases u) auto
next
  case (2 b t)
  then show ?case by (cases u) auto
qed simp

lemma sym_rel_comp_swap: "sym_rel_comp b a = - sym_rel_comp a b"
  by (simp add: sym_rel_comp_def Let_def strcmp_swap [of "m_name b"])

lemma sym_rel_comp_trans: "sym_rel_comp a b \<le> 0 \<Longrightarrow> sym_rel_comp b c \<le> 0 \<Longrightarrow> sym_rel_comp a c \<le> 0"
  by (auto simp: sym_rel_comp_def Let_def split: if_splits intro: strcmp_trans)

section \<open>Properties\<close>

text \<open>
  \<open>sym_string_valid\<close> takes exactly the printed integers (and \<open>-0\<close>) for values of an integer symbol,
  and one or more hexadecimal digits, with or without \<open>0x\<close>, for those of a hexadecimal one.
\<close>

theorem string_valid_correct:
  "(sym_string_valid S_INT s \<longleftrightarrow> s = ''-0'' \<or> (\<exists>z. s = dec_of_int z)) \<and>
   (sym_string_valid S_HEX s \<longleftrightarrow> (\<exists>ds. ds \<noteq> [] \<and> list_all c_isxdigit ds \<and>
     (s = ds \<or> s = CHR ''0'' # CHR ''x'' # ds \<or> s = CHR ''0'' # CHR ''X'' # ds)))"
  by (simp add: int_valid_iff hex_valid_iff)

text \<open>
  C39: a string quoted by \<open>sym_escape_string_value\<close> is read back unchanged by the reader of
  configuration files, whatever follows it on the line, and fills its buffer exactly.
\<close>

theorem escape_roundtrip:
  "conf_string_value (sym_escape_string_value s @ rest) = Some s \<and>
   length (sym_escape_string_value s) + 1 = escape_reslen s"
  by (simp add: conf_string_value_def sym_escape_string_value_def unescape_escape_loop
      escape_loop_length escape_reslen_def)

text \<open>
  C40: as long as no name after a \<open>$\<close> has 256 characters or more, \<open>sym_expand_string_value\<close> writes
  only inside its buffers, and gives the text in which every \<open>$NAME\<close> is replaced by its value.
\<close>

theorem expand_string_correct:
  assumes "names_short inp"
  shows "sym_expand_string_value look st inp = Some (expand_text look st inp)"
  using expand_loop_text [OF _ assms, of "[]" "length inp + 1"] by (simp add: sym_expand_string_value_def)

theorem expand_string_correct_witness:
  "sym_expand_string_value (\<lambda>n s. (if s = ''ARCH'' then ''arm'' else [], n + 1)) (0 :: nat) ''a/$ARCH-$X.c'' =
     Some (''a/arm-.c'', 2)"
proof -
  have "names_short ''a/$ARCH-$X.c''"
    unfolding names_short_def
  proof (intro allI impI)
    fix b s assume i: "''a/$ARCH-$X.c'' = b @ CHR ''$'' # s"
    have "length (takeWhile is_name_char s) \<le> length s" by (rule length_takeWhile_le)
    also have "\<dots> < 256" using arg_cong [OF i, of length] by simp
    finally show "length (takeWhile is_name_char s) < SYMBOL_MAXLENGTH" by (simp add: SYMBOL_MAXLENGTH_def)
  qed
  moreover have "expand_text (\<lambda>n s. (if s = ''ARCH'' then ''arm'' else [], n + 1)) (0 :: nat) ''a/$ARCH-$X.c'' =
      (''a/arm-.c'', 2)"
    by code_simp
  ultimately show ?thesis using expand_string_correct by metis
qed

text \<open>
  \<open>sym_rel_comp\<close> is the order of a sort: swapping the arguments changes the sign, it is transitive,
  two matches are equal only with the same name, and an exact match comes before one that is not.
\<close>

theorem rel_comp_order:
  "sym_rel_comp b a = - sym_rel_comp a b \<and>
   (sym_rel_comp a b \<le> 0 \<and> sym_rel_comp b c \<le> 0 \<longrightarrow> sym_rel_comp a c \<le> 0) \<and>
   (sym_rel_comp a b = 0 \<longrightarrow> m_name a = m_name b) \<and>
   (m_eo a - m_so a = length (m_name a) \<and> m_eo b - m_so b \<noteq> length (m_name b) \<longrightarrow>
      sym_rel_comp a b = -1)"
proof (intro conjI impI)
  show "sym_rel_comp b a = - sym_rel_comp a b" by (rule sym_rel_comp_swap)
  show "sym_rel_comp a c \<le> 0" if "sym_rel_comp a b \<le> 0 \<and> sym_rel_comp b c \<le> 0"
    using that sym_rel_comp_trans by blast
qed (auto simp: sym_rel_comp_def Let_def strcmp_0 split: if_splits)

theorem rel_comp_order_witness:
  "sym_rel_comp \<lparr>m_sym = SymId 0, m_name = ''NET'', m_so = 0, m_eo = 3\<rparr>
     \<lparr>m_sym = SymId 3, m_name = ''INET'', m_so = 1, m_eo = 4\<rparr> = -1"
  using rel_comp_order [of "\<lparr>m_sym = SymId 3, m_name = ''INET'', m_so = 1, m_eo = 4\<rparr>"
      "\<lparr>m_sym = SymId 0, m_name = ''NET'', m_so = 0, m_eo = 3\<rparr>"] by simp

end
