(* ===== verification/Kcalc.thy ===== *)
theory Kcalc
  imports Kdups Kstring "HOL-Library.Monad_Syntax"
begin

text \<open>
  The values of symbols, from \<open>support/kconfig/symbol.c\<close>: \<open>sym_calc_value\<close> with everything it calls
  (visibility, choices, ranges, expressions over the symbols), and the operations that set values.
  A function that may calculate a symbol takes the state and gives None where the code would
  follow a property, expression or symbol that is NULL, or where \<open>sym_calc_value\<close> runs out of the depth of
  recursion it is given; the sections after the definitions show that neither happens for the tables the parser
  builds. A value is the exception: the text of a value that is NULL, or of one that is the address of a symbol, is
  read as the empty text (\<open>sval_string\<close>), where \<open>strcmp\<close> and \<open>strtoll\<close> would follow the pointer. So nothing here says that
  the code is given a text where it reads one. Functions below \<open>sym_calc_value\<close> get it as their first argument.

  \<open>memcmp\<close> compares the address of a string value; here the strings are compared. Where only the
  address changed (a bound of a range printed again) the code sets \<open>SYMBOL_CHANGED\<close> and the model
  does not.
\<close>

type_synonym calc = "symref \<Rightarrow> symtab \<Rightarrow> symtab option"

section \<open>Reading values\<close>

text \<open>
  The text behind a value. NULL and the address of a symbol have none: where the code reads one of them as a text, as it
  does in a condition of a symbol that compares the symbol itself before its first calculation, its behaviour is
  undefined, and the model goes on with the empty text.
\<close>

fun sval_string :: "sval \<Rightarrow> cstring" where
  "sval_string (V_str s) = s"
| "sval_string V_NULL = []"
| "sval_string (V_sym r) = []"

definition sym_get_type :: "symtab \<Rightarrow> symref \<Rightarrow> symbol_type" where
  "sym_get_type st r =
     (let s = syms st r in
      if s_type s = S_TRISTATE \<and> (sym_is_choice_value s \<and> s_visible s = T_yes \<or> modules_val st = T_no)
      then S_BOOLEAN else s_type s)"

definition is_tri :: "symbol_type \<Rightarrow> bool" where
  "is_tri t \<longleftrightarrow> t = S_BOOLEAN \<or> t = S_TRISTATE"

definition is_text_type :: "symbol_type \<Rightarrow> bool" where
  "is_text_type t \<longleftrightarrow> t = S_STRING \<or> t = S_INT \<or> t = S_HEX"

definition sym_get_string_value :: "calc \<Rightarrow> symref \<Rightarrow> symtab \<Rightarrow> (cstring \<times> symtab) option" where
  "sym_get_string_value calc r st =
     (let s = syms st r in
      if is_tri (s_type s)
      then (case sym_get_tristate_value s of
              T_no \<Rightarrow> Some (''n'', st)
            | T_mod \<Rightarrow> do {
                m \<leftarrow> modules_sym st;
                st \<leftarrow> calc m st;
                Some (if snd (s_curr (syms st m)) = T_no then ''n'' else ''m'', st)
              }
            | T_yes \<Rightarrow> Some (''y'', st))
      else Some (sval_string (fst (s_curr s)), st))"

fun expr_calc_value :: "calc \<Rightarrow> expr \<Rightarrow> symtab \<Rightarrow> (tristate \<times> symtab) option" where
  "expr_calc_value calc (ESymbol s) st = do {
     st \<leftarrow> calc s st;
     Some (snd (s_curr (syms st s)), st)
   }"
| "expr_calc_value calc (EAnd l r) st = do {
     (val1, st) \<leftarrow> expr_calc_value calc l st;
     (val2, st) \<leftarrow> expr_calc_value calc r st;
     Some (EXPR_AND val1 val2, st)
   }"
| "expr_calc_value calc (EOr l r) st = do {
     (val1, st) \<leftarrow> expr_calc_value calc l st;
     (val2, st) \<leftarrow> expr_calc_value calc r st;
     Some (EXPR_OR val1 val2, st)
   }"
| "expr_calc_value calc (ENot x) st = do {
     (val1, st) \<leftarrow> expr_calc_value calc x st;
     Some (EXPR_NOT val1, st)
   }"
| "expr_calc_value calc (EEqual s t) st = do {
     st \<leftarrow> calc s st;
     st \<leftarrow> calc t st;
     (str1, st) \<leftarrow> sym_get_string_value calc s st;
     (str2, st) \<leftarrow> sym_get_string_value calc t st;
     Some (if str1 = str2 then T_yes else T_no, st)
   }"
| "expr_calc_value calc (EUnequal s t) st = do {
     st \<leftarrow> calc s st;
     st \<leftarrow> calc t st;
     (str1, st) \<leftarrow> sym_get_string_value calc s st;
     (str2, st) \<leftarrow> sym_get_string_value calc t st;
     Some (if str1 = str2 then T_no else T_yes, st)
   }"
| "expr_calc_value calc _ st = Some (T_no, st)"

definition calc_opt :: "calc \<Rightarrow> expr option \<Rightarrow> symtab \<Rightarrow> (tristate \<times> symtab) option" where
  "calc_opt calc e st = (case e of None \<Rightarrow> Some (T_yes, st) | Some x \<Rightarrow> expr_calc_value calc x st)"

section \<open>Changed symbols\<close>

definition all_symbols :: "symtab \<Rightarrow> symref list" where
  "all_symbols st =
     filter (\<lambda>r. s_type (syms st r) \<noteq> S_OTHER) (concat (map (buckets st) [0..<SYMBOL_HASHSIZE]))"

definition sym_set_changed :: "symref \<Rightarrow> symtab \<Rightarrow> symtab" where
  "sym_set_changed r st =
     (let st = set_flags r {SYMBOL_CHANGED} st in
      st\<lparr>menus_changed := menus_changed st \<union> set (List.map_filter p_menu (s_props (syms st r)))\<rparr>)"

definition sym_set_all_changed :: "symtab \<Rightarrow> symtab" where
  "sym_set_all_changed st = fold sym_set_changed (all_symbols st) st"

section \<open>Defaults and ranges\<close>

text \<open>The first property of a list whose condition is not \<open>n\<close>, with the value of the condition.\<close>

fun first_visible ::
  "calc \<Rightarrow> property list \<Rightarrow> symtab \<Rightarrow> ((property \<times> tristate) option \<times> symtab) option" where
  "first_visible calc [] st = Some (None, st)"
| "first_visible calc (p # ps) st = do {
     (tri, st) \<leftarrow> calc_opt calc (p_visible p) st;
     if tri \<noteq> T_no then Some (Some (p, tri), st) else first_visible calc ps st
   }"

definition props_of :: "prop_type \<Rightarrow> symbol \<Rightarrow> property list" where
  "props_of t s = filter (\<lambda>p. p_type p = t) (s_props s)"

definition sym_get_default_prop ::
  "calc \<Rightarrow> symref \<Rightarrow> symtab \<Rightarrow> ((property \<times> tristate) option \<times> symtab) option" where
  "sym_get_default_prop calc r st = first_visible calc (props_of P_DEFAULT (syms st r)) st"

definition sym_get_range_prop ::
  "calc \<Rightarrow> symref \<Rightarrow> symtab \<Rightarrow> ((property \<times> tristate) option \<times> symtab) option" where
  "sym_get_range_prop calc r st = first_visible calc (props_of P_RANGE (syms st r)) st"

fun value_base :: "symbol_type \<Rightarrow> nat option" where
  "value_base S_INT = Some 10"
| "value_base S_HEX = Some 16"
| "value_base _ = None"

definition sym_get_range_val :: "calc \<Rightarrow> symref \<Rightarrow> nat \<Rightarrow> symtab \<Rightarrow> (int \<times> symtab) option" where
  "sym_get_range_val calc r base st = do {
     st \<leftarrow> calc r st;
     let base = (case value_base (s_type (syms st r)) of Some b \<Rightarrow> b | None \<Rightarrow> base);
     Some (strtoll (sval_string (fst (s_curr (syms st r)))) base, st)
   }"

definition range_syms :: "property \<Rightarrow> (symref \<times> symref) option" where
  "range_syms p = (case p_expr p of Some (ERange lo hi) \<Rightarrow> Some (lo, hi) | _ \<Rightarrow> None)"

text \<open>\<open>sprintf\<close> with \<open>%lld\<close> or \<open>0x%llx\<close>, which prints the number modulo \<open>2^64\<close>.\<close>

definition range_text :: "symbol_type \<Rightarrow> int \<Rightarrow> cstring" where
  "range_text type val2 =
     (if type = S_INT then dec_of_int val2 else ''0x'' @ hex_of_nat (nat (val2 mod 2 ^ 64)))"

definition set_curr :: "symref \<Rightarrow> sval \<times> tristate \<Rightarrow> symtab \<Rightarrow> symtab" where
  "set_curr r v = upd_sym r (\<lambda>s. s\<lparr>s_curr := v\<rparr>)"

definition set_curr_val :: "symref \<Rightarrow> sval \<Rightarrow> symtab \<Rightarrow> symtab" where
  "set_curr_val r v = upd_sym r (\<lambda>s. s\<lparr>s_curr := (v, snd (s_curr s))\<rparr>)"

text \<open>The comparison with the bounds, the range being given.\<close>

definition clamp_range :: "calc \<Rightarrow> symref \<Rightarrow> nat \<Rightarrow> symref \<times> symref \<Rightarrow> symtab \<Rightarrow> symtab option" where
  "clamp_range calc r base = (\<lambda>(lo, hi) st.
     let val = strtoll (sval_string (fst (s_curr (syms st r)))) base;
         set_bound = (\<lambda>b st. set_curr_val r (V_str (range_text (s_type (syms st r)) b)) st)
     in do {
       (val2, st) \<leftarrow> sym_get_range_val calc lo base st;
       if val \<ge> val2
       then do {
         (val2, st) \<leftarrow> sym_get_range_val calc hi base st;
         if val \<le> val2 then Some st else Some (set_bound val2 st)
       }
       else Some (set_bound val2 st)
     })"

definition sym_validate_range :: "calc \<Rightarrow> symref \<Rightarrow> symtab \<Rightarrow> symtab option" where
  "sym_validate_range calc r st =
     (case value_base (s_type (syms st r)) of
        None \<Rightarrow> Some st
      | Some base \<Rightarrow> do {
          (prop, st) \<leftarrow> sym_get_range_prop calc r st;
          case prop of
            None \<Rightarrow> Some st
          | Some (p, _) \<Rightarrow> Option.bind (range_syms p) (\<lambda>b. clamp_range calc r base b st)
        })"

section \<open>Visibility\<close>

definition set_vis_tri :: "symref \<Rightarrow> nat \<Rightarrow> tristate \<Rightarrow> symtab \<Rightarrow> symtab" where
  "set_vis_tri r i v st = st\<lparr>vis_tri := (vis_tri st)(r := (vis_tri st r)(i := v))\<rparr>"

text \<open>The prompts of \<open>r\<close> from the \<open>i\<close>th property on.\<close>

fun prompts_tri ::
  "calc \<Rightarrow> symref \<Rightarrow> nat \<Rightarrow> property list \<Rightarrow> tristate \<Rightarrow> symtab \<Rightarrow> (tristate \<times> symtab) option" where
  "prompts_tri calc r i [] tri st = Some (tri, st)"
| "prompts_tri calc r i (p # ps) tri st =
     (if p_text p = None then prompts_tri calc r (Suc i) ps tri st
      else do {
        (v, st) \<leftarrow> calc_opt calc (p_visible p) st;
        prompts_tri calc r (Suc i) ps (EXPR_OR tri v) (set_vis_tri r i v st)
      })"

definition set_visible :: "symref \<Rightarrow> tristate \<Rightarrow> symtab \<Rightarrow> symtab" where
  "set_visible r tri st =
     (if s_visible (syms st r) \<noteq> tri
      then sym_set_changed r (upd_sym r (\<lambda>s. s\<lparr>s_visible := tri\<rparr>) st) else st)"

definition set_dir_dep :: "symref \<Rightarrow> tristate \<Rightarrow> symtab \<Rightarrow> symtab" where
  "set_dir_dep r tri st =
     (if snd (s_dir_dep (syms st r)) \<noteq> tri
      then sym_set_changed r (upd_sym r (\<lambda>s. s\<lparr>s_dir_dep := (fst (s_dir_dep s), tri)\<rparr>) st) else st)"

definition set_rev_dep :: "symref \<Rightarrow> tristate \<Rightarrow> symtab \<Rightarrow> symtab" where
  "set_rev_dep r tri st =
     (if snd (s_rev_dep (syms st r)) \<noteq> tri
      then sym_set_changed r (upd_sym r (\<lambda>s. s\<lparr>s_rev_dep := (fst (s_rev_dep s), tri)\<rparr>) st) else st)"

text \<open>The direct and the reverse dependency, which a member of a choice does not get.\<close>

definition calc_dir_dep :: "calc \<Rightarrow> symref \<Rightarrow> symtab \<Rightarrow> symtab option" where
  "calc_dir_dep calc r st = do {
     (tri, st) \<leftarrow> calc_opt calc (fst (s_dir_dep (syms st r))) st;
     Some (set_dir_dep r (if tri = T_mod then T_yes else tri) st)
   }"

definition calc_rev_dep :: "calc \<Rightarrow> symref \<Rightarrow> symtab \<Rightarrow> symtab option" where
  "calc_rev_dep calc r st = do {
     (tri, st) \<leftarrow> (case fst (s_rev_dep (syms st r)) of
                      None \<Rightarrow> Some (T_no, st) | Some e \<Rightarrow> expr_calc_value calc e st);
     Some (set_rev_dep r (if tri = T_mod \<and> sym_get_type st r = S_BOOLEAN then T_yes else tri) st)
   }"

definition prompt_visible :: "symref \<Rightarrow> tristate \<Rightarrow> symtab \<Rightarrow> symtab" where
  "prompt_visible r tri st =
     set_visible r
       (if tri = T_mod \<and> (s_type (syms st r) \<noteq> S_TRISTATE \<or> modules_val st = T_no) then T_yes else tri) st"

definition sym_calc_visibility :: "calc \<Rightarrow> symref \<Rightarrow> symtab \<Rightarrow> symtab option" where
  "sym_calc_visibility calc r st = do {
     (tri, st) \<leftarrow> prompts_tri calc r 0 (s_props (syms st r)) T_no st;
     let st = prompt_visible r tri st;
     if sym_is_choice_value (syms st r) then Some st
     else do {
       st \<leftarrow> calc_dir_dep calc r st;
       calc_rev_dep calc r st
     }
   }"

section \<open>Choices\<close>

definition members :: "property \<Rightarrow> symref list" where
  "members p = (case p_expr p of Some e \<Rightarrow> expr_list_syms e | None \<Rightarrow> [])"

fun default_visible :: "calc \<Rightarrow> property list \<Rightarrow> symtab \<Rightarrow> (symref option \<times> symtab) option" where
  "default_visible calc [] st = Some (None, st)"
| "default_visible calc (p # ps) st = do {
     (tri, st) \<leftarrow> calc_opt calc (p_visible p) st;
     if tri = T_no then default_visible calc ps st
     else do {
       def_sym \<leftarrow> prop_get_symbol p;
       if s_visible (syms st def_sym) \<noteq> T_no then Some (Some def_sym, st)
       else default_visible calc ps st
     }
   }"

definition sym_choice_default :: "calc \<Rightarrow> symref \<Rightarrow> symtab \<Rightarrow> (symref option \<times> symtab) option" where
  "sym_choice_default calc r st = do {
     (d, st) \<leftarrow> default_visible calc (props_of P_DEFAULT (syms st r)) st;
     case d of
       Some def_sym \<Rightarrow> Some (Some def_sym, st)
     | None \<Rightarrow> do {
         prop \<leftarrow> sym_get_choice_prop (syms st r);
         Some (find (\<lambda>d. s_visible (syms st d) \<noteq> T_no) (members prop), st)
       }
   }"

text \<open>The visibilities of the members; \<open>flags\<close> keeps what all visible members have.\<close>

fun calc_members :: "calc \<Rightarrow> symref list \<Rightarrow> sflag set \<Rightarrow> symtab \<Rightarrow> (sflag set \<times> symtab) option" where
  "calc_members calc [] flags st = Some (flags, st)"
| "calc_members calc (d # ds) flags st = do {
     st \<leftarrow> sym_calc_visibility calc d st;
     calc_members calc ds
       (if s_visible (syms st d) \<noteq> T_no then flags \<inter> s_flags (syms st d) else flags) st
   }"

text \<open>A string where the choice keeps its user's symbol would be read as a symbol: None.\<close>

fun user_choice :: "sval \<Rightarrow> symref option option" where
  "user_choice V_NULL = Some None"
| "user_choice (V_sym d) = Some (Some d)"
| "user_choice (V_str s) = None"

text \<open>The default of a choice; without one its tristate value is reset.\<close>

definition default_or_no :: "calc \<Rightarrow> symref \<Rightarrow> symtab \<Rightarrow> (symref option \<times> symtab) option" where
  "default_or_no calc r st = do {
     (d, st) \<leftarrow> sym_choice_default calc r st;
     Some (d, if d = None then set_curr r (fst (s_curr (syms st r)), T_no) st else st)
   }"

definition sym_calc_choice :: "calc \<Rightarrow> symref \<Rightarrow> symtab \<Rightarrow> (symref option \<times> symtab) option" where
  "sym_calc_choice calc r st = do {
     prop \<leftarrow> sym_get_choice_prop (syms st r);
     (flags, st) \<leftarrow> calc_members calc (members prop) (s_flags (syms st r)) st;
     let st = clear_flags r ({SYMBOL_DEF_USER} - flags) st;
     def_sym \<leftarrow> user_choice (fst (s_user (syms st r)));
     case def_sym of
       Some d \<Rightarrow> if s_visible (syms st d) \<noteq> T_no then Some (Some d, st) else default_or_no calc r st
     | None \<Rightarrow> default_or_no calc r st
   }"

text \<open>\<open>set_all_choice_values\<close> of \<open>confdata.c\<close>.\<close>

definition user_tri_no :: "symref \<Rightarrow> symtab \<Rightarrow> symtab" where
  "user_tri_no d st =
     (if sym_has_value (syms st d) then st
      else upd_sym d (\<lambda>s. s\<lparr>s_user := (fst (s_user s), T_no)\<rparr>) st)"

definition set_all_choice_values :: "symref \<Rightarrow> symtab \<Rightarrow> symtab option" where
  "set_all_choice_values r st = do {
     prop \<leftarrow> sym_get_choice_prop (syms st r);
     let st = fold user_tri_no (members prop) st;
     let st = set_flags r {SYMBOL_DEF_USER} st;
     Some (clear_flags r {SYMBOL_VALID, SYMBOL_NEED_SET_CHOICE_VALUES} st)
   }"

section \<open>What is printed and compared of calculated symbols\<close>

definition value_text :: "symtab \<Rightarrow> symref \<Rightarrow> cstring" where
  "value_text st r =
     (let s = syms st r in
      if is_tri (s_type s)
      then (case snd (s_curr s) of
              T_no \<Rightarrow> ''n''
            | T_mod \<Rightarrow>
                (case modules_sym st of
                   Some m \<Rightarrow> if snd (s_curr (syms st m)) = T_no then ''n'' else ''m''
                 | None \<Rightarrow> [])
            | T_yes \<Rightarrow> ''y'')
      else sval_string (fst (s_curr s)))"

definition view :: "symtab \<Rightarrow> symview" where
  "view st = \<lparr>sv_type = (\<lambda>r. s_type (syms st r)), sv_name = (\<lambda>r. s_name (syms st r)),
     sv_const = (\<lambda>r. SYMBOL_CONST \<in> s_flags (syms st r)), sv_tri = (\<lambda>r. snd (s_curr (syms st r))),
     sv_str = value_text st\<rparr>"

text \<open>
  The warning about a select of a symbol with unmet dependencies. Where \<open>expr_simplify_unmet_dep\<close>
  reads a symbol as an expression, or a string to print is NULL, the model has no text for it.
\<close>

definition text_or_empty :: "cstring option \<Rightarrow> cstring" where
  "text_or_empty t = (case t of Some s \<Rightarrow> s | None \<Rightarrow> [])"

definition unmet_text :: "symref \<Rightarrow> symtab \<Rightarrow> cstring" where
  "unmet_text r st =
     (let s = syms st r; v = view st;
          e = Option.bind (fst (s_rev_dep s)) (\<lambda>x. expr_simplify_unmet_dep v x (fst (s_dir_dep s)))
      in ''warning: ('' @ text_or_empty (Option.bind e (expr_fprint v)) @
         '') selects '' @ text_or_empty (s_name s) @ '' which has unmet direct dependencies ('' @
         text_or_empty (expr_fprint v (fst (s_dir_dep s))) @ '')'')"

definition warn_unmet :: "symref \<Rightarrow> symtab \<Rightarrow> symtab" where
  "warn_unmet r st =
     (if snd (s_dir_dep (syms st r)) = T_no \<and> snd (s_rev_dep (syms st r)) \<noteq> T_no
      then st\<lparr>warnings := warnings st @ [unmet_text r st]\<rparr> else st)"

section \<open>The value of a symbol\<close>

text \<open>The value a symbol starts with: that of \<open>symbol_empty\<close> or \<open>symbol_no\<close>.\<close>

definition start_value :: "symbol_type \<Rightarrow> (sval \<times> tristate) option" where
  "start_value type =
     (if type \<in> {S_INT, S_HEX, S_STRING} then Some (s_curr symbol_empty)
      else if is_tri type then Some (s_curr symbol_no) else None)"

definition set_write :: "bool \<Rightarrow> symref \<Rightarrow> symtab \<Rightarrow> symtab" where
  "set_write b r st = (if b then set_flags r {SYMBOL_WRITE} st else st)"

text \<open>The macro EXPR\_AND evaluates its first argument again where that is the smaller one.\<close>

definition calc_and :: "calc \<Rightarrow> expr option \<Rightarrow> tristate \<Rightarrow> symtab \<Rightarrow> (tristate \<times> symtab) option" where
  "calc_and calc e tri st = do {
     (v, st) \<leftarrow> calc_opt calc e st;
     if v < tri then calc_opt calc e st else Some (tri, st)
   }"

definition tri_default :: "calc \<Rightarrow> symref \<Rightarrow> symtab \<Rightarrow> (tristate \<times> symtab) option" where
  "tri_default calc r st =
     (let st = set_write (snd (s_rev_dep (syms st r)) \<noteq> T_no) r st in
      if sym_is_choice (syms st r) then Some (T_no, st)
      else do {
        (prop, st) \<leftarrow> sym_get_default_prop calc r st;
        case prop of
          None \<Rightarrow> Some (T_no, st)
        | Some (p, tri) \<Rightarrow> calc_and calc (p_expr p) tri (set_write True r st)
      })"

definition tri_value :: "calc \<Rightarrow> symref \<Rightarrow> symtab \<Rightarrow> (tristate \<times> symtab) option" where
  "tri_value calc r st =
     (let s = syms st r; st = set_write (s_visible s \<noteq> T_no) r st in do {
        (tri, st) \<leftarrow> (if s_visible s \<noteq> T_no \<and> sym_has_value s
                        then Some (EXPR_AND (snd (s_user s)) (s_visible s), st)
                        else tri_default calc r st);
        let st = warn_unmet r st;
        Some (EXPR_OR tri (snd (s_rev_dep (syms st r))), st)
      })"

text \<open>The value of a member of a choice that is visible with \<open>y\<close>: whether the choice chose it.\<close>

definition member_value :: "symref \<Rightarrow> symtab \<Rightarrow> tristate option" where
  "member_value r st = do {
     prop \<leftarrow> sym_get_choice_prop (syms st r);
     c \<leftarrow> prop_get_symbol prop;
     Some (if fst (s_curr (syms st c)) = V_sym r then T_yes else T_no)
   }"

definition str_value :: "calc \<Rightarrow> symref \<Rightarrow> symtab \<Rightarrow> (sval \<times> symtab) option" where
  "str_value calc r st =
     (let s = syms st r; st = set_write (s_visible s \<noteq> T_no) r st in
      if s_visible s \<noteq> T_no \<and> sym_has_value s then Some (fst (s_user s), st)
      else do {
        (prop, st) \<leftarrow> sym_get_default_prop calc r st;
        case Option.bind prop (\<lambda>(p, _). prop_get_symbol p) of
          None \<Rightarrow> Some (fst (s_curr symbol_empty), st)
        | Some ds \<Rightarrow> do {
            let st = set_write True r st;
            st \<leftarrow> calc ds st;
            Some (fst (s_curr (syms st ds)), st)
          }
      })"

definition mod_to_yes :: "symref \<Rightarrow> tristate \<Rightarrow> symtab \<Rightarrow> tristate" where
  "mod_to_yes r tri st = (if tri = T_mod \<and> sym_get_type st r = S_BOOLEAN then T_yes else tri)"

definition new_value :: "calc \<Rightarrow> symref \<Rightarrow> symtab \<Rightarrow> ((sval \<times> tristate) \<times> symtab) option" where
  "new_value calc r st =
     (if is_tri (s_type (syms st r))
      then do {
        (tri, st) \<leftarrow> (if sym_is_choice_value (syms st r) \<and> s_visible (syms st r) = T_yes
                        then do { tri \<leftarrow> member_value r st; Some (tri, st) }
                        else tri_value calc r st);
        Some ((fst (s_curr symbol_no), mod_to_yes r tri st), st)
      }
      else do {
        (v, st) \<leftarrow> str_value calc r st;
        Some ((v, snd (s_curr symbol_empty)), st)
      })"

definition opt_sval :: "symref option \<Rightarrow> sval" where
  "opt_sval d = (case d of Some x \<Rightarrow> V_sym x | None \<Rightarrow> V_NULL)"

definition choose_value :: "calc \<Rightarrow> symref \<Rightarrow> tristate \<Rightarrow> symtab \<Rightarrow> symtab option" where
  "choose_value calc r tri st =
     (if sym_is_choice (syms st r) \<and> tri = T_yes
      then do {
        (d, st) \<leftarrow> sym_calc_choice calc r st;
        Some (set_curr_val r (opt_sval d) st)
      }
      else Some st)"

definition note_change :: "sval \<times> tristate \<Rightarrow> symref \<Rightarrow> symtab \<Rightarrow> symtab" where
  "note_change oldval r st =
     (if oldval \<noteq> s_curr (syms st r)
      then let st = sym_set_changed r st in
        if modules_sym st = Some r
        then let st = sym_set_all_changed st in st\<lparr>modules_val := snd (s_curr (syms st r))\<rparr>
        else st
      else st)"

definition mark_member :: "symref \<Rightarrow> symref \<Rightarrow> symtab \<Rightarrow> symtab" where
  "mark_member r d st =
     (let st = set_write (SYMBOL_WRITE \<in> s_flags (syms st r) \<and> s_visible (syms st d) \<noteq> T_no) d st in
      if SYMBOL_CHANGED \<in> s_flags (syms st r) then sym_set_changed d st else st)"

definition mark_members :: "symref \<Rightarrow> symtab \<Rightarrow> symtab option" where
  "mark_members r st =
     (if sym_is_choice (syms st r)
      then do {
        prop \<leftarrow> sym_get_choice_prop (syms st r);
        Some (fold (mark_member r) (members prop) st)
      }
      else Some st)"

definition finish_value ::
  "calc \<Rightarrow> symref \<Rightarrow> sval \<times> tristate \<Rightarrow> sval \<times> tristate \<Rightarrow> symtab \<Rightarrow> symtab option" where
  "finish_value calc r oldval newval st = do {
     let st = set_curr r newval st;
     st \<leftarrow> choose_value calc r (snd newval) st;
     st \<leftarrow> sym_validate_range calc r st;
     let st = note_change oldval r st;
     st \<leftarrow> mark_members r st;
     let st = (if SYMBOL_AUTO \<in> s_flags (syms st r) then clear_flags r {SYMBOL_WRITE} st else st);
     if SYMBOL_NEED_SET_CHOICE_VALUES \<in> s_flags (syms st r) then set_all_choice_values r st else Some st
   }"

definition calc_choice_first :: "calc \<Rightarrow> symref \<Rightarrow> symtab \<Rightarrow> symtab option" where
  "calc_choice_first calc r st =
     (if sym_is_choice_value (syms st r) \<and> SYMBOL_NEED_SET_CHOICE_VALUES \<in> s_flags (syms st r)
      then do {
        let st = clear_flags r {SYMBOL_NEED_SET_CHOICE_VALUES} st;
        prop \<leftarrow> sym_get_choice_prop (syms st r);
        case prop_get_symbol prop of Some c \<Rightarrow> calc c st | None \<Rightarrow> Some st
      }
      else Some st)"

definition calc_valued ::
  "calc \<Rightarrow> symref \<Rightarrow> sval \<times> tristate \<Rightarrow> sval \<times> tristate \<Rightarrow> symtab \<Rightarrow> symtab option" where
  "calc_valued calc r oldval newval st = do {
     let st = (if sym_is_choice_value (syms st r) then st else clear_flags r {SYMBOL_WRITE} st);
     st \<leftarrow> sym_calc_visibility calc r st;
     let st = set_curr r newval st;
     (newval, st) \<leftarrow> new_value calc r st;
     finish_value calc r oldval newval st
   }"

definition calc_marked :: "calc \<Rightarrow> symref \<Rightarrow> symtab \<Rightarrow> symtab option" where
  "calc_marked calc r st =
     (let s = syms st r in
      case start_value (s_type s) of
        None \<Rightarrow>
          Some (set_curr r (case s_name s of Some n \<Rightarrow> V_str n | None \<Rightarrow> V_NULL, T_no) st)
      | Some newval \<Rightarrow> calc_valued calc r (s_curr s) newval st)"

definition calc_body :: "calc \<Rightarrow> symref \<Rightarrow> symtab \<Rightarrow> symtab option" where
  "calc_body calc r st = do {
     st \<leftarrow> calc_choice_first calc r st;
     calc_marked calc r (set_flags r {SYMBOL_VALID} st)
   }"

text \<open>
  \<open>sym_calc_value\<close> with a bound on the depth of its recursion. \<open>calc_depth\<close> is never reached
  (\<open>sym_calc_value_total\<close>): each nested call first sets \<open>SYMBOL_VALID\<close> or clears
  \<open>SYMBOL_NEED_SET_CHOICE_VALUES\<close> of some symbol.
\<close>

fun calc_fuel :: "nat \<Rightarrow> calc" where
  "calc_fuel 0 r st = (if SYMBOL_VALID \<in> s_flags (syms st r) then Some st else None)"
| "calc_fuel (Suc n) r st =
     (if SYMBOL_VALID \<in> s_flags (syms st r) then Some st else calc_body (calc_fuel n) r st)"

definition calc_depth :: "symtab \<Rightarrow> nat" where
  "calc_depth st = Suc (3 * (next_id st + 4))"

definition sym_calc_value :: calc where
  "sym_calc_value r st = calc_fuel (calc_depth st) r st"

section \<open>Steps of the state\<close>

text \<open>
  A partial function that gives a result, and one that satisfies the condition: total correctness.
\<close>

definition gives :: "'a option \<Rightarrow> ('a \<Rightarrow> bool) \<Rightarrow> bool" where
  "gives m P \<longleftrightarrow> (\<exists>x. m = Some x \<and> P x)"

lemma gives_Some [simp]: "gives (Some x) P \<longleftrightarrow> P x"
  by (simp add: gives_def)

lemma gives_bind: "gives (m \<bind> f) P \<longleftrightarrow> gives m (\<lambda>x. gives (f x) P)"
  by (cases m) (simp_all add: gives_def)

lemma gives_mono: "gives m P \<Longrightarrow> (\<And>x. P x \<Longrightarrow> Q x) \<Longrightarrow> gives m Q"
  by (auto simp: gives_def)

text \<open>The symbols an expression names, and the references that are in use.\<close>

fun expr_syms :: "expr \<Rightarrow> symref set" where
  "expr_syms (EOr l r) = expr_syms l \<union> expr_syms r"
| "expr_syms (EAnd l r) = expr_syms l \<union> expr_syms r"
| "expr_syms (ENot x) = expr_syms x"
| "expr_syms (EEqual s t) = {s, t}"
| "expr_syms (EUnequal s t) = {s, t}"
| "expr_syms (ERange s t) = {s, t}"
| "expr_syms (ESymbol s) = {s}"
| "expr_syms (EList None s) = {s}"
| "expr_syms (EList (Some l) s) = insert s (expr_syms l)"
| "expr_syms ENone = {}"

definition refs :: "symtab \<Rightarrow> symref set" where
  "refs st = {SymYes, SymMod, SymNo, SymEmpty} \<union> SymId ` {..<next_id st}"

definition opt_in :: "symtab \<Rightarrow> expr option \<Rightarrow> bool" where
  "opt_in st e \<longleftrightarrow> (case e of None \<Rightarrow> True | Some x \<Rightarrow> expr_syms x \<subseteq> refs st)"

text \<open>
  What the parser and \<open>menu_finalize\<close> make of a symbol: expressions name symbols of the table, a range
  has two bounds, a choice knows its members, its defaults are symbols, and a member knows its choice.
\<close>

definition prop_ok :: "symtab \<Rightarrow> property \<Rightarrow> bool" where
  "prop_ok st p \<longleftrightarrow> opt_in st (p_visible p) \<and> opt_in st (p_expr p) \<and>
     (p_type p = P_RANGE \<longrightarrow> range_syms p \<noteq> None)"

definition choice_ok :: "symtab \<Rightarrow> symbol \<Rightarrow> bool" where
  "choice_ok st s \<longleftrightarrow>
     (\<exists>p. sym_get_choice_prop s = Some p \<and> (\<forall>d \<in> set (members p). sym_is_choice_value (syms st d))) \<and>
     (\<forall>p \<in> set (props_of P_DEFAULT s). prop_get_symbol p \<noteq> None) \<and> user_choice (fst (s_user s)) \<noteq> None"

definition member_ok :: "symbol \<Rightarrow> bool" where
  "member_ok s \<longleftrightarrow> (\<exists>p c. sym_get_choice_prop s = Some p \<and> prop_get_symbol p = Some c)"

definition sym_ok :: "symtab \<Rightarrow> symbol \<Rightarrow> bool" where
  "sym_ok st s \<longleftrightarrow> (\<forall>p \<in> set (s_props s). prop_ok st p) \<and>
     opt_in st (fst (s_dir_dep s)) \<and> opt_in st (fst (s_rev_dep s)) \<and>
     (sym_is_choice s \<longrightarrow> choice_ok st s) \<and> (sym_is_choice_value s \<longrightarrow> member_ok s) \<and>
     (SYMBOL_NEED_SET_CHOICE_VALUES \<in> s_flags s \<longrightarrow> sym_is_choice s \<or> sym_is_choice_value s)"

definition wf_symtab :: "symtab \<Rightarrow> bool" where
  "wf_symtab st \<longleftrightarrow> (\<forall>r \<in> refs st. sym_ok st (syms st r)) \<and> (\<exists>m \<in> refs st. modules_sym st = Some m)"

text \<open>What is left to do: the bound of the recursion.\<close>

definition cost :: "symbol \<Rightarrow> nat" where
  "cost s = (if SYMBOL_VALID \<in> s_flags s then 0 else 1) +
     (if SYMBOL_NEED_SET_CHOICE_VALUES \<in> s_flags s then 2 else 0)"

definition todo :: "symtab \<Rightarrow> nat" where
  "todo st = (\<Sum>r \<in> refs st. cost (syms st r))"

text \<open>
  How a symbol changes while values are calculated. \<open>busy\<close> is the symbol whose value is being
  calculated: every other symbol that is already calculated keeps its value.
\<close>

definition fixed_flags :: "sflag set" where
  "fixed_flags = {SYMBOL_CONST, SYMBOL_CHOICE, SYMBOL_CHOICEVAL, SYMBOL_OPTIONAL, SYMBOL_AUTO}"

definition same_shape :: "symbol \<Rightarrow> symbol \<Rightarrow> bool" where
  "same_shape s s' \<longleftrightarrow> s_name s' = s_name s \<and> s_type s' = s_type s \<and> s_props s' = s_props s \<and>
     fst (s_dir_dep s') = fst (s_dir_dep s) \<and> fst (s_rev_dep s') = fst (s_rev_dep s) \<and>
     fst (s_user s') = fst (s_user s) \<and> s_auto s' = s_auto s \<and>
     (SYMBOL_DEF_AUTO \<in> s_flags s' \<longleftrightarrow> SYMBOL_DEF_AUTO \<in> s_flags s) \<and> s_flags s' \<inter> fixed_flags = s_flags s \<inter> fixed_flags"

definition same_value :: "symbol \<Rightarrow> symbol \<Rightarrow> bool" where
  "same_value s s' \<longleftrightarrow> s_curr s' = s_curr s \<and> s_dir_dep s' = s_dir_dep s \<and> s_rev_dep s' = s_rev_dep s \<and>
     (\<not> sym_is_choice_value s \<longrightarrow> s_visible s' = s_visible s)"

definition same_user :: "symbol \<Rightarrow> symbol \<Rightarrow> bool" where
  "same_user s s' \<longleftrightarrow> s_user s' = s_user s \<and> sym_has_value s' = sym_has_value s"

definition sym_step :: "bool \<Rightarrow> symbol \<Rightarrow> symbol \<Rightarrow> bool" where
  "sym_step busy s s' \<longleftrightarrow> same_shape s s' \<and> cost s' \<le> cost s \<and>
     (SYMBOL_NEED_SET_CHOICE_VALUES \<in> s_flags s' \<longrightarrow> SYMBOL_NEED_SET_CHOICE_VALUES \<in> s_flags s) \<and>
     (SYMBOL_VALID \<in> s_flags s \<longrightarrow> SYMBOL_VALID \<in> s_flags s' \<or>
        busy \<and> SYMBOL_NEED_SET_CHOICE_VALUES \<in> s_flags s) \<and>
     (SYMBOL_VALID \<in> s_flags s \<and> \<not> busy \<longrightarrow> same_value s s') \<and>
     (\<not> sym_is_choice s \<and> \<not> sym_is_choice_value s \<longrightarrow> same_user s s')"

definition evolves :: "symref set \<Rightarrow> symtab \<Rightarrow> symtab \<Rightarrow> bool" where
  "evolves X st st' \<longleftrightarrow> next_id st' = next_id st \<and> buckets st' = buckets st \<and>
     modules_sym st' = modules_sym st \<and> (\<forall>r. sym_step (r \<in> X) (syms st r) (syms st' r))"

lemma evolvesI:
  "next_id st' = next_id st \<Longrightarrow> buckets st' = buckets st \<Longrightarrow> modules_sym st' = modules_sym st \<Longrightarrow>
   (\<And>r. sym_step (r \<in> X) (syms st r) (syms st' r)) \<Longrightarrow> evolves X st st'"
  by (simp add: evolves_def)

lemma evolvesD:
  assumes "evolves X st st'"
  shows "next_id st' = next_id st" "buckets st' = buckets st" "modules_sym st' = modules_sym st"
    and "sym_step (r \<in> X) (syms st r) (syms st' r)" "refs st' = refs st"
  using assms by (simp_all add: evolves_def refs_def)

lemma flags_fixed:
  assumes "s_flags s' \<inter> fixed_flags = s_flags s \<inter> fixed_flags" "f \<in> fixed_flags"
  shows "f \<in> s_flags s' \<longleftrightarrow> f \<in> s_flags s"
  using assms by blast

lemma same_shapeD:
  assumes "same_shape s s'"
  shows "s_name s' = s_name s" "s_type s' = s_type s" "s_props s' = s_props s"
    and "fst (s_dir_dep s') = fst (s_dir_dep s)" "fst (s_rev_dep s') = fst (s_rev_dep s)"
    and "fst (s_user s') = fst (s_user s)"
    and "sym_is_choice s' = sym_is_choice s" "sym_is_choice_value s' = sym_is_choice_value s"
    and "sym_get_choice_prop s' = sym_get_choice_prop s" "props_of t s' = props_of t s"
    and "(SYMBOL_AUTO \<in> s_flags s') = (SYMBOL_AUTO \<in> s_flags s)"
    and "(SYMBOL_CONST \<in> s_flags s') = (SYMBOL_CONST \<in> s_flags s)"
proof -
  have f: "f \<in> s_flags s' \<longleftrightarrow> f \<in> s_flags s" if "f \<in> fixed_flags" for f
    using assms that flags_fixed [of s' s f] by (simp add: same_shape_def)
  show "sym_is_choice s' = sym_is_choice s" "sym_is_choice_value s' = sym_is_choice_value s"
    "(SYMBOL_AUTO \<in> s_flags s') = (SYMBOL_AUTO \<in> s_flags s)"
    "(SYMBOL_CONST \<in> s_flags s') = (SYMBOL_CONST \<in> s_flags s)"
    by (simp_all add: sym_is_choice_def sym_is_choice_value_def f fixed_flags_def)
  have p: "s_props s' = s_props s" using assms by (simp add: same_shape_def)
  then show "sym_get_choice_prop s' = sym_get_choice_prop s" "props_of t s' = props_of t s"
    by (simp_all add: sym_get_choice_prop_def props_of_def)
qed (use assms in \<open>simp_all add: same_shape_def\<close>)

lemma sym_stepD: "sym_step b s s' \<Longrightarrow> same_shape s s'"
  by (simp add: sym_step_def)

lemma sym_step_refl: "sym_step b s s"
  by (simp add: sym_step_def same_shape_def same_value_def same_user_def)

lemma sym_step_trans:
  assumes "sym_step b s s'" "sym_step b s' s''"
  shows "sym_step b s s''"
proof -
  have sh: "same_shape s s'" using assms(1) by (rule sym_stepD)
  have "same_shape s s''" "cost s'' \<le> cost s"
    using assms by (auto simp: sym_step_def same_shape_def)
  moreover have "same_value s s''" if "SYMBOL_VALID \<in> s_flags s" "\<not> b"
    using assms that by (simp add: sym_step_def) (simp add: same_value_def same_shapeD(8) [OF sh])
  moreover have "same_user s s''" if "\<not> sym_is_choice s" "\<not> sym_is_choice_value s"
    using assms that by (simp add: sym_step_def same_shapeD(7,8) [OF sh]) (simp add: same_user_def)
  ultimately show ?thesis
    using assms by (simp add: sym_step_def) blast
qed

lemma sym_step_busy: "sym_step False s s' \<Longrightarrow> sym_step b s s'"
  by (auto simp: sym_step_def)

lemma evolves_refl [simp]: "evolves X st st"
  by (simp add: evolves_def sym_step_refl)

lemma evolves_trans: "evolves X st st' \<Longrightarrow> evolves X st' st'' \<Longrightarrow> evolves X st st''"
  by (simp add: evolves_def) (meson sym_step_trans)

lemma evolves_mono: "evolves X st st' \<Longrightarrow> X \<subseteq> Y \<Longrightarrow> evolves Y st st'"
  unfolding evolves_def by (metis (full_types) sym_step_busy subsetD)

lemma evolves_shape: "evolves X st st' \<Longrightarrow> same_shape (syms st r) (syms st' r)"
  by (rule sym_stepD [OF evolvesD(4)])

lemma evolves_wf:
  assumes "evolves X st st'" "wf_symtab st"
  shows "wf_symtab st'"
proof -
  have refs: "refs st' = refs st" using evolvesD(5) [OF assms(1)] .
  have "sym_ok st' (syms st' r)" if "r \<in> refs st" for r
  proof -
    have ok: "sym_ok st (syms st r)" using assms(2) that by (auto simp: wf_symtab_def)
    note sh = same_shapeD [OF evolves_shape [OF assms(1)]]
    have need: "SYMBOL_NEED_SET_CHOICE_VALUES \<in> s_flags (syms st' r) \<Longrightarrow>
        SYMBOL_NEED_SET_CHOICE_VALUES \<in> s_flags (syms st r)"
      using evolvesD(4) [OF assms(1), of r] by (simp add: sym_step_def)
    have opt: "opt_in st' = opt_in st" by (simp add: opt_in_def refs fun_eq_iff split: option.splits)
    have props: "prop_ok st' = prop_ok st" by (simp add: prop_ok_def opt fun_eq_iff)
    have choice: "choice_ok st' (syms st' r) = choice_ok st (syms st r)" by (simp add: choice_ok_def sh)
    have member: "member_ok (syms st' r) = member_ok (syms st r)" by (simp add: member_ok_def sh)
    from ok need show ?thesis by (simp add: sym_ok_def opt props choice member sh)
  qed
  then show ?thesis
    using assms(2) evolvesD(3) [OF assms(1)] refs by (simp add: wf_symtab_def)
qed

lemma finite_refs [simp]: "finite (refs st)"
  by (simp add: refs_def)

lemma evolves_cost: "evolves X st st' \<Longrightarrow> cost (syms st' r) \<le> cost (syms st r)"
  using evolvesD(4) [of X st st' r] by (simp add: sym_step_def)

lemma evolves_todo: "evolves X st st' \<Longrightarrow> todo st' \<le> todo st"
  unfolding todo_def by (simp add: evolvesD(5) sum_mono evolves_cost)

text \<open>The states in which \<open>m\<close> nested calls are enough.\<close>

definition ready :: "nat \<Rightarrow> symtab \<Rightarrow> bool" where
  "ready m st \<longleftrightarrow> wf_symtab st \<and> todo st \<le> m"

lemma evolves_ready: "evolves X st st' \<Longrightarrow> ready m st \<Longrightarrow> ready m st'"
  by (simp add: ready_def evolves_wf) (meson evolves_todo le_trans)

text \<open>A function that gives a result, and a state that evolved from its argument.\<close>

definition runs :: "symref set \<Rightarrow> symtab \<Rightarrow> ('a \<times> symtab) option \<Rightarrow> bool" where
  "runs X st m \<longleftrightarrow> gives m (\<lambda>x. evolves X st (snd x))"

definition moves :: "symref set \<Rightarrow> symtab \<Rightarrow> symtab option \<Rightarrow> bool" where
  "moves X st m \<longleftrightarrow> gives m (evolves X st)"

lemma runs_Some [simp]: "runs X st (Some (v, st')) \<longleftrightarrow> evolves X st st'"
  and moves_Some [simp]: "moves X st (Some st') \<longleftrightarrow> evolves X st st'"
  by (simp_all add: runs_def moves_def)

lemma runsE: "runs X st m \<Longrightarrow> (\<And>v st'. m = Some (v, st') \<Longrightarrow> evolves X st st' \<Longrightarrow> P) \<Longrightarrow> P"
  by (auto simp: runs_def gives_def)

lemma movesE: "moves X st m \<Longrightarrow> (\<And>st'. m = Some st' \<Longrightarrow> evolves X st st' \<Longrightarrow> P) \<Longrightarrow> P"
  by (auto simp: moves_def gives_def)

lemma runs_mono: "runs X st m \<Longrightarrow> X \<subseteq> Y \<Longrightarrow> runs Y st m"
  and moves_mono: "moves X st m' \<Longrightarrow> X \<subseteq> Y \<Longrightarrow> moves Y st m'"
  by (auto simp: runs_def moves_def gives_def intro: evolves_mono)

lemma runs_step: "evolves X st st' \<Longrightarrow> runs X st' m \<Longrightarrow> runs X st m"
  and moves_step: "evolves X st st' \<Longrightarrow> moves X st' m' \<Longrightarrow> moves X st m'"
  by (auto simp: runs_def moves_def gives_def intro: evolves_trans)

lemma runs_bind_runs:
  assumes "runs X st m" "\<And>v st'. m = Some (v, st') \<Longrightarrow> evolves X st st' \<Longrightarrow> runs X st' (f (v, st'))"
  shows "runs X st (m \<bind> f)"
  by (rule runsE [OF assms(1)]) (use assms(2) runs_step in fastforce)

lemma runs_bind_moves:
  assumes "moves X st m" "\<And>st'. m = Some st' \<Longrightarrow> evolves X st st' \<Longrightarrow> runs X st' (f st')"
  shows "runs X st (m \<bind> f)"
  by (rule movesE [OF assms(1)]) (use assms(2) runs_step in fastforce)

lemma moves_bind_runs:
  assumes "runs X st m" "\<And>v st'. m = Some (v, st') \<Longrightarrow> evolves X st st' \<Longrightarrow> moves X st' (f (v, st'))"
  shows "moves X st (m \<bind> f)"
  by (rule runsE [OF assms(1)]) (use assms(2) moves_step in fastforce)

lemma moves_bind_moves:
  assumes "moves X st m" "\<And>st'. m = Some st' \<Longrightarrow> evolves X st st' \<Longrightarrow> moves X st' (f st')"
  shows "moves X st (m \<bind> f)"
  by (rule movesE [OF assms(1)]) (use assms(2) moves_step in fastforce)

lemmas run_binds = runs_bind_runs runs_bind_moves moves_bind_runs moves_bind_moves

section \<open>Single changes\<close>

lemma syms_upd [simp]:
  "syms (upd_sym r f st) r' = (if r' = r then f (syms st r) else syms st r')"
  "next_id (upd_sym r f st) = next_id st" "buckets (upd_sym r f st) = buckets st"
  "modules_sym (upd_sym r f st) = modules_sym st" "modules_val (upd_sym r f st) = modules_val st"
  by (simp_all add: upd_sym_def)

lemma evolves_upd: "sym_step (r \<in> X) (syms st r) (f (syms st r)) \<Longrightarrow> evolves X st (upd_sym r f st)"
  by (rule evolvesI) (simp_all add: sym_step_refl)

lemmas sym_step_defs = sym_step_def same_shape_def same_value_def same_user_def cost_def fixed_flags_def
  sym_has_value_def sym_is_choice_def sym_is_choice_value_def

text \<open>Flags that have no part in the steps, and \<open>SYMBOL_VALID\<close> when it is set.\<close>

lemma evolves_set_flags: "fs \<subseteq> {SYMBOL_WRITE, SYMBOL_CHANGED, SYMBOL_VALID} \<Longrightarrow> evolves X st (set_flags r fs st)"
  unfolding set_flags_def by (rule evolves_upd) (auto simp: sym_step_defs)

lemma evolves_clear_flags:
  "fs \<subseteq> {SYMBOL_WRITE, SYMBOL_CHANGED, SYMBOL_NEED_SET_CHOICE_VALUES} \<Longrightarrow>
   evolves X st (clear_flags r fs st)"
  unfolding clear_flags_def by (rule evolves_upd) (auto simp: sym_step_defs)

lemma evolves_same_syms:
  "evolves X st st' \<Longrightarrow> syms st'' = syms st' \<Longrightarrow> next_id st'' = next_id st' \<Longrightarrow>
   buckets st'' = buckets st' \<Longrightarrow> modules_sym st'' = modules_sym st' \<Longrightarrow> evolves X st st''"
  by (simp add: evolves_def)

lemma evolves_set_changed: "evolves X st (sym_set_changed r st)"
  unfolding sym_set_changed_def Let_def
  by (rule evolves_same_syms [OF evolves_set_flags [of "{SYMBOL_CHANGED}" X st r]]) simp_all

lemma evolves_fold:
  assumes "\<And>x st. x \<in> set xs \<Longrightarrow> evolves X st (f x st)"
  shows "evolves X st (fold f xs st)"
  using assms
proof (induction xs arbitrary: st)
  case (Cons x xs)
  have "evolves X st (f x st)" "evolves X (f x st) (fold f xs (f x st))"
    using Cons by simp_all
  then show ?case using evolves_trans by simp
qed simp

lemma evolves_set_all_changed: "evolves X st (sym_set_all_changed st)"
  unfolding sym_set_all_changed_def by (rule evolves_fold) (rule evolves_set_changed)

lemma evolves_set_curr: "r \<in> X \<Longrightarrow> evolves X st (set_curr r v st)"
  unfolding set_curr_def by (rule evolves_upd) (simp add: sym_step_defs)

lemma evolves_set_curr_val: "r \<in> X \<Longrightarrow> evolves X st (set_curr_val r v st)"
  unfolding set_curr_val_def by (rule evolves_upd) (simp add: sym_step_defs)

lemma evolves_set_visible:
  assumes "r \<in> X \<or> sym_is_choice_value (syms st r)"
  shows "evolves X st (set_visible r tri st)"
proof -
  have "evolves X st (upd_sym r (\<lambda>s. s\<lparr>s_visible := tri\<rparr>) st)"
    by (rule evolves_upd) (use assms in \<open>auto simp: sym_step_defs\<close>)
  then show ?thesis
    unfolding set_visible_def using evolves_trans [OF _ evolves_set_changed] by simp
qed

lemma evolves_set_deps:
  assumes "r \<in> X"
  shows "evolves X st (set_dir_dep r tri st)" "evolves X st (set_rev_dep r tri st)"
proof -
  have "evolves X st (upd_sym r (\<lambda>s. s\<lparr>s_dir_dep := (fst (s_dir_dep s), tri)\<rparr>) st)"
    "evolves X st (upd_sym r (\<lambda>s. s\<lparr>s_rev_dep := (fst (s_rev_dep s), tri)\<rparr>) st)"
    by (rule evolves_upd, use assms in \<open>simp add: sym_step_defs\<close>)+
  then show "evolves X st (set_dir_dep r tri st)" "evolves X st (set_rev_dep r tri st)"
    unfolding set_dir_dep_def set_rev_dep_def using evolves_trans [OF _ evolves_set_changed] by simp_all
qed

lemma evolves_set_write: "evolves X st (set_write b r st)"
  by (simp add: set_write_def evolves_set_flags)

lemma evolves_warn: "evolves X st (warn_unmet r st)"
  by (simp add: warn_unmet_def evolves_def sym_step_refl)

lemma evolves_note_change: "evolves X st (note_change old r st)"
proof -
  have 1: "evolves X st (sym_set_changed r st)" by (rule evolves_set_changed)
  have 2: "evolves X st (sym_set_all_changed (sym_set_changed r st))"
    by (rule evolves_trans [OF 1 evolves_set_all_changed])
  then have "evolves X st ((sym_set_all_changed (sym_set_changed r st))\<lparr>modules_val := v\<rparr>)" for v
    by (rule evolves_same_syms) simp_all
  with 1 show ?thesis by (simp add: note_change_def Let_def)
qed

lemma evolves_mark_member: "evolves X st (mark_member r d st)"
proof -
  define st1 where "st1 = set_write (SYMBOL_WRITE \<in> s_flags (syms st r) \<and> s_visible (syms st d) \<noteq> T_no) d st"
  have 1: "evolves X st st1" unfolding st1_def by (rule evolves_set_write)
  have "evolves X st (sym_set_changed d st1)" by (rule evolves_trans [OF 1 evolves_set_changed])
  with 1 show ?thesis by (simp add: mark_member_def Let_def st1_def)
qed

lemma clear_need:
  assumes "r \<in> X" "SYMBOL_NEED_SET_CHOICE_VALUES \<in> s_flags (syms st r)"
    "sym_is_choice (syms st r) \<or> sym_is_choice_value (syms st r)"
  shows "evolves X st (clear_flags r {SYMBOL_VALID, SYMBOL_NEED_SET_CHOICE_VALUES}
    (set_flags r {SYMBOL_DEF_USER} st))"
  by (rule evolvesI) (use assms in \<open>auto simp: clear_flags_def set_flags_def sym_step_refl sym_step_defs\<close>)

lemma evolves_user_tri:
  "sym_is_choice_value (syms st d) \<Longrightarrow> evolves X st (user_tri_no d st)"
  unfolding user_tri_no_def by (auto intro!: evolves_upd simp: sym_step_defs)

section \<open>Every part gives a result\<close>

definition calc_ok :: "nat \<Rightarrow> calc \<Rightarrow> bool" where
  "calc_ok m calc \<longleftrightarrow> (\<forall>st r. ready m st \<longrightarrow> r \<in> refs st \<longrightarrow> moves {} st (calc r st))"

lemma calc_moves: "calc_ok m calc \<Longrightarrow> ready m st \<Longrightarrow> r \<in> refs st \<Longrightarrow> moves {} st (calc r st)"
  by (simp add: calc_ok_def)

lemma readyD:
  assumes "ready m st"
  shows "r \<in> refs st \<Longrightarrow> sym_ok st (syms st r)" "\<exists>x \<in> refs st. modules_sym st = Some x"
  using assms by (simp_all add: ready_def wf_symtab_def)

lemma get_string_runs:
  assumes "calc_ok m calc" "ready m st"
  shows "runs {} st (sym_get_string_value calc r st)"
proof -
  obtain x where x: "x \<in> refs st" "modules_sym st = Some x" using readyD(2) [OF assms(2)] by blast
  have "runs {} st (do {
      st \<leftarrow> calc x st;
      Some (if snd (s_curr (syms st x)) = T_no then ''n'' else ''m'', st) })"
    by (rule runs_bind_moves [OF calc_moves [OF assms x(1)]]) simp
  with x show ?thesis
    by (auto simp: sym_get_string_value_def Let_def split: tristate.splits)
qed

lemma compare_runs:
  assumes c: "calc_ok m calc" and r: "ready m st" "s \<in> refs st" "t \<in> refs st"
  shows "runs {} st (do {
     st \<leftarrow> calc s st;
     st \<leftarrow> calc t st;
     (str1, st) \<leftarrow> sym_get_string_value calc s st;
     (str2, st) \<leftarrow> sym_get_string_value calc t st;
     Some (f str1 str2, st)
   })"
proof (rule runs_bind_moves [OF calc_moves [OF c r(1,2)]])
  fix st1 assume 1: "evolves {} st st1"
  have r1: "ready m st1" "t \<in> refs st1" using evolves_ready [OF 1] evolvesD(5) [OF 1] r by auto
  show "runs {} st1 (do {
     st \<leftarrow> calc t st1;
     (str1, st) \<leftarrow> sym_get_string_value calc s st;
     (str2, st) \<leftarrow> sym_get_string_value calc t st;
     Some (f str1 str2, st) })"
  proof (rule runs_bind_moves [OF calc_moves [OF c r1]])
    fix st2 assume "evolves {} st1 st2"
    then have r2: "ready m st2" by (rule evolves_ready [OF _ r1(1)])
    show "runs {} st2 (do {
       (str1, st) \<leftarrow> sym_get_string_value calc s st2;
       (str2, st) \<leftarrow> sym_get_string_value calc t st;
       Some (f str1 str2, st) })"
    proof (rule runs_bind_runs [OF get_string_runs [OF c r2]])
      fix v st3 assume "evolves {} st2 st3"
      then have "ready m st3" by (rule evolves_ready [OF _ r2])
      then have g: "runs {} st3 (sym_get_string_value calc t st3)" by (rule get_string_runs [OF c])
      show "runs {} st3 (case (v, st3) of (str1, st) \<Rightarrow> do {
         (str2, st) \<leftarrow> sym_get_string_value calc t st; Some (f str1 str2, st) })"
        unfolding prod.case by (rule runs_bind_runs [OF g]) simp
    qed
  qed
qed

lemma expr_runs:
  assumes "calc_ok m calc"
  shows "ready m st \<Longrightarrow> expr_syms e \<subseteq> refs st \<Longrightarrow> runs {} st (expr_calc_value calc e st)"
proof (induction e arbitrary: st rule: expr_syms.induct)
  case (1 l r)
  show ?case
    unfolding expr_calc_value.simps
  proof (rule run_binds)
    fix v st' assume e: "evolves {} st st'"
    have "ready m st'" "expr_syms r \<subseteq> refs st'" using 1(3,4) evolves_ready [OF e] evolvesD(5) [OF e] by auto
    then have "runs {} st' (expr_calc_value calc r st')" by (rule 1(2))
    then show "runs {} st' (case (v, st') of (val1, st) \<Rightarrow> do {
        (val2, st) \<leftarrow> expr_calc_value calc r st; Some (EXPR_OR val1 val2, st) })"
      unfolding prod.case by (rule run_binds) simp
  qed (use 1 in auto)
next
  case (2 l r)
  show ?case
    unfolding expr_calc_value.simps
  proof (rule run_binds)
    fix v st' assume e: "evolves {} st st'"
    have "ready m st'" "expr_syms r \<subseteq> refs st'" using 2(3,4) evolves_ready [OF e] evolvesD(5) [OF e] by auto
    then have "runs {} st' (expr_calc_value calc r st')" by (rule 2(2))
    then show "runs {} st' (case (v, st') of (val1, st) \<Rightarrow> do {
        (val2, st) \<leftarrow> expr_calc_value calc r st; Some (EXPR_AND val1 val2, st) })"
      unfolding prod.case by (rule run_binds) simp
  qed (use 2 in auto)
next
  case (3 x)
  then have "runs {} st (expr_calc_value calc x st)" by simp
  then show ?case unfolding expr_calc_value.simps by (rule run_binds) simp
next
  case (4 s t)
  then show ?case
    using compare_runs [OF assms, of st s t "\<lambda>a b. if a = b then T_yes else T_no"] by simp
next
  case (5 s t)
  then show ?case
    using compare_runs [OF assms, of st s t "\<lambda>a b. if a = b then T_no else T_yes"] by simp
next
  case (7 s)
  then have "moves {} st (calc s st)" using calc_moves [OF assms] by simp
  then show ?case unfolding expr_calc_value.simps by (rule run_binds) simp
qed simp_all

lemma calc_opt_runs:
  "calc_ok m calc \<Longrightarrow> ready m st \<Longrightarrow> opt_in st e \<Longrightarrow> runs {} st (calc_opt calc e st)"
  by (auto simp: calc_opt_def opt_in_def expr_runs split: option.splits)

lemma opt_in_evolves: "evolves X st st' \<Longrightarrow> opt_in st' = opt_in st"
  by (simp add: opt_in_def fun_eq_iff evolvesD(5) split: option.splits)

lemma prop_ok_evolves: "evolves X st st' \<Longrightarrow> prop_ok st' = prop_ok st"
  by (simp add: prop_ok_def fun_eq_iff opt_in_evolves)

lemma calc_and_runs:
  assumes "calc_ok m calc" "ready m st" "opt_in st e"
  shows "runs {} st (calc_and calc e tri st)"
  unfolding calc_and_def
proof (rule runs_bind_runs [OF calc_opt_runs [OF assms]], goal_cases)
  case (1 v st')
  have "runs {} st' (calc_opt calc e st')"
    using calc_opt_runs [OF assms(1) evolves_ready [OF 1(2) assms(2)]] assms(3) opt_in_evolves [OF 1(2)] by simp
  then show ?case by simp
qed

text \<open>The loops over properties, and what the first of them gives is one of the properties.\<close>

lemma first_visible_runs:
  assumes "calc_ok m calc"
  shows "ready m st \<Longrightarrow> \<forall>p \<in> set ps. prop_ok st p \<Longrightarrow> runs {} st (first_visible calc ps st)"
proof (induction ps arbitrary: st)
  case (Cons p ps)
  then have "runs {} st (calc_opt calc (p_visible p) st)"
    using calc_opt_runs [OF assms] by (simp add: prop_ok_def)
  then show ?case
    unfolding first_visible.simps
  proof (rule run_binds)
    fix v st' assume e: "evolves {} st st'"
    have "runs {} st' (first_visible calc ps st')"
      using Cons evolves_ready [OF e] prop_ok_evolves [OF e] by simp
    then show "runs {} st' (case (v, st') of (tri, st) \<Rightarrow>
        if tri \<noteq> T_no then Some (Some (p, tri), st) else first_visible calc ps st)"
      by simp
  qed
qed simp

lemma first_visible_mem: "first_visible calc ps st = Some (Some (p, tri), st') \<Longrightarrow> p \<in> set ps \<and> tri \<noteq> T_no"
  by (induction ps arbitrary: st) (fastforce split: bind_splits if_splits)+

lemma prompts_runs:
  assumes "calc_ok m calc"
  shows "ready m st \<Longrightarrow> \<forall>p \<in> set ps. prop_ok st p \<Longrightarrow> runs {} st (prompts_tri calc r i ps tri st)"
proof (induction ps arbitrary: i st tri)
  case (Cons p ps)
  then have "runs {} st (calc_opt calc (p_visible p) st)"
    using calc_opt_runs [OF assms] by (simp add: prop_ok_def)
  then have "runs {} st (do {
      (v, st) \<leftarrow> calc_opt calc (p_visible p) st;
      prompts_tri calc r (Suc i) ps (EXPR_OR tri v) (set_vis_tri r i v st) })"
  proof (rule run_binds)
    fix v st' assume e: "evolves {} st st'"
    have v: "evolves {} st' (set_vis_tri r i v st')"
      by (rule evolves_same_syms) (simp_all add: set_vis_tri_def)
    have "runs {} st' (prompts_tri calc r (Suc i) ps (EXPR_OR tri v) (set_vis_tri r i v st'))"
      by (rule runs_step [OF v])
        (use Cons evolves_ready [OF evolves_trans [OF e v]] prop_ok_evolves [OF evolves_trans [OF e v]] in simp)
    then show "runs {} st' (case (v, st') of
        (v, st) \<Rightarrow> prompts_tri calc r (Suc i) ps (EXPR_OR tri v) (set_vis_tri r i v st))"
      by simp
  qed
  with Cons show ?case by simp
qed simp

lemma default_visible_runs:
  assumes "calc_ok m calc"
  shows "ready m st \<Longrightarrow> \<forall>p \<in> set ps. prop_ok st p \<and> prop_get_symbol p \<noteq> None \<Longrightarrow>
    runs {} st (default_visible calc ps st)"
proof (induction ps arbitrary: st)
  case (Cons p ps)
  then have "runs {} st (calc_opt calc (p_visible p) st)"
    using calc_opt_runs [OF assms] by (simp add: prop_ok_def)
  then show ?case
    unfolding default_visible.simps
  proof (rule run_binds)
    fix v st' assume e: "evolves {} st st'"
    have "runs {} st' (default_visible calc ps st')"
      using Cons evolves_ready [OF e] prop_ok_evolves [OF e] by simp
    with Cons show "runs {} st' (case (v, st') of (tri, st) \<Rightarrow>
        if tri = T_no then default_visible calc ps st
        else do {
          def_sym \<leftarrow> prop_get_symbol p;
          if s_visible (syms st def_sym) \<noteq> T_no then Some (Some def_sym, st)
          else default_visible calc ps st
        })"
      by auto
  qed
qed simp

lemma sym_okD:
  assumes "sym_ok st s"
  shows "\<forall>p \<in> set (s_props s). prop_ok st p" "\<forall>p \<in> set (props_of t s). prop_ok st p"
    and "opt_in st (fst (s_dir_dep s))" "opt_in st (fst (s_rev_dep s))"
    and "sym_is_choice s \<Longrightarrow> choice_ok st s" "sym_is_choice_value s \<Longrightarrow> member_ok s"
    and "SYMBOL_NEED_SET_CHOICE_VALUES \<in> s_flags s \<Longrightarrow> sym_is_choice s \<or> sym_is_choice_value s"
  using assms by (auto simp: sym_ok_def props_of_def)

lemma range_val_runs:
  assumes "calc_ok m calc" "ready m st" "x \<in> refs st"
  shows "runs {} st (sym_get_range_val calc x base st)"
  unfolding sym_get_range_val_def by (rule runs_bind_moves [OF calc_moves [OF assms]]) (simp add: Let_def)

lemma range_syms_ok:
  assumes "prop_ok st p" "p_type p = P_RANGE"
  obtains lo hi where "range_syms p = Some (lo, hi)" "lo \<in> refs st" "hi \<in> refs st"
proof -
  from assms obtain lo hi where r: "range_syms p = Some (lo, hi)" by (auto simp: prop_ok_def)
  then have "p_expr p = Some (ERange lo hi)" by (auto simp: range_syms_def split: option.splits expr.splits)
  with assms(1) r show ?thesis by (intro that) (auto simp: prop_ok_def opt_in_def)
qed

lemma clamp_range_moves:
  assumes c: "calc_ok m calc" and r: "ready m st" "lo \<in> refs st" "hi \<in> refs st" "r \<in> X"
  shows "moves X st (clamp_range calc r base (lo, hi) st)"
  unfolding clamp_range_def prod.case Let_def
proof (rule moves_bind_runs, goal_cases)
  case 1
  show ?case by (rule runs_mono [OF range_val_runs [OF c r(1,2)]]) simp
next
  case (2 v st1)
  note e = 2(2)
  have "runs X st1 (sym_get_range_val calc hi base st1)"
    using evolves_ready [OF e r(1)] evolvesD(5) [OF e] r(3)
    by (intro runs_mono [OF range_val_runs [OF c]]) auto
  then show ?case
    using r(4) by (auto intro!: moves_bind_runs evolves_set_curr_val)
qed

lemma props_of_type: "p \<in> set (props_of t s) \<Longrightarrow> p_type p = t \<and> p \<in> set (s_props s)"
  by (auto simp: props_of_def)

lemma validate_range_moves:
  assumes c: "calc_ok m calc" and r: "ready m st" "r \<in> refs st" "r \<in> X"
  shows "moves X st (sym_validate_range calc r st)"
proof (cases "value_base (s_type (syms st r))")
  case (Some base)
  note ok = readyD(1) [OF r(1,2)]
  have g: "runs X st (sym_get_range_prop calc r st)"
    unfolding sym_get_range_prop_def
    by (rule runs_mono [OF first_visible_runs [OF c r(1) sym_okD(2) [OF ok]]]) simp
  have "moves X st (do {
      (prop, st) \<leftarrow> sym_get_range_prop calc r st;
      case prop of
        None \<Rightarrow> Some st
      | Some (p, _) \<Rightarrow> Option.bind (range_syms p) (\<lambda>b. clamp_range calc r base b st) })"
  proof (rule moves_bind_runs [OF g])
    fix v st1
    assume g: "sym_get_range_prop calc r st = Some (v, st1)" and e: "evolves X st st1"
    show "moves X st1 (case (v, st1) of (prop, st) \<Rightarrow>
        case prop of None \<Rightarrow> Some st
        | Some (p, _) \<Rightarrow> Option.bind (range_syms p) (\<lambda>b. clamp_range calc r base b st))"
    proof (cases v)
      case (Some pt)
      obtain p t where pt: "pt = (p, t)" by fastforce
      have "p \<in> set (props_of P_RANGE (syms st r))"
        using first_visible_mem g Some pt unfolding sym_get_range_prop_def by blast
      then have p: "prop_ok st p" "p_type p = P_RANGE"
        using sym_okD(1) [OF ok] props_of_type by blast+
      obtain lo hi where b: "range_syms p = Some (lo, hi)" "lo \<in> refs st" "hi \<in> refs st"
        by (rule range_syms_ok [OF p])
      have "moves X st1 (clamp_range calc r base (lo, hi) st1)"
        by (rule clamp_range_moves [OF c evolves_ready [OF e r(1)] _ _ r(3)]) (simp_all add: b evolvesD(5) [OF e])
      with Some pt b show ?thesis by simp
    qed simp
  qed
  with Some show ?thesis by (simp add: sym_validate_range_def)
qed (simp add: sym_validate_range_def)

lemma ready_sym_ok:
  assumes "ready m st" "r \<in> refs st" "evolves X st st'"
  shows "ready m st'" "sym_ok st' (syms st' r)" "r \<in> refs st'"
  using readyD(1) [OF evolves_ready [OF assms(3,1)]] assms evolvesD(5) [OF assms(3)] evolves_ready [OF assms(3,1)]
  by auto

lemma dir_dep_moves:
  assumes c: "calc_ok m calc" and r: "ready m st" "r \<in> refs st" "r \<in> X"
  shows "moves X st (calc_dir_dep calc r st)"
  unfolding calc_dir_dep_def
proof (rule moves_bind_runs, goal_cases)
  case 1
  show ?case
    by (rule runs_mono [OF calc_opt_runs [OF c r(1) sym_okD(3) [OF readyD(1) [OF r(1,2)]]]]) simp
qed (simp add: evolves_set_deps r(3))

lemma rev_dep_moves:
  assumes c: "calc_ok m calc" and r: "ready m st" "r \<in> refs st" "r \<in> X"
  shows "moves X st (calc_rev_dep calc r st)"
  unfolding calc_rev_dep_def
proof (rule moves_bind_runs, goal_cases)
  case 1
  show ?case
    using sym_okD(4) [OF readyD(1) [OF r(1,2)]] expr_runs [OF c r(1)]
    by (auto simp: opt_in_def intro: runs_mono split: option.splits)
qed (simp add: evolves_set_deps r(3))

lemma visibility_moves:
  assumes c: "calc_ok m calc" and r: "ready m st" "r \<in> refs st" "r \<in> X \<or> sym_is_choice_value (syms st r)"
  shows "moves X st (sym_calc_visibility calc r st)"
  unfolding sym_calc_visibility_def
proof (rule moves_bind_runs, goal_cases)
  case 1
  show ?case
    by (rule runs_mono [OF prompts_runs [OF c r(1) sym_okD(1) [OF readyD(1) [OF r(1,2)]]]]) simp
next
  case (2 v st1)
  define st2 where "st2 = prompt_visible r v st1"
  have e2: "evolves X st1 st2" unfolding st2_def prompt_visible_def
    by (rule evolves_set_visible) (use r(3) same_shapeD(8) [OF evolves_shape [OF 2(2)]] in simp)
  note e = evolves_trans [OF 2(2) e2]
  note ok2 = ready_sym_ok [OF r(1,2) e]
  have "moves X st2 (calc_dir_dep calc r st2 \<bind> calc_rev_dep calc r)"
    if "\<not> sym_is_choice_value (syms st2 r)"
  proof -
    have rX: "r \<in> X" using r(3) that same_shapeD(8) [OF evolves_shape [OF e]] by simp
    show ?thesis
    proof (rule moves_bind_moves [OF dir_dep_moves [OF c ok2(1,3) rX]])
      fix st3 assume e3: "evolves X st2 st3"
      show "moves X st3 (calc_rev_dep calc r st3)"
        using ready_sym_ok [OF ok2(1,3) e3] by (intro rev_dep_moves [OF c _ _ rX])
    qed
  qed
  then have "moves X st2 (if sym_is_choice_value (syms st2 r) then Some st2
      else calc_dir_dep calc r st2 \<bind> calc_rev_dep calc r)" by simp
  then show ?case
    unfolding prod.case Let_def st2_def [symmetric] by (rule moves_step [OF e2])
qed

lemma expr_list_syms_subset: "set (expr_list_syms e) \<subseteq> expr_syms e"
  by (induction e rule: expr_list_syms.induct) auto

lemma choice_prop_ok:
  assumes "sym_ok st s" "sym_get_choice_prop s = Some p"
  shows "prop_ok st p" "set (members p) \<subseteq> refs st"
proof -
  show p: "prop_ok st p"
    using assms find_SomeD [of _ "s_props s" p] sym_okD(1) unfolding sym_get_choice_prop_def by blast
  then show "set (members p) \<subseteq> refs st"
    using expr_list_syms_subset by (fastforce simp: prop_ok_def opt_in_def members_def split: option.splits)
qed

lemma calc_members_runs:
  assumes "calc_ok m calc"
  shows "ready m st \<Longrightarrow> set ds \<subseteq> refs st \<Longrightarrow> \<forall>d \<in> set ds. sym_is_choice_value (syms st d) \<Longrightarrow>
    runs {} st (calc_members calc ds flags st)"
proof (induction ds arbitrary: st flags)
  case (Cons d ds)
  show ?case
    unfolding calc_members.simps
  proof (rule runs_bind_moves)
    show "moves {} st (sym_calc_visibility calc d st)"
      using Cons.prems by (intro visibility_moves [OF assms]) auto
    fix st' assume e: "evolves {} st st'"
    show "runs {} st' (calc_members calc ds
        (if s_visible (syms st' d) \<noteq> T_no then flags \<inter> s_flags (syms st' d) else flags) st')"
      using Cons.prems evolves_ready [OF e] evolvesD(5) [OF e] same_shapeD(8) [OF evolves_shape [OF e]]
      by (intro Cons.IH) auto
  qed
qed simp

lemma choice_default_runs:
  assumes c: "calc_ok m calc" and r: "ready m st" "r \<in> refs st" "sym_is_choice (syms st r)"
  shows "runs {} st (sym_choice_default calc r st)"
  unfolding sym_choice_default_def
proof (rule runs_bind_runs, goal_cases)
  case 1
  note ok = readyD(1) [OF r(1,2)]
  have "\<forall>p \<in> set (props_of P_DEFAULT (syms st r)). prop_ok st p \<and> prop_get_symbol p \<noteq> None"
    using sym_okD(2,5) [OF ok] r(3) unfolding choice_ok_def by blast
  then show ?case by (rule default_visible_runs [OF c r(1)])
next
  case (2 v st1)
  obtain p where "sym_get_choice_prop (syms st1 r) = Some p"
    using sym_okD(5) [OF readyD(1) [OF r(1,2)]] r(3) same_shapeD(9) [OF evolves_shape [OF 2(2)]]
    by (auto simp: choice_ok_def)
  then show ?case by (simp split: option.splits)
qed

lemma default_or_no_runs:
  assumes "calc_ok m calc" "ready m st" "r \<in> refs st" "sym_is_choice (syms st r)" "r \<in> X"
  shows "runs X st (default_or_no calc r st)"
  unfolding default_or_no_def
  by (rule runs_bind_runs [OF runs_mono [OF choice_default_runs [OF assms(1-4)]]])
    (auto intro: evolves_set_curr [OF assms(5)])

lemma evolves_clear_user:
  assumes "sym_is_choice (syms st r)"
  shows "evolves X st (clear_flags r ({SYMBOL_DEF_USER} - flags) st)"
  unfolding clear_flags_def
  by (rule evolves_upd) (use assms in \<open>auto simp: sym_step_defs\<close>)

lemma calc_choice_runs:
  assumes c: "calc_ok m calc" and r: "ready m st" "r \<in> refs st" "sym_is_choice (syms st r)" "r \<in> X"
  shows "runs X st (sym_calc_choice calc r st)"
proof -
  note ok = readyD(1) [OF r(1,2)]
  obtain p where p: "sym_get_choice_prop (syms st r) = Some p"
    "\<forall>d \<in> set (members p). sym_is_choice_value (syms st d)"
    using sym_okD(5) [OF ok r(3)] by (auto simp: choice_ok_def)
  show ?thesis
    unfolding sym_calc_choice_def p(1) Option.bind.simps
  proof (rule runs_bind_runs, goal_cases)
    case 1
    show ?case
      by (rule runs_mono [OF calc_members_runs [OF c r(1) choice_prop_ok(2) [OF ok p(1)] p(2)]]) simp
  next
    case (2 flags st1)
    define st2 where "st2 = clear_flags r ({SYMBOL_DEF_USER} - flags) st1"
    have ch: "sym_is_choice (syms st1 r)" using same_shapeD(7) [OF evolves_shape [OF 2(2)]] r(3) by simp
    then have e2: "evolves X st1 st2" unfolding st2_def by (rule evolves_clear_user)
    note e = evolves_trans [OF 2(2) e2]
    note ok2 = ready_sym_ok [OF r(1,2) e]
    have ch2: "sym_is_choice (syms st2 r)" using same_shapeD(7) [OF evolves_shape [OF e]] r(3) by simp
    obtain u where u: "user_choice (fst (s_user (syms st2 r))) = Some u"
      using sym_okD(5) [OF ok2(2) ch2] by (auto simp: choice_ok_def)
    have "runs X st2 (default_or_no calc r st2)" by (rule default_or_no_runs [OF c ok2(1,3) ch2 r(4)])
    then have "runs X st2 (do {
        def_sym \<leftarrow> user_choice (fst (s_user (syms st2 r)));
        case def_sym of
          Some d \<Rightarrow> if s_visible (syms st2 d) \<noteq> T_no then Some (Some d, st2) else default_or_no calc r st2
        | None \<Rightarrow> default_or_no calc r st2 })"
      using u by (simp split: option.splits)
    then show ?case
      unfolding prod.case Let_def st2_def [symmetric] by (rule runs_step [OF e2])
  qed
qed

text \<open>The values, and what follows them.\<close>

lemma default_prop_runs:
  assumes c: "calc_ok m calc" and r: "ready m st" "r \<in> refs st"
  shows "runs {} st (sym_get_default_prop calc r st)"
  unfolding sym_get_default_prop_def
  by (rule first_visible_runs [OF c r(1) sym_okD(2) [OF readyD(1) [OF r]]])

lemma default_prop_ok:
  assumes "sym_get_default_prop calc r st = Some (Some (p, tri), st')" "ready m st" "r \<in> refs st"
  shows "prop_ok st p"
proof -
  have "p \<in> set (props_of P_DEFAULT (syms st r))"
    using first_visible_mem assms(1) unfolding sym_get_default_prop_def by blast
  then show ?thesis using sym_okD(2) [OF readyD(1) [OF assms(2,3)]] by blast
qed

lemma tri_default_runs:
  assumes c: "calc_ok m calc" and r: "ready m st" "r \<in> refs st"
  shows "runs {} st (tri_default calc r st)"
proof -
  define st1 where "st1 = set_write (snd (s_rev_dep (syms st r)) \<noteq> T_no) r st"
  have e1: "evolves {} st st1" unfolding st1_def by (rule evolves_set_write)
  note ok1 = ready_sym_ok [OF r e1]
  have "runs {} st1 (do {
      (prop, st) \<leftarrow> sym_get_default_prop calc r st1;
      case prop of
        None \<Rightarrow> Some (T_no, st)
      | Some (p, tri) \<Rightarrow> calc_and calc (p_expr p) tri (set_write True r st) })"
  proof (rule runs_bind_runs [OF default_prop_runs [OF c ok1(1,3)]], goal_cases)
    case (1 v st2)
    show ?case
    proof (cases v)
      case (Some pt)
      obtain p tri where pt: "pt = (p, tri)" by fastforce
      define st3 where "st3 = set_write True r st2"
      have e3: "evolves {} st2 st3" unfolding st3_def by (rule evolves_set_write)
      note e = evolves_trans [OF 1(2) e3]
      have "opt_in st1 (p_expr p)"
        using default_prop_ok [OF _ ok1(1,3)] 1(1) Some pt by (auto simp: prop_ok_def)
      then have "runs {} st3 (calc_and calc (p_expr p) tri st3)"
        using calc_and_runs [OF c evolves_ready [OF e ok1(1)]] opt_in_evolves [OF e] by simp
      then show ?thesis
        using Some pt by (simp add: st3_def [symmetric] runs_step [OF e3])
    qed simp
  qed
  then have "runs {} st (do {
      (prop, st) \<leftarrow> sym_get_default_prop calc r st1;
      case prop of
        None \<Rightarrow> Some (T_no, st)
      | Some (p, tri) \<Rightarrow> calc_and calc (p_expr p) tri (set_write True r st) })"
    by (rule runs_step [OF e1])
  with e1 show ?thesis unfolding tri_default_def Let_def st1_def [symmetric] by simp
qed

lemma tri_value_runs:
  assumes c: "calc_ok m calc" and r: "ready m st" "r \<in> refs st"
  shows "runs {} st (tri_value calc r st)"
proof -
  define st1 where "st1 = set_write (s_visible (syms st r) \<noteq> T_no) r st"
  have e1: "evolves {} st st1" unfolding st1_def by (rule evolves_set_write)
  note ok1 = ready_sym_ok [OF r e1]
  have "runs {} st1 (if s_visible (syms st r) \<noteq> T_no \<and> sym_has_value (syms st r)
      then Some (EXPR_AND (snd (s_user (syms st r))) (s_visible (syms st r)), st1)
      else tri_default calc r st1)"
    using tri_default_runs [OF c ok1(1,3)] by simp
  then show ?thesis
    unfolding tri_value_def Let_def st1_def [symmetric]
    by (rule runs_step [OF e1 runs_bind_runs]) (simp add: evolves_warn)
qed

lemma member_value_Some:
  "member_ok (syms st r) \<Longrightarrow> \<exists>tri. member_value r st = Some tri \<and> tri \<noteq> T_mod"
  by (auto simp: member_ok_def member_value_def)

lemma prop_symbol_in:
  "prop_ok st p \<Longrightarrow> prop_get_symbol p = Some d \<Longrightarrow> d \<in> refs st"
  by (auto simp: prop_ok_def opt_in_def prop_get_symbol_def split: option.splits expr.splits)

lemma str_value_runs:
  assumes c: "calc_ok m calc" and r: "ready m st" "r \<in> refs st"
  shows "runs {} st (str_value calc r st)"
proof -
  define st1 where "st1 = set_write (s_visible (syms st r) \<noteq> T_no) r st"
  have e1: "evolves {} st st1" unfolding st1_def by (rule evolves_set_write)
  note ok1 = ready_sym_ok [OF r e1]
  have "runs {} st1 (do {
      (prop, st) \<leftarrow> sym_get_default_prop calc r st1;
      case Option.bind prop (\<lambda>(p, _). prop_get_symbol p) of
        None \<Rightarrow> Some (fst (s_curr symbol_empty), st)
      | Some ds \<Rightarrow> do {
          let st = set_write True r st;
          st \<leftarrow> calc ds st;
          Some (fst (s_curr (syms st ds)), st)
        } })"
  proof (rule runs_bind_runs [OF default_prop_runs [OF c ok1(1,3)]], goal_cases)
    case (1 v st2)
    show ?case
    proof (cases "Option.bind v (\<lambda>(p, _). prop_get_symbol p)")
      case (Some ds)
      then obtain p tri where p: "v = Some (p, tri)" "prop_get_symbol p = Some ds"
        by (auto simp: bind_eq_Some_conv)
      define st3 where "st3 = set_write True r st2"
      have e3: "evolves {} st2 st3" unfolding st3_def by (rule evolves_set_write)
      note e = evolves_trans [OF 1(2) e3]
      have "ds \<in> refs st1" using default_prop_ok [OF _ ok1(1,3)] 1(1) p prop_symbol_in by blast
      then have g: "moves {} st3 (calc ds st3)"
        using calc_moves [OF c evolves_ready [OF e ok1(1)]] evolvesD(5) [OF e] by simp
      have "runs {} st3 (do { st \<leftarrow> calc ds st3; Some (fst (s_curr (syms st ds)), st) })"
        by (rule runs_bind_moves [OF g]) simp
      then show ?thesis
        using Some by (simp add: Let_def st3_def [symmetric] runs_step [OF e3])
    qed simp
  qed
  then show ?thesis
    unfolding str_value_def Let_def st1_def [symmetric] using e1 by (auto intro: runs_step)
qed

lemma new_value_runs:
  assumes c: "calc_ok m calc" and r: "ready m st" "r \<in> refs st"
  shows "runs {} st (new_value calc r st)"
proof -
  have "runs {} st (if sym_is_choice_value (syms st r) \<and> s_visible (syms st r) = T_yes
      then do { tri \<leftarrow> member_value r st; Some (tri, st) } else tri_value calc r st)"
    using tri_value_runs [OF c r] member_value_Some [OF sym_okD(6) [OF readyD(1) [OF r]]] by fastforce
  then have "runs {} st (do {
      (tri, st) \<leftarrow> (if sym_is_choice_value (syms st r) \<and> s_visible (syms st r) = T_yes
        then do { tri \<leftarrow> member_value r st; Some (tri, st) } else tri_value calc r st);
      Some ((fst (s_curr symbol_no), mod_to_yes r tri st), st) })"
    by (rule runs_bind_runs) simp
  moreover have "runs {} st (do {
      (v, st) \<leftarrow> str_value calc r st; Some ((v, snd (s_curr symbol_empty)), st) })"
    by (rule runs_bind_runs [OF str_value_runs [OF c r]]) simp
  ultimately show ?thesis by (simp add: new_value_def)
qed

lemma choose_value_moves:
  assumes c: "calc_ok m calc" and r: "ready m st" "r \<in> refs st" "r \<in> X"
  shows "moves X st (choose_value calc r tri st)"
proof (cases "sym_is_choice (syms st r) \<and> tri = T_yes")
  case True
  then have "runs X st (sym_calc_choice calc r st)" using calc_choice_runs [OF c r(1,2) _ r(3)] by simp
  then have "moves X st (do { (d, st) \<leftarrow> sym_calc_choice calc r st; Some (set_curr_val r (opt_sval d) st) })"
    by (rule moves_bind_runs) (simp add: evolves_set_curr_val r(3))
  with True show ?thesis by (simp add: choose_value_def)
qed (auto simp: choose_value_def)

lemma mark_members_moves:
  assumes "ready m st" "r \<in> refs st"
  shows "moves {} st (mark_members r st)"
proof (cases "sym_is_choice (syms st r)")
  case True
  then obtain p where "sym_get_choice_prop (syms st r) = Some p"
    using sym_okD(5) [OF readyD(1) [OF assms]] by (auto simp: choice_ok_def)
  then show ?thesis by (simp add: mark_members_def evolves_fold evolves_mark_member)
qed (simp add: mark_members_def)

lemma user_tri_no_other: "r \<noteq> d \<Longrightarrow> syms (user_tri_no d st) r = syms st r"
  by (simp add: user_tri_no_def)

lemma evolves_fold_user_tri:
  "\<forall>d \<in> set ds. sym_is_choice_value (syms st d) \<Longrightarrow> evolves X st (fold user_tri_no ds st)"
proof (induction ds arbitrary: st)
  case (Cons d ds)
  have e: "evolves X st (user_tri_no d st)" using Cons.prems by (intro evolves_user_tri) simp
  have "evolves X (user_tri_no d st) (fold user_tri_no ds (user_tri_no d st))"
    using Cons.prems same_shapeD(8) [OF evolves_shape [OF e]] by (intro Cons.IH) auto
  with e show ?case using evolves_trans by simp
qed simp

lemma fold_user_tri_flags: "s_flags (syms (fold user_tri_no ds st) r) = s_flags (syms st r)"
  by (induction ds arbitrary: st) (simp_all add: user_tri_no_def)

lemma member_prop_members: "prop_get_symbol p = Some c \<Longrightarrow> members p = []"
  by (auto simp: prop_get_symbol_def members_def split: option.splits expr.splits)

lemma set_all_choice_moves:
  assumes r: "ready m st" "r \<in> refs st" "r \<in> X" and need: "SYMBOL_NEED_SET_CHOICE_VALUES \<in> s_flags (syms st r)"
  shows "moves X st (set_all_choice_values r st)"
proof -
  note ok = readyD(1) [OF r(1,2)]
  note k = sym_okD(7) [OF ok need]
  obtain p where p: "sym_get_choice_prop (syms st r) = Some p"
    "\<forall>d \<in> set (members p). sym_is_choice_value (syms st d)"
    using k sym_okD(5,6) [OF ok] member_prop_members unfolding choice_ok_def member_ok_def
    by (metis empty_iff list.set(1))
  define st1 where "st1 = fold user_tri_no (members p) st"
  have e1: "evolves X st st1" unfolding st1_def by (rule evolves_fold_user_tri [OF p(2)])
  have "evolves X st1 (clear_flags r {SYMBOL_VALID, SYMBOL_NEED_SET_CHOICE_VALUES}
      (set_flags r {SYMBOL_DEF_USER} st1))"
  proof (rule clear_need [OF r(3)])
    show "SYMBOL_NEED_SET_CHOICE_VALUES \<in> s_flags (syms st1 r)"
      using need by (simp add: st1_def fold_user_tri_flags)
    show "sym_is_choice (syms st1 r) \<or> sym_is_choice_value (syms st1 r)"
      using k same_shapeD(7,8) [OF evolves_shape [OF e1]] by simp
  qed
  then show ?thesis
    using p(1) evolves_trans [OF e1] by (simp add: set_all_choice_values_def st1_def [symmetric] Let_def)
qed

lemma finish_value_moves:
  assumes c: "calc_ok m calc" and r: "ready m st" "r \<in> refs st"
  shows "moves {r} st (finish_value calc r oldval newval st)"
proof -
  define st1 where "st1 = set_curr r newval st"
  have e1: "evolves {r} st st1" unfolding st1_def by (rule evolves_set_curr) simp
  note ok1 = ready_sym_ok [OF r e1]
  let ?rest = "\<lambda>st. do {
     let st = note_change oldval r st;
     st \<leftarrow> mark_members r st;
     let st = (if SYMBOL_AUTO \<in> s_flags (syms st r) then clear_flags r {SYMBOL_WRITE} st else st);
     if SYMBOL_NEED_SET_CHOICE_VALUES \<in> s_flags (syms st r) then set_all_choice_values r st else Some st
   }"
  have rest: "moves {r} st (?rest st)" if r: "ready m st" "r \<in> refs st" for st
  proof -
    note e = evolves_note_change [of "{r}" st oldval r]
    note ok = ready_sym_ok [OF r e]
    have "moves {r} (note_change oldval r st) (do {
       st \<leftarrow> mark_members r (note_change oldval r st);
       let st = (if SYMBOL_AUTO \<in> s_flags (syms st r) then clear_flags r {SYMBOL_WRITE} st else st);
       if SYMBOL_NEED_SET_CHOICE_VALUES \<in> s_flags (syms st r) then set_all_choice_values r st else Some st })"
    proof (rule moves_bind_moves [OF moves_mono [OF mark_members_moves [OF ok(1,3)]]], simp, goal_cases)
      case (1 st4)
      define st5 where
        "st5 = (if SYMBOL_AUTO \<in> s_flags (syms st4 r) then clear_flags r {SYMBOL_WRITE} st4 else st4)"
      have e5: "evolves {r} st4 st5" by (simp add: st5_def evolves_clear_flags)
      note ok5 = ready_sym_ok [OF ok(1,3) evolves_trans [OF 1(2) e5]]
      have "moves {r} st5 (if SYMBOL_NEED_SET_CHOICE_VALUES \<in> s_flags (syms st5 r)
          then set_all_choice_values r st5 else Some st5)"
        using set_all_choice_moves [OF ok5(1,3)] by simp
      then show ?case
        unfolding Let_def st5_def [symmetric] by (rule moves_step [OF e5])
    qed
    then show ?thesis unfolding Let_def by (rule moves_step [OF e])
  qed
  have "moves {r} st1 (do {
      st \<leftarrow> choose_value calc r (snd newval) st1;
      st \<leftarrow> sym_validate_range calc r st;
      ?rest st })"
  proof (rule moves_bind_moves [OF choose_value_moves [OF c ok1(1,3)]], simp, goal_cases)
    case (1 st2)
    note ok2 = ready_sym_ok [OF ok1(1,3) 1(2)]
    show ?case
    proof (rule moves_bind_moves [OF validate_range_moves [OF c ok2(1,3)]], simp, goal_cases)
      case (1 st3)
      note ok3 = ready_sym_ok [OF ok2(1,3) 1(2)]
      show ?case by (rule rest [OF ok3(1,3)])
    qed
  qed
  then show ?thesis
    unfolding finish_value_def Let_def st1_def [symmetric] by (rule moves_step [OF e1])
qed

lemma calc_valued_moves:
  assumes c: "calc_ok m calc" and r: "ready m st" "r \<in> refs st"
  shows "moves {r} st (calc_valued calc r oldval newval st)"
proof -
  define st1 where
    "st1 = (if sym_is_choice_value (syms st r) then st else clear_flags r {SYMBOL_WRITE} st)"
  have e1: "evolves {r} st st1" by (simp add: st1_def evolves_clear_flags)
  note ok1 = ready_sym_ok [OF r e1]
  have "moves {r} st1 (do {
      st \<leftarrow> sym_calc_visibility calc r st1;
      let st = set_curr r newval st;
      (newval, st) \<leftarrow> new_value calc r st;
      finish_value calc r oldval newval st })"
  proof (rule moves_bind_moves [OF visibility_moves [OF c ok1(1,3)]], simp, goal_cases)
    case (1 st2)
    define st3 where "st3 = set_curr r newval st2"
    have e3: "evolves {r} st2 st3" unfolding st3_def by (rule evolves_set_curr) simp
    note ok3 = ready_sym_ok [OF ok1(1,3) evolves_trans [OF 1(2) e3]]
    have "moves {r} st3 (do { (newval, st) \<leftarrow> new_value calc r st3; finish_value calc r oldval newval st })"
    proof (rule moves_bind_runs [OF runs_mono [OF new_value_runs [OF c ok3(1,3)]]], simp, goal_cases)
      case (1 v st4)
      note ok4 = ready_sym_ok [OF ok3(1,3) 1(2)]
      show ?case unfolding prod.case by (rule finish_value_moves [OF c ok4(1,3)])
    qed
    then show ?case unfolding Let_def st3_def [symmetric] by (rule moves_step [OF e3])
  qed
  then show ?thesis
    unfolding calc_valued_def Let_def st1_def [symmetric] by (rule moves_step [OF e1])
qed

text \<open>A nested call has less to do.\<close>

lemma todo_less:
  assumes "evolves X st st'" "r \<in> refs st" "cost (syms st' r) < cost (syms st r)"
  shows "todo st' < todo st"
  unfolding todo_def evolvesD(5) [OF assms(1)]
  by (rule sum_strict_mono_ex1) (use assms evolves_cost [OF assms(1)] in auto)

lemma ready_less:
  assumes "evolves X st st'" "r \<in> refs st" "cost (syms st' r) < cost (syms st r)" "ready (Suc m) st"
  shows "ready m st'"
  using todo_less [OF assms(1-3)] evolves_wf [OF assms(1)] assms(4) by (simp add: ready_def)

lemma calc_choice_first_moves:
  assumes c: "calc_ok m calc" and r: "ready (Suc m) st" "r \<in> refs st"
  shows "moves {} st (calc_choice_first calc r st)"
proof (cases "sym_is_choice_value (syms st r) \<and> SYMBOL_NEED_SET_CHOICE_VALUES \<in> s_flags (syms st r)")
  case True
  define st1 where "st1 = clear_flags r {SYMBOL_NEED_SET_CHOICE_VALUES} st"
  have e1: "evolves {} st st1" unfolding st1_def by (rule evolves_clear_flags) simp
  note ok1 = ready_sym_ok [OF r e1]
  have r1: "ready m st1"
    by (rule ready_less [OF e1 r(2) _ r(1)]) (use True in \<open>simp add: st1_def clear_flags_def cost_def\<close>)
  obtain p d where p: "sym_get_choice_prop (syms st1 r) = Some p" "prop_get_symbol p = Some d"
    using sym_okD(6) [OF ok1(2)] same_shapeD(8) [OF evolves_shape [OF e1]] True
    unfolding member_ok_def by blast
  have "moves {} st1 (calc d st1)"
    using calc_moves [OF c r1] prop_symbol_in [OF choice_prop_ok(1) [OF ok1(2) p(1)] p(2)] .
  then have "moves {} st (calc d st1)" by (rule moves_step [OF e1])
  with True p show ?thesis
    by (simp add: calc_choice_first_def Let_def st1_def [symmetric])
qed (auto simp: calc_choice_first_def)

lemma evolves_not_busy:
  assumes "evolves {r} st st'" "SYMBOL_VALID \<notin> s_flags (syms st r)"
  shows "evolves {} st st'"
  using assms by (auto simp: evolves_def sym_step_def)

lemma calc_marked_moves:
  assumes c: "calc_ok m calc" and r: "ready m st" "r \<in> refs st"
  shows "moves {r} st (calc_marked calc r st)"
  using calc_valued_moves [OF c r] by (simp add: calc_marked_def Let_def evolves_set_curr split: option.splits)

text \<open>
  The two parts of a calculation: what happens before \<open>SYMBOL_VALID\<close> is set leaves less to do, and what
  happens after it keeps the flag, unless it is a choice whose members are set.
\<close>

lemma calc_body_parts:
  assumes c: "calc_ok m calc" and r: "ready (Suc m) st" "r \<in> refs st"
    and v: "SYMBOL_VALID \<notin> s_flags (syms st r)"
  obtains st1 st2 st' where "calc_choice_first calc r st = Some st1" "st2 = set_flags r {SYMBOL_VALID} st1"
    "evolves {} st st2" "ready m st2" "r \<in> refs st2"
    "calc_marked calc r st2 = Some st'" "calc_body calc r st = Some st'" "evolves {r} st2 st'"
    "evolves {} st st'"
proof -
  obtain st1 where 1: "calc_choice_first calc r st = Some st1" "evolves {} st st1"
    by (rule movesE [OF calc_choice_first_moves [OF c r]])
  define st2 where "st2 = set_flags r {SYMBOL_VALID} st1"
  have e2: "evolves {} st1 st2" unfolding st2_def by (rule evolves_set_flags) simp
  note e = evolves_trans [OF 1(2) e2]
  note ok2 = ready_sym_ok [OF r e]
  have "cost (syms st2 r) < cost (syms st r)"
  proof -
    have "SYMBOL_NEED_SET_CHOICE_VALUES \<in> s_flags (syms st2 r) \<Longrightarrow>
        SYMBOL_NEED_SET_CHOICE_VALUES \<in> s_flags (syms st r)"
      using evolvesD(4) [OF e, of r] by (simp add: sym_step_def)
    with v show ?thesis by (auto simp: st2_def set_flags_def cost_def)
  qed
  then have r2: "ready m st2" by (rule ready_less [OF e r(2) _ r(1)])
  obtain st' where 3: "calc_marked calc r st2 = Some st'" "evolves {r} st2 st'"
    by (rule movesE [OF calc_marked_moves [OF c r2 ok2(3)]])
  have b: "calc_body calc r st = Some st'" using 1 3 by (simp add: calc_body_def st2_def)
  have "evolves {r} st st'" using evolves_trans [OF evolves_mono [OF e] 3(2)] by simp
  then have "evolves {} st st'" by (rule evolves_not_busy [OF _ v])
  with 1 3 b e r2 ok2 st2_def show ?thesis by (intro that)
qed

lemma calc_body_moves:
  assumes "calc_ok m calc" "ready (Suc m) st" "r \<in> refs st" "SYMBOL_VALID \<notin> s_flags (syms st r)"
  shows "moves {} st (calc_body calc r st)"
  by (rule calc_body_parts [OF assms]) simp

lemma need_cleared:
  assumes "calc_choice_first calc r st = Some st1" "calc_ok m calc" "ready (Suc m) st" "r \<in> refs st"
    and "SYMBOL_NEED_SET_CHOICE_VALUES \<in> s_flags (syms st r) \<longrightarrow> sym_is_choice_value (syms st r)"
  shows "SYMBOL_NEED_SET_CHOICE_VALUES \<notin> s_flags (syms st1 r)"
proof (cases "SYMBOL_NEED_SET_CHOICE_VALUES \<in> s_flags (syms st r)")
  case False
  then have "st1 = st" using assms(1) by (auto simp: calc_choice_first_def split: if_splits)
  with False show ?thesis by simp
next
  case True
  define st0 where "st0 = clear_flags r {SYMBOL_NEED_SET_CHOICE_VALUES} st"
  have e0: "evolves {} st st0" unfolding st0_def by (rule evolves_clear_flags) simp
  note ok0 = ready_sym_ok [OF assms(3,4) e0]
  have r0: "ready m st0"
    by (rule ready_less [OF e0 assms(4) _ assms(3)]) (use True in \<open>simp add: st0_def clear_flags_def cost_def\<close>)
  have n: "SYMBOL_NEED_SET_CHOICE_VALUES \<notin> s_flags (syms st0 r)" by (simp add: st0_def clear_flags_def)
  obtain p d where p: "sym_get_choice_prop (syms st0 r) = Some p" "prop_get_symbol p = Some d"
    using sym_okD(6) [OF ok0(2)] same_shapeD(8) [OF evolves_shape [OF e0]] True assms(5)
    unfolding member_ok_def by blast
  have "calc d st0 = Some st1"
    using assms(1,5) True p by (simp add: calc_choice_first_def Let_def st0_def [symmetric])
  moreover have "moves {} st0 (calc d st0)"
    using calc_moves [OF assms(2) r0] prop_symbol_in [OF choice_prop_ok(1) [OF ok0(2) p(1)] p(2)] .
  ultimately have "evolves {} st0 st1" by simp
  with n show ?thesis using evolvesD(4) [of "{}" st0 st1 r] by (auto simp: sym_step_def)
qed

lemma valid_cost: "SYMBOL_VALID \<notin> s_flags s \<Longrightarrow> 0 < cost s"
  by (simp add: cost_def)

lemma todo_pos: "r \<in> refs st \<Longrightarrow> SYMBOL_VALID \<notin> s_flags (syms st r) \<Longrightarrow> 0 < todo st"
  unfolding todo_def using valid_cost by (metis finite_refs gr_zeroI not_less_zero sum_eq_0_iff)

lemma calc_fuel_ok: "calc_ok m (calc_fuel m)"
proof (induction m)
  case 0
  show ?case using todo_pos by (fastforce simp: calc_ok_def ready_def)
next
  case (Suc m)
  then show ?case using calc_body_moves by (simp add: calc_ok_def)
qed

lemma card_refs: "card (refs st) = next_id st + 4"
proof -
  have "card (SymId ` {..<next_id st}) = next_id st" by (simp add: card_image inj_on_def)
  moreover have "{SymYes, SymMod, SymNo, SymEmpty} \<inter> SymId ` {..<next_id st} = {}" by auto
  ultimately show ?thesis by (simp add: refs_def card_Un_disjoint)
qed

lemma todo_bound: "todo st < calc_depth st"
proof -
  have "todo st \<le> (\<Sum>r \<in> refs st. 3)"
    unfolding todo_def by (rule sum_mono) (simp add: cost_def)
  then show ?thesis by (simp add: card_refs calc_depth_def)
qed

lemma calc_value_ok: "calc_ok m sym_calc_value"
proof -
  have "moves {} st (sym_calc_value r st)" if "wf_symtab st" "r \<in> refs st" for st r
    unfolding sym_calc_value_def
    by (rule calc_moves [OF calc_fuel_ok]) (use that todo_bound [of st] in \<open>simp_all add: ready_def\<close>)
  then show ?thesis by (simp add: calc_ok_def ready_def)
qed

lemma calc_value_moves: "wf_symtab st \<Longrightarrow> r \<in> refs st \<Longrightarrow> moves {} st (sym_calc_value r st)"
  using calc_moves [OF calc_value_ok, of "todo st" st r] by (simp add: ready_def)

text \<open>\<open>sym_calc_value\<close> as its body, for a symbol that is not yet calculated.\<close>

lemma calc_value_body:
  assumes "SYMBOL_VALID \<notin> s_flags (syms st r)"
  obtains m where "sym_calc_value r st = calc_body (calc_fuel m) r st" "calc_depth st = Suc m"
  by (rule that [of "3 * (next_id st + 4)"])
    (simp_all only: sym_calc_value_def calc_depth_def calc_fuel.simps assms if_False)

lemma calc_fuel_done: "SYMBOL_VALID \<in> s_flags (syms st r) \<Longrightarrow> calc_fuel n r st = Some st"
  by (cases n) simp_all

lemma calc_value_valid: "SYMBOL_VALID \<in> s_flags (syms st r) \<Longrightarrow> sym_calc_value r st = Some st"
  by (simp add: sym_calc_value_def calc_fuel_done)

lemma marked_valid:
  assumes "evolves {r} st2 st'" "SYMBOL_VALID \<in> s_flags (syms st2 r)"
    "SYMBOL_NEED_SET_CHOICE_VALUES \<notin> s_flags (syms st2 r)"
  shows "SYMBOL_VALID \<in> s_flags (syms st' r)"
  using evolvesD(4) [OF assms(1), of r] assms(2,3) by (simp add: sym_step_def)

lemma calc_fuel_valid:
  assumes "ready m st" "r \<in> refs st" "calc_fuel m r st = Some st'"
    and need: "SYMBOL_NEED_SET_CHOICE_VALUES \<in> s_flags (syms st r) \<longrightarrow> sym_is_choice_value (syms st r)"
  shows "SYMBOL_VALID \<in> s_flags (syms st' r)"
proof (cases "SYMBOL_VALID \<in> s_flags (syms st r)")
  case True
  with assms(3) show ?thesis by (cases m) simp_all
next
  case False
  then obtain n where m: "m = Suc n" using assms(3) by (cases m) simp_all
  with assms False have b: "calc_body (calc_fuel n) r st = Some st'" "ready (Suc n) st" by simp_all
  obtain st1 st2 st'' where p: "calc_choice_first (calc_fuel n) r st = Some st1"
    "st2 = set_flags r {SYMBOL_VALID} st1" "calc_body (calc_fuel n) r st = Some st''" "evolves {r} st2 st''"
    by (rule calc_body_parts [OF calc_fuel_ok b(2) assms(2) False])
  show ?thesis
    using marked_valid [OF p(4)] need_cleared [OF p(1) calc_fuel_ok b(2) assms(2) need] p b
    by (simp add: set_flags_def)
qed

section \<open>A small table\<close>

text \<open>A boolean symbol with a user value, and an integer with a range and a user value outside of it.\<close>

definition sample_property :: "prop_type \<Rightarrow> cstring option \<Rightarrow> expr option \<Rightarrow> property" where
  "sample_property t txt e = \<lparr>p_type = t, p_text = txt, p_visible = None, p_expr = e, p_menu = None,
     p_pos = ([], 0)\<rparr>"

definition sample_const :: "cstring \<Rightarrow> symbol" where
  "sample_const n = blank_symbol\<lparr>s_name := Some n, s_flags := {SYMBOL_CONST}\<rparr>"

definition sample_symtab :: symtab where
  "sample_symtab = empty_symtab\<lparr>
     syms := static_symbol
       (SymId 5 := blank_symbol\<lparr>s_name := Some ''FOO'', s_type := S_BOOLEAN, s_user := (V_NULL, T_yes),
          s_flags := {SYMBOL_DEF_USER}, s_props := [sample_property P_PROMPT (Some ''foo'') None]\<rparr>,
        SymId 6 := blank_symbol\<lparr>s_name := Some ''BAR'', s_type := S_INT, s_user := (V_str ''99'', T_no),
          s_flags := {SYMBOL_DEF_USER}, s_props := [sample_property P_PROMPT (Some ''bar'') None,
            sample_property P_RANGE None (Some (ERange (SymId 7) (SymId 8)))]\<rparr>,
        SymId 7 := sample_const ''1'', SymId 8 := sample_const ''10''),
     next_id := 9, modules_sym := Some SymNo\<rparr>"

lemma sample_wf: "wf_symtab sample_symtab"
proof -
  have "refs sample_symtab = {SymYes, SymMod, SymNo, SymEmpty} \<union> SymId ` {..<9}"
    by (simp add: refs_def sample_symtab_def)
  then show ?thesis
    by (auto simp: wf_symtab_def sym_ok_def sample_symtab_def blank_symbol_def symbol_yes_def
        symbol_mod_def symbol_no_def symbol_empty_def sym_is_choice_def sym_is_choice_value_def
        opt_in_def prop_ok_def sample_property_def sample_const_def range_syms_def)
qed

section \<open>Properties\<close>

text \<open>
  C30: for a symbol of a table as the parser builds it, \<open>sym_calc_value\<close> ends: the depth of
  the recursion is never used up, however symbols depend on each other, no property or expression it needs is
  missing, and the table stays well-formed with the same symbols. The symbol is calculated then, unless it is a choice whose
  members were just set. That the texts it reads are no NULL is not part of this (\<open>sval_string\<close>).
\<close>

theorem sym_calc_value_total:
  assumes "wf_symtab st" "r \<in> refs st"
  shows "\<exists>st'. sym_calc_value r st = Some st' \<and> wf_symtab st' \<and> refs st' = refs st \<and>
    (SYMBOL_NEED_SET_CHOICE_VALUES \<notin> s_flags (syms st r) \<longrightarrow> SYMBOL_VALID \<in> s_flags (syms st' r))"
proof -
  obtain st' where st': "sym_calc_value r st = Some st'" "evolves {} st st'"
    by (rule movesE [OF calc_value_moves [OF assms]])
  have "ready (calc_depth st) st" using assms(1) todo_bound [of st] by (simp add: ready_def)
  then have "SYMBOL_VALID \<in> s_flags (syms st' r)"
    if "SYMBOL_NEED_SET_CHOICE_VALUES \<notin> s_flags (syms st r)"
    using calc_fuel_valid [OF _ assms(2)] st'(1) that by (auto simp: sym_calc_value_def)
  with st' evolves_wf [OF st'(2) assms(1)] evolvesD(5) [OF st'(2)] show ?thesis by blast
qed

theorem sym_calc_value_total_witness:
  "\<exists>st'. sym_calc_value (SymId 6) sample_symtab = Some st' \<and> SYMBOL_VALID \<in> s_flags (syms st' (SymId 6))"
proof -
  have "SymId 6 \<in> refs sample_symtab" by (simp add: refs_def sample_symtab_def)
  moreover have "SYMBOL_NEED_SET_CHOICE_VALUES \<notin> s_flags (syms sample_symtab (SymId 6))"
    by (simp add: sample_symtab_def)
  ultimately show ?thesis using sym_calc_value_total [OF sample_wf] by blast
qed

text \<open>
  C31: a value is calculated once: \<open>sym_calc_value\<close> of any symbol leaves every symbol that is already
  calculated with its value, its dependencies and its flag, so a later calculation of it changes
  nothing.
\<close>

theorem calculated_values_stay:
  assumes "wf_symtab st" "r \<in> refs st" "sym_calc_value r st = Some st'"
    and "SYMBOL_VALID \<in> s_flags (syms st q)"
  shows "s_curr (syms st' q) = s_curr (syms st q) \<and> s_rev_dep (syms st' q) = s_rev_dep (syms st q) \<and>
    s_dir_dep (syms st' q) = s_dir_dep (syms st q) \<and> sym_calc_value q st' = Some st'"
proof -
  have e: "evolves {} st st'" using calc_value_moves [OF assms(1,2)] assms(3) by simp
  have "same_value (syms st q) (syms st' q)" "SYMBOL_VALID \<in> s_flags (syms st' q)"
    using evolvesD(4) [OF e, of q] assms(4) by (simp_all add: sym_step_def)
  then show ?thesis using calc_value_valid by (simp add: same_value_def)
qed

theorem calculated_values_stay_witness:
  "\<exists>st'. sym_calc_value (SymId 6) sample_symtab = Some st' \<and> s_curr (syms st' SymMod) = (V_str ''m'', T_mod)"
proof -
  have r: "SymId 6 \<in> refs sample_symtab" by (simp add: refs_def sample_symtab_def)
  obtain st' where st': "sym_calc_value (SymId 6) sample_symtab = Some st'"
    by (rule movesE [OF calc_value_moves [OF sample_wf r]])
  have "SYMBOL_VALID \<in> s_flags (syms sample_symtab SymMod)"
    "s_curr (syms sample_symtab SymMod) = (V_str ''m'', T_mod)"
    by (simp_all add: sample_symtab_def symbol_mod_def)
  then show ?thesis using calculated_values_stay [OF sample_wf r st'] st' by auto
qed

end
