(* ===== verification/Kvalue.thy ===== *)
theory Kvalue
  imports Kcalc
begin

text \<open>
  What \<open>sym_calc_value\<close> calculates: the value of an ordinary boolean or tristate symbol from the user's
  value and the reverse dependency, and the value of a number inside its range.
\<close>

section \<open>The calculated value\<close>

text \<open>What an evolution keeps of an ordinary symbol: one that is neither a choice nor a member.\<close>

definition ordinary :: "symbol \<Rightarrow> bool" where
  "ordinary s \<longleftrightarrow> \<not> sym_is_choice s \<and> \<not> sym_is_choice_value s"

lemma ordinary_evolves: "evolves X st st' \<Longrightarrow> ordinary (syms st' r) = ordinary (syms st r)"
  using same_shapeD(7,8) [OF evolves_shape] by (simp add: ordinary_def)

lemma ordinary_user:
  assumes "evolves X st st'" "ordinary (syms st r)"
  shows "s_user (syms st' r) = s_user (syms st r)" "sym_has_value (syms st' r) = sym_has_value (syms st r)"
  using evolvesD(4) [OF assms(1), of r] assms(2) by (simp_all add: sym_step_def same_user_def ordinary_def)

lemma ordinary_need:
  assumes "sym_ok st (syms st r)" "ordinary (syms st r)"
  shows "SYMBOL_NEED_SET_CHOICE_VALUES \<notin> s_flags (syms st r)"
  using sym_okD(7) [OF assms(1)] assms(2) by (auto simp: ordinary_def)

text \<open>A calculated symbol keeps value and limits, and the user's value.\<close>

definition settled :: "symbol \<Rightarrow> symbol \<Rightarrow> bool" where
  "settled s s' \<longleftrightarrow> s_curr s' = s_curr s \<and> s_visible s' = s_visible s \<and> s_dir_dep s' = s_dir_dep s \<and>
     s_rev_dep s' = s_rev_dep s \<and> s_user s' = s_user s \<and> sym_has_value s' = sym_has_value s \<and>
     s_type s' = s_type s \<and> s_props s' = s_props s"

lemma settled_refl [simp]: "settled s s"
  by (simp add: settled_def)

lemma settled_trans: "settled a b \<Longrightarrow> settled b c \<Longrightarrow> settled a c"
  by (simp add: settled_def)

lemma evolves_settled:
  assumes "evolves {} st st'" "SYMBOL_VALID \<in> s_flags (syms st r)" "ordinary (syms st r)"
  shows "settled (syms st r) (syms st' r)" "SYMBOL_VALID \<in> s_flags (syms st' r)"
  using evolvesD(4) [OF assms(1), of r] assms(2,3) ordinary_user [OF assms(1,3)]
    same_shapeD(2,3) [OF evolves_shape [OF assms(1)]]
  by (simp_all add: settled_def sym_step_def same_value_def ordinary_def)

text \<open>Changes of flags and of lists beside the symbols.\<close>

lemma flags_settled:
  "SYMBOL_DEF_USER \<notin> fs \<Longrightarrow> settled (syms st r) (syms (set_flags q fs st) r)"
  "SYMBOL_DEF_USER \<notin> fs \<Longrightarrow> settled (syms st r) (syms (clear_flags q fs st) r)"
  by (auto simp: settled_def set_flags_def clear_flags_def sym_has_value_def)

lemma set_changed_settled: "settled (syms st r) (syms (sym_set_changed q st) r)"
  using flags_settled(1) [of "{SYMBOL_CHANGED}"] by (simp add: sym_set_changed_def Let_def)

lemma fold_settled:
  assumes "\<And>x st. settled (syms st r) (syms (f x st) r)"
  shows "settled (syms st r) (syms (fold f xs st) r)"
proof (induction xs arbitrary: st)
  case (Cons x xs)
  show ?case using settled_trans [OF assms Cons.IH] by simp
qed simp

lemma set_all_changed_settled: "settled (syms st r) (syms (sym_set_all_changed st) r)"
  unfolding sym_set_all_changed_def by (rule fold_settled) (rule set_changed_settled)

lemma note_change_settled:
  "settled (syms st r) (syms (note_change old q st) r)"
  "modules_sym st \<noteq> Some q \<Longrightarrow> modules_val (note_change old q st) = modules_val st"
proof -
  have "settled (syms st r) (syms (sym_set_all_changed (sym_set_changed q st)) r)"
    by (rule settled_trans [OF set_changed_settled set_all_changed_settled])
  then show "settled (syms st r) (syms (note_change old q st) r)"
    using set_changed_settled by (simp add: note_change_def Let_def)
  show "modules_val (note_change old q st) = modules_val st" if "modules_sym st \<noteq> Some q"
    using that by (simp add: note_change_def Let_def sym_set_changed_def set_flags_def)
qed

lemma set_write_settled: "settled (syms st r) (syms (set_write b q st) r)"
  using flags_settled(1) [of "{SYMBOL_WRITE}"] by (simp add: set_write_def)

lemma warn_syms [simp]: "syms (warn_unmet r st) = syms st"
  by (simp add: warn_unmet_def)

text \<open>The end of the calculation of an ordinary symbol.\<close>

lemma curr_settled:
  "settled (s\<lparr>s_curr := v\<rparr>) s' \<Longrightarrow>
     s_curr s' = v \<and> s_visible s' = s_visible s \<and> s_rev_dep s' = s_rev_dep s \<and> s_user s' = s_user s \<and>
     sym_has_value s' = sym_has_value s"
  by (simp add: settled_def sym_has_value_def)

lemma no_choice_end:
  assumes "ordinary (syms st r)" "SYMBOL_NEED_SET_CHOICE_VALUES \<notin> s_flags (syms st r)"
  shows "\<exists>st'. (do {
      st \<leftarrow> mark_members r (note_change old r st);
      let st = (if SYMBOL_AUTO \<in> s_flags (syms st r) then clear_flags r {SYMBOL_WRITE} st else st);
      if SYMBOL_NEED_SET_CHOICE_VALUES \<in> s_flags (syms st r) then set_all_choice_values r st else Some st
    }) = Some st' \<and> (\<forall>x. settled (syms st x) (syms st' x)) \<and>
    (modules_sym st \<noteq> Some r \<longrightarrow> modules_val st' = modules_val st) \<and> evolves {} st st'"
proof -
  define st1 where "st1 = note_change old r st"
  define st2 where
    "st2 = (if SYMBOL_AUTO \<in> s_flags (syms st1 r) then clear_flags r {SYMBOL_WRITE} st1 else st1)"
  have e1: "evolves {} st st1" unfolding st1_def by (rule evolves_note_change)
  have e2: "evolves {} st1 st2" by (simp add: st2_def evolves_clear_flags)
  have "SYMBOL_NEED_SET_CHOICE_VALUES \<notin> s_flags (syms st2 r)"
    using assms(2) evolvesD(4) [OF evolves_trans [OF e1 e2], of r] by (auto simp: sym_step_def)
  moreover have "mark_members r st1 = Some st1"
    using assms(1) ordinary_evolves [OF e1, of r] by (auto simp: mark_members_def ordinary_def)
  moreover have "\<forall>x. settled (syms st x) (syms st2 x)"
  proof
    fix x
    have "settled (syms st1 x) (syms st2 x)"
      using flags_settled(2) [of "{SYMBOL_WRITE}" st1 x r] by (simp add: st2_def del: syms_upd)
    with note_change_settled(1) [of st x old r] show "settled (syms st x) (syms st2 x)"
      unfolding st1_def by (rule settled_trans)
  qed
  moreover have "modules_sym st \<noteq> Some r \<longrightarrow> modules_val st2 = modules_val st"
    using note_change_settled(2) by (simp add: st2_def st1_def clear_flags_def)
  ultimately show ?thesis
    using evolves_trans [OF e1 e2] by (simp add: st1_def [symmetric] st2_def [symmetric])
qed

lemma finish_tri:
  assumes "ordinary (syms st r)" "SYMBOL_NEED_SET_CHOICE_VALUES \<notin> s_flags (syms st r)"
    and "is_tri (s_type (syms st r))" "finish_value calc r old new st = Some st'"
  shows "settled ((syms st r)\<lparr>s_curr := new\<rparr>) (syms st' r)"
    and "modules_sym st \<noteq> Some r \<Longrightarrow> modules_val st' = modules_val st"
proof -
  define st1 where "st1 = set_curr r new st"
  have s1: "syms st1 r = (syms st r)\<lparr>s_curr := new\<rparr>" by (simp add: st1_def set_curr_def)
  have o: "ordinary (syms st1 r)" "SYMBOL_NEED_SET_CHOICE_VALUES \<notin> s_flags (syms st1 r)"
    using assms(1,2) by (simp_all add: s1 ordinary_def sym_is_choice_def sym_is_choice_value_def)
  have "value_base (s_type (syms st1 r)) = None" using assms(3) by (auto simp: s1 is_tri_def)
  then have "finish_value calc r old new st = (do {
      st \<leftarrow> mark_members r (note_change old r st1);
      let st = (if SYMBOL_AUTO \<in> s_flags (syms st r) then clear_flags r {SYMBOL_WRITE} st else st);
      if SYMBOL_NEED_SET_CHOICE_VALUES \<in> s_flags (syms st r) then set_all_choice_values r st else Some st })"
    using o(1) by (simp add: finish_value_def st1_def [symmetric] choose_value_def sym_validate_range_def ordinary_def)
  with no_choice_end [OF o, of old] assms(4)
  have "\<forall>x. settled (syms st1 x) (syms st' x)" "modules_sym st1 \<noteq> Some r \<longrightarrow> modules_val st' = modules_val st1"
    by auto
  then show "settled ((syms st r)\<lparr>s_curr := new\<rparr>) (syms st' r)"
    "modules_sym st \<noteq> Some r \<Longrightarrow> modules_val st' = modules_val st"
    using s1 by (metis, simp add: st1_def set_curr_def)
qed

text \<open>The value a boolean or tristate symbol gets, and the state it is read from.\<close>

lemma tri_value_result:
  assumes c: "calc_ok m calc" and r: "ready m st" "r \<in> refs st"
    and v: "SYMBOL_VALID \<in> s_flags (syms st r)" "ordinary (syms st r)"
    and res: "tri_value calc r st = Some (tri, st')"
  shows "\<exists>t. tri = EXPR_OR t (snd (s_rev_dep (syms st r))) \<and>
    (s_visible (syms st r) \<noteq> T_no \<and> sym_has_value (syms st r) \<longrightarrow>
       t = EXPR_AND (snd (s_user (syms st r))) (s_visible (syms st r))) \<and>
    (props_of P_DEFAULT (syms st r) = [] \<and> \<not> (s_visible (syms st r) \<noteq> T_no \<and> sym_has_value (syms st r)) \<longrightarrow>
       t = T_no)"
proof -
  define st1 where "st1 = set_write (s_visible (syms st r) \<noteq> T_no) r st"
  have e1: "evolves {} st st1" unfolding st1_def by (rule evolves_set_write)
  note ok1 = ready_sym_ok [OF r e1]
  let ?own = "s_visible (syms st r) \<noteq> T_no \<and> sym_has_value (syms st r)"
  let ?m = "if ?own then Some (EXPR_AND (snd (s_user (syms st r))) (s_visible (syms st r)), st1)
    else tri_default calc r st1"
  have "runs {} st1 ?m" using tri_default_runs [OF c ok1(1,3)] by simp
  then obtain t st2 where m: "?m = Some (t, st2)" "evolves {} st1 st2" by (rule runsE)
  have s: "settled (syms st r) (syms st2 r)" by (rule evolves_settled [OF evolves_trans [OF e1 m(2)] v])
  have "tri_value calc r st = Some (EXPR_OR t (snd (s_rev_dep (syms st2 r))), warn_unmet r st2)"
    unfolding tri_value_def Let_def st1_def [symmetric] m(1) by simp
  with res s have "tri = EXPR_OR t (snd (s_rev_dep (syms st r)))" by (simp add: settled_def)
  moreover have "t = T_no" if "props_of P_DEFAULT (syms st r) = []" "\<not> ?own"
  proof -
    have "props_of P_DEFAULT (syms (set_write b r st1) r) = []" for b
      using that(1) same_shapeD(10) [OF evolves_shape [OF evolves_trans [OF e1 evolves_set_write]]] by simp
    moreover have "tri_default calc r st1 = Some (t, st2)" using m(1) that(2) by presburger
    ultimately show ?thesis
      by (auto simp: tri_default_def Let_def sym_get_default_prop_def split: if_splits)
  qed
  ultimately show ?thesis using m(1) by (intro exI [of _ t]) auto
qed

text \<open>A value that is not \<open>m\<close> where the type does not allow it.\<close>

lemma mod_to_yes_le: "tri \<le> mod_to_yes r tri st"
  by (simp add: mod_to_yes_def tri_order)

definition tri_result :: "symtab \<Rightarrow> symtab \<Rightarrow> symref \<Rightarrow> tristate \<Rightarrow> bool" where
  "tri_result st0 st r t \<longleftrightarrow> (let s = syms st r in
     (s_type s = S_BOOLEAN \<longrightarrow> snd (s_curr s) = (if t = T_mod then T_yes else t)) \<and>
     (s_type s = S_TRISTATE \<and> modules_sym st0 \<noteq> Some r \<longrightarrow> snd (s_curr s) = mod_to_yes r t st) \<and>
     t \<le> snd (s_curr s))"

lemma mod_to_yes_cong:
  assumes "s_type (syms st' r) = s_type (syms st r)" "sym_is_choice_value (syms st' r) = sym_is_choice_value (syms st r)"
    "\<not> sym_is_choice_value (syms st r)" "modules_val st' = modules_val st"
  shows "mod_to_yes r t st' = mod_to_yes r t st"
  using assms by (simp add: mod_to_yes_def sym_get_type_def Let_def)

text \<open>The states of a calculation: before the new value is determined, and before it is stored.\<close>

lemma valued_steps:
  assumes c: "calc_ok m calc" and r: "ready m st" "r \<in> refs st"
    and v: "SYMBOL_VALID \<in> s_flags (syms st r)" "ordinary (syms st r)"
    and res: "calc_valued calc r old new st = Some st'"
  obtains st3 nv st4 where "evolves {r} st st3" "SYMBOL_VALID \<in> s_flags (syms st3 r)"
    "new_value calc r st3 = Some (nv, st4)" "evolves {} st3 st4"
    "finish_value calc r old nv st4 = Some st'"
proof -
  define st1 where "st1 = clear_flags r {SYMBOL_WRITE} st"
  have e1: "evolves {r} st st1" unfolding st1_def by (rule evolves_clear_flags) simp
  note ok1 = ready_sym_ok [OF r e1]
  obtain st2 where 2: "sym_calc_visibility calc r st1 = Some st2" "evolves {r} st1 st2"
    using visibility_moves [OF c ok1(1,3), of "{r}"] by (auto elim: movesE)
  define st3 where "st3 = set_curr r new st2"
  have e3: "evolves {r} st2 st3" unfolding st3_def by (rule evolves_set_curr) simp
  note e = evolves_trans [OF e1 evolves_trans [OF 2(2) e3]]
  note ok3 = ready_sym_ok [OF r e]
  have v3: "SYMBOL_VALID \<in> s_flags (syms st3 r)"
    by (rule marked_valid [OF e v(1) ordinary_need [OF readyD(1) [OF r] v(2)]])
  have body: "calc_valued calc r old new st =
      do { (newval, st) \<leftarrow> new_value calc r st3; finish_value calc r old newval st }"
    using v(2) 2(1) by (simp add: calc_valued_def ordinary_def st1_def [symmetric] st3_def [symmetric] Let_def)
  obtain nv st4 where 4: "new_value calc r st3 = Some (nv, st4)" "evolves {} st3 st4"
    by (rule runsE [OF new_value_runs [OF c ok3(1,3)]])
  have "finish_value calc r old nv st4 = Some st'" using res body 4(1) by simp
  with e v3 4 show ?thesis by (rule that)
qed

lemma calc_valued_tri:
  assumes c: "calc_ok m calc" and r: "ready m st" "r \<in> refs st"
    and v: "SYMBOL_VALID \<in> s_flags (syms st r)" "ordinary (syms st r)" "is_tri (s_type (syms st r))"
    and res: "calc_valued calc r old new st = Some st'"
  shows "\<exists>t. tri_result st st' r (EXPR_OR t (snd (s_rev_dep (syms st' r)))) \<and>
    (s_visible (syms st' r) \<noteq> T_no \<and> sym_has_value (syms st' r) \<longrightarrow>
       t = EXPR_AND (snd (s_user (syms st' r))) (s_visible (syms st' r))) \<and>
    (props_of P_DEFAULT (syms st' r) = [] \<and>
       \<not> (s_visible (syms st' r) \<noteq> T_no \<and> sym_has_value (syms st' r)) \<longrightarrow> t = T_no)"
proof -
  obtain st3 nv st4 where e: "evolves {r} st st3" and v3: "SYMBOL_VALID \<in> s_flags (syms st3 r)"
    and 4: "new_value calc r st3 = Some (nv, st4)" "evolves {} st3 st4"
    and f: "finish_value calc r old nv st4 = Some st'"
    by (rule valued_steps [OF c r v(1,2) res])
  note ok3 = ready_sym_ok [OF r e]
  have o3: "ordinary (syms st3 r)" using ordinary_evolves [OF e] v(2) by simp
  have ty3: "s_type (syms st3 r) = s_type (syms st r)" by (rule same_shapeD(2) [OF evolves_shape [OF e]])
  have s34: "settled (syms st3 r) (syms st4 r)" by (rule evolves_settled(1) [OF 4(2) v3 o3])
  obtain tri where tri: "tri_value calc r st3 = Some (tri, st4)"
    "nv = (fst (s_curr symbol_no), mod_to_yes r tri st4)"
    using 4(1) v(3) ty3 o3 by (auto simp: new_value_def ordinary_def bind_eq_Some_conv)
  obtain t where t: "tri = EXPR_OR t (snd (s_rev_dep (syms st3 r)))"
    "s_visible (syms st3 r) \<noteq> T_no \<and> sym_has_value (syms st3 r) \<longrightarrow>
       t = EXPR_AND (snd (s_user (syms st3 r))) (s_visible (syms st3 r))"
    "props_of P_DEFAULT (syms st3 r) = [] \<and>
       \<not> (s_visible (syms st3 r) \<noteq> T_no \<and> sym_has_value (syms st3 r)) \<longrightarrow> t = T_no"
    using tri_value_result [OF c ok3(1,3) v3 o3 tri(1)] by blast
  have o4: "ordinary (syms st4 r)" using ordinary_evolves [OF 4(2)] o3 by simp
  have n4: "SYMBOL_NEED_SET_CHOICE_VALUES \<notin> s_flags (syms st4 r)"
    by (rule ordinary_need [OF ready_sym_ok(2) [OF ok3(1,3) 4(2)] o4])
  have ty4: "s_type (syms st4 r) = s_type (syms st r)" using s34 ty3 by (simp add: settled_def)
  have fin: "settled ((syms st4 r)\<lparr>s_curr := nv\<rparr>) (syms st' r)"
    "modules_sym st4 \<noteq> Some r \<Longrightarrow> modules_val st' = modules_val st4"
    using finish_tri [OF o4 n4 _ f] v(3) ty4 by simp_all
  have m4: "modules_sym st4 = modules_sym st" using evolvesD(3) [OF e] evolvesD(3) [OF 4(2)] by simp
  have same: "s_curr (syms st' r) = nv" "s_visible (syms st' r) = s_visible (syms st3 r)"
    "s_rev_dep (syms st' r) = s_rev_dep (syms st3 r)" "s_user (syms st' r) = s_user (syms st3 r)"
    "sym_has_value (syms st' r) = sym_has_value (syms st3 r)" "s_type (syms st' r) = s_type (syms st r)"
    "props_of P_DEFAULT (syms st' r) = props_of P_DEFAULT (syms st3 r)"
    using fin(1) s34 ty4 by (simp_all add: settled_def sym_has_value_def props_of_def)
  have cv: "sym_is_choice_value (syms st' r) = sym_is_choice_value (syms st4 r)"
    "\<not> sym_is_choice_value (syms st4 r)"
  proof -
    show "\<not> sym_is_choice_value (syms st4 r)" using o4 by (simp add: ordinary_def)
    have "moves {r} st4 (finish_value calc r old nv st4)"
      by (rule finish_value_moves [OF c]) (use ready_sym_ok [OF ok3(1,3) 4(2)] in simp_all)
    with f have "evolves {r} st4 st'" by simp
    then show "sym_is_choice_value (syms st' r) = sym_is_choice_value (syms st4 r)"
      by (rule same_shapeD(8) [OF evolves_shape])
  qed
  have "tri_result st st' r tri"
    using same(1,6) tri(2) ty4 v(3) fin(2) m4 cv mod_to_yes_le mod_to_yes_cong [of st' r st4 tri]
    by (auto simp: tri_result_def Let_def mod_to_yes_def sym_get_type_def tri_order split: if_splits)
  with t same show ?thesis by (intro exI [of _ t]) simp
qed

section \<open>Values inside their range\<close>

lemma strtoll_dec_of_int:
  assumes "llong_min \<le> z" "z \<le> llong_max"
  shows "strtoll (dec_of_int z) 10 = z"
  using strtol_dec_of_int [OF assms, of "[]"] by (simp add: strtoll_def stops_number_def)

lemma strtoll_hex:
  assumes "0 \<le> z" "z \<le> llong_max"
  shows "strtoll (''0x'' @ hex_of_nat (nat z)) 16 = z"
proof -
  obtain d ds where n: "hex_of_nat (nat z) = digit_char d # ds" "d < 16"
    using num_of_nat_hd [of 16 "nat z"] unfolding hex_of_nat_def by auto
  have rd: "read_digits 16 0 (hex_of_nat (nat z)) = (nat z, [])"
    using read_digits_num_of_nat [of 16 "[]" "nat z"] by (simp add: hex_of_nat_def stops_number_def)
  have sk: "skip_spaces (CHR ''0'' # t) = CHR ''0'' # t" "read_sign (CHR ''0'' # t) = (False, CHR ''0'' # t)" for t
    by (simp_all add: ctype_defs read_sign_def)
  have pf: "read_prefix 16 (CHR ''0'' # CHR ''x'' # hex_of_nat (nat z)) = hex_of_nat (nat z)"
    using n by (simp add: read_prefix_def digit_char_simps)
  have "c_strtol llong_min llong_max 16 (CHR ''0'' # CHR ''x'' # hex_of_nat (nat z)) =
      (clamp llong_min llong_max (int (nat z)), [])"
    unfolding c_strtol_def Let_def sk prod.case pf
    using rd n(2) by (simp add: n(1) digit_char_simps)
  then show ?thesis using assms by (simp add: strtoll_def clamp_def)
qed

lemma strtoll_bounds: "llong_min \<le> strtoll s b" "strtoll s b \<le> llong_max"
  by (auto simp: strtoll_def c_strtol_def clamp_def Let_def split: prod.splits list.splits)

definition own_base :: "nat \<Rightarrow> symbol \<Rightarrow> nat" where
  "own_base base s = (case value_base (s_type s) of Some b \<Rightarrow> b | None \<Rightarrow> base)"

text \<open>The number a symbol stands for, read in base \<open>base\<close> where it has no type of its own.\<close>

definition num_value :: "nat \<Rightarrow> symbol \<Rightarrow> int" where
  "num_value base s = strtoll (sval_string (fst (s_curr s))) (own_base base s)"

lemma range_val_eq:
  "sym_get_range_val calc x base st = do { st \<leftarrow> calc x st; Some (num_value base (syms st x), st) }"
  by (simp add: sym_get_range_val_def num_value_def own_base_def Let_def)

definition calc_valid :: "nat \<Rightarrow> calc \<Rightarrow> bool" where
  "calc_valid m calc \<longleftrightarrow> (\<forall>st r st'. ready m st \<longrightarrow> r \<in> refs st \<longrightarrow> calc r st = Some st' \<longrightarrow>
     SYMBOL_NEED_SET_CHOICE_VALUES \<notin> s_flags (syms st r) \<longrightarrow> SYMBOL_VALID \<in> s_flags (syms st' r))"

lemma calc_fuel_valid_ok: "calc_valid m (calc_fuel m)"
  using calc_fuel_valid by (auto simp: calc_valid_def)

lemma need_evolves:
  "evolves X st st' \<Longrightarrow> SYMBOL_NEED_SET_CHOICE_VALUES \<notin> s_flags (syms st r) \<Longrightarrow>
   SYMBOL_NEED_SET_CHOICE_VALUES \<notin> s_flags (syms st' r)"
  using evolvesD(4) [of X st st' r] by (auto simp: sym_step_def)

lemma value_evolves:
  assumes "evolves X st st'" "SYMBOL_VALID \<in> s_flags (syms st x)" "x \<notin> X"
  shows "num_value base (syms st' x) = num_value base (syms st x)"
  using evolvesD(4) [OF assms(1), of x] assms(2,3) same_shapeD(2) [OF evolves_shape [OF assms(1)], of x]
  by (simp add: sym_step_def same_value_def num_value_def own_base_def)

text \<open>The bound of the type \<open>type\<close> printed by \<open>sym_validate_range\<close> is read back.\<close>

lemma range_text_value:
  assumes "llong_min \<le> z" "z \<le> llong_max" "value_base type = Some base" "type = S_INT \<or> 0 \<le> z"
  shows "strtoll (range_text type z) base = z"
proof (cases "type = S_INT")
  case True
  with assms show ?thesis by (simp add: range_text_def strtoll_dec_of_int)
next
  case False
  with assms(3) have "type = S_HEX" "base = 16" by (cases type; simp)+
  moreover have "z mod 2 ^ 64 = z" using assms False by simp
  ultimately show ?thesis using strtoll_hex [of z] assms False by (simp add: range_text_def)
qed

lemma clamp_range_value:
  assumes c: "calc_ok m calc" "calc_valid m calc" and r: "ready m st" "lo \<in> refs st" "hi \<in> refs st"
    and o: "lo \<noteq> r" "hi \<noteq> r" "SYMBOL_NEED_SET_CHOICE_VALUES \<notin> s_flags (syms st lo)"
      "SYMBOL_NEED_SET_CHOICE_VALUES \<notin> s_flags (syms st hi)"
    and v: "SYMBOL_VALID \<in> s_flags (syms st r)" and b: "value_base (s_type (syms st r)) = Some base"
    and res: "clamp_range calc r base (lo, hi) st = Some st'"
  shows "SYMBOL_VALID \<in> s_flags (syms st' lo) \<and>
    (s_type (syms st r) = S_INT \<or> 0 \<le> num_value base (syms st' lo) \<longrightarrow>
     num_value base (syms st' lo) \<le> num_value base (syms st' hi) \<longrightarrow>
     num_value base (syms st' lo) \<le> num_value base (syms st' r) \<and>
     num_value base (syms st' r) \<le> num_value base (syms st' hi) \<and>
     (num_value base (syms st' r) = num_value base (syms st' lo) \<or> SYMBOL_VALID \<in> s_flags (syms st' hi)))"
proof -
  define set_bound where "set_bound = (\<lambda>b. set_curr_val r (V_str (range_text (s_type (syms st r)) b)))"
  define val where "val = strtoll (sval_string (fst (s_curr (syms st r)))) base"
  have rc: "s_curr (syms st1 r) = s_curr (syms st r) \<and> s_type (syms st1 r) = s_type (syms st r)"
    if "evolves {} st st1" for st1
    using evolvesD(4) [OF that, of r] v by (simp add: sym_step_def same_value_def same_shape_def)
  have own: "own_base base (syms st1 r) = base" if "s_type (syms st1 r) = s_type (syms st r)" for st1
    using b that by (simp add: own_base_def)
  have keep: "num_value base (syms st1 r) = val" if "evolves {} st st1" for st1
    using rc [OF that] own [of st1] by (simp add: num_value_def val_def)
  have bound: "num_value base (syms (set_bound z st1) r) = z"
    if "evolves {} st st1" "llong_min \<le> z" "z \<le> llong_max" "s_type (syms st r) = S_INT \<or> 0 \<le> z" for z st1
    using rc [OF that(1)] range_text_value [OF that(2,3) b that(4)] own [of "set_bound z st1"]
    by (simp add: num_value_def set_bound_def set_curr_val_def own_base_def b)
  have other: "syms (set_bound z st1) x = syms st1 x" if "x \<noteq> r" for x z st1
    using that by (simp add: set_bound_def set_curr_val_def)
  have nb: "llong_min \<le> num_value base s" "num_value base s \<le> llong_max" for s
    unfolding num_value_def by (rule strtoll_bounds)+
  obtain st1 where 1: "calc lo st = Some st1" "evolves {} st st1"
    by (rule movesE [OF calc_moves [OF c(1) r(1,2)]])
  have v1: "SYMBOL_VALID \<in> s_flags (syms st1 lo)" using c(2) r(1,2) 1(1) o(3) by (simp add: calc_valid_def)
  show ?thesis
  proof (cases "num_value base (syms st1 lo) \<le> val")
    case False
    then have "st' = set_bound (num_value base (syms st1 lo)) st1"
      using res 1(1) rc [OF 1(2)] by (simp add: clamp_range_def range_val_eq val_def set_bound_def Let_def)
    then show ?thesis
      using bound [OF 1(2) nb, of "syms st1 lo"] other o(1,2) v1 by simp
  next
    case True
    have r1: "ready m st1" "hi \<in> refs st1" using evolves_ready [OF 1(2) r(1)] evolvesD(5) [OF 1(2)] r(3) by auto
    obtain st2 where 2: "calc hi st1 = Some st2" "evolves {} st1 st2"
      by (rule movesE [OF calc_moves [OF c(1) r1]])
    have v2: "SYMBOL_VALID \<in> s_flags (syms st2 hi)"
      using c(2) r1 2(1) need_evolves [OF 1(2) o(4)] by (simp add: calc_valid_def)
    have lo2: "num_value base (syms st2 lo) = num_value base (syms st1 lo)"
      by (rule value_evolves [OF 2(2) v1]) simp
    have v2lo: "SYMBOL_VALID \<in> s_flags (syms st2 lo)"
      using evolvesD(4) [OF 2(2), of lo] v1 by (simp add: sym_step_def)
    note e = evolves_trans [OF 1(2) 2(2)]
    show ?thesis
    proof (cases "val \<le> num_value base (syms st2 hi)")
      case hi: True
      then have "st' = st2"
        using res 1(1) 2(1) True by (simp add: clamp_range_def range_val_eq val_def Let_def)
      then show ?thesis using True hi lo2 v2 v2lo keep [OF e] by simp
    next
      case hi: False
      then have st': "st' = set_bound (num_value base (syms st2 hi)) st2"
        using res 1(1) 2(1) True rc [OF e]
        by (simp add: clamp_range_def range_val_eq val_def set_bound_def Let_def)
      show ?thesis
        using bound [OF e nb, of "syms st2 hi"] other o(1,2) st' v2 v2lo by auto
    qed
  qed
qed

section \<open>Conditions that stay\<close>

text \<open>The text of a symbol, and the value of an expression, rest on calculated symbols only.\<close>

definition text_kept :: "symtab \<Rightarrow> symref \<Rightarrow> bool" where
  "text_kept st x \<longleftrightarrow> SYMBOL_VALID \<in> s_flags (syms st x) \<and>
     (is_tri (s_type (syms st x)) \<and> snd (s_curr (syms st x)) = T_mod \<longrightarrow>
       (\<forall>m. modules_sym st = Some m \<longrightarrow> SYMBOL_VALID \<in> s_flags (syms st m)))"

fun expr_kept :: "symtab \<Rightarrow> expr \<Rightarrow> bool" where
  "expr_kept st (EOr l r) \<longleftrightarrow> expr_kept st l \<and> expr_kept st r"
| "expr_kept st (EAnd l r) \<longleftrightarrow> expr_kept st l \<and> expr_kept st r"
| "expr_kept st (ENot x) \<longleftrightarrow> expr_kept st x"
| "expr_kept st (EEqual s t) \<longleftrightarrow> text_kept st s \<and> text_kept st t"
| "expr_kept st (EUnequal s t) \<longleftrightarrow> text_kept st s \<and> text_kept st t"
| "expr_kept st (ESymbol s) \<longleftrightarrow> SYMBOL_VALID \<in> s_flags (syms st s)"
| "expr_kept st _ \<longleftrightarrow> True"

definition no_need :: "symtab \<Rightarrow> bool" where
  "no_need st \<longleftrightarrow> (\<forall>r. SYMBOL_NEED_SET_CHOICE_VALUES \<notin> s_flags (syms st r))"

lemma no_need_evolves: "evolves X st st' \<Longrightarrow> no_need st \<Longrightarrow> no_need st'"
  using need_evolves by (simp add: no_need_def)

lemma valid_evolves:
  assumes "evolves X st st'" "no_need st" "SYMBOL_VALID \<in> s_flags (syms st x)"
  shows "SYMBOL_VALID \<in> s_flags (syms st' x)"
  using evolvesD(4) [OF assms(1), of x] assms(2,3) by (auto simp: sym_step_def no_need_def)

lemma curr_evolves:
  assumes "evolves X st st'" "SYMBOL_VALID \<in> s_flags (syms st x)" "x \<notin> X"
  shows "s_curr (syms st' x) = s_curr (syms st x)"
  using evolvesD(4) [OF assms(1), of x] assms(2,3) by (simp add: sym_step_def same_value_def)

lemma text_kept_evolves:
  assumes e: "evolves X st st'" "no_need st" and k: "text_kept st x" and x: "x \<notin> X"
    and m: "\<forall>m. modules_sym st = Some m \<longrightarrow> m \<notin> X"
  shows "text_kept st' x" "value_text st' x = value_text st x"
proof -
  note sh = same_shapeD(2) [OF evolves_shape [OF e(1)], of x]
  have v: "SYMBOL_VALID \<in> s_flags (syms st x)" using k by (simp add: text_kept_def)
  note c = curr_evolves [OF e(1) v x]
  note mm = evolvesD(3) [OF e(1)]
  show "text_kept st' x"
    using k valid_evolves [OF e] by (simp add: text_kept_def sh c mm)
  have "snd (s_curr (syms st' y)) = snd (s_curr (syms st y))"
    if "is_tri (s_type (syms st x))" "snd (s_curr (syms st x)) = T_mod" "modules_sym st = Some y" for y
    using curr_evolves [OF e(1), of y] k that m by (simp add: text_kept_def)
  then show "value_text st' x = value_text st x"
    unfolding value_text_def Let_def sh c mm by (simp split: tristate.split option.split)
qed

lemma expr_kept_evolves:
  assumes e: "evolves X st st'" "no_need st" and m: "\<forall>m. modules_sym st = Some m \<longrightarrow> m \<notin> X"
  shows "expr_kept st x \<Longrightarrow> expr_syms x \<inter> X = {} \<Longrightarrow>
    expr_kept st' x \<and> expr_val (view st') x = expr_val (view st) x"
proof (induction x rule: expr_syms.induct)
  case (1 l r)
  have "expr_syms l \<inter> X = {}" "expr_syms r \<inter> X = {}" using 1(4) by auto
  with 1 show ?case by simp
next
  case (2 l r)
  have "expr_syms l \<inter> X = {}" "expr_syms r \<inter> X = {}" using 2(4) by auto
  with 2 show ?case by simp
next
  case (4 s t)
  then show ?case using text_kept_evolves [OF e _ _ m] by (simp add: view_def)
next
  case (5 s t)
  then show ?case using text_kept_evolves [OF e _ _ m] by (simp add: view_def)
next
  case (7 s)
  then show ?case using valid_evolves [OF e] curr_evolves [OF e(1)] by (simp add: view_def)
qed simp_all

lemma get_string_text:
  assumes c: "calc_ok m calc" "calc_valid m calc" and r: "ready m st" "no_need st"
    and v: "SYMBOL_VALID \<in> s_flags (syms st x)" and g: "sym_get_string_value calc x st = Some (t, st')"
  shows "text_kept st' x" "t = value_text st' x" "evolves {} st st'"
proof -
  obtain y where y: "y \<in> refs st" "modules_sym st = Some y" using readyD(2) [OF r(1)] by blast
  obtain st1 where 1: "calc y st = Some st1" "evolves {} st st1"
    by (rule movesE [OF calc_moves [OF c(1) r(1) y(1)]])
  have v1: "SYMBOL_VALID \<in> s_flags (syms st1 y)"
    using c(2) r y(1) 1(1) by (auto simp: calc_valid_def no_need_def)
  note sh = same_shapeD(2) [OF evolves_shape [OF 1(2)], of x]
  have c1: "s_curr (syms st1 x) = s_curr (syms st x)" by (rule curr_evolves [OF 1(2) v]) simp
  have v1x: "SYMBOL_VALID \<in> s_flags (syms st1 x)" by (rule valid_evolves [OF 1(2) r(2) v])
  note m1 = evolvesD(3) [OF 1(2)]
  have "text_kept st' x \<and> t = value_text st' x \<and> evolves {} st st'"
  proof (cases "is_tri (s_type (syms st x)) \<and> snd (s_curr (syms st x)) = T_mod")
    case True
    then have "st' = st1" "t = (if snd (s_curr (syms st1 y)) = T_no then ''n'' else ''m'')"
      using g y(2) 1(1) by (auto simp: sym_get_string_value_def Let_def sym_get_tristate_value_def)
    then show ?thesis
      using True v1 v1x 1(2) y(2) by (simp add: text_kept_def value_text_def Let_def sh c1 m1)
  next
    case False
    then have "st' = st" "t = value_text st x"
      using g by (auto simp: sym_get_string_value_def value_text_def Let_def sym_get_tristate_value_def split: tristate.splits if_splits)
    then show ?thesis using False v by (auto simp: text_kept_def)
  qed
  then show "text_kept st' x" "t = value_text st' x" "evolves {} st st'" by blast+
qed

text \<open>What \<open>expr_calc_value\<close> gives is the value of the expression over the calculated symbols.\<close>

lemma compare_view:
  assumes c: "calc_ok m calc" "calc_valid m calc" and r: "ready m st" "no_need st" and st: "s \<in> refs st" "t \<in> refs st"
    and g: "calc s st = Some st1" "calc t st1 = Some st2"
      "sym_get_string_value calc s st2 = Some (a, st3)" "sym_get_string_value calc t st3 = Some (b, st4)"
  shows "text_kept st4 s" "text_kept st4 t" "a = value_text st4 s" "b = value_text st4 t" "evolves {} st st4"
proof -
  have e1: "evolves {} st st1" using calc_moves [OF c(1) r(1) st(1)] g(1) by simp
  have r1: "ready m st1" "no_need st1" "t \<in> refs st1"
    using evolves_ready [OF e1 r(1)] no_need_evolves [OF e1 r(2)] evolvesD(5) [OF e1] st(2) by simp_all
  have e2: "evolves {} st1 st2" using calc_moves [OF c(1) r1(1,3)] g(2) by simp
  have r2: "ready m st2" "no_need st2"
    using evolves_ready [OF e2 r1(1)] no_need_evolves [OF e2 r1(2)] by simp_all
  have vs: "SYMBOL_VALID \<in> s_flags (syms st1 s)" using c(2) r st(1) g(1) by (auto simp: calc_valid_def no_need_def)
  have vs2: "SYMBOL_VALID \<in> s_flags (syms st2 s)" by (rule valid_evolves [OF e2 r1(2) vs])
  have vt: "SYMBOL_VALID \<in> s_flags (syms st2 t)" using c(2) r1 g(2) by (auto simp: calc_valid_def no_need_def)
  note 3 = get_string_text [OF c r2 vs2 g(3)]
  have r3: "ready m st3" "no_need st3"
    using evolves_ready [OF 3(3) r2(1)] no_need_evolves [OF 3(3) r2(2)] by simp_all
  note 4 = get_string_text [OF c r3 valid_evolves [OF 3(3) r2(2) vt] g(4)]
  show "text_kept st4 s" "a = value_text st4 s"
    using text_kept_evolves [OF 4(3) r3(2) 3(1)] 3(2) by simp_all
  show "text_kept st4 t" "b = value_text st4 t" by (rule 4)+
  show "evolves {} st st4" by (rule evolves_trans [OF e1 evolves_trans [OF e2 evolves_trans [OF 3(3) 4(3)]]])
qed

lemma expr_calc_view:
  assumes c: "calc_ok m calc" "calc_valid m calc"
  shows "ready m st \<Longrightarrow> no_need st \<Longrightarrow> expr_syms x \<subseteq> refs st \<Longrightarrow> expr_calc_value calc x st = Some (v, st') \<Longrightarrow>
    expr_kept st' x \<and> v = expr_val (view st') x \<and> evolves {} st st'"
proof (induction x arbitrary: st v st' rule: expr_syms.induct)
  case (1 l r)
  from 1(6) obtain v1 st1 v2 where g: "expr_calc_value calc l st = Some (v1, st1)"
    "expr_calc_value calc r st1 = Some (v2, st')" "v = EXPR_OR v1 v2"
    by (auto simp: bind_eq_Some_conv)
  from 1(1) [OF 1(3,4) _ g(1)] 1(5) have l: "expr_kept st1 l" "v1 = expr_val (view st1) l" "evolves {} st st1" by auto
  have r1: "ready m st1" "no_need st1" "expr_syms r \<subseteq> refs st1"
    using evolves_ready [OF l(3) 1(3)] no_need_evolves [OF l(3) 1(4)] evolvesD(5) [OF l(3)] 1(5) by auto
  from 1(2) [OF r1 g(2)] have r: "expr_kept st' r" "v2 = expr_val (view st') r" "evolves {} st1 st'" by auto
  from expr_kept_evolves [OF r(3) r1(2) _ l(1)] l r g(3) evolves_trans [OF l(3) r(3)] show ?case by simp
next
  case (2 l r)
  from 2(6) obtain v1 st1 v2 where g: "expr_calc_value calc l st = Some (v1, st1)"
    "expr_calc_value calc r st1 = Some (v2, st')" "v = EXPR_AND v1 v2"
    by (auto simp: bind_eq_Some_conv)
  from 2(1) [OF 2(3,4) _ g(1)] 2(5) have l: "expr_kept st1 l" "v1 = expr_val (view st1) l" "evolves {} st st1" by auto
  have r1: "ready m st1" "no_need st1" "expr_syms r \<subseteq> refs st1"
    using evolves_ready [OF l(3) 2(3)] no_need_evolves [OF l(3) 2(4)] evolvesD(5) [OF l(3)] 2(5) by auto
  from 2(2) [OF r1 g(2)] have r: "expr_kept st' r" "v2 = expr_val (view st') r" "evolves {} st1 st'" by auto
  from expr_kept_evolves [OF r(3) r1(2) _ l(1)] l r g(3) evolves_trans [OF l(3) r(3)] show ?case by simp
next
  case (3 x)
  from 3(5) obtain v1 where g: "expr_calc_value calc x st = Some (v1, st')" "v = EXPR_NOT v1"
    by (auto simp: bind_eq_Some_conv)
  from 3(1) [OF 3(2,3) _ g(1)] 3(4) g(2) show ?case by simp
next
  case (4 s t)
  from 4(4) obtain st1 st2 a st3 b where g: "calc s st = Some st1" "calc t st1 = Some st2"
      "sym_get_string_value calc s st2 = Some (a, st3)" "sym_get_string_value calc t st3 = Some (b, st')"
      "v = (if a = b then T_yes else T_no)"
    by (auto simp: bind_eq_Some_conv)
  with 4 compare_view [OF c 4(1,2) _ _ g(1-4)] show ?case by (simp add: view_def)
next
  case (5 s t)
  from 5(4) obtain st1 st2 a st3 b where g: "calc s st = Some st1" "calc t st1 = Some st2"
      "sym_get_string_value calc s st2 = Some (a, st3)" "sym_get_string_value calc t st3 = Some (b, st')"
      "v = (if a = b then T_no else T_yes)"
    by (auto simp: bind_eq_Some_conv)
  with 5 compare_view [OF c 5(1,2) _ _ g(1-4)] show ?case by (simp add: view_def)
next
  case (7 s)
  from 7(4) have g: "calc s st = Some st'" "v = snd (s_curr (syms st' s))" by (auto simp: bind_eq_Some_conv)
  have "evolves {} st st'" using calc_moves [OF c(1) 7(1), of s] 7(3) g(1) by simp
  moreover have "SYMBOL_VALID \<in> s_flags (syms st' s)"
    using c(2) 7(1-3) g(1) by (auto simp: calc_valid_def no_need_def)
  ultimately show ?case using g(2) by (simp add: view_def)
qed (simp_all add: view_def)

definition cond_value :: "symtab \<Rightarrow> property \<Rightarrow> tristate" where
  "cond_value st p = expr_val_opt (view st) (p_visible p)"

definition cond_syms :: "property \<Rightarrow> symref set" where
  "cond_syms p = (case p_visible p of Some e \<Rightarrow> expr_syms e | None \<Rightarrow> {})"

definition cond_kept :: "symtab \<Rightarrow> property \<Rightarrow> bool" where
  "cond_kept st p \<longleftrightarrow> (case p_visible p of Some e \<Rightarrow> expr_kept st e | None \<Rightarrow> True)"

lemma cond_kept_evolves:
  assumes "evolves X st st'" "no_need st" "\<forall>m. modules_sym st = Some m \<longrightarrow> m \<notin> X"
    and "cond_kept st p" "cond_syms p \<inter> X = {}"
  shows "cond_kept st' p" "cond_value st' p = cond_value st p"
  using expr_kept_evolves [OF assms(1-3)] assms(4,5)
  by (auto simp: cond_kept_def cond_value_def cond_syms_def split: option.splits)

text \<open>\<open>sym_get_range_prop\<close> and \<open>sym_get_default_prop\<close> find the first property whose condition is not n.\<close>

lemma first_visible_find:
  assumes c: "calc_ok m calc" "calc_valid m calc"
  shows "ready m st \<Longrightarrow> no_need st \<Longrightarrow> \<forall>p \<in> set ps. prop_ok st p \<Longrightarrow> first_visible calc ps st = Some (res, st') \<Longrightarrow>
    evolves {} st st' \<and>
    (\<exists>qs. (\<forall>q \<in> set qs. cond_kept st' q \<and> cond_value st' q = T_no) \<and>
       (case res of None \<Rightarrow> ps = qs
        | Some (p, tri) \<Rightarrow> cond_kept st' p \<and> cond_value st' p = tri \<and> tri \<noteq> T_no \<and> (\<exists>rs. ps = qs @ p # rs)))"
proof (induction ps arbitrary: st)
  case Nil
  then show ?case by auto
next
  case (Cons p ps)
  from Cons.prems(4) obtain tri st1 where g: "calc_opt calc (p_visible p) st = Some (tri, st1)"
    and rest: "(if tri \<noteq> T_no then Some (Some (p, tri), st1) else first_visible calc ps st1) = Some (res, st')"
    by (auto simp: bind_eq_Some_conv)
  have ok: "opt_in st (p_visible p)" using Cons.prems(3) by (simp add: prop_ok_def)
  have p: "cond_kept st1 p" "cond_value st1 p = tri" "evolves {} st st1"
    using g expr_calc_view [OF c Cons.prems(1,2)] ok
    by (auto simp: calc_opt_def cond_kept_def cond_value_def opt_in_def split: option.splits)
  show ?case
  proof (cases "tri = T_no")
    case False
    with rest p show ?thesis by (intro conjI exI [of _ "[]"]) auto
  next
    case True
    note r1 = evolves_ready [OF p(3) Cons.prems(1)] no_need_evolves [OF p(3) Cons.prems(2)]
    have ps: "\<forall>p \<in> set ps. prop_ok st1 p" using Cons.prems(3) prop_ok_evolves [OF p(3)] by simp
    from Cons.IH [OF r1 ps] rest True obtain qs where e: "evolves {} st1 st'"
      and q: "\<forall>q \<in> set qs. cond_kept st' q \<and> cond_value st' q = T_no"
      and res: "case res of None \<Rightarrow> ps = qs
        | Some (p, tri) \<Rightarrow> cond_kept st' p \<and> cond_value st' p = tri \<and> tri \<noteq> T_no \<and> (\<exists>rs. ps = qs @ p # rs)"
      by auto
    from cond_kept_evolves [OF e r1(2) _ p(1)] p(2) True have "cond_kept st' p" "cond_value st' p = T_no" by simp_all
    with q res evolves_trans [OF p(3) e] show ?thesis
      by (intro conjI exI [of _ "p # qs"]) (auto split: option.splits)
  qed
qed

lemma find_append_none: "\<forall>x \<in> set xs. \<not> P x \<Longrightarrow> find P (xs @ ys) = find P ys"
  by (induction xs) auto

lemma finish_range:
  assumes c: "calc_ok m calc" "calc_valid m calc" and r: "ready m st" "r \<in> refs st"
    and v: "SYMBOL_VALID \<in> s_flags (syms st r)" "ordinary (syms st r)"
    and b: "value_base (s_type (syms st r)) = Some base"
    and need: "no_need st"
    and p: "find (\<lambda>q. cond_value st' q \<noteq> T_no) (props_of P_RANGE (syms st r)) = Some p" "range_syms p = Some (lo, hi)"
    and own: "\<forall>q \<in> set (props_of P_RANGE (syms st r)). r \<notin> cond_syms q" "modules_sym st \<noteq> Some r"
    and o: "lo \<noteq> r" "hi \<noteq> r"
    and res: "finish_value calc r old new st = Some st'"
  shows "s_type (syms st r) = S_INT \<or> 0 \<le> num_value base (syms st' lo) \<longrightarrow>
    num_value base (syms st' lo) \<le> num_value base (syms st' hi) \<longrightarrow>
    num_value base (syms st' lo) \<le> num_value base (syms st' r) \<and>
    num_value base (syms st' r) \<le> num_value base (syms st' hi)"
proof -
  define st1 where "st1 = set_curr r new st"
  have e1: "evolves {r} st st1" unfolding st1_def by (rule evolves_set_curr) simp
  note ok1 = ready_sym_ok [OF r e1]
  have s1: "syms st1 r = (syms st r)\<lparr>s_curr := new\<rparr>" "x \<noteq> r \<Longrightarrow> syms st1 x = syms st x" for x
    by (simp_all add: st1_def set_curr_def)
  have v1: "SYMBOL_VALID \<in> s_flags (syms st1 r)" "ordinary (syms st1 r)" "s_type (syms st1 r) = s_type (syms st r)"
    using v by (simp_all add: s1 ordinary_def sym_is_choice_def sym_is_choice_value_def)
  have ps1: "props_of P_RANGE (syms st1 r) = props_of P_RANGE (syms st r)" by (simp add: s1 props_of_def)
  have ok: "\<forall>q \<in> set (props_of P_RANGE (syms st1 r)). prop_ok st1 q"
    using sym_okD(2) [OF ok1(2), of P_RANGE] by simp
  obtain found st2 where fv: "sym_get_range_prop calc r st1 = Some (found, st2)"
    using first_visible_runs [OF c(1) ok1(1) ok] by (auto simp: sym_get_range_prop_def elim: runsE)
  note need1 = no_need_evolves [OF e1 need]
  obtain qs where e2: "evolves {} st1 st2" and q: "\<forall>q \<in> set qs. cond_kept st2 q \<and> cond_value st2 q = T_no"
    and found: "case found of None \<Rightarrow> props_of P_RANGE (syms st r) = qs
        | Some (p, tri) \<Rightarrow> cond_kept st2 p \<and> cond_value st2 p = tri \<and> tri \<noteq> T_no \<and>
            (\<exists>rs. props_of P_RANGE (syms st r) = qs @ p # rs)"
    using first_visible_find [OF c ok1(1) need1 ok fv [unfolded sym_get_range_prop_def]] unfolding ps1 by blast
  note need2 = no_need_evolves [OF e2 need1]
  note ok2 = ready_sym_ok [OF ok1(1,3) e2]
  have v2: "SYMBOL_VALID \<in> s_flags (syms st2 r)" "ordinary (syms st2 r)" "s_type (syms st2 r) = s_type (syms st r)"
    using valid_evolves [OF e2 need1 v1(1)] ordinary_evolves [OF e2] v1(2,3)
      same_shapeD(2) [OF evolves_shape [OF e2]] by simp_all
  have e12: "evolves {r} st st2" using evolves_trans [OF e1 evolves_mono [OF e2, of "{r}"]] by simp
  have mods: "\<forall>m. modules_sym st2 = Some m \<longrightarrow> m \<notin> {r}"
    using own(2) evolvesD(3) [OF e12] by auto
  let ?rest = "\<lambda>st. do {
      st \<leftarrow> mark_members r (note_change old r st);
      let st = (if SYMBOL_AUTO \<in> s_flags (syms st r) then clear_flags r {SYMBOL_WRITE} st else st);
      if SYMBOL_NEED_SET_CHOICE_VALUES \<in> s_flags (syms st r) then set_all_choice_values r st else Some st
    }"
  have body: "finish_value calc r old new st =
      (case found of None \<Rightarrow> ?rest st2 | Some (p, _) \<Rightarrow> Option.bind (range_syms p) (\<lambda>b. clamp_range calc r base b st2) \<bind> ?rest)"
    using v1(2,3) fv b
    by (simp add: finish_value_def st1_def [symmetric] choose_value_def ordinary_def sym_validate_range_def
        split: option.split)
  have stays: "cond_value st' q = cond_value st2 q"
    if "evolves {r} st2 st'" "q \<in> set (props_of P_RANGE (syms st r))" "cond_kept st2 q" for q
    using cond_kept_evolves(2) [OF that(1) need2 mods that(3)] own(1) that(2) by simp
  have "\<exists>tri. found = Some (p, tri)"
  proof (cases found)
    case None
    obtain st3 where 3: "?rest st2 = Some st3" "evolves {} st2 st3"
      using no_choice_end [OF v2(2) ordinary_need [OF ok2(2) v2(2)], of old] by blast
    with res body None have "evolves {r} st2 st'" using evolves_mono [of "{}" st2 st' "{r}"] by simp
    with stays q found None have "\<forall>q \<in> set (props_of P_RANGE (syms st r)). cond_value st' q = T_no" by simp
    with p(1) show ?thesis by (auto simp: find_Some_iff)
  next
    case (Some x)
    obtain p' tri where x: "x = (p', tri)" by fastforce
    from found Some x obtain rs where f: "cond_kept st2 p'" "cond_value st2 p' = tri" "tri \<noteq> T_no"
      "props_of P_RANGE (syms st r) = qs @ p' # rs" by auto
    have "prop_ok st2 p'" "p_type p' = P_RANGE"
      using sym_okD(2) [OF ok2(2), of P_RANGE] same_shapeD(10) [OF evolves_shape [OF e12]] f(4)
        props_of_type [of p' P_RANGE "syms st r"] by simp_all
    then obtain lo' hi' where b': "range_syms p' = Some (lo', hi')" "lo' \<in> refs st2" "hi' \<in> refs st2"
      by (rule range_syms_ok)
    obtain st3 where 3: "clamp_range calc r base (lo', hi') st2 = Some st3" "evolves {r} st2 st3"
      using clamp_range_moves [OF c(1) ok2(1) b'(2,3), of r "{r}"] by (auto elim: movesE)
    note ok3 = ready_sym_ok [OF ok2(1,3) 3(2)]
    have o3: "ordinary (syms st3 r)" using ordinary_evolves [OF 3(2)] v2(2) by simp
    obtain st4 where 4: "?rest st3 = Some st4" "evolves {} st3 st4"
      using no_choice_end [OF o3 ordinary_need [OF ok3(2) o3], of old] by blast
    have "finish_value calc r old new st = Some st4"
      using body Some x b'(1) 3(1) 4(1) by simp
    then have "evolves {r} st2 st'"
      using res evolves_trans [OF 3(2) evolves_mono [OF 4(2), of "{r}"]] by simp
    with stays q f have "cond_value st' p' \<noteq> T_no" "\<forall>q \<in> set qs. cond_value st' q = T_no" by simp_all
    then have "find (\<lambda>q. cond_value st' q \<noteq> T_no) (props_of P_RANGE (syms st r)) = Some p'"
      by (simp add: f(4) find_append_none)
    with p(1) Some x show ?thesis by simp
  qed
  then obtain tri where f: "found = Some (p, tri)" by blast
  with found have "p \<in> set (props_of P_RANGE (syms st r))" by auto
  then have pk: "prop_ok st2 p" "p_type p = P_RANGE"
    using sym_okD(2) [OF ok2(2), of P_RANGE] same_shapeD(10) [OF evolves_shape [OF e12]]
      props_of_type [of p P_RANGE "syms st r"] by simp_all
  have in_refs: "lo \<in> refs st2" "hi \<in> refs st2"
    by (rule range_syms_ok [OF pk]; use p(2) in simp)+
  obtain st3 where 3: "clamp_range calc r base (lo, hi) st2 = Some st3" "evolves {r} st2 st3"
    using clamp_range_moves [OF c(1) ok2(1) in_refs, of r "{r}"] by (auto elim: movesE)
  have o2: "SYMBOL_NEED_SET_CHOICE_VALUES \<notin> s_flags (syms st2 lo)"
    "SYMBOL_NEED_SET_CHOICE_VALUES \<notin> s_flags (syms st2 hi)"
    using need2 by (simp_all add: no_need_def)
  note cl = clamp_range_value [OF c ok2(1) in_refs o(1,2) o2 v2(1) b [folded v2(3)] 3(1)]
  note ok3 = ready_sym_ok [OF ok2(1,3) 3(2)]
  have o3: "ordinary (syms st3 r)" using ordinary_evolves [OF 3(2)] v2(2) by simp
  obtain st4 where 4: "?rest st3 = Some st4" "\<forall>x. settled (syms st3 x) (syms st4 x)"
    using no_choice_end [OF o3 ordinary_need [OF ok3(2) o3], of old] by blast
  have "st4 = st'" using res body f p(2) 3(1) 4(1) by simp
  then have nv: "num_value base (syms st' x) = num_value base (syms st3 x)" for x
    using 4(2) by (simp add: settled_def num_value_def own_base_def)
  with cl v2(3) show ?thesis by simp
qed

text \<open>The same for a symbol of the table that is not yet calculated.\<close>

lemma calc_value_steps:
  assumes r: "wf_symtab st" "r \<in> refs st" and v: "SYMBOL_VALID \<notin> s_flags (syms st r)"
    and res: "sym_calc_value r st = Some st'" and o: "ordinary (syms st r)"
    and ty: "start_value (s_type (syms st r)) = Some new"
  obtains m st2 old where "ready m st2" "r \<in> refs st2" "evolves {} st st2"
    "SYMBOL_VALID \<in> s_flags (syms st2 r)" "ordinary (syms st2 r)" "s_type (syms st2 r) = s_type (syms st r)"
    "calc_valued (calc_fuel m) r old new st2 = Some st'" "evolves {r} st2 st'"
proof -
  obtain m where m: "sym_calc_value r st = calc_body (calc_fuel m) r st" "calc_depth st = Suc m"
    by (rule calc_value_body [OF v])
  have rd: "ready (Suc m) st" using r(1) todo_bound [of st] m(2) by (simp add: ready_def)
  obtain st1 st2 st'' where p: "calc_choice_first (calc_fuel m) r st = Some st1"
    "st2 = set_flags r {SYMBOL_VALID} st1" "evolves {} st st2" "ready m st2" "r \<in> refs st2"
    "calc_marked (calc_fuel m) r st2 = Some st''" "calc_body (calc_fuel m) r st = Some st''"
    "evolves {r} st2 st''"
    by (rule calc_body_parts [OF calc_fuel_ok rd r(2) v])
  have st': "st'' = st'" using res m(1) p(7) by simp
  have ty2: "s_type (syms st2 r) = s_type (syms st r)" by (rule same_shapeD(2) [OF evolves_shape [OF p(3)]])
  have "calc_valued (calc_fuel m) r (s_curr (syms st2 r)) new st2 = Some st'"
    using p(6) ty ty2 st' by (simp add: calc_marked_def Let_def)
  moreover have "ordinary (syms st2 r)" using ordinary_evolves [OF p(3)] o by simp
  moreover have "SYMBOL_VALID \<in> s_flags (syms st2 r)" by (simp add: p(2) set_flags_def)
  ultimately show ?thesis using that p ty2 st' by blast
qed

section \<open>Texts\<close>

lemma finish_str:
  assumes "ordinary (syms st r)" "SYMBOL_NEED_SET_CHOICE_VALUES \<notin> s_flags (syms st r)"
    and "props_of P_RANGE (syms st r) = []" "finish_value calc r old new st = Some st'"
  shows "settled ((syms st r)\<lparr>s_curr := new\<rparr>) (syms st' r)"
proof -
  define st1 where "st1 = set_curr r new st"
  have s1: "syms st1 r = (syms st r)\<lparr>s_curr := new\<rparr>" by (simp add: st1_def set_curr_def)
  have o: "ordinary (syms st1 r)" "SYMBOL_NEED_SET_CHOICE_VALUES \<notin> s_flags (syms st1 r)"
    using assms(1,2) by (simp_all add: s1 ordinary_def sym_is_choice_def sym_is_choice_value_def)
  have "sym_validate_range calc r st1 = Some st1"
    using assms(3) by (simp add: sym_validate_range_def sym_get_range_prop_def s1 props_of_def split: option.splits)
  then have "finish_value calc r old new st = (do {
      st \<leftarrow> mark_members r (note_change old r st1);
      let st = (if SYMBOL_AUTO \<in> s_flags (syms st r) then clear_flags r {SYMBOL_WRITE} st else st);
      if SYMBOL_NEED_SET_CHOICE_VALUES \<in> s_flags (syms st r) then set_all_choice_values r st else Some st })"
    using o(1) by (simp add: finish_value_def st1_def [symmetric] choose_value_def ordinary_def)
  with no_choice_end [OF o, of old] assms(4) have "\<forall>x. settled (syms st1 x) (syms st' x)" by auto
  then show ?thesis using s1 by metis
qed

text \<open>A text without a range: the user's one where the symbol is visible and has one.\<close>

lemma calc_value_str:
  assumes "wf_symtab st" "r \<in> refs st" "sym_calc_value r st = Some st'"
    and "SYMBOL_VALID \<notin> s_flags (syms st r)" "ordinary (syms st r)"
    and "s_type (syms st r) \<in> {S_INT, S_HEX, S_STRING}" "props_of P_RANGE (syms st r) = []"
    and "s_visible (syms st' r) \<noteq> T_no" "sym_has_value (syms st' r)"
  shows "s_curr (syms st' r) = (fst (s_user (syms st' r)), T_no)"
proof -
  have "\<exists>new. start_value (s_type (syms st r)) = Some new" using assms(6) by (simp add: start_value_def)
  then obtain new where "start_value (s_type (syms st r)) = Some new" by blast
  then obtain m st2 old where s: "ready m st2" "r \<in> refs st2" "evolves {} st st2"
    "SYMBOL_VALID \<in> s_flags (syms st2 r)" "ordinary (syms st2 r)" "s_type (syms st2 r) = s_type (syms st r)"
    "calc_valued (calc_fuel m) r old new st2 = Some st'" "evolves {r} st2 st'"
    by (rule calc_value_steps [OF assms(1,2,4,3,5)])
  obtain st3 nv st4 where e: "evolves {r} st2 st3" "SYMBOL_VALID \<in> s_flags (syms st3 r)"
    "new_value (calc_fuel m) r st3 = Some (nv, st4)" "evolves {} st3 st4"
    and f: "finish_value (calc_fuel m) r old nv st4 = Some st'"
    by (rule valued_steps [OF calc_fuel_ok s(1,2,4,5,7)])
  have all: "evolves {r} st2 st4" using evolves_trans [OF e(1) evolves_mono [OF e(4), of "{r}"]] by simp
  note ok4 = ready_sym_ok [OF s(1,2) all]
  have o: "ordinary (syms st4 r)" "ordinary (syms st3 r)"
    using ordinary_evolves [OF all] ordinary_evolves [OF e(1)] s(5) by simp_all
  have ps: "props_of P_RANGE (syms st4 r) = []"
    using same_shapeD(10) [OF evolves_shape [OF s(3)]] same_shapeD(10) [OF evolves_shape [OF all]] assms(7) by simp
  have fin: "settled ((syms st4 r)\<lparr>s_curr := nv\<rparr>) (syms st' r)"
    by (rule finish_str [OF o(1) ordinary_need [OF ok4(2) o(1)] ps f])
  have s34: "settled (syms st3 r) (syms st4 r)" by (rule evolves_settled(1) [OF e(4,2) o(2)])
  have own: "s_visible (syms st3 r) \<noteq> T_no" "sym_has_value (syms st3 r)"
    "s_user (syms st' r) = s_user (syms st3 r)" "s_curr (syms st' r) = nv"
    using fin s34 assms(8,9) by (simp_all add: settled_def sym_has_value_def)
  have "\<not> is_tri (s_type (syms st3 r))"
    using same_shapeD(2) [OF evolves_shape [OF e(1)], of r] s(6) assms(6) by (auto simp: is_tri_def)
  then have "nv = (fst (s_user (syms st3 r)), T_no)"
    using e(3) own by (simp add: new_value_def str_value_def Let_def symbol_empty_def)
  with own show ?thesis by simp
qed

lemma calc_value_tri:
  assumes "wf_symtab st" "r \<in> refs st" "sym_calc_value r st = Some st'"
    and "SYMBOL_VALID \<notin> s_flags (syms st r)" "ordinary (syms st r)" "is_tri (s_type (syms st r))"
  shows "snd (s_rev_dep (syms st' r)) \<le> snd (s_curr (syms st' r))"
    and "s_type (syms st' r) = S_BOOLEAN \<longrightarrow> snd (s_curr (syms st' r)) \<noteq> T_mod"
    and "\<exists>t. tri_result st st' r (EXPR_OR t (snd (s_rev_dep (syms st' r)))) \<and>
       (s_visible (syms st' r) \<noteq> T_no \<and> sym_has_value (syms st' r) \<longrightarrow>
          t = EXPR_AND (snd (s_user (syms st' r))) (s_visible (syms st' r))) \<and>
       (props_of P_DEFAULT (syms st' r) = [] \<and>
          \<not> (s_visible (syms st' r) \<noteq> T_no \<and> sym_has_value (syms st' r)) \<longrightarrow> t = T_no)"
proof -
  have "\<exists>new. start_value (s_type (syms st r)) = Some new"
    using assms(6) by (simp add: start_value_def)
  then obtain new where "start_value (s_type (syms st r)) = Some new" by blast
  then obtain m st2 old where s: "ready m st2" "r \<in> refs st2" "evolves {} st st2"
    "SYMBOL_VALID \<in> s_flags (syms st2 r)" "ordinary (syms st2 r)" "s_type (syms st2 r) = s_type (syms st r)"
    "calc_valued (calc_fuel m) r old new st2 = Some st'" "evolves {r} st2 st'"
    by (rule calc_value_steps [OF assms(1,2,4,3,5)])
  have ty: "s_type (syms st' r) = s_type (syms st r)" using same_shapeD(2) [OF evolves_shape [OF s(8)]] s(6) by simp
  obtain t where t: "tri_result st2 st' r (EXPR_OR t (snd (s_rev_dep (syms st' r))))"
    "s_visible (syms st' r) \<noteq> T_no \<and> sym_has_value (syms st' r) \<longrightarrow>
       t = EXPR_AND (snd (s_user (syms st' r))) (s_visible (syms st' r))"
    "props_of P_DEFAULT (syms st' r) = [] \<and>
       \<not> (s_visible (syms st' r) \<noteq> T_no \<and> sym_has_value (syms st' r)) \<longrightarrow> t = T_no"
    using calc_valued_tri [OF calc_fuel_ok s(1,2,4,5) _ s(7)] assms(6) s(6) by auto
  have tr: "tri_result st st' r (EXPR_OR t (snd (s_rev_dep (syms st' r))))"
    using t(1) evolvesD(3) [OF s(3)] by (simp add: tri_result_def)
  have "snd (s_rev_dep (syms st' r)) \<le> EXPR_OR t (snd (s_rev_dep (syms st' r)))"
    by (auto simp: EXPR_OR_def)
  with tr show "snd (s_rev_dep (syms st' r)) \<le> snd (s_curr (syms st' r))"
    unfolding tri_result_def Let_def by (meson order_trans)
  show "s_type (syms st' r) = S_BOOLEAN \<longrightarrow> snd (s_curr (syms st' r)) \<noteq> T_mod"
    using tr by (auto simp: tri_result_def Let_def)
  show "\<exists>t. tri_result st st' r (EXPR_OR t (snd (s_rev_dep (syms st' r)))) \<and>
       (s_visible (syms st' r) \<noteq> T_no \<and> sym_has_value (syms st' r) \<longrightarrow>
          t = EXPR_AND (snd (s_user (syms st' r))) (s_visible (syms st' r))) \<and>
       (props_of P_DEFAULT (syms st' r) = [] \<and>
          \<not> (s_visible (syms st' r) \<noteq> T_no \<and> sym_has_value (syms st' r)) \<longrightarrow> t = T_no)"
    using tr t(2,3) by blast
qed

section \<open>Properties\<close>

text \<open>
  C32: the value calculated for a boolean or tristate symbol (no choice, no member of one). It is never
  below the reverse dependency, a boolean symbol is never \<open>m\<close>; a visible symbol with a user value has
  that value cut down to the visibility and raised to the reverse dependency; one without user value
  and defaults has the reverse dependency; where \<open>m\<close> is not allowed it is \<open>y\<close>. (Nothing is said of the value a
  default gives, which may be above the visibility.)
\<close>

theorem calculated_tristate:
  assumes "wf_symtab st" "r \<in> refs st" "sym_calc_value r st = Some st'"
    and "SYMBOL_VALID \<notin> s_flags (syms st r)" "ordinary (syms st r)" "is_tri (s_type (syms st r))"
  shows "let s = syms st' r; own = (s_visible s \<noteq> T_no \<and> sym_has_value s) in
    snd (s_rev_dep s) \<le> snd (s_curr s) \<and> (s_type s = S_BOOLEAN \<longrightarrow> snd (s_curr s) \<noteq> T_mod) \<and>
    (\<exists>t. tri_result st st' r (EXPR_OR t (snd (s_rev_dep s))) \<and>
       (own \<longrightarrow> t = EXPR_AND (snd (s_user s)) (s_visible s)) \<and>
       (props_of P_DEFAULT s = [] \<and> \<not> own \<longrightarrow> t = T_no))"
  unfolding Let_def using calc_value_tri [OF assms] by blast

theorem calculated_tristate_witness:
  "\<exists>st'. sym_calc_value (SymId 5) sample_symtab = Some st' \<and>
     snd (s_curr (syms st' (SymId 5))) \<noteq> T_mod \<and> s_visible (syms st' (SymId 5)) = T_yes"
proof -
  have v: "map_option (\<lambda>st. s_visible (syms st (SymId 5))) (sym_calc_value (SymId 5) sample_symtab) = Some T_yes"
    by code_simp
  then obtain st' where st': "sym_calc_value (SymId 5) sample_symtab = Some st'"
    "s_visible (syms st' (SymId 5)) = T_yes" by auto
  have r: "SymId 5 \<in> refs sample_symtab" by (simp add: refs_def sample_symtab_def)
  have s: "SYMBOL_VALID \<notin> s_flags (syms sample_symtab (SymId 5))" "ordinary (syms sample_symtab (SymId 5))"
    "is_tri (s_type (syms sample_symtab (SymId 5)))"
    by (simp_all add: sample_symtab_def ordinary_def sym_is_choice_def sym_is_choice_value_def is_tri_def)
  have "map_option (\<lambda>st. s_type (syms st (SymId 5))) (sym_calc_value (SymId 5) sample_symtab) = Some S_BOOLEAN"
    by code_simp
  with calculated_tristate [OF sample_wf r st'(1) s] st' show ?thesis by (simp add: Let_def)
qed

text \<open>
  C33: the value calculated for an ordinary integer, or for a hexadecimal number with bounds that are not negative,
  lies inside the first of its ranges whose condition is not n (over the values all symbols have then), where the
  lower bound is not above the upper one, whatever the user or a default set. No condition of a range may name the symbol itself,
  the bounds are other symbols, the symbol is not that of modules, and no choice waits for its values to be drawn.
\<close>

theorem calculated_in_range:
  assumes "wf_symtab st" "r \<in> refs st" "sym_calc_value r st = Some st'"
    and "SYMBOL_VALID \<notin> s_flags (syms st r)" "ordinary (syms st r)"
    and "value_base (s_type (syms st r)) = Some base"
    and "find (\<lambda>q. cond_value st' q \<noteq> T_no) (props_of P_RANGE (syms st r)) = Some p" "range_syms p = Some (lo, hi)"
    and "\<forall>q \<in> set (props_of P_RANGE (syms st r)). r \<notin> cond_syms q" "modules_sym st \<noteq> Some r" "lo \<noteq> r" "hi \<noteq> r"
    and "no_need st"
    and "s_type (syms st r) = S_INT \<or> 0 \<le> num_value base (syms st' lo)"
    and "num_value base (syms st' lo) \<le> num_value base (syms st' hi)"
  shows "num_value base (syms st' lo) \<le> num_value base (syms st' r) \<and>
    num_value base (syms st' r) \<le> num_value base (syms st' hi)"
proof -
  obtain new where "start_value (s_type (syms st r)) = Some new"
    using assms(6) by (cases "s_type (syms st r)") (simp_all add: start_value_def)
  then obtain m st2 old where s: "ready m st2" "r \<in> refs st2" "evolves {} st st2"
    "SYMBOL_VALID \<in> s_flags (syms st2 r)" "ordinary (syms st2 r)" "s_type (syms st2 r) = s_type (syms st r)"
    "calc_valued (calc_fuel m) r old new st2 = Some st'" "evolves {r} st2 st'"
    by (rule calc_value_steps [OF assms(1,2,4,3,5)])
  obtain st3 nv st4 where e: "evolves {r} st2 st3" "SYMBOL_VALID \<in> s_flags (syms st3 r)"
    "evolves {} st3 st4" and f: "finish_value (calc_fuel m) r old nv st4 = Some st'"
    by (rule valued_steps [OF calc_fuel_ok s(1,2,4,5,7)])
  have all: "evolves {r} st st4"
    using evolves_trans [OF evolves_mono [OF s(3)] evolves_trans [OF e(1) evolves_mono [OF e(3)]]] by simp
  note ok4 = ready_sym_ok [OF s(1,2) evolves_trans [OF e(1) evolves_mono [OF e(3), of "{r}", simplified]]]
  note sh = same_shapeD [OF evolves_shape [OF all, of r]]
  have v4: "SYMBOL_VALID \<in> s_flags (syms st4 r)"
    using evolvesD(4) [OF e(3), of r] e(2) by (simp add: sym_step_def)
  have o4: "ordinary (syms st4 r)" using ordinary_evolves [OF all] assms(5) by simp
  show ?thesis
    using finish_range [OF calc_fuel_ok calc_fuel_valid_ok ok4(1,3) v4 o4 _ no_need_evolves [OF all assms(13)] _ assms(8) _ _
        assms(11,12) f, of base] assms(6,7,9,10,14,15) sh(2,10) evolvesD(3) [OF all]
    by simp
qed

theorem calculated_in_range_witness:
  "\<exists>st'. sym_calc_value (SymId 6) sample_symtab = Some st' \<and>
     1 \<le> num_value 10 (syms st' (SymId 6)) \<and> num_value 10 (syms st' (SymId 6)) \<le> 10"
proof -
  have v: "map_option (\<lambda>st. (num_value 10 (syms st (SymId 7)), num_value 10 (syms st (SymId 8))))
      (sym_calc_value (SymId 6) sample_symtab) = Some (1, 10)"
    by code_simp
  then obtain st' where st': "sym_calc_value (SymId 6) sample_symtab = Some st'"
    "num_value 10 (syms st' (SymId 7)) = 1" "num_value 10 (syms st' (SymId 8)) = 10" by auto
  have r: "SymId 6 \<in> refs sample_symtab" by (simp add: refs_def sample_symtab_def)
  let ?p = "sample_property P_RANGE None (Some (ERange (SymId 7) (SymId 8)))"
  have s: "SYMBOL_VALID \<notin> s_flags (syms sample_symtab (SymId 6))" "ordinary (syms sample_symtab (SymId 6))"
    "value_base (s_type (syms sample_symtab (SymId 6))) = Some 10"
    by (simp_all add: sample_symtab_def ordinary_def sym_is_choice_def sym_is_choice_value_def)
  have ps: "props_of P_RANGE (syms sample_symtab (SymId 6)) = [?p]"
    by (simp add: sample_symtab_def props_of_def sample_property_def)
  have p: "find (\<lambda>q. cond_value st' q \<noteq> T_no) (props_of P_RANGE (syms sample_symtab (SymId 6))) = Some ?p"
    "range_syms ?p = Some (SymId 7, SymId 8)"
    "\<forall>q \<in> set (props_of P_RANGE (syms sample_symtab (SymId 6))). SymId 6 \<notin> cond_syms q"
    by (simp_all add: ps cond_value_def cond_syms_def sample_property_def range_syms_def)
  have "SYMBOL_NEED_SET_CHOICE_VALUES \<notin> s_flags (static_symbol x)" for x
    by (cases x) (simp_all add: symbol_yes_def symbol_mod_def symbol_no_def symbol_empty_def blank_symbol_def)
  then have n: "no_need sample_symtab" "modules_sym sample_symtab \<noteq> Some (SymId 6)"
    "s_type (syms sample_symtab (SymId 6)) = S_INT"
    by (auto simp: no_need_def sample_symtab_def sample_const_def blank_symbol_def)
  show ?thesis
    using calculated_in_range [OF sample_wf r st'(1) s p n(2) _ _ n(1)] n(3) st' by simp
qed

end
