(* ===== verification/Kcheck.thy ===== *)
theory Kcheck
  imports Kcalc
begin

text \<open>
  The search for recursive dependencies, from \<open>support/kconfig/symbol.c\<close>: \<open>sym_check_deps\<close> walks from a
  symbol through its dependencies with the flags \<open>SYMBOL_CHECK\<close> (on the way) and \<open>SYMBOL_CHECKED\<close> (was
  visited), and prints the way where it comes back to a symbol on it. The entries of \<open>check_top\<close> are
  a list, the innermost first; only the call that made an entry changes it, so the functions
  below get the list with the entry as it is. None: a NULL pointer is followed, or the bound of
  the recursion is reached, which \<open>check_deps_ends\<close> excludes.
\<close>

section \<open>The stack\<close>

record dep_entry =
  d_sym :: symref
  d_prop :: "property option"
  d_expr :: "expr option"

definition dep_entry_of :: "symref \<Rightarrow> dep_entry" where
  "dep_entry_of r = \<lparr>d_sym = r, d_prop = None, d_expr = None\<rparr>"

definition dep_stack_insert :: "symref \<Rightarrow> dep_entry list \<Rightarrow> dep_entry list" where
  "dep_stack_insert r stk = dep_entry_of r # stk"

section \<open>Printing\<close>

definition choice_of :: "symbol \<Rightarrow> symref option" where
  "choice_of s = Option.bind (sym_get_choice_prop s) prop_get_symbol"

definition name_or_choice :: "symtab \<Rightarrow> symref \<Rightarrow> cstring" where
  "name_or_choice st r = (case s_name (syms st r) of Some n \<Rightarrow> n | None \<Rightarrow> ''<choice>'')"

definition place :: "cstring \<times> nat \<Rightarrow> cstring" where
  "place p = fst p @ '':'' @ dec_of_nat (snd p) @ '':''"

definition tab :: cstring where
  "tab = [CHR 0x09]"

text \<open>
  The text for one entry; \<open>next_sym\<close> is the symbol of the entry above it. \<open>menu_pos\<close> gives the file and
  line of a menu. For a choice or a member the property is the first one with a menu.
\<close>

definition entry_prop :: "symtab \<Rightarrow> dep_entry \<Rightarrow> property option" where
  "entry_prop st d =
     (let s = syms st (d_sym d) in
      if sym_is_choice s \<or> sym_is_choice_value s then find (\<lambda>p. p_menu p \<noteq> None) (s_props s)
      else case d_prop d of Some p \<Rightarrow> Some p
        | None \<Rightarrow> (case s_props s of p # _ \<Rightarrow> Some p | [] \<Rightarrow> None))"

definition entry_text ::
  "(nat \<Rightarrow> cstring \<times> nat) \<Rightarrow> symtab \<Rightarrow> symref \<Rightarrow> dep_entry \<Rightarrow> symref \<Rightarrow> cstring list option" where
  "entry_text menu_pos st last_sym d next_sym = do {
     prop \<leftarrow> entry_prop st d;
     let s = syms st (d_sym d);
     let here = place (p_pos prop);
     let name = name_or_choice st (d_sym d);
     let other = name_or_choice st next_sym;
     let first = (if d_sym d = last_sym then [here @ ''error: recursive dependency detected!''] else []);
     line \<leftarrow>
       (if d_expr d \<noteq> None
        then Some (here @ tab @ ''symbol '' @ name @ '' '' @ prop_get_type_name (p_type prop) @ '' value contains '' @ other)
        else if d_prop d \<noteq> None then Some (here @ tab @ ''symbol '' @ name @ '' depends on '' @ other)
        else if sym_is_choice s
        then map_option (\<lambda>m. place (menu_pos m) @ tab @ ''choice '' @ name @ '' contains symbol '' @ other) (p_menu prop)
        else if sym_is_choice_value s
        then map_option (\<lambda>m. place (menu_pos m) @ tab @ ''symbol '' @ name @ '' is part of choice '' @ other) (p_menu prop)
        else Some (here @ tab @ ''symbol '' @ name @ '' is selected by '' @ other));
     Some (first @ [line])
   }"

fun entries_text ::
  "(nat \<Rightarrow> cstring \<times> nat) \<Rightarrow> symtab \<Rightarrow> symref \<Rightarrow> dep_entry list \<Rightarrow> cstring list option" where
  "entries_text menu_pos st last_sym [] = Some []"
| "entries_text menu_pos st last_sym (d # ds) = do {
     ls \<leftarrow> entry_text menu_pos st last_sym d (case ds of d' # _ \<Rightarrow> d_sym d' | [] \<Rightarrow> last_sym);
     ls' \<leftarrow> entries_text menu_pos st last_sym ds;
     Some (ls @ ls')
   }"

text \<open>
  From the entry of the symbol up to the top. Without one the function returns early; for a member of a
  choice it then leaves \<open>check_top\<close> at an entry that no longer exists: None.
\<close>

definition sym_check_print_recursive ::
  "(nat \<Rightarrow> cstring \<times> nat) \<Rightarrow> dep_entry list \<Rightarrow> symref \<Rightarrow> symtab \<Rightarrow> symtab option" where
  "sym_check_print_recursive menu_pos stk last_sym st =
     (let cv = sym_is_choice_value (syms st last_sym) in do {
        (stk, last_sym) \<leftarrow>
          (if cv then map_option (\<lambda>c. (dep_stack_insert last_sym stk, c)) (choice_of (syms st last_sym))
           else Some (stk, last_sym));
        let above = takeWhile (\<lambda>d. d_sym d \<noteq> last_sym) stk;
        case drop (length above) stk of
          [] \<Rightarrow> if cv then None
             else Some (st\<lparr>warnings := warnings st @ [''unexpected recursive dependency error'']\<rparr>)
        | d # _ \<Rightarrow> do {
            ls \<leftarrow> entries_text menu_pos st last_sym (d # rev above);
            Some (st\<lparr>warnings := warnings st @ ls\<rparr>)
          }
      })"

section \<open>The walk\<close>

type_synonym checker = "dep_entry list \<Rightarrow> symref \<Rightarrow> symtab \<Rightarrow> (symref option \<times> symtab) option"

definition check_two ::
  "checker \<Rightarrow> dep_entry list \<Rightarrow> symref \<Rightarrow> symref \<Rightarrow> symtab \<Rightarrow> (symref option \<times> symtab) option" where
  "check_two chk stk s t st = do {
     (sym, st) \<leftarrow> chk stk s st;
     if sym \<noteq> None then Some (sym, st) else chk stk t st
   }"

fun sym_check_expr_deps ::
  "checker \<Rightarrow> dep_entry list \<Rightarrow> expr \<Rightarrow> symtab \<Rightarrow> (symref option \<times> symtab) option" where
  "sym_check_expr_deps chk stk (EOr l r) st = do {
     (sym, st) \<leftarrow> sym_check_expr_deps chk stk l st;
     if sym \<noteq> None then Some (sym, st) else sym_check_expr_deps chk stk r st
   }"
| "sym_check_expr_deps chk stk (EAnd l r) st = do {
     (sym, st) \<leftarrow> sym_check_expr_deps chk stk l st;
     if sym \<noteq> None then Some (sym, st) else sym_check_expr_deps chk stk r st
   }"
| "sym_check_expr_deps chk stk (ENot x) st = sym_check_expr_deps chk stk x st"
| "sym_check_expr_deps chk stk (EEqual s t) st = check_two chk stk s t st"
| "sym_check_expr_deps chk stk (EUnequal s t) st = check_two chk stk s t st"
| "sym_check_expr_deps chk stk (ESymbol s) st = chk stk s st"
| "sym_check_expr_deps chk stk _ st = Some (None, st)"

definition check_opt ::
  "checker \<Rightarrow> dep_entry list \<Rightarrow> expr option \<Rightarrow> symtab \<Rightarrow> (symref option \<times> symtab) option" where
  "check_opt chk stk e st =
     (case e of None \<Rightarrow> Some (None, st) | Some x \<Rightarrow> sym_check_expr_deps chk stk x st)"

fun check_props ::
  "checker \<Rightarrow> dep_entry list \<Rightarrow> symref \<Rightarrow> property list \<Rightarrow> symtab \<Rightarrow> (symref option \<times> symtab) option" where
  "check_props chk stk r [] st = Some (None, st)"
| "check_props chk stk r (p # ps) st =
     (if p_type p = P_CHOICE \<or> p_type p = P_SELECT then check_props chk stk r ps st
      else do {
        let d = (dep_entry_of r)\<lparr>d_prop := Some p\<rparr>;
        (sym2, st) \<leftarrow> check_opt chk (d # stk) (p_visible p) st;
        if sym2 \<noteq> None then Some (sym2, st)
        else if p_type p \<noteq> P_DEFAULT \<or> sym_is_choice (syms st r) then check_props chk stk r ps st
        else do {
          (sym2, st) \<leftarrow> check_opt chk (d\<lparr>d_expr := p_expr p\<rparr> # stk) (p_expr p) st;
          if sym2 \<noteq> None then Some (sym2, st) else check_props chk stk r ps st
        }
      })"

definition sym_check_sym_deps ::
  "checker \<Rightarrow> dep_entry list \<Rightarrow> symref \<Rightarrow> symtab \<Rightarrow> (symref option \<times> symtab) option" where
  "sym_check_sym_deps chk stk r st = do {
     (sym2, st) \<leftarrow> check_opt chk (dep_stack_insert r stk) (fst (s_rev_dep (syms st r))) st;
     if sym2 \<noteq> None then Some (sym2, st) else check_props chk stk r (s_props (syms st r)) st
   }"

fun check_members ::
  "checker \<Rightarrow> dep_entry list \<Rightarrow> symref list \<Rightarrow> symtab \<Rightarrow> (symref option \<times> symtab) option" where
  "check_members chk stk [] st = Some (None, st)"
| "check_members chk stk (d # ds) st = do {
     (sym2, st) \<leftarrow> sym_check_sym_deps chk stk d st;
     if sym2 \<noteq> None then Some (sym2, st) else check_members chk stk ds st
   }"

definition enter :: "symref \<Rightarrow> symtab \<Rightarrow> symtab" where
  "enter r = set_flags r {SYMBOL_CHECK, SYMBOL_CHECKED}"

definition leave :: "symref \<Rightarrow> symtab \<Rightarrow> symtab" where
  "leave r = clear_flags r {SYMBOL_CHECK}"

definition sym_check_choice_deps ::
  "checker \<Rightarrow> dep_entry list \<Rightarrow> symref \<Rightarrow> symtab \<Rightarrow> (symref option \<times> symtab) option" where
  "sym_check_choice_deps chk stk choice st = do {
     let stk = dep_stack_insert choice stk;
     prop \<leftarrow> sym_get_choice_prop (syms st choice);
     let st = fold enter (members prop) st;
     let st = enter choice st;
     (sym2, st) \<leftarrow> sym_check_sym_deps chk stk choice st;
     let st = leave choice st;
     (sym2, st) \<leftarrow>
       (if sym2 \<noteq> None then Some (sym2, st) else check_members chk stk (members prop) st);
     let st = fold leave (members prop) st;
     case sym2 of
       None \<Rightarrow> Some (None, st)
     | Some x \<Rightarrow>
         if sym_is_choice_value (syms st x)
         then do {
           p \<leftarrow> sym_get_choice_prop (syms st x);
           Some (Some (if prop_get_symbol p = Some choice then choice else x), st)
         }
         else Some (Some x, st)
   }"

definition check_body ::
  "(nat \<Rightarrow> cstring \<times> nat) \<Rightarrow> checker \<Rightarrow> dep_entry list \<Rightarrow> symref \<Rightarrow> symtab \<Rightarrow> (symref option \<times> symtab) option" where
  "check_body menu_pos chk stk r st =
     (let s = syms st r in
      if SYMBOL_CHECK \<in> s_flags s
      then map_option (\<lambda>st. (Some r, st)) (sym_check_print_recursive menu_pos stk r st)
      else if SYMBOL_CHECKED \<in> s_flags s then Some (None, st)
      else do {
        (sym2, st) \<leftarrow>
          (if sym_is_choice_value s
           then do {
             prop \<leftarrow> sym_get_choice_prop s;
             c \<leftarrow> prop_get_symbol prop;
             chk (dep_stack_insert r stk) c st
           }
           else if sym_is_choice s then sym_check_choice_deps chk stk r st
           else do {
             (sym2, st) \<leftarrow> sym_check_sym_deps chk stk r (enter r st);
             Some (sym2, leave r st)
           });
        Some (if sym2 = Some r then None else sym2, st)
      })"

fun check_fuel :: "(nat \<Rightarrow> cstring \<times> nat) \<Rightarrow> nat \<Rightarrow> checker" where
  "check_fuel menu_pos 0 stk r st = None"
| "check_fuel menu_pos (Suc n) stk r st = check_body menu_pos (check_fuel menu_pos n) stk r st"

definition check_depth :: "symtab \<Rightarrow> nat" where
  "check_depth st = 2 * (next_id st + 4) + 2"

definition sym_check_deps :: "(nat \<Rightarrow> cstring \<times> nat) \<Rightarrow> symref \<Rightarrow> symtab \<Rightarrow> (symref option \<times> symtab) option" where
  "sym_check_deps menu_pos r st = check_fuel menu_pos (check_depth st) [] r st"

text \<open>The loop of \<open>conf_parse\<close> in \<open>zconf.y\<close>, with the number of errors it counts.\<close>

fun check_all ::
  "(nat \<Rightarrow> cstring \<times> nat) \<Rightarrow> symref list \<Rightarrow> symtab \<Rightarrow> (nat \<times> symtab) option" where
  "check_all menu_pos [] st = Some (0, st)"
| "check_all menu_pos (r # rs) st = do {
     (sym, st) \<leftarrow> sym_check_deps menu_pos r st;
     (n, st) \<leftarrow> check_all menu_pos rs st;
     Some (if sym \<noteq> None then Suc n else n, st)
   }"

section \<open>What a walk changes\<close>

definition grey :: "symtab \<Rightarrow> symref \<Rightarrow> bool" where
  "grey st r \<longleftrightarrow> SYMBOL_CHECK \<in> s_flags (syms st r)"

definition seen :: "symtab \<Rightarrow> symref \<Rightarrow> bool" where
  "seen st r \<longleftrightarrow> SYMBOL_CHECKED \<in> s_flags (syms st r)"

definition check_flags :: "sflag set" where
  "check_flags = {SYMBOL_CHECK, SYMBOL_CHECKED}"

definition same_but_check :: "symbol \<Rightarrow> symbol \<Rightarrow> bool" where
  "same_but_check s s' \<longleftrightarrow> s' = s\<lparr>s_flags := s_flags s'\<rparr> \<and> s_flags s' - check_flags = s_flags s - check_flags \<and>
     (SYMBOL_CHECKED \<in> s_flags s \<longrightarrow> SYMBOL_CHECKED \<in> s_flags s')"

definition walks :: "symtab \<Rightarrow> symtab \<Rightarrow> bool" where
  "walks st st' \<longleftrightarrow> next_id st' = next_id st \<and> buckets st' = buckets st \<and> modules_sym st' = modules_sym st \<and>
     (\<exists>ws. warnings st' = warnings st @ ws) \<and> (\<forall>r. same_but_check (syms st r) (syms st' r))"

lemma same_but_check_refl [simp]: "same_but_check s s"
  by (simp add: same_but_check_def)

lemma same_but_check_trans: "same_but_check a b \<Longrightarrow> same_but_check b c \<Longrightarrow> same_but_check a c"
  unfolding same_but_check_def by (metis symbol.update_convs(7) symbol.surjective)

lemma walks_refl [simp]: "walks st st"
  by (simp add: walks_def)

lemma walks_trans: "walks st st' \<Longrightarrow> walks st' st'' \<Longrightarrow> walks st st''"
  unfolding walks_def using same_but_check_trans by (metis append.assoc)

lemma same_but_check_parts:
  assumes "same_but_check s s'"
  shows "s_type s' = s_type s" "s_name s' = s_name s" "s_props s' = s_props s" "s_curr s' = s_curr s"
    "s_user s' = s_user s" "s_visible s' = s_visible s" "s_dir_dep s' = s_dir_dep s" "s_rev_dep s' = s_rev_dep s"
    "s_auto s' = s_auto s"
proof -
  obtain fs where "s' = s\<lparr>s_flags := fs\<rparr>" using assms unfolding same_but_check_def by blast
  then show "s_type s' = s_type s" "s_name s' = s_name s" "s_props s' = s_props s" "s_curr s' = s_curr s"
    "s_user s' = s_user s" "s_visible s' = s_visible s" "s_dir_dep s' = s_dir_dep s" "s_rev_dep s' = s_rev_dep s"
    "s_auto s' = s_auto s"
    by simp_all
qed

lemma same_but_check_flag:
  assumes "same_but_check s s'" "f \<noteq> SYMBOL_CHECK" "f \<noteq> SYMBOL_CHECKED"
  shows "f \<in> s_flags s' \<longleftrightarrow> f \<in> s_flags s"
  using assms by (auto simp: same_but_check_def check_flags_def)

lemma walks_sym_step: "same_but_check s s' \<Longrightarrow> sym_step b s s'"
  using same_but_check_parts [of s s'] same_but_check_flag [of s s']
  by (auto simp: sym_step_defs)

lemma walks_evolves: "walks st st' \<Longrightarrow> evolves {} st st'"
  by (simp add: walks_def evolves_def walks_sym_step)

lemma walksD:
  assumes "walks st st'"
  shows "refs st' = refs st" "wf_symtab st \<Longrightarrow> wf_symtab st'" "same_but_check (syms st r) (syms st' r)"
    "seen st r \<Longrightarrow> seen st' r" "sym_is_choice (syms st' r) = sym_is_choice (syms st r)"
    "sym_is_choice_value (syms st' r) = sym_is_choice_value (syms st r)"
    "choice_of (syms st' r) = choice_of (syms st r)" "s_props (syms st' r) = s_props (syms st r)"
    "s_rev_dep (syms st' r) = s_rev_dep (syms st r)"
    "sym_get_choice_prop (syms st' r) = sym_get_choice_prop (syms st r)"
proof -
  show r: "same_but_check (syms st r) (syms st' r)" for r using assms by (simp add: walks_def)
  note e = walks_evolves [OF assms]
  show "refs st' = refs st" "wf_symtab st \<Longrightarrow> wf_symtab st'"
    using evolvesD(5) [OF e] evolves_wf [OF e] by simp_all
  show "seen st r \<Longrightarrow> seen st' r" using r by (simp add: seen_def same_but_check_def)
  note sh = same_shapeD [OF evolves_shape [OF e, of r]]
  show "sym_is_choice (syms st' r) = sym_is_choice (syms st r)"
    "sym_is_choice_value (syms st' r) = sym_is_choice_value (syms st r)"
    "sym_get_choice_prop (syms st' r) = sym_get_choice_prop (syms st r)"
    "s_props (syms st' r) = s_props (syms st r)"
    using sh by simp_all
  then show "choice_of (syms st' r) = choice_of (syms st r)" by (simp add: choice_of_def)
  show "s_rev_dep (syms st' r) = s_rev_dep (syms st r)" by (rule same_but_check_parts [OF r])
qed

text \<open>A finished walk leaves the same symbols on the way.\<close>

definition walked :: "symtab \<Rightarrow> symtab \<Rightarrow> bool" where
  "walked st st' \<longleftrightarrow> walks st st' \<and> (\<forall>r. grey st' r = grey st r)"

lemma walked_refl [simp]: "walked st st"
  by (simp add: walked_def)

lemma walked_trans: "walked st st' \<Longrightarrow> walked st' st'' \<Longrightarrow> walked st st''"
  unfolding walked_def using walks_trans by blast

section \<open>Acyclic dependencies\<close>

fun dep_syms :: "expr \<Rightarrow> symref set" where
  "dep_syms (EOr l r) = dep_syms l \<union> dep_syms r"
| "dep_syms (EAnd l r) = dep_syms l \<union> dep_syms r"
| "dep_syms (ENot x) = dep_syms x"
| "dep_syms (EEqual s t) = {s, t}"
| "dep_syms (EUnequal s t) = {s, t}"
| "dep_syms (ESymbol s) = {s}"
| "dep_syms _ = {}"

definition opt_syms :: "expr option \<Rightarrow> symref set" where
  "opt_syms e = (case e of None \<Rightarrow> {} | Some x \<Rightarrow> dep_syms x)"

text \<open>What the value of a symbol depends on: who selects it, conditions of its properties, defaults.\<close>

definition prop_deps :: "property \<Rightarrow> symref set" where
  "prop_deps p = (if p_type p = P_CHOICE \<or> p_type p = P_SELECT then {}
     else opt_syms (p_visible p) \<union> (if p_type p = P_DEFAULT then opt_syms (p_expr p) else {}))"

definition deps :: "symtab \<Rightarrow> symref \<Rightarrow> symref set" where
  "deps st r = opt_syms (fst (s_rev_dep (syms st r))) \<union> (\<Union>p \<in> set (s_props (syms st r)). prop_deps p)"

definition black :: "symtab \<Rightarrow> symref set" where
  "black st = {r. seen st r \<and> \<not> grey st r}"

definition all_ordinary :: "symtab \<Rightarrow> bool" where
  "all_ordinary st \<longleftrightarrow> (\<forall>r. \<not> sym_is_choice (syms st r) \<and> \<not> sym_is_choice_value (syms st r))"

definition ranked :: "symtab \<Rightarrow> bool" where
  "ranked st \<longleftrightarrow> (\<exists>f :: symref \<Rightarrow> nat. \<forall>x \<in> black st. \<forall>y \<in> deps st x. y \<in> black st \<and> f y < f x)"

lemma deps_walks: "walks st st' \<Longrightarrow> deps st' = deps st"
  by (simp add: deps_def fun_eq_iff walksD(8,9))

lemma all_ordinary_walks: "walks st st' \<Longrightarrow> all_ordinary st' = all_ordinary st"
  by (simp add: all_ordinary_def walksD(5,6))

lemma black_walked: "walked st st' \<Longrightarrow> black st \<subseteq> black st'"
  by (auto simp: black_def walked_def walksD(4))

lemma finite_dep_syms: "finite (dep_syms e)"
  by (induction e rule: dep_syms.induct) simp_all

lemma finite_deps: "finite (deps st r)"
  by (auto simp: deps_def prop_deps_def opt_syms_def finite_dep_syms split: option.splits)

lemma ranked_insert:
  assumes "ranked st" "black st' = insert r (black st)" "r \<notin> black st" "deps st' = deps st" "deps st r \<subseteq> black st"
  shows "ranked st'"
proof -
  obtain f where f: "\<And>x y. x \<in> black st \<Longrightarrow> y \<in> deps st x \<Longrightarrow> y \<in> black st \<and> f y < (f x :: nat)"
    using assms(1) by (auto simp: ranked_def)
  define g where "g = f(r := Suc (Max (insert 0 (f ` deps st r))))"
  have old: "x \<noteq> r" if "x \<in> black st" for x using that assms(3) by auto
  have "g y < g x \<and> y \<in> black st'" if "x \<in> black st'" "y \<in> deps st x" for x y
  proof (cases "x = r")
    case True
    with that assms(5) have y: "y \<in> black st" "y \<noteq> r" using old by auto
    have "f y \<le> Max (insert 0 (f ` deps st r))" by (rule Max_ge) (use that True finite_deps in auto)
    with True y assms(2) show ?thesis by (simp add: g_def)
  next
    case False
    with that f [of x y] assms(2) old show ?thesis by (auto simp: g_def)
  qed
  then show ?thesis using assms(4) by (auto simp: ranked_def)
qed

section \<open>Tables the walk is made for\<close>

definition linked :: "symtab \<Rightarrow> bool" where
  "linked st \<longleftrightarrow> (\<forall>r. \<not> (sym_is_choice (syms st r) \<and> sym_is_choice_value (syms st r))) \<and>
     (\<forall>r \<in> refs st. sym_is_choice_value (syms st r) \<longrightarrow>
        (\<exists>c \<in> refs st. choice_of (syms st r) = Some c \<and> sym_is_choice (syms st c))) \<and>
     (\<forall>r \<in> refs st. sym_is_choice (syms st r) \<longrightarrow>
        (\<forall>p. sym_get_choice_prop (syms st r) = Some p \<longrightarrow>
           (\<forall>d \<in> set (members p). choice_of (syms st d) = Some r)))"

text \<open>Every symbol that is selected was defined somewhere; choices and their members in a menu.\<close>

definition defined :: "symtab \<Rightarrow> bool" where
  "defined st \<longleftrightarrow> (\<forall>r \<in> refs st. (fst (s_rev_dep (syms st r)) \<noteq> None \<longrightarrow> s_props (syms st r) \<noteq> []) \<and>
     (sym_is_choice (syms st r) \<or> sym_is_choice_value (syms st r) \<longrightarrow>
        (\<exists>p \<in> set (s_props (syms st r)). p_menu p \<noteq> None)))"

definition checkable :: "symtab \<Rightarrow> bool" where
  "checkable st \<longleftrightarrow> wf_symtab st \<and> linked st \<and> defined st"

lemma walks_checkable: "walks st st' \<Longrightarrow> checkable st \<Longrightarrow> checkable st'"
  by (simp add: checkable_def linked_def defined_def walksD)

text \<open>Every symbol on the way, or the choice it belongs to, has an entry.\<close>

definition on_stack :: "dep_entry list \<Rightarrow> symref \<Rightarrow> bool" where
  "on_stack stk r \<longleftrightarrow> r \<in> d_sym ` set stk"

definition covered :: "dep_entry list \<Rightarrow> symtab \<Rightarrow> bool" where
  "covered stk st \<longleftrightarrow> (\<forall>r. grey st r \<longrightarrow>
     (if sym_is_choice_value (syms st r)
      then \<exists>c. choice_of (syms st r) = Some c \<and> on_stack stk c \<and> seen st c else on_stack stk r))"

text \<open>An entry that can be printed.\<close>

definition entry_ok :: "symtab \<Rightarrow> dep_entry \<Rightarrow> bool" where
  "entry_ok st d \<longleftrightarrow> d_sym d \<in> refs st \<and> (let s = syms st (d_sym d) in
     sym_is_choice s \<or> sym_is_choice_value s \<or> d_prop d \<noteq> None \<or> s_props s \<noteq> [])"

definition stack_ok :: "dep_entry list \<Rightarrow> symtab \<Rightarrow> bool" where
  "stack_ok stk st \<longleftrightarrow> (\<forall>d \<in> set stk. entry_ok st d)"

lemma stack_ok_walks: "walks st st' \<Longrightarrow> stack_ok stk st' = stack_ok stk st"
  by (simp add: stack_ok_def entry_ok_def Let_def walksD(1,5,6,8))

lemma coveredD:
  assumes "covered stk st" "grey st r"
  shows "sym_is_choice_value (syms st r) \<Longrightarrow> \<exists>c. choice_of (syms st r) = Some c \<and> on_stack stk c \<and> seen st c"
    and "\<not> sym_is_choice_value (syms st r) \<Longrightarrow> on_stack stk r"
  using assms by (simp_all add: covered_def)

lemma covered_push: "covered stk st \<Longrightarrow> covered (d # stk) st"
  by (fastforce simp: covered_def on_stack_def)

lemma covered_walked: "walked st st' \<Longrightarrow> covered stk st \<Longrightarrow> covered stk st'"
  unfolding covered_def walked_def by (metis walksD(4,6,7))

definition unseen :: "symtab \<Rightarrow> nat" where
  "unseen st = card {r \<in> refs st. \<not> seen st r}"

lemma unseen_walks: "walks st st' \<Longrightarrow> unseen st' \<le> unseen st"
  unfolding unseen_def by (rule card_mono) (auto simp: walksD(1,4))

lemma unseen_less: "walks st st' \<Longrightarrow> r \<in> refs st \<Longrightarrow> \<not> seen st r \<Longrightarrow> seen st' r \<Longrightarrow> unseen st' < unseen st"
  unfolding unseen_def by (rule psubset_card_mono) (auto simp: walksD(1,4))

section \<open>Printing gives a text\<close>

lemma entry_text_Some:
  assumes "checkable st" "entry_ok st d"
  shows "\<exists>ls. entry_text menu_pos st last_sym d n = Some ls \<and> ls \<noteq> []"
proof -
  let ?s = "syms st (d_sym d)"
  show ?thesis
  proof (cases "sym_is_choice ?s \<or> sym_is_choice_value ?s")
    case True
    then obtain p where "find (\<lambda>p. p_menu p \<noteq> None) (s_props ?s) = Some p"
      using assms by (fastforce simp: checkable_def defined_def entry_ok_def find_None_iff)
    moreover from this have "p_menu p \<noteq> None" by (auto dest: find_SomeD)
    ultimately show ?thesis using True by (auto simp: entry_text_def entry_prop_def Let_def)
  next
    case False
    then show ?thesis
      using assms(2) by (cases "s_props ?s")
        (auto simp: entry_ok_def entry_text_def entry_prop_def Let_def split: option.splits)
  qed
qed

lemma entries_text_Some:
  assumes "checkable st" "stack_ok ds st"
  shows "\<exists>ls. entries_text menu_pos st last_sym ds = Some ls \<and> (ds \<noteq> [] \<longrightarrow> ls \<noteq> [])"
  using assms(2)
proof (induction ds)
  case (Cons d ds)
  then show ?case
    using entry_text_Some [OF assms(1), of d menu_pos last_sym]
    by (fastforce simp: bind_eq_Some_conv stack_ok_def)
qed simp

lemma print_recursive:
  assumes "checkable st" "covered stk st" "stack_ok stk st" "grey st r" "r \<in> refs st"
  shows "\<exists>ls. sym_check_print_recursive menu_pos stk r st = Some (st\<lparr>warnings := warnings st @ ls\<rparr>) \<and> ls \<noteq> []"
proof -
  obtain stk' l where l: "(if sym_is_choice_value (syms st r)
      then map_option (\<lambda>c. (dep_stack_insert r stk, c)) (choice_of (syms st r)) else Some (stk, r)) = Some (stk', l)"
    "on_stack stk' l" "stack_ok stk' st"
  proof (cases "sym_is_choice_value (syms st r)")
    case True
    then obtain c where c: "choice_of (syms st r) = Some c" "on_stack stk c"
      using coveredD(1) [OF assms(2,4)] by blast
    have "on_stack (dep_stack_insert r stk) c" "stack_ok (dep_stack_insert r stk) st"
      using c(2) assms(3,5) True
      by (auto simp: stack_ok_def entry_ok_def dep_stack_insert_def dep_entry_of_def on_stack_def)
    with True c that show ?thesis by simp
  next
    case False
    then have "on_stack stk r" using coveredD(2) [OF assms(2,4)] by simp
    with False assms(3) that show ?thesis by simp
  qed
  define above where "above = takeWhile (\<lambda>d. d_sym d \<noteq> l) stk'"
  have dr: "drop (length above) stk' = dropWhile (\<lambda>d. d_sym d \<noteq> l) stk'"
    unfolding above_def by (rule dropWhile_eq_drop [symmetric])
  obtain d ds where d: "drop (length above) stk' = d # ds" "d \<in> set stk'"
  proof (cases "dropWhile (\<lambda>d. d_sym d \<noteq> l) stk'")
    case Nil
    with l(2) show ?thesis by (auto simp: on_stack_def dropWhile_eq_Nil_conv)
  next
    case (Cons d ds)
    then have "d \<in> set stk'" by (metis list.set_intros(1) set_dropWhileD)
    with Cons dr that show ?thesis by simp
  qed
  have "set above \<subseteq> set stk'" unfolding above_def by (auto dest: set_takeWhileD)
  with d(2) l(3) have "stack_ok (d # rev above) st" by (auto simp: stack_ok_def)
  from entries_text_Some [OF assms(1) this]
  obtain ls where ls: "entries_text menu_pos st l (d # rev above) = Some ls" "ls \<noteq> []" by blast
  show ?thesis
    unfolding sym_check_print_recursive_def Let_def l(1) Option.bind.simps prod.case
      above_def [symmetric] d(1) list.case ls(1) using ls(2) by blast
qed

section \<open>The walk ends\<close>

text \<open>
  A result on the way: the symbols on the way are the same again, a symbol that is returned is one of
  them, and if nothing was printed nothing is returned, and the symbols \<open>Y\<close> are checked.
\<close>

definition checked :: "symref set \<Rightarrow> symtab \<Rightarrow> symref option \<times> symtab \<Rightarrow> bool" where
  "checked Y st x \<longleftrightarrow> (case x of (res, st') \<Rightarrow> walked st st' \<and> (\<forall>s. res = Some s \<longrightarrow> grey st s \<and> s \<in> refs st) \<and>
     (warnings st' = warnings st \<longrightarrow> res = None \<and>
        (all_ordinary st \<longrightarrow> ranked st \<longrightarrow> ranked st' \<and> Y \<subseteq> black st')))"

definition chk_ok :: "nat \<Rightarrow> checker \<Rightarrow> bool" where
  "chk_ok n chk \<longleftrightarrow> (\<forall>stk r st. checkable st \<longrightarrow> covered stk st \<longrightarrow> stack_ok stk st \<longrightarrow> r \<in> refs st \<longrightarrow>
     2 * unseen st + (if sym_is_choice_value (syms st r) then 1 else 0) < n \<longrightarrow>
     gives (chk stk r st) (checked {r} st))"

lemma checked_walked: "checked Y st (res, st') \<Longrightarrow> walked st st' \<and> walks st st'"
  by (simp add: checked_def walked_def)

lemma checked_stop: "checked Y st (Some x, st') \<Longrightarrow> checked Z st (Some x, st')"
  by (simp add: checked_def)

lemma warnings_between:
  assumes "walks st st'" "walks st' st''" "warnings st'' = warnings st"
  shows "warnings st' = warnings st" "warnings st'' = warnings st'"
proof -
  obtain ws ws' where "warnings st' = warnings st @ ws" "warnings st'' = warnings st' @ ws'"
    using assms(1,2) unfolding walks_def by blast
  with assms(3) show "warnings st' = warnings st" "warnings st'' = warnings st'" by simp_all
qed

lemma checked_then:
  assumes "checked Y st (None, st')" "checked Z st' (res, st'')"
  shows "checked (Y \<union> Z) st (res, st'')"
proof -
  have w: "walked st st'" "walked st' st''" using assms by (simp_all add: checked_def)
  then have ws: "walks st st'" "walks st' st''" by (simp_all add: walked_def)
  have "\<forall>s. res = Some s \<longrightarrow> grey st s \<and> s \<in> refs st"
    using assms(2) w(1) walksD(1) [OF ws(1)] by (auto simp: checked_def walked_def)
  moreover have "res = None \<and> (all_ordinary st \<longrightarrow> ranked st \<longrightarrow> ranked st'' \<and> Y \<union> Z \<subseteq> black st'')"
    if q: "warnings st'' = warnings st"
  proof -
    note q' = warnings_between [OF ws q]
    have "all_ordinary st \<longrightarrow> ranked st \<longrightarrow> ranked st' \<and> Y \<subseteq> black st'"
      using assms(1) q'(1) by (simp add: checked_def)
    moreover have "res = None \<and> (all_ordinary st' \<longrightarrow> ranked st' \<longrightarrow> ranked st'' \<and> Z \<subseteq> black st'')"
      using assms(2) q'(2) by (simp add: checked_def)
    ultimately show ?thesis using all_ordinary_walks [OF ws(1)] black_walked [OF w(2)] by blast
  qed
  ultimately show ?thesis using walked_trans [OF w] by (simp add: checked_def)
qed

lemma checked_none: "Y \<subseteq> {} \<Longrightarrow> checked Y st (None, st)"
  by (simp add: checked_def)

text \<open>Two steps, the second only where the first found nothing.\<close>

lemma checked_bind:
  assumes "gives m (checked Y st)"
    and "\<And>st'. m = Some (None, st') \<Longrightarrow> walked st st' \<Longrightarrow> gives (f st') (checked Z st')"
  shows "gives (do { (sym, st) \<leftarrow> m; if sym \<noteq> None then Some (sym, st) else f st }) (checked (Y \<union> Z) st)"
proof -
  obtain res st' where 1: "m = Some (res, st')" "checked Y st (res, st')" using assms(1) by (auto simp: gives_def)
  show ?thesis
  proof (cases res)
    case None
    then have "gives (f st') (checked Z st')" using assms(2) 1 checked_walked by blast
    with 1 None show ?thesis using checked_then by (auto simp: gives_def)
  next
    case (Some x)
    with 1 show ?thesis using checked_stop by auto
  qed
qed

text \<open>The state and stack of a call below a symbol.\<close>

definition below :: "nat \<Rightarrow> dep_entry list \<Rightarrow> symtab \<Rightarrow> bool" where
  "below n stk st \<longleftrightarrow> checkable st \<and> covered stk st \<and> stack_ok stk st \<and> 2 * unseen st + 1 < n"

text \<open>The same for a symbol whose own entry comes next.\<close>

definition under :: "nat \<Rightarrow> symref \<Rightarrow> dep_entry list \<Rightarrow> symtab \<Rightarrow> bool" where
  "under n r stk st \<longleftrightarrow> checkable st \<and> covered (dep_entry_of r # stk) st \<and> stack_ok stk st \<and> r \<in> refs st \<and>
     2 * unseen st + 1 < n"

lemma below_walked:
  assumes "below n stk st" "walked st st'"
  shows "below n stk st'" "refs st' = refs st"
proof -
  have w: "walks st st'" using assms(2) by (simp add: walked_def)
  show "below n stk st'"
    using assms walks_checkable [OF w] covered_walked [OF assms(2)] unseen_walks [OF w] stack_ok_walks [OF w]
    by (auto simp: below_def)
  show "refs st' = refs st" by (rule walksD(1) [OF w])
qed

lemma under_walked:
  assumes "under n r stk st" "walked st st'"
  shows "under n r stk st'"
proof -
  have w: "walks st st'" using assms(2) by (simp add: walked_def)
  show ?thesis
    using assms walks_checkable [OF w] covered_walked [OF assms(2)] unseen_walks [OF w] stack_ok_walks [OF w]
      walksD(1) [OF w]
    by (auto simp: under_def)
qed

lemma under_below:
  assumes "under n r stk st" "d_sym d = r"
    "sym_is_choice (syms st r) \<or> sym_is_choice_value (syms st r) \<or> d_prop d \<noteq> None \<or> s_props (syms st r) \<noteq> []"
  shows "below n (d # stk) st"
proof -
  have "d_sym ` set (d # stk) = d_sym ` set (dep_entry_of r # stk)" using assms(2) by (simp add: dep_entry_of_def)
  then have "covered (d # stk) st = covered (dep_entry_of r # stk) st" by (simp only: covered_def on_stack_def)
  with assms show ?thesis by (auto simp: below_def under_def stack_ok_def entry_ok_def Let_def)
qed

lemma below_chk: "chk_ok n chk \<Longrightarrow> below n stk st \<Longrightarrow> r \<in> refs st \<Longrightarrow> gives (chk stk r st) (checked {r} st)"
  by (simp add: chk_ok_def below_def)

lemma check_two_gives:
  assumes "chk_ok n chk" "below n stk st" "s \<in> refs st" "t \<in> refs st"
  shows "gives (check_two chk stk s t st) (checked {s, t} st)"
proof -
  have "gives (check_two chk stk s t st) (checked ({s} \<union> {t}) st)"
    unfolding check_two_def
  proof (rule checked_bind [OF below_chk [OF assms(1-3)]])
    fix st' assume w: "walked st st'"
    show "gives (chk stk t st') (checked {t} st')"
      by (rule below_chk [OF assms(1) below_walked(1) [OF assms(2) w]])
        (simp add: below_walked(2) [OF assms(2) w] assms(4))
  qed
  then show ?thesis by (simp add: insert_commute)
qed

text \<open>The two members of a connective.\<close>

lemma connective_gives:
  assumes "\<And>st. below n stk st \<Longrightarrow> expr_syms l \<subseteq> refs st \<Longrightarrow>
      gives (sym_check_expr_deps chk stk l st) (checked (dep_syms l) st)"
    and "\<And>st. below n stk st \<Longrightarrow> expr_syms r \<subseteq> refs st \<Longrightarrow>
      gives (sym_check_expr_deps chk stk r st) (checked (dep_syms r) st)"
    and "below n stk st" "expr_syms l \<union> expr_syms r \<subseteq> refs st"
  shows "gives (do { (sym, st) \<leftarrow> sym_check_expr_deps chk stk l st;
      if sym \<noteq> None then Some (sym, st) else sym_check_expr_deps chk stk r st })
    (checked (dep_syms l \<union> dep_syms r) st)"
proof (rule checked_bind)
  show "gives (sym_check_expr_deps chk stk l st) (checked (dep_syms l) st)"
    using assms(1,3,4) by simp
  fix st' assume w: "walked st st'"
  show "gives (sym_check_expr_deps chk stk r st') (checked (dep_syms r) st')"
    by (rule assms(2) [OF below_walked(1) [OF assms(3) w]])
      (use assms(4) below_walked(2) [OF assms(3) w] in simp)
qed

lemma expr_deps_gives:
  assumes c: "chk_ok n chk"
  shows "below n stk st \<Longrightarrow> expr_syms e \<subseteq> refs st \<Longrightarrow>
    gives (sym_check_expr_deps chk stk e st) (checked (dep_syms e) st)"
proof (induction e arbitrary: st rule: dep_syms.induct)
  case (1 l r)
  then show ?case using connective_gives [of n stk l chk r st] by simp
next
  case (2 l r)
  then show ?case using connective_gives [of n stk l chk r st] by simp
next
  case (4 s t)
  then show ?case using check_two_gives [OF c] by simp
next
  case (5 s t)
  then show ?case using check_two_gives [OF c] by simp
next
  case (6 s)
  then show ?case using below_chk [OF c] by simp
qed (simp_all add: checked_none)

lemma check_opt_gives:
  "chk_ok n chk \<Longrightarrow> below n stk st \<Longrightarrow> opt_in st e \<Longrightarrow> gives (check_opt chk stk e st) (checked (opt_syms e) st)"
  by (auto simp: check_opt_def opt_in_def opt_syms_def expr_deps_gives checked_none split: option.splits)

lemma checked_weaken: "gives m (checked Y st) \<Longrightarrow> Z \<subseteq> Y \<Longrightarrow> gives m (checked Z st)"
  by (fastforce simp: gives_def checked_def)

lemma check_props_gives:
  assumes c: "chk_ok n chk"
  shows "under n r stk st \<Longrightarrow> \<forall>p \<in> set ps. prop_ok st p \<Longrightarrow>
    sym_is_choice (syms st r) \<longrightarrow> \<not> all_ordinary st \<Longrightarrow>
    gives (check_props chk stk r ps st) (checked (\<Union>p \<in> set ps. prop_deps p) st)"
proof (induction ps arbitrary: st)
  case (Cons p ps)
  let ?d = "(dep_entry_of r)\<lparr>d_prop := Some p\<rparr>" and ?Y = "\<Union>p \<in> set ps. prop_deps p"
  have IH: "gives (check_props chk stk r ps st') (checked ?Y st')" if "walked st st'" for st'
  proof -
    have w: "walks st st'" using that by (simp add: walked_def)
    have "prop_ok st' = prop_ok st" by (rule prop_ok_evolves [OF walks_evolves [OF w]])
    then show ?thesis
      using Cons.prems under_walked [OF Cons.prems(1) that] walksD(5) [OF w] all_ordinary_walks [OF w]
      by (intro Cons.IH) auto
  qed
  show ?case
  proof (cases "p_type p = P_CHOICE \<or> p_type p = P_SELECT")
    case True
    then show ?thesis using IH [OF walked_refl] by (simp add: prop_deps_def)
  next
    case False
    have v: "gives (check_opt chk (?d # stk) (p_visible p) st) (checked (opt_syms (p_visible p)) st)"
      by (rule check_opt_gives [OF c under_below [OF Cons.prems(1)]])
        (use Cons.prems(2) in \<open>simp_all add: dep_entry_of_def prop_ok_def\<close>)
    have rest: "gives (if p_type p \<noteq> P_DEFAULT \<or> sym_is_choice (syms st' r) then check_props chk stk r ps st'
        else do {
          (sym2, st) \<leftarrow> check_opt chk (?d\<lparr>d_expr := p_expr p\<rparr> # stk) (p_expr p) st';
          if sym2 \<noteq> None then Some (sym2, st) else check_props chk stk r ps st
        }) (checked ((if p_type p = P_DEFAULT then opt_syms (p_expr p) else {}) \<union> ?Y) st')"
      if w: "walked st st'" for st'
    proof (cases "p_type p \<noteq> P_DEFAULT \<or> sym_is_choice (syms st' r)")
      case True
      have ww: "walks st st'" using w by (simp add: walked_def)
      show ?thesis
      proof (cases "p_type p = P_DEFAULT")
        case False
        then show ?thesis using IH [OF w] by simp
      next
        case d: True
        then have "\<not> all_ordinary st'"
          using True Cons.prems(3) walksD(5) [OF ww] all_ordinary_walks [OF ww] by auto
        then have "gives (check_props chk stk r ps st') (checked Z st')" for Z
          using IH [OF w] by (auto simp: gives_def checked_def)
        with True show ?thesis by simp
      qed
    next
      case False
      have "gives (check_opt chk (?d\<lparr>d_expr := p_expr p\<rparr> # stk) (p_expr p) st') (checked (opt_syms (p_expr p)) st')"
        by (rule check_opt_gives [OF c under_below [OF under_walked [OF Cons.prems(1) w]]])
          (use Cons.prems(2) w opt_in_evolves [OF walks_evolves, of st st']
            in \<open>simp_all add: dep_entry_of_def prop_ok_def walked_def\<close>)
      then have "gives (do {
          (sym2, st) \<leftarrow> check_opt chk (?d\<lparr>d_expr := p_expr p\<rparr> # stk) (p_expr p) st';
          if sym2 \<noteq> None then Some (sym2, st) else check_props chk stk r ps st
        }) (checked (opt_syms (p_expr p) \<union> ?Y) st')"
        by (rule checked_bind) (use IH walked_trans [OF w] in blast)
      with False show ?thesis by simp
    qed
    have "gives (check_props chk stk r (p # ps) st) (checked (opt_syms (p_visible p) \<union>
        ((if p_type p = P_DEFAULT then opt_syms (p_expr p) else {}) \<union> ?Y)) st)"
      using checked_bind [OF v rest] False by (simp add: Let_def)
    then show ?thesis using False by (simp add: prop_deps_def Un_assoc)
  qed
qed (simp add: checked_none)

lemma sym_deps_gives:
  assumes c: "chk_ok n chk" and b: "under n r stk st"
  shows "gives (sym_check_sym_deps chk stk r st) (checked (deps st r) st)"
proof -
  have wf: "wf_symtab st" "defined st" and r: "r \<in> refs st" using b by (simp_all add: under_def checkable_def)
  have ok: "sym_ok st (syms st r)" using r wf by (simp add: wf_symtab_def)
  have 1: "gives (check_opt chk (dep_stack_insert r stk) (fst (s_rev_dep (syms st r))) st)
      (checked (opt_syms (fst (s_rev_dep (syms st r)))) st)"
  proof (cases "fst (s_rev_dep (syms st r))")
    case None
    then show ?thesis by (simp add: check_opt_def opt_syms_def checked_none)
  next
    case (Some e)
    then have "s_props (syms st r) \<noteq> []" using wf(2) r by (simp add: defined_def)
    then have "below n (dep_stack_insert r stk) st"
      unfolding dep_stack_insert_def by (intro under_below [OF b]) (simp_all add: dep_entry_of_def)
    then show ?thesis by (rule check_opt_gives [OF c _ sym_okD(4) [OF ok]])
  qed
  have 2: "gives (check_props chk stk r (s_props (syms st' r)) st')
      (checked (\<Union>p \<in> set (s_props (syms st r)). prop_deps p) st')" if w: "walked st st'" for st'
  proof -
    have ww: "walks st st'" using w by (simp add: walked_def)
    have "sym_is_choice (syms st' r) \<longrightarrow> \<not> all_ordinary st'" by (auto simp: all_ordinary_def)
    then show ?thesis
      using check_props_gives [OF c under_walked [OF b w], of "s_props (syms st r)"]
        sym_okD(1) [OF ok] prop_ok_evolves [OF walks_evolves [OF ww]] walksD(8) [OF ww] by simp
  qed
  show ?thesis unfolding sym_check_sym_deps_def deps_def by (rule checked_bind [OF 1 2])
qed

text \<open>Entering and leaving symbols.\<close>

lemma enter_syms: "syms (enter r st) x = (if x = r then (syms st r)\<lparr>s_flags := s_flags (syms st r) \<union> check_flags\<rparr> else syms st x)"
  and leave_syms: "syms (leave r st) x = (if x = r then (syms st r)\<lparr>s_flags := s_flags (syms st r) - {SYMBOL_CHECK}\<rparr> else syms st x)"
  by (simp_all add: enter_def leave_def set_flags_def clear_flags_def check_flags_def)

lemma enter_walks: "walks st (enter r st)" and leave_walks: "walks st (leave r st)"
  by (auto simp: walks_def enter_def leave_def set_flags_def clear_flags_def same_but_check_def check_flags_def)
    (simp_all add: upd_sym_def)

lemma enter_warnings [simp]: "warnings (enter r st) = warnings st"
  and leave_warnings [simp]: "warnings (leave r st) = warnings st"
  by (simp_all add: enter_def leave_def set_flags_def clear_flags_def upd_sym_def)

lemma enter_grey: "grey (enter r st) x \<longleftrightarrow> x = r \<or> grey st x"
  and enter_seen: "seen (enter r st) x \<longleftrightarrow> x = r \<or> seen st x"
  and leave_grey: "grey (leave r st) x \<longleftrightarrow> x \<noteq> r \<and> grey st x"
  and leave_seen: "seen (leave r st) x \<longleftrightarrow> seen st x"
  by (auto simp: grey_def seen_def enter_syms leave_syms check_flags_def)

lemma fold_walks:
  assumes "\<And>x st. walks st (f x st)"
  shows "walks st (fold f xs st)"
proof (induction xs arbitrary: st)
  case (Cons x xs)
  show ?case using walks_trans [OF assms Cons.IH] by simp
qed simp

lemma fold_enter:
  "grey (fold enter ds st) x \<longleftrightarrow> x \<in> set ds \<or> grey st x"
  "seen (fold enter ds st) x \<longleftrightarrow> x \<in> set ds \<or> seen st x"
  "warnings (fold enter ds st) = warnings st"
  by (induction ds arbitrary: st) (auto simp: enter_grey enter_seen)

lemma fold_leave:
  "grey (fold leave ds st) x \<longleftrightarrow> x \<notin> set ds \<and> grey st x" "warnings (fold leave ds st) = warnings st"
  by (induction ds arbitrary: st) (auto simp: leave_grey)

lemma checked_trivial:
  assumes "checked Y st (res, st')" "\<not> all_ordinary st"
  shows "checked Z st (res, st')"
  using assms by (simp add: checked_def)

lemma check_members_gives:
  assumes c: "chk_ok n chk"
  shows "below n stk st \<Longrightarrow> set ds \<subseteq> refs st \<Longrightarrow> \<not> all_ordinary st \<Longrightarrow>
    gives (check_members chk stk ds st) (checked {} st)"
proof (induction ds arbitrary: st)
  case (Cons d ds)
  have b: "under n d stk st"
    using Cons.prems by (auto simp: below_def under_def intro: covered_push)
  have 1: "gives (sym_check_sym_deps chk stk d st) (checked {} st)"
    by (rule checked_weaken [OF sym_deps_gives [OF c b]]) simp
  have "gives (do { (sym2, st) \<leftarrow> sym_check_sym_deps chk stk d st;
      if sym2 \<noteq> None then Some (sym2, st) else check_members chk stk ds st }) (checked ({} \<union> {}) st)"
  proof (rule checked_bind [OF 1])
    fix st' assume w: "walked st st'"
    then have "walks st st'" by (simp add: walked_def)
    then show "gives (check_members chk stk ds st') (checked {} st')"
      using Cons.prems below_walked [OF Cons.prems(1) w] by (intro Cons.IH) (auto simp: all_ordinary_walks)
  qed
  then show ?case by simp
qed (simp add: checked_none)

lemma choice_deps_gives:
  assumes c: "chk_ok n chk" and st: "checkable st" "covered stk st" "2 * unseen st < Suc n" "stack_ok stk st"
    and r: "r \<in> refs st" "sym_is_choice (syms st r)" "\<not> grey st r" "\<not> seen st r"
  shows "gives (sym_check_choice_deps chk stk r st) (\<lambda>(res, st'). walked st st' \<and>
    (\<forall>x. res = Some x \<longrightarrow> x = r \<or> grey st x \<and> x \<in> refs st) \<and> (warnings st' = warnings st \<longrightarrow> res = None))"
proof -
  have wf: "wf_symtab st" "linked st" using st(1) by (simp_all add: checkable_def)
  have ok: "sym_ok st (syms st r)" using wf(1) r(1) by (simp add: wf_symtab_def)
  obtain p where p: "sym_get_choice_prop (syms st r) = Some p"
    "\<forall>d \<in> set (members p). sym_is_choice_value (syms st d)"
    using sym_okD(5) [OF ok r(2)] by (auto simp: choice_ok_def)
  let ?ds = "members p" and ?stk = "dep_entry_of r # stk"
  have ds: "set ?ds \<subseteq> refs st" by (rule choice_prop_ok(2) [OF ok p(1)])
  have link: "choice_of (syms st d) = Some r" if "d \<in> set ?ds" for d
    using wf(2) r(1,2) p(1) that by (auto simp: linked_def)
  have rd: "r \<notin> set ?ds" using p(2) r(2) wf(2) by (auto simp: linked_def)
  have no_grey: "\<not> grey st d" if "d \<in> set ?ds" for d
    using coveredD(1) [OF st(2), of d] p(2) link [OF that] that r(4) by auto
  have nao: "\<not> all_ordinary st" using r(2) by (auto simp: all_ordinary_def)
  define st1 where "st1 = enter r (fold enter ?ds st)"
  have w1: "walks st st1"
    unfolding st1_def by (rule walks_trans [OF fold_walks [OF enter_walks] enter_walks])
  have g1: "grey st1 x \<longleftrightarrow> x = r \<or> x \<in> set ?ds \<or> grey st x" "warnings st1 = warnings st" for x
    by (simp_all add: st1_def enter_grey fold_enter)
  have s1: "seen st1 r" by (simp add: st1_def enter_seen)
  have cov1: "covered ?stk st1"
    unfolding covered_def
  proof (intro allI impI)
    fix x assume "grey st1 x"
    then consider "x = r" | "x \<in> set ?ds" | "grey st x" "x \<noteq> r" using g1(1) by blast
    then show "if sym_is_choice_value (syms st1 x)
      then \<exists>c. choice_of (syms st1 x) = Some c \<and> on_stack ?stk c \<and> seen st1 c else on_stack ?stk x"
    proof cases
      case 1
      with r(2) wf(2) show ?thesis by (auto simp: linked_def walksD(6) [OF w1] on_stack_def dep_entry_of_def)
    next
      case 2
      with p(2) link s1 show ?thesis by (simp add: walksD(6,7) [OF w1] on_stack_def dep_entry_of_def)
    next
      case 3
      show ?thesis
        using coveredD(1,2) [OF st(2) 3(1)] walksD(4,6,7) [OF w1] by (auto simp: on_stack_def)
    qed
  qed
  have u1: "unseen st1 < unseen st" by (rule unseen_less [OF w1 r(1,4) s1])
  have so1: "stack_ok ?stk st1"
    using st(4) r(1,2) unfolding stack_ok_walks [OF w1] by (simp add: stack_ok_def entry_ok_def dep_entry_of_def)
  have b1: "below n ?stk st1" using walks_checkable [OF w1 st(1)] cov1 so1 u1 st(3) by (simp add: below_def)
  have "under n r ?stk st1"
    using b1 r(1) walksD(1) [OF w1] by (auto simp: below_def under_def intro: covered_push)
  from sym_deps_gives [OF c this]
  obtain s2 st2 where 2: "sym_check_sym_deps chk ?stk r st1 = Some (s2, st2)" "checked (deps st1 r) st1 (s2, st2)"
    using r(1) walksD(1) [OF w1] by (auto simp: gives_def)
  define st3 where "st3 = leave r st2"
  have w2: "walked st1 st2" using 2(2) checked_walked by blast
  have w13: "walks st1 st3"
    unfolding st3_def using walks_trans [OF _ leave_walks] w2 by (simp add: walked_def)
  have g3: "grey st3 x \<longleftrightarrow> x \<noteq> r \<and> (x \<in> set ?ds \<or> grey st x)" for x
    using w2 g1(1) r(3) by (auto simp: st3_def leave_grey walked_def)
  have b3: "below n ?stk st3"
  proof -
    have "below n ?stk st2" by (rule below_walked(1) [OF b1 w2])
    moreover have "covered ?stk st3" if "covered ?stk st2"
      using that walksD(1,6,7) [OF leave_walks [of st2 r]]
      by (auto simp: covered_def st3_def leave_grey leave_seen)
    ultimately show ?thesis
      using walks_checkable [OF leave_walks] unseen_walks [OF leave_walks [of st2 r]] stack_ok_walks [OF leave_walks]
      by (auto simp: below_def st3_def)
  qed
  have ref3: "refs st3 = refs st" using walksD(1) [OF w13] walksD(1) [OF w1] by simp
  have nao3: "\<not> all_ordinary st3" using nao all_ordinary_walks [OF w1] all_ordinary_walks [OF w13] by simp
  obtain s4 st4 where 4: "(if s2 \<noteq> None then Some (s2, st3) else check_members chk ?stk ?ds st3) = Some (s4, st4)"
    "walked st3 st4" "\<And>x. s4 = Some x \<Longrightarrow> (x = r \<or> grey st3 x) \<and> x \<in> refs st"
    "warnings st4 = warnings st1 \<Longrightarrow> s4 = None"
  proof (cases s2)
    case None
    obtain s4 st4 where m: "check_members chk ?stk ?ds st3 = Some (s4, st4)" "checked {} st3 (s4, st4)"
      using check_members_gives [OF c b3 _ nao3, of ?ds] ds ref3 by (auto simp: gives_def)
    have "warnings st3 = warnings st1 \<and> warnings st4 = warnings st3" if "warnings st4 = warnings st1"
      using warnings_between [OF w13 _ that] m(2) checked_walked by blast
    with m None that ref3 show ?thesis by (auto simp: checked_def)
  next
    case (Some x)
    have "warnings st3 = warnings st2" by (simp add: st3_def)
    with Some 2(2) that [of s2 st3] g1(1) g3 walksD(1) [OF w1] show ?thesis by (auto simp: checked_def)
  qed
  define st5 where "st5 = fold leave ?ds st4"
  have w5: "walks st st5"
    unfolding st5_def
    by (rule walks_trans [OF walks_trans [OF w1 w13] walks_trans [OF _ fold_walks [OF leave_walks]]])
      (use 4(2) in \<open>simp add: walked_def\<close>)
  have wk5: "walked st st5"
    using w5 4(2) g3 no_grey r(3) by (auto simp: walked_def st5_def fold_leave)
  have quiet: "s4 = None" if "warnings st5 = warnings st"
    using that 4(4) g1(2) by (simp add: st5_def fold_leave)
  define f where "f = (\<lambda>x. if choice_of (syms st5 x) = Some r \<and> sym_is_choice_value (syms st5 x) then r else x)"
  have final: "(case s4 of
       None \<Rightarrow> Some (None, st5)
     | Some x \<Rightarrow>
         if sym_is_choice_value (syms st5 x)
         then do {
           p \<leftarrow> sym_get_choice_prop (syms st5 x);
           Some (Some (if prop_get_symbol p = Some r then r else x), st5)
         }
         else Some (Some x, st5)) = Some (map_option f s4, st5)"
  proof (cases s4)
    case (Some x)
    then have "x \<in> refs st" using 4(3) by blast
    then have "sym_is_choice_value (syms st x) \<Longrightarrow> member_ok (syms st x)"
      using wf(1) sym_okD(6) unfolding wf_symtab_def by blast
    with Some show ?thesis
      by (auto simp: walksD(6,7,10) [OF w5] member_ok_def choice_of_def f_def)
  qed simp
  have "sym_check_choice_deps chk stk r st = Some (map_option f s4, st5)"
    unfolding sym_check_choice_deps_def dep_stack_insert_def Let_def p(1) Option.bind.simps
      st1_def [symmetric] 2(1) prod.case st3_def [symmetric] 4(1) st5_def [symmetric] by (rule final)
  moreover have "f x = r \<or> grey st (f x) \<and> f x \<in> refs st" if "s4 = Some x" for x
    using 4(3) [OF that] g3 p(2) link by (auto simp: f_def walksD(6,7) [OF w5])
  ultimately show ?thesis using wk5 quiet by (cases s4) auto
qed

text \<open>The result of a call for a symbol that is not on the way: the symbol itself counts as no result.\<close>

lemma drop_own:
  assumes "gives m (\<lambda>(res, st'). walked st st' \<and> (\<forall>x. res = Some x \<longrightarrow> x = r \<or> grey st x \<and> x \<in> refs st) \<and>
      (warnings st' = warnings st \<longrightarrow> res = None \<and> (all_ordinary st \<longrightarrow> ranked st \<longrightarrow> ranked st' \<and> r \<in> black st')))"
  shows "gives (do { (sym2, st) \<leftarrow> m; Some (if sym2 = Some r then None else sym2, st) }) (checked {r} st)"
  using assms by (fastforce simp: gives_def checked_def)

lemma body_gives:
  assumes c: "chk_ok n chk" and st: "checkable st" "covered stk st" "r \<in> refs st" "stack_ok stk st"
    and b: "2 * unseen st + (if sym_is_choice_value (syms st r) then 1 else 0) < Suc n"
  shows "gives (check_body menu_pos chk stk r st) (checked {r} st)"
proof (cases "grey st r")
  case True
  from print_recursive [OF st(1,2,4) True st(3), of menu_pos]
  obtain ls where ls: "sym_check_print_recursive menu_pos stk r st = Some (st\<lparr>warnings := warnings st @ ls\<rparr>)" "ls \<noteq> []"
    by blast
  have "walked st (st\<lparr>warnings := warnings st @ ls\<rparr>)" by (simp add: walked_def walks_def grey_def)
  with ls True st(3) show ?thesis by (simp add: check_body_def Let_def grey_def checked_def)
next
  case ng: False
  show ?thesis
  proof (cases "seen st r")
    case True
    with ng show ?thesis by (simp add: check_body_def Let_def grey_def seen_def checked_def black_def)
  next
    case ns: False
    have wf: "wf_symtab st" "linked st" using st(1) by (simp_all add: checkable_def)
    let ?m = "if sym_is_choice_value (syms st r)
       then do {
         prop \<leftarrow> sym_get_choice_prop (syms st r);
         c \<leftarrow> prop_get_symbol prop;
         chk (dep_stack_insert r stk) c st
       }
       else if sym_is_choice (syms st r) then sym_check_choice_deps chk stk r st
       else do {
         (sym2, st) \<leftarrow> sym_check_sym_deps chk stk r (enter r st);
         Some (sym2, leave r st)
       }"
    have "gives ?m (\<lambda>(res, st'). walked st st' \<and> (\<forall>x. res = Some x \<longrightarrow> x = r \<or> grey st x \<and> x \<in> refs st) \<and>
      (warnings st' = warnings st \<longrightarrow> res = None \<and> (all_ordinary st \<longrightarrow> ranked st \<longrightarrow> ranked st' \<and> r \<in> black st')))"
    proof (cases "sym_is_choice_value (syms st r)")
      case cv: True
      then obtain d where d: "d \<in> refs st" "choice_of (syms st r) = Some d" "sym_is_choice (syms st d)"
        using wf(2) st(3) by (auto simp: linked_def)
      then have "\<not> sym_is_choice_value (syms st d)" using wf(2) by (auto simp: linked_def)
      moreover have "covered (dep_stack_insert r stk) st"
        using covered_push [OF st(2)] by (simp add: dep_stack_insert_def)
      moreover have "stack_ok (dep_stack_insert r stk) st"
        using st(3,4) cv by (simp add: dep_stack_insert_def dep_entry_of_def stack_ok_def entry_ok_def)
      ultimately have "gives (chk (dep_stack_insert r stk) d st) (checked {d} st)"
        using c st(1) d(1) b cv unfolding chk_ok_def by simp
      moreover have "?m = chk (dep_stack_insert r stk) d st"
        using cv d(2) by (auto simp: choice_of_def bind_eq_Some_conv)
      moreover have "\<not> all_ordinary st" using cv by (auto simp: all_ordinary_def)
      ultimately show ?thesis by (auto simp: gives_def checked_def)
    next
      case ncv: False
      show ?thesis
      proof (cases "sym_is_choice (syms st r)")
        case ch: True
        then have "\<not> all_ordinary st" by (auto simp: all_ordinary_def)
        with choice_deps_gives [OF c st(1,2) _ st(4,3) ch ng ns] b ncv ch show ?thesis
          by (fastforce simp: gives_def)
      next
        case False
        define st1 where "st1 = enter r st"
        have w1: "walks st st1" unfolding st1_def by (rule enter_walks)
        have r1: "r \<in> refs st1" using st(3) walksD(1) [OF w1] by simp
        have g1: "grey st1 x \<longleftrightarrow> x = r \<or> grey st x" for x by (simp add: st1_def enter_grey)
        have "unseen st1 < unseen st" by (rule unseen_less [OF w1 st(3) ns]) (simp add: st1_def enter_seen)
        moreover have "covered (dep_entry_of r # stk) st1"
          unfolding covered_def
        proof (intro allI impI)
          fix x assume "grey st1 x"
          then consider "x = r" | "grey st x" using g1 by blast
          then show "if sym_is_choice_value (syms st1 x)
            then \<exists>c. choice_of (syms st1 x) = Some c \<and> on_stack (dep_entry_of r # stk) c \<and> seen st1 c
            else on_stack (dep_entry_of r # stk) x"
          proof cases
            case 1
            with ncv show ?thesis by (simp add: walksD(6) [OF w1] on_stack_def dep_entry_of_def)
          next
            case 2
            show ?thesis using coveredD(1,2) [OF st(2) 2] walksD(4,6,7) [OF w1] by (auto simp: on_stack_def)
          qed
        qed
        ultimately have "under n r stk st1"
          using walks_checkable [OF w1 st(1)] b ncv r1 st(4) stack_ok_walks [OF w1] by (simp add: under_def)
        from sym_deps_gives [OF c this]
        obtain s2 st2 where 2: "sym_check_sym_deps chk stk r st1 = Some (s2, st2)" "checked (deps st r) st1 (s2, st2)"
          using deps_walks [OF w1] by (auto simp: gives_def)
        have w2: "walked st1 st2" using 2(2) checked_walked by blast
        define st3 where "st3 = leave r st2"
        have w3: "walks st st3"
          unfolding st3_def by (rule walks_trans [OF w1 walks_trans [OF _ leave_walks]]) (use w2 in \<open>simp add: walked_def\<close>)
        have "walked st st3" using w3 w2 g1 ng by (auto simp: walked_def st3_def leave_grey)
        moreover have "x = r \<or> grey st x \<and> x \<in> refs st" if "s2 = Some x" for x
          using 2(2) that g1 walksD(1) [OF w1] by (auto simp: checked_def)
        moreover have "s2 = None \<and> (all_ordinary st \<longrightarrow> ranked st \<longrightarrow> ranked st3 \<and> r \<in> black st3)"
          if q: "warnings st3 = warnings st"
        proof -
          have q2: "warnings st2 = warnings st1" using q by (simp add: st1_def st3_def)
          have bl: "black st1 = black st" using ns by (auto simp: black_def st1_def enter_grey enter_seen)
          have "ranked st3 \<and> r \<in> black st3" if "all_ordinary st" "ranked st"
          proof -
            have "ranked st1" using that(2) bl deps_walks [OF w1] by (simp add: ranked_def)
            then have 3: "ranked st2" "deps st r \<subseteq> black st2"
              using 2(2) q2 that(1) all_ordinary_walks [OF w1] by (simp_all add: checked_def)
            have "grey st2 r" "seen st2 r" using w2 g1 walksD(4) [of st1 st2 r] enter_seen
              by (auto simp: walked_def st1_def)
            then have ins: "black st3 = insert r (black st2)" "r \<notin> black st2"
              by (auto simp: black_def st3_def leave_grey leave_seen)
            have "deps st2 = deps st" using deps_walks [OF w1] deps_walks [of st1 st2] w2 by (simp add: walked_def)
            with 3 have "ranked st3"
              by (intro ranked_insert [OF 3(1) ins]) (simp_all add: deps_walks [OF leave_walks] st3_def)
            with ins show ?thesis by simp
          qed
          with 2(2) q2 show ?thesis by (simp add: checked_def)
        qed
        ultimately show ?thesis
          using ncv False 2(1) by (simp add: gives_def st1_def [symmetric] st3_def)
      qed
    qed
    from drop_own [OF this] show ?thesis
      using ng ns by (simp add: check_body_def Let_def grey_def seen_def)
  qed
qed

lemma check_fuel_ok: "chk_ok n (check_fuel menu_pos n)"
proof (induction n)
  case (Suc n)
  then show ?case using body_gives by (simp add: chk_ok_def)
qed (simp add: chk_ok_def)

lemma unseen_bound: "unseen st \<le> next_id st + 4"
  unfolding unseen_def card_refs [symmetric] by (rule card_mono) auto

lemma check_deps_gives:
  assumes "checkable st" "r \<in> refs st" "\<And>x. \<not> grey st x"
  shows "gives (sym_check_deps menu_pos r st) (checked {r} st)"
proof -
  have "covered [] st" "stack_ok [] st" using assms(3) by (simp_all add: covered_def stack_ok_def)
  moreover have "2 * unseen st + 1 < check_depth st" using unseen_bound [of st] by (simp add: check_depth_def)
  ultimately show ?thesis
    using check_fuel_ok [of "check_depth st" menu_pos] assms(1,2) unfolding chk_ok_def sym_check_deps_def by simp
qed

lemma check_deps_none:
  assumes "checkable st" "r \<in> refs st" "\<And>x. \<not> grey st x"
  obtains st' where "sym_check_deps menu_pos r st = Some (None, st')" "checked {r} st (None, st')"
  using check_deps_gives [OF assms, of menu_pos] assms(3) by (fastforce simp: gives_def checked_def)

lemma checked_union: "checked Y st (None, st') \<Longrightarrow> checked Z st' (None, st'') \<Longrightarrow> checked (Y \<union> Z) st (None, st'')"
  by (rule checked_then)

lemma check_all_gives:
  assumes "checkable st" "set rs \<subseteq> refs st" "\<And>x. \<not> grey st x"
  shows "\<exists>st'. check_all menu_pos rs st = Some (0, st') \<and> checked (set rs) st (None, st')"
  using assms
proof (induction rs arbitrary: st)
  case Nil
  then show ?case by (simp add: checked_none)
next
  case (Cons r rs)
  obtain st1 where 1: "sym_check_deps menu_pos r st = Some (None, st1)" "checked {r} st (None, st1)"
    by (rule check_deps_none [OF Cons.prems(1) _ Cons.prems(3)]) (use Cons.prems(2) in auto)
  have w: "walked st st1" "walks st st1" using 1(2) checked_walked by blast+
  obtain st2 where 2: "check_all menu_pos rs st1 = Some (0, st2)" "checked (set rs) st1 (None, st2)"
    using Cons.IH [of st1] walks_checkable [OF w(2) Cons.prems(1)] walksD(1) [OF w(2)] Cons.prems(2,3) w(1)
    by (auto simp: walked_def)
  have "checked ({r} \<union> set rs) st (None, st2)" by (rule checked_then [OF 1(2) 2(2)])
  with 1(1) 2(1) show ?case by simp
qed

section \<open>Small tables\<close>

text \<open>A symbol that depends on another, which may be selected by it and may be defined.\<close>

definition dep_property :: "prop_type \<Rightarrow> cstring option \<Rightarrow> expr option \<Rightarrow> property" where
  "dep_property t txt e = \<lparr>p_type = t, p_text = txt, p_visible = e, p_expr = None, p_menu = Some 0,
     p_pos = (''Config.in'', 3)\<rparr>"

definition dep_table :: "expr option \<Rightarrow> property list \<Rightarrow> symtab" where
  "dep_table sel ps = empty_symtab\<lparr>
     syms := static_symbol
       (SymId 0 := blank_symbol\<lparr>s_name := Some ''FOO'', s_type := S_BOOLEAN,
          s_props := [dep_property P_PROMPT (Some ''foo'') (Some (ESymbol (SymId 2)))]\<rparr>,
        SymId 2 := blank_symbol\<lparr>s_name := Some ''BAR'', s_type := S_BOOLEAN, s_rev_dep := (sel, T_no),
          s_props := ps\<rparr>),
     next_id := 3, modules_sym := Some SymNo\<rparr>"

definition bar_defined :: "property list" where
  "bar_defined = [dep_property P_SYMBOL None None]"

lemma dep_table_checkable:
  assumes "sel = None \<or> sel = Some (ESymbol (SymId 0))"
  shows "checkable (dep_table sel bar_defined)" "all_ordinary (dep_table sel bar_defined)"
    "\<not> grey (dep_table sel bar_defined) x" "\<not> seen (dep_table sel bar_defined) x"
    "SymId 0 \<in> refs (dep_table sel bar_defined)" "SymId 2 \<in> refs (dep_table sel bar_defined)"
proof -
  let ?st = "dep_table sel bar_defined"
  have st: "syms ?st x = (if x = SymId 0 then blank_symbol\<lparr>s_name := Some ''FOO'', s_type := S_BOOLEAN,
      s_props := [dep_property P_PROMPT (Some ''foo'') (Some (ESymbol (SymId 2)))]\<rparr>
    else if x = SymId 2 then blank_symbol\<lparr>s_name := Some ''BAR'', s_type := S_BOOLEAN, s_rev_dep := (sel, T_no),
      s_props := bar_defined\<rparr>
    else static_symbol x)" for x by (simp add: dep_table_def)
  have fl: "s_flags (syms ?st x) \<subseteq> {SYMBOL_CONST, SYMBOL_VALID}" for x
    by (cases x) (auto simp: st blank_symbol_def symbol_yes_def symbol_mod_def symbol_no_def symbol_empty_def)
  then show "\<not> grey ?st x" "\<not> seen ?st x" by (auto simp: grey_def seen_def)
  have nc: "\<not> sym_is_choice (syms ?st x)" "\<not> sym_is_choice_value (syms ?st x)"
    "SYMBOL_NEED_SET_CHOICE_VALUES \<notin> s_flags (syms ?st x)" for x
    using fl [of x] by (auto simp: sym_is_choice_def sym_is_choice_value_def)
  then show "all_ordinary ?st" by (simp add: all_ordinary_def)
  have refs: "refs ?st = {SymYes, SymMod, SymNo, SymEmpty} \<union> SymId ` {..<3}"
    by (simp add: refs_def dep_table_def)
  then show r: "SymId 0 \<in> refs ?st" "SymId 2 \<in> refs ?st" by auto
  have pr: "s_props (static_symbol x) = []" "s_dir_dep (static_symbol x) = (None, T_no)"
    "s_rev_dep (static_symbol x) = (None, T_no)" for x
    by (cases x; simp add: blank_symbol_def symbol_yes_def symbol_mod_def symbol_no_def symbol_empty_def)+
  have o: "opt_in ?st None" "opt_in ?st (Some (ESymbol (SymId 0)))" "opt_in ?st (Some (ESymbol (SymId 2)))"
    using r by (simp_all add: opt_in_def)
  have bd: "prop_ok ?st p" if "p \<in> set bar_defined" for p
    using that o(1) by (simp add: bar_defined_def prop_ok_def dep_property_def)
  have "prop_ok ?st (dep_property P_PROMPT u (Some (ESymbol (SymId 2))))" for u
    using o(1,3) by (simp add: prop_ok_def dep_property_def)
  then have "(\<forall>p \<in> set (s_props (syms ?st x)). prop_ok ?st p) \<and> opt_in ?st (fst (s_dir_dep (syms ?st x))) \<and>
      opt_in ?st (fst (s_rev_dep (syms ?st x)))" for x
    using bd o assms unfolding st by (auto simp: pr blank_symbol_def)
  then have ok: "sym_ok ?st (syms ?st x)" for x using nc [of x] by (simp add: sym_ok_def)
  have "modules_sym ?st = Some SymNo" by (simp add: dep_table_def)
  with ok refs have "wf_symtab ?st" by (simp add: wf_symtab_def)
  moreover have "linked ?st" using nc by (simp add: linked_def)
  moreover have "bar_defined \<noteq> []" by (simp add: bar_defined_def)
  then have "fst (s_rev_dep (syms ?st x)) \<noteq> None \<longrightarrow> s_props (syms ?st x) \<noteq> []" for x
    unfolding st by (simp add: pr blank_symbol_def)
  then have "defined ?st" using nc by (simp add: defined_def)
  ultimately show "checkable ?st" by (simp add: checkable_def)
qed

section \<open>Properties\<close>

text \<open>
  C37: the loop of \<open>conf_parse\<close> over \<open>sym_check_deps\<close> ends for every table whose selected symbols are
  defined, clears every mark, and counts no error: the call that started at a symbol drops the
  result when the way comes back to it, so a recursive dependency is printed but never refused.
\<close>

theorem recursive_deps_not_counted:
  assumes "checkable st" "set rs \<subseteq> refs st" "\<forall>x. \<not> grey st x"
  shows "\<exists>st'. check_all menu_pos rs st = Some (0, st') \<and> (\<forall>x. \<not> grey st' x) \<and> evolves {} st st'"
proof -
  obtain st' where st': "check_all menu_pos rs st = Some (0, st')" "checked (set rs) st (None, st')"
    using check_all_gives [OF assms(1,2)] assms(3) by blast
  then have w: "walked st st'" "walks st st'" using checked_walked by blast+
  with st'(1) assms(3) walks_evolves show ?thesis by (auto simp: walked_def)
qed

theorem recursive_deps_not_counted_witness:
  "\<exists>st'. check_all (\<lambda>_. ([], 0)) [SymId 0, SymId 2] (dep_table (Some (ESymbol (SymId 0))) bar_defined) = Some (0, st') \<and>
     warnings st' \<noteq> []"
proof -
  let ?st = "dep_table (Some (ESymbol (SymId 0))) bar_defined"
  have d: "checkable ?st" "\<forall>x. \<not> grey ?st x" "set [SymId 0, SymId 2] \<subseteq> refs ?st"
    using dep_table_checkable [of "Some (ESymbol (SymId 0))"] by simp_all
  from recursive_deps_not_counted [OF d(1,3,2)]
  obtain st' where st': "check_all (\<lambda>_. ([], 0)) [SymId 0, SymId 2] ?st = Some (0, st')" by blast
  have "map_option (\<lambda>(n, st). length (warnings st)) (check_all (\<lambda>_. ([], 0)) [SymId 0, SymId 2] ?st) = Some 3"
    by code_simp
  with st' show ?thesis by auto
qed

text \<open>
  C36: if the loop prints nothing for a table without choices, the dependencies of everything that can
  be reached from the symbols it was called for are acyclic: no missed recursive dependency.
\<close>

theorem quiet_check_acyclic:
  assumes "checkable st" "set rs \<subseteq> refs st" "\<forall>x. \<not> grey st x \<and> \<not> seen st x" "all_ordinary st"
    and "check_all menu_pos rs st = Some (n, st')" "warnings st' = warnings st"
  shows "\<exists>S. set rs \<subseteq> S \<and> (\<forall>x \<in> S. deps st x \<subseteq> S) \<and> acyclic {(x, y). x \<in> S \<and> y \<in> deps st x}"
proof -
  have ng: "\<And>x. \<not> grey st x" using assms(3) by blast
  have c: "checked (set rs) st (None, st')"
    using check_all_gives [OF assms(1,2) ng, of menu_pos] assms(5) by auto
  have "black st = {}" using assms(3) by (simp add: black_def)
  then have "ranked st" by (simp add: ranked_def)
  with c assms(4,6) have r: "ranked st'" "set rs \<subseteq> black st'" by (simp_all add: checked_def)
  have "deps st' = deps st" using c checked_walked deps_walks by blast
  with r(1) obtain f :: "symref \<Rightarrow> nat"
    where f: "\<And>x y. x \<in> black st' \<Longrightarrow> y \<in> deps st x \<Longrightarrow> y \<in> black st' \<and> f y < f x"
    by (auto simp: ranked_def)
  have "{(x, y). x \<in> black st' \<and> y \<in> deps st x} \<subseteq> (measure f)\<inverse>" using f by auto
  moreover have "acyclic ((measure f)\<inverse>)" by (simp add: acyclic_converse wf_acyclic)
  ultimately have "acyclic {(x, y). x \<in> black st' \<and> y \<in> deps st x}" by (rule acyclic_subset [rotated])
  with r(2) f show ?thesis by (intro exI [of _ "black st'"]) auto
qed

theorem quiet_check_acyclic_witness:
  "\<exists>S. {SymId 0, SymId 2} \<subseteq> S \<and> acyclic {(x, y). x \<in> S \<and> y \<in> deps (dep_table None bar_defined) x}"
proof -
  let ?st = "dep_table None bar_defined"
  have d: "checkable ?st" "\<forall>x. \<not> grey ?st x \<and> \<not> seen ?st x" "set [SymId 0, SymId 2] \<subseteq> refs ?st" "all_ordinary ?st"
    using dep_table_checkable [of None] by simp_all
  have "map_option (\<lambda>(n, st). warnings st) (check_all (\<lambda>_. ([], 0)) [SymId 0, SymId 2] ?st) = Some []"
    by code_simp
  then obtain n st' where r: "check_all (\<lambda>_. ([], 0)) [SymId 0, SymId 2] ?st = Some (n, st')" "warnings st' = []"
    by auto
  have "warnings st' = warnings ?st" by (simp add: r(2) dep_table_def empty_symtab_def)
  from quiet_check_acyclic [OF d(1,3,2,4) r(1) this] show ?thesis by auto
qed

text \<open>
  the message for a recursive dependency follows a NULL pointer where it passes a symbol that is
  selected but defined nowhere; with a definition the same table is only reported.
\<close>

theorem undefined_select_crashes:
  "sym_check_deps menu_pos (SymId 0) (dep_table (Some (ESymbol (SymId 0))) []) = None \<and>
   entry_text menu_pos (dep_table (Some (ESymbol (SymId 0))) []) r (dep_entry_of (SymId 2)) q = None \<and>
   (\<exists>st'. sym_check_deps menu_pos (SymId 0) (dep_table (Some (ESymbol (SymId 0))) bar_defined) = Some (None, st'))"
proof (intro conjI)
  show "entry_text menu_pos (dep_table (Some (ESymbol (SymId 0))) []) r (dep_entry_of (SymId 2)) q = None"
    by (simp add: entry_text_def entry_prop_def dep_entry_of_def dep_table_def blank_symbol_def
        sym_is_choice_def sym_is_choice_value_def Let_def)
  show "sym_check_deps menu_pos (SymId 0) (dep_table (Some (ESymbol (SymId 0))) []) = None"
    by code_simp
  have "gives (sym_check_deps menu_pos (SymId 0) (dep_table (Some (ESymbol (SymId 0))) bar_defined))
      (checked {SymId 0} (dep_table (Some (ESymbol (SymId 0))) bar_defined))"
    by (rule check_deps_gives) (use dep_table_checkable [of "Some (ESymbol (SymId 0))"] in simp_all)
  then show "\<exists>st'. sym_check_deps menu_pos (SymId 0) (dep_table (Some (ESymbol (SymId 0))) bar_defined) = Some (None, st')"
    using dep_table_checkable [of "Some (ESymbol (SymId 0))"] by (fastforce simp: gives_def checked_def)
qed

end
