(* ===== verification/Kset.thy ===== *)
theory Kset
  imports Kvalue
begin

text \<open>
  Setting values, from \<open>support/kconfig/symbol.c\<close>: what a front end may set a symbol to, setting it, the
  default shown for it, and the search for symbols by name. The callback for a changed
  configuration is the front end's and is left out.
\<close>

section \<open>Forgetting values\<close>

definition sym_set_change_count :: "nat \<Rightarrow> symtab \<Rightarrow> symtab" where
  "sym_set_change_count count st = st\<lparr>sym_change_count := count\<rparr>"

definition sym_add_change_count :: "nat \<Rightarrow> symtab \<Rightarrow> symtab" where
  "sym_add_change_count count st = sym_set_change_count (count + sym_change_count st) st"

text \<open>All values forgotten, before the symbol of modules is calculated again.\<close>

definition forget :: "symtab \<Rightarrow> symtab" where
  "forget st = sym_add_change_count 1
     (for_all_symbols (\<lambda>s. s\<lparr>s_flags := s_flags s - {SYMBOL_VALID}\<rparr>) st)"

definition sym_clear_all_valid :: "symtab \<Rightarrow> symtab option" where
  "sym_clear_all_valid st =
     (let st = forget st in case modules_sym st of Some m \<Rightarrow> sym_calc_value m st | None \<Rightarrow> Some st)"

section \<open>Tristate values\<close>

definition sym_tristate_within_range :: "symtab \<Rightarrow> symref \<Rightarrow> tristate \<Rightarrow> bool" where
  "sym_tristate_within_range st r val =
     (let type = sym_get_type st r; s = syms st r in
      if s_visible s = T_no then False
      else if type \<noteq> S_BOOLEAN \<and> type \<noteq> S_TRISTATE then False
      else if type = S_BOOLEAN \<and> val = T_mod then False
      else if s_visible s \<le> snd (s_rev_dep s) then False
      else if sym_is_choice_value s \<and> s_visible s = T_yes then val = T_yes
      else val \<ge> snd (s_rev_dep s) \<and> val \<le> s_visible s)"

definition set_user :: "symref \<Rightarrow> sval \<times> tristate \<Rightarrow> symtab \<Rightarrow> symtab" where
  "set_user r v = upd_sym r (\<lambda>s. s\<lparr>s_user := v\<rparr>)"

definition mark_user :: "symref \<Rightarrow> symtab \<Rightarrow> symtab" where
  "mark_user r st =
     (if SYMBOL_DEF_USER \<notin> s_flags (syms st r)
      then sym_set_changed r (set_flags r {SYMBOL_DEF_USER} st) else st)"

text \<open>Choosing a member: the choice remembers it, and no visible member counts as new.\<close>

definition choose_member :: "symref \<Rightarrow> symtab \<Rightarrow> symtab option" where
  "choose_member r st = do {
     prop \<leftarrow> sym_get_choice_prop (syms st r);
     cs \<leftarrow> prop_get_symbol prop;
     let st = set_user cs (V_sym r, snd (s_user (syms st cs))) st;
     let st = set_flags cs {SYMBOL_DEF_USER} st;
     prop \<leftarrow> sym_get_choice_prop (syms st cs);
     Some (fold (\<lambda>d st. if s_visible (syms st d) \<noteq> T_no then set_flags d {SYMBOL_DEF_USER} st else st)
       (members prop) st)
   }"

definition sym_set_tristate_value :: "symref \<Rightarrow> tristate \<Rightarrow> symtab \<Rightarrow> (bool \<times> symtab) option" where
  "sym_set_tristate_value r val st =
     (let oldval = sym_get_tristate_value (syms st r) in
      if oldval \<noteq> val \<and> \<not> sym_tristate_within_range st r val then Some (False, st)
      else do {
        let st = mark_user r st;
        st \<leftarrow> (if sym_is_choice_value (syms st r) \<and> val = T_yes then choose_member r st else Some st);
        let st = set_user r (fst (s_user (syms st r)), val) st;
        st \<leftarrow> (if oldval \<noteq> val then sym_clear_all_valid st else Some st);
        Some (True, st)
      })"

fun next_tri :: "tristate \<Rightarrow> tristate" where
  "next_tri T_no = T_mod"
| "next_tri T_mod = T_yes"
| "next_tri T_yes = T_no"

text \<open>The loop goes round the three values and ends at the latest where it began.\<close>

function toggle_loop :: "symref \<Rightarrow> tristate \<Rightarrow> tristate \<Rightarrow> symtab \<Rightarrow> (tristate \<times> symtab) option" where
  "toggle_loop r oldval newval st = do {
     let newval = next_tri newval;
     (done, st) \<leftarrow> sym_set_tristate_value r newval st;
     if done then Some (newval, st)
     else if oldval \<noteq> newval then toggle_loop r oldval newval st else Some (newval, st)
   }"
  by pat_completeness auto
termination
proof (relation "measure (\<lambda>(r, oldval, newval, st). (tri_num oldval + 2 - tri_num newval) mod 3)")
  fix r oldval newval st and x y :: tristate and z :: "bool \<times> symtab" and d st'
  assume "x = next_tri newval" "oldval \<noteq> x"
  then show "((r, oldval, x, st'), r, oldval, newval, st)
      \<in> measure (\<lambda>(r, oldval, newval, st). (tri_num oldval + 2 - tri_num newval) mod 3)"
    by (cases oldval; cases newval) simp_all
qed simp

declare toggle_loop.simps [simp del]

definition sym_toggle_tristate_value :: "symref \<Rightarrow> symtab \<Rightarrow> (tristate \<times> symtab) option" where
  "sym_toggle_tristate_value r st =
     (let oldval = sym_get_tristate_value (syms st r) in toggle_loop r oldval oldval st)"

section \<open>Texts\<close>

text \<open>The first character of an answer to a question with yes, mod, no.\<close>

definition tri_char :: "cstring \<Rightarrow> tristate option" where
  "tri_char str = (case str of
      c # _ \<Rightarrow> if c \<in> set ''yY'' then Some T_yes else if c \<in> set ''mM'' then Some T_mod
        else if c \<in> set ''nN'' then Some T_no else None
    | [] \<Rightarrow> None)"

definition sym_string_within_range :: "symref \<Rightarrow> cstring \<Rightarrow> symtab \<Rightarrow> (bool \<times> symtab) option" where
  "sym_string_within_range r str st =
     (let type = s_type (syms st r) in
      case value_base type of
        Some base \<Rightarrow>
          if \<not> sym_string_valid type str then Some (False, st)
          else do {
            (prop, st) \<leftarrow> sym_get_range_prop sym_calc_value r st;
            case prop of
              None \<Rightarrow> Some (True, st)
            | Some (p, _) \<Rightarrow> do {
                (lo, hi) \<leftarrow> range_syms p;
                let val = strtoll str base;
                (v, st) \<leftarrow> sym_get_range_val sym_calc_value lo base st;
                if val \<ge> v
                then do {
                  (v, st) \<leftarrow> sym_get_range_val sym_calc_value hi base st;
                  Some (val \<le> v, st)
                }
                else Some (False, st)
              }
          }
      | None \<Rightarrow>
          if type = S_STRING then Some (sym_string_valid type str, st)
          else if is_tri type
          then (case tri_char str of
                  Some v \<Rightarrow> Some (sym_tristate_within_range st r v, st) | None \<Rightarrow> Some (False, st))
          else Some (False, st))"

definition has_0x :: "cstring \<Rightarrow> bool" where
  "has_0x str = (case str of a # b # _ \<Rightarrow> a = CHR ''0'' \<and> (b = CHR ''x'' \<or> b = CHR ''X'') | _ \<Rightarrow> False)"

definition sym_set_string_value :: "symref \<Rightarrow> cstring \<Rightarrow> symtab \<Rightarrow> (bool \<times> symtab) option" where
  "sym_set_string_value r newval st =
     (if is_tri (s_type (syms st r))
      then (case tri_char newval of
              Some v \<Rightarrow> sym_set_tristate_value r v st | None \<Rightarrow> Some (False, st))
      else do {
        (ok, st) \<leftarrow> sym_string_within_range r newval st;
        if \<not> ok then Some (False, st)
        else do {
          let st = mark_user r st;
          let oldval = fst (s_user (syms st r));
          let tri = snd (s_user (syms st r));
          if s_type (syms st r) = S_HEX \<and> \<not> has_0x newval
          then do {
            st \<leftarrow> sym_clear_all_valid (set_user r (V_str (''0x'' @ newval), tri) st);
            Some (True, st)
          }
          else if oldval \<noteq> V_str newval
          then do {
            st \<leftarrow> sym_clear_all_valid (set_user r (V_str newval, tri) st);
            Some (True, st)
          }
          else Some (True, st)
        }
      })"

section \<open>The default, and the search\<close>

definition sym_get_string_default :: "symref \<Rightarrow> symtab \<Rightarrow> (cstring \<times> symtab) option" where
  "sym_get_string_default r st = do {
     st \<leftarrow> sym_calc_visibility sym_calc_value r st;
     m \<leftarrow> modules_sym st;
     st \<leftarrow> sym_calc_value m st;
     (prop, st) \<leftarrow> sym_get_default_prop sym_calc_value r st;
     let type = s_type (syms st r);
     ((val, str), st) \<leftarrow>
       (case prop of
          None \<Rightarrow> Some ((snd (s_curr symbol_no), sval_string (fst (s_curr symbol_empty))), st)
        | Some (p, tri) \<Rightarrow>
            if is_tri type
            then do {
              (val, st) \<leftarrow> calc_and sym_calc_value (p_expr p) tri st;
              Some ((val, sval_string (fst (s_curr symbol_empty))), st)
            }
            else (case prop_get_symbol p of
                    None \<Rightarrow> Some ((snd (s_curr symbol_no), sval_string (fst (s_curr symbol_empty))), st)
                  | Some ds \<Rightarrow> do {
                      st \<leftarrow> sym_calc_value ds st;
                      Some ((snd (s_curr symbol_no), sval_string (fst (s_curr (syms st ds)))), st)
                    }));
     let s = syms st r;
     let val = EXPR_OR val (snd (s_rev_dep s));
     let val = (if val = T_mod \<and> \<not> sym_is_choice_value s \<and> snd (s_curr (syms st m)) = T_no then T_yes
                else val);
     let val = (if type = S_BOOLEAN \<and> val = T_mod then T_yes else val);
     Some (if is_tri type then tri_string val
           else if type \<in> {S_INT, S_HEX, S_STRING} then str else [], st)
   }"

text \<open>
  \<open>re\<close> stands for the compiled pattern: the part of a name it matches; None for a pattern that does
  not compile. \<open>qsort\<close> is the sort of the C library with \<open>sym_rel_comp\<close>.
\<close>

fun search_loop ::
  "(cstring \<Rightarrow> (nat \<times> nat) option) \<Rightarrow> symref list \<Rightarrow> symtab \<Rightarrow> (sym_match list \<times> symtab) option" where
  "search_loop re [] st = Some ([], st)"
| "search_loop re (r # rs) st =
     (if SYMBOL_CONST \<in> s_flags (syms st r) then search_loop re rs st
      else case s_name (syms st r) of
        None \<Rightarrow> search_loop re rs st
      | Some n \<Rightarrow>
          (case re n of
             None \<Rightarrow> search_loop re rs st
           | Some (so, eo) \<Rightarrow> do {
               st \<leftarrow> sym_calc_value r st;
               (ms, st) \<leftarrow> search_loop re rs st;
               Some (\<lparr>m_sym = r, m_name = n, m_so = so, m_eo = eo\<rparr> # ms, st)
             }))"

definition sym_re_search ::
  "(cstring \<Rightarrow> (cstring \<Rightarrow> (nat \<times> nat) option) option) \<Rightarrow> (sym_match list \<Rightarrow> sym_match list) \<Rightarrow>
   cstring \<Rightarrow> symtab \<Rightarrow> (symref list option \<times> symtab) option" where
  "sym_re_search regcomp qsort pattern st =
     (if pattern = [] then Some (None, st)
      else case regcomp pattern of
        None \<Rightarrow> Some (None, st)
      | Some re \<Rightarrow> do {
          (ms, st) \<leftarrow> search_loop re (all_symbols st) st;
          Some (if ms = [] then None else Some (map m_sym (qsort ms)), st)
        })"

section \<open>The table stays well-formed\<close>

text \<open>What every operation of this theory keeps of a symbol; \<open>same_shape\<close> with a new user's value.\<close>

definition same_frame :: "symbol \<Rightarrow> symbol \<Rightarrow> bool" where
  "same_frame s s' \<longleftrightarrow> s_name s' = s_name s \<and> s_type s' = s_type s \<and> s_props s' = s_props s \<and>
     fst (s_dir_dep s') = fst (s_dir_dep s) \<and> fst (s_rev_dep s') = fst (s_rev_dep s) \<and>
     s_flags s' \<inter> fixed_flags = s_flags s \<inter> fixed_flags \<and>
     (SYMBOL_NEED_SET_CHOICE_VALUES \<in> s_flags s' \<longrightarrow> SYMBOL_NEED_SET_CHOICE_VALUES \<in> s_flags s) \<and>
     (sym_is_choice s \<longrightarrow> user_choice (fst (s_user s)) \<noteq> None \<longrightarrow> user_choice (fst (s_user s')) \<noteq> None)"

definition frames :: "symtab \<Rightarrow> symtab \<Rightarrow> bool" where
  "frames st st' \<longleftrightarrow> next_id st' = next_id st \<and> buckets st' = buckets st \<and> modules_sym st' = modules_sym st \<and>
     (\<forall>r. same_frame (syms st r) (syms st' r))"

lemma same_frameD:
  assumes "same_frame s s'"
  shows "s_type s' = s_type s" "s_props s' = s_props s" "fst (s_dir_dep s') = fst (s_dir_dep s)"
    and "fst (s_rev_dep s') = fst (s_rev_dep s)"
    and "sym_is_choice s' = sym_is_choice s" "sym_is_choice_value s' = sym_is_choice_value s"
    and "sym_get_choice_prop s' = sym_get_choice_prop s" "props_of t s' = props_of t s"
    and "s_name s' = s_name s" "SYMBOL_CONST \<in> s_flags s' \<longleftrightarrow> SYMBOL_CONST \<in> s_flags s"
proof -
  have f: "f \<in> s_flags s' \<longleftrightarrow> f \<in> s_flags s" if "f \<in> fixed_flags" for f
    using assms that flags_fixed [of s' s f] by (simp add: same_frame_def)
  show "sym_is_choice s' = sym_is_choice s" "sym_is_choice_value s' = sym_is_choice_value s"
    "SYMBOL_CONST \<in> s_flags s' \<longleftrightarrow> SYMBOL_CONST \<in> s_flags s"
    by (simp_all add: sym_is_choice_def sym_is_choice_value_def f fixed_flags_def)
  have p: "s_props s' = s_props s" using assms by (simp add: same_frame_def)
  then show "sym_get_choice_prop s' = sym_get_choice_prop s" "props_of t s' = props_of t s"
    by (simp_all add: sym_get_choice_prop_def props_of_def)
qed (use assms in \<open>simp_all add: same_frame_def\<close>)

lemma framesD:
  assumes "frames st st'"
  shows "modules_sym st' = modules_sym st" "refs st' = refs st" "same_frame (syms st r) (syms st' r)"
  using assms by (simp_all add: frames_def refs_def)

lemma frames_refl [simp]: "frames st st"
  by (simp add: frames_def same_frame_def)

lemma frames_trans:
  assumes "frames st st'" "frames st' st''"
  shows "frames st st''"
proof -
  have "same_frame (syms st r) (syms st'' r)" for r
    using framesD(3) [OF assms(1), of r] framesD(3) [OF assms(2), of r]
      same_frameD(5) [OF framesD(3) [OF assms(1)], of r]
    by (auto simp: same_frame_def)
  with assms show ?thesis by (simp add: frames_def)
qed

lemma evolves_frames: "evolves X st st' \<Longrightarrow> frames st st'"
  by (auto simp: evolves_def frames_def sym_step_def same_shape_def same_frame_def)

lemma frames_wf:
  assumes "frames st st'" "wf_symtab st"
  shows "wf_symtab st'"
proof -
  have refs: "refs st' = refs st" using framesD(2) [OF assms(1)] .
  have "sym_ok st' (syms st' r)" if "r \<in> refs st" for r
  proof -
    have ok: "sym_ok st (syms st r)" using assms(2) that by (auto simp: wf_symtab_def)
    note fr = framesD(3) [OF assms(1)]
    note sh = same_frameD [OF fr]
    have opt: "opt_in st' = opt_in st" by (simp add: opt_in_def refs fun_eq_iff split: option.splits)
    have props: "prop_ok st' = prop_ok st" by (simp add: prop_ok_def opt fun_eq_iff)
    have choice: "sym_is_choice (syms st r) \<Longrightarrow> choice_ok st (syms st r) \<Longrightarrow> choice_ok st' (syms st' r)"
      using fr [of r] by (auto simp: choice_ok_def sh same_frame_def)
    have member: "member_ok (syms st' r) = member_ok (syms st r)" by (simp add: member_ok_def sh)
    from ok choice fr [of r] show ?thesis
      by (auto simp: sym_ok_def opt props member sh same_frame_def)
  qed
  then show ?thesis using assms(2) framesD(1) [OF assms(1)] refs by (simp add: wf_symtab_def)
qed

lemma frames_upd: "same_frame (syms st r) (f (syms st r)) \<Longrightarrow> frames st (upd_sym r f st)"
  by (simp add: frames_def same_frame_def)

lemmas same_frame_defs = same_frame_def fixed_flags_def sym_is_choice_def

lemma frames_set_user:
  "user_choice (fst v) \<noteq> None \<or> \<not> sym_is_choice (syms st r) \<or> fst v = fst (s_user (syms st r)) \<Longrightarrow>
   frames st (set_user r v st)"
  unfolding set_user_def by (rule frames_upd) (auto simp: same_frame_defs)

lemma frames_set_flags: "fs \<subseteq> {SYMBOL_DEF_USER} \<Longrightarrow> frames st (set_flags r fs st)"
  unfolding set_flags_def by (rule frames_upd) (auto simp: same_frame_defs)

lemma frames_mark_user: "frames st (mark_user r st)"
proof -
  have "frames st (sym_set_changed r (set_flags r {SYMBOL_DEF_USER} st))"
    by (rule frames_trans [OF frames_set_flags evolves_frames [OF evolves_set_changed [of "{}"]]]) simp
  then show ?thesis by (simp add: mark_user_def)
qed

lemma frames_fold:
  assumes "\<And>x st. frames st (f x st)"
  shows "frames st (fold f xs st)"
proof (induction xs arbitrary: st)
  case (Cons x xs)
  show ?case using frames_trans [OF assms Cons.IH] by simp
qed simp

lemma forget_simps:
  "syms (forget st) r =
     (if hashed st r \<and> s_type (syms st r) \<noteq> S_OTHER
      then (syms st r)\<lparr>s_flags := s_flags (syms st r) - {SYMBOL_VALID}\<rparr> else syms st r)"
  "modules_sym (forget st) = modules_sym st" "modules_val (forget st) = modules_val st"
  by (simp_all add: forget_def sym_add_change_count_def sym_set_change_count_def for_all_symbols_def)

lemma frames_forget: "frames st (forget st)"
  by (auto simp: frames_def forget_simps same_frame_defs)
    (simp_all add: forget_def sym_add_change_count_def sym_set_change_count_def for_all_symbols_def)

lemma clear_all_valid_total:
  assumes "wf_symtab st"
  shows "\<exists>st'. sym_clear_all_valid st = Some st' \<and> evolves {} (forget st) st' \<and> frames st st'"
proof -
  obtain m where m: "m \<in> refs st" "modules_sym st = Some m" using assms by (auto simp: wf_symtab_def)
  have "wf_symtab (forget st)" by (rule frames_wf [OF frames_forget assms])
  then obtain st' where st': "sym_calc_value m (forget st) = Some st'" "evolves {} (forget st) st'"
    using m(1) framesD(2) [OF frames_forget] by (auto elim: movesE [OF calc_value_moves])
  with m frames_trans [OF frames_forget evolves_frames] show ?thesis
    by (auto simp: sym_clear_all_valid_def forget_simps Let_def)
qed

lemma choose_member_total:
  assumes "wf_symtab st" "r \<in> refs st" "sym_is_choice_value (syms st r)"
    and "\<And>c p. sym_get_choice_prop (syms st r) = Some p \<Longrightarrow> prop_get_symbol p = Some c \<Longrightarrow>
      sym_is_choice (syms st c)"
  shows "\<exists>st'. choose_member r st = Some st' \<and> frames st st'"
proof -
  have ok: "sym_ok st (syms st r)" using assms(1,2) by (simp add: wf_symtab_def)
  obtain p c where p: "sym_get_choice_prop (syms st r) = Some p" "prop_get_symbol p = Some c"
    using sym_okD(6) [OF ok assms(3)] by (auto simp: member_ok_def)
  have c: "sym_is_choice (syms st c)" "c \<in> refs st"
    using assms(4) [OF p] prop_symbol_in [OF choice_prop_ok(1) [OF ok p(1)] p(2)] by simp_all
  define st1 where "st1 = set_flags c {SYMBOL_DEF_USER} (set_user c (V_sym r, snd (s_user (syms st c))) st)"
  have f1: "frames st st1"
    unfolding st1_def by (rule frames_trans [OF frames_set_user frames_set_flags]) simp_all
  obtain q where q: "sym_get_choice_prop (syms st1 c) = Some q"
    using sym_okD(5) [of st "syms st c"] assms(1) c same_frameD(7) [OF framesD(3) [OF f1, of c]]
    by (auto simp: choice_ok_def wf_symtab_def)
  have "frames st1 (fold (\<lambda>d st. if s_visible (syms st d) \<noteq> T_no then set_flags d {SYMBOL_DEF_USER} st else st)
      (members q) st1)"
    by (rule frames_fold) (simp add: frames_set_flags)
  then have "frames st (fold (\<lambda>d st. if s_visible (syms st d) \<noteq> T_no then set_flags d {SYMBOL_DEF_USER} st else st)
      (members q) st1)"
    by (rule frames_trans [OF f1])
  with p q show ?thesis by (simp add: choose_member_def st1_def [symmetric] Let_def)
qed

text \<open>The choice of a member is a choice.\<close>

definition members_linked :: "symtab \<Rightarrow> bool" where
  "members_linked st \<longleftrightarrow> (\<forall>r \<in> refs st. sym_is_choice_value (syms st r) \<longrightarrow>
     (\<forall>p c. sym_get_choice_prop (syms st r) = Some p \<longrightarrow> prop_get_symbol p = Some c \<longrightarrow>
        sym_is_choice (syms st c)))"

lemma frames_linked:
  assumes "frames st st'" "members_linked st"
  shows "members_linked st'"
  using assms(2) same_frameD(5,6,7) [OF framesD(3) [OF assms(1)]] framesD(2) [OF assms(1)]
  by (simp add: members_linked_def)

lemma set_tristate_total:
  assumes "wf_symtab st" "members_linked st" "r \<in> refs st"
  shows "\<exists>b st'. sym_set_tristate_value r val st = Some (b, st') \<and> frames st st' \<and> (\<not> b \<longrightarrow> st' = st) \<and>
    (b \<longleftrightarrow> sym_get_tristate_value (syms st r) = val \<or> sym_tristate_within_range st r val)"
proof (cases "sym_get_tristate_value (syms st r) \<noteq> val \<and> \<not> sym_tristate_within_range st r val")
  case True
  then show ?thesis by (intro exI [of _ False] exI [of _ st]) (simp add: sym_set_tristate_value_def Let_def)
next
  case False
  define st1 where "st1 = mark_user r st"
  have f1: "frames st st1" unfolding st1_def by (rule frames_mark_user)
  have ok1: "wf_symtab st1" "members_linked st1" "r \<in> refs st1"
    using frames_wf [OF f1 assms(1)] frames_linked [OF f1 assms(2)] framesD(2) [OF f1] assms(3) by simp_all
  obtain st2 where 2: "(if sym_is_choice_value (syms st1 r) \<and> val = T_yes then choose_member r st1 else Some st1)
      = Some st2" "frames st1 st2"
  proof (cases "sym_is_choice_value (syms st1 r) \<and> val = T_yes")
    case True
    then obtain st2 where "choose_member r st1 = Some st2" "frames st1 st2"
      using choose_member_total [OF ok1(1,3)] ok1(2,3) unfolding members_linked_def by blast
    with True that show ?thesis by simp
  next
    case no: False
    with that [of st1] show ?thesis by auto
  qed
  define st3 where "st3 = set_user r (fst (s_user (syms st2 r)), val) st2"
  have f3: "frames st2 st3" unfolding st3_def by (rule frames_set_user) simp
  note f = frames_trans [OF f1 frames_trans [OF 2(2) f3]]
  obtain st4 where 4: "(if sym_get_tristate_value (syms st r) \<noteq> val then sym_clear_all_valid st3 else Some st3)
      = Some st4" "frames st3 st4"
    using clear_all_valid_total [OF frames_wf [OF f assms(1)]]
    by (cases "sym_get_tristate_value (syms st r) = val") auto
  have "sym_set_tristate_value r val st = Some (True, st4)"
    unfolding sym_set_tristate_value_def Let_def st1_def [symmetric] if_not_P [OF False] 2(1)
      Option.bind.simps st3_def [symmetric] 4(1) ..
  moreover have "frames st st4" by (rule frames_trans [OF f 4(2)])
  ultimately show ?thesis using False by (intro exI [of _ True] exI [of _ st4]) simp
qed

section \<open>What is set is what is calculated\<close>

text \<open>Buildroot declares no symbol of modules: \<open>conf_parse\<close> takes the constant \<open>n\<close> for it.\<close>

definition no_modules :: "symtab \<Rightarrow> bool" where
  "no_modules st \<longleftrightarrow> modules_sym st = Some SymNo \<and> SYMBOL_VALID \<in> s_flags (syms st SymNo) \<and> \<not> hashed st SymNo"

lemma clear_all_valid_no_modules:
  "no_modules st \<Longrightarrow> sym_clear_all_valid st = Some (forget st)"
  by (simp add: no_modules_def sym_clear_all_valid_def forget_simps Let_def calc_value_valid)

lemma frames_hashed: "frames st st' \<Longrightarrow> hashed st' r = hashed st r"
  by (simp add: frames_def hashed_def)

lemma mark_user_syms:
  "syms (mark_user r st) q = (if q = r then (syms st r)\<lparr>s_flags := s_flags (syms (mark_user r st) r)\<rparr> else syms st q)"
  "s_flags (syms (mark_user r st) r) - {SYMBOL_CHANGED} = insert SYMBOL_DEF_USER (s_flags (syms st r)) - {SYMBOL_CHANGED}"
  by (auto simp: mark_user_def sym_set_changed_def set_flags_def Let_def)

lemma mark_user_has [simp]: "sym_has_value (syms (mark_user r st) r)"
  by (simp add: mark_user_def sym_has_value_def sym_set_changed_def set_flags_def Let_def)

lemma mark_user_valid: "SYMBOL_VALID \<in> s_flags (syms (mark_user r st) q) \<longleftrightarrow> SYMBOL_VALID \<in> s_flags (syms st q)"
  by (simp add: mark_user_def sym_set_changed_def set_flags_def Let_def)

lemma set_user_syms:
  "syms (set_user r v st) q = (if q = r then (syms st r)\<lparr>s_user := v\<rparr> else syms st q)"
  "buckets (set_user r v st) = buckets st" "modules_sym (set_user r v st) = modules_sym st"
  by (simp_all add: set_user_def)

lemma no_modules_set:
  assumes "no_modules st"
  shows "no_modules (set_user r v (mark_user r st))"
proof -
  have f: "frames st (mark_user r st)" by (rule frames_mark_user)
  have "hashed (set_user r v (mark_user r st)) SymNo = hashed (mark_user r st) SymNo"
    by (simp add: hashed_def set_user_syms)
  then show ?thesis
    using assms frames_hashed [OF f] framesD(1) [OF f] mark_user_valid [of r st SymNo]
    by (auto simp: no_modules_def set_user_syms)
qed

text \<open>The state after a new user's value is stored and all values are forgotten.\<close>

lemma stored_value:
  fixes v :: "sval \<times> tristate"
  assumes "wf_symtab st" "hashed st r" "ordinary (syms st r)" "s_type (syms st r) \<noteq> S_OTHER"
  defines "st' \<equiv> forget (set_user r v (mark_user r st))"
  shows "wf_symtab st'" "refs st' = refs st" "SYMBOL_VALID \<notin> s_flags (syms st' r)" "ordinary (syms st' r)"
    and "s_type (syms st' r) = s_type (syms st r)" "s_user (syms st' r) = v" "sym_has_value (syms st' r)"
    and "s_props (syms st' r) = s_props (syms st r)" "modules_sym st' = modules_sym st"
proof -
  have f1: "frames st (mark_user r st)" by (rule frames_mark_user)
  have o: "ordinary (syms (mark_user r st) r)"
    using assms(3) same_frameD(5,6) [OF framesD(3) [OF f1]] by (simp add: ordinary_def)
  have f2: "frames (mark_user r st) (set_user r v (mark_user r st))"
    by (rule frames_set_user) (use o in \<open>simp add: ordinary_def\<close>)
  note f12 = frames_trans [OF f1 f2]
  have f: "frames st st'" unfolding st'_def by (rule frames_trans [OF f12 frames_forget])
  show "wf_symtab st'" "refs st' = refs st" "modules_sym st' = modules_sym st"
    using frames_wf [OF f assms(1)] framesD(1,2) [OF f] by simp_all
  note sh = same_frameD [OF framesD(3) [OF f, of r]]
  show "s_type (syms st' r) = s_type (syms st r)" "s_props (syms st' r) = s_props (syms st r)"
    "ordinary (syms st' r)"
    using sh assms(3) by (simp_all add: ordinary_def)
  have h: "hashed (set_user r v (mark_user r st)) r" using frames_hashed [OF f12] assms(2) by simp
  have ty: "s_type (syms (set_user r v (mark_user r st)) r) \<noteq> S_OTHER"
    using same_frameD(1) [OF framesD(3) [OF f12]] assms(4) by simp
  show "SYMBOL_VALID \<notin> s_flags (syms st' r)" "s_user (syms st' r) = v" "sym_has_value (syms st' r)"
    using h ty mark_user_has [of r st]
    by (simp_all add: st'_def forget_simps set_user_syms sym_has_value_def)
qed

lemma within_range_ordinary:
  assumes "sym_tristate_within_range st r val" "ordinary (syms st r)"
  shows "s_visible (syms st r) \<noteq> T_no" "is_tri (s_type (syms st r))" "snd (s_rev_dep (syms st r)) \<le> val"
    and "val \<le> s_visible (syms st r)" "sym_get_type st r = S_BOOLEAN \<longrightarrow> val \<noteq> T_mod"
  using assms
  by (auto simp: sym_tristate_within_range_def ordinary_def is_tri_def sym_get_type_def Let_def split: if_splits)

lemma or_and_between: "lo \<le> v \<Longrightarrow> v \<le> hi \<Longrightarrow> EXPR_OR (EXPR_AND v hi) lo = v"
  by (cases v; cases lo; cases hi) (simp_all add: EXPR_OR_def EXPR_AND_def tri_order)

lemma set_ordinary_effect:
  assumes "wf_symtab st" "r \<in> refs st" "hashed st r" "ordinary (syms st r)" "no_modules st"
    and "sym_get_tristate_value (syms st r) \<noteq> val"
    and s: "sym_set_tristate_value r val st = Some (b, st1)" "sym_tristate_within_range st r val"
    and st2: "sym_calc_value r st1 = Some st2" "s_visible (syms st2 r) = s_visible (syms st r)"
      "snd (s_rev_dep (syms st2 r)) = snd (s_rev_dep (syms st r))" "modules_val st2 = modules_val st"
  shows "snd (s_curr (syms st2 r)) = val"
proof -
  note w = within_range_ordinary [OF s(2) assms(4)]
  let ?st = "set_user r (fst (s_user (syms (mark_user r st) r)), val) (mark_user r st)"
  have o: "\<not> sym_is_choice_value (syms (mark_user r st) r)"
    using assms(4) same_frameD(6) [OF framesD(3) [OF frames_mark_user]] by (simp add: ordinary_def)
  have "st1 = forget ?st"
    using s assms(6) o clear_all_valid_no_modules [OF no_modules_set [OF assms(5)]]
    by (simp add: sym_set_tristate_value_def Let_def)
  moreover have "s_type (syms st r) \<noteq> S_OTHER" using w(2) by (auto simp: is_tri_def)
  note sv = stored_value [OF assms(1,3,4) this, of "(fst (s_user (syms (mark_user r st) r)), val)"]
  ultimately have st1: "wf_symtab st1" "r \<in> refs st1" "SYMBOL_VALID \<notin> s_flags (syms st1 r)"
    "ordinary (syms st1 r)" "s_type (syms st1 r) = s_type (syms st r)" "snd (s_user (syms st1 r)) = val"
    "sym_has_value (syms st1 r)" "modules_sym st1 = Some SymNo"
    using sv assms(2,5) by (simp_all add: no_modules_def)
  have e: "evolves {} st1 st2" using calc_value_moves [OF st1(1,2)] st2(1) by simp
  have u: "snd (s_user (syms st2 r)) = val" "sym_has_value (syms st2 r)" "ordinary (syms st2 r)"
    "s_type (syms st2 r) = s_type (syms st r)"
    using ordinary_user [OF e st1(4)] ordinary_evolves [OF e, of r] st1(4-7)
      same_shapeD(2) [OF evolves_shape [OF e]] by simp_all
  have "\<exists>t. tri_result st1 st2 r (EXPR_OR t (snd (s_rev_dep (syms st2 r)))) \<and>
      t = EXPR_AND val (s_visible (syms st2 r))"
    using calc_value_tri [OF st1(1,2) st2(1) st1(3,4)] st1(5) w(1,2) st2(2) u by auto
  then have "tri_result st1 st2 r val"
    using or_and_between [OF w(3,4)] st2(2,3) by simp
  moreover have "r \<noteq> SymNo" using assms(3,5) by (auto simp: no_modules_def)
  moreover have "sym_get_type st2 r = sym_get_type st r"
    using u(3,4) assms(4) st2(4) by (simp add: sym_get_type_def Let_def ordinary_def)
  ultimately show ?thesis
    using w(2,5) u(4) st1(8)
    by (auto simp: tri_result_def Let_def is_tri_def mod_to_yes_def sym_get_type_def split: if_splits)
qed

text \<open>What is stored as the user's, also where a member of a choice is set.\<close>

lemma user_has [simp]: "sym_has_value (s\<lparr>s_user := v\<rparr>) = sym_has_value s"
  by (simp add: sym_has_value_def)

lemma forget_user: "s_user (syms (forget st) q) = s_user (syms st q)" "sym_has_value (syms (forget st) q) = sym_has_value (syms st q)"
  by (simp_all add: forget_simps sym_has_value_def)

definition mark_visible :: "symref \<Rightarrow> symtab \<Rightarrow> symtab" where
  "mark_visible d st = (if s_visible (syms st d) \<noteq> T_no then set_flags d {SYMBOL_DEF_USER} st else st)"

lemma mark_visible_keeps:
  "s_user (syms (mark_visible d st) q) = s_user (syms st q)" "s_visible (syms (mark_visible d st) q) = s_visible (syms st q)"
  "sym_has_value (syms (mark_visible d st) q) \<longleftrightarrow> sym_has_value (syms st q) \<or> q = d \<and> s_visible (syms st d) \<noteq> T_no"
  by (auto simp: mark_visible_def set_flags_def sym_has_value_def)

lemma fold_mark_visible:
  "s_user (syms (fold mark_visible ds st) q) = s_user (syms st q)"
  "sym_has_value (syms (fold mark_visible ds st) q) \<longleftrightarrow>
     sym_has_value (syms st q) \<or> q \<in> set ds \<and> s_visible (syms st q) \<noteq> T_no"
  by (induction ds arbitrary: st) (auto simp: mark_visible_keeps)

lemma choose_member_effect:
  assumes "choose_member r st = Some st'"
  shows "\<exists>p c q. sym_get_choice_prop (syms st r) = Some p \<and> prop_get_symbol p = Some c \<and>
    sym_get_choice_prop (syms st c) = Some q \<and> fst (s_user (syms st' c)) = V_sym r \<and> sym_has_value (syms st' c) \<and>
    (\<forall>d \<in> set (members q). s_visible (syms st d) \<noteq> T_no \<longrightarrow> sym_has_value (syms st' d)) \<and>
    (\<forall>x. sym_has_value (syms st x) \<longrightarrow> sym_has_value (syms st' x))"
proof -
  from assms obtain p c where p: "sym_get_choice_prop (syms st r) = Some p" "prop_get_symbol p = Some c"
    by (auto simp: choose_member_def bind_eq_Some_conv Let_def)
  define st1 where "st1 = set_flags c {SYMBOL_DEF_USER} (set_user c (V_sym r, snd (s_user (syms st c))) st)"
  have s1: "fst (s_user (syms st1 c)) = V_sym r" "sym_has_value (syms st1 c)"
    "s_visible (syms st1 x) = s_visible (syms st x)" "sym_has_value (syms st x) \<Longrightarrow> sym_has_value (syms st1 x)"
    "sym_get_choice_prop (syms st1 x) = sym_get_choice_prop (syms st x)" for x
    by (simp_all add: st1_def set_flags_def set_user_def sym_has_value_def sym_get_choice_prop_def)
  from assms p obtain q where q: "sym_get_choice_prop (syms st1 c) = Some q"
    "st' = fold mark_visible (members q) st1"
    by (auto simp: choose_member_def bind_eq_Some_conv Let_def mark_visible_def [abs_def] st1_def)
  show ?thesis
    using p q s1 by (intro exI [of _ p] exI [of _ c] exI [of _ q]) (simp add: fold_mark_visible)
qed

lemma choose_member_valid:
  assumes "choose_member r st = Some st'"
  shows "SYMBOL_VALID \<in> s_flags (syms st' x) \<longleftrightarrow> SYMBOL_VALID \<in> s_flags (syms st x)"
proof -
  have "SYMBOL_VALID \<in> s_flags (syms (fold mark_visible ds st) x) \<longleftrightarrow> SYMBOL_VALID \<in> s_flags (syms st x)" for ds st
    by (induction ds arbitrary: st) (auto simp: mark_visible_def set_flags_def)
  with assms show ?thesis
    by (auto simp: choose_member_def bind_eq_Some_conv Let_def mark_visible_def [abs_def] set_flags_def set_user_def
        split: if_splits)
qed

lemma set_user_effect:
  assumes "wf_symtab st" "members_linked st" "r \<in> refs st" "no_modules st"
    and "sym_get_tristate_value (syms st r) \<noteq> val" "sym_set_tristate_value r val st = Some (b, st1)"
  shows "b \<longrightarrow> snd (s_user (syms st1 r)) = val \<and> sym_has_value (syms st1 r)"
    and "b \<and> sym_is_choice_value (syms st r) \<and> val = T_yes \<longrightarrow>
       (\<exists>p c q. sym_get_choice_prop (syms st r) = Some p \<and> prop_get_symbol p = Some c \<and>
          sym_get_choice_prop (syms st c) = Some q \<and>
          fst (s_user (syms st1 c)) = V_sym r \<and> sym_has_value (syms st1 c) \<and>
          (\<forall>d \<in> set (members q). s_visible (syms st d) \<noteq> T_no \<longrightarrow> sym_has_value (syms st1 d)))"
proof -
  define st2 where "st2 = mark_user r st"
  have f2: "frames st st2" unfolding st2_def by (rule frames_mark_user)
  note sh2 = same_frameD [OF framesD(3) [OF f2]]
  have vis2: "s_visible (syms st2 x) = s_visible (syms st x)" for x
    by (simp add: st2_def mark_user_def sym_set_changed_def set_flags_def Let_def)
  let ?m = "if sym_is_choice_value (syms st2 r) \<and> val = T_yes then choose_member r st2 else Some st2"
  have "(\<exists>st3. ?m = Some st3 \<and> st1 = forget (set_user r (fst (s_user (syms st3 r)), val) st3))" if b
  proof -
    from assms(5,6) that obtain st3 where 3: "?m = Some st3"
      "sym_clear_all_valid (set_user r (fst (s_user (syms st3 r)), val) st3) = Some st1"
      by (auto simp: sym_set_tristate_value_def Let_def st2_def bind_eq_Some_conv split: if_splits)
    have f3: "frames st2 st3"
    proof (cases "sym_is_choice_value (syms st2 r) \<and> val = T_yes")
      case True
      have ok2: "wf_symtab st2" "members_linked st2" "r \<in> refs st2"
        using frames_wf [OF f2 assms(1)] frames_linked [OF f2 assms(2)] framesD(2) [OF f2] assms(3) by simp_all
      then obtain st3' where "choose_member r st2 = Some st3'" "frames st2 st3'"
        using choose_member_total [OF ok2(1,3)] True unfolding members_linked_def by blast
      with 3(1) True show ?thesis by simp
    qed (use 3(1) in auto)
    have "SYMBOL_VALID \<in> s_flags (syms st3 SymNo)"
    proof (cases "sym_is_choice_value (syms st2 r) \<and> val = T_yes")
      case True
      then show ?thesis
        using 3(1) choose_member_valid assms(4) mark_user_valid [of r st SymNo] by (simp add: st2_def no_modules_def)
    next
      case False
      then show ?thesis
        using 3(1) assms(4) mark_user_valid [of r st SymNo] by (auto simp: st2_def no_modules_def)
    qed
    then have "no_modules (set_user r v st3)" for v
      using assms(4) framesD(1) [OF f2] framesD(1) [OF f3] frames_hashed [OF f2] frames_hashed [OF f3]
      by (auto simp: no_modules_def set_user_syms hashed_def)
    from clear_all_valid_no_modules [OF this] 3 show ?thesis by auto
  qed
  note end_state = this
  show "b \<longrightarrow> snd (s_user (syms st1 r)) = val \<and> sym_has_value (syms st1 r)"
  proof
    assume b
    then obtain st3 where 3: "?m = Some st3" "st1 = forget (set_user r (fst (s_user (syms st3 r)), val) st3)"
      using end_state by blast
    have "sym_has_value (syms st3 r)"
      using 3(1) choose_member_effect [of r st2 st3] mark_user_has [of r st] by (auto simp: st2_def split: if_splits)
    with 3(2) show "snd (s_user (syms st1 r)) = val \<and> sym_has_value (syms st1 r)"
      by (simp add: forget_user set_user_syms)
  qed
  show "b \<and> sym_is_choice_value (syms st r) \<and> val = T_yes \<longrightarrow>
       (\<exists>p c q. sym_get_choice_prop (syms st r) = Some p \<and> prop_get_symbol p = Some c \<and>
          sym_get_choice_prop (syms st c) = Some q \<and>
          fst (s_user (syms st1 c)) = V_sym r \<and> sym_has_value (syms st1 c) \<and>
          (\<forall>d \<in> set (members q). s_visible (syms st d) \<noteq> T_no \<longrightarrow> sym_has_value (syms st1 d)))"
  proof
    assume m: "b \<and> sym_is_choice_value (syms st r) \<and> val = T_yes"
    then obtain st3 where 3: "?m = Some st3" "st1 = forget (set_user r (fst (s_user (syms st3 r)), val) st3)"
      using end_state by blast
    with m sh2(6) have "choose_member r st2 = Some st3" by simp
    from choose_member_effect [OF this] obtain p c q where e: "sym_get_choice_prop (syms st r) = Some p" "prop_get_symbol p = Some c"
      "sym_get_choice_prop (syms st c) = Some q" "fst (s_user (syms st3 c)) = V_sym r" "sym_has_value (syms st3 c)"
      "\<forall>d \<in> set (members q). s_visible (syms st d) \<noteq> T_no \<longrightarrow> sym_has_value (syms st3 d)"
      by (auto simp: sh2(7) vis2)
    have "fst (s_user (syms st1 x)) = fst (s_user (syms st3 x))" "sym_has_value (syms st1 x) = sym_has_value (syms st3 x)" for x
      by (simp_all add: 3(2) forget_user set_user_syms)
    with e show "\<exists>p c q. sym_get_choice_prop (syms st r) = Some p \<and> prop_get_symbol p = Some c \<and>
          sym_get_choice_prop (syms st c) = Some q \<and>
          fst (s_user (syms st1 c)) = V_sym r \<and> sym_has_value (syms st1 c) \<and>
          (\<forall>d \<in> set (members q). s_visible (syms st d) \<noteq> T_no \<longrightarrow> sym_has_value (syms st1 d))"
      by (intro exI [of _ p] exI [of _ c] exI [of _ q]) simp
  qed
qed

lemma toggle_step:
  "sym_set_tristate_value r (next_tri newval) st = Some (b, st') \<Longrightarrow>
   toggle_loop r oldval newval st =
     (if b then Some (next_tri newval, st')
      else if oldval \<noteq> next_tri newval then toggle_loop r oldval (next_tri newval) st'
      else Some (next_tri newval, st'))"
  by (subst toggle_loop.simps) (simp add: Let_def)

lemma next_tri_cycle [simp]:
  "next_tri (next_tri (next_tri t)) = t" "next_tri t \<noteq> t" "t \<noteq> next_tri t"
  "next_tri (next_tri t) \<noteq> t" "t \<noteq> next_tri (next_tri t)"
  by (cases t; simp)+

section \<open>A small table\<close>

definition sample_set :: symtab where
  "sample_set = sample_symtab\<lparr>
     syms := (syms sample_symtab)
       (SymId 4 := blank_symbol\<lparr>s_name := Some ''BAZ'', s_type := S_HEX,
          s_props := [sample_property P_PROMPT (Some ''baz'') None]\<rparr>,
        SymId 5 := (syms sample_symtab (SymId 5))\<lparr>s_visible := T_yes\<rparr>),
     buckets := (\<lambda>i. if i = 0 then [SymId 4, SymId 5] else [])\<rparr>"

lemma sample_set_simps:
  "syms sample_set (SymId 4) = blank_symbol\<lparr>s_name := Some ''BAZ'', s_type := S_HEX,
     s_props := [sample_property P_PROMPT (Some ''baz'') None]\<rparr>"
  "syms sample_set (SymId 5) = blank_symbol\<lparr>s_name := Some ''FOO'', s_type := S_BOOLEAN,
     s_user := (V_NULL, T_yes), s_flags := {SYMBOL_DEF_USER}, s_visible := T_yes,
     s_props := [sample_property P_PROMPT (Some ''foo'') None]\<rparr>"
  "syms sample_set SymNo = symbol_no" "modules_sym sample_set = Some SymNo" "next_id sample_set = 9"
  by (simp_all add: sample_set_def sample_symtab_def blank_symbol_def)

lemma sample_set_refs: "refs sample_set = refs sample_symtab" "SymId 4 \<in> refs sample_set" "SymId 5 \<in> refs sample_set"
  by (simp_all add: refs_def sample_set_simps(5)) (simp add: sample_symtab_def)

lemma sample_set_hashed: "hashed sample_set (SymId 4)" "hashed sample_set (SymId 5)" "\<not> hashed sample_set SymNo"
  unfolding hashed_def sample_set_def SYMBOL_HASHSIZE_def
  by (intro exI [of _ 0]; simp)+ simp

lemma sample_set_wf: "wf_symtab sample_set" "members_linked sample_set" "no_modules sample_set"
proof -
  have r: "refs sample_set = {SymYes, SymMod, SymNo, SymEmpty} \<union> SymId ` {..<9}"
    by (simp add: refs_def sample_set_simps)
  then show "wf_symtab sample_set"
    by (auto simp: wf_symtab_def sym_ok_def sample_set_def sample_symtab_def blank_symbol_def symbol_yes_def
        symbol_mod_def symbol_no_def symbol_empty_def sym_is_choice_def sym_is_choice_value_def
        opt_in_def prop_ok_def sample_property_def sample_const_def range_syms_def)
  show "members_linked sample_set"
    unfolding members_linked_def r
    by (auto simp: sample_set_def sample_symtab_def blank_symbol_def symbol_yes_def
        symbol_mod_def symbol_no_def symbol_empty_def sym_is_choice_value_def sample_const_def)
  show "no_modules sample_set"
    using sample_set_hashed(3) by (simp add: no_modules_def sample_set_simps symbol_no_def)
qed

lemma sample_set_ordinary: "ordinary (syms sample_set (SymId 4))" "ordinary (syms sample_set (SymId 5))"
  by (simp_all add: sample_set_simps ordinary_def sym_is_choice_def sym_is_choice_value_def blank_symbol_def)

lemma sample_within:
  "sym_tristate_within_range sample_set (SymId 5) val \<longleftrightarrow> val \<noteq> T_mod"
  by (cases val) (simp_all add: sym_tristate_within_range_def sym_get_type_def sample_set_simps Let_def
      blank_symbol_def sym_is_choice_value_def tri_order)

section \<open>Properties\<close>

text \<open>
  C34: \<open>sym_set_tristate_value\<close> ends and takes a value exactly when it is the current one or inside the
  limits; otherwise nothing changes. In a table without a symbol of modules the symbol then has this value as the
  one of the user. For a member of a choice that is set to y the choice has the member as its user's, and the choice and all
  members that are visible count as set by the user. For a symbol that is no choice and no member, calculating it
  again gives the value that was set, as long as that leaves visibility and reverse dependency
  as they were; what calculating a choice or a member then gives is not claimed.
\<close>

theorem set_tristate_takes_effect:
  assumes "wf_symtab st" "members_linked st" "r \<in> refs st" "hashed st r" "no_modules st"
    and "sym_get_tristate_value (syms st r) \<noteq> val"
  shows "\<exists>b st1. sym_set_tristate_value r val st = Some (b, st1) \<and> (b \<longleftrightarrow> sym_tristate_within_range st r val) \<and>
    (\<not> b \<longrightarrow> st1 = st) \<and>
    (b \<longrightarrow> snd (s_user (syms st1 r)) = val \<and> sym_has_value (syms st1 r)) \<and>
    (b \<and> sym_is_choice_value (syms st r) \<and> val = T_yes \<longrightarrow>
       (\<exists>p c q. sym_get_choice_prop (syms st r) = Some p \<and> prop_get_symbol p = Some c \<and>
          sym_get_choice_prop (syms st c) = Some q \<and>
          fst (s_user (syms st1 c)) = V_sym r \<and> sym_has_value (syms st1 c) \<and>
          (\<forall>d \<in> set (members q). s_visible (syms st d) \<noteq> T_no \<longrightarrow> sym_has_value (syms st1 d)))) \<and>
    (\<forall>st2. b \<and> ordinary (syms st r) \<and> sym_calc_value r st1 = Some st2 \<and> s_visible (syms st2 r) = s_visible (syms st r) \<and>
       snd (s_rev_dep (syms st2 r)) = snd (s_rev_dep (syms st r)) \<and> modules_val st2 = modules_val st \<longrightarrow>
       snd (s_curr (syms st2 r)) = val)"
proof -
  obtain b st1 where s: "sym_set_tristate_value r val st = Some (b, st1)" "\<not> b \<longrightarrow> st1 = st"
    "b \<longleftrightarrow> sym_tristate_within_range st r val"
    using set_tristate_total [OF assms(1-3), of val] assms(6) by blast
  note user = set_user_effect [OF assms(1-3,5,6) s(1)]
  have "snd (s_curr (syms st2 r)) = val"
    if b and o: "ordinary (syms st r)" and st2: "sym_calc_value r st1 = Some st2" "s_visible (syms st2 r) = s_visible (syms st r)"
      "snd (s_rev_dep (syms st2 r)) = snd (s_rev_dep (syms st r))" "modules_val st2 = modules_val st" for st2
    by (rule set_ordinary_effect [OF assms(1,3,4) o assms(5,6) s(1)]) (use s(3) that in auto)
  with s user show ?thesis by (intro exI [of _ b] exI [of _ st1] conjI) blast+
qed

theorem set_tristate_takes_effect_witness:
  "\<exists>st1. sym_set_tristate_value (SymId 5) T_yes sample_set = Some (True, st1) \<and> sym_has_value (syms st1 (SymId 5))"
proof -
  have "sym_get_tristate_value (syms sample_set (SymId 5)) \<noteq> T_yes"
    by (simp add: sample_set_simps sym_get_tristate_value_def blank_symbol_def)
  from set_tristate_takes_effect [OF sample_set_wf(1,2) sample_set_refs(3) sample_set_hashed(2)
      sample_set_wf(3) this]
  show ?thesis by (auto simp: sample_within)
qed

text \<open>
  \<open>sym_toggle_tristate_value\<close> ends, with the next of the three values that is inside the limits, and
  with the value it had where there is none.
\<close>

theorem toggle_takes_next:
  assumes "wf_symtab st" "members_linked st" "r \<in> refs st"
  shows "\<exists>st'. sym_toggle_tristate_value r st = Some
    (let old = sym_get_tristate_value (syms st r); ok = sym_tristate_within_range st r in
     if ok (next_tri old) then next_tri old
     else if ok (next_tri (next_tri old)) then next_tri (next_tri old) else old, st')"
proof -
  define old where "old = sym_get_tristate_value (syms st r)"
  have s: "\<exists>b st'. sym_set_tristate_value r v st = Some (b, st') \<and> (\<not> b \<longrightarrow> st' = st) \<and>
      (b \<longleftrightarrow> old = v \<or> sym_tristate_within_range st r v)" for v
    using set_tristate_total [OF assms, of v] unfolding old_def by blast
  obtain b1 st1 where 1: "sym_set_tristate_value r (next_tri old) st = Some (b1, st1)" "\<not> b1 \<longrightarrow> st1 = st"
    "b1 \<longleftrightarrow> sym_tristate_within_range st r (next_tri old)" using s [of "next_tri old"] by auto
  obtain b2 st2 where 2: "sym_set_tristate_value r (next_tri (next_tri old)) st = Some (b2, st2)"
    "\<not> b2 \<longrightarrow> st2 = st" "b2 \<longleftrightarrow> sym_tristate_within_range st r (next_tri (next_tri old))"
    using s [of "next_tri (next_tri old)"] by auto
  obtain st3 where 3: "sym_set_tristate_value r (next_tri (next_tri (next_tri old))) st = Some (True, st3)"
    using s [of old] by auto
  show ?thesis
    using 1(2,3) 2(2,3) toggle_step [OF 1(1), of old] toggle_step [OF 2(1), of old] toggle_step [OF 3, of old]
    by (cases b1; cases b2) (auto simp: sym_toggle_tristate_value_def Let_def old_def [symmetric])
qed

theorem toggle_takes_next_witness:
  "\<exists>st'. sym_toggle_tristate_value (SymId 5) sample_set = Some (T_yes, st')"
  using toggle_takes_next [OF sample_set_wf(1,2) sample_set_refs(3)]
  by (simp add: sample_within sample_set_simps sym_get_tristate_value_def blank_symbol_def)

text \<open>The text stored for a hexadecimal number gets a prefix.\<close>

definition stored_text :: "symbol_type \<Rightarrow> cstring \<Rightarrow> cstring" where
  "stored_text type s = (if type = S_HEX \<and> \<not> has_0x s then ''0x'' @ s else s)"

lemma stored_text_valid:
  assumes "sym_string_valid type s"
  shows "sym_string_valid type (stored_text type s)"
proof (cases "type = S_HEX \<and> \<not> has_0x s")
  case True
  then have "skip_0x s = s" by (auto simp: skip_0x_def has_0x_def split: list.splits)
  with True assms show ?thesis by (simp add: stored_text_def hex_valid_def) (simp add: skip_0x_def)
qed (use assms in \<open>auto simp: stored_text_def\<close>)



end
