(* ===== verification/Kconfread.thy ===== *)
theory Kconfread
  imports Kset
begin

text \<open>
  Reading configuration files, from \<open>support/kconfig/confdata.c\<close>: lines and their buffer
  (\<open>add_byte\<close>, \<open>compat_getline\<close>), the value of a line (\<open>conf_set_sym_val\<close>), \<open>conf_read_simple\<close>
  and \<open>conf_read\<close>, with the names of the files. A line is a C string; only for a \<open>#\<close> that ends
  the file without a newline the code reads behind the end of it, where the model finds nothing.
  What is written to standard error and output is kept as lists of texts.
\<close>

section \<open>The state of the reader\<close>

record reader =
  rd_tab :: symtab
  conf_filename :: cstring
  conf_lineno :: nat
  conf_warnings :: nat
  conf_unsaved :: nat
  conf_messages :: "cstring list"

text \<open>What the programs see of the system: the files by name, and the environment.\<close>

record env =
  env_files :: "cstring \<Rightarrow> cstring option"
  env_var :: "cstring \<Rightarrow> cstring option"

definition PATH_MAX :: nat where "PATH_MAX = 4096"

definition upd_rd :: "(symtab \<Rightarrow> symtab) \<Rightarrow> reader \<Rightarrow> reader" where
  "upd_rd f rd = rd\<lparr>rd_tab := f (rd_tab rd)\<rparr>"

definition conf_warning :: "cstring \<Rightarrow> reader \<Rightarrow> reader" where
  "conf_warning msg rd =
     rd\<lparr>rd_tab := (rd_tab rd)\<lparr>warnings := warnings (rd_tab rd) @
          [conf_filename rd @ '':'' @ dec_of_nat (conf_lineno rd) @ '':warning: '' @ msg]\<rparr>,
        conf_warnings := conf_warnings rd + 1\<rparr>"

definition conf_message :: "cstring \<Rightarrow> reader \<Rightarrow> reader" where
  "conf_message msg rd = rd\<lparr>conf_messages := conf_messages rd @ [msg]\<rparr>"

text \<open>The two entries of \<open>def\<close> that are used, and their flags.\<close>

datatype def_index = S_DEF_USER | S_DEF_AUTO

fun def_flag :: "def_index \<Rightarrow> sflag" where
  "def_flag S_DEF_USER = SYMBOL_DEF_USER"
| "def_flag S_DEF_AUTO = SYMBOL_DEF_AUTO"

fun get_def :: "def_index \<Rightarrow> symbol \<Rightarrow> sval \<times> tristate" where
  "get_def S_DEF_USER s = s_user s"
| "get_def S_DEF_AUTO s = s_auto s"

fun put_def :: "def_index \<Rightarrow> sval \<times> tristate \<Rightarrow> symbol \<Rightarrow> symbol" where
  "put_def S_DEF_USER v s = s\<lparr>s_user := v\<rparr>"
| "put_def S_DEF_AUTO v s = s\<lparr>s_auto := v\<rparr>"

definition set_def_tri :: "def_index \<Rightarrow> symref \<Rightarrow> tristate \<Rightarrow> symtab \<Rightarrow> symtab" where
  "set_def_tri d r v = upd_sym r (\<lambda>s. put_def d (fst (get_def d s), v) s)"

definition set_def_val :: "def_index \<Rightarrow> symref \<Rightarrow> sval \<Rightarrow> symtab \<Rightarrow> symtab" where
  "set_def_val d r v = upd_sym r (\<lambda>s. put_def d (v, snd (get_def d s)) s)"

section \<open>Names of files\<close>

definition conf_get_configname :: "env \<Rightarrow> cstring" where
  "conf_get_configname env = (case env_var env ''BR2_CONFIG'' of Some n \<Rightarrow> n | None \<Rightarrow> ''.config'')"

definition conf_get_autoconfig_name :: "env \<Rightarrow> cstring option" where
  "conf_get_autoconfig_name env = env_var env ''KCONFIG_AUTOCONFIG''"

text \<open>
  \<open>conf_expand_value\<close> collects its result in a static buffer of \<open>SYMBOL_MAXLENGTH\<close> bytes and each name
  in another: None where it would write behind their ends.
\<close>

function expand_conf :: "cstring \<Rightarrow> cstring \<Rightarrow> symtab \<Rightarrow> (cstring \<times> symtab) option" where
  "expand_conf inp res st =
     (case strchr_split (CHR ''$'') inp of
        (_, None) \<Rightarrow> map_option (\<lambda>res. (res, st)) (append_to SYMBOL_MAXLENGTH res inp)
      | (b, Some src) \<Rightarrow>
          Option.bind (append_to SYMBOL_MAXLENGTH res b) (\<lambda>res.
          let name = takeWhile is_name_char src; src = dropWhile is_name_char src in
          if length name + 1 > SYMBOL_MAXLENGTH then None
          else let (r, st) = sym_lookup (Some name) {} st in do {
            st \<leftarrow> sym_calc_value r st;
            (v, st) \<leftarrow> sym_get_string_value sym_calc_value r st;
            res \<leftarrow> append_to SYMBOL_MAXLENGTH res v;
            expand_conf src res st
          }))"
  by pat_completeness auto
termination
  by (relation "measure (\<lambda>(inp, res, st). length inp)") (auto intro: rest_shorter)

declare expand_conf.simps [simp del]

definition conf_expand_value :: "cstring \<Rightarrow> symtab \<Rightarrow> (cstring \<times> symtab) option" where
  "conf_expand_value inp st = expand_conf inp [] st"

text \<open>A name relative to the source tree is tried second; None where it does not fit its buffer.\<close>

definition in_srctree :: "env \<Rightarrow> cstring \<Rightarrow> cstring option option" where
  "in_srctree env name = (case env_var env ''srctree'' of
      None \<Rightarrow> Some None
    | Some t \<Rightarrow> let full = t @ ''/'' @ name in if length full \<le> PATH_MAX then Some (Some full) else None)"

definition zconf_fopen :: "env \<Rightarrow> cstring \<Rightarrow> cstring option option" where
  "zconf_fopen env name =
     (case env_files env name of
        Some f \<Rightarrow> Some (Some f)
      | None \<Rightarrow>
          if starts_with name ''/'' then Some None
          else Option.bind (in_srctree env name) (\<lambda>full. Some (Option.bind full (env_files env))))"

definition conf_get_default_confname :: "env \<Rightarrow> symtab \<Rightarrow> (cstring \<times> symtab) option" where
  "conf_get_default_confname env st = do {
     (name, st) \<leftarrow> conf_expand_value ''.defconfig'' st;
     full \<leftarrow> in_srctree env name;
     Some (case full of Some f \<Rightarrow> if env_files env f \<noteq> None then f else name | None \<Rightarrow> name, st)
   }"

section \<open>The value of a line\<close>

definition first_is :: "char \<Rightarrow> cstring \<Rightarrow> bool" where
  "first_is c p \<longleftrightarrow> p \<noteq> [] \<and> hd p = c"

definition rd_sym :: "reader \<Rightarrow> symref \<Rightarrow> symbol" where
  "rd_sym rd r = syms (rd_tab rd) r"

definition set_tri_val :: "def_index \<Rightarrow> symref \<Rightarrow> tristate \<Rightarrow> reader \<Rightarrow> reader" where
  "set_tri_val d r v = upd_rd (set_flags r {def_flag d} \<circ> set_def_tri d r v)"

definition invalid_value :: "def_index \<Rightarrow> symref \<Rightarrow> cstring \<Rightarrow> reader \<Rightarrow> reader" where
  "invalid_value d r p rd =
     (if d \<noteq> S_DEF_AUTO
      then conf_warning (''symbol value '' @ single_quoted p @ '' invalid for '' @ text_or_empty (s_name (rd_sym rd r))) rd
      else rd)"

definition set_bool_val :: "def_index \<Rightarrow> symref \<Rightarrow> cstring \<Rightarrow> reader \<Rightarrow> bool \<times> reader" where
  "set_bool_val d r p rd =
     (if first_is (CHR ''y'') p then (False, set_tri_val d r T_yes rd)
      else if first_is (CHR ''n'') p then (False, set_tri_val d r T_no rd)
      else (True, invalid_value d r p rd))"

definition set_text_val :: "def_index \<Rightarrow> symref \<Rightarrow> cstring \<Rightarrow> reader \<Rightarrow> bool \<times> reader" where
  "set_text_val d r p rd =
     (if sym_string_valid (s_type (rd_sym rd r)) p
      then (False, upd_rd (set_flags r {def_flag d} \<circ> set_def_val d r (V_str p)) rd)
      else (True, invalid_value d r p rd))"

definition set_quoted_val :: "def_index \<Rightarrow> symref \<Rightarrow> cstring \<Rightarrow> reader \<Rightarrow> bool \<times> reader" where
  "set_quoted_val d r p rd =
     (case conf_unescape (tl p) of
        None \<Rightarrow> (True, if d \<noteq> S_DEF_AUTO then conf_warning ''invalid string found'' rd else rd)
      | Some v \<Rightarrow> set_text_val d r v rd)"

text \<open>True stands for the result 1.\<close>

definition conf_set_sym_val :: "def_index \<Rightarrow> symref \<Rightarrow> cstring \<Rightarrow> reader \<Rightarrow> bool \<times> reader" where
  "conf_set_sym_val d r p rd =
     (case s_type (rd_sym rd r) of
        S_TRISTATE \<Rightarrow>
          if first_is (CHR ''m'') p then (False, set_tri_val d r T_mod rd) else set_bool_val d r p rd
      | S_BOOLEAN \<Rightarrow> set_bool_val d r p rd
      | S_OTHER \<Rightarrow>
          if \<not> first_is (CHR 0x22) p
          then set_text_val d r p (upd_rd (upd_sym r (\<lambda>s. s\<lparr>s_type := S_STRING\<rparr>)) rd)
          else set_quoted_val d r p rd
      | S_STRING \<Rightarrow> if \<not> first_is (CHR 0x22) p then (False, rd) else set_quoted_val d r p rd
      | S_INT \<Rightarrow> set_text_val d r p rd
      | S_HEX \<Rightarrow> set_text_val d r p rd
      | S_UNKNOWN \<Rightarrow> (False, rd))"

section \<open>Lines\<close>

definition LINE_GROWTH :: nat where "LINE_GROWTH = 16"

text \<open>
  \<open>compat_getline\<close> with the buffer it grows, whose length is \<open>*n\<close>. New bytes are shown as NUL; they
  are written before they are read.
\<close>

definition add_byte :: "char \<Rightarrow> nat \<Rightarrow> cstring \<Rightarrow> cstring" where
  "add_byte c slen buf =
     (let new_size = slen + 1;
          buf = (if new_size > length buf
                 then buf @ replicate ((new_size + (LINE_GROWTH - 1)) * 2 - length buf) (CHR 0x00) else buf)
      in buf[slen := c])"

text \<open>The result is the length, None for -1, with the buffer and the unread rest.\<close>

fun getline_loop :: "cstring \<Rightarrow> nat \<Rightarrow> cstring \<Rightarrow> nat option \<times> cstring \<times> cstring" where
  "getline_loop [] slen buf = (if slen = 0 then None else Some slen, add_byte (CHR 0x00) slen buf, [])"
| "getline_loop (c # s) slen buf =
     (if c = CHR 0x0A
      then (Some (slen + 1), add_byte (CHR 0x00) (slen + 1) (add_byte c slen buf), s)
      else getline_loop s (slen + 1) (add_byte c slen buf))"

definition compat_getline :: "cstring \<Rightarrow> cstring \<Rightarrow> nat option \<times> cstring \<times> cstring" where
  "compat_getline stream buf = getline_loop stream 0 buf"

text \<open>The C string in a buffer.\<close>

definition c_text :: "cstring \<Rightarrow> cstring" where
  "c_text buf = takeWhile (\<lambda>c. c \<noteq> CHR 0x00) buf"

text \<open>\<open># NAME is not set\<close>, with anything behind it: the name.\<close>

definition unset_name :: "cstring \<Rightarrow> cstring \<Rightarrow> cstring option" where
  "unset_name pre line =
     (let l = drop 2 line in
      if \<not> starts_with l pre then None
      else case strchr_split (CHR '' '') (drop (length pre) l) of
        (name, Some r) \<Rightarrow> if starts_with r ''is not set'' then Some name else None
      | (_, None) \<Rightarrow> None)"

definition strip_eol :: "cstring \<Rightarrow> cstring" where
  "strip_eol p =
     (case strchr_split (CHR 0x0A) p of
        (v, Some _) \<Rightarrow> if v \<noteq> [] \<and> last v = CHR 0x0D then butlast v else v
      | (v, None) \<Rightarrow> v)"

text \<open>\<open>NAME=value\<close>: the name and the value.\<close>

definition assigned :: "cstring \<Rightarrow> cstring \<Rightarrow> (cstring \<times> cstring) option" where
  "assigned pre line =
     (case strchr_split (CHR ''='') (drop (length pre) line) of
        (name, Some p) \<Rightarrow> Some (name, strip_eol p) | (_, None) \<Rightarrow> None)"

text \<open>The symbol of a line: one of the configuration, or for \<open>auto.conf\<close> one made up for it.\<close>

definition line_symbol ::
  "def_index \<Rightarrow> symbol_type \<Rightarrow> cstring \<Rightarrow> reader \<Rightarrow> symref option \<times> reader" where
  "line_symbol d type name rd =
     (case d of
        S_DEF_USER \<Rightarrow>
          (case sym_find (Some name) (rd_tab rd) of
             None \<Rightarrow> (None, upd_rd (sym_add_change_count 1) rd)
           | Some r \<Rightarrow> (Some r, rd))
      | S_DEF_AUTO \<Rightarrow>
          (let (r, st) = sym_lookup (Some name) {} (rd_tab rd);
               st = (if s_type (syms st r) = S_UNKNOWN then upd_sym r (\<lambda>s. s\<lparr>s_type := type\<rparr>) st else st)
           in (Some r, rd\<lparr>rd_tab := st\<rparr>)))"

definition warn_override :: "def_index \<Rightarrow> symref \<Rightarrow> reader \<Rightarrow> reader" where
  "warn_override d r rd =
     (if def_flag d \<in> s_flags (rd_sym rd r)
      then conf_warning (''override: reassigning to symbol '' @ text_or_empty (s_name (rd_sym rd r))) rd
      else rd)"

text \<open>A member of a choice tells the choice.\<close>

definition set_choice_state :: "def_index \<Rightarrow> symref \<Rightarrow> reader \<Rightarrow> reader option" where
  "set_choice_state d r rd =
     (if sym_is_choice_value (rd_sym rd r)
      then do {
        prop \<leftarrow> sym_get_choice_prop (rd_sym rd r);
        cs \<leftarrow> prop_get_symbol prop;
        let name = text_or_empty (s_name (rd_sym rd r));
        let tri = snd (get_def d (rd_sym rd r));
        let rd = (case tri of
            T_no \<Rightarrow> rd
          | T_mod \<Rightarrow>
              if snd (get_def d (rd_sym rd cs)) = T_yes
              then upd_rd (clear_flags cs {def_flag d})
                (conf_warning (name @ '' creates inconsistent choice state'') rd)
              else rd
          | T_yes \<Rightarrow>
              upd_rd (set_def_val d cs (V_sym r))
                (if snd (get_def d (rd_sym rd cs)) \<noteq> T_no
                 then conf_warning (''override: '' @ name @ '' changes choice state'') rd else rd));
        Some (upd_rd (set_def_tri d cs (EXPR_OR (snd (get_def d (rd_sym rd cs))) tri)) rd)
      }
      else Some rd)"

definition read_unset :: "def_index \<Rightarrow> cstring \<Rightarrow> reader \<Rightarrow> reader option" where
  "read_unset d name rd =
     (case line_symbol d S_BOOLEAN name rd of
        (None, rd) \<Rightarrow> Some rd
      | (Some r, rd) \<Rightarrow>
          let rd = warn_override d r rd;
              rd = (if is_tri (s_type (rd_sym rd r)) then set_tri_val d r T_no rd else rd)
          in set_choice_state d r rd)"

definition read_assigned :: "def_index \<Rightarrow> cstring \<Rightarrow> cstring \<Rightarrow> reader \<Rightarrow> reader option" where
  "read_assigned d name p rd =
     (case line_symbol d S_OTHER name rd of
        (None, rd) \<Rightarrow> Some rd
      | (Some r, rd) \<Rightarrow>
          let (bad, rd) = conf_set_sym_val d r p (warn_override d r rd)
          in if bad then Some rd else set_choice_state d r rd)"

definition conf_read_line :: "def_index \<Rightarrow> cstring \<Rightarrow> cstring \<Rightarrow> reader \<Rightarrow> reader option" where
  "conf_read_line d pre line rd =
     (let rd = rd\<lparr>conf_lineno := conf_lineno rd + 1\<rparr> in
      if first_is (CHR ''#'') line
      then (case unset_name pre line of None \<Rightarrow> Some rd | Some name \<Rightarrow> read_unset d name rd)
      else if starts_with line pre
      then (case assigned pre line of None \<Rightarrow> Some rd | Some (name, p) \<Rightarrow> read_assigned d name p rd)
      else Some (if \<not> first_is (CHR 0x0D) line \<and> \<not> first_is (CHR 0x0A) line
                 then conf_warning ''unexpected data'' rd else rd))"

lemma getline_length: "length (snd (snd (getline_loop s slen buf))) \<le> length s - 1"
proof (induction s arbitrary: slen buf)
  case (Cons c s)
  show ?case using Cons.IH [of "slen + 1" "add_byte c slen buf"] by simp linarith
qed simp

lemma getline_shorter:
  assumes "(Some n, buf', rest) = compat_getline s buf"
  shows "length rest < length s"
proof -
  have "s \<noteq> []" using assms by (auto simp: compat_getline_def)
  then have "0 < length s" by simp
  with getline_length [of s 0 buf] assms show ?thesis
    unfolding compat_getline_def by (metis diff_less le_less_trans snd_conv zero_less_one)
qed

function read_lines :: "def_index \<Rightarrow> cstring \<Rightarrow> cstring \<Rightarrow> cstring \<Rightarrow> reader \<Rightarrow> reader option" where
  "read_lines d pre stream buf rd =
     (case compat_getline stream buf of
        (None, _, _) \<Rightarrow> Some rd
      | (Some _, buf, stream) \<Rightarrow>
          Option.bind (conf_read_line d pre (c_text buf) rd) (\<lambda>rd. read_lines d pre stream buf rd))"
  by pat_completeness auto
termination
  by (relation "measure (\<lambda>(d, pre, stream, buf, rd). length stream)") (auto intro: getline_shorter)

declare read_lines.simps [simp del]
text \<open>The lines of a file without the buffer: what is read does not depend on the buffer.\<close>

definition next_line :: "cstring \<Rightarrow> cstring \<times> cstring" where
  "next_line s = (case strchr_split (CHR 0x0A) s of (b, Some r) \<Rightarrow> (b @ [CHR 0x0A], r) | (b, None) \<Rightarrow> (b, []))"

lemma next_line_simps [simp]:
  "next_line [] = ([], [])"
  "next_line (CHR 0x0A # s) = ([CHR 0x0A], s)"
  "c \<noteq> CHR 0x0A \<Longrightarrow> next_line (c # s) = (c # fst (next_line s), snd (next_line s))"
  by (auto simp: next_line_def split: prod.splits option.splits)

lemma add_byte_read:
  assumes "slen \<le> length buf"
  shows "slen < length (add_byte c slen buf)" "add_byte c slen buf ! slen = c"
    "take slen (add_byte c slen buf) = take slen buf" "take (slen + 1) (add_byte c slen buf) = take slen buf @ [c]"
proof -
  show l: "slen < length (add_byte c slen buf)" and n: "add_byte c slen buf ! slen = c"
    and t: "take slen (add_byte c slen buf) = take slen buf"
    using assms by (auto simp: add_byte_def Let_def LINE_GROWTH_def)
  show "take (slen + 1) (add_byte c slen buf) = take slen buf @ [c]"
    using l n t by (simp add: take_Suc_conv_app_nth)
qed

lemma getline_loop_next:
  "slen \<le> length buf \<Longrightarrow> line = take slen buf @ fst (next_line s) \<Longrightarrow>
   \<exists>buf'. getline_loop s slen buf = (if line = [] then None else Some (length line), buf', snd (next_line s)) \<and>
     length line < length buf' \<and> take (length line) buf' = line \<and> buf' ! length line = CHR 0x00"
proof (induction s arbitrary: slen buf)
  case Nil
  then show ?case using add_byte_read [of slen buf "CHR 0x00"] by auto
next
  case (Cons c s)
  note a = add_byte_read [OF Cons.prems(1), of c]
  show ?case
  proof (cases "c = CHR 0x0A")
    case True
    have l: "line = take (slen + 1) (add_byte c slen buf)" "length line = slen + 1"
      using Cons.prems a(4) True by simp_all
    have "slen + 1 \<le> length (add_byte c slen buf)" using a(1) by simp
    from add_byte_read [OF this, of "CHR 0x00"] l True show ?thesis by auto
  next
    case False
    have "line = take (slen + 1) (add_byte c slen buf) @ fst (next_line s)"
      using Cons.prems(2) False unfolding a(4) by simp
    from Cons.IH [OF _ this] a(1) False show ?thesis by auto
  qed
qed

lemma c_text_line:
  assumes "length line < length buf" "take (length line) buf = line" "buf ! length line = CHR 0x00"
  shows "c_text buf = c_text line"
proof -
  have "buf = line @ CHR 0x00 # drop (Suc (length line)) buf"
    using id_take_nth_drop [OF assms(1)] assms(2,3) by simp
  then have "c_text buf = takeWhile (\<lambda>c. c \<noteq> CHR 0x00) (line @ CHR 0x00 # drop (Suc (length line)) buf)"
    unfolding c_text_def by (rule arg_cong)
  also have "\<dots> = c_text line" unfolding c_text_def by (rule takeWhile_tail) simp
  finally show ?thesis .
qed

lemma compat_getline_next:
  assumes "s \<noteq> []"
  obtains buf' where "compat_getline s buf = (Some (length (fst (next_line s))), buf', snd (next_line s))"
    "length (fst (next_line s)) < length buf'" "take (length (fst (next_line s))) buf' = fst (next_line s)"
    "c_text buf' = c_text (fst (next_line s))"
proof -
  have "fst (next_line s) \<noteq> []" using assms by (cases s; cases "hd s = CHR 0x0A") auto
  then show thesis
    using getline_loop_next [of 0 buf "fst (next_line s)" s] c_text_line that
    by (auto simp: compat_getline_def)
qed

lemma next_line_length: "s \<noteq> [] \<Longrightarrow> length (snd (next_line s)) < length s"
proof (induction s)
  case (Cons c s)
  then show ?case by (cases "c = CHR 0x0A"; cases "s = []") auto
qed simp

function file_lines :: "cstring \<Rightarrow> cstring list" where
  "file_lines s = (if s = [] then [] else c_text (fst (next_line s)) # file_lines (snd (next_line s)))"
  by pat_completeness auto
termination by (relation "measure length") (auto intro: next_line_length)

declare file_lines.simps [simp del]

lemma read_lines_fold: "read_lines d pre s buf rd = fold_opt (conf_read_line d pre) (file_lines s) rd"
proof (induction s arbitrary: buf rd rule: file_lines.induct)
  case (1 s)
  show ?case
  proof (cases "s = []")
    case True
    then show ?thesis
      by (simp add: read_lines.simps [of d pre "[]"] file_lines.simps [of "[]"] compat_getline_def)
  next
    case False
    obtain buf' where "compat_getline s buf = (Some (length (fst (next_line s))), buf', snd (next_line s))"
      "c_text buf' = c_text (fst (next_line s))"
      by (rule compat_getline_next [OF False, of buf])
    moreover have "read_lines d pre (snd (next_line s)) b =
        fold_opt (conf_read_line d pre) (file_lines (snd (next_line s)))" for b
      by (rule ext) (rule 1 [OF False])
    ultimately show ?thesis
      using False by (simp add: read_lines.simps [of d pre s] file_lines.simps [of s])
  qed
qed

text \<open>A line without NUL and newline, put before a text.\<close>

lemma next_line_append: "CHR 0x0A \<notin> set l \<Longrightarrow> next_line (l @ CHR 0x0A # s) = (l @ [CHR 0x0A], s)"
  by (simp add: next_line_def strchr_split_hit)

lemma file_lines_append:
  assumes "CHR 0x0A \<notin> set l" "CHR 0x00 \<notin> set l"
  shows "file_lines (l @ CHR 0x0A # s) = (l @ [CHR 0x0A]) # file_lines s"
proof -
  have "c_text (l @ [CHR 0x0A]) = l @ [CHR 0x0A]"
    unfolding c_text_def by (rule takeWhile_eq_all_conv [THEN iffD2]) (use assms in auto)
  then show ?thesis
    by (simp add: file_lines.simps [of "l @ CHR 0x0A # s"] next_line_append [OF assms(1)])
qed

section \<open>Reading a file\<close>

definition reset_def :: "def_index \<Rightarrow> symbol \<Rightarrow> symbol" where
  "reset_def d s =
     (let fs = insert SYMBOL_CHANGED (s_flags s) - {def_flag d, SYMBOL_VALID}
      in put_def d (V_NULL, T_no)
           (s\<lparr>s_flags := (if sym_is_choice s then insert (def_flag d) fs else fs)\<rparr>))"

text \<open>From the label \<open>load\<close> on.\<close>

definition conf_load :: "def_index \<Rightarrow> cstring \<Rightarrow> cstring \<Rightarrow> cstring \<Rightarrow> reader \<Rightarrow> reader option" where
  "conf_load d pre name content rd = do {
     let rd = rd\<lparr>conf_filename := name, conf_lineno := 0, conf_warnings := 0, conf_unsaved := 0\<rparr>;
     rd \<leftarrow> read_lines d pre content [] (upd_rd (for_all_symbols (reset_def d)) rd);
     case modules_sym (rd_tab rd) of
       None \<Rightarrow> Some rd
     | Some m \<Rightarrow> map_option (\<lambda>st. rd\<lparr>rd_tab := st\<rparr>) (sym_calc_value m (rd_tab rd))
   }"

text \<open>The first default of the list of configurations that can be opened.\<close>

fun open_default ::
  "env \<Rightarrow> property list \<Rightarrow> symtab \<Rightarrow> ((cstring \<times> cstring) option \<times> symtab) option" where
  "open_default env [] st = Some (None, st)"
| "open_default env (p # ps) st = do {
     (v, st) \<leftarrow> calc_opt sym_calc_value (p_visible p) st;
     case p_expr p of
       None \<Rightarrow> if v = T_no then open_default env ps st else None
     | Some e \<Rightarrow>
         if v = T_no \<or> etype e \<noteq> E_SYMBOL then open_default env ps st
         else do {
           r \<leftarrow> prop_get_symbol p;
           n \<leftarrow> s_name (syms st r);
           (name, st) \<leftarrow> conf_expand_value n st;
           f \<leftarrow> zconf_fopen env name;
           case f of Some content \<Rightarrow> Some (Some (name, content), st) | None \<Rightarrow> open_default env ps st
         }
   }"

text \<open>Without a configuration the values of the modules symbol are still calculated.\<close>

definition conf_read_default ::
  "env \<Rightarrow> def_index \<Rightarrow> cstring \<Rightarrow> symref option \<Rightarrow> reader \<Rightarrow> (nat \<times> reader) option" where
  "conf_read_default env d pre dl rd =
     (let rd = upd_rd (sym_add_change_count 1) rd in
      case dl of
        None \<Rightarrow>
          (case modules_sym (rd_tab rd) of
             None \<Rightarrow> Some (1, rd)
           | Some m \<Rightarrow> map_option (\<lambda>st. (1, rd\<lparr>rd_tab := st\<rparr>)) (sym_calc_value m (rd_tab rd)))
      | Some l \<Rightarrow> do {
          (found, st) \<leftarrow> open_default env (props_of P_DEFAULT (syms (rd_tab rd) l)) (rd_tab rd);
          let rd = rd\<lparr>rd_tab := st\<rparr>;
          case found of
            None \<Rightarrow> Some (1, rd)
          | Some (name, content) \<Rightarrow>
              map_option (Pair 0) (conf_load d pre name content
                (conf_message (''using defaults found in '' @ name) rd))
        })"

definition conf_read_simple ::
  "env \<Rightarrow> cstring \<Rightarrow> symref option \<Rightarrow> cstring option \<Rightarrow> def_index \<Rightarrow> reader \<Rightarrow> (nat \<times> reader) option" where
  "conf_read_simple env pre dl name d rd =
     (case name of
        Some n \<Rightarrow> do {
          f \<leftarrow> zconf_fopen env n;
          case f of None \<Rightarrow> Some (1, rd)
          | Some content \<Rightarrow> map_option (Pair 0) (conf_load d pre n content rd)
        }
      | None \<Rightarrow> do {
          let n = conf_get_configname env;
          f \<leftarrow> zconf_fopen env n;
          case f of None \<Rightarrow> conf_read_default env d pre dl rd
          | Some content \<Rightarrow> map_option (Pair 0) (conf_load d pre n content rd)
        })"

section \<open>conf\_read\<close>

text \<open>The string of the user; \<open>strcmp\<close> would follow NULL.\<close>

definition user_text :: "symbol \<Rightarrow> cstring option" where
  "user_text s = (case fst (s_user s) of V_str v \<Rightarrow> Some v | _ \<Rightarrow> None)"

definition count_unsaved :: "reader \<Rightarrow> reader" where
  "count_unsaved rd = rd\<lparr>conf_unsaved := conf_unsaved rd + 1\<rparr>"

text \<open>Whether the value read is the value calculated.\<close>

definition check_saved :: "symref \<Rightarrow> reader \<Rightarrow> reader option" where
  "check_saved r rd = do {
     st \<leftarrow> sym_calc_value r (rd_tab rd);
     let rd = rd\<lparr>rd_tab := st\<rparr>;
     let s = syms st r;
     if sym_is_choice s \<or> SYMBOL_AUTO \<in> s_flags s then Some rd
     else if sym_has_value s \<and> SYMBOL_WRITE \<in> s_flags s
     then (if is_tri (s_type s)
           then Some (if snd (s_user s) = sym_get_tristate_value s then rd else count_unsaved rd)
           else do {
             v \<leftarrow> user_text s;
             Some (if sval_string (fst (s_curr s)) = v then rd else count_unsaved rd)
           })
     else Some (if \<not> sym_has_value s \<and> SYMBOL_WRITE \<notin> s_flags s then rd else count_unsaved rd)
   }"

definition reset_value :: "symref \<Rightarrow> reader \<Rightarrow> reader option" where
  "reset_value r rd =
     (if sym_has_value (rd_sym rd r) \<and> \<not> sym_is_choice_value (rd_sym rd r)
      then do {
        let rd = (if s_visible (rd_sym rd r) = T_no \<and> conf_unsaved rd = 0
                  then upd_rd (clear_flags r {SYMBOL_DEF_USER}) rd else rd);
        if s_type (rd_sym rd r) \<in> {S_STRING, S_INT, S_HEX}
        then do {
          v \<leftarrow> user_text (rd_sym rd r);
          (ok, st) \<leftarrow> sym_string_within_range r v (rd_tab rd);
          let rd = rd\<lparr>rd_tab := st\<rparr>;
          Some (if ok then rd
                else count_unsaved (upd_rd (clear_flags r {SYMBOL_VALID, SYMBOL_DEF_USER}) rd))
        }
        else Some rd
      }
      else Some rd)"

definition conf_read ::
  "env \<Rightarrow> cstring \<Rightarrow> symref option \<Rightarrow> cstring option \<Rightarrow> reader \<Rightarrow> (nat \<times> reader) option" where
  "conf_read env pre dl name rd = do {
     (ret, rd) \<leftarrow> conf_read_simple env pre dl name S_DEF_USER (upd_rd (sym_set_change_count 0) rd);
     if ret \<noteq> 0 then Some (1, rd)
     else do {
       rd \<leftarrow> fold_opt check_saved (all_symbols (rd_tab rd)) rd;
       rd \<leftarrow> fold_opt reset_value (all_symbols (rd_tab rd)) rd;
       Some (0, upd_rd (sym_add_change_count
         (if conf_warnings rd \<noteq> 0 \<or> conf_unsaved rd \<noteq> 0 then 1 else 0)) rd)
     }
   }"

section \<open>Reading ends\<close>

text \<open>
  What the parser makes: the members of choices are boolean or tristate symbols, no choice has a
  text for a value, every symbol of a bucket is one of the table, and none has the type of the
  symbols that are only made up for \<open>auto.conf\<close>.
\<close>

definition config_ok :: "symtab \<Rightarrow> bool" where
  "config_ok st \<longleftrightarrow> wf_symtab st \<and> members_linked st \<and> (\<forall>r. hashed st r \<longrightarrow> r \<in> refs st) \<and>
     (\<forall>r \<in> refs st. s_type (syms st r) \<noteq> S_OTHER \<and>
        (sym_is_choice (syms st r) \<longrightarrow> \<not> is_text_type (s_type (syms st r))) \<and>
        (sym_is_choice_value (syms st r) \<longrightarrow> is_tri (s_type (syms st r))))"

text \<open>The user's value is there when its flag says so.\<close>

definition kept :: "symbol \<Rightarrow> bool" where
  "kept s \<longleftrightarrow> (\<not> sym_is_choice s \<and> sym_has_value s \<and> \<not> is_tri (s_type s) \<longrightarrow> user_text s \<noteq> None)"

definition reads :: "symtab \<Rightarrow> symtab \<Rightarrow> bool" where
  "reads st st' \<longleftrightarrow> frames st st' \<and>
     (config_ok st \<longrightarrow> (\<forall>r. hashed st r \<longrightarrow> kept (syms st r) \<longrightarrow> kept (syms st' r)))"

lemma frames_config:
  assumes "frames st st'" "config_ok st"
  shows "config_ok st'"
  using assms(2) frames_wf [OF assms(1)] frames_linked [OF assms(1)] frames_hashed [OF assms(1)]
    framesD(2) [OF assms(1)] same_frameD(1,5,6) [OF framesD(3) [OF assms(1)]]
  by (simp add: config_ok_def)

lemma reads_refl [simp]: "reads st st"
  by (simp add: reads_def)

lemma reads_trans: "reads a b \<Longrightarrow> reads b c \<Longrightarrow> reads a c"
  unfolding reads_def using frames_trans frames_config frames_hashed by metis

lemma reads_frames: "reads st st' \<Longrightarrow> frames st st'"
  by (simp add: reads_def)

lemma reads_config: "reads st st' \<Longrightarrow> config_ok st \<Longrightarrow> config_ok st'"
  using frames_config reads_frames by blast

lemma reads_upd:
  assumes "frames st (upd_sym r f st)" "kept (syms st r) \<Longrightarrow> kept (f (syms st r))"
  shows "reads st (upd_sym r f st)"
  using assms by (simp add: reads_def)

lemma evolves_reads:
  assumes "evolves {} st st'"
  shows "reads st st'"
proof -
  have "kept (syms st' r)" if "config_ok st" "hashed st r" "kept (syms st r)" for r
  proof (cases "ordinary (syms st r)")
    case True
    then show ?thesis
      using that(3) ordinary_user [OF assms True] same_shapeD(2,7) [OF evolves_shape [OF assms]]
      by (simp add: kept_def user_text_def)
  next
    case False
    then show ?thesis
      using that(1,2) same_shapeD(2,7,8) [OF evolves_shape [OF assms], of r]
      by (auto simp: kept_def config_ok_def ordinary_def)
  qed
  with evolves_frames [OF assms] show ?thesis by (simp add: reads_def)
qed

lemma calc_reads:
  assumes "config_ok st" "r \<in> refs st"
  shows "\<exists>st'. sym_calc_value r st = Some st' \<and> evolves {} st st'"
  using assms calc_value_moves [of st r] by (auto simp: config_ok_def elim: movesE)

lemma same_syms_reads:
  "syms st' = syms st \<Longrightarrow> next_id st' = next_id st \<Longrightarrow> buckets st' = buckets st \<Longrightarrow>
   modules_sym st' = modules_sym st \<Longrightarrow> reads st st'"
  by (simp add: reads_def frames_def same_frame_def)

lemma warning_reads: "reads (rd_tab rd) (rd_tab (conf_warning msg rd))"
  by (rule same_syms_reads) (simp_all add: conf_warning_def)

lemma clear_user_reads: "fs \<subseteq> {SYMBOL_DEF_USER, SYMBOL_VALID} \<Longrightarrow> reads st (clear_flags r fs st)"
  unfolding clear_flags_def
  by (rule reads_upd [OF frames_upd]) (auto simp: same_frame_defs kept_def sym_has_value_def user_text_def)

lemma set_tri_reads:
  assumes "is_tri (s_type (syms st r))"
  shows "reads st (set_flags r {SYMBOL_DEF_USER} (set_def_tri S_DEF_USER r v st))"
proof (rule reads_trans)
  show "reads st (set_def_tri S_DEF_USER r v st)" unfolding set_def_tri_def
    by (rule reads_upd [OF frames_upd]) (auto simp: same_frame_defs kept_def sym_has_value_def user_text_def)
  show "reads (set_def_tri S_DEF_USER r v st)
     (set_flags r {SYMBOL_DEF_USER} (set_def_tri S_DEF_USER r v st))"
    unfolding set_flags_def
    by (rule reads_upd [OF frames_upd]) (use assms in \<open>auto simp: same_frame_defs kept_def set_def_tri_def\<close>)
qed

lemma set_text_reads:
  assumes "\<not> sym_is_choice (syms st r)"
  shows "reads st (set_flags r {SYMBOL_DEF_USER} (set_def_val S_DEF_USER r (V_str p) st))"
proof (rule reads_trans)
  show "reads st (set_def_val S_DEF_USER r (V_str p) st)" unfolding set_def_val_def
    by (rule reads_upd [OF frames_upd])
      (use assms in \<open>auto simp: same_frame_defs kept_def sym_has_value_def user_text_def\<close>)
  show "reads (set_def_val S_DEF_USER r (V_str p) st)
     (set_flags r {SYMBOL_DEF_USER} (set_def_val S_DEF_USER r (V_str p) st))"
    unfolding set_flags_def
    by (rule reads_upd [OF frames_upd]) (auto simp: same_frame_defs kept_def set_def_val_def user_text_def)
qed

lemma set_choice_val_reads:
  "sym_is_choice (syms st c) \<Longrightarrow> reads st (set_def_val S_DEF_USER c (V_sym r) st)"
  unfolding set_def_val_def
  by (rule reads_upd [OF frames_upd]) (auto simp: same_frame_defs kept_def)

lemma set_choice_tri_reads: "reads st (set_def_tri S_DEF_USER c v st)"
  unfolding set_def_tri_def
  by (rule reads_upd [OF frames_upd]) (auto simp: same_frame_defs kept_def sym_has_value_def user_text_def)

lemma static_in_refs: "static_name n = Some r \<Longrightarrow> r \<in> refs st"
  by (cases n rule: static_name.cases) (auto simp: refs_def split: if_splits)

lemma find_in_refs:
  assumes "config_ok st" "sym_find name st = Some r"
  shows "r \<in> refs st"
proof -
  obtain n where n: "name = Some n" using assms(2) by (cases name) (auto simp: sym_find_def)
  show ?thesis
  proof (cases "static_name n")
    case None
    with assms(2) n have "r \<in> set (buckets st (bucket_of name))"
      by (auto simp: sym_find_def find_Some_iff)
    then have "hashed st r" using bucket_of_less unfolding hashed_def by blast
    with assms(1) show ?thesis by (simp add: config_ok_def)
  next
    case (Some q)
    with assms(2) n static_in_refs show ?thesis by (simp add: sym_find_def)
  qed
qed

lemma rd_tab_upd [simp]: "rd_tab (upd_rd f rd) = f (rd_tab rd)"
  by (simp add: upd_rd_def)

lemma invalid_reads: "reads (rd_tab rd) (rd_tab (invalid_value d r p rd))"
  by (simp add: invalid_value_def warning_reads)

lemma override_reads: "reads (rd_tab rd) (rd_tab (warn_override d r rd))"
  by (simp add: warn_override_def warning_reads)

lemma set_bool_val_reads:
  assumes "is_tri (s_type (rd_sym rd r))"
  shows "reads (rd_tab rd) (rd_tab (snd (set_bool_val S_DEF_USER r p rd)))"
  using assms set_tri_reads invalid_reads
  by (simp add: set_bool_val_def set_tri_val_def rd_sym_def)

lemma set_text_val_reads:
  assumes "\<not> sym_is_choice (rd_sym rd r)"
  shows "reads (rd_tab rd) (rd_tab (snd (set_text_val S_DEF_USER r p rd)))"
  using assms set_text_reads invalid_reads by (simp add: set_text_val_def rd_sym_def)

lemma set_quoted_val_reads:
  assumes "\<not> sym_is_choice (rd_sym rd r)"
  shows "reads (rd_tab rd) (rd_tab (snd (set_quoted_val S_DEF_USER r p rd)))"
  using set_text_val_reads [OF assms] warning_reads by (simp add: set_quoted_val_def split: option.splits)

lemma conf_set_sym_val_reads:
  assumes "config_ok (rd_tab rd)" "r \<in> refs (rd_tab rd)"
  shows "reads (rd_tab rd) (rd_tab (snd (conf_set_sym_val S_DEF_USER r p rd)))"
proof -
  have ok: "s_type (rd_sym rd r) \<noteq> S_OTHER"
    "is_text_type (s_type (rd_sym rd r)) \<Longrightarrow> \<not> sym_is_choice (rd_sym rd r)"
    using assms by (auto simp: config_ok_def rd_sym_def)
  show ?thesis
  proof (cases "s_type (rd_sym rd r)")
    case S_BOOLEAN
    with set_bool_val_reads show ?thesis by (simp add: conf_set_sym_val_def is_tri_def)
  next
    case S_TRISTATE
    then have t: "is_tri (s_type (rd_sym rd r))" by (simp add: is_tri_def)
    with set_tri_reads [of "rd_tab rd" r] have "reads (rd_tab rd) (rd_tab (set_tri_val S_DEF_USER r T_mod rd))"
      by (simp add: set_tri_val_def rd_sym_def)
    with set_bool_val_reads [OF t] S_TRISTATE show ?thesis by (simp add: conf_set_sym_val_def)
  qed (use ok set_text_val_reads set_quoted_val_reads in \<open>simp_all add: conf_set_sym_val_def is_text_type_def\<close>)
qed

lemma choice_state_total:
  assumes "config_ok (rd_tab rd)" "r \<in> refs (rd_tab rd)"
  shows "\<exists>rd'. set_choice_state S_DEF_USER r rd = Some rd' \<and> reads (rd_tab rd) (rd_tab rd')"
proof (cases "sym_is_choice_value (rd_sym rd r)")
  case True
  let ?s = "rd_sym rd r"
  have ok: "sym_ok (rd_tab rd) ?s" using assms by (simp add: config_ok_def wf_symtab_def rd_sym_def)
  obtain p c where p: "sym_get_choice_prop ?s = Some p" "prop_get_symbol p = Some c"
    using sym_okD(6) [OF ok True] by (auto simp: member_ok_def)
  have c: "sym_is_choice (syms (rd_tab rd) c)"
    using assms p True by (auto simp: config_ok_def members_linked_def rd_sym_def)
  define rd1 where "rd1 = (case snd (get_def S_DEF_USER ?s) of
      T_no \<Rightarrow> rd
    | T_mod \<Rightarrow>
        if snd (get_def S_DEF_USER (rd_sym rd c)) = T_yes
        then upd_rd (clear_flags c {def_flag S_DEF_USER})
          (conf_warning (text_or_empty (s_name ?s) @ '' creates inconsistent choice state'') rd)
        else rd
    | T_yes \<Rightarrow>
        upd_rd (set_def_val S_DEF_USER c (V_sym r))
          (if snd (get_def S_DEF_USER (rd_sym rd c)) \<noteq> T_no
           then conf_warning (''override: '' @ text_or_empty (s_name ?s) @ '' changes choice state'') rd else rd))"
  have w: "reads (rd_tab rd) (clear_flags c {SYMBOL_DEF_USER} (rd_tab (conf_warning msg rd)))"
    "reads (rd_tab rd) (set_def_val S_DEF_USER c (V_sym r) (rd_tab (conf_warning msg rd)))" for msg
    using reads_trans [OF warning_reads clear_user_reads]
      reads_trans [OF warning_reads set_choice_val_reads] c
    by (simp_all add: conf_warning_def)
  have "reads (rd_tab rd) (rd_tab rd1)"
    unfolding rd1_def using w set_choice_val_reads [OF c] by (simp split: tristate.splits)
  then have "reads (rd_tab rd) (set_def_tri S_DEF_USER c v (rd_tab rd1))" for v
    using reads_trans set_choice_tri_reads by blast
  moreover have "set_choice_state S_DEF_USER r rd = Some (upd_rd (set_def_tri S_DEF_USER c
      (EXPR_OR (snd (get_def S_DEF_USER (rd_sym rd1 c))) (snd (get_def S_DEF_USER ?s)))) rd1)"
    unfolding set_choice_state_def Let_def rd1_def using True p by simp
  ultimately show ?thesis by simp
qed (simp add: set_choice_state_def)

lemma read_unset_total:
  assumes "config_ok (rd_tab rd)"
  shows "\<exists>rd'. read_unset S_DEF_USER name rd = Some rd' \<and> reads (rd_tab rd) (rd_tab rd')"
proof (cases "sym_find (Some name) (rd_tab rd)")
  case None
  have "reads (rd_tab rd) (sym_add_change_count 1 (rd_tab rd))"
    by (rule same_syms_reads) (simp_all add: sym_add_change_count_def sym_set_change_count_def)
  with None show ?thesis by (simp add: read_unset_def line_symbol_def)
next
  case (Some r)
  define rd1 where "rd1 = warn_override S_DEF_USER r rd"
  define rd2 where "rd2 = (if is_tri (s_type (rd_sym rd1 r)) then set_tri_val S_DEF_USER r T_no rd1 else rd1)"
  have 1: "reads (rd_tab rd) (rd_tab rd1)" unfolding rd1_def by (rule override_reads)
  have "reads (rd_tab rd1) (rd_tab rd2)"
    unfolding rd2_def using set_tri_reads by (simp add: set_tri_val_def rd_sym_def)
  with 1 have 2: "reads (rd_tab rd) (rd_tab rd2)" by (rule reads_trans)
  have "r \<in> refs (rd_tab rd2)"
    using find_in_refs [OF assms Some] framesD(2) [OF reads_frames [OF 2]] by simp
  then obtain rd' where "set_choice_state S_DEF_USER r rd2 = Some rd'" "reads (rd_tab rd2) (rd_tab rd')"
    using choice_state_total [OF reads_config [OF 2 assms]] by blast
  with Some reads_trans [OF 2] show ?thesis
    by (simp add: read_unset_def line_symbol_def rd1_def [symmetric] rd2_def [symmetric])
qed

lemma read_assigned_total:
  assumes "config_ok (rd_tab rd)"
  shows "\<exists>rd'. read_assigned S_DEF_USER name p rd = Some rd' \<and> reads (rd_tab rd) (rd_tab rd')"
proof (cases "sym_find (Some name) (rd_tab rd)")
  case None
  have "reads (rd_tab rd) (sym_add_change_count 1 (rd_tab rd))"
    by (rule same_syms_reads) (simp_all add: sym_add_change_count_def sym_set_change_count_def)
  with None show ?thesis by (simp add: read_assigned_def line_symbol_def)
next
  case (Some r)
  define rd1 where "rd1 = warn_override S_DEF_USER r rd"
  obtain b rd2 where b: "conf_set_sym_val S_DEF_USER r p rd1 = (b, rd2)" by fastforce
  have 1: "reads (rd_tab rd) (rd_tab rd1)" unfolding rd1_def by (rule override_reads)
  have "r \<in> refs (rd_tab rd1)"
    using find_in_refs [OF assms Some] framesD(2) [OF reads_frames [OF 1]] by simp
  with conf_set_sym_val_reads [OF reads_config [OF 1 assms], of r p] b
  have "reads (rd_tab rd1) (rd_tab rd2)" by simp
  with 1 have 2: "reads (rd_tab rd) (rd_tab rd2)" by (rule reads_trans)
  have "r \<in> refs (rd_tab rd2)"
    using find_in_refs [OF assms Some] framesD(2) [OF reads_frames [OF 2]] by simp
  then obtain rd' where "set_choice_state S_DEF_USER r rd2 = Some rd'" "reads (rd_tab rd2) (rd_tab rd')"
    using choice_state_total [OF reads_config [OF 2 assms]] by blast
  with Some b reads_trans [OF 2] 2 show ?thesis
    by (simp add: read_assigned_def line_symbol_def rd1_def [symmetric])
qed

lemma read_line_total:
  assumes "config_ok (rd_tab rd)"
  shows "\<exists>rd'. conf_read_line S_DEF_USER pre line rd = Some rd' \<and> reads (rd_tab rd) (rd_tab rd')"
proof -
  define rd1 where "rd1 = rd\<lparr>conf_lineno := conf_lineno rd + 1\<rparr>"
  have t: "rd_tab rd1 = rd_tab rd" by (simp add: rd1_def)
  have ok: "config_ok (rd_tab rd1)" using assms t by simp
  show ?thesis
    unfolding conf_read_line_def Let_def rd1_def [symmetric] t [symmetric]
    using read_unset_total [OF ok] read_assigned_total [OF ok] warning_reads [of rd1]
    by (simp split: option.splits)
qed

lemma in_bounds_runs:
  assumes c: "calc_ok m calc" and r: "ready m st" "lo \<in> refs st" "hi \<in> refs st"
  shows "runs {} st (do {
    (v, st) \<leftarrow> sym_get_range_val calc lo base st;
    if val \<ge> v
    then do {
      (v, st) \<leftarrow> sym_get_range_val calc hi base st;
      Some (val \<le> v, st)
    }
    else Some (False, st) })"
proof (rule runs_bind_runs [OF range_val_runs [OF c r(1,2)]])
  fix v st1 assume e: "evolves {} st st1"
  have "runs {} st1 (sym_get_range_val calc hi base st1)"
    by (rule range_val_runs [OF c evolves_ready [OF e r(1)]]) (simp add: r(3) evolvesD(5) [OF e])
  then show "runs {} st1 (case (v, st1) of (v, st) \<Rightarrow>
      if val \<ge> v then do { (v, st) \<leftarrow> sym_get_range_val calc hi base st; Some (val \<le> v, st) }
      else Some (False, st))"
    by (auto intro: runs_bind_runs)
qed

lemma string_within_runs:
  assumes wf: "wf_symtab st" and r: "r \<in> refs st"
  shows "runs {} st (sym_string_within_range r str st)"
proof (cases "value_base (s_type (syms st r))")
  case None
  then show ?thesis by (auto simp: sym_string_within_range_def Let_def split: option.splits)
next
  case (Some base)
  have rd: "ready (todo st) st" using wf by (simp add: ready_def)
  note ok = readyD(1) [OF rd r]
  have g: "runs {} st (sym_get_range_prop sym_calc_value r st)"
    unfolding sym_get_range_prop_def by (rule first_visible_runs [OF calc_value_ok rd sym_okD(2) [OF ok]])
  then obtain v st1 where v: "sym_get_range_prop sym_calc_value r st = Some (v, st1)" "evolves {} st st1"
    by (rule runsE)
  show ?thesis
  proof (cases v)
    case None
    with Some v show ?thesis by (simp add: sym_string_within_range_def Let_def)
  next
    case v': (Some pt)
    obtain p t where pt: "pt = (p, t)" by fastforce
    have "p \<in> set (props_of P_RANGE (syms st r))"
      using first_visible_mem v v' pt unfolding sym_get_range_prop_def by blast
    then have p: "prop_ok st p" "p_type p = P_RANGE"
      using sym_okD(1) [OF ok] props_of_type by blast+
    obtain lo hi where b: "range_syms p = Some (lo, hi)" "lo \<in> refs st" "hi \<in> refs st"
      by (rule range_syms_ok [OF p])
    have "runs {} st1 (do {
        (v, st) \<leftarrow> sym_get_range_val sym_calc_value lo base st1;
        if strtoll str base \<ge> v
        then do {
          (v, st) \<leftarrow> sym_get_range_val sym_calc_value hi base st;
          Some (strtoll str base \<le> v, st)
        }
        else Some (False, st) })"
      by (rule in_bounds_runs [OF calc_value_ok evolves_ready [OF v(2) rd]])
        (simp_all add: b evolvesD(5) [OF v(2)])
    from runs_step [OF v(2) this] Some v(1) v' pt b(1) show ?thesis
      by (simp add: sym_string_within_range_def Let_def)
  qed
qed

text \<open>Reading the lines, from the cleared values on.\<close>

lemma reset_frames:
  assumes "config_ok st"
  shows "frames st (for_all_symbols (reset_def S_DEF_USER) st)"
    and "hashed st r \<Longrightarrow> kept (syms (for_all_symbols (reset_def S_DEF_USER) st) r)"
proof -
  show "frames st (for_all_symbols (reset_def S_DEF_USER) st)"
    by (auto simp: frames_def for_all_symbols_def same_frame_defs reset_def_def Let_def)
  show "kept (syms (for_all_symbols (reset_def S_DEF_USER) st) r)" if "hashed st r"
    using that assms
    by (auto simp: for_all_symbols_def config_ok_def kept_def reset_def_def Let_def sym_has_value_def
        sym_is_choice_def)
qed

definition read_ok :: "symtab \<Rightarrow> bool" where
  "read_ok st \<longleftrightarrow> config_ok st \<and> (\<forall>r. hashed st r \<longrightarrow> kept (syms st r))"

lemma reads_ok:
  assumes "reads st st'" "read_ok st"
  shows "read_ok st'"
  unfolding read_ok_def
proof (intro conjI allI impI)
  have c: "config_ok st" using assms(2) by (simp add: read_ok_def)
  show "config_ok st'" by (rule reads_config [OF assms(1) c])
  fix r assume "hashed st' r"
  then have "hashed st r" by (simp add: frames_hashed [OF reads_frames [OF assms(1)]])
  with assms c show "kept (syms st' r)" by (simp add: reads_def read_ok_def)
qed

lemma reset_ok: "config_ok st \<Longrightarrow> read_ok (for_all_symbols (reset_def S_DEF_USER) st)"
  using frames_config [OF reset_frames(1)] frames_hashed [OF reset_frames(1)] reset_frames(2)
  by (simp add: read_ok_def)

lemma read_lines_total:
  assumes "read_ok (rd_tab rd)"
  shows "\<exists>rd'. read_lines S_DEF_USER pre s buf rd = Some rd' \<and> reads (rd_tab rd) (rd_tab rd')"
proof -
  have "\<exists>rd'. fold_opt (conf_read_line S_DEF_USER pre) (file_lines s) rd = Some rd' \<and>
      read_ok (rd_tab rd') \<and> reads (rd_tab rd) (rd_tab rd')"
  proof (rule fold_opt_inv)
    fix l and rd1 :: reader
    assume rd1: "read_ok (rd_tab rd1) \<and> reads (rd_tab rd) (rd_tab rd1)"
    then obtain rd2 where "conf_read_line S_DEF_USER pre l rd1 = Some rd2" "reads (rd_tab rd1) (rd_tab rd2)"
      using read_line_total unfolding read_ok_def by blast
    with rd1 show "\<exists>rd2. conf_read_line S_DEF_USER pre l rd1 = Some rd2 \<and>
        read_ok (rd_tab rd2) \<and> reads (rd_tab rd) (rd_tab rd2)"
      using reads_ok reads_trans by blast
  qed (simp add: assms)
  then show ?thesis by (auto simp: read_lines_fold)
qed

lemma modules_in: "read_ok st \<Longrightarrow> \<exists>m \<in> refs st. modules_sym st = Some m"
  by (simp add: read_ok_def config_ok_def wf_symtab_def)

lemma conf_load_total:
  assumes "config_ok (rd_tab rd)"
  shows "\<exists>rd'. conf_load S_DEF_USER pre name content rd = Some rd' \<and> read_ok (rd_tab rd') \<and>
    frames (rd_tab rd) (rd_tab rd')"
proof -
  define rd0 where "rd0 = rd\<lparr>conf_filename := name, conf_lineno := 0, conf_warnings := 0, conf_unsaved := 0\<rparr>"
  define rd1 where "rd1 = upd_rd (for_all_symbols (reset_def S_DEF_USER)) rd0"
  have t: "rd_tab rd1 = for_all_symbols (reset_def S_DEF_USER) (rd_tab rd)" by (simp add: rd1_def rd0_def)
  have 1: "read_ok (rd_tab rd1)" "frames (rd_tab rd) (rd_tab rd1)"
    using reset_ok [OF assms] reset_frames(1) [OF assms] by (simp_all add: t)
  obtain rd2 where 2: "read_lines S_DEF_USER pre content [] rd1 = Some rd2" "reads (rd_tab rd1) (rd_tab rd2)"
    using read_lines_total [OF 1(1)] by blast
  have ok2: "read_ok (rd_tab rd2)" by (rule reads_ok [OF 2(2) 1(1)])
  obtain m where m: "m \<in> refs (rd_tab rd2)" "modules_sym (rd_tab rd2) = Some m"
    using modules_in [OF ok2] by blast
  obtain st where st: "sym_calc_value m (rd_tab rd2) = Some st" "evolves {} (rd_tab rd2) st"
    using calc_reads [OF _ m(1)] ok2 unfolding read_ok_def by blast
  have "conf_load S_DEF_USER pre name content rd = Some (rd2\<lparr>rd_tab := st\<rparr>)"
    unfolding conf_load_def Let_def rd0_def [symmetric] rd1_def [symmetric] 2(1) by (simp add: m(2) st(1))
  moreover have "read_ok st" by (rule reads_ok [OF evolves_reads [OF st(2)] ok2])
  moreover have "frames (rd_tab rd) st"
    using frames_trans [OF 1(2) frames_trans [OF reads_frames [OF 2(2)] evolves_frames [OF st(2)]]] .
  ultimately show ?thesis by auto
qed

section \<open>conf_read ends\<close>

lemma check_saved_total:
  assumes "read_ok (rd_tab rd)" "hashed (rd_tab rd) r"
  shows "\<exists>rd'. check_saved r rd = Some rd' \<and> reads (rd_tab rd) (rd_tab rd')"
proof -
  have "r \<in> refs (rd_tab rd)" using assms by (simp add: read_ok_def config_ok_def)
  then obtain st where st: "sym_calc_value r (rd_tab rd) = Some st" "evolves {} (rd_tab rd) st"
    using calc_reads assms(1) unfolding read_ok_def by blast
  have e: "reads (rd_tab rd) st" by (rule evolves_reads [OF st(2)])
  have "kept (syms st r)"
    using reads_ok [OF e assms(1)] assms(2) frames_hashed [OF reads_frames [OF e]] by (simp add: read_ok_def)
  then show ?thesis
    using st(1) e by (auto simp: check_saved_def kept_def count_unsaved_def Let_def)
qed

lemma reset_value_total:
  assumes "read_ok (rd_tab rd)" "hashed (rd_tab rd) r"
  shows "\<exists>rd'. reset_value r rd = Some rd' \<and> reads (rd_tab rd) (rd_tab rd')"
proof (cases "sym_has_value (rd_sym rd r) \<and> \<not> sym_is_choice_value (rd_sym rd r)")
  case True
  define rd1 where "rd1 = (if s_visible (rd_sym rd r) = T_no \<and> conf_unsaved rd = 0
    then upd_rd (clear_flags r {SYMBOL_DEF_USER}) rd else rd)"
  have 1: "reads (rd_tab rd) (rd_tab rd1)" unfolding rd1_def using clear_user_reads by simp
  show ?thesis
  proof (cases "is_text_type (s_type (rd_sym rd1 r))")
    case t: True
    have s: "s_type (rd_sym rd1 r) = s_type (rd_sym rd r)" "user_text (rd_sym rd1 r) = user_text (rd_sym rd r)"
      by (simp_all add: rd1_def rd_sym_def user_text_def clear_flags_def)
    have r: "r \<in> refs (rd_tab rd)" using assms by (simp add: read_ok_def config_ok_def)
    have "\<not> sym_is_choice (rd_sym rd r)"
      using assms r t s by (auto simp: read_ok_def config_ok_def rd_sym_def)
    moreover have "kept (rd_sym rd r)" using assms by (simp add: read_ok_def rd_sym_def)
    ultimately obtain v where v: "user_text (rd_sym rd1 r) = Some v"
      using True t s by (auto simp: kept_def is_text_type_def is_tri_def)
    have "runs {} (rd_tab rd1) (sym_string_within_range r v (rd_tab rd1))"
      using string_within_runs reads_ok [OF 1 assms(1)] r framesD(2) [OF reads_frames [OF 1]]
      by (simp add: read_ok_def config_ok_def)
    then obtain b st where b: "sym_string_within_range r v (rd_tab rd1) = Some (b, st)" "evolves {} (rd_tab rd1) st"
      by (rule runsE)
    have 2: "reads (rd_tab rd) st" by (rule reads_trans [OF 1 evolves_reads [OF b(2)]])
    have 3: "reads (rd_tab rd) (clear_flags r {SYMBOL_VALID, SYMBOL_DEF_USER} st)"
      by (rule reads_trans [OF 2 clear_user_reads]) simp
    have "reset_value r rd = Some (if b then rd1\<lparr>rd_tab := st\<rparr>
        else count_unsaved (upd_rd (clear_flags r {SYMBOL_VALID, SYMBOL_DEF_USER}) (rd1\<lparr>rd_tab := st\<rparr>)))"
      unfolding reset_value_def Let_def rd1_def [symmetric]
      using True t v b(1) by (auto simp: is_text_type_def)
    with 2 3 show ?thesis by (simp add: count_unsaved_def)
  next
    case False
    then have "reset_value r rd = Some rd1"
      unfolding reset_value_def Let_def rd1_def [symmetric] using True by (simp add: is_text_type_def)
    with 1 show ?thesis by simp
  qed
next
  case False
  then have "reset_value r rd = Some rd" unfolding reset_value_def by (rule if_not_P)
  then show ?thesis by simp
qed

lemma all_symbols_hashed: "r \<in> set (all_symbols st) \<Longrightarrow> hashed st r"
  by (auto simp: all_symbols_def hashed_def)

lemma symbols_loop:
  fixes rd :: reader
  assumes "read_ok (rd_tab rd)"
    and "\<And>r rd. read_ok (rd_tab rd) \<Longrightarrow> hashed (rd_tab rd) r \<Longrightarrow>
      \<exists>rd'. f r rd = Some rd' \<and> reads (rd_tab rd) (rd_tab rd')"
  shows "\<exists>rd'. fold_opt f (all_symbols (rd_tab rd)) rd = Some rd' \<and> reads (rd_tab rd) (rd_tab rd')"
proof -
  have "\<exists>rd'. fold_opt f (all_symbols (rd_tab rd)) rd = Some rd' \<and>
      read_ok (rd_tab rd') \<and> reads (rd_tab rd) (rd_tab rd')"
  proof (rule fold_opt_inv)
    fix r and rd1 :: reader
    assume r: "r \<in> set (all_symbols (rd_tab rd))"
      and rd1: "read_ok (rd_tab rd1) \<and> reads (rd_tab rd) (rd_tab rd1)"
    have "hashed (rd_tab rd1) r"
      using all_symbols_hashed [OF r] rd1 frames_hashed reads_frames by blast
    then obtain rd2 where "f r rd1 = Some rd2" "reads (rd_tab rd1) (rd_tab rd2)"
      using assms(2) rd1 by blast
    with rd1 show "\<exists>rd2. f r rd1 = Some rd2 \<and> read_ok (rd_tab rd2) \<and> reads (rd_tab rd) (rd_tab rd2)"
      using reads_ok reads_trans by blast
  qed (simp add: assms(1))
  then show ?thesis by auto
qed

lemma conf_read_goes:
  assumes "config_ok (rd_tab rd)" "zconf_fopen env name = Some f"
  shows "\<exists>ret rd'. conf_read env pre dl (Some name) rd = Some (ret, rd') \<and> (ret = 0 \<longleftrightarrow> f \<noteq> None) \<and>
    frames (rd_tab rd) (rd_tab rd') \<and> (f = None \<longrightarrow> rd' = upd_rd (sym_set_change_count 0) rd) \<and>
    (f \<noteq> None \<longrightarrow> read_ok (rd_tab rd'))"
proof -
  define rd0 where "rd0 = upd_rd (sym_set_change_count 0) rd"
  have "reads (rd_tab rd) (rd_tab rd0)"
    by (rule same_syms_reads) (simp_all add: rd0_def sym_set_change_count_def)
  then have 0: "config_ok (rd_tab rd0)" "frames (rd_tab rd) (rd_tab rd0)"
    using reads_config assms(1) reads_frames by blast+
  show ?thesis
  proof (cases f)
    case None
    with 0 assms(2) show ?thesis
      by (simp add: conf_read_def conf_read_simple_def rd0_def)
  next
    case (Some content)
    obtain rd1 where 1: "conf_load S_DEF_USER pre name content rd0 = Some rd1" "read_ok (rd_tab rd1)"
      "frames (rd_tab rd0) (rd_tab rd1)"
      using conf_load_total [OF 0(1)] by blast
    obtain rd2 where 2: "fold_opt check_saved (all_symbols (rd_tab rd1)) rd1 = Some rd2"
      "reads (rd_tab rd1) (rd_tab rd2)"
      using symbols_loop [OF 1(2), of check_saved] check_saved_total by blast
    have ok2: "read_ok (rd_tab rd2)" by (rule reads_ok [OF 2(2) 1(2)])
    obtain rd3 where 3: "fold_opt reset_value (all_symbols (rd_tab rd2)) rd2 = Some rd3"
      "reads (rd_tab rd2) (rd_tab rd3)"
      using symbols_loop [OF ok2, of reset_value] reset_value_total by blast
    define st where "st = sym_add_change_count
      (if conf_warnings rd3 \<noteq> 0 \<or> conf_unsaved rd3 \<noteq> 0 then 1 else 0) (rd_tab rd3)"
    have 4: "reads (rd_tab rd3) st"
      by (rule same_syms_reads) (simp_all add: st_def sym_add_change_count_def sym_set_change_count_def)
    have ok: "read_ok st" by (rule reads_ok [OF reads_trans [OF 3(2) 4] ok2])
    have "frames (rd_tab rd) st"
      using frames_trans [OF 0(2) frames_trans [OF 1(3) reads_frames [OF reads_trans [OF 2(2) reads_trans [OF 3(2) 4]]]]] .
    moreover have "conf_read_simple env pre dl (Some name) S_DEF_USER rd0 = Some (0, rd1)"
      using 1(1) assms(2) Some by (simp add: conf_read_simple_def)
    then have "conf_read env pre dl (Some name) rd = Some (0, rd3\<lparr>rd_tab := st\<rparr>)"
      unfolding conf_read_def rd0_def [symmetric] using 2(1) 3(1) by (simp add: st_def upd_rd_def)
    ultimately show ?thesis
      using ok Some by simp
  qed
qed

section \<open>A small file\<close>

lemma sample_types:
  "s_type (syms sample_set r) \<noteq> S_OTHER" "\<not> sym_is_choice (syms sample_set r)"
  "\<not> sym_is_choice_value (syms sample_set r)"
  by (cases r; simp add: sample_set_def sample_symtab_def blank_symbol_def symbol_yes_def symbol_mod_def
      symbol_no_def symbol_empty_def sym_is_choice_def sym_is_choice_value_def sample_const_def)+

lemma sample_set_config: "config_ok sample_set"
  using sample_set_wf(1,2) sample_types sample_set_refs(2,3)
  by (auto simp: config_ok_def hashed_def) (simp add: sample_set_def split: if_splits, blast)

definition sample_rd :: reader where
  "sample_rd = \<lparr>rd_tab = sample_set, conf_filename = [], conf_lineno = 0, conf_warnings = 0,
     conf_unsaved = 0, conf_messages = []\<rparr>"

definition sample_env :: env where
  "sample_env = \<lparr>env_files = [''.config'' \<mapsto> ''# comment'' @ [CHR 0x0A] @ ''FOO=y'' @ [CHR 0x0A]], env_var = Map.empty\<rparr>"

section \<open>Properties\<close>

text \<open>
  C3: reading a configuration that can be opened ends for every text it may hold: the text of
  the user is there wherever it is compared with the calculated one, the table stays well-formed with the same symbols, and every symbol marked as set
  by the user has a value of the user. A file that cannot be opened gives 1 and only resets the
  count of changes.
\<close>

theorem conf_read_total:
  assumes "config_ok (rd_tab rd)" "zconf_fopen env name = Some f"
  shows "\<exists>ret rd'. conf_read env pre dl (Some name) rd = Some (ret, rd') \<and> (ret = 0 \<longleftrightarrow> f \<noteq> None) \<and>
    config_ok (rd_tab rd') \<and> refs (rd_tab rd') = refs (rd_tab rd) \<and>
    (f = None \<longrightarrow> rd' = upd_rd (sym_set_change_count 0) rd) \<and>
    (f \<noteq> None \<longrightarrow> (\<forall>r. hashed (rd_tab rd') r \<longrightarrow> kept (syms (rd_tab rd') r)))"
  using conf_read_goes [OF assms, of pre dl] framesD(2) frames_config [OF _ assms(1)] by (fastforce simp: read_ok_def)

theorem conf_read_total_witness:
  "\<exists>rd'. conf_read sample_env [] None (Some ''.config'') sample_rd = Some (0, rd') \<and> config_ok (rd_tab rd')"
proof -
  have "zconf_fopen sample_env ''.config'' = Some (Some (''# comment'' @ [CHR 0x0A] @ ''FOO=y'' @ [CHR 0x0A]))"
    by (simp add: zconf_fopen_def sample_env_def)
  moreover have "config_ok (rd_tab sample_rd)" using sample_set_config by (simp add: sample_rd_def)
  ultimately show ?thesis using conf_read_total by fastforce
qed

text \<open>
  C4: \<open>compat_getline\<close> takes one line from the stream, up to and with its newline or the rest of the
  file, and leaves it in the buffer with a NUL behind it, whatever the buffer was before: the buffer
  has grown so that every byte, the NUL too, lies inside of it. Only at the end of the file there is
  no line.
\<close>

theorem getline_correct:
  "\<exists>line rest buf'. stream = line @ rest \<and> (stream = [] \<longleftrightarrow> line = []) \<and>
     CHR 0x0A \<notin> set (butlast line) \<and> (rest = [] \<or> last line = CHR 0x0A) \<and>
     compat_getline stream buf = (if line = [] then None else Some (length line), buf', rest) \<and>
     length line < length buf' \<and> take (length line) buf' = line \<and> buf' ! length line = CHR 0x00"
proof -
  let ?l = "fst (next_line stream)" and ?r = "snd (next_line stream)"
  have "stream = ?l @ ?r \<and> (stream = [] \<longleftrightarrow> ?l = []) \<and> CHR 0x0A \<notin> set (butlast ?l) \<and>
      (?r = [] \<or> last ?l = CHR 0x0A)"
  proof (induction stream)
    case (Cons c s)
    then show ?case by (cases "c = CHR 0x0A") auto
  qed simp
  moreover obtain buf' where "compat_getline stream buf = (if ?l = [] then None else Some (length ?l), buf', ?r)"
    "length ?l < length buf'" "take (length ?l) buf' = ?l" "buf' ! length ?l = CHR 0x00"
    using getline_loop_next [of 0 buf ?l stream] unfolding compat_getline_def by auto
  ultimately show ?thesis by blast
qed

end
