(* ===== verification/Kutil.thy ===== *)
theory Kutil
  imports Kconfread
begin

text \<open>
  \<open>support/kconfig/util.c\<close>: the list of the Kconfig files that were read, the file of dependencies
  written from it, and the growing strings of the menu texts; and a model of the files of the
  system for what is written.
\<close>

abbreviation NL :: cstring where "NL \<equiv> [CHR 0x0A]"

section \<open>Files\<close>

text \<open>
  The files with their texts, the directories, the files that can be opened for writing and the
  renamings that succeed. Writing to an open file does not fail.
\<close>

record fs =
  fs_files :: "cstring \<Rightarrow> cstring option"
  fs_dirs :: "cstring set"
  fs_opens :: "cstring \<Rightarrow> bool"
  fs_renames :: "cstring \<Rightarrow> cstring \<Rightarrow> bool"

definition write_file :: "cstring \<Rightarrow> cstring \<Rightarrow> fs \<Rightarrow> fs" where
  "write_file name content w = w\<lparr>fs_files := (fs_files w)(name := Some content)\<rparr>"

definition rename_file :: "cstring \<Rightarrow> cstring \<Rightarrow> fs \<Rightarrow> bool \<times> fs" where
  "rename_file old new w =
     (case fs_files w old of
        None \<Rightarrow> (False, w)
      | Some content \<Rightarrow>
          if fs_renames w old new
          then (True, w\<lparr>fs_files := (fs_files w)(old := None, new := Some content)\<rparr>)
          else (False, w))"

section \<open>The list of files\<close>

text \<open>
  \<open>file_list\<close>, newest first, by name. \<open>expanded\<close> is what \<open>sym_expand_string_value\<close> made of the name: the
  name looked for is the one given, the name stored is the expanded one. The result is the place
  of the entry from the end of the list, which does not change when the list grows.
\<close>

definition file_lookup :: "cstring \<Rightarrow> cstring \<Rightarrow> cstring list \<Rightarrow> nat \<times> cstring list" where
  "file_lookup name expanded files =
     (let older = dropWhile (\<lambda>f. f \<noteq> name) files in
      if older \<noteq> [] then (length older - 1, files) else (length files, expanded # files))"

text \<open>\<open>sym_expand_string_value\<close> with the symbols of the table; a state of None is a crash.\<close>

definition expand_look :: "symtab option \<Rightarrow> cstring \<Rightarrow> cstring \<times> symtab option" where
  "expand_look sto n =
     (case Option.bind sto (\<lambda>st. case sym_find (Some n) st of
         None \<Rightarrow> Some ([], st)
       | Some r \<Rightarrow> do {
           st \<leftarrow> sym_calc_value r st;
           sym_get_string_value sym_calc_value r st
         }) of
        Some (v, st) \<Rightarrow> (v, Some st)
      | None \<Rightarrow> ([], None))"

definition expand_with_table :: "cstring \<Rightarrow> symtab \<Rightarrow> (cstring \<times> symtab) option" where
  "expand_with_table inp st =
     (case sym_expand_string_value expand_look (Some st) inp of
        Some (v, Some st) \<Rightarrow> Some (v, st) | _ \<Rightarrow> None)"

definition file_lookup_name ::
  "cstring \<Rightarrow> cstring list \<Rightarrow> symtab \<Rightarrow> ((nat \<times> cstring list) \<times> symtab) option" where
  "file_lookup_name name files st = do {
     (expanded, st) \<leftarrow> expand_with_table name st;
     Some (file_lookup name expanded files, st)
   }"

section \<open>The file of dependencies\<close>

fun dep_files :: "cstring list \<Rightarrow> cstring" where
  "dep_files [] = []"
| "dep_files [f] = [CHR 0x09] @ f @ NL"
| "dep_files (f # g # fs) = [CHR 0x09] @ f @ '' '' @ [CHR 0x5C] @ NL @ dep_files (g # fs)"

text \<open>A NULL pointer is printed as \<open>(null)\<close>.\<close>

definition null_text :: "cstring option \<Rightarrow> cstring" where
  "null_text s = (case s of Some t \<Rightarrow> t | None \<Rightarrow> ''(null)'')"

definition quoted :: "cstring \<Rightarrow> cstring" where
  "quoted s = [CHR 0x22] @ s @ [CHR 0x22]"

fun dep_envs :: "env \<Rightarrow> symtab \<Rightarrow> symref list \<Rightarrow> cstring option" where
  "dep_envs env st [] = Some []"
| "dep_envs env st (r # rs) = do {
     prop \<leftarrow> sym_get_env_prop (syms st r);
     rest \<leftarrow> dep_envs env st rs;
     case prop_get_symbol prop of
       None \<Rightarrow> Some rest
     | Some e \<Rightarrow> do {
         n \<leftarrow> s_name (syms st e);
         let value = (case env_var env n of Some v \<Rightarrow> v | None \<Rightarrow> []);
         Some (''ifneq '' @ quoted (''$('' @ n @ '')'') @ '' '' @ quoted value @ NL @
           null_text (conf_get_autoconfig_name env) @ '': FORCE'' @ NL @ ''endif'' @ NL @ rest)
       }
   }"

definition dep_text :: "env \<Rightarrow> cstring list \<Rightarrow> symtab \<Rightarrow> cstring option" where
  "dep_text env files st = do {
     envs \<leftarrow> dep_envs env st (sym_env_list st);
     Some (''deps_config := '' @ [CHR 0x5C] @ NL @ dep_files files @
       NL @ null_text (conf_get_autoconfig_name env) @ '': '' @ [CHR 0x5C] @ NL @
       [CHR 0x09] @ ''$(deps_config)'' @ NL @ NL @ envs @ NL @ ''$(deps_config): ;'' @ NL)
   }"

text \<open>The directory of the configuration, with its slash.\<close>

definition config_dir :: "env \<Rightarrow> cstring" where
  "config_dir env = (case strrchr_split (CHR ''/'') (conf_get_configname env) of
      Some (d, _) \<Rightarrow> d @ ''/'' | None \<Rightarrow> [])"

definition file_write_dep ::
  "env \<Rightarrow> cstring list \<Rightarrow> cstring option \<Rightarrow> symtab \<Rightarrow> fs \<Rightarrow> (nat \<times> fs) option" where
  "file_write_dep env files name st w =
     (let name = (case name of Some n \<Rightarrow> n | None \<Rightarrow> ''.kconfig.d'');
          dir = config_dir env; buf = dir @ ''..config.tmp''; buf2 = dir @ name
      in if length (conf_get_configname env) > PATH_MAX \<or> length buf > PATH_MAX \<or> length buf2 > PATH_MAX
         then None
         else if \<not> fs_opens w buf then Some (1, w)
         else do {
           text \<leftarrow> dep_text env files st;
           Some (0, snd (rename_file buf buf2 (write_file buf text w)))
         })"

section \<open>Growing strings\<close>

text \<open>The length of the buffer and the string in it; \<open>str_append\<close> is None where it leaves the buffer.\<close>

record gstr =
  gs_len :: nat
  gs_s :: cstring
  gs_max_width :: int

definition str_new :: gstr where
  "str_new = \<lparr>gs_len = 64, gs_s = [], gs_max_width = 0\<rparr>"

definition str_assign :: "cstring \<Rightarrow> gstr" where
  "str_assign s = \<lparr>gs_len = length s + 1, gs_s = s, gs_max_width = 0\<rparr>"

definition str_append :: "gstr \<Rightarrow> cstring option \<Rightarrow> gstr option" where
  "str_append gs so =
     (case so of
        None \<Rightarrow> Some gs
      | Some s \<Rightarrow>
          let l = length (gs_s gs) + length s + 1;
              gs = (if l > gs_len gs then gs\<lparr>gs_len := l\<rparr> else gs)
          in map_option (\<lambda>t. gs\<lparr>gs_s := t\<rparr>) (append_to (gs_len gs) (gs_s gs) s))"

text \<open>\<open>s\<close> is the formatted text, which is cut to 9999 bytes.\<close>

definition str_printf :: "gstr \<Rightarrow> cstring \<Rightarrow> gstr option" where
  "str_printf gs s = str_append gs (Some (take 9999 s))"

definition str_get :: "gstr \<Rightarrow> cstring" where
  "str_get gs = gs_s gs"

text \<open>The string always fits its buffer, so appending never leaves it.\<close>

definition gs_ok :: "gstr \<Rightarrow> bool" where
  "gs_ok gs \<longleftrightarrow> length (gs_s gs) + 1 \<le> gs_len gs"

lemma gs_ok_new: "gs_ok str_new" "gs_ok (str_assign s)"
  by (simp_all add: gs_ok_def str_new_def str_assign_def)

lemma str_append_ok:
  "\<exists>gs'. str_append gs (Some s) = Some gs' \<and> gs_ok gs' \<and> str_get gs' = str_get gs @ s"
  by (auto simp: str_append_def append_to_def gs_ok_def str_get_def Let_def)

text \<open>A file whose name contains no \<open>$\<close> is found again, at the same place.\<close>

lemma lookup_files: "name \<in> set (snd (file_lookup name name files))"
  by (auto simp: file_lookup_def Let_def dropWhile_eq_Nil_conv)

section \<open>Properties\<close>

text \<open>
  a file is found again under a name only when expanding the name does not change it: a name
  that does change is looked for as it was given but kept as it was expanded, so each look-up of it
  adds another entry to the list and gives another result.
\<close>

theorem file_lookup_again:
  assumes "name \<notin> set files" "file_lookup name expanded files = (i, files')"
  shows "file_lookup name expanded files' = (if expanded = name then (i, files') else (Suc i, expanded # files'))"
proof -
  have f: "files' = expanded # files" "i = length files"
    using assms by (auto simp: file_lookup_def Let_def dropWhile_eq_Nil_conv split: if_splits)
  have "dropWhile (\<lambda>f. f \<noteq> name) files = []" using assms(1) by (auto simp: dropWhile_eq_Nil_conv)
  then show ?thesis by (simp add: f file_lookup_def Let_def)
qed

theorem file_lookup_again_witness:
  "file_lookup ''$A/Config.in'' ''board/Config.in'' [''board/Config.in''] = (1, [''board/Config.in'', ''board/Config.in''])"
  using file_lookup_again [of "''$A/Config.in''" "[]" "''board/Config.in''" 0 "[''board/Config.in'']"]
  by (simp add: file_lookup_def)

text \<open>
  the call of \<open>conf_write_autoconf\<close>, which gives the name with the directory of the configuration,
  asks for a file below that directory twice: where there is no such place, the result is still 0,
  the dependencies stay in \<open>..config.tmp\<close>, and no other file is written.
\<close>

theorem dependencies_left_behind:
  assumes d: "d = config_dir env" and "length (conf_get_configname env) \<le> PATH_MAX" "length (d @ ''..config.tmp'') \<le> PATH_MAX"
    "length (d @ d @ ''.config.cmd'') \<le> PATH_MAX"
    and "fs_opens w (d @ ''..config.tmp'')" "\<not> fs_renames w (d @ ''..config.tmp'') (d @ d @ ''.config.cmd'')"
    and "dep_text env files st = Some t"
  shows "file_write_dep env files (Some (d @ ''.config.cmd'')) st w = Some (0, write_file (d @ ''..config.tmp'') t w)"
  using assms by (simp add: file_write_dep_def Let_def rename_file_def write_file_def)

theorem dependencies_left_behind_witness:
  "\<exists>t. file_write_dep \<lparr>env_files = Map.empty, env_var = [''BR2_CONFIG'' \<mapsto> ''/b/.config'']\<rparr> [''Config.in'']
     (Some ''/b/.config.cmd'') empty_symtab
     \<lparr>fs_files = Map.empty, fs_dirs = {''/b''}, fs_opens = (\<lambda>f. True), fs_renames = (\<lambda>a b. b \<noteq> ''/b//b/.config.cmd'')\<rparr> =
     Some (0, write_file ''/b/..config.tmp'' t
       \<lparr>fs_files = Map.empty, fs_dirs = {''/b''}, fs_opens = (\<lambda>f. True), fs_renames = (\<lambda>a b. b \<noteq> ''/b//b/.config.cmd'')\<rparr>)"
proof -
  let ?e = "\<lparr>env_files = Map.empty, env_var = [''BR2_CONFIG'' \<mapsto> ''/b/.config'']\<rparr> :: env"
  let ?w = "\<lparr>fs_files = Map.empty, fs_dirs = {''/b''}, fs_opens = (\<lambda>f. True), fs_renames = (\<lambda>a b. b \<noteq> ''/b//b/.config.cmd'')\<rparr>"
  have c: "conf_get_configname ?e = ''/b/.config''" by (simp add: conf_get_configname_def)
  have d: "''/b/'' = config_dir ?e" by (simp add: config_dir_def c)
  obtain t where t: "dep_text ?e [''Config.in''] empty_symtab = Some t"
    by (simp add: dep_text_def empty_symtab_def)
  show ?thesis
    using dependencies_left_behind [OF d _ _ _ _ _ t, of ?w] c by (auto simp: PATH_MAX_def)
qed

end
