(* ===== verification/Kmenu.thy ===== *)
theory Kmenu
  imports Kset
begin

text \<open>
  The menu tree, from \<open>support/kconfig/expr.h\<close> and \<open>menu.c\<close>: \<open>struct menu\<close> as a record with \<open>next\<close>,
  \<open>parent\<close> and \<open>list\<close> pointers in a store, the operations the parser builds the tree with, the checks of
  the properties of a symbol, visibility and prompts, and the loop over all entries that several
  programs contain. \<open>forest\<close> relates the pointers to a tree; the loop visits its entries in preorder.
\<close>

section \<open>Menus\<close>

text \<open>
  \<open>prompt\<close> points to a property: one of the list of the symbol of the menu, given by its place there,
  or one of its own when the menu has no symbol. The name of a field of \<open>struct menu\<close> is prefixed.
\<close>

datatype prompt = P_own property | P_at nat

record menu =
  mn_next :: "nat option"
  mn_parent :: "nat option"
  mn_list :: "nat option"
  mn_sym :: "symref option"
  mn_prompt :: "prompt option"
  mn_visibility :: "expr option"
  mn_dep :: "expr option"
  mn_help :: "cstring option"
  mn_pos :: "cstring \<times> nat"

datatype slot = ListOf nat | NextOf nat

text \<open>
  The state of the parser: the symbols, the store of menus, of which 0 is \<open>rootmenu\<close>, and the globals
  of \<open>menu.c\<close>; \<open>last_entry_ptr\<close> is the address of a \<open>list\<close> or \<open>next\<close> field.
\<close>

record kconf =
  tab :: symtab
  menus :: "nat \<Rightarrow> menu"
  next_menu :: nat
  current_entry :: nat
  current_menu :: nat
  last_entry :: slot
  sym_defconfig_list :: "symref option"
  zconfnerrs :: nat

definition blank_menu :: menu where
  "blank_menu = \<lparr>mn_next = None, mn_parent = None, mn_list = None, mn_sym = None, mn_prompt = None,
     mn_visibility = None, mn_dep = None, mn_help = None, mn_pos = ([], 0)\<rparr>"

abbreviation rootmenu :: nat where "rootmenu \<equiv> 0"

definition upd_menu :: "nat \<Rightarrow> (menu \<Rightarrow> menu) \<Rightarrow> kconf \<Rightarrow> kconf" where
  "upd_menu m f k = k\<lparr>menus := (menus k)(m := f (menus k m))\<rparr>"

definition upd_tab :: "(symtab \<Rightarrow> symtab) \<Rightarrow> kconf \<Rightarrow> kconf" where
  "upd_tab f k = k\<lparr>tab := f (tab k)\<rparr>"

fun set_slot :: "slot \<Rightarrow> nat option \<Rightarrow> kconf \<Rightarrow> kconf" where
  "set_slot (ListOf m) p k = upd_menu m (\<lambda>x. x\<lparr>mn_list := p\<rparr>) k"
| "set_slot (NextOf m) p k = upd_menu m (\<lambda>x. x\<lparr>mn_next := p\<rparr>) k"

definition k_warn :: "cstring \<Rightarrow> kconf \<Rightarrow> kconf" where
  "k_warn msg = upd_tab (\<lambda>st. st\<lparr>warnings := warnings st @ [msg]\<rparr>)"

text \<open>A warning about a place of the Kconfig files.\<close>

definition warning_at :: "cstring \<times> nat \<Rightarrow> cstring \<Rightarrow> cstring" where
  "warning_at pos msg = fst pos @ '':'' @ dec_of_nat (snd pos) @ '':warning: '' @ msg"

definition menu_warn :: "nat \<Rightarrow> cstring \<Rightarrow> kconf \<Rightarrow> kconf" where
  "menu_warn m msg k = k_warn (warning_at (mn_pos (menus k m)) msg) k"

definition prop_warn :: "property \<Rightarrow> cstring \<Rightarrow> kconf \<Rightarrow> kconf" where
  "prop_warn p msg = k_warn (warning_at (p_pos p) msg)"

text \<open>The property \<open>prompt\<close> points to.\<close>

definition menu_prompt :: "kconf \<Rightarrow> nat \<Rightarrow> property option" where
  "menu_prompt k m = (case mn_prompt (menus k m) of
      None \<Rightarrow> None
    | Some (P_own p) \<Rightarrow> Some p
    | Some (P_at i) \<Rightarrow> map_option (\<lambda>r. s_props (syms (tab k) r) ! i) (mn_sym (menus k m)))"

section \<open>Building the tree\<close>

definition menu_init :: "kconf \<Rightarrow> kconf" where
  "menu_init k = k\<lparr>current_entry := rootmenu, current_menu := rootmenu, last_entry := ListOf rootmenu\<rparr>"

text \<open>\<open>'m'\<close> becomes \<open>'m' && MODULES\<close>; before there is a symbol of modules the code would store NULL.\<close>

fun menu_check_dep :: "symref option \<Rightarrow> expr \<Rightarrow> expr option" where
  "menu_check_dep mods (ENot x) = map_option ENot (menu_check_dep mods x)"
| "menu_check_dep mods (EOr l r) =
     (case (menu_check_dep mods l, menu_check_dep mods r) of
        (Some l, Some r) \<Rightarrow> Some (EOr l r) | _ \<Rightarrow> None)"
| "menu_check_dep mods (EAnd l r) =
     (case (menu_check_dep mods l, menu_check_dep mods r) of
        (Some l, Some r) \<Rightarrow> Some (EAnd l r) | _ \<Rightarrow> None)"
| "menu_check_dep mods (ESymbol s) =
     (if s = SymMod then (case mods of
         None \<Rightarrow> None | Some m \<Rightarrow> expr_alloc_and (Some (ESymbol s)) (Some (expr_alloc_symbol m)))
      else Some (ESymbol s))"
| "menu_check_dep mods e = Some e"

definition check_dep :: "kconf \<Rightarrow> expr option \<Rightarrow> expr option option" where
  "check_dep k e = (case e of None \<Rightarrow> Some None
     | Some x \<Rightarrow> map_option Some (menu_check_dep (modules_sym (tab k)) x))"

definition menu_add_dep :: "expr option \<Rightarrow> kconf \<Rightarrow> kconf option" where
  "menu_add_dep dep k = do {
     dep \<leftarrow> check_dep k dep;
     Some (upd_menu (current_entry k) (\<lambda>m. m\<lparr>mn_dep := expr_alloc_and (mn_dep m) dep\<rparr>) k)
   }"

definition menu_add_visibility :: "expr option \<Rightarrow> kconf \<Rightarrow> kconf" where
  "menu_add_visibility e k =
     upd_menu (current_entry k) (\<lambda>m. m\<lparr>mn_visibility := expr_alloc_and (mn_visibility m) e\<rparr>) k"

text \<open>The menus above one, from its parent on.\<close>

partial_function (option) ancestors :: "(nat \<Rightarrow> menu) \<Rightarrow> nat \<Rightarrow> nat list option" where
  "ancestors ms m = (case mn_parent (ms m) of
      None \<Rightarrow> Some []
    | Some p \<Rightarrow> do { as \<leftarrow> ancestors ms p; Some (p # as) })"

text \<open>The conditions of the menus above: copies of their visibilities.\<close>

fun visibilities :: "(nat \<Rightarrow> menu) \<Rightarrow> nat list \<Rightarrow> expr option \<Rightarrow> expr option" where
  "visibilities ms [] e = e"
| "visibilities ms (m # as) e =
     (case mn_visibility (ms m) of
        None \<Rightarrow> visibilities ms as e
      | Some v \<Rightarrow> visibilities ms as (expr_alloc_and e (expr_copy v)))"

text \<open>A new property is appended to the list of the symbol of the current entry, if it has one.\<close>

definition store_prop :: "property \<Rightarrow> kconf \<Rightarrow> prompt \<times> kconf" where
  "store_prop p k =
     (case mn_sym (menus k (current_entry k)) of
        None \<Rightarrow> (P_own p, k)
      | Some r \<Rightarrow> (P_at (length (s_props (syms (tab k) r))), upd_tab (add_prop r p) k))"

definition menu_add_prop ::
  "prop_type \<Rightarrow> cstring option \<Rightarrow> expr option \<Rightarrow> expr option \<Rightarrow> kconf \<Rightarrow> kconf option" where
  "menu_add_prop type prompt e dep k = do {
     dep \<leftarrow> check_dep k dep;
     let m = current_entry k;
     let p = (prop_alloc type (tab k))\<lparr>p_menu := Some m, p_expr := e, p_visible := dep\<rparr>;
     case prompt of
       None \<Rightarrow> Some (snd (store_prop p k))
     | Some s \<Rightarrow> do {
         let k = (if s \<noteq> [] \<and> c_isspace (hd s) then prop_warn p ''leading whitespace ignored'' k else k);
         let s = skip_spaces s;
         let k = (if mn_prompt (menus k m) \<noteq> None \<and> m \<noteq> rootmenu then prop_warn p ''prompt redefined'' k else k);
         as \<leftarrow> (if type = P_PROMPT then ancestors (menus k) m else Some []);
         let p = p\<lparr>p_visible := visibilities (menus k) as (p_visible p), p_text := Some s\<rparr>;
         let (q, k) = store_prop p k;
         Some (upd_menu m (\<lambda>x. x\<lparr>mn_prompt := Some q\<rparr>) k)
       }
   }"

definition menu_add_prompt :: "prop_type \<Rightarrow> cstring option \<Rightarrow> expr option \<Rightarrow> kconf \<Rightarrow> kconf option" where
  "menu_add_prompt type prompt dep = menu_add_prop type prompt None dep"

definition menu_add_expr :: "prop_type \<Rightarrow> expr option \<Rightarrow> expr option \<Rightarrow> kconf \<Rightarrow> kconf option" where
  "menu_add_expr type e dep = menu_add_prop type None e dep"

definition menu_add_symbol :: "prop_type \<Rightarrow> symref \<Rightarrow> expr option \<Rightarrow> kconf \<Rightarrow> kconf option" where
  "menu_add_symbol type r dep = menu_add_prop type None (Some (expr_alloc_symbol r)) dep"

definition menu_add_entry :: "symref option \<Rightarrow> kconf \<Rightarrow> kconf option" where
  "menu_add_entry s k =
     (let m = next_menu k;
          k = k\<lparr>menus := (menus k)(m := blank_menu\<lparr>mn_sym := s, mn_parent := Some (current_menu k),
                  mn_pos := current_pos (tab k)\<rparr>), next_menu := m + 1\<rparr>;
          k = set_slot (last_entry k) (Some m) k;
          k = k\<lparr>last_entry := NextOf m, current_entry := m\<rparr>
      in case s of None \<Rightarrow> Some k | Some r \<Rightarrow> menu_add_symbol P_SYMBOL r None k)"

definition menu_end_entry :: "kconf \<Rightarrow> kconf" where
  "menu_end_entry k = k"

definition menu_add_menu :: "kconf \<Rightarrow> kconf" where
  "menu_add_menu k =
     (let k = menu_end_entry k
      in k\<lparr>last_entry := ListOf (current_entry k), current_menu := current_entry k\<rparr>)"

text \<open>Ending the root menu would leave \<open>current_menu\<close> NULL; the grammar does not do that.\<close>

definition menu_end_menu :: "kconf \<Rightarrow> kconf option" where
  "menu_end_menu k =
     (let k = k\<lparr>last_entry := NextOf (current_menu k)\<rparr> in
      map_option (\<lambda>p. k\<lparr>current_menu := p\<rparr>) (mn_parent (menus k (current_menu k))))"

definition name_or_choice :: "symbol \<Rightarrow> cstring" where
  "name_or_choice s = (case s_name s of Some n \<Rightarrow> n | None \<Rightarrow> ''<choice>'')"

definition menu_set_type :: "symbol_type \<Rightarrow> kconf \<Rightarrow> kconf option" where
  "menu_set_type type k = do {
     r \<leftarrow> mn_sym (menus k (current_entry k));
     let s = syms (tab k) r;
     Some (if s_type s = type then k
       else if s_type s = S_UNKNOWN then upd_tab (upd_sym r (\<lambda>s. s\<lparr>s_type := type\<rparr>)) k
       else menu_warn (current_entry k) (''ignoring type redefinition of '' @ single_quoted (name_or_choice s) @ '' from '' @
         single_quoted (sym_type_name (s_type s)) @ '' to '' @ single_quoted (sym_type_name type)) k)
   }"

datatype menu_option = T_OPT_MODULES | T_OPT_DEFCONFIG_LIST | T_OPT_ENV

definition zconf_error :: "cstring \<Rightarrow> kconf \<Rightarrow> kconf" where
  "zconf_error msg k =
     (k_warn (fst (current_pos (tab k)) @ '':'' @ dec_of_nat (snd (current_pos (tab k))) @ '': '' @ msg) k)
       \<lparr>zconfnerrs := zconfnerrs k + 1\<rparr>"

definition menu_add_option ::
  "(cstring \<Rightarrow> cstring option) \<Rightarrow> menu_option \<Rightarrow> cstring \<Rightarrow> kconf \<Rightarrow> kconf option" where
  "menu_add_option getenv token arg k =
     (let r = mn_sym (menus k (current_entry k)) in
      case token of
        T_OPT_MODULES \<Rightarrow>
          (case modules_sym (tab k) of
             Some m \<Rightarrow> do {
               r' \<leftarrow> r;
               Some (upd_tab (\<lambda>st. st\<lparr>modules_sym := r\<rparr>)
                 (zconf_error (''symbol '' @ single_quoted (text_or_empty (s_name (syms (tab k) r'))) @ '' redefines option '' @
                    single_quoted ''modules'' @ '' already defined by symbol '' @
                    single_quoted (text_or_empty (s_name (syms (tab k) m)))) k))
             }
           | None \<Rightarrow> Some (upd_tab (\<lambda>st. st\<lparr>modules_sym := r\<rparr>) k))
      | T_OPT_DEFCONFIG_LIST \<Rightarrow>
          Some (if sym_defconfig_list k = None then k\<lparr>sym_defconfig_list := r\<rparr>
            else if sym_defconfig_list k \<noteq> r then zconf_error ''trying to redefine defconfig symbol'' k
            else k)
      | T_OPT_ENV \<Rightarrow> map_option (\<lambda>r. upd_tab (prop_add_env r getenv arg) k) r)"

section \<open>Checking the properties of a symbol\<close>

definition menu_validate_number :: "symtab \<Rightarrow> symref \<Rightarrow> symref \<Rightarrow> bool" where
  "menu_validate_number st r r2 \<longleftrightarrow>
     (let s2 = syms st r2 in
      s_type s2 = S_INT \<or> s_type s2 = S_HEX \<or>
      s_type s2 = S_UNKNOWN \<and> sym_string_valid (s_type (syms st r)) (text_or_empty (s_name s2)))"

text \<open>The warnings for one property; None where its expression is missing.\<close>

definition check_default :: "symtab \<Rightarrow> symref \<Rightarrow> property \<Rightarrow> cstring list option" where
  "check_default st r p = do {
     e \<leftarrow> p_expr p;
     let s = syms st r;
     let name = text_or_empty (s_name s);
     let w1 = (if is_text_type (s_type s) \<and> etype e \<noteq> E_SYMBOL
       then [''default for config symbol '' @ single_quoted name @ '' must be a single symbol''] else []);
     case e of
       ESymbol r2 \<Rightarrow> Some (w1 @ (if (s_type s = S_HEX \<or> s_type s = S_INT) \<and> \<not> menu_validate_number st r r2
         then [single_quoted name @ '': number is invalid''] else []))
     | _ \<Rightarrow> Some w1
   }"

definition check_select :: "symtab \<Rightarrow> symref \<Rightarrow> property \<Rightarrow> cstring list option" where
  "check_select st r p = do {
     let s = syms st r;
     r2 \<leftarrow> prop_get_symbol p;
     let t2 = s_type (syms st r2);
     Some (if \<not> is_tri (s_type s)
       then [''config symbol '' @ single_quoted (text_or_empty (s_name s)) @ '' uses select, but is not boolean or tristate'']
       else if t2 \<noteq> S_UNKNOWN \<and> \<not> is_tri t2
       then [single_quoted (text_or_empty (s_name (syms st r2))) @
         '' has wrong type. '' @ single_quoted ''select'' @ '' only accept arguments of boolean and tristate type'']
       else [])
   }"

definition check_range :: "symtab \<Rightarrow> symref \<Rightarrow> property \<Rightarrow> cstring list option" where
  "check_range st r p = do {
     (lo, hi) \<leftarrow> range_syms p;
     let t = s_type (syms st r);
     Some ((if t \<noteq> S_INT \<and> t \<noteq> S_HEX then [''range is only allowed for int or hex symbols''] else []) @
       (if \<not> menu_validate_number st r lo \<or> \<not> menu_validate_number st r hi then [''range is invalid''] else []))
   }"

fun sym_check_props :: "symtab \<Rightarrow> symref \<Rightarrow> property list \<Rightarrow> cstring list option" where
  "sym_check_props st r [] = Some []"
| "sym_check_props st r (p # ps) = do {
     ws \<leftarrow> (case p_type p of P_DEFAULT \<Rightarrow> check_default st r p | P_SELECT \<Rightarrow> check_select st r p
       | P_RANGE \<Rightarrow> check_range st r p | _ \<Rightarrow> Some []);
     ws' \<leftarrow> sym_check_props st r ps;
     Some (map (warning_at (p_pos p)) ws @ ws')
   }"

definition sym_check_prop :: "symref \<Rightarrow> kconf \<Rightarrow> kconf option" where
  "sym_check_prop r k =
     map_option (\<lambda>ws. fold k_warn ws k) (sym_check_props (tab k) r (s_props (syms (tab k) r)))"

section \<open>Questions about an entry\<close>

definition menu_has_prompt :: "kconf \<Rightarrow> nat \<Rightarrow> bool" where
  "menu_has_prompt k m \<longleftrightarrow> mn_prompt (menus k m) \<noteq> None"

definition menu_get_prompt :: "kconf \<Rightarrow> nat \<Rightarrow> cstring option" where
  "menu_get_prompt k m =
     (case menu_prompt k m of
        Some p \<Rightarrow> p_text p
      | None \<Rightarrow> (case mn_sym (menus k m) of Some r \<Rightarrow> s_name (syms (tab k) r) | None \<Rightarrow> None))"

definition menu_get_root_menu :: "nat \<Rightarrow> nat" where
  "menu_get_root_menu m = rootmenu"

text \<open>The next menu upwards that is a menu; a pointer that leaves the tree gives None.\<close>

partial_function (option) menu_get_parent_menu :: "kconf \<Rightarrow> nat \<Rightarrow> nat option" where
  "menu_get_parent_menu k m =
     (if m = rootmenu then Some m
      else if (case menu_prompt k m of Some p \<Rightarrow> p_type p = P_MENU | None \<Rightarrow> False) then Some m
      else Option.bind (mn_parent (menus k m)) (\<lambda>p. menu_get_parent_menu k p))"

definition menu_has_help :: "kconf \<Rightarrow> nat \<Rightarrow> bool" where
  "menu_has_help k m \<longleftrightarrow> mn_help (menus k m) \<noteq> None"

definition menu_get_help :: "kconf \<Rightarrow> nat \<Rightarrow> cstring" where
  "menu_get_help k m = (case mn_help (menus k m) of Some h \<Rightarrow> h | None \<Rightarrow> [])"

text \<open>
  Visibility: the condition of the menu, then the one of its prompt, and for an entry with a value
  also that of its entries below. The visibility of a symbol's prompt is the one its last
  calculation left in \<open>vis_tri\<close>. \<open>m\<close> and the list of its siblings are searched together.
\<close>

definition prompt_tri :: "nat \<Rightarrow> kconf \<Rightarrow> (tristate \<times> kconf) option" where
  "prompt_tri m k =
     (case mn_sym (menus k m) of
        Some r \<Rightarrow> do {
          st \<leftarrow> sym_calc_value r (tab k);
          Some (case mn_prompt (menus k m) of Some (P_at i) \<Rightarrow> vis_tri st r i | _ \<Rightarrow> T_no, k\<lparr>tab := st\<rparr>)
        }
      | None \<Rightarrow> do {
          p \<leftarrow> menu_prompt k m;
          (v, st) \<leftarrow> calc_opt sym_calc_value (p_visible p) (tab k);
          Some (v, k\<lparr>tab := st\<rparr>)
        })"

definition visibility_no :: "nat \<Rightarrow> kconf \<Rightarrow> (bool \<times> kconf) option" where
  "visibility_no m k =
     (case mn_visibility (menus k m) of
        None \<Rightarrow> Some (False, k)
      | Some e \<Rightarrow> do {
          (v, st) \<leftarrow> expr_calc_value sym_calc_value e (tab k);
          Some (v = T_no, k\<lparr>tab := st\<rparr>)
        })"

text \<open>
  \<open>menu_search True\<close> is \<open>menu_is_visible\<close> of a menu, \<open>menu_search False\<close> the search of a list of
  siblings for a visible one.
\<close>

partial_function (option) menu_search ::
  "bool \<Rightarrow> nat option \<Rightarrow> kconf \<Rightarrow> (bool \<times> kconf) option" where
  "menu_search one mo k =
     (case mo of
        None \<Rightarrow> Some (False, k)
      | Some m \<Rightarrow>
          if \<not> one
          then do {
            (v, k) \<leftarrow> menu_search True (Some m) k;
            if v then Some (True, k) else menu_search False (mn_next (menus k m)) k
          }
          else if mn_prompt (menus k m) = None then Some (False, k)
          else do {
            (hidden, k) \<leftarrow> visibility_no m k;
            if hidden then Some (False, k)
            else do {
              (v, k) \<leftarrow> prompt_tri m k;
              if v \<noteq> T_no then Some (True, k)
              else case mn_sym (menus k m) of
                None \<Rightarrow> Some (False, k)
              | Some r \<Rightarrow>
                  if sym_get_tristate_value (syms (tab k) r) = T_no then Some (False, k)
                  else do {
                    (v, k) \<leftarrow> menu_search False (mn_list (menus k m)) k;
                    if v then Some (True, upd_tab (set_flags r {SYMBOL_DEF_USER}) k) else Some (False, k)
                  }
            }
          })"

definition menu_is_visible :: "nat \<Rightarrow> kconf \<Rightarrow> (bool \<times> kconf) option" where
  "menu_is_visible m k = menu_search True (Some m) k"

definition menu_is_empty :: "nat \<Rightarrow> kconf \<Rightarrow> (bool \<times> kconf) option" where
  "menu_is_empty m k = do {
     (v, k) \<leftarrow> menu_search False (mn_list (menus k m)) k;
     Some (\<not> v, k)
   }"

section \<open>The loop over all entries\<close>

text \<open>
  The loop of \<open>conf_write\<close>, \<open>conf_write_defconfig\<close> and others: into the list of an entry, else to the
  next one, else to the next of the closest menu above that has one. \<open>climb\<close> starts at a parent.
\<close>

partial_function (option) climb :: "(nat \<Rightarrow> menu) \<Rightarrow> nat option \<Rightarrow> nat option option" where
  "climb ms p = (case p of
      None \<Rightarrow> Some None
    | Some m \<Rightarrow> (case mn_next (ms m) of Some n \<Rightarrow> Some (Some n) | None \<Rightarrow> climb ms (mn_parent (ms m))))"

definition advance :: "(nat \<Rightarrow> menu) \<Rightarrow> nat \<Rightarrow> nat option option" where
  "advance ms m = (case mn_list (ms m) of
      Some l \<Rightarrow> Some (Some l)
    | None \<Rightarrow> (case mn_next (ms m) of Some n \<Rightarrow> Some (Some n) | None \<Rightarrow> climb ms (mn_parent (ms m))))"

partial_function (option) walk_menus ::
  "(nat \<Rightarrow> menu) \<Rightarrow> (nat \<Rightarrow> 'a \<Rightarrow> 'a option) \<Rightarrow> nat option \<Rightarrow> 'a \<Rightarrow> 'a option" where
  "walk_menus ms f mo s = (case mo of
      None \<Rightarrow> Some s
    | Some m \<Rightarrow> do {
        s \<leftarrow> f m s;
        next \<leftarrow> advance ms m;
        walk_menus ms f next s
      })"

text \<open>The tree behind the pointers.\<close>

datatype mtree = MNode nat "mtree list"

fun forest :: "(nat \<Rightarrow> menu) \<Rightarrow> nat option \<Rightarrow> nat option \<Rightarrow> mtree list \<Rightarrow> bool" where
  "forest ms par p [] \<longleftrightarrow> p = None"
| "forest ms par p (MNode m ks # ts) \<longleftrightarrow> p = Some m \<and> mn_parent (ms m) = par \<and>
     forest ms (Some m) (mn_list (ms m)) ks \<and> forest ms par (mn_next (ms m)) ts"

fun preorder :: "mtree list \<Rightarrow> nat list" where
  "preorder [] = []"
| "preorder (MNode m ks # ts) = m # preorder ks @ preorder ts"

text \<open>Where the loop goes on after a list of siblings is done.\<close>

lemma walk_forest:
  "forest ms par p ts \<Longrightarrow> climb ms par = Some c \<Longrightarrow>
   walk_menus ms f (case p of None \<Rightarrow> c | Some m \<Rightarrow> Some m) s =
     Option.bind (fold_opt f (preorder ts) s) (walk_menus ms f c)"
proof (induction ms par p ts arbitrary: c s rule: forest.induct)
  case (1 ms par p)
  then show ?case by simp
next
  case (2 ms par p m ks ts)
  then have p: "p = Some m" "mn_parent (ms m) = par" "forest ms (Some m) (mn_list (ms m)) ks"
    "forest ms par (mn_next (ms m)) ts" by simp_all
  define d where "d = (case mn_next (ms m) of None \<Rightarrow> c | Some n \<Rightarrow> Some n)"
  have cl: "climb ms (Some m) = Some d"
    using 2(4) p(2) by (subst climb.simps) (simp add: d_def split: option.splits)
  have adv: "advance ms m = Some (case mn_list (ms m) of None \<Rightarrow> d | Some l \<Rightarrow> Some l)"
    using 2(4) p(2) by (simp add: advance_def d_def split: option.splits)
  have below: "walk_menus ms f (case mn_list (ms m) of None \<Rightarrow> d | Some l \<Rightarrow> Some l) s =
      Option.bind (fold_opt f (preorder ks) s) (walk_menus ms f d)" for s
    by (rule 2(1) [OF p(3) cl])
  have after: "walk_menus ms f d s = Option.bind (fold_opt f (preorder ts) s) (walk_menus ms f c)" for s
    unfolding d_def by (rule 2(2) [OF p(4) 2(4)])
  have "walk_menus ms f (Some m) s = Option.bind (f m s)
      (walk_menus ms f (case mn_list (ms m) of None \<Rightarrow> d | Some l \<Rightarrow> Some l))"
    by (subst walk_menus.simps) (simp add: adv)
  then show ?case
    by (simp add: p(1) below [abs_def] after [abs_def] fold_opt_append Option.bind_assoc)
qed

end
