(* ===== verification/Kconfwrite.thy ===== *)
theory Kconfwrite
  imports Kutil Kmenu
begin

text \<open>
  Writing configuration files, from \<open>support/kconfig/confdata.c\<close>: the printers for configurations,
  C headers and tristate values, \<open>conf_write\<close> with its temporary file, \<open>conf_write_defconfig\<close>,
  \<open>conf_split_config\<close> and \<open>conf_write_autoconf\<close>.
\<close>

section \<open>Printers\<close>

definition name_text :: "symbol \<Rightarrow> cstring" where
  "name_text s = text_or_empty (s_name s)"

text \<open>\<open>skip\<close> is the argument of the printer not being NULL.\<close>

definition kconfig_print_symbol :: "cstring \<Rightarrow> symbol \<Rightarrow> cstring \<Rightarrow> bool \<Rightarrow> cstring" where
  "kconfig_print_symbol pre s value skip =
     (if is_tri (s_type s) \<and> first_is (CHR ''n'') value
      then (if skip then [] else ''# '' @ pre @ name_text s @ '' is not set'' @ NL)
      else pre @ name_text s @ ''='' @ value @ NL)"

text \<open>Each line of a text behind a mark, the part after the last newline included.\<close>

function print_lines :: "cstring \<Rightarrow> cstring \<Rightarrow> cstring" where
  "print_lines mark p =
     (case strchr_split (CHR 0x0A) p of
        (l, rest) \<Rightarrow> mark @ (if l \<noteq> [] then '' '' @ l else []) @ NL @
          (case rest of None \<Rightarrow> [] | Some p \<Rightarrow> print_lines mark p))"
  by pat_completeness auto
termination
  by (relation "measure (\<lambda>(mark, p). length p)") (auto dest: sym intro: strchr_split_length)

declare print_lines.simps [simp del]

definition kconfig_print_comment :: "cstring \<Rightarrow> cstring" where
  "kconfig_print_comment value = print_lines ''#'' value"

definition header_print_symbol :: "cstring \<Rightarrow> symbol \<Rightarrow> cstring \<Rightarrow> bool \<Rightarrow> cstring" where
  "header_print_symbol pre s value skip =
     (if is_tri (s_type s)
      then (if first_is (CHR ''n'') value then []
            else ''#define '' @ pre @ name_text s @
              (if first_is (CHR ''m'') value then ''_MODULE'' else []) @ '' 1'' @ NL)
      else if s_type s = S_HEX
      then ''#define '' @ pre @ name_text s @ '' '' @ (if has_0x value then [] else ''0x'') @ value @ NL
      else if s_type s = S_STRING \<or> s_type s = S_INT
      then ''#define '' @ pre @ name_text s @ '' '' @ value @ NL
      else [])"

definition header_print_comment :: "cstring \<Rightarrow> cstring" where
  "header_print_comment value = ''/*'' @ NL @ print_lines '' *'' value @ '' */'' @ NL"

definition tristate_print_symbol :: "cstring \<Rightarrow> symbol \<Rightarrow> cstring \<Rightarrow> bool \<Rightarrow> cstring" where
  "tristate_print_symbol pre s value skip =
     (if s_type s = S_TRISTATE \<and> \<not> first_is (CHR ''n'') value
      then pre @ name_text s @ ''='' @ (case value of [] \<Rightarrow> [CHR 0x00] | c # _ \<Rightarrow> [c_toupper c]) @ NL
      else [])"

type_synonym printer = "symbol \<Rightarrow> cstring \<Rightarrow> bool \<Rightarrow> cstring"

definition conf_write_symbol :: "printer \<Rightarrow> bool \<Rightarrow> symref \<Rightarrow> symtab \<Rightarrow> (cstring \<times> symtab) option" where
  "conf_write_symbol printer skip r st =
     (let type = s_type (syms st r) in
      if type = S_OTHER \<or> type = S_UNKNOWN then Some ([], st)
      else do {
        (str, st) \<leftarrow> sym_get_string_value sym_calc_value r st;
        Some (printer (syms st r)
          (if type = S_STRING then sym_escape_string_value str else str) skip, st)
      })"

text \<open>\<open>snprintf\<close> into 256 bytes; the text of the root menu's prompt.\<close>

definition conf_write_heading :: "(cstring \<Rightarrow> cstring) \<Rightarrow> kconf \<Rightarrow> cstring option" where
  "conf_write_heading print_comment k =
     map_option (\<lambda>p. print_comment
       (take 255 (NL @ ''Automatically generated file; DO NOT EDIT.'' @ NL @ text_or_empty (p_text p) @ NL)))
       (menu_prompt k rootmenu)"

section \<open>conf\_write\<close>

text \<open>What \<open>conf_write\<close> prints for an entry, behind what is printed already.\<close>

definition write_entry :: "cstring \<Rightarrow> nat \<Rightarrow> cstring \<times> kconf \<Rightarrow> (cstring \<times> kconf) option" where
  "write_entry pre m = (\<lambda>(out, k).
     case mn_sym (menus k m) of
       None \<Rightarrow> do {
         (v, k) \<leftarrow> menu_is_visible m k;
         if \<not> v then Some (out, k)
         else do {
           str \<leftarrow> menu_get_prompt k m;
           Some (out @ NL @ ''#'' @ NL @ ''# '' @ str @ NL @ ''#'' @ NL, k)
         }
       }
     | Some r \<Rightarrow>
         if sym_is_choice (syms (tab k) r) then Some (out, k)
         else do {
           st \<leftarrow> sym_calc_value r (tab k);
           if SYMBOL_WRITE \<notin> s_flags (syms st r) then Some (out, k\<lparr>tab := st\<rparr>)
           else do {
             (text, st) \<leftarrow> conf_write_symbol (kconfig_print_symbol pre) False r (clear_flags r {SYMBOL_WRITE} st);
             Some (out @ text, k\<lparr>tab := st\<rparr>)
           }
         })"

definition conf_get_changed :: "symtab \<Rightarrow> bool" where
  "conf_get_changed st \<longleftrightarrow> sym_change_count st \<noteq> 0"

definition conf_text :: "cstring \<Rightarrow> kconf \<Rightarrow> (cstring \<times> kconf) option" where
  "conf_text pre k = do {
     heading \<leftarrow> conf_write_heading kconfig_print_comment k;
     st \<leftarrow> (if conf_get_changed (tab k) then Some (tab k) else sym_clear_all_valid (tab k));
     walk_menus (menus k) (write_entry pre) (mn_list (menus k rootmenu)) (heading, k\<lparr>tab := st\<rparr>)
   }"

text \<open>The directory and the name of the file.\<close>

definition split_name :: "env \<Rightarrow> fs \<Rightarrow> cstring \<Rightarrow> cstring \<times> cstring" where
  "split_name env w name =
     (if name = [] then ([], conf_get_configname env)
      else if name \<in> fs_dirs w then (name @ ''/'', conf_get_configname env)
      else case strrchr_split (CHR ''/'') name of
        Some (d, b) \<Rightarrow> (d @ ''/'', if b \<noteq> [] then b else conf_get_configname env)
      | None \<Rightarrow> ([], name))"

definition overwrites :: "env \<Rightarrow> bool" where
  "overwrites env \<longleftrightarrow>
     (case env_var env ''KCONFIG_OVERWRITECONFIG'' of None \<Rightarrow> False | Some v \<Rightarrow> v \<noteq> [])"

text \<open>\<open>pid\<close> is the process id. None also where a name does not fit its buffer.\<close>

definition conf_write ::
  "env \<Rightarrow> int \<Rightarrow> cstring \<Rightarrow> cstring option \<Rightarrow> kconf \<times> fs \<Rightarrow> (nat \<times> cstring list \<times> kconf \<times> fs) option" where
  "conf_write env pid pre name = (\<lambda>(k, w).
     let name = (case name of Some n \<Rightarrow> n | None \<Rightarrow> conf_get_configname env);
         (dirname, basename) = split_name env w name;
         newname = dirname @ basename;
         tmpname = (if overwrites env then [] else dirname @ ''.tmpconfig.'' @ dec_of_int pid);
         outname = (if overwrites env then newname else tmpname)
     in if length newname + (if overwrites env then 0 else 4) > PATH_MAX \<or> length tmpname > PATH_MAX then None
        else if \<not> fs_opens w outname then Some (1, [], k, w)
        else do {
          (text, k) \<leftarrow> conf_text pre k;
          let w = write_file outname text w;
          let (done, w) = (if overwrites env then (True, w)
            else rename_file tmpname newname (snd (rename_file newname (newname @ ''.old'') w)));
          if \<not> done then Some (1, [], k, w)
          else Some (0, [''configuration written to '' @ newname], upd_tab (sym_set_change_count 0) k, w)
        })"

section \<open>conf\_write\_defconfig\<close>

text \<open>Whether a symbol that is written anyway is left out of the minimal configuration.\<close>

definition default_of_choice :: "symref \<Rightarrow> symtab \<Rightarrow> (bool \<times> symtab) option" where
  "default_of_choice r st =
     (if sym_is_choice_value (syms st r)
      then do {
        prop \<leftarrow> sym_get_choice_prop (syms st r);
        cs \<leftarrow> prop_get_symbol prop;
        (ds, st) \<leftarrow> sym_choice_default sym_calc_value cs st;
        Some (\<not> sym_is_optional (syms st cs) \<and> ds = Some r \<and> s_type (syms st r) = S_BOOLEAN \<and>
          sym_get_tristate_value (syms st r) = T_yes, st)
      }
      else Some (False, st))"

definition defconfig_entry :: "cstring \<Rightarrow> nat \<Rightarrow> cstring \<times> kconf \<Rightarrow> (cstring \<times> kconf) option" where
  "defconfig_entry pre m = (\<lambda>(out, k).
     case mn_sym (menus k m) of
       None \<Rightarrow> do {
         (v, k) \<leftarrow> menu_is_visible m k;
         Some (out, k)
       }
     | Some r \<Rightarrow>
         if sym_is_choice (syms (tab k) r) then Some (out, k)
         else do {
           st \<leftarrow> sym_calc_value r (tab k);
           if SYMBOL_WRITE \<notin> s_flags (syms st r) then Some (out, k\<lparr>tab := st\<rparr>)
           else do {
             let st = clear_flags r {SYMBOL_WRITE} st;
             if \<not> sym_is_changable (syms st r) then Some (out, k\<lparr>tab := st\<rparr>)
             else do {
               (v, st) \<leftarrow> sym_get_string_value sym_calc_value r st;
               (d, st) \<leftarrow> sym_get_string_default r st;
               if v = d then Some (out, k\<lparr>tab := st\<rparr>)
               else do {
                 (skip, st) \<leftarrow> default_of_choice r st;
                 if skip then Some (out, k\<lparr>tab := st\<rparr>)
                 else do {
                   (text, st) \<leftarrow> conf_write_symbol (kconfig_print_symbol pre) False r st;
                   Some (out @ text, k\<lparr>tab := st\<rparr>)
                 }
               }
             }
           }
         })"

definition conf_write_defconfig ::
  "cstring \<Rightarrow> cstring \<Rightarrow> kconf \<times> fs \<Rightarrow> (nat \<times> kconf \<times> fs) option" where
  "conf_write_defconfig pre name = (\<lambda>(k, w).
     if \<not> fs_opens w name then Some (1, k, w)
     else do {
       st \<leftarrow> sym_clear_all_valid (tab k);
       (text, k) \<leftarrow> walk_menus (menus k) (defconfig_entry pre) (mn_list (menus k rootmenu)) ([], k\<lparr>tab := st\<rparr>);
       Some (0, k, write_file name text w)
     })"
section \<open>conf_split_config\<close>

text \<open>\<open>dirname\<close> of the C library.\<close>

definition drop_slashes :: "cstring \<Rightarrow> cstring" where
  "drop_slashes p = rev (dropWhile (\<lambda>c. c = CHR ''/'') (rev p))"

definition dirname_of :: "cstring \<Rightarrow> cstring" where
  "dirname_of p =
     (if p = [] then ''.''
      else if drop_slashes p = [] then ''/''
      else case strrchr_split (CHR ''/'') (drop_slashes p) of
        None \<Rightarrow> ''.''
      | Some (d, _) \<Rightarrow> if drop_slashes d = [] then ''/'' else drop_slashes d)"

text \<open>The file that stands for a symbol, below the directory of \<open>auto.conf\<close>.\<close>

definition symbol_path :: "cstring \<Rightarrow> cstring" where
  "symbol_path name =
     map (\<lambda>c. let c = c_tolower c in if c = CHR ''_'' then CHR ''/'' else c) name @ ''.h''"

definition at_dir :: "cstring \<Rightarrow> cstring \<Rightarrow> cstring" where
  "at_dir dir p = (if starts_with p ''/'' then p else dir @ ''/'' @ p)"

datatype opened = Opened fs | No_entry | Not_opened

definition has_parent :: "fs \<Rightarrow> cstring \<Rightarrow> bool" where
  "has_parent w full = (case strrchr_split (CHR ''/'') full of Some (d, _) \<Rightarrow> d \<in> fs_dirs w | None \<Rightarrow> True)"

text \<open>\<open>open\<close> with O\_WRONLY, O\_CREAT and O\_TRUNC.\<close>

definition open_empty :: "cstring \<Rightarrow> fs \<Rightarrow> opened" where
  "open_empty full w =
     (if \<not> has_parent w full then No_entry
      else if fs_opens w full then Opened (write_file full [] w) else Not_opened)"

text \<open>The directories on the way to a path: the texts before each of its slashes.\<close>

fun prefixes_at :: "char \<Rightarrow> cstring \<Rightarrow> cstring \<Rightarrow> cstring list" where
  "prefixes_at c b [] = []"
| "prefixes_at c b (x # s) =
     (if x = c then rev b # prefixes_at c (x # b) s else prefixes_at c (x # b) s)"

text \<open>\<open>mkdir\<close> needs the directory above, and a place that can be written.\<close>

definition make_dir :: "cstring \<Rightarrow> fs \<Rightarrow> fs option" where
  "make_dir full w =
     (if full \<in> fs_dirs w \<or> fs_files w full \<noteq> None then Some w
      else if full \<noteq> [] \<and> has_parent w full \<and> fs_opens w full
      then Some (w\<lparr>fs_dirs := insert full (fs_dirs w)\<rparr>)
      else None)"

text \<open>Left is a failure, with what was done before it.\<close>

fun make_dirs_for :: "cstring \<Rightarrow> cstring list \<Rightarrow> fs \<Rightarrow> fs + fs" where
  "make_dirs_for dir [] w = Inr w"
| "make_dirs_for dir (p # ps) w =
     (case (if p = [] then None else make_dir (at_dir dir p) w) of
        None \<Rightarrow> Inl w | Some w \<Rightarrow> make_dirs_for dir ps w)"

definition touch :: "cstring \<Rightarrow> cstring \<Rightarrow> fs \<Rightarrow> fs + fs" where
  "touch dir path w =
     (case open_empty (at_dir dir path) w of
        Opened w \<Rightarrow> Inr w
      | Not_opened \<Rightarrow> Inl w
      | No_entry \<Rightarrow>
          (case make_dirs_for dir (prefixes_at (CHR ''/'') [] path) w of
             Inl w \<Rightarrow> Inl w
           | Inr w \<Rightarrow> (case open_empty (at_dir dir path) w of Opened w \<Rightarrow> Inr w | _ \<Rightarrow> Inl w)))"

text \<open>
  Whether the file of a calculated symbol is left alone: the value is the old one, or there is
  neither. Comparing with a missing old text gives None.
\<close>

definition unchanged :: "symref \<Rightarrow> symtab \<Rightarrow> (bool \<times> symtab) option" where
  "unchanged r st =
     (let s = syms st r in
      if SYMBOL_AUTO \<in> s_flags s \<or> s_name s = None then Some (True, st)
      else if SYMBOL_WRITE \<in> s_flags s
      then (if SYMBOL_DEF_AUTO \<in> s_flags s
            then (if is_tri (s_type s) then Some (sym_get_tristate_value s = snd (s_auto s), st)
                  else if is_text_type (s_type s)
                  then do {
                    (v, st) \<leftarrow> sym_get_string_value sym_calc_value r st;
                    old \<leftarrow> (case fst (s_auto s) of V_str t \<Rightarrow> Some t | _ \<Rightarrow> None);
                    Some (v = old, st)
                  }
                  else Some (False, st))
            else Some (is_tri (s_type s) \<and> sym_get_tristate_value s = T_no, st))
      else Some (SYMBOL_DEF_AUTO \<notin> s_flags s, st))"

fun split_symbols :: "cstring \<Rightarrow> symref list \<Rightarrow> symtab \<times> fs \<Rightarrow> (nat \<times> symtab \<times> fs) option" where
  "split_symbols dir [] (st, w) = Some (0, st, w)"
| "split_symbols dir (r # rs) (st, w) = do {
     st \<leftarrow> sym_calc_value r st;
     (same, st) \<leftarrow> unchanged r st;
     if same then split_symbols dir rs (st, w)
     else
       let path = symbol_path (name_text (syms st r)) in
       if length path > PATH_MAX then None
       else case touch dir path w of
         Inl w \<Rightarrow> Some (1, st, w)
       | Inr w \<Rightarrow> split_symbols dir rs (st, w)
   }"

text \<open>
  \<open>cwd\<close> is the working directory, whose name must fit 256 bytes to be returned to. The symbols are
  those of the table after \<open>auto.conf\<close> was read, which may have added some.
\<close>

definition conf_split_config ::
  "env \<Rightarrow> cstring \<Rightarrow> cstring \<Rightarrow> symref option \<Rightarrow> reader \<times> fs \<Rightarrow> (nat \<times> reader \<times> fs) option" where
  "conf_split_config env cwd pre dl = (\<lambda>(rd, w). do {
     let name = conf_get_autoconfig_name env;
     (_, rd) \<leftarrow> conf_read_simple env pre dl name S_DEF_AUTO rd;
     name \<leftarrow> name;
     let dir = dirname_of name;
     if dir \<notin> fs_dirs w then Some (1, rd, w)
     else do {
       (res, st, w) \<leftarrow> split_symbols dir (all_symbols (rd_tab rd)) (rd_tab rd, w);
       Some (if length cwd < 256 then res else 1, rd\<lparr>rd_tab := st\<rparr>, w)
     }
   })"

section \<open>conf_write_autoconf\<close>

text \<open>The texts of \<open>auto.conf\<close>, \<open>tristate.conf\<close> and \<open>autoconf.h\<close>, behind what is printed already.\<close>

definition autoconf_symbol ::
  "cstring \<Rightarrow> symref \<Rightarrow> (cstring \<times> cstring \<times> cstring) \<times> symtab \<Rightarrow> ((cstring \<times> cstring \<times> cstring) \<times> symtab) option" where
  "autoconf_symbol pre r = (\<lambda>((a, t, h), st). do {
     st \<leftarrow> sym_calc_value r st;
     if SYMBOL_WRITE \<notin> s_flags (syms st r) \<or> s_name (syms st r) = None then Some ((a, t, h), st)
     else do {
       (a', st) \<leftarrow> conf_write_symbol (kconfig_print_symbol pre) True r st;
       (t', st) \<leftarrow> conf_write_symbol (tristate_print_symbol pre) True r st;
       (h', st) \<leftarrow> conf_write_symbol (header_print_symbol pre) False r st;
       Some ((a @ a', t @ t', h @ h'), st)
     }
   })"

definition rename_all :: "(cstring \<times> cstring) list \<Rightarrow> fs \<Rightarrow> nat \<times> fs" where
  "rename_all rs w = fold (\<lambda>(old, new) (ret, w).
     if ret \<noteq> 0 then (ret, w)
     else let (done, w) = rename_file old new w in (if done then 0 else 1, w)) rs (0, w)"

definition env_or :: "env \<Rightarrow> cstring \<Rightarrow> cstring \<Rightarrow> cstring" where
  "env_or env n d = (case env_var env n of Some v \<Rightarrow> v | None \<Rightarrow> d)"

text \<open>The three files are opened before anything is written; one that cannot be opened ends it.\<close>

definition conf_write_autoconf ::
  "env \<Rightarrow> cstring \<Rightarrow> cstring \<Rightarrow> cstring list \<Rightarrow> kconf \<times> reader \<times> fs \<Rightarrow> (nat \<times> kconf \<times> reader \<times> fs) option" where
  "conf_write_autoconf env cwd pre files = (\<lambda>(k, rd, w). do {
     let dir = config_dir env;
     st \<leftarrow> sym_clear_all_valid (tab k);
     (_, w) \<leftarrow> file_write_dep env files (Some (dir @ ''.config.cmd'')) st w;
     (res, rd, w) \<leftarrow> conf_split_config env cwd pre (sym_defconfig_list k) (rd\<lparr>rd_tab := st\<rparr>, w);
     let k = k\<lparr>tab := rd_tab rd\<rparr>;
     let fa = dir @ ''.tmpconfig'';
     let ft = dir @ ''.tmpconfig_tristate'';
     let fh = dir @ ''.tmpconfig.h'';
     if res \<noteq> 0 then Some (1, k, rd, w)
     else if \<not> fs_opens w fa then Some (1, k, rd, w)
     else if \<not> fs_opens w ft then Some (1, k, rd, write_file fa [] w)
     else if \<not> fs_opens w fh then Some (1, k, rd, write_file ft [] (write_file fa [] w))
     else do {
       a \<leftarrow> conf_write_heading kconfig_print_comment k;
       t \<leftarrow> conf_write_heading kconfig_print_comment k;
       h \<leftarrow> conf_write_heading header_print_comment k;
       ((a, t, h), st) \<leftarrow> fold_opt (autoconf_symbol pre) (all_symbols (tab k)) ((a, t, h), tab k);
       let w = write_file fh h (write_file ft t (write_file fa a w));
       name \<leftarrow> conf_get_autoconfig_name env;
       let (ret, w) = rename_all
         [(fh, env_or env ''KCONFIG_AUTOHEADER'' ''include/generated/autoconf.h''),
          (ft, env_or env ''KCONFIG_TRISTATE'' ''include/config/tristate.conf''), (fa, name)] w;
       Some (ret, k\<lparr>tab := st\<rparr>, rd\<lparr>rd_tab := st\<rparr>, w)
     }
   })"

section \<open>Making the directories of a path\<close>

lemma strrchr_last:
  "x \<noteq> c \<Longrightarrow> strrchr_split c (s @ [x]) = map_option (\<lambda>(d, b). (d, b @ [x])) (strrchr_split c s)"
  "strrchr_split c (s @ [c]) = Some (s, [])"
  by (induction s) (auto split: option.splits)

lemma has_parent_next:
  assumes "x \<noteq> CHR ''/''"
  shows "has_parent w (s @ [x]) = has_parent w s"
  by (simp add: has_parent_def strrchr_last(1) [OF assms] split: option.split)

lemma has_parent_slash: "has_parent w (s @ ''/'') \<longleftrightarrow> s \<in> fs_dirs w"
  by (simp add: has_parent_def strrchr_last(2))

lemma has_parent_files [simp]: "has_parent (w\<lparr>fs_files := m\<rparr>) f = has_parent w f"
  by (simp add: has_parent_def split: option.split)

lemma make_dirs:
  assumes "\<forall>f. fs_opens w f" "has_parent w (dir @ ''/'' @ rev b)" "b = [] \<longrightarrow> s \<noteq> [] \<longrightarrow> hd s \<noteq> CHR ''/''"
    "b \<noteq> [] \<longrightarrow> last b \<noteq> CHR ''/''" "\<forall>p \<in> set (prefixes_at (CHR ''/'') b s). fs_files w (dir @ ''/'' @ p) = None"
  shows "\<exists>w'. make_dirs_for dir (prefixes_at (CHR ''/'') b s) w = Inr w' \<and> has_parent w' (dir @ ''/'' @ rev b @ s) \<and>
    w' = w\<lparr>fs_dirs := fs_dirs w \<union> (\<lambda>p. dir @ ''/'' @ p) ` set (prefixes_at (CHR ''/'') b s)\<rparr>"
  using assms
proof (induction s arbitrary: b w)
  case (Cons x s)
  show ?case
  proof (cases "x = CHR ''/''")
    case False
    have "has_parent w (dir @ ''/'' @ rev (x # b))"
      using Cons.prems(2) has_parent_next [OF False, of w "dir @ ''/'' @ rev b"] by simp
    with Cons.IH [of w "x # b"] Cons.prems False show ?thesis by (cases b) auto
  next
    case True
    have b: "b \<noteq> []" using Cons.prems(3) True by auto
    let ?f = "dir @ ''/'' @ rev b"
    have at: "at_dir dir (rev b) = ?f"
      using b Cons.prems(4) by (cases b rule: rev_cases) (auto simp: at_dir_def)
    have none: "fs_files w ?f = None" using Cons.prems(5) True by simp
    define w1 where "w1 = w\<lparr>fs_dirs := insert ?f (fs_dirs w)\<rparr>"
    have mk: "make_dir ?f w = Some w1"
      using none Cons.prems(1,2) by (auto simp: make_dir_def w1_def insert_absorb)
    have "has_parent w1 (dir @ ''/'' @ rev (x # b))"
      using has_parent_slash [of w1 ?f] True by (simp add: w1_def)
    then obtain w' where "make_dirs_for dir (prefixes_at (CHR ''/'') (x # b) s) w1 = Inr w'"
      "has_parent w' (dir @ ''/'' @ rev (x # b) @ s)"
      "w' = w1\<lparr>fs_dirs := fs_dirs w1 \<union> (\<lambda>p. dir @ ''/'' @ p) ` set (prefixes_at (CHR ''/'') (x # b) s)\<rparr>"
      using Cons.IH [of w1 "x # b"] Cons.prems(1,4,5) True b by (auto simp: w1_def)
    with True b at mk show ?thesis by (simp add: w1_def)
  qed
qed simp

section \<open>Properties\<close>

text \<open>
  the file of a symbol is created together with all directories on the way to it: below a
  directory where files may be made, and where no other file is in the place of a directory, the
  file is there and empty in the end; the directories are only added to, and no other file changes.
\<close>

theorem touch_makes_file:
  assumes "dir \<in> fs_dirs w" "\<forall>f. fs_opens w f" "path \<noteq> []" "hd path \<noteq> CHR ''/''"
    and "\<forall>p \<in> set (prefixes_at (CHR ''/'') [] path). fs_files w (dir @ ''/'' @ p) = None"
  shows "\<exists>w'. touch dir path w = Inr w' \<and> fs_files w' = (fs_files w)(dir @ ''/'' @ path := Some []) \<and>
    has_parent w' (dir @ ''/'' @ path) \<and> fs_dirs w \<subseteq> fs_dirs w' \<and>
    fs_dirs w' \<subseteq> fs_dirs w \<union> (\<lambda>p. dir @ ''/'' @ p) ` set (prefixes_at (CHR ''/'') [] path)"
proof -
  let ?f = "dir @ ''/'' @ path" and ?ps = "prefixes_at (CHR ''/'') [] path"
  have at: "at_dir dir path = ?f" using assms(3,4) by (cases path) (auto simp: at_dir_def)
  show ?thesis
  proof (cases "has_parent w ?f")
    case True
    then show ?thesis using assms(2) by (simp add: touch_def at open_empty_def write_file_def)
  next
    case False
    have "has_parent w (dir @ ''/'')" using assms(1) by (simp add: has_parent_slash)
    then obtain w' where w': "make_dirs_for dir ?ps w = Inr w'" "has_parent w' ?f"
      "w' = w\<lparr>fs_dirs := fs_dirs w \<union> (\<lambda>p. dir @ ''/'' @ p) ` set ?ps\<rparr>"
      using make_dirs [of w dir "[]" path] assms(2,4,5) by auto
    have o: "fs_opens w' ?f" using assms(2) w'(3) by simp
    have "touch dir path w = Inr (write_file ?f [] w')"
      using False w'(1,2) o by (simp add: touch_def at open_empty_def)
    with w'(2) show ?thesis by (auto simp: w'(3) write_file_def)
  qed
qed

theorem touch_makes_file_witness:
  "\<exists>w'. touch ''d'' (symbol_path ''FOO_BAR'') \<lparr>fs_files = Map.empty, fs_dirs = {''d''}, fs_opens = (\<lambda>f. True), fs_renames = (\<lambda>a b. True)\<rparr> = Inr w' \<and>
     fs_files w' = [''d/foo/bar.h'' \<mapsto> []]"
proof -
  have p: "symbol_path ''FOO_BAR'' = ''foo/bar.h''" by code_simp
  show ?thesis
    unfolding p using touch_makes_file [of "''d''"
      "\<lparr>fs_files = Map.empty, fs_dirs = {''d''}, fs_opens = (\<lambda>f. True), fs_renames = (\<lambda>a b. True)\<rparr>" "''foo/bar.h''"]
    by auto
qed

end
