(* ===== verification/Kroundtrip.thy ===== *)
theory Kroundtrip
  imports Kconfwrite
begin

text \<open>
  Writing and reading together: what \<open>conf_write\<close> prints for a symbol is what \<open>conf_read\<close> takes for the
  value of the user, and nothing else in the file is read as a value.
\<close>

section \<open>Lines\<close>

definition good_name :: "cstring \<Rightarrow> cstring \<Rightarrow> bool" where
  "good_name pre n \<longleftrightarrow> n \<noteq> [] \<and>
     set (pre @ n) \<inter> {CHR '' '', CHR ''='', CHR ''#'', CHR 0x0A, CHR 0x00} = {}"

text \<open>The values that can be read again; the others are printed all the same.\<close>

fun value_ok :: "symbol_type \<Rightarrow> cstring \<Rightarrow> bool" where
  "value_ok S_BOOLEAN v \<longleftrightarrow> v = ''y'' \<or> v = ''n''"
| "value_ok S_TRISTATE v \<longleftrightarrow> v = ''y'' \<or> v = ''m'' \<or> v = ''n''"
| "value_ok S_STRING v \<longleftrightarrow> CHR 0x0A \<notin> set v \<and> CHR 0x00 \<notin> set v"
| "value_ok S_INT v \<longleftrightarrow> int_valid v"
| "value_ok S_HEX v \<longleftrightarrow> hex_valid v"
| "value_ok _ v \<longleftrightarrow> False"

definition printed :: "symbol_type \<Rightarrow> cstring \<Rightarrow> cstring" where
  "printed type v = (if type = S_STRING then sym_escape_string_value v else v)"

definition symbol_line :: "cstring \<Rightarrow> symbol \<Rightarrow> cstring \<Rightarrow> cstring" where
  "symbol_line pre s v = kconfig_print_symbol pre s (printed (s_type s) v) False"

definition holds_value :: "symbol \<Rightarrow> cstring \<Rightarrow> bool" where
  "holds_value s v \<longleftrightarrow> sym_has_value s \<and>
     (if is_tri (s_type s) then tri_string (snd (s_user s)) = v else fst (s_user s) = V_str v)"

text \<open>Only \<open>r\<close> and symbols of choices may change.\<close>

definition others_same :: "symref \<Rightarrow> symtab \<Rightarrow> symtab \<Rightarrow> bool" where
  "others_same r st st' \<longleftrightarrow> (\<forall>q. q \<noteq> r \<longrightarrow> \<not> sym_is_choice (syms st q) \<longrightarrow>
     s_user (syms st' q) = s_user (syms st q) \<and> sym_has_value (syms st' q) = sym_has_value (syms st q))"

lemma first_is_append: "first_is c (pre @ n @ s) \<Longrightarrow> n \<noteq> [] \<Longrightarrow> c \<in> set (pre @ n)"
  by (cases pre; cases n) (auto simp: first_is_def)

lemma good_nameD:
  assumes "good_name pre n"
  shows "CHR '' '' \<notin> set n" "CHR ''='' \<notin> set n" "CHR 0x0A \<notin> set n" "CHR 0x00 \<notin> set n"
    "CHR 0x0A \<notin> set pre" "CHR 0x00 \<notin> set pre" "\<not> first_is (CHR ''#'') (pre @ n @ s)"
  using assms first_is_append [of "CHR ''#''" pre n s] by (auto simp: good_name_def)

lemma unset_name_line: "good_name pre n \<Longrightarrow> unset_name pre (''# '' @ pre @ n @ '' is not set'' @ NL) = Some n"
  using strchr_split_hit [of "CHR '' ''" n "''is not set'' @ NL"] good_nameD(1) [of pre n]
  by (simp add: unset_name_def)

lemma strip_eol_line: "CHR 0x0A \<notin> set v \<Longrightarrow> CHR 0x0D \<noteq> last v \<Longrightarrow> strip_eol (v @ NL) = v"
  using strchr_split_hit [of "CHR 0x0A" v "[]"] by (auto simp: strip_eol_def)

lemma assigned_line:
  assumes "good_name pre n" "CHR 0x0A \<notin> set v" "CHR 0x0D \<noteq> last v"
  shows "assigned pre (pre @ n @ ''='' @ v @ NL) = Some (n, v)"
  using strchr_split_hit [of "CHR ''=''" n "v @ NL"] good_nameD(2) [OF assms(1)] strip_eol_line [OF assms(2,3)]
  by (simp add: assigned_def)

lemma escape_loop_set: "set (escape_loop s) \<subseteq> insert (CHR 0x5C) (set s)"
proof (induction s rule: escape_loop.induct)
  case (1 p)
  define l t where "l = takeWhile (\<lambda>c. \<not> needs_escape c) p" and "t = dropWhile (\<lambda>c. \<not> needs_escape c) p"
  have p: "p = l @ t" by (simp add: l_def t_def)
  have e: "escape_loop p = (case t of [] \<Rightarrow> l | c # r \<Rightarrow> l @ CHR 0x5C # c # escape_loop r)"
    unfolding l_def t_def by (rule escape_loop.simps [unfolded Let_def])
  show ?case
  proof (cases t)
    case (Cons c r)
    have "set (escape_loop r) \<subseteq> insert (CHR 0x5C) (set r)"
      by (rule "1.IH" [OF l_def Cons [unfolded t_def]])
    with e p Cons show ?thesis by auto
  qed (use e p in auto)
qed

lemma not_xdigit: "\<not> c_isxdigit (CHR 0x0A)" "\<not> c_isxdigit (CHR 0x0D)" "\<not> c_isxdigit (CHR 0x00)"
  by (simp_all add: ctype_defs)

lemma digits_no_nl:
  assumes "list_all c_isxdigit ds" "ds \<noteq> []"
  shows "CHR 0x0A \<notin> set ds" "CHR 0x00 \<notin> set ds" "CHR 0x0D \<noteq> last ds"
proof -
  have "c_isxdigit c" if "c \<in> set ds" for c
    using assms(1) that by (simp add: list_all_iff)
  then show "CHR 0x0A \<notin> set ds" "CHR 0x00 \<notin> set ds" "CHR 0x0D \<noteq> last ds"
    using last_in_set [OF assms(2)] not_xdigit by metis+
qed

lemma printed_line:
  assumes "value_ok type v"
  shows "CHR 0x0A \<notin> set (printed type v)" "CHR 0x00 \<notin> set (printed type v)" "printed type v \<noteq> []"
    "CHR 0x0D \<noteq> last (printed type v)"
proof -
  have "CHR 0x0A \<notin> set (printed type v) \<and> CHR 0x00 \<notin> set (printed type v) \<and> printed type v \<noteq> [] \<and>
      CHR 0x0D \<noteq> last (printed type v)"
  proof (cases type)
    case S_STRING
    with assms escape_loop_set [of v] show ?thesis
      by (auto simp: printed_def sym_escape_string_value_def)
  next
    case S_INT
    with assms obtain ds where v: "v = ds \<or> v = CHR ''-'' # ds" "list_all c_isdigit ds" "ds \<noteq> []"
      by (auto simp: int_valid_digits)
    have "list_all c_isxdigit ds" using v(2) by (auto simp: list_all_iff c_isxdigit_def)
    from digits_no_nl [OF this v(3)] v S_INT show ?thesis
      by (auto simp: printed_def)
  next
    case S_HEX
    with assms obtain ds where v: "v = ds \<or> v = CHR ''0'' # CHR ''x'' # ds \<or> v = CHR ''0'' # CHR ''X'' # ds"
      "list_all c_isxdigit ds" "ds \<noteq> []"
      by (auto simp: hex_valid_iff)
    from digits_no_nl [OF v(2,3)] v S_HEX show ?thesis
      by (auto simp: printed_def)
  qed (use assms in \<open>auto simp: printed_def\<close>)
  then show "CHR 0x0A \<notin> set (printed type v)" "CHR 0x00 \<notin> set (printed type v)" "printed type v \<noteq> []"
    "CHR 0x0D \<noteq> last (printed type v)" by blast+
qed

section \<open>Reading the line of a symbol\<close>

lemma warn_override_syms [simp]: "rd_sym (warn_override d r rd) = rd_sym rd"
  by (auto simp: warn_override_def conf_warning_def rd_sym_def)

lemma others_same_upd: "others_same r st (upd_sym r f st)"
  by (simp add: others_same_def)

lemma others_same_trans:
  assumes "others_same r a b" "others_same r b c" "frames a b"
  shows "others_same r a c"
  using assms same_frameD(5) [OF framesD(3) [OF assms(3)]] by (simp add: others_same_def)

text \<open>The state of a choice is kept in the choice.\<close>

lemma set_choice_state_syms:
  assumes "config_ok (rd_tab rd)" "r \<in> refs (rd_tab rd)" "set_choice_state S_DEF_USER r rd = Some rd'"
    and "\<not> sym_is_choice (rd_sym rd q)"
  shows "rd_sym rd' q = rd_sym rd q"
proof (cases "sym_is_choice_value (rd_sym rd r)")
  case True
  obtain p c where p: "sym_get_choice_prop (rd_sym rd r) = Some p" "prop_get_symbol p = Some c"
    using assms(3) True by (auto simp: set_choice_state_def Let_def split: bind_splits)
  have "sym_is_choice (rd_sym rd c)"
    using assms(1,2) True p by (auto simp: config_ok_def members_linked_def rd_sym_def)
  with assms(4) have "q \<noteq> c" by auto
  then show ?thesis
    using assms(3) True p
    by (auto simp: set_choice_state_def Let_def rd_sym_def set_def_tri_def set_def_val_def clear_flags_def
        conf_warning_def split: tristate.splits if_splits)
qed (use assms(3) in \<open>simp add: set_choice_state_def\<close>)

text \<open>The value as it is stored.\<close>

lemma set_sym_val_holds:
  assumes "value_ok (s_type (rd_sym rd r)) v"
    and "\<not> (is_tri (s_type (rd_sym rd r)) \<and> v = ''n'')"
  shows "\<exists>rd'. conf_set_sym_val S_DEF_USER r (printed (s_type (rd_sym rd r)) v) rd = (False, rd') \<and>
    holds_value (rd_sym rd' r) v \<and> (\<forall>q. q \<noteq> r \<longrightarrow> rd_sym rd' q = rd_sym rd q)"
proof (cases "s_type (rd_sym rd r)")
  case S_STRING
  have "conf_unescape (tl (sym_escape_string_value v)) = Some v"
    using unescape_escape_loop [of v "[]"] by (simp add: sym_escape_string_value_def)
  then show ?thesis
    using S_STRING
    by (simp add: conf_set_sym_val_def printed_def set_quoted_val_def set_text_val_def first_is_def
        sym_escape_string_value_def)
      (simp add: rd_sym_def set_flags_def set_def_val_def holds_value_def sym_has_value_def is_tri_def)
qed (use assms in \<open>auto simp: conf_set_sym_val_def printed_def set_bool_val_def set_tri_val_def set_text_val_def
      first_is_def is_tri_def rd_sym_def set_flags_def set_def_tri_def set_def_val_def holds_value_def
      sym_has_value_def split: if_splits\<close>)

text \<open>
  The line of a symbol sets the value of that symbol if it can be read again, and of no other
  outside of choices in any case.
\<close>

definition line_sets :: "symref \<Rightarrow> cstring \<Rightarrow> symtab \<Rightarrow> symtab \<Rightarrow> bool" where
  "line_sets r v st st' \<longleftrightarrow> reads st st' \<and> others_same r st st' \<and>
     (value_ok (s_type (syms st r)) v \<longrightarrow> holds_value (syms st' r) v)"

lemma invalid_value_syms [simp]: "rd_sym (invalid_value d r p rd) = rd_sym rd"
  by (auto simp: invalid_value_def conf_warning_def rd_sym_def)

lemma set_sym_val_others:
  "q \<noteq> r \<Longrightarrow> rd_sym (snd (conf_set_sym_val S_DEF_USER r p rd)) q = rd_sym rd q"
  by (cases "s_type (rd_sym rd r)")
    (auto simp: conf_set_sym_val_def set_bool_val_def set_tri_val_def set_text_val_def set_quoted_val_def
      rd_sym_def set_flags_def set_def_tri_def set_def_val_def invalid_value_def conf_warning_def
      split: option.splits)

definition safe_value :: "symbol_type \<Rightarrow> cstring \<Rightarrow> bool" where
  "safe_value type v \<longleftrightarrow> CHR 0x0A \<notin> set v \<and> CHR 0x00 \<notin> set v"

lemma safe_printed:
  assumes "safe_value type v"
  shows "CHR 0x0A \<notin> set (printed type v)" "CHR 0x00 \<notin> set (printed type v)"
  using assms escape_loop_set [of v] by (auto simp: safe_value_def printed_def sym_escape_string_value_def)

lemma ok_safe:
  assumes "value_ok type v"
  shows "safe_value type v"
  using assms printed_line [OF assms] by (cases type) (auto simp: printed_def safe_value_def)

lemma assigned_some:
  assumes "good_name pre n"
  shows "\<exists>w. assigned pre (pre @ n @ ''='' @ v @ NL) = Some (n, w)"
  using strchr_split_hit [of "CHR ''=''" n "v @ NL"] good_nameD(2) [OF assms] by (simp add: assigned_def)

lemma read_symbol_line:
  assumes ok: "config_ok (rd_tab rd)" and r: "\<not> sym_is_choice (rd_sym rd r)" "s_name (rd_sym rd r) = Some n"
    and n: "good_name pre n" "sym_find (Some n) (rd_tab rd) = Some r"
  shows "\<exists>rd'. conf_read_line S_DEF_USER pre (symbol_line pre (rd_sym rd r) v) rd = Some rd' \<and>
    line_sets r v (rd_tab rd) (rd_tab rd')"
proof -
  let ?line = "symbol_line pre (rd_sym rd r) v"
  define rd1 where "rd1 = rd\<lparr>conf_lineno := conf_lineno rd + 1\<rparr>"
  define rd2 where "rd2 = warn_override S_DEF_USER r rd1"
  have s1: "rd_sym rd1 = rd_sym rd" "rd_tab rd1 = rd_tab rd" by (auto simp: rd1_def rd_sym_def)
  have s2: "rd_sym rd2 = rd_sym rd" by (simp add: rd2_def s1)
  have fr: "r \<in> refs (rd_tab rd)" by (rule find_in_refs [OF ok n(2)])
  have ok2: "config_ok (rd_tab rd2)" "refs (rd_tab rd2) = refs (rd_tab rd)"
    unfolding rd2_def using reads_config [OF override_reads] framesD(2) [OF reads_frames [OF override_reads]] ok s1(2)
    by metis+
  obtain rd' where rd': "conf_read_line S_DEF_USER pre ?line rd = Some rd'" "reads (rd_tab rd) (rd_tab rd')"
    using read_line_total [OF ok] by blast
  have "\<exists>rd3. (set_choice_state S_DEF_USER r rd3 = Some rd' \<or> rd' = rd3) \<and>
      (value_ok (s_type (rd_sym rd r)) v \<longrightarrow> holds_value (rd_sym rd3 r) v) \<and>
      (\<forall>q. q \<noteq> r \<longrightarrow> rd_sym rd3 q = rd_sym rd q) \<and> config_ok (rd_tab rd3) \<and> r \<in> refs (rd_tab rd3)"
  proof (cases "is_tri (s_type (rd_sym rd r)) \<and> v = ''n''")
    case True
    then have line: "?line = ''# '' @ pre @ n @ '' is not set'' @ NL"
      using r(2) by (auto simp: symbol_line_def kconfig_print_symbol_def printed_def is_tri_def first_is_def
          name_text_def text_or_empty_def)
    define rd3 where "rd3 = set_tri_val S_DEF_USER r T_no rd2"
    have "conf_read_line S_DEF_USER pre ?line rd = read_unset S_DEF_USER n rd1"
      unfolding conf_read_line_def rd1_def Let_def line unset_name_line [OF n(1)] by (simp add: first_is_def)
    also have "\<dots> = set_choice_state S_DEF_USER r rd3"
      using n(2) True s1 s2 by (simp add: read_unset_def line_symbol_def rd2_def [symmetric] rd3_def)
    finally have "set_choice_state S_DEF_USER r rd3 = Some rd'" using rd'(1) by simp
    moreover have "holds_value (rd_sym rd3 r) v" "q \<noteq> r \<Longrightarrow> rd_sym rd3 q = rd_sym rd q" for q
      using True s2 by (auto simp: rd3_def set_tri_val_def rd_sym_def holds_value_def set_flags_def
          set_def_tri_def sym_has_value_def fun_eq_iff)
    moreover have "reads (rd_tab rd2) (rd_tab rd3)"
      using set_tri_reads [of "rd_tab rd2" r T_no] True fun_cong [OF s2, of r] by (simp add: rd3_def set_tri_val_def rd_sym_def)
    then have "config_ok (rd_tab rd3)" "r \<in> refs (rd_tab rd3)"
      using reads_config ok2 framesD(2) reads_frames fr by metis+
    ultimately show ?thesis by blast
  next
    case False
    let ?v = "printed (s_type (rd_sym rd r)) v"
    have line: "?line = pre @ n @ ''='' @ ?v @ NL" if "\<not> (is_tri (s_type (rd_sym rd r)) \<and> first_is (CHR ''n'') ?v)"
      using r(2) that by (auto simp: symbol_line_def kconfig_print_symbol_def name_text_def text_or_empty_def)
    show ?thesis
    proof (cases "is_tri (s_type (rd_sym rd r)) \<and> first_is (CHR ''n'') ?v")
      case unset: True
      then have line: "?line = ''# '' @ pre @ n @ '' is not set'' @ NL"
        using r(2) by (auto simp: symbol_line_def kconfig_print_symbol_def name_text_def text_or_empty_def)
      define rd3 where "rd3 = set_tri_val S_DEF_USER r T_no rd2"
      have "conf_read_line S_DEF_USER pre ?line rd = read_unset S_DEF_USER n rd1"
        unfolding conf_read_line_def rd1_def Let_def line unset_name_line [OF n(1)] by (simp add: first_is_def)
      also have "\<dots> = set_choice_state S_DEF_USER r rd3"
        using n(2) unset s1 s2 by (simp add: read_unset_def line_symbol_def rd2_def [symmetric] rd3_def)
      finally have "set_choice_state S_DEF_USER r rd3 = Some rd'" using rd'(1) by simp
      moreover have "\<not> value_ok (s_type (rd_sym rd r)) v"
        using False unset by (auto simp: is_tri_def printed_def first_is_def)
      moreover have "q \<noteq> r \<Longrightarrow> rd_sym rd3 q = rd_sym rd q" for q
        using fun_cong [OF s2, of q] by (simp add: rd3_def set_tri_val_def rd_sym_def set_flags_def set_def_tri_def)
      moreover have "reads (rd_tab rd2) (rd_tab rd3)"
        using set_tri_reads [of "rd_tab rd2" r T_no] unset fun_cong [OF s2, of r]
        by (simp add: rd3_def set_tri_val_def rd_sym_def)
      then have "config_ok (rd_tab rd3)" "r \<in> refs (rd_tab rd3)"
        using reads_config ok2 framesD(2) reads_frames fr by metis+
      ultimately show ?thesis by blast
    next
      case set: False
      obtain w where w: "assigned pre (pre @ n @ ''='' @ ?v @ NL) = Some (n, w)"
        using assigned_some [OF n(1)] by blast
      obtain b rd3 where 3: "conf_set_sym_val S_DEF_USER r w rd2 = (b, rd3)" by fastforce
      have holds: "\<not> b \<and> holds_value (rd_sym rd3 r) v" if v: "value_ok (s_type (rd_sym rd r)) v"
      proof -
        have "w = ?v" using w assigned_line [OF n(1) printed_line(1,4) [OF v]] by simp
        then show ?thesis
          using set_sym_val_holds [of rd2 r v] v False 3 unfolding s2 by auto
      qed
      have "conf_read_line S_DEF_USER pre ?line rd = read_assigned S_DEF_USER n w rd1"
        unfolding conf_read_line_def rd1_def Let_def line [OF set] w
        using good_nameD(7) [OF n(1)] by simp
      also have "\<dots> = (if b then Some rd3 else set_choice_state S_DEF_USER r rd3)"
        using n(2) s1 3 by (simp add: read_assigned_def line_symbol_def rd2_def [symmetric])
      finally have "set_choice_state S_DEF_USER r rd3 = Some rd' \<or> rd' = rd3"
        using rd'(1) by (auto split: if_splits)
      moreover have "reads (rd_tab rd2) (rd_tab rd3)"
        using conf_set_sym_val_reads [OF ok2(1), of r w] ok2(2) fr 3 by simp
      then have "config_ok (rd_tab rd3)" "r \<in> refs (rd_tab rd3)"
        using reads_config ok2 framesD(2) reads_frames fr by metis+
      moreover have "rd_sym rd3 q = rd_sym rd q" if "q \<noteq> r" for q
        using set_sym_val_others [OF that, of w rd2] 3 fun_cong [OF s2] by simp
      ultimately show ?thesis using holds by blast
    qed
  qed
  then obtain rd3 where 3: "set_choice_state S_DEF_USER r rd3 = Some rd' \<or> rd' = rd3"
    "value_ok (s_type (rd_sym rd r)) v \<longrightarrow> holds_value (rd_sym rd3 r) v"
    "\<forall>q. q \<noteq> r \<longrightarrow> rd_sym rd3 q = rd_sym rd q" "config_ok (rd_tab rd3)" "r \<in> refs (rd_tab rd3)" by blast
  have ch: "sym_is_choice (rd_sym rd' q) = sym_is_choice (rd_sym rd q)" for q
    using same_frameD(5) [OF framesD(3) [OF reads_frames [OF rd'(2)]]] by (simp add: rd_sym_def)
  have "rd_sym rd' q = rd_sym rd3 q" if q: "\<not> sym_is_choice (rd_sym rd q)" for q
  proof (cases "rd' = rd3")
    case False
    with 3(1) have st: "set_choice_state S_DEF_USER r rd3 = Some rd'" by blast
    have "sym_is_choice (rd_sym rd' q) = sym_is_choice (rd_sym rd3 q)"
      using choice_state_total [OF 3(4,5)] st same_frameD(5) [OF framesD(3) [OF reads_frames]]
      by (auto simp: rd_sym_def)
    with ch q have "\<not> sym_is_choice (rd_sym rd3 q)" by simp
    then show ?thesis by (rule set_choice_state_syms [OF 3(4,5) st])
  qed simp
  then show ?thesis
    using rd' 3(2,3) r(1) by (auto simp: line_sets_def others_same_def rd_sym_def)
qed

section \<open>Reading all lines\<close>

datatype cline = Remark cstring | Setting symref cstring

fun cline_text :: "cstring \<Rightarrow> symtab \<Rightarrow> cline \<Rightarrow> cstring" where
  "cline_text pre st (Remark l) = l @ NL"
| "cline_text pre st (Setting r v) = symbol_line pre (syms st r) v"

text \<open>A comment or an empty line that is read over.\<close>

definition remark_ok :: "cstring \<Rightarrow> cstring \<Rightarrow> bool" where
  "remark_ok pre l \<longleftrightarrow> CHR 0x0A \<notin> set l \<and> CHR 0x00 \<notin> set l \<and>
     (l = [] \<or> first_is (CHR ''#'') l \<and> unset_name pre (l @ NL) = None)"

definition setting_ok :: "cstring \<Rightarrow> symtab \<Rightarrow> symref \<Rightarrow> bool" where
  "setting_ok pre st r \<longleftrightarrow> \<not> sym_is_choice (syms st r) \<and>
     (\<exists>n. s_name (syms st r) = Some n \<and> good_name pre n \<and> sym_find (Some n) st = Some r)"

fun cline_ok :: "cstring \<Rightarrow> symtab \<Rightarrow> cline \<Rightarrow> bool" where
  "cline_ok pre st (Remark l) \<longleftrightarrow> remark_ok pre l"
| "cline_ok pre st (Setting r v) \<longleftrightarrow> setting_ok pre st r \<and> safe_value (s_type (syms st r)) v"

lemma symbol_line_form:
  assumes "setting_ok pre st r" "safe_value (s_type (syms st r)) v"
  obtains l where "symbol_line pre (syms st r) v = l @ NL" "CHR 0x0A \<notin> set l" "CHR 0x00 \<notin> set l"
proof -
  obtain n where n: "s_name (syms st r) = Some n" "good_name pre n"
    using assms(1) by (auto simp: setting_ok_def)
  note g = good_nameD [OF n(2)] and p = safe_printed [OF assms(2)]
  have "symbol_line pre (syms st r) v \<in>
      {(''# '' @ pre @ n @ '' is not set'') @ NL, (pre @ n @ ''='' @ printed (s_type (syms st r)) v) @ NL}"
    using n(1) by (simp add: symbol_line_def kconfig_print_symbol_def name_text_def text_or_empty_def)
  with that g p show thesis by auto
qed

lemma cline_form:
  assumes "cline_ok pre st c"
  obtains l where "cline_text pre st c = l @ NL" "CHR 0x0A \<notin> set l" "CHR 0x00 \<notin> set l"
proof (cases c)
  case (Remark l)
  with assms that show thesis by (simp add: remark_ok_def)
next
  case (Setting r v)
  then have "setting_ok pre st r" "safe_value (s_type (syms st r)) v" using assms by simp_all
  from symbol_line_form [OF this, of thesis] that Setting show thesis by simp
qed

lemma file_lines_clines:
  "list_all (cline_ok pre st) cs \<Longrightarrow>
   file_lines (concat (map (cline_text pre st) cs)) = map (cline_text pre st) cs"
proof (induction cs)
  case (Cons c cs)
  obtain l where "cline_text pre st c = l @ NL" "CHR 0x0A \<notin> set l" "CHR 0x00 \<notin> set l"
    by (rule cline_form [of pre st c]) (use Cons.prems in simp)
  with Cons file_lines_append [of l] show ?case by simp
qed (simp add: file_lines.simps [of "[]"])

lemma find_frames:
  assumes "frames st st'"
  shows "sym_find name st' = sym_find name st"
proof -
  have "find_matches st' n = find_matches st n" for n
    using same_frameD(9,10) [OF framesD(3) [OF assms]] by (auto simp: find_matches_def fun_eq_iff)
  then show ?thesis using assms by (simp add: sym_find_def frames_def split: option.splits)
qed

lemma setting_frames:
  assumes "frames st st'"
  shows "setting_ok pre st' r = setting_ok pre st r"
    "symbol_line pre (syms st' r) v = symbol_line pre (syms st r) v"
    "s_type (syms st' r) = s_type (syms st r)"
  using same_frameD(1,5,9) [OF framesD(3) [OF assms]] find_frames [OF assms]
  by (simp_all add: setting_ok_def symbol_line_def kconfig_print_symbol_def name_text_def)

lemma remark_read:
  assumes "remark_ok pre l"
  shows "\<exists>rd'. conf_read_line S_DEF_USER pre (l @ NL) rd = Some rd' \<and> rd_tab rd' = rd_tab rd"
proof (cases "l = []")
  case True
  have "assigned pre NL = None" by (cases pre) (auto simp: assigned_def)
  then show ?thesis using True by (simp add: conf_read_line_def first_is_def Let_def conf_warning_def)
next
  case False
  then show ?thesis using assms by (auto simp: conf_read_line_def remark_ok_def first_is_def)
qed

text \<open>After all lines each symbol with a line has the value of that line.\<close>

definition agree :: "cline list \<Rightarrow> bool" where
  "agree cs \<longleftrightarrow> (\<forall>r v w. Setting r v \<in> set cs \<longrightarrow> Setting r w \<in> set cs \<longrightarrow> v = w)"

lemma clines_read:
  "config_ok (rd_tab rd) \<Longrightarrow> list_all (cline_ok pre (rd_tab rd)) cs \<Longrightarrow> agree cs \<Longrightarrow>
   \<exists>rd'. fold_opt (conf_read_line S_DEF_USER pre) (map (cline_text pre (rd_tab rd)) cs) rd = Some rd' \<and>
     reads (rd_tab rd) (rd_tab rd') \<and>
     (\<forall>r v. Setting r v \<in> set cs \<longrightarrow> value_ok (s_type (syms (rd_tab rd) r)) v \<longrightarrow>
        holds_value (syms (rd_tab rd') r) v) \<and>
     (\<forall>r. \<not> sym_is_choice (syms (rd_tab rd) r) \<longrightarrow> (\<forall>v. Setting r v \<notin> set cs) \<longrightarrow>
        s_user (syms (rd_tab rd') r) = s_user (syms (rd_tab rd) r) \<and>
        sym_has_value (syms (rd_tab rd') r) = sym_has_value (syms (rd_tab rd) r))"
proof (induction cs rule: rev_induct)
  case (snoc c cs)
  have "agree cs" using snoc.prems(3) by (auto simp: agree_def)
  with snoc obtain rd1 where 1: "fold_opt (conf_read_line S_DEF_USER pre) (map (cline_text pre (rd_tab rd)) cs) rd = Some rd1"
    "reads (rd_tab rd) (rd_tab rd1)"
    "\<And>r v. Setting r v \<in> set cs \<Longrightarrow> value_ok (s_type (syms (rd_tab rd) r)) v \<Longrightarrow> holds_value (syms (rd_tab rd1) r) v"
    "\<And>r. \<not> sym_is_choice (syms (rd_tab rd) r) \<Longrightarrow> \<forall>v. Setting r v \<notin> set cs \<Longrightarrow>
        s_user (syms (rd_tab rd1) r) = s_user (syms (rd_tab rd) r) \<and>
        sym_has_value (syms (rd_tab rd1) r) = sym_has_value (syms (rd_tab rd) r)"
    by auto
  have ok1: "config_ok (rd_tab rd1)" by (rule reads_config [OF 1(2) snoc.prems(1)])
  note f1 = reads_frames [OF 1(2)]
  have ch1: "sym_is_choice (syms (rd_tab rd1) q) = sym_is_choice (syms (rd_tab rd) q)" for q
    using same_frameD(5) [OF framesD(3) [OF f1]] by simp
  show ?case
  proof (cases c)
    case (Remark l)
    then obtain rd' where "conf_read_line S_DEF_USER pre (l @ NL) rd1 = Some rd'" "rd_tab rd' = rd_tab rd1"
      using remark_read [of pre l rd1] snoc.prems(2) by auto
    with 1 Remark show ?thesis by (simp add: fold_opt_append)
  next
    case (Setting r v)
    have r: "setting_ok pre (rd_tab rd) r" using snoc.prems(2) Setting by simp
    obtain n where n: "s_name (rd_sym rd1 r) = Some n" "good_name pre n" "sym_find (Some n) (rd_tab rd1) = Some r"
      "\<not> sym_is_choice (rd_sym rd1 r)"
      using r setting_frames(1) [OF f1, of pre r] by (auto simp: setting_ok_def rd_sym_def)
    obtain rd' where 2: "conf_read_line S_DEF_USER pre (symbol_line pre (rd_sym rd1 r) v) rd1 = Some rd'"
      "line_sets r v (rd_tab rd1) (rd_tab rd')"
      using read_symbol_line [OF ok1 n(4,1,2,3)] by blast
    have step: "fold_opt (conf_read_line S_DEF_USER pre) (map (cline_text pre (rd_tab rd)) (cs @ [c])) rd = Some rd'"
      using 1(1) 2(1) Setting setting_frames(2) [OF f1] by (simp add: fold_opt_append rd_sym_def)
    have other: "s_user (syms (rd_tab rd') q) = s_user (syms (rd_tab rd1) q) \<and>
        sym_has_value (syms (rd_tab rd') q) = sym_has_value (syms (rd_tab rd1) q)"
      if "q \<noteq> r" "\<not> sym_is_choice (syms (rd_tab rd) q)" for q
      using 2(2) that ch1 by (simp add: line_sets_def others_same_def)
    have ty: "s_type (syms (rd_tab rd') q) = s_type (syms (rd_tab rd1) q)" for q
      using 2(2) setting_frames(3) [OF reads_frames] by (simp add: line_sets_def)
    have holds: "holds_value (syms (rd_tab rd') q) w"
      if q: "Setting q w \<in> set (cs @ [c])" "value_ok (s_type (syms (rd_tab rd) q)) w" for q w
    proof (cases "q = r")
      case True
      have "Setting r v \<in> set (cs @ [c])" using Setting by simp
      with q(1) snoc.prems(3) True have "w = v" unfolding agree_def by blast
      with 2(2) q(2) True setting_frames(3) [OF f1] show ?thesis by (simp add: line_sets_def)
    next
      case False
      with q Setting have "Setting q w \<in> set cs" by auto
      moreover have "\<not> sym_is_choice (syms (rd_tab rd) q)"
        using snoc.prems(2) q(1) by (fastforce simp: list_all_iff setting_ok_def)
      ultimately show ?thesis
        using 1(3) [OF _ q(2)] other [OF False] ty by (simp add: holds_value_def)
    qed
    have "s_user (syms (rd_tab rd') q) = s_user (syms (rd_tab rd) q) \<and>
        sym_has_value (syms (rd_tab rd') q) = sym_has_value (syms (rd_tab rd) q)"
      if "\<not> sym_is_choice (syms (rd_tab rd) q)" "\<forall>v. Setting q v \<notin> set (cs @ [c])" for q
      using that 1(4) [OF that(1)] other [OF _ that(1)] Setting by auto
    with step holds reads_trans [OF 1(2)] 2(2) show ?thesis unfolding line_sets_def by blast
  qed
qed simp

end
