(* ===== verification/Kwritten.thy ===== *)
theory Kwritten
  imports Kroundtrip
begin

text \<open>
  What \<open>conf_write\<close> prints, and that reading it gives the values back: the loop over the entries of a
  forest ends, the text is a list of lines of \<open>Kroundtrip\<close>, and each value in it is the one the
  symbol has in the end.
\<close>

section \<open>Tables whose symbols are all calculated\<close>

definition calculated :: "symtab \<Rightarrow> bool" where
  "calculated st \<longleftrightarrow> (\<forall>r \<in> refs st. SYMBOL_VALID \<in> s_flags (syms st r))"

text \<open>Then nothing is calculated again: reading a value leaves the table as it is.\<close>

lemma calculated_calc: "calculated st \<Longrightarrow> r \<in> refs st \<Longrightarrow> sym_calc_value r st = Some st"
  by (rule calc_value_valid) (simp add: calculated_def)

lemma calculated_text:
  assumes "wf_symtab st" "calculated st"
  shows "sym_get_string_value sym_calc_value r st = Some (value_text st r, st)"
proof -
  obtain m where m: "m \<in> refs st" "modules_sym st = Some m" using assms(1) by (auto simp: wf_symtab_def)
  then show ?thesis
    using calculated_calc [OF assms(2) m(1)]
    by (simp add: sym_get_string_value_def value_text_def Let_def sym_get_tristate_value_def split: tristate.split)
qed

lemma calculated_expr:
  assumes "wf_symtab st" "calculated st"
  shows "expr_syms x \<subseteq> refs st \<Longrightarrow> expr_calc_value sym_calc_value x st = Some (expr_val (view st) x, st)"
  by (induction x rule: expr_syms.induct)
    (simp_all add: calculated_calc [OF assms(2)] calculated_text [OF assms], simp_all add: view_def)

lemma calculated_opt:
  "wf_symtab st \<Longrightarrow> calculated st \<Longrightarrow> opt_in st e \<Longrightarrow>
   calc_opt sym_calc_value e st = Some (expr_val_opt (view st) e, st)"
  using calculated_expr by (auto simp: calc_opt_def opt_in_def split: option.split)

lemma calculated_first_visible:
  "wf_symtab st \<Longrightarrow> calculated st \<Longrightarrow> \<forall>p \<in> set ps. prop_ok st p \<Longrightarrow>
   first_visible sym_calc_value ps st = Some (x, st') \<Longrightarrow> st' = st"
  by (induction ps) (auto simp: prop_ok_def calculated_opt split: if_splits)

section \<open>States while a configuration is written\<close>

text \<open>
  Calculated values stay, with the dependencies they were calculated from and, but for members of a choice, the
  visibility; flags that are no part of them may change. In a table whose symbols are all calculated nothing
  but \<open>SYMBOL_DEF_USER\<close> and \<open>SYMBOL_WRITE\<close> changes.
\<close>

definition unchanged :: "symtab \<Rightarrow> symtab \<Rightarrow> bool" where
  "unchanged st st' \<longleftrightarrow> vis_tri st' = vis_tri st \<and> modules_val st' = modules_val st \<and>
     (\<forall>r. (syms st' r)\<lparr>s_flags := {}\<rparr> = (syms st r)\<lparr>s_flags := {}\<rparr> \<and>
        s_flags (syms st' r) - {SYMBOL_DEF_USER, SYMBOL_WRITE} = s_flags (syms st r) - {SYMBOL_DEF_USER, SYMBOL_WRITE})"

definition keeps :: "symtab \<Rightarrow> symtab \<Rightarrow> bool" where
  "keeps st st' \<longleftrightarrow> frames st st' \<and>
     (\<forall>r. SYMBOL_VALID \<in> s_flags (syms st r) \<longrightarrow> SYMBOL_VALID \<in> s_flags (syms st' r) \<and> same_value (syms st r) (syms st' r)) \<and>
     (calculated st \<longrightarrow> unchanged st st')"

lemma unchangedD:
  assumes "unchanged st st'"
  shows "vis_tri st' = vis_tri st" "modules_val st' = modules_val st" "s_curr (syms st' r) = s_curr (syms st r)"
    and "s_visible (syms st' r) = s_visible (syms st r)" "s_rev_dep (syms st' r) = s_rev_dep (syms st r)"
    and "s_dir_dep (syms st' r) = s_dir_dep (syms st r)" "s_user (syms st' r) = s_user (syms st r)"
    and "s_type (syms st' r) = s_type (syms st r)" "s_name (syms st' r) = s_name (syms st r)"
    and "s_props (syms st' r) = s_props (syms st r)"
    and "f \<noteq> SYMBOL_DEF_USER \<Longrightarrow> f \<noteq> SYMBOL_WRITE \<Longrightarrow> f \<in> s_flags (syms st' r) \<longleftrightarrow> f \<in> s_flags (syms st r)"
proof -
  have e: "(syms st' r)\<lparr>s_flags := {}\<rparr> = (syms st r)\<lparr>s_flags := {}\<rparr>" using assms by (simp add: unchanged_def)
  show "s_curr (syms st' r) = s_curr (syms st r)" "s_visible (syms st' r) = s_visible (syms st r)"
    "s_rev_dep (syms st' r) = s_rev_dep (syms st r)" "s_dir_dep (syms st' r) = s_dir_dep (syms st r)"
    "s_user (syms st' r) = s_user (syms st r)" "s_type (syms st' r) = s_type (syms st r)"
    "s_name (syms st' r) = s_name (syms st r)" "s_props (syms st' r) = s_props (syms st r)"
    using arg_cong [OF e, of s_curr] arg_cong [OF e, of s_visible] arg_cong [OF e, of s_rev_dep]
      arg_cong [OF e, of s_dir_dep] arg_cong [OF e, of s_user] arg_cong [OF e, of s_type] arg_cong [OF e, of s_name]
      arg_cong [OF e, of s_props] by simp_all
  show "f \<in> s_flags (syms st' r) \<longleftrightarrow> f \<in> s_flags (syms st r)" if "f \<noteq> SYMBOL_DEF_USER" "f \<noteq> SYMBOL_WRITE"
    using assms that unfolding unchanged_def by blast
qed (use assms in \<open>simp_all add: unchanged_def\<close>)

lemma unchanged_refl [simp]: "unchanged st st"
  by (simp add: unchanged_def)

lemma unchanged_trans: "unchanged a b \<Longrightarrow> unchanged b c \<Longrightarrow> unchanged a c"
  by (simp add: unchanged_def)

lemma keeps_refl [simp]: "keeps st st"
  by (simp add: keeps_def same_value_def)

lemma keepsD:
  assumes "keeps st st'"
  shows "frames st st'"
    and "SYMBOL_VALID \<in> s_flags (syms st r) \<Longrightarrow> SYMBOL_VALID \<in> s_flags (syms st' r)"
    and "SYMBOL_VALID \<in> s_flags (syms st r) \<Longrightarrow> s_curr (syms st' r) = s_curr (syms st r)"
    and "calculated st \<Longrightarrow> unchanged st st'" "calculated st \<Longrightarrow> calculated st'"
  using assms framesD(2) [of st st'] by (auto simp: keeps_def same_value_def calculated_def)

lemma keeps_trans:
  assumes "keeps a b" "keeps b c"
  shows "keeps a c"
proof -
  have "same_value (syms a r) (syms c r)" if "SYMBOL_VALID \<in> s_flags (syms a r)" for r
    using assms that same_frameD(6) [OF framesD(3) [OF keepsD(1) [OF assms(1)]], of r]
    unfolding keeps_def same_value_def by metis
  then show ?thesis
    using frames_trans [OF keepsD(1) [OF assms(1)] keepsD(1) [OF assms(2)]] keepsD(2) [OF assms(1)] keepsD(2) [OF assms(2)]
      unchanged_trans [OF keepsD(4) [OF assms(1)] keepsD(4) [OF assms(2)]] keepsD(5) [OF assms(1)]
    by (simp add: keeps_def)
qed

lemma keeps_frames: "keeps st st' \<Longrightarrow> frames st st'"
  by (rule keepsD(1))

lemma keeps_wf: "keeps st st' \<Longrightarrow> wf_symtab st \<Longrightarrow> wf_symtab st'"
  using frames_wf keeps_frames by blast

lemma evolves_keeps:
  assumes "evolves {} st st'" "calculated st \<Longrightarrow> unchanged st st'"
  shows "keeps st st'"
proof -
  have "sym_step False (syms st r) (syms st' r)" for r using evolvesD(4) [OF assms(1), of r] by simp
  then show ?thesis
    using evolves_frames [OF assms(1)] assms(2) by (auto simp: keeps_def sym_step_def)
qed

lemma flag_keeps: "keeps st (set_flags r {SYMBOL_DEF_USER} st)" "keeps st (clear_flags r {SYMBOL_WRITE} st)"
proof -
  show "keeps st (set_flags r {SYMBOL_DEF_USER} st)"
    using frames_set_flags [of "{SYMBOL_DEF_USER}" st r]
    by (auto simp: keeps_def set_flags_def same_value_def sym_is_choice_value_def unchanged_def upd_sym_def)
  show "keeps st (clear_flags r {SYMBOL_WRITE} st)"
    by (rule evolves_keeps [OF evolves_clear_flags]) (auto simp: unchanged_def clear_flags_def upd_sym_def)
qed

text \<open>What reads values, and leaves such a state.\<close>

definition peeks :: "symtab \<Rightarrow> ('a \<times> symtab) option \<Rightarrow> bool" where
  "peeks st m \<longleftrightarrow> (\<exists>v st'. m = Some (v, st') \<and> keeps st st')"

lemma peeks_Some [simp]: "peeks st (Some (v, st')) \<longleftrightarrow> keeps st st'"
  by (simp add: peeks_def)

lemma peeksE:
  assumes "peeks st m"
  obtains v st' where "m = Some (v, st')" "keeps st st'"
  using assms by (auto simp: peeks_def)

lemma runs_peeks:
  assumes "runs {} st m" "\<And>v st'. calculated st \<Longrightarrow> m = Some (v, st') \<Longrightarrow> st' = st"
  shows "peeks st m"
proof -
  obtain v st' where "m = Some (v, st')" "evolves {} st st'" by (rule runsE [OF assms(1)])
  with assms(2) show ?thesis by (auto simp: peeks_def intro: evolves_keeps)
qed

lemma wf_ready: "wf_symtab st \<Longrightarrow> ready (todo st) st"
  by (simp add: ready_def)

lemma calc_peeks:
  assumes "wf_symtab st" "r \<in> refs st"
  obtains st' where "sym_calc_value r st = Some st'" "keeps st st'"
proof -
  obtain st' where "sym_calc_value r st = Some st'" "evolves {} st st'" by (rule movesE [OF calc_value_moves [OF assms]])
  with calculated_calc [OF _ assms(2)] show ?thesis by (intro that [of st']) (auto intro: evolves_keeps)
qed

lemma expr_peeks: "wf_symtab st \<Longrightarrow> expr_syms x \<subseteq> refs st \<Longrightarrow> peeks st (expr_calc_value sym_calc_value x st)"
  using calculated_expr by (intro runs_peeks expr_runs [OF calc_value_ok wf_ready]) auto

lemma opt_peeks: "wf_symtab st \<Longrightarrow> opt_in st e \<Longrightarrow> peeks st (calc_opt sym_calc_value e st)"
  using calculated_opt by (intro runs_peeks calc_opt_runs [OF calc_value_ok wf_ready]) auto

lemma string_peeks: "wf_symtab st \<Longrightarrow> peeks st (sym_get_string_value sym_calc_value q st)"
  using calculated_text by (intro runs_peeks get_string_runs [OF calc_value_ok wf_ready]) auto

lemma range_peeks:
  "wf_symtab st \<Longrightarrow> \<forall>p \<in> set (props_of P_RANGE (syms st q)). prop_ok st p \<Longrightarrow>
   peeks st (sym_get_range_prop sym_calc_value q st)"
  unfolding sym_get_range_prop_def
  using calculated_first_visible by (intro runs_peeks first_visible_runs [OF calc_value_ok wf_ready]) auto

section \<open>Visibility of entries\<close>

text \<open>What the parser makes of an entry.\<close>

definition entry_ok :: "symtab \<Rightarrow> menu \<Rightarrow> bool" where
  "entry_ok st x \<longleftrightarrow> opt_in st (mn_visibility x) \<and>
     (case mn_sym x of
        Some r \<Rightarrow> r \<in> refs st
      | None \<Rightarrow> (case mn_prompt x of
          None \<Rightarrow> True
        | Some (P_own p) \<Rightarrow> opt_in st (p_visible p)
        | Some (P_at i) \<Rightarrow> False))"

lemma entry_ok_frames:
  assumes "frames st st'"
  shows "entry_ok st' = entry_ok st"
proof -
  have "opt_in st' = opt_in st" by (simp add: opt_in_def framesD(2) [OF assms] fun_eq_iff split: option.splits)
  then show ?thesis
    by (intro ext) (simp add: entry_ok_def framesD(2) [OF assms] split: option.splits prompt.splits)
qed

definition goes :: "kconf \<Rightarrow> ('a \<times> kconf) option \<Rightarrow> bool" where
  "goes k m \<longleftrightarrow> gives m (\<lambda>(v, k'). menus k' = menus k \<and> keeps (tab k) (tab k'))"

lemma goes_Some [simp]: "goes k (Some (v, k')) \<longleftrightarrow> menus k' = menus k \<and> keeps (tab k) (tab k')"
  by (simp add: goes_def)

lemma goes_bind:
  assumes "goes k m" "\<And>v (k' :: kconf). menus k' = menus k \<Longrightarrow> keeps (tab k) (tab k') \<Longrightarrow> goes k' (f (v, k'))"
  shows "goes k (m \<bind> f)"
proof -
  obtain v k1 where 1: "m = Some (v, k1)" "menus k1 = menus k" "keeps (tab k) (tab k1)"
    using assms(1) by (auto simp: goes_def gives_def)
  with assms(2) [OF 1(2,3), of v] keeps_trans [OF 1(3)] show ?thesis
    by (auto simp: goes_def gives_def)
qed

lemma visibility_no_goes:
  assumes "wf_symtab (tab k)" "entry_ok (tab k) (menus k m)"
  shows "goes k (visibility_no m k)"
proof (cases "mn_visibility (menus k m)")
  case (Some e)
  then have e: "expr_syms e \<subseteq> refs (tab k)" using assms(2) by (simp add: entry_ok_def opt_in_def)
  obtain v st where "expr_calc_value sym_calc_value e (tab k) = Some (v, st)" "keeps (tab k) st"
    by (rule peeksE [OF expr_peeks [OF assms(1) e]])
  with Some show ?thesis by (simp add: visibility_no_def)
qed (simp add: visibility_no_def)

lemma prompt_tri_goes:
  assumes "wf_symtab (tab k)" "entry_ok (tab k) (menus k m)" "mn_prompt (menus k m) \<noteq> None"
  shows "goes k (prompt_tri m k)"
proof (cases "mn_sym (menus k m)")
  case (Some r)
  then have "r \<in> refs (tab k)" using assms(2) by (simp add: entry_ok_def)
  then obtain st where "sym_calc_value r (tab k) = Some st" "keeps (tab k) st"
    by (rule calc_peeks [OF assms(1)])
  with Some show ?thesis by (simp add: prompt_tri_def)
next
  case None
  then obtain p where p: "mn_prompt (menus k m) = Some (P_own p)" "opt_in (tab k) (p_visible p)"
    using assms(2,3) by (auto simp: entry_ok_def split: prompt.splits)
  obtain v st where "calc_opt sym_calc_value (p_visible p) (tab k) = Some (v, st)" "keeps (tab k) st"
    by (rule peeksE [OF opt_peeks [OF assms(1) p(2)]])
  with None p(1) show ?thesis by (simp add: prompt_tri_def menu_prompt_def)
qed

text \<open>The search of the entries of a forest ends.\<close>

lemma menu_search_one:
  assumes "wf_symtab (tab k)" "entry_ok (tab k) (menus k m)"
    and below: "\<And>k' :: kconf. menus k' = menus k \<Longrightarrow> keeps (tab k) (tab k') \<Longrightarrow>
      goes k' (menu_search False (mn_list (menus k m)) k')"
  shows "goes k (menu_search True (Some m) k)"
proof (cases "mn_prompt (menus k m) = None")
  case False
  define rest where "rest = (\<lambda>(v :: tristate, k). if v \<noteq> T_no then Some (True, k)
      else case mn_sym (menus k m) of
        None \<Rightarrow> Some (False, k)
      | Some r \<Rightarrow>
          if sym_get_tristate_value (syms (tab k) r) = T_no then Some (False, k)
          else do {
            (v, k) \<leftarrow> menu_search False (mn_list (menus k m)) k;
            if v then Some (True, upd_tab (set_flags r {SYMBOL_DEF_USER}) k) else Some (False, k)
          })"
  have rest: "goes k' (rest (v, k'))" if "menus k' = menus k" "keeps (tab k) (tab k')" for v and k' :: kconf
    using below [OF that] that(1)
    by (auto intro!: goes_bind simp: rest_def flag_keeps upd_tab_def split: option.split)
  have "goes k (visibility_no m k \<bind>
      (\<lambda>(hidden, k). if hidden then Some (False, k) else prompt_tri m k \<bind> rest))"
  proof (rule goes_bind [OF visibility_no_goes [OF assms(1,2)]])
    fix h and k1 :: kconf assume 1: "menus k1 = menus k" "keeps (tab k) (tab k1)"
    have "goes k1 (prompt_tri m k1)"
      using prompt_tri_goes [of k1 m] assms(1,2) False 1 keeps_wf [OF 1(2)] entry_ok_frames [OF keeps_frames [OF 1(2)]]
      by simp
    then have "goes k1 (prompt_tri m k1 \<bind> rest)"
      by (rule goes_bind) (use rest 1 keeps_trans [OF 1(2)] in simp)
    then show "goes k1 (case (h, k1) of (hidden, k) \<Rightarrow>
        if hidden then Some (False, k) else prompt_tri m k \<bind> rest)"
      by simp
  qed
  moreover have "menu_search True (Some m) k = visibility_no m k \<bind>
      (\<lambda>(hidden, k). if hidden then Some (False, k) else prompt_tri m k \<bind> rest)"
    by (subst menu_search.simps) (simp add: False rest_def cong: if_cong)
  ultimately show ?thesis by simp
next
  case True
  then have "menu_search True (Some m) k = Some (False, k)" by (subst menu_search.simps) simp
  then show ?thesis by simp
qed

lemma menu_search_forest:
  "forest (menus k) par p ts \<Longrightarrow> wf_symtab (tab k) \<Longrightarrow>
   (\<forall>m \<in> set (preorder ts). entry_ok (tab k) (menus k m)) \<Longrightarrow> goes k (menu_search False p k)"
proof (induction "menus k" par p ts arbitrary: k rule: forest.induct)
  case (1 par p)
  then show ?case by (simp add: menu_search.simps [of False None])
next
  case (2 par p m ks ts)
  have same: "forest (menus k') = forest (menus k)" "wf_symtab (tab k')" "entry_ok (tab k') = entry_ok (tab k)"
    if "menus k' = menus k" "keeps (tab k) (tab k')" for k' :: kconf
    using that 2(4) keeps_wf [OF that(2)] entry_ok_frames [OF keeps_frames [OF that(2)]] by simp_all
  have "goes k (menu_search True (Some m) k)"
  proof (rule menu_search_one)
    fix k' :: kconf assume 1: "menus k' = menus k" "keeps (tab k) (tab k')"
    show "goes k' (menu_search False (mn_list (menus k m)) k')"
      using 2(1) [of k'] 2(3,5) same [OF 1] 1(1) by simp
  qed (use 2 in simp_all)
  then have "goes k (menu_search True (Some m) k \<bind>
      (\<lambda>(v, k). if v then Some (True, k) else menu_search False (mn_next (menus k m)) k))"
  proof (rule goes_bind)
    fix v and k' :: kconf assume 1: "menus k' = menus k" "keeps (tab k) (tab k')"
    have "goes k' (menu_search False (mn_next (menus k m)) k')"
      using 2(2) [of k'] 2(3,5) same [OF 1] 1(1) by simp
    with 1(1) show "goes k' (case (v, k') of (v, k) \<Rightarrow>
        if v then Some (True, k) else menu_search False (mn_next (menus k m)) k)" by simp
  qed
  with 2(3) show ?case by (simp add: menu_search.simps [of False "Some m"])
qed

text \<open>The trees below the entries of a forest.\<close>

lemma forest_below:
  "forest ms par p ts \<Longrightarrow> m \<in> set (preorder ts) \<Longrightarrow>
   \<exists>ks. forest ms (Some m) (mn_list (ms m)) ks \<and> set (preorder ks) \<subseteq> set (preorder ts)"
proof (induction ms par p ts rule: forest.induct)
  case (2 ms par p q ks ts)
  then consider "m = q" | "m \<in> set (preorder ks)" | "m \<in> set (preorder ts)" by auto
  then show ?case
  proof cases
    case 1
    with 2(3) show ?thesis by auto
  next
    case 2
    with "2.IH"(1) "2.prems" show ?thesis by fastforce
  next
    case 3
    with "2.IH"(2) "2.prems" show ?thesis by fastforce
  qed
qed simp

lemma menu_is_visible_goes:
  assumes "forest (menus k) par p ts" "wf_symtab (tab k)"
    "\<forall>m \<in> set (preorder ts). entry_ok (tab k) (menus k m)" "m \<in> set (preorder ts)"
  shows "goes k (menu_is_visible m k)"
  unfolding menu_is_visible_def
proof (rule menu_search_one)
  obtain ks where ks: "forest (menus k) (Some m) (mn_list (menus k m)) ks" "set (preorder ks) \<subseteq> set (preorder ts)"
    using forest_below [OF assms(1,4)] by blast
  fix k' :: kconf assume 1: "menus k' = menus k" "keeps (tab k) (tab k')"
  show "goes k' (menu_search False (mn_list (menus k m)) k')"
    by (rule menu_search_forest [where ts = ks])
      (use ks 1 assms(3) keeps_wf [OF 1(2) assms(2)] entry_ok_frames [OF keeps_frames [OF 1(2)]] in auto)
qed (use assms in auto)


section \<open>The lines of a configuration\<close>

text \<open>Comments that are read over whatever the prefix is.\<close>

definition harmless :: "cstring \<Rightarrow> bool" where
  "harmless t \<longleftrightarrow> CHR 0x0A \<notin> set t \<and> CHR 0x00 \<notin> set t \<and>
     (case strchr_split (CHR '' '') t of (_, Some r) \<Rightarrow> \<not> starts_with r ''is not set'' | _ \<Rightarrow> True)"

lemma not_set_prefix:
  "starts_with (r @ s) ''is not set'' \<Longrightarrow> CHR 0x0A \<notin> set ''is not set'' \<Longrightarrow>
   (s = [] \<or> hd s = CHR 0x0A) \<Longrightarrow> starts_with r ''is not set''"
proof -
  have "starts_with (r @ s) p \<Longrightarrow> CHR 0x0A \<notin> set p \<Longrightarrow> s = [] \<or> hd s = CHR 0x0A \<Longrightarrow> starts_with r p" for r p
  proof (induction p arbitrary: r)
    case (Cons c p)
    then show ?case by (cases r; cases s) auto
  qed (cases r; simp)
  then show "starts_with (r @ s) ''is not set'' \<Longrightarrow> CHR 0x0A \<notin> set ''is not set'' \<Longrightarrow>
    (s = [] \<or> hd s = CHR 0x0A) \<Longrightarrow> starts_with r ''is not set''" .
qed

lemma drop_before_space:
  "CHR '' '' \<notin> set pre \<Longrightarrow> starts_with (w @ CHR '' '' # r) pre \<Longrightarrow>
   drop (length pre) (w @ CHR '' '' # r) = drop (length pre) w @ CHR '' '' # r"
proof (induction pre arbitrary: w)
  case (Cons c pre)
  then show ?case by (cases w) auto
qed simp

lemma harmless_remark:
  assumes "CHR '' '' \<notin> set pre" "harmless t"
  shows "remark_ok pre (''# '' @ t)"
proof -
  have "unset_name pre (''# '' @ t @ NL) = None"
  proof (cases "starts_with (t @ NL) pre")
    case True
    show ?thesis
    proof (cases "CHR '' '' \<in> set t")
      case sp: True
      obtain w r where t: "t = w @ CHR '' '' # r" "CHR '' '' \<notin> set w" using split_list_first [OF sp] by blast
      have n: "\<not> starts_with r ''is not set''"
        using assms(2) strchr_split_hit [OF t(2), of r] t(1) by (simp add: harmless_def)
      have "CHR '' '' \<notin> set (drop (length pre) w)" using t(2) set_drop_subset by fastforce
      then have "strchr_split (CHR '' '') (drop (length pre) (t @ NL)) = (drop (length pre) w, Some (r @ NL))"
        using drop_before_space [OF assms(1), of w "r @ NL"] True t(1) strchr_split_hit by simp
      with n not_set_prefix [of r NL] show ?thesis by (auto simp: unset_name_def Let_def)
    next
      case False
      then have "CHR '' '' \<notin> set (drop (length pre) (t @ NL))" using set_drop_subset by fastforce
      then have "strchr_split (CHR '' '') (drop (length pre) (t @ NL)) = (drop (length pre) (t @ NL), None)"
        by (simp add: strchr_split_None)
      then show ?thesis by (simp add: unset_name_def Let_def)
    qed
  qed (simp add: unset_name_def)
  with assms(2) show ?thesis by (auto simp: remark_ok_def harmless_def first_is_def)
qed

lemma remark_hash: "remark_ok pre ''#''" "remark_ok pre []"
  by (cases pre; simp add: remark_ok_def first_is_def unset_name_def)+

lemma harmless_take:
  assumes "harmless t"
  shows "harmless (take n t)"
proof (cases "CHR '' '' \<in> set (take n t)")
  case True
  obtain w r where t: "take n t = w @ CHR '' '' # r" "CHR '' '' \<notin> set w" using split_list_first [OF True] by blast
  have "t = w @ CHR '' '' # (r @ drop n t)" using t(1) append_take_drop_id [of n t] by simp
  then have "\<not> starts_with (r @ drop n t) ''is not set''"
    using assms strchr_split_hit [OF t(2), of "r @ drop n t"] by (simp add: harmless_def)
  then have "\<not> starts_with r ''is not set''" by (auto simp: starts_with_append)
  with assms t strchr_split_hit [OF t(2), of r] show ?thesis
    using set_take_subset [of n t] by (auto simp: harmless_def)
next
  case False
  then have "strchr_split (CHR '' '') (take n t) = (take n t, None)" by (simp add: strchr_split_None)
  with assms set_take_subset [of n t] show ?thesis by (auto simp: harmless_def)
qed

lemma print_lines_line:
  "CHR 0x0A \<notin> set l \<Longrightarrow> print_lines mark (l @ NL @ s) = mark @ (if l \<noteq> [] then '' '' @ l else []) @ NL @ print_lines mark s"
  "CHR 0x0A \<notin> set l \<Longrightarrow> print_lines mark l = mark @ (if l \<noteq> [] then '' '' @ l else []) @ NL"
  using strchr_split_hit [of "CHR 0x0A" l s] strchr_split_None [of "CHR 0x0A" l]
  by (simp_all add: print_lines.simps)

text \<open>The lines of a heading.\<close>

lemma heading_lines:
  assumes pre: "CHR '' '' \<notin> set pre" and p: "menu_prompt k rootmenu = Some p" "harmless (text_or_empty (p_text p))"
  shows "\<exists>ls. conf_write_heading kconfig_print_comment k = Some (concat (map (\<lambda>l. l @ NL) ls)) \<and>
    list_all (remark_ok pre) ls"
proof -
  let ?a = "''Automatically generated file; DO NOT EDIT.''"
  let ?t = "text_or_empty (p_text p)"
  define t where "t = take 211 (?t @ NL)"
  have cut: "take 255 (NL @ ?a @ NL @ ?t @ NL) = NL @ ?a @ NL @ t" by (simp add: t_def)
  have a: "harmless ?a" by (simp add: harmless_def)
  have mark: "remark_ok pre (''#'' @ (if l \<noteq> [] then '' '' @ l else []))" if "harmless l" for l
    using harmless_remark [OF pre that] remark_hash by simp
  have "\<exists>ls. print_lines ''#'' t = concat (map (\<lambda>l. l @ NL) ls) \<and> list_all (remark_ok pre) ls"
  proof (cases "length ?t < 211")
    case True
    then have "t = ?t @ NL @ []" by (simp add: t_def)
    moreover have "CHR 0x0A \<notin> set ?t" using p(2) by (simp add: harmless_def)
    ultimately have "print_lines ''#'' t =
        concat (map (\<lambda>l. l @ NL) [''#'' @ (if ?t \<noteq> [] then '' '' @ ?t else []), ''#''])"
      using print_lines_line(1) [of ?t "''#''" "[]"] print_lines_line(2) [of "[]" "''#''"] by simp
    with mark [OF p(2)] remark_hash show ?thesis
      by (intro exI [of _ "[''#'' @ (if ?t \<noteq> [] then '' '' @ ?t else []), ''#'']"]) simp
  next
    case False
    then have t: "t = take 211 ?t" by (simp add: t_def)
    then have h: "harmless t" using harmless_take [OF p(2)] by simp
    then have "print_lines ''#'' t = concat (map (\<lambda>l. l @ NL) [''#'' @ (if t \<noteq> [] then '' '' @ t else [])])"
      using print_lines_line(2) [of t "''#''"] by (simp add: harmless_def)
    with mark [OF h] show ?thesis
      by (intro exI [of _ "[''#'' @ (if t \<noteq> [] then '' '' @ t else [])]"]) simp
  qed
  then obtain ls where ls: "print_lines ''#'' t = concat (map (\<lambda>l. l @ NL) ls)" "list_all (remark_ok pre) ls"
    by blast
  have "kconfig_print_comment (NL @ ?a @ NL @ t) =
      concat (map (\<lambda>l. l @ NL) (''#'' # (''#'' @ '' '' @ ?a) # ls))"
    using print_lines_line(1) [of "[]" "''#''" "?a @ NL @ t"] print_lines_line(1) [of ?a "''#''" t] ls(1)
    by (simp add: kconfig_print_comment_def)
  moreover have "list_all (remark_ok pre) (''#'' # (''#'' @ '' '' @ ?a) # ls)"
    using ls(2) remark_hash mark [OF a] by simp
  ultimately show ?thesis unfolding conf_write_heading_def p(1) option.map cut by blast
qed


section \<open>Writing the entries\<close>

text \<open>A value that does not change any more.\<close>

definition final_value :: "symtab \<Rightarrow> symref \<Rightarrow> cstring \<Rightarrow> bool" where
  "final_value st r v \<longleftrightarrow> SYMBOL_VALID \<in> s_flags (syms st r) \<and> value_text st r = v \<and>
     (is_tri (s_type (syms st r)) \<and> snd (s_curr (syms st r)) = T_mod \<longrightarrow>
        (\<exists>m. modules_sym st = Some m \<and> SYMBOL_VALID \<in> s_flags (syms st m)))"

lemma final_value_keeps:
  assumes "keeps st st'" "final_value st r v"
  shows "final_value st' r v"
proof -
  note f = framesD(1) [OF keeps_frames [OF assms(1)]] same_frameD(1) [OF framesD(3) [OF keeps_frames [OF assms(1)]]]
  have k: "SYMBOL_VALID \<in> s_flags (syms st' q)" "s_curr (syms st' q) = s_curr (syms st q)"
    if "SYMBOL_VALID \<in> s_flags (syms st q)" for q
    using keepsD(2,3) [OF assms(1) that] by simp_all
  from assms(2) show ?thesis
    by (auto simp: final_value_def value_text_def Let_def k f split: tristate.split)
qed

lemma calc_marks_valid:
  assumes "wf_symtab st" "r \<in> refs st" "\<not> sym_is_choice (syms st r)" "sym_calc_value r st = Some st'"
  shows "SYMBOL_VALID \<in> s_flags (syms st' r)"
proof -
  have "SYMBOL_NEED_SET_CHOICE_VALUES \<in> s_flags (syms st r) \<longrightarrow> sym_is_choice_value (syms st r)"
    using assms(1-3) sym_okD(7) [of st "syms st r"] by (auto simp: wf_symtab_def)
  moreover have "ready (calc_depth st) st" using assms(1) todo_bound [of st] by (simp add: ready_def)
  ultimately show ?thesis using calc_fuel_valid assms(2,4) unfolding sym_calc_value_def by blast
qed

text \<open>The symbol of modules is no choice.\<close>

definition modules_plain :: "symtab \<Rightarrow> bool" where
  "modules_plain st \<longleftrightarrow> (\<forall>m. modules_sym st = Some m \<longrightarrow> \<not> sym_is_choice (syms st m))"

lemma string_value_final:
  assumes "wf_symtab st" "modules_plain st" "SYMBOL_VALID \<in> s_flags (syms st r)"
  shows "\<exists>v st'. sym_get_string_value sym_calc_value r st = Some (v, st') \<and> keeps st st' \<and> final_value st' r v"
proof (cases "is_tri (s_type (syms st r)) \<and> snd (s_curr (syms st r)) = T_mod")
  case True
  obtain m where m: "m \<in> refs st" "modules_sym st = Some m" using assms(1) by (auto simp: wf_symtab_def)
  have nc: "\<not> sym_is_choice (syms st m)" using assms(2) m by (simp add: modules_plain_def)
  obtain st' where st': "sym_calc_value m st = Some st'" "keeps st st'"
    by (rule calc_peeks [OF assms(1) m(1)])
  have "SYMBOL_VALID \<in> s_flags (syms st' m)" by (rule calc_marks_valid [OF assms(1) m(1) nc st'(1)])
  moreover have "SYMBOL_VALID \<in> s_flags (syms st' r)" "s_curr (syms st' r) = s_curr (syms st r)"
    using keepsD(2,3) [OF st'(2) assms(3)] by simp_all
  ultimately have "final_value st' r (if snd (s_curr (syms st' m)) = T_no then ''n'' else ''m'')"
    using True m(2) framesD(1) [OF keeps_frames [OF st'(2)]]
      same_frameD(1) [OF framesD(3) [OF keeps_frames [OF st'(2)]]]
    by (simp add: final_value_def value_text_def)
  moreover have "sym_get_string_value sym_calc_value r st =
      Some (if snd (s_curr (syms st' m)) = T_no then ''n'' else ''m'', st')"
    using True m(2) st'(1) by (simp add: sym_get_string_value_def sym_get_tristate_value_def)
  ultimately show ?thesis using st'(2) by blast
next
  case False
  then show ?thesis
    using assms(3)
    by (intro exI [of _ "value_text st r"] exI [of _ st])
      (auto simp: sym_get_string_value_def sym_get_tristate_value_def final_value_def value_text_def Let_def
        split: tristate.split)
qed

text \<open>The entries that are written, and the states of the loop.\<close>

definition entry_writes :: "cstring \<Rightarrow> symtab \<Rightarrow> menu \<Rightarrow> bool" where
  "entry_writes pre st x \<longleftrightarrow> entry_ok st x \<and>
     (case mn_sym x of
        Some r \<Rightarrow> sym_is_choice (syms st r) \<or> setting_ok pre st r
      | None \<Rightarrow> (case mn_prompt x of
          Some (P_own p) \<Rightarrow> (\<exists>t. p_text p = Some t \<and> harmless t) | _ \<Rightarrow> True))"

definition has_entry :: "kconf \<Rightarrow> symref \<Rightarrow> bool" where
  "has_entry k r \<longleftrightarrow> (\<exists>m. mn_sym (menus k m) = Some r)"

definition written :: "cstring \<Rightarrow> kconf \<Rightarrow> kconf \<Rightarrow> cline list \<Rightarrow> bool" where
  "written pre k0 k cs \<longleftrightarrow> menus k = menus k0 \<and> keeps (tab k0) (tab k) \<and>
     (\<forall>c \<in> set cs. case c of Remark l \<Rightarrow> remark_ok pre l
        | Setting r v \<Rightarrow> has_entry k0 r \<and> setting_ok pre (tab k0) r \<and> final_value (tab k) r v)"

definition lines_text :: "cstring \<Rightarrow> symtab \<Rightarrow> cline list \<Rightarrow> cstring" where
  "lines_text pre st cs = concat (map (cline_text pre st) cs)"

lemma written_on:
  assumes "written pre k0 k cs" "menus k' = menus k" "keeps (tab k) (tab k')" "written pre k0 k' ds"
  shows "written pre k0 k' (cs @ ds)"
  using assms keeps_trans final_value_keeps [OF assms(3)] unfolding written_def
  by (fastforce split: cline.splits)

lemma written_here: "written pre k0 k cs \<Longrightarrow> menus k' = menus k \<Longrightarrow> keeps (tab k) (tab k') \<Longrightarrow> written pre k0 k' cs"
  using written_on [of pre k0 k cs k' "[]"] by (auto simp: written_def intro: keeps_trans)

text \<open>The entry without a symbol: a title where it is visible.\<close>

lemma write_title:
  assumes pre: "CHR '' '' \<notin> set pre" and k: "wf_symtab (tab k)" "entry_writes pre (tab k) (menus k m)"
    and m: "mn_sym (menus k m) = None" and v: "goes k (menu_is_visible m k)"
  shows "\<exists>k' cs. write_entry pre m (out, k) = Some (out @ lines_text pre st (map Remark cs), k') \<and>
    menus k' = menus k \<and> keeps (tab k) (tab k') \<and> list_all (remark_ok pre) cs"
proof -
  obtain v k1 where 1: "menu_is_visible m k = Some (v, k1)" "menus k1 = menus k" "keeps (tab k) (tab k1)"
    using v by (auto simp: goes_def gives_def)
  show ?thesis
  proof (cases v)
    case True
    have "mn_prompt (menus k m) \<noteq> None"
      using 1(1) True by (auto simp: menu_is_visible_def menu_search.simps [of True "Some m" k] split: if_splits)
    then obtain p where p: "mn_prompt (menus k m) = Some (P_own p)"
      using k(2) m by (auto simp: entry_writes_def entry_ok_def split: prompt.splits)
    then obtain t where t: "p_text p = Some t" "harmless t"
      using k(2) m by (auto simp: entry_writes_def)
    have "menu_get_prompt k1 m = Some t" using 1(2) p t(1) by (simp add: menu_get_prompt_def menu_prompt_def)
    then have "write_entry pre m (out, k) =
        Some (out @ lines_text pre st (map Remark [[], ''#'', ''# '' @ t, ''#'']), k1)"
      using m 1(1) True by (simp add: write_entry_def lines_text_def)
    moreover have "list_all (remark_ok pre) [[], ''#'', ''# '' @ t, ''#'']"
      using remark_hash harmless_remark [OF pre t(2)] by simp
    ultimately show ?thesis using 1(2,3) by blast
  next
    case False
    then have "write_entry pre m (out, k) = Some (out @ lines_text pre st (map Remark []), k1)"
      using m 1(1) by (simp add: write_entry_def lines_text_def)
    moreover have "list_all (remark_ok pre) []" by simp
    ultimately show ?thesis using 1(2,3) by blast
  qed
qed

text \<open>The entry of a symbol: its line when the calculation asks for it.\<close>

lemma write_line:
  assumes k: "wf_symtab (tab k)" "modules_plain (tab k)" and m: "mn_sym (menus k m) = Some r"
    and r: "r \<in> refs (tab k)" "\<not> sym_is_choice (syms (tab k) r)"
      "s_type (syms (tab k) r) \<noteq> S_OTHER" "s_type (syms (tab k) r) \<noteq> S_UNKNOWN"
  shows "\<exists>k' st. menus k' = menus k \<and> keeps (tab k) (tab k') \<and> sym_calc_value r (tab k) = Some st \<and>
    (if SYMBOL_WRITE \<in> s_flags (syms st r)
     then \<exists>v. write_entry pre m (out, k) = Some (out @ symbol_line pre (syms (tab k) r) v, k') \<and>
       final_value (tab k') r v
     else write_entry pre m (out, k) = Some (out, k'))"
proof -
  obtain st where st: "sym_calc_value r (tab k) = Some st" "keeps (tab k) st"
    by (rule calc_peeks [OF k(1) r(1)])
  show ?thesis
  proof (cases "SYMBOL_WRITE \<in> s_flags (syms st r)")
    case True
    define st1 where "st1 = clear_flags r {SYMBOL_WRITE} st"
    have 1: "keeps (tab k) st1" using keeps_trans [OF st(2) flag_keeps(2)] by (simp add: st1_def)
    have "SYMBOL_VALID \<in> s_flags (syms st1 r)"
      using calc_marks_valid [OF k(1) r(1,2) st(1)] by (simp add: st1_def clear_flags_def)
    moreover have "modules_plain st1"
      using k(2) framesD(1) [OF keeps_frames [OF 1]] same_frameD(5) [OF framesD(3) [OF keeps_frames [OF 1]]]
      by (simp add: modules_plain_def)
    ultimately obtain v st2 where 2: "sym_get_string_value sym_calc_value r st1 = Some (v, st2)"
      "keeps st1 st2" "final_value st2 r v"
      using string_value_final keeps_wf [OF 1 k(1)] by blast
    have 3: "keeps (tab k) st2" by (rule keeps_trans [OF 1 2(2)])
    have ty: "s_type (syms st1 r) = s_type (syms (tab k) r)" "s_type (syms st2 r) = s_type (syms (tab k) r)"
      "s_name (syms st2 r) = s_name (syms (tab k) r)"
      using same_frameD(1,9) [OF framesD(3) [OF keeps_frames [OF 1]]]
        same_frameD(1,9) [OF framesD(3) [OF keeps_frames [OF 3]]] by simp_all
    have "conf_write_symbol (kconfig_print_symbol pre) False r st1 = Some (symbol_line pre (syms (tab k) r) v, st2)"
      using 2(1) r(3,4) ty
      by (simp add: conf_write_symbol_def Let_def symbol_line_def printed_def kconfig_print_symbol_def name_text_def)
    then have "write_entry pre m (out, k) = Some (out @ symbol_line pre (syms (tab k) r) v, k\<lparr>tab := st2\<rparr>)"
      using m r(2) st(1) True by (simp add: write_entry_def st1_def)
    with True 2(3) 3 st(1) show ?thesis by (intro exI [of _ "k\<lparr>tab := st2\<rparr>"] exI [of _ st]) auto
  next
    case False
    then have "write_entry pre m (out, k) = Some (out, k\<lparr>tab := st\<rparr>)"
      using m r(2) st(1) by (simp add: write_entry_def)
    with False st show ?thesis by (intro exI [of _ "k\<lparr>tab := st\<rparr>"] exI [of _ st]) simp
  qed
qed


text \<open>
  A symbol has no line only when its calculation did not ask for one, or it has no type, at the time
  its entry was reached.
\<close>

definition left_out :: "cstring \<Rightarrow> cstring \<times> kconf \<Rightarrow> nat list \<Rightarrow> symref \<Rightarrow> bool" where
  "left_out pre s0 ms r \<longleftrightarrow> (\<exists>xs m ys out k st. ms = xs @ m # ys \<and> mn_sym (menus k m) = Some r \<and>
     fold_opt (write_entry pre) xs s0 = Some (out, k) \<and> sym_calc_value r (tab k) = Some st \<and>
     (SYMBOL_WRITE \<in> s_flags (syms st r) \<longrightarrow> s_type (syms st r) = S_UNKNOWN))"

definition no_line_left :: "cstring \<Rightarrow> cstring \<times> kconf \<Rightarrow> nat list \<Rightarrow> cline list \<Rightarrow> bool" where
  "no_line_left pre s0 ms cs \<longleftrightarrow> (\<forall>m \<in> set ms. \<forall>r. mn_sym (menus (snd s0) m) = Some r \<longrightarrow>
     \<not> sym_is_choice (syms (tab (snd s0)) r) \<longrightarrow> (\<exists>v. Setting r v \<in> set cs) \<or> left_out pre s0 ms r)"

lemma left_out_more: "left_out pre s0 ms r \<Longrightarrow> left_out pre s0 (ms @ ms') r"
  unfolding left_out_def by (metis append.assoc append_Cons)

text \<open>
  What the parser makes of the menus: the list of the root is a forest, its title and the ones of
  the entries are harmless, and the symbol of an entry is the one its name is found with.
\<close>

definition menus_ok :: "cstring \<Rightarrow> kconf \<Rightarrow> mtree list \<Rightarrow> bool" where
  "menus_ok pre k ts \<longleftrightarrow> config_ok (tab k) \<and> modules_plain (tab k) \<and> CHR '' '' \<notin> set pre \<and>
     forest (menus k) (Some rootmenu) (mn_list (menus k rootmenu)) ts \<and>
     mn_next (menus k rootmenu) = None \<and> mn_parent (menus k rootmenu) = None \<and>
     (\<exists>p. menu_prompt k rootmenu = Some p \<and> harmless (text_or_empty (p_text p))) \<and>
     (\<forall>m \<in> set (preorder ts). entry_writes pre (tab k) (menus k m))"

lemma write_unknown:
  assumes "mn_sym (menus k m) = Some r" "\<not> sym_is_choice (syms (tab k) r)"
    and "s_type (syms (tab k) r) = S_UNKNOWN" "wf_symtab (tab k)" "r \<in> refs (tab k)"
  shows "\<exists>k' st. write_entry pre m (out, k) = Some (out, k') \<and> menus k' = menus k \<and> keeps (tab k) (tab k') \<and>
    sym_calc_value r (tab k) = Some st \<and> s_type (syms st r) = S_UNKNOWN"
proof -
  obtain st where st: "sym_calc_value r (tab k) = Some st" "keeps (tab k) st"
    by (rule calc_peeks [OF assms(4,5)])
  have ty: "s_type (syms st r) = S_UNKNOWN" using same_frameD(1) [OF framesD(3) [OF keeps_frames [OF st(2)]]] assms(3) by simp
  have "write_entry pre m (out, k) = Some (out, k\<lparr>tab := (if SYMBOL_WRITE \<notin> s_flags (syms st r) then st
      else clear_flags r {SYMBOL_WRITE} st)\<rparr>)"
    using assms(1,2) st(1) ty by (simp add: write_entry_def conf_write_symbol_def clear_flags_def)
  moreover have "keeps (tab k) (clear_flags r {SYMBOL_WRITE} st)" by (rule keeps_trans [OF st(2) flag_keeps(2)])
  ultimately show ?thesis using st ty
    by (cases "SYMBOL_WRITE \<in> s_flags (syms st r)")
      (rule exI [of _ "k\<lparr>tab := clear_flags r {SYMBOL_WRITE} st\<rparr>"], simp,
       rule exI [of _ "k\<lparr>tab := st\<rparr>"], simp)
qed

text \<open>One entry.\<close>

lemma write_step:
  assumes ok: "menus_ok pre k0 ts" and m: "m \<in> set (preorder ts)" and w: "written pre k0 k cs"
    and reach: "fold_opt (write_entry pre) xs (out0, k0) = Some (out, k)"
  shows "\<exists>k' ds. write_entry pre m (out, k) = Some (out @ lines_text pre (tab k0) ds, k') \<and>
    written pre k0 k' (cs @ ds) \<and>
    (\<forall>r. mn_sym (menus k0 m) = Some r \<longrightarrow> \<not> sym_is_choice (syms (tab k0) r) \<longrightarrow>
       (\<exists>v. Setting r v \<in> set ds) \<or> left_out pre (out0, k0) (xs @ [m]) r)"
proof -
  have ms: "menus k = menus k0" and kp: "keeps (tab k0) (tab k)" using w by (simp_all add: written_def)
  note fr = keeps_frames [OF kp]
  have f: "forest (menus k) (Some rootmenu) (mn_list (menus k rootmenu)) ts" using ok ms by (simp add: menus_ok_def)
  have ew: "entry_writes pre (tab k0) (menus k0 q)" if "q \<in> set (preorder ts)" for q
    using ok that by (simp add: menus_ok_def)
  have ent: "entry_writes pre (tab k) = entry_writes pre (tab k0)"
    using same_frameD(5) [OF framesD(3) [OF fr]] setting_frames(1) [OF fr] entry_ok_frames [OF fr]
    by (intro ext) (simp add: entry_writes_def split: option.splits)
  have wf: "wf_symtab (tab k)" "config_ok (tab k)" "modules_plain (tab k)"
    using ok frames_wf [OF fr] frames_config [OF fr] framesD(1) [OF fr] same_frameD(5) [OF framesD(3) [OF fr]]
    by (auto simp: menus_ok_def config_ok_def modules_plain_def)
  show ?thesis
  proof (cases "mn_sym (menus k0 m)")
    case None
    have "goes k (menu_is_visible m k)"
      by (rule menu_is_visible_goes [OF f wf(1) _ m])
        (use ew entry_ok_frames [OF fr] ms in \<open>simp add: entry_writes_def\<close>)
    moreover have "mn_sym (menus k m) = None" "entry_writes pre (tab k) (menus k m)" "CHR '' '' \<notin> set pre"
      using None ms ew [OF m] ent ok by (simp_all add: menus_ok_def)
    ultimately obtain k' ls
      where 1: "write_entry pre m (out, k) = Some (out @ lines_text pre (tab k0) (map Remark ls), k')"
        "menus k' = menus k" "keeps (tab k) (tab k')" "list_all (remark_ok pre) ls"
      using write_title [of pre k m out "tab k0"] wf(1) by blast
    have "written pre k0 k' (map Remark ls)"
      using 1(2-4) ms keeps_trans [OF kp] by (auto simp: written_def list_all_iff)
    then have "written pre k0 k' (cs @ map Remark ls)" by (rule written_on [OF w 1(2,3)])
    with 1(1) None show ?thesis by (intro exI [of _ k'] exI [of _ "map Remark ls"]) simp
  next
    case (Some r)
    then have m': "mn_sym (menus k m) = Some r" by (simp add: ms)
    have r: "r \<in> refs (tab k)" using ew [OF m] ent Some ms framesD(2) [OF fr] by (auto simp: entry_writes_def entry_ok_def)
    have ch: "sym_is_choice (syms (tab k) r) = sym_is_choice (syms (tab k0) r)"
      using same_frameD(5) [OF framesD(3) [OF fr]] by simp
    show ?thesis
    proof (cases "sym_is_choice (syms (tab k0) r)")
      case True
      then have "write_entry pre m (out, k) = Some (out @ lines_text pre (tab k0) [], k)"
        using m' ch by (simp add: write_entry_def lines_text_def)
      with True Some w show ?thesis by (intro exI [of _ k] exI [of _ "[]"]) auto
    next
      case nc: False
      show ?thesis
      proof (cases "s_type (syms (tab k) r) = S_UNKNOWN")
        case True
        obtain k' st where 1: "write_entry pre m (out, k) = Some (out, k')" "menus k' = menus k"
          "keeps (tab k) (tab k')" "sym_calc_value r (tab k) = Some st" "s_type (syms st r) = S_UNKNOWN"
          using write_unknown [OF m' _ True wf(1) r] nc ch by blast
        then have "left_out pre (out0, k0) (xs @ [m]) r"
          using reach m' unfolding left_out_def by blast
        with 1 Some written_here [OF w] show ?thesis
          by (intro exI [of _ k'] exI [of _ "[]"]) (simp add: lines_text_def)
      next
        case False
        have "s_type (syms (tab k) r) \<noteq> S_OTHER" using wf(2) r by (simp add: config_ok_def)
        then obtain k' st where 1: "menus k' = menus k" "keeps (tab k) (tab k')" "sym_calc_value r (tab k) = Some st"
          "if SYMBOL_WRITE \<in> s_flags (syms st r)
           then \<exists>v. write_entry pre m (out, k) = Some (out @ symbol_line pre (syms (tab k) r) v, k') \<and>
             final_value (tab k') r v
           else write_entry pre m (out, k) = Some (out, k')"
          using write_line [OF wf(1,3) m' r _ _ False, of pre out] nc ch by blast
        show ?thesis
        proof (cases "SYMBOL_WRITE \<in> s_flags (syms st r)")
          case True
          then obtain v where v: "write_entry pre m (out, k) = Some (out @ symbol_line pre (syms (tab k) r) v, k')"
            "final_value (tab k') r v" using 1(4) by auto
          have "setting_ok pre (tab k0) r" using ew [OF m] Some nc by (simp add: entry_writes_def)
          moreover have "has_entry k0 r" using Some by (auto simp: has_entry_def)
          ultimately have "written pre k0 k' [Setting r v]"
            using v(2) 1(1,2) ms keeps_trans [OF kp] by (simp add: written_def)
          with v 1 Some written_on [OF w] show ?thesis
            by (intro exI [of _ k'] exI [of _ "[Setting r v]"]) (simp add: lines_text_def setting_frames(2) [OF fr])
        next
          case False
          with 1 have "left_out pre (out0, k0) (xs @ [m]) r"
            using reach m' unfolding left_out_def by blast
          with 1 False Some written_here [OF w] show ?thesis
            by (intro exI [of _ k'] exI [of _ "[]"]) (simp add: lines_text_def)
        qed
      qed
    qed
  qed
qed

lemma write_entries:
  assumes "menus_ok pre k0 ts"
  shows "set ms \<subseteq> set (preorder ts) \<Longrightarrow>
    \<exists>k' cs. fold_opt (write_entry pre) ms (out, k0) = Some (out @ lines_text pre (tab k0) cs, k') \<and>
      written pre k0 k' cs \<and> no_line_left pre (out, k0) ms cs"
proof (induction ms rule: rev_induct)
  case Nil
  show ?case
    by (intro exI [of _ k0] exI [of _ "[]"]) (simp add: lines_text_def written_def no_line_left_def)
next
  case (snoc m ms)
  then obtain k1 cs where 1: "fold_opt (write_entry pre) ms (out, k0) = Some (out @ lines_text pre (tab k0) cs, k1)"
    "written pre k0 k1 cs" "no_line_left pre (out, k0) ms cs" by auto
  obtain k' ds where 2: "write_entry pre m (out @ lines_text pre (tab k0) cs, k1) =
      Some ((out @ lines_text pre (tab k0) cs) @ lines_text pre (tab k0) ds, k')" "written pre k0 k' (cs @ ds)"
    "\<forall>r. mn_sym (menus k0 m) = Some r \<longrightarrow> \<not> sym_is_choice (syms (tab k0) r) \<longrightarrow>
       (\<exists>v. Setting r v \<in> set ds) \<or> left_out pre (out, k0) (ms @ [m]) r"
    using write_step [OF assms _ 1(2,1), of m] snoc.prems by (auto simp del: append_assoc)
  have "no_line_left pre (out, k0) (ms @ [m]) (cs @ ds)"
    using 1(3) 2(3) left_out_more unfolding no_line_left_def by (fastforce)
  with 1 2 show ?case
    by (intro exI [of _ k'] exI [of _ "cs @ ds"]) (simp add: fold_opt_append lines_text_def)
qed


section \<open>The text of a configuration\<close>

text \<open>What \<open>menus_ok\<close> asks of the table besides \<open>config_ok\<close> is the same for both tables.\<close>

lemma frames_entries:
  assumes "frames (tab k) st"
  shows "entry_writes pre st = entry_writes pre (tab k)" "menu_prompt (k\<lparr>tab := st\<rparr>) rootmenu = menu_prompt k rootmenu"
    "modules_plain st = modules_plain (tab k)"
proof -
  show "entry_writes pre st = entry_writes pre (tab k)"
    using same_frameD(5) [OF framesD(3) [OF assms]] setting_frames(1) [OF assms] entry_ok_frames [OF assms]
    by (intro ext) (simp add: entry_writes_def split: option.splits)
  show "menu_prompt (k\<lparr>tab := st\<rparr>) rootmenu = menu_prompt k rootmenu"
    using same_frameD(2) [OF framesD(3) [OF assms]] by (simp add: menu_prompt_def split: option.split prompt.split)
  show "modules_plain st = modules_plain (tab k)"
    using framesD(1) [OF assms] same_frameD(5) [OF framesD(3) [OF assms]] by (simp add: modules_plain_def)
qed

lemma frames_menus_ok:
  assumes "menus_ok pre k ts" "frames (tab k) st"
  shows "menus_ok pre (k\<lparr>tab := st\<rparr>) ts"
  using assms frames_entries(1) [OF assms(2), of pre] frames_entries(2,3) [OF assms(2)] frames_config
  by (simp add: menus_ok_def)

lemma frames_lines_text:
  assumes "frames st st'"
  shows "lines_text pre st' cs = lines_text pre st cs"
proof -
  have "cline_text pre st' c = cline_text pre st c" for c
    using setting_frames(2) [OF assms] by (cases c) simp_all
  then have "cline_text pre st' = cline_text pre st" by blast
  then show ?thesis by (simp add: lines_text_def)
qed

text \<open>The table as \<open>conf_write\<close> starts the loop with it.\<close>

definition recalculated :: "symtab \<Rightarrow> symtab option" where
  "recalculated st = (if conf_get_changed st then Some st else sym_clear_all_valid st)"

lemma conf_text_lines:
  assumes "menus_ok pre k ts"
  obtains st head k' ls cs where "recalculated (tab k) = Some st" "frames (tab k) st"
    "conf_write_heading kconfig_print_comment k = Some head"
    "conf_text pre k = Some (lines_text pre (tab k) (map Remark ls @ cs), k')"
    "list_all (remark_ok pre) ls" "written pre (k\<lparr>tab := st\<rparr>) k' cs"
    "no_line_left pre (head, k\<lparr>tab := st\<rparr>) (preorder ts) cs"
proof -
  have wf: "wf_symtab (tab k)" using assms by (simp add: menus_ok_def config_ok_def)
  obtain st where st: "recalculated (tab k) = Some st" "frames (tab k) st"
    using clear_all_valid_total [OF wf] by (cases "conf_get_changed (tab k)") (auto simp: recalculated_def)
  define k0 where "k0 = k\<lparr>tab := st\<rparr>"
  have ok: "menus_ok pre k0 ts" unfolding k0_def by (rule frames_menus_ok [OF assms st(2)])
  obtain p where p: "menu_prompt k rootmenu = Some p" "harmless (text_or_empty (p_text p))" "CHR '' '' \<notin> set pre"
    using assms by (auto simp: menus_ok_def)
  obtain ls where ls: "conf_write_heading kconfig_print_comment k = Some (concat (map (\<lambda>l. l @ NL) ls))"
    "list_all (remark_ok pre) ls"
    using heading_lines [OF p(3,1,2)] by blast
  define head where "head = concat (map (\<lambda>l. l @ NL) ls)"
  obtain k' cs where w: "fold_opt (write_entry pre) (preorder ts) (head, k0) =
      Some (head @ lines_text pre (tab k0) cs, k')" "written pre k0 k' cs" "no_line_left pre (head, k0) (preorder ts) cs"
    using write_entries [OF ok subset_refl] by blast
  have f: "forest (menus k) (Some rootmenu) (mn_list (menus k rootmenu)) ts"
    "mn_next (menus k rootmenu) = None" "mn_parent (menus k rootmenu) = None"
    using assms by (simp_all add: menus_ok_def)
  have "climb (menus k) (Some rootmenu) = Some None"
    using f(2,3) by (simp add: climb.simps [of _ "Some 0"] climb.simps [of _ None])
  have id: "(case x of None \<Rightarrow> None | Some m \<Rightarrow> Some m) = x" for x :: "nat option" by (cases x) simp_all
  from walk_forest [OF f(1) \<open>climb _ _ = _\<close>, of "write_entry pre" "(head, k0)"] w(1)
  have "walk_menus (menus k) (write_entry pre) (mn_list (menus k rootmenu)) (head, k0) =
      Some (head @ lines_text pre (tab k0) cs, k')"
    unfolding id by (simp add: walk_menus.simps [of _ _ None])
  moreover have "head @ lines_text pre (tab k0) cs = lines_text pre (tab k) (map Remark ls @ cs)"
    using frames_lines_text [OF st(2)] by (simp add: k0_def head_def lines_text_def comp_def)
  ultimately have "conf_text pre k = Some (lines_text pre (tab k) (map Remark ls @ cs), k')"
    using ls(1) st(1) by (simp add: conf_text_def recalculated_def head_def k0_def)
  from that [OF st _ this ls(2)] ls(1) w(2,3) show thesis by (simp add: k0_def head_def)
qed

lemma final_value_string:
  assumes "final_value st r v"
  shows "sym_get_string_value sym_calc_value r st = Some (v, st)"
  using assms calc_value_valid
  by (auto simp: final_value_def value_text_def sym_get_string_value_def sym_get_tristate_value_def Let_def
      split: tristate.split)

lemma final_value_text: "final_value st r v \<Longrightarrow> v = value_text st r"
  by (simp add: final_value_def)

text \<open>Reading the text back, from a table of the same configuration.\<close>

lemma read_written:
  assumes st: "config_ok st" and cs: "list_all (remark_ok pre) ls"
    "\<And>r v. Setting r v \<in> set cs \<Longrightarrow> setting_ok pre st r \<and> safe_value (s_type (syms st r)) v \<and> v = val r"
    "\<And>l. Remark l \<in> set cs \<Longrightarrow> remark_ok pre l"
    and rd: "frames st (rd_tab rd)"
  shows "\<exists>rd'. read_lines S_DEF_USER pre (lines_text pre st (map Remark ls @ cs)) [] rd = Some rd' \<and>
    reads (rd_tab rd) (rd_tab rd') \<and>
    (\<forall>r v. Setting r v \<in> set cs \<longrightarrow> value_ok (s_type (syms st r)) v \<longrightarrow> holds_value (syms (rd_tab rd') r) v) \<and>
    (\<forall>r. \<not> sym_is_choice (syms st r) \<longrightarrow> (\<forall>v. Setting r v \<notin> set cs) \<longrightarrow>
       s_user (syms (rd_tab rd') r) = s_user (syms (rd_tab rd) r) \<and>
       sym_has_value (syms (rd_tab rd') r) = sym_has_value (syms (rd_tab rd) r))"
proof -
  let ?cs = "map Remark ls @ cs"
  note f = setting_frames [OF rd]
  have in_cs: "Setting r v \<in> set ?cs \<longleftrightarrow> Setting r v \<in> set cs" for r v by auto
  have "cline_ok pre (rd_tab rd) c" if c: "c \<in> set ?cs" for c
  proof (cases c)
    case (Remark l)
    then have "l \<in> set ls \<or> Remark l \<in> set cs" using c by auto
    with Remark cs(1,3) show ?thesis by (auto simp: list_all_iff)
  next
    case (Setting r v)
    then have "Setting r v \<in> set cs" using c by auto
    with Setting cs(2) f show ?thesis by simp
  qed
  then have ok: "list_all (cline_ok pre (rd_tab rd)) ?cs" by (simp add: list_all_iff)
  have ag: "agree ?cs" unfolding agree_def in_cs using cs(2) by blast
  have t: "lines_text pre st ?cs = concat (map (cline_text pre (rd_tab rd)) ?cs)"
    using frames_lines_text [OF rd, of pre ?cs] by (simp add: lines_text_def)
  obtain rd' where 1: "fold_opt (conf_read_line S_DEF_USER pre) (map (cline_text pre (rd_tab rd)) ?cs) rd = Some rd'"
     "reads (rd_tab rd) (rd_tab rd')"
     "\<forall>r v. Setting r v \<in> set ?cs \<longrightarrow> value_ok (s_type (syms (rd_tab rd) r)) v \<longrightarrow> holds_value (syms (rd_tab rd') r) v"
     "\<forall>r. \<not> sym_is_choice (syms (rd_tab rd) r) \<longrightarrow> (\<forall>v. Setting r v \<notin> set ?cs) \<longrightarrow>
        s_user (syms (rd_tab rd') r) = s_user (syms (rd_tab rd) r) \<and>
        sym_has_value (syms (rd_tab rd') r) = sym_has_value (syms (rd_tab rd) r)"
    using clines_read [OF frames_config [OF rd st] ok ag] by blast
  have "read_lines S_DEF_USER pre (lines_text pre st ?cs) [] rd = Some rd'"
    unfolding read_lines_fold t file_lines_clines [OF ok] by (rule 1(1))
  moreover have "sym_is_choice (syms (rd_tab rd) r) = sym_is_choice (syms st r)" for r
    using same_frameD(5) [OF framesD(3) [OF rd]] by simp
  ultimately show ?thesis using 1(2-4) unfolding in_cs f by simp
qed


section \<open>A small configuration\<close>

text \<open>A title with a boolean symbol and a comment.\<close>

definition sample_table :: symtab where
  "sample_table = sample_set\<lparr>buckets := (\<lambda>i. if i = bucket_of (Some ''FOO'') then [SymId 5] else [])\<rparr>"

definition sample_menu :: "cstring \<Rightarrow> menu" where
  "sample_menu title = blank_menu\<lparr>mn_prompt := Some (P_own (sample_property P_MENU (Some title) None))\<rparr>"

definition sample_conf :: kconf where
  "sample_conf = \<lparr>tab = sample_table,
     menus = (\<lambda>m. blank_menu)
       (0 := (sample_menu ''Buildroot Configuration'')\<lparr>mn_list := Some 1\<rparr>,
        1 := blank_menu\<lparr>mn_sym := Some (SymId 5), mn_prompt := Some (P_at 0), mn_parent := Some 0, mn_next := Some 2\<rparr>,
        2 := (sample_menu ''more options'')\<lparr>mn_parent := Some 0\<rparr>),
     next_menu = 3, current_entry = 2, current_menu = 0, last_entry = NextOf 2,
     sym_defconfig_list = None, zconfnerrs = 0\<rparr>"

definition sample_reader :: reader where
  "sample_reader = sample_rd\<lparr>rd_tab := sample_table\<rparr>"

lemma sample_table_simps:
  "syms sample_table = syms sample_set" "refs sample_table = refs sample_set"
  "modules_sym sample_table = Some SymNo" "hashed sample_table r \<longleftrightarrow> r = SymId 5"
proof -
  show "syms sample_table = syms sample_set" "refs sample_table = refs sample_set"
    "modules_sym sample_table = Some SymNo"
    by (simp_all add: sample_table_def refs_def sample_set_simps)
  show "hashed sample_table r \<longleftrightarrow> r = SymId 5"
    using bucket_of_less [of "Some ''FOO''"] by (auto simp: hashed_def sample_table_def split: if_splits)
qed

lemma sample_table_wf: "wf_symtab sample_table"
proof -
  have o: "opt_in sample_table = opt_in sample_set"
    by (simp add: opt_in_def sample_table_simps fun_eq_iff split: option.splits)
  have p: "prop_ok sample_table = prop_ok sample_set" by (simp add: prop_ok_def o fun_eq_iff)
  have "sym_ok sample_table = sym_ok sample_set"
    by (simp add: sym_ok_def o p choice_ok_def sample_table_simps fun_eq_iff)
  then show ?thesis
    using sample_set_wf(1) by (simp add: wf_symtab_def sample_table_simps sample_set_simps)
qed

lemma sample_config_ok: "config_ok sample_table"
  using sample_table_wf sample_set_wf(2) sample_types sample_set_refs(3)
  by (simp add: config_ok_def sample_table_simps members_linked_def)

lemma sample_find: "sym_find (Some ''FOO'') sample_table = Some (SymId 5)"
  by (simp add: sym_find_def sample_table_def find_matches_def sample_set_simps blank_symbol_def)

lemma sample_menus_ok:
  "menus_ok [] sample_conf [MNode 1 [], MNode 2 []]"
proof -
  have "setting_ok [] sample_table (SymId 5)"
    using sample_find sample_types(2)
    by (simp add: setting_ok_def sample_table_simps(1) good_name_def) (simp add: sample_set_simps(2))
  moreover have "SymId 5 \<in> refs sample_table" using sample_set_refs(3) by (simp add: sample_table_simps)
  moreover have "modules_plain sample_table"
    by (simp add: modules_plain_def sample_table_simps sample_set_simps symbol_no_def sym_is_choice_def)
  ultimately show ?thesis
    using sample_config_ok
    by (simp add: menus_ok_def sample_conf_def sample_menu_def blank_menu_def entry_writes_def entry_ok_def
        menu_prompt_def harmless_def sample_property_def opt_in_def text_or_empty_def)
qed

text \<open>What reading gives back of the lines of a text: before and after the value of modules is calculated.\<close>

definition opened_reader :: "cstring \<Rightarrow> reader \<Rightarrow> reader" where
  "opened_reader name rd = upd_rd (for_all_symbols (reset_def S_DEF_USER))
     (rd\<lparr>conf_filename := name, conf_lineno := 0, conf_warnings := 0, conf_unsaved := 0\<rparr>)"

definition gives_back :: "cstring \<Rightarrow> cstring \<Rightarrow> cline list \<Rightarrow> cstring \<Rightarrow> reader \<Rightarrow> bool" where
  "gives_back pre out cs name rd \<longleftrightarrow>
     (\<exists>rd1 rd2. read_lines S_DEF_USER pre out [] (opened_reader name rd) = Some rd1 \<and>
        conf_load S_DEF_USER pre name out rd = Some rd2 \<and>
        (\<forall>r v. Setting r v \<in> set cs \<longrightarrow> value_ok (s_type (rd_sym rd r)) v \<longrightarrow>
           holds_value (rd_sym rd1 r) v \<and> (ordinary (rd_sym rd r) \<longrightarrow> holds_value (rd_sym rd2 r) v)) \<and>
        (\<forall>r. hashed (rd_tab rd) r \<longrightarrow> \<not> sym_is_choice (rd_sym rd r) \<longrightarrow> (\<forall>v. Setting r v \<notin> set cs) \<longrightarrow>
           \<not> sym_has_value (rd_sym rd1 r)))"

lemma gives_back_written:
  assumes ok: "config_ok (tab k)" and ls: "list_all (remark_ok pre) ls" and st: "frames (tab k) st"
    and w: "written pre (k\<lparr>tab := st\<rparr>) k' cs" and rd: "frames (tab k) (rd_tab rd)"
    and safe: "\<And>r v. Setting r v \<in> set cs \<Longrightarrow> safe_value (s_type (syms (tab k) r)) v"
  shows "gives_back pre (lines_text pre (tab k) (map Remark ls @ cs)) cs name rd"
proof -
  let ?out = "lines_text pre (tab k) (map Remark ls @ cs)"
  define rd0 where "rd0 = opened_reader name rd"
  have t0: "rd_tab rd0 = for_all_symbols (reset_def S_DEF_USER) (rd_tab rd)" by (simp add: rd0_def opened_reader_def)
  have f0: "frames (tab k) (rd_tab rd0)"
    unfolding t0 by (rule frames_trans [OF rd reset_frames(1) [OF frames_config [OF rd ok]]])
  have cs: "setting_ok pre (tab k) r \<and> safe_value (s_type (syms (tab k) r)) v \<and> v = value_text (tab k') r"
    if "Setting r v \<in> set cs" for r v
    using w that safe [OF that] setting_frames(1) [OF st] by (force simp: written_def final_value_def)
  have rem: "remark_ok pre l" if "Remark l \<in> set cs" for l
    using w that by (force simp: written_def)
  obtain rd1 where r1: "read_lines S_DEF_USER pre ?out [] rd0 = Some rd1" "reads (rd_tab rd0) (rd_tab rd1)"
    "\<forall>r v. Setting r v \<in> set cs \<longrightarrow> value_ok (s_type (syms (tab k) r)) v \<longrightarrow> holds_value (syms (rd_tab rd1) r) v"
    "\<forall>r. \<not> sym_is_choice (syms (tab k) r) \<longrightarrow> (\<forall>v. Setting r v \<notin> set cs) \<longrightarrow>
       s_user (syms (rd_tab rd1) r) = s_user (syms (rd_tab rd0) r) \<and>
       sym_has_value (syms (rd_tab rd1) r) = sym_has_value (syms (rd_tab rd0) r)"
    using read_written [OF ok ls cs rem f0] by blast
  have f1: "frames (tab k) (rd_tab rd1)" by (rule frames_trans [OF f0 reads_frames [OF r1(2)]])
  obtain m where m: "m \<in> refs (rd_tab rd1)" "modules_sym (rd_tab rd1) = Some m"
    using frames_config [OF f1 ok] by (auto simp: config_ok_def wf_symtab_def)
  obtain st2 where st2: "sym_calc_value m (rd_tab rd1) = Some st2" "evolves {} (rd_tab rd1) st2"
    using calc_reads [OF frames_config [OF f1 ok] m(1)] by blast
  have load: "conf_load S_DEF_USER pre name ?out rd = Some (rd1\<lparr>rd_tab := st2\<rparr>)"
    using r1(1) m(2) st2(1) by (simp add: conf_load_def rd0_def opened_reader_def)
  have kept2: "holds_value (syms st2 r) v" if "holds_value (syms (rd_tab rd1) r) v" "ordinary (syms (tab k) r)" for r v
  proof -
    have "ordinary (syms (rd_tab rd1) r)"
      using that(2) same_frameD(5,6) [OF framesD(3) [OF f1]] by (simp add: ordinary_def)
    from ordinary_user [OF st2(2) this] that(1) same_shapeD(2) [OF evolves_shape [OF st2(2)]]
    show ?thesis by (simp add: holds_value_def)
  qed
  have none: "\<not> sym_has_value (syms (rd_tab rd0) r)"
    if "hashed (rd_tab rd) r" "\<not> sym_is_choice (syms (rd_tab rd) r)" for r
    using that frames_config [OF rd ok]
    by (simp add: t0 for_all_symbols_def reset_def_def sym_has_value_def Let_def config_ok_def)
  have same: "s_type (syms (rd_tab rd) r) = s_type (syms (tab k) r)"
    "sym_is_choice (syms (rd_tab rd) r) = sym_is_choice (syms (tab k) r)"
    "ordinary (syms (rd_tab rd) r) = ordinary (syms (tab k) r)" for r
    using same_frameD(1,5,6) [OF framesD(3) [OF rd]] by (simp_all add: ordinary_def)
  show ?thesis
    unfolding gives_back_def rd_sym_def same rd0_def [symmetric]
    by (rule exI [of _ rd1], rule exI [of _ "rd1\<lparr>rd_tab := st2\<rparr>"])
      (use r1(1,3,4) load kept2 none same(2) in simp)
qed

lemma write_keeps_files:
  assumes k: "menus_ok pre k ts" and "\<not> overwrites env" and "split_name env w name = (dir, base)"
    and "length (dir @ base) + 4 \<le> PATH_MAX" "length (dir @ ''.tmpconfig.'' @ dec_of_int pid) \<le> PATH_MAX"
    and tmp: "tmp = dir @ ''.tmpconfig.'' @ dec_of_int pid" "new = dir @ base" "tmp \<noteq> new" "tmp \<noteq> new @ ''.old''"
  shows "\<exists>ret msgs k' w'. conf_write env pid pre (Some name) (k, w) = Some (ret, msgs, k', w') \<and>
    (if \<not> fs_opens w tmp then ret = 1 \<and> k' = k \<and> w' = w
     else (\<exists>out k1. conf_text pre k = Some (out, k1) \<and>
       (if fs_renames w tmp new
        then ret = 0 \<and> fs_files w' new = Some out \<and> fs_files w' tmp = None \<and> \<not> conf_get_changed (tab k')
        else ret = 1 \<and> fs_files w' tmp = Some out) \<and>
       (if fs_files w new \<noteq> None \<and> fs_renames w new (new @ ''.old'')
        then fs_files w' (new @ ''.old'') = fs_files w new
        else fs_files w' (new @ ''.old'') = fs_files w (new @ ''.old'')) \<and>
       (\<forall>f. f \<notin> {tmp, new, new @ ''.old''} \<longrightarrow> fs_files w' f = fs_files w f)))"
proof (cases "fs_opens w tmp")
  case True
  obtain out k1 where t: "conf_text pre k = Some (out, k1)" using conf_text_lines [OF k] by metis
  define w1 where "w1 = write_file tmp out w"
  define w2 where "w2 = snd (rename_file new (new @ ''.old'') w1)"
  have 2: "fs_files w2 tmp = Some out" "fs_renames w2 = fs_renames w"
    "fs_files w2 (new @ ''.old'') = (if fs_files w new \<noteq> None \<and> fs_renames w new (new @ ''.old'') then fs_files w new
       else fs_files w (new @ ''.old''))"
    "\<And>f. f \<notin> {tmp, new, new @ ''.old''} \<Longrightarrow> fs_files w2 f = fs_files w f"
    using tmp(3,4) by (auto simp: w2_def w1_def rename_file_def write_file_def split: option.split)
  have c: "conf_write env pid pre (Some name) (k, w) =
      (case rename_file tmp new w2 of (done, w) \<Rightarrow>
         if \<not> done then Some (1, [], k1, w)
         else Some (0, [''configuration written to '' @ new], upd_tab (sym_set_change_count 0) k1, w))"
    using assms(2-5) True t unfolding tmp(1,2) w2_def w1_def
    by (simp add: conf_write_def Let_def split: prod.split)
  show ?thesis
  proof (cases "fs_renames w tmp new")
    case r: True
    then have "rename_file tmp new w2 = (True, w2\<lparr>fs_files := (fs_files w2)(tmp := None, new := Some out)\<rparr>)"
      using 2(1,2) by (simp add: rename_file_def)
    with c True r t 2(3,4) tmp(3,4) show ?thesis
      by (simp add: upd_tab_def conf_get_changed_def sym_set_change_count_def)
  next
    case False
    then have "rename_file tmp new w2 = (False, w2)" using 2(1,2) by (simp add: rename_file_def)
    with c True False t 2 show ?thesis by simp
  qed
next
  case False
  with assms(2-5) tmp(1,2) show ?thesis by (simp add: conf_write_def Let_def)
qed

section \<open>Properties\<close>

text \<open>
  C1: \<open>conf_write\<close> comes to the end of the menus with a text; each line of a symbol in it holds the
  value the symbol has in the end, and every entry whose calculated symbol asks to be written has a
  line. Reading that text into a table of the same configuration, whatever values it had, gives each
  symbol with a line the value of the line as the value of the user, where the value is one of its
  type, and no value to any other symbol.
\<close>

theorem write_read:
  assumes "menus_ok pre k ts"
  shows "\<exists>out k' st head cs. conf_text pre k = Some (out, k') \<and>
    recalculated (tab k) = Some st \<and> conf_write_heading kconfig_print_comment k = Some head \<and>
    no_line_left pre (head, k\<lparr>tab := st\<rparr>) (preorder ts) cs \<and>
    frames (tab k) (tab k') \<and>
    (\<forall>r v. Setting r v \<in> set cs \<longrightarrow> has_entry k r \<and>
       sym_get_string_value sym_calc_value r (tab k') = Some (v, tab k')) \<and>
    ((\<forall>r v. Setting r v \<in> set cs \<longrightarrow> safe_value (s_type (syms (tab k) r)) v) \<longrightarrow>
      (\<forall>rd name. frames (tab k) (rd_tab rd) \<longrightarrow> gives_back pre out cs name rd))"
proof -
  obtain st head k' ls cs where 1: "recalculated (tab k) = Some st" "frames (tab k) st"
    "conf_write_heading kconfig_print_comment k = Some head"
    "conf_text pre k = Some (lines_text pre (tab k) (map Remark ls @ cs), k')"
    "list_all (remark_ok pre) ls" "written pre (k\<lparr>tab := st\<rparr>) k' cs"
    "no_line_left pre (head, k\<lparr>tab := st\<rparr>) (preorder ts) cs"
    by (rule conf_text_lines [OF assms])
  have ok: "config_ok (tab k)" using assms by (simp add: menus_ok_def)
  have fin: "has_entry k r \<and> final_value (tab k') r v" if "Setting r v \<in> set cs" for r v
    using 1(6) that by (force simp: written_def has_entry_def)
  have "frames st (tab k')" using 1(6) keeps_frames by (simp add: written_def)
  then have "frames (tab k) (tab k')" by (rule frames_trans [OF 1(2)])
  with 1 fin show ?thesis
    by (intro exI [of _ "lines_text pre (tab k) (map Remark ls @ cs)"] exI [of _ k'] exI [of _ st]
        exI [of _ head] exI [of _ cs] conjI)
      (use final_value_string gives_back_written [OF ok 1(5,2,6)] in blast)+
qed

theorem write_read_witness:
  "\<exists>out k' cs. conf_text [] sample_conf = Some (out, k') \<and> gives_back [] out cs ''.config'' sample_reader"
proof -
  obtain out k' st head cs where 1: "conf_text [] sample_conf = Some (out, k')"
    "frames (tab sample_conf) (tab k')"
    "\<forall>r v. Setting r v \<in> set cs \<longrightarrow> has_entry sample_conf r \<and>
       sym_get_string_value sym_calc_value r (tab k') = Some (v, tab k')"
    "(\<forall>r v. Setting r v \<in> set cs \<longrightarrow> safe_value (s_type (syms (tab sample_conf) r)) v) \<longrightarrow>
      (\<forall>rd name. frames (tab sample_conf) (rd_tab rd) \<longrightarrow> gives_back [] out cs name rd)"
    using write_read [OF sample_menus_ok] by blast
  have "safe_value t v" if "Setting r v \<in> set cs" for t r v
  proof -
    have "has_entry sample_conf r" using 1(3) that by blast
    then have "r = SymId 5"
      by (auto simp: has_entry_def sample_conf_def sample_menu_def blank_menu_def split: if_splits)
    then have "s_type (syms (tab k') r) = S_BOOLEAN"
      using same_frameD(1) [OF framesD(3) [OF 1(2)], of r]
      by (simp add: sample_conf_def sample_table_simps sample_set_simps(2))
    moreover have "sym_get_string_value sym_calc_value r (tab k') = Some (v, tab k')" using 1(3) that by blast
    ultimately have "v \<in> {''y'', ''m'', ''n''}"
      by (auto simp: sym_get_string_value_def is_tri_def split: tristate.splits bind_splits if_splits)
    then show ?thesis by (auto simp: safe_value_def)
  qed
  with 1(4) have "gives_back [] out cs ''.config'' sample_reader"
    by (simp add: sample_conf_def sample_reader_def)
  with 1(1) show ?thesis by blast
qed


text \<open>
  C2: writing the configuration over a temporary file never leaves a part of it: where the temporary
  file cannot be opened nothing happens; where it can, the whole text is either in place, with
  nothing counted as changed any more, or still in the temporary file. What was in place before is
  then in the file with \<open>.old\<close> at its end, if it can be renamed at all, and no other file changes.
\<close>

theorem conf_write_keeps_files:
  assumes k: "menus_ok pre k ts" and "\<not> overwrites env" and "split_name env w name = (dir, base)"
    and "length (dir @ base) + 4 \<le> PATH_MAX" "length (dir @ ''.tmpconfig.'' @ dec_of_int pid) \<le> PATH_MAX"
    and tmp: "tmp = dir @ ''.tmpconfig.'' @ dec_of_int pid" "new = dir @ base" "tmp \<noteq> new" "tmp \<noteq> new @ ''.old''"
  shows "\<exists>ret msgs k' w'. conf_write env pid pre (Some name) (k, w) = Some (ret, msgs, k', w') \<and>
    (if \<not> fs_opens w tmp then ret = 1 \<and> k' = k \<and> w' = w
     else (\<exists>out k1. conf_text pre k = Some (out, k1) \<and>
       (if fs_renames w tmp new
        then ret = 0 \<and> fs_files w' new = Some out \<and> fs_files w' tmp = None \<and> \<not> conf_get_changed (tab k')
        else ret = 1 \<and> fs_files w' tmp = Some out) \<and>
       (if fs_files w new \<noteq> None \<and> fs_renames w new (new @ ''.old'')
        then fs_files w' (new @ ''.old'') = fs_files w new
        else fs_files w' (new @ ''.old'') = fs_files w (new @ ''.old'')) \<and>
       (\<forall>f. f \<notin> {tmp, new, new @ ''.old''} \<longrightarrow> fs_files w' f = fs_files w f)))"
  using assms by (rule write_keeps_files)

theorem conf_write_keeps_files_witness:
  "\<exists>msgs k' w' out k1. conf_write \<lparr>env_files = Map.empty, env_var = Map.empty\<rparr> 7 [] (Some ''.config'')
      (sample_conf, \<lparr>fs_files = [''.config'' \<mapsto> ''old''], fs_dirs = {}, fs_opens = (\<lambda>f. True), fs_renames = (\<lambda>a b. True)\<rparr>) =
      Some (0, msgs, k', w') \<and> conf_text [] sample_conf = Some (out, k1) \<and>
     fs_files w' ''.config'' = Some out \<and> fs_files w' ''.config.old'' = Some ''old''"
proof -
  let ?e = "\<lparr>env_files = Map.empty, env_var = Map.empty\<rparr>"
  let ?w = "\<lparr>fs_files = [''.config'' \<mapsto> ''old''], fs_dirs = {}, fs_opens = (\<lambda>f. True), fs_renames = (\<lambda>a b. True)\<rparr>"
  have s: "split_name ?e ?w ''.config'' = ([], ''.config'')" "\<not> overwrites ?e"
    by (simp_all add: split_name_def overwrites_def)
  have d: "dec_of_int 7 = ''7''" by code_simp
  have l: "length ([] @ ''.config'') + 4 \<le> PATH_MAX" "length ([] @ ''.tmpconfig.'' @ dec_of_int 7) \<le> PATH_MAX"
    "''.tmpconfig.7'' = [] @ ''.tmpconfig.'' @ dec_of_int 7" "''.config'' = [] @ ''.config''"
    "''.tmpconfig.7'' \<noteq> ''.config''" "''.tmpconfig.7'' \<noteq> ''.config'' @ ''.old''"
    by (simp_all add: PATH_MAX_def d)
  obtain ret msgs k' w' where 1: "conf_write ?e 7 [] (Some ''.config'') (sample_conf, ?w) = Some (ret, msgs, k', w')"
    "\<exists>out k1. conf_text [] sample_conf = Some (out, k1) \<and> ret = 0 \<and> fs_files w' ''.config'' = Some out"
    "fs_files w' ''.config.old'' = Some ''old''"
    using conf_write_keeps_files [OF sample_menus_ok s(2,1) l] by auto
  then show ?thesis by blast
qed

end
