(* ===== verification/Kseen.thy ===== *)
theory Kseen
  imports Kwritten
begin

text \<open>
  Which entries of a tree can be seen. Asking with \<open>menu_is_visible\<close> may calculate symbols; where all of them are
  calculated, as \<open>conf_read\<close> leaves them, the answer is the one of a plain definition over the tree, and nothing
  changes but the mark \<open>SYMBOL_DEF_USER\<close> on symbols seen for what is below them only.
\<close>

section \<open>Trees and later states\<close>

text \<open>A tree whose entries are what the parser makes of them, below the root menu.\<close>

definition tree_ok :: "kconf \<Rightarrow> mtree list \<Rightarrow> bool" where
  "tree_ok k ts \<longleftrightarrow> wf_symtab (tab k) \<and> forest (menus k) (Some rootmenu) (mn_list (menus k rootmenu)) ts \<and>
     (\<forall>m \<in> set (preorder ts). entry_ok (tab k) (menus k m))"

definition later :: "kconf \<Rightarrow> kconf \<Rightarrow> bool" where
  "later k k' \<longleftrightarrow> menus k' = menus k \<and> keeps (tab k) (tab k')"

lemma later_refl [simp]: "later k k"
  by (simp add: later_def)

lemma later_trans: "later a b \<Longrightarrow> later b c \<Longrightarrow> later a c"
  by (auto simp: later_def intro: keeps_trans)

lemma later_tree_ok: "later k k' \<Longrightarrow> tree_ok k ts \<Longrightarrow> tree_ok k' ts"
  by (auto simp: later_def tree_ok_def entry_ok_frames [OF keeps_frames] intro: keeps_wf)

lemma later_calculated: "later k k' \<Longrightarrow> calculated (tab k) \<Longrightarrow> calculated (tab k')"
  using keepsD(5) by (auto simp: later_def)

text \<open>The whole tree: the root menu is an entry like the others.\<close>

definition rooted :: "kconf \<Rightarrow> mtree list \<Rightarrow> bool" where
  "rooted k ts \<longleftrightarrow> tree_ok k ts \<and> entry_ok (tab k) (menus k rootmenu)"

lemma rooted_later: "later k k' \<Longrightarrow> rooted k ts \<Longrightarrow> rooted k' ts"
  using later_tree_ok by (auto simp: rooted_def later_def entry_ok_frames [OF keeps_frames])

text \<open>The part of the tree in a list of siblings.\<close>

definition part :: "kconf \<Rightarrow> mtree list \<Rightarrow> nat option \<Rightarrow> nat option \<Rightarrow> mtree list \<Rightarrow> bool" where
  "part k ts par p us \<longleftrightarrow> tree_ok k ts \<and> forest (menus k) par p us \<and> set (preorder us) \<subseteq> set (preorder ts)"

lemma part_later: "later k k' \<Longrightarrow> part k ts par p us \<Longrightarrow> part k' ts par p us"
  using later_tree_ok by (auto simp: part_def later_def)

lemma part_Cons:
  assumes "part k ts par p (MNode m ks # us)"
  shows "p = Some m" "m \<in> set (preorder ts)" "part k ts (Some m) (mn_list (menus k m)) ks"
    "part k ts par (mn_next (menus k m)) us"
  using assms by (auto simp: part_def)

lemma root_part: "tree_ok k ts \<Longrightarrow> part k ts (Some rootmenu) (mn_list (menus k rootmenu)) ts"
  by (simp add: part_def tree_ok_def)

lemma below_part:
  assumes "tree_ok k ts" "m = rootmenu \<or> m \<in> set (preorder ts)"
  obtains us where "part k ts (Some m) (mn_list (menus k m)) us"
proof (cases "m \<in> set (preorder ts)")
  case True
  then show ?thesis
    using that forest_below [of "menus k" "Some rootmenu" "mn_list (menus k rootmenu)" ts m] assms(1)
    by (auto simp: part_def tree_ok_def)
qed (use that root_part [OF assms(1)] assms(2) in blast)

lemma visible_goes:
  assumes "tree_ok k ts" "m \<in> set (preorder ts)"
  obtains v k' where "menu_is_visible m k = Some (v, k')" "later k k'"
proof -
  have "goes k (menu_is_visible m k)"
    using assms(1) by (intro menu_is_visible_goes [OF _ _ _ assms(2)]) (auto simp: tree_ok_def)
  then show ?thesis using that by (auto simp: goes_def gives_def later_def)
qed

lemma entry_visible:
  assumes "rooted k ts" "m = rootmenu \<or> m \<in> set (preorder ts)"
  obtains v k' where "menu_is_visible m k = Some (v, k')" "later k k'"
proof (cases "m \<in> set (preorder ts)")
  case True
  then show ?thesis using visible_goes assms(1) that by (auto simp: rooted_def)
next
  case False
  then have m: "m = rootmenu" using assms(2) by simp
  have "goes k (menu_is_visible m k)"
    unfolding menu_is_visible_def m
  proof (rule menu_search_one)
    fix k' :: kconf assume "menus k' = menus k" "keeps (tab k) (tab k')"
    then have "tree_ok k' ts" "menus k' = menus k" using later_tree_ok assms(1) by (auto simp: rooted_def later_def)
    then show "goes k' (menu_search False (mn_list (menus k rootmenu)) k')"
      using menu_search_forest [of k'] by (auto simp: tree_ok_def)
  qed (use assms(1) in \<open>simp_all add: rooted_def tree_ok_def\<close>)
  then show ?thesis using that by (auto simp: goes_def gives_def later_def)
qed

section \<open>The entries that are seen\<close>

text \<open>The entries of a list.\<close>

definition siblings :: "kconf \<Rightarrow> nat option \<Rightarrow> nat set" where
  "siblings k p = {c. \<exists>f. p = Some f \<and> (f, c) \<in> {(a, b). mn_next (menus k a) = Some b}\<^sup>*}"

lemma siblings_None [simp]: "siblings k None = {}"
  by (simp add: siblings_def)

lemma siblings_Some: "siblings k (Some c) = insert c (siblings k (mn_next (menus k c)))"
  by (auto simp: siblings_def intro: converse_rtrancl_into_rtrancl elim: converse_rtranclE)

text \<open>An entry is there to be seen with a prompt and where \<open>visible if\<close> holds; the value of its prompt.\<close>

definition allowed :: "kconf \<Rightarrow> nat \<Rightarrow> bool" where
  "allowed k m \<longleftrightarrow> mn_prompt (menus k m) \<noteq> None \<and>
     (case mn_visibility (menus k m) of None \<Rightarrow> True | Some e \<Rightarrow> expr_val (view (tab k)) e \<noteq> T_no)"

definition prompt_val :: "kconf \<Rightarrow> nat \<Rightarrow> tristate" where
  "prompt_val k m =
     (case mn_sym (menus k m) of
        Some r \<Rightarrow> (case mn_prompt (menus k m) of Some (P_at i) \<Rightarrow> vis_tri (tab k) r i | _ \<Rightarrow> T_no)
      | None \<Rightarrow> (case mn_prompt (menus k m) of
          Some (P_own p) \<Rightarrow> expr_val_opt (view (tab k)) (p_visible p) | _ \<Rightarrow> T_no))"

text \<open>An entry is seen for its prompt, or as a symbol that is not \<open>n\<close> with an entry below it that is seen.\<close>

inductive seen :: "kconf \<Rightarrow> nat \<Rightarrow> bool" for k where
  own: "allowed k m \<Longrightarrow> prompt_val k m \<noteq> T_no \<Longrightarrow> seen k m"
| below: "allowed k m \<Longrightarrow> mn_sym (menus k m) = Some r \<Longrightarrow> sv_tri (view (tab k)) r \<noteq> T_no \<Longrightarrow>
    c \<in> siblings k (mn_list (menus k m)) \<Longrightarrow> seen k c \<Longrightarrow> seen k m"

inductive_simps seen_iff: "seen k m"

text \<open>A symbol seen for what is below it only is marked: it counts as set by the user.\<close>

definition carried :: "kconf \<Rightarrow> symref \<Rightarrow> bool" where
  "carried k r \<longleftrightarrow> (\<exists>m. mn_sym (menus k m) = Some r \<and> seen k m \<and> prompt_val k m = T_no)"

definition user_marked :: "symbol \<Rightarrow> symbol" where
  "user_marked s = s\<lparr>s_flags := insert SYMBOL_DEF_USER (s_flags s)\<rparr>"

lemma user_marked_twice [simp]: "user_marked (user_marked s) = user_marked s"
  by (simp add: user_marked_def)

lemma user_marked_syms:
  "syms (set_flags r {SYMBOL_DEF_USER} st) = (syms st)(r := user_marked (syms st r))"
  "set_flags r {SYMBOL_DEF_USER} st = st\<lparr>syms := syms (set_flags r {SYMBOL_DEF_USER} st)\<rparr>"
  by (simp_all add: set_flags_def upd_sym_def user_marked_def fun_eq_iff)

definition marked :: "kconf \<Rightarrow> kconf \<Rightarrow> bool" where
  "marked k k' \<longleftrightarrow> k' = k\<lparr>tab := (tab k)\<lparr>syms := syms (tab k')\<rparr>\<rparr> \<and>
     (\<forall>r. syms (tab k') r = syms (tab k) r \<or>
        carried k r \<and> syms (tab k') r = user_marked (syms (tab k) r))"

lemma seen_mono:
  assumes "menus k' = menus k" "allowed k' = allowed k" "prompt_val k' = prompt_val k" "view (tab k') = view (tab k)"
  shows "seen k m \<Longrightarrow> seen k' m"
proof (induction rule: seen.induct)
  case (own m)
  then show ?case using assms by (intro seen.own) simp_all
next
  case (below m r c)
  have "siblings k' = siblings k" by (intro ext) (simp add: siblings_def assms(1))
  with below assms show ?case by (intro seen.below [of k' m r c]) simp_all
qed

lemma seen_later:
  assumes "later k k'" "calculated (tab k)"
  shows "seen k' = seen k" "prompt_val k' = prompt_val k" "carried k' = carried k"
proof -
  have u: "unchanged (tab k) (tab k')" and m: "menus k' = menus k" and f: "frames (tab k) (tab k')"
    using assms keepsD(1,4) by (auto simp: later_def)
  note u' = unchangedD [OF u]
  have c: "SYMBOL_CONST \<in> s_flags (syms (tab k') r) \<longleftrightarrow> SYMBOL_CONST \<in> s_flags (syms (tab k) r)" for r
    by (rule u'(11)) simp_all
  have t: "value_text (tab k') = value_text (tab k)"
    by (intro ext) (simp add: value_text_def Let_def u'(3,8) framesD(1) [OF f] split: tristate.split option.split)
  have v: "view (tab k') = view (tab k)" by (simp add: view_def t c u'(3,8,9))
  show p: "prompt_val k' = prompt_val k" by (intro ext, unfold prompt_val_def m v u'(1), rule refl)
  have a: "allowed k' = allowed k" by (intro ext, unfold allowed_def m v, rule refl)
  show s: "seen k' = seen k"
    using seen_mono [OF m a p v] seen_mono [OF m [symmetric] a [symmetric] p [symmetric] v [symmetric]] by blast
  show "carried k' = carried k" by (intro ext) (simp add: carried_def m s p)
qed

lemma marked_later:
  assumes "marked k k'"
  shows "later k k'"
proof -
  have e: "k' = k\<lparr>tab := (tab k)\<lparr>syms := syms (tab k')\<rparr>\<rparr>" using assms by (simp add: marked_def)
  have t: "tab k' = (tab k)\<lparr>syms := syms (tab k')\<rparr>" and m: "menus k' = menus k"
    using arg_cong [OF e, of tab] arg_cong [OF e, of menus] by simp_all
  have c: "SYMBOL_DEF_USER \<notin> fixed_flags" by (simp add: fixed_flags_def)
  have s: "same_frame (syms (tab k) r) (syms (tab k') r) \<and> same_value (syms (tab k) r) (syms (tab k') r) \<and>
      (SYMBOL_VALID \<in> s_flags (syms (tab k) r) \<longrightarrow> SYMBOL_VALID \<in> s_flags (syms (tab k') r)) \<and>
      (syms (tab k') r)\<lparr>s_flags := {}\<rparr> = (syms (tab k) r)\<lparr>s_flags := {}\<rparr> \<and>
      s_flags (syms (tab k') r) - {SYMBOL_DEF_USER, SYMBOL_WRITE} = s_flags (syms (tab k) r) - {SYMBOL_DEF_USER, SYMBOL_WRITE}" for r
  proof -
    have "syms (tab k') r = syms (tab k) r \<or>
        syms (tab k') r = user_marked (syms (tab k) r)"
      using assms by (auto simp: marked_def)
    then show ?thesis using c by (auto simp: user_marked_def same_frame_def same_value_def sym_is_choice_value_def)
  qed
  have "frames (tab k) (tab k')" using s by (subst t) (simp add: frames_def)
  moreover have "unchanged (tab k) (tab k')" using s by (subst t) (simp add: unchanged_def)
  ultimately show ?thesis using s m by (simp add: later_def keeps_def)
qed

lemma marked_refl [simp]: "marked k k"
  by (simp add: marked_def)

lemma marked_trans:
  assumes "calculated (tab k)" "marked k k1" "marked k1 k2"
  shows "marked k k2"
proof -
  have c: "carried k1 = carried k" by (rule seen_later(3) [OF marked_later [OF assms(2)] assms(1)])
  have e1: "k1 = k\<lparr>tab := (tab k)\<lparr>syms := syms (tab k1)\<rparr>\<rparr>" using assms(2) by (simp add: marked_def)
  have "k2 = k1\<lparr>tab := (tab k1)\<lparr>syms := syms (tab k2)\<rparr>\<rparr>" using assms(3) by (simp add: marked_def)
  then have e: "k2 = k\<lparr>tab := (tab k)\<lparr>syms := syms (tab k2)\<rparr>\<rparr>" by (subst (asm) (1 2) e1) simp
  have "syms (tab k2) r = syms (tab k) r \<or> carried k r \<and>
      syms (tab k2) r = user_marked (syms (tab k) r)" for r
  proof -
    have 1: "syms (tab k1) r = syms (tab k) r \<or> carried k r \<and>
        syms (tab k1) r = user_marked (syms (tab k) r)"
      using assms(2) by (simp add: marked_def)
    have 2: "syms (tab k2) r = syms (tab k1) r \<or> carried k r \<and>
        syms (tab k2) r = user_marked (syms (tab k1) r)"
      using assms(3) by (simp add: marked_def c)
    from 1 show ?thesis
    proof (elim disjE conjE)
      assume "syms (tab k1) r = syms (tab k) r"
      with 2 show ?thesis by simp
    next
      assume "carried k r" "syms (tab k1) r = user_marked (syms (tab k) r)"
      with 2 show ?thesis by auto
    qed
  qed
  with e show ?thesis by (simp add: marked_def)
qed

lemma marked_set:
  assumes "marked k k1" "carried k r"
  shows "marked k (upd_tab (set_flags r {SYMBOL_DEF_USER}) k1)"
proof -
  let ?k = "upd_tab (set_flags r {SYMBOL_DEF_USER}) k1"
  have e1: "k1 = k\<lparr>tab := (tab k)\<lparr>syms := syms (tab k1)\<rparr>\<rparr>"
    and s1: "syms (tab k1) q = syms (tab k) q \<or> carried k q \<and> syms (tab k1) q = user_marked (syms (tab k) q)" for q
    using assms(1) by (simp_all add: marked_def)
  have "syms (tab ?k) q = syms (tab k) q \<or> carried k q \<and> syms (tab ?k) q = user_marked (syms (tab k) q)" for q
  proof (cases "q = r")
    case True
    have "user_marked (syms (tab k1) r) = user_marked (syms (tab k) r)" using s1 [of r] by (elim disjE conjE) simp_all
    then show ?thesis using True assms(2) by (simp add: upd_tab_def user_marked_syms(1))
  qed (use s1 in \<open>simp add: upd_tab_def user_marked_syms(1)\<close>)
  moreover have "?k = k\<lparr>tab := (tab k)\<lparr>syms := syms (tab ?k)\<rparr>\<rparr>"
    by (subst e1, subst (2) e1) (simp add: upd_tab_def set_flags_def upd_sym_def)
  ultimately show ?thesis unfolding marked_def by blast
qed

text \<open>\<open>menu_is_visible\<close> finds just the entries that are seen.\<close>

definition finds :: "kconf \<Rightarrow> bool \<Rightarrow> (bool \<times> kconf) option \<Rightarrow> bool" where
  "finds k v m \<longleftrightarrow> (\<exists>k'. m = Some (v, k') \<and> marked k k')"

lemma search_one_seen:
  assumes "wf_symtab (tab k)" "calculated (tab k)" "entry_ok (tab k) (menus k m)"
    and below: "finds k (\<exists>c \<in> siblings k (mn_list (menus k m)). seen k c) (menu_search False (mn_list (menus k m)) k)"
  shows "\<exists>k'. menu_search True (Some m) k = Some (seen k m, k') \<and> marked k k' \<and>
    (seen k m \<longrightarrow> prompt_val k m = T_no \<longrightarrow>
      (\<exists>r. mn_sym (menus k m) = Some r \<and> SYMBOL_DEF_USER \<in> s_flags (syms (tab k') r)))"
proof (cases "mn_prompt (menus k m)")
  case None
  then have "\<not> seen k m" by (simp add: seen_iff [of k m] allowed_def)
  with None show ?thesis by (simp add: menu_search.simps [of True "Some m"])
next
  case (Some pr)
  have vis: "visibility_no m k = Some (\<not> allowed k m, k)"
    using assms(3) calculated_expr [OF assms(1,2)] Some
    by (auto simp: visibility_no_def allowed_def entry_ok_def opt_in_def split: option.split)
  have tri: "prompt_tri m k = Some (prompt_val k m, k)"
    using assms(3) calculated_calc [OF assms(2)] calculated_opt [OF assms(1,2)] Some
    by (cases "mn_sym (menus k m)") (auto simp: prompt_tri_def prompt_val_def entry_ok_def menu_prompt_def split: prompt.splits)
  obtain k1 where k1: "menu_search False (mn_list (menus k m)) k = Some (\<exists>c \<in> siblings k (mn_list (menus k m)). seen k c, k1)"
    "marked k k1" using below by (auto simp: finds_def)
  have s: "menu_search True (Some m) k = (if \<not> allowed k m then Some (False, k)
      else if prompt_val k m \<noteq> T_no then Some (True, k)
      else case mn_sym (menus k m) of
          None \<Rightarrow> Some (False, k)
        | Some r \<Rightarrow>
            if sv_tri (view (tab k)) r = T_no then Some (False, k)
            else if \<exists>c \<in> siblings k (mn_list (menus k m)). seen k c
              then Some (True, upd_tab (set_flags r {SYMBOL_DEF_USER}) k1) else Some (False, k1))"
    using Some vis tri k1(1)
    by (subst menu_search.simps) (simp add: view_def sym_get_tristate_value_def cong: if_cong split: option.split)
  show ?thesis
  proof (cases "allowed k m \<and> prompt_val k m = T_no \<and> seen k m")
    case True
    then obtain r where r: "mn_sym (menus k m) = Some r" "sv_tri (view (tab k)) r \<noteq> T_no"
      "\<exists>c \<in> siblings k (mn_list (menus k m)). seen k c"
      using seen_iff [of k m] by auto
    have "carried k r" using True r(1) by (auto simp: carried_def)
    then have "marked k (upd_tab (set_flags r {SYMBOL_DEF_USER}) k1)" by (rule marked_set [OF k1(2)])
    then show ?thesis using s True r by (simp add: upd_tab_def set_flags_def upd_sym_def)
  next
    case False
    have "seen k m \<longleftrightarrow> allowed k m \<and> prompt_val k m \<noteq> T_no" using False seen_iff [of k m] by blast
    with False show ?thesis using s k1(2) seen_iff [of k m]
      by (auto split: option.split)
  qed
qed

lemma search_forest_seen:
  "part k ts par p us \<Longrightarrow> calculated (tab k) \<Longrightarrow>
   finds k (\<exists>c \<in> siblings k p. seen k c) (menu_search False p k)"
proof (induction us arbitrary: k par p rule: preorder.induct)
  case 1
  then have "p = None" by (simp add: part_def)
  then show ?case by (simp add: menu_search.simps [of False None] finds_def)
next
  case (2 m ks us)
  note part = part_Cons [OF 2(3)]
  have m: "wf_symtab (tab k)" "entry_ok (tab k) (menus k m)" using 2(3) part(2) by (auto simp: part_def tree_ok_def)
  obtain k1 where k1: "menu_search True (Some m) k = Some (seen k m, k1)" "marked k k1"
    using search_one_seen [OF m(1) 2(4) m(2) 2(1) [OF part(3) 2(4)]] by blast
  have l: "later k k1" by (rule marked_later [OF k1(2)])
  have s: "siblings k1 = siblings k" using l by (intro ext) (simp add: siblings_def later_def)
  have "finds k1 (\<exists>c \<in> siblings k (mn_next (menus k m)). seen k c) (menu_search False (mn_next (menus k m)) k1)"
    using 2(2) [OF part_later [OF l part(4)] later_calculated [OF l 2(4)]] unfolding s seen_later(1) [OF l 2(4)] .
  moreover have "menus k1 = menus k" using l by (simp add: later_def)
  ultimately show ?case
    using k1 part(1) marked_trans [OF 2(4) k1(2)] siblings_Some [of k m]
    by (auto simp: finds_def menu_search.simps [of False "Some m"])
qed

lemma visible_seen:
  assumes "tree_ok k ts" "calculated (tab k)" "m = rootmenu \<or> m \<in> set (preorder ts)" "entry_ok (tab k) (menus k m)"
  obtains k' where "menu_is_visible m k = Some (seen k m, k')" "marked k k'"
    "seen k m \<longrightarrow> prompt_val k m = T_no \<longrightarrow> (\<exists>r. mn_sym (menus k m) = Some r \<and> SYMBOL_DEF_USER \<in> s_flags (syms (tab k') r))"
proof -
  obtain us where us: "part k ts (Some m) (mn_list (menus k m)) us" by (rule below_part [OF assms(1,3)])
  have "wf_symtab (tab k)" using assms(1) by (simp add: tree_ok_def)
  from search_one_seen [OF this assms(2,4) search_forest_seen [OF us assms(2)]] show ?thesis
    using that unfolding menu_is_visible_def by blast
qed

end
