(* ===== verification/Khelp.thy ===== *)
theory Khelp
  imports Kseen
begin

text \<open>
  The texts about a symbol that the front ends show, from \<open>support/kconfig/menu.c\<close> and the end of
  \<open>expr.c\<close>: expressions with the values of their symbols, where a prompt is found, what selects a symbol,
  and the list of places to jump to. Asking whether a menu is visible and reading values calculates
  symbols, so the state goes through. Where the code gives \<open>printf\<close> a NULL, the C library prints \<open>(null)\<close>.
\<close>

section \<open>Expressions\<close>

definition printed :: "cstring option \<Rightarrow> cstring" where
  "printed s = (case s of Some t \<Rightarrow> t | None \<Rightarrow> ''(null)'')"

text \<open>A call that \<open>expr_print\<close> makes; the line is broken where it gets wider than \<open>max_width\<close>.\<close>

definition expr_print_gstr_helper :: "print_call \<Rightarrow> gstr \<times> symtab \<Rightarrow> (gstr \<times> symtab) option" where
  "expr_print_gstr_helper = (\<lambda>(sym, str) (gs, st). do {
     (sym_str, st) \<leftarrow> (case sym of
         None \<Rightarrow> Some (None, st)
       | Some r \<Rightarrow> do { (v, st) \<leftarrow> sym_get_string_value sym_calc_value r st; Some (Some v, st) });
     gs \<leftarrow> (if gs_max_width gs \<noteq> 0
       then do {
         s \<leftarrow> str;
         let extra_length = length s + (case sym_str of Some t \<Rightarrow> 4 + length t | None \<Rightarrow> 0);
         let last_line_length = (case strrchr_split (CHR 0x0A) (gs_s gs) of
             Some (b, r) \<Rightarrow> Suc (length r) | None \<Rightarrow> length (gs_s gs));
         if int (last_line_length + extra_length) > gs_max_width gs
         then str_append gs (Some [CHR 0x5C, CHR 0x0A]) else Some gs
       }
       else Some gs);
     gs \<leftarrow> str_append gs str;
     gs \<leftarrow> (case sym of
         Some r \<Rightarrow> if s_type (syms st r) \<noteq> S_UNKNOWN
           then str_printf gs ('' [='' @ printed sym_str @ '']'') else Some gs
       | None \<Rightarrow> Some gs);
     Some (gs, st)
   })"

definition expr_gstr_print :: "expr option \<Rightarrow> gstr \<times> symtab \<Rightarrow> (gstr \<times> symtab) option" where
  "expr_gstr_print e = (\<lambda>(gs, st). fold_opt expr_print_gstr_helper (expr_print_opt (view st) e E_NONE) (gs, st))"

section \<open>Where a prompt is\<close>

text \<open>A place to jump to. The list is NULL for the callers that have none.\<close>

record jump_key =
  j_offset :: nat
  j_target :: nat
  j_index :: nat

type_synonym help_text = "gstr \<times> jump_key list option \<times> kconf"

text \<open>
  The menus above, at most \<open>n\<close>, from the inner to the outer, and the first of them that is visible;
  None where the way up leaves the tree.
\<close>

fun submenus :: "nat \<Rightarrow> nat option \<Rightarrow> nat option \<Rightarrow> kconf \<Rightarrow> (nat list \<times> nat option \<times> kconf) option" where
  "submenus 0 mo location k = Some ([], location, k)"
| "submenus (Suc n) mo location k = do {
     m \<leftarrow> mo;
     if m = rootmenu then Some ([], location, k)
     else do {
       (accessible, k) \<leftarrow> menu_is_visible m k;
       let location = (if location = None \<and> accessible then Some m else location);
       (ms, location, k) \<leftarrow> submenus n (mn_parent (menus k m)) location k;
       Some (m # ms, location, k)
     }
   }"

definition new_jump :: "nat \<Rightarrow> jump_key list \<Rightarrow> jump_key list" where
  "new_jump target head = head @ [\<lparr>j_offset = 0, j_target = target,
     j_index = (if head = [] then 0 else Suc (j_index (last head)))\<rparr>]"

definition set_offset :: "nat \<Rightarrow> jump_key list \<Rightarrow> jump_key list" where
  "set_offset n head = (if head = [] then [] else butlast head @ [(last head)\<lparr>j_offset := n\<rparr>])"

text \<open>A line for a menu, \<open>j\<close> columns to the right.\<close>

definition location_line :: "nat \<Rightarrow> nat \<Rightarrow> gstr \<times> kconf \<Rightarrow> (gstr \<times> kconf) option" where
  "location_line j m = (\<lambda>(r, k). do {
     r \<leftarrow> str_printf r (replicate j (CHR '' '') @ ''-> '' @ printed (menu_get_prompt k m));
     (r, k) \<leftarrow> (case mn_sym (menus k m) of
         None \<Rightarrow> Some (r, k)
       | Some q \<Rightarrow> do {
           (v, st) \<leftarrow> sym_get_string_value sym_calc_value q (tab k);
           r \<leftarrow> str_printf r ('' ('' @ name_or_choice (syms st q) @ '' [='' @ v @ ''])'');
           Some (r, k\<lparr>tab := st\<rparr>)
         });
     r \<leftarrow> str_append r (Some [CHR 0x0A]);
     Some (r, k)
   })"

fun location_lines :: "nat \<Rightarrow> nat option \<Rightarrow> nat list \<Rightarrow> help_text \<Rightarrow> help_text option" where
  "location_lines j location [] h = Some h"
| "location_lines j location (m # ms) (r, head, k) = do {
     let head = (if location = Some m then map_option (set_offset (length (gs_s r))) head else head);
     (r, k) \<leftarrow> location_line j m (r, k);
     location_lines (j + 2) location ms (r, head, k)
   }"

definition get_prompt_str :: "property \<Rightarrow> help_text \<Rightarrow> help_text option" where
  "get_prompt_str prop = (\<lambda>(r, head, k). do {
     r \<leftarrow> str_printf r (''Prompt: '' @ printed (p_text prop) @ [CHR 0x0A]);
     pm \<leftarrow> p_menu prop;
     (ms, location, k) \<leftarrow> submenus 8 (mn_parent (menus k pm)) None k;
     (head, k) \<leftarrow> (case (head, location) of
         (Some h, Some l) \<Rightarrow> do {
           (visible, k) \<leftarrow> menu_is_visible pm k;
           Some (Some (new_jump (if visible then pm else l) h), k)
         }
       | _ \<Rightarrow> Some (head, k));
     if ms = [] then Some (r, head, k)
     else do {
       r \<leftarrow> str_printf r (''  Location:'' @ [CHR 0x0A]);
       location_lines 4 location (rev ms) (r, head, k)
     }
   })"

section \<open>A symbol\<close>

definition get_symbol_prop :: "symbol \<Rightarrow> property option" where
  "get_symbol_prop s = find (\<lambda>p. p_type p = P_SYMBOL) (s_props s)"

definition print_expr_line :: "cstring \<Rightarrow> expr option \<Rightarrow> gstr \<times> symtab \<Rightarrow> (gstr \<times> symtab) option" where
  "print_expr_line label e = (\<lambda>(r, st). do {
     r \<leftarrow> str_append r (Some label);
     (r, st) \<leftarrow> expr_gstr_print e (r, st);
     r \<leftarrow> str_append r (Some [CHR 0x0A]);
     Some (r, st)
   })"

definition symbol_head :: "symref \<Rightarrow> gstr \<times> symtab \<Rightarrow> (gstr \<times> symtab) option" where
  "symbol_head q = (\<lambda>(r, st).
     case s_name (syms st q) of
       None \<Rightarrow> Some (r, st)
     | Some name \<Rightarrow> do {
         (v, st) \<leftarrow> sym_get_string_value sym_calc_value q st;
         r \<leftarrow> str_printf r (''Symbol: '' @ name @ '' [='' @ v @ '']'' @ [CHR 0x0A]);
         r \<leftarrow> str_printf r (''Type  : '' @ sym_type_name (s_type (syms st q)) @ [CHR 0x0A]);
         if s_type (syms st q) = S_INT \<or> s_type (syms st q) = S_HEX
         then do {
           (prop, st) \<leftarrow> sym_get_range_prop sym_calc_value q st;
           case prop of
             None \<Rightarrow> Some (r, st)
           | Some (p, _) \<Rightarrow> print_expr_line ''Range : '' (p_expr p) (r, st)
         }
         else Some (r, st)
       })"

fun print_selects :: "bool \<Rightarrow> property list \<Rightarrow> gstr \<times> symtab \<Rightarrow> (gstr \<times> symtab) option" where
  "print_selects hit [] (r, st) =
     (if hit then do { r \<leftarrow> str_append r (Some [CHR 0x0A]); Some (r, st) } else Some (r, st))"
| "print_selects hit (p # ps) (r, st) = do {
     r \<leftarrow> str_append r (Some (if \<not> hit then ''  Selects: '' else '' && ''));
     (r, st) \<leftarrow> expr_gstr_print (p_expr p) (r, st);
     print_selects True ps (r, st)
   }"

definition symbol_deps :: "(nat \<Rightarrow> cstring \<times> nat) \<Rightarrow> symref \<Rightarrow> gstr \<times> symtab \<Rightarrow> (gstr \<times> symtab) option" where
  "symbol_deps menu_pos q = (\<lambda>(r, st). do {
     (r, st) \<leftarrow> (case get_symbol_prop (syms st q) of
         None \<Rightarrow> Some (r, st)
       | Some p \<Rightarrow> do {
           pm \<leftarrow> p_menu p;
           r \<leftarrow> str_printf r (''  Defined at '' @ fst (menu_pos pm) @ '':'' @ dec_of_nat (snd (menu_pos pm)) @ [CHR 0x0A]);
           if expr_is_yes (p_visible p) then Some (r, st)
           else print_expr_line ''  Depends on: '' (p_visible p) (r, st)
         });
     (r, st) \<leftarrow> print_selects False (props_of P_SELECT (syms st q)) (r, st);
     (r, st) \<leftarrow> (if fst (s_rev_dep (syms st q)) = None then Some (r, st)
       else print_expr_line ''  Selected by: '' (fst (s_rev_dep (syms st q))) (r, st));
     r \<leftarrow> str_append r (Some [CHR 0x0A, CHR 0x0A]);
     Some (r, st)
   })"

definition get_symbol_str :: "symref \<Rightarrow> help_text \<Rightarrow> help_text option" where
  "get_symbol_str q = (\<lambda>(r, head, k). do {
     (r, st) \<leftarrow> symbol_head q (r, tab k);
     (r, head, k) \<leftarrow> fold_opt get_prompt_str (filter (\<lambda>p. p_text p \<noteq> None) (s_props (syms st q))) (r, head, k\<lparr>tab := st\<rparr>);
     (r, st) \<leftarrow> symbol_deps (\<lambda>m. mn_pos (menus k m)) q (r, tab k);
     Some (r, head, k\<lparr>tab := st\<rparr>)
   })"

text \<open>The symbols of a search; without an array it is as if it were empty.\<close>

definition get_relations_str :: "symref list option \<Rightarrow> jump_key list option \<Rightarrow> kconf \<Rightarrow> help_text option" where
  "get_relations_str sym_arr head k =
     (let qs = (case sym_arr of Some qs \<Rightarrow> qs | None \<Rightarrow> []) in do {
        (r, head, k) \<leftarrow> fold_opt get_symbol_str qs (str_new, head, k);
        r \<leftarrow> (if qs = [] then str_append r (Some (''No matches found.'' @ [CHR 0x0A])) else Some r);
        Some (r, head, k)
      })"

definition nohelp_text :: cstring where
  "nohelp_text = ''There is no help available for this option.''"

text \<open>A menu with a help text has a symbol; without one the code follows a NULL pointer.\<close>

definition menu_get_ext_help :: "cstring \<Rightarrow> nat \<Rightarrow> gstr \<times> kconf \<Rightarrow> (gstr \<times> kconf) option" where
  "menu_get_ext_help pre m = (\<lambda>(help, k). do {
     help \<leftarrow> (if menu_has_help k m
       then do {
         q \<leftarrow> mn_sym (menus k m);
         case s_name (syms (tab k) q) of
           Some n \<Rightarrow> str_printf help (pre @ n @ '':'' @ [CHR 0x0A, CHR 0x0A])
         | None \<Rightarrow> Some help
       }
       else Some help);
     help \<leftarrow> str_printf help ((if menu_has_help k m then menu_get_help k m else nohelp_text) @ [CHR 0x0A]);
     case mn_sym (menus k m) of
       None \<Rightarrow> Some (help, k)
     | Some q \<Rightarrow> do {
         (help, _, k) \<leftarrow> get_symbol_str q (help, None, k);
         Some (help, k)
       }
   })"


section \<open>The texts only grow\<close>

definition grows :: "gstr \<Rightarrow> gstr \<Rightarrow> bool" where
  "grows r r' \<longleftrightarrow> gs_max_width r = 0 \<longrightarrow> gs_max_width r' = 0 \<and> (\<exists>t. gs_s r' = gs_s r @ t)"

definition appends :: "gstr \<Rightarrow> gstr option \<Rightarrow> bool" where
  "appends r m \<longleftrightarrow> gives m (grows r)"

text \<open>A step that writes to a string and calculates symbols, whose values stay.\<close>

definition writes :: "gstr \<Rightarrow> symtab \<Rightarrow> (gstr \<times> symtab) option \<Rightarrow> bool" where
  "writes r st m \<longleftrightarrow> gives m (\<lambda>(r', st'). grows r r' \<and> keeps st st')"

lemma grows_refl [simp]: "grows r r"
  by (simp add: grows_def)

lemma grows_trans: "grows a b \<Longrightarrow> grows b c \<Longrightarrow> grows a c"
  by (auto simp: grows_def)

lemma str_append_appends [simp]: "appends r (str_append r so)"
proof (cases so)
  case (Some s)
  obtain r' where r': "str_append r (Some s) = Some r'" "str_get r' = str_get r @ s"
    using str_append_ok by blast
  then have "gs_max_width r' = gs_max_width r"
    by (auto simp: str_append_def append_to_def Let_def split: if_splits)
  with r' show ?thesis by (simp add: Some appends_def grows_def str_get_def)
qed (simp add: appends_def str_append_def)

lemma str_printf_appends [simp]: "appends r (str_printf r s)"
  by (simp add: str_printf_def)

lemma appends_Some [simp]: "appends r (Some r') \<longleftrightarrow> grows r r'"
  by (simp add: appends_def)

lemma writes_Some [simp]: "writes r st (Some (r', st')) \<longleftrightarrow> grows r r' \<and> keeps st st'"
  by (simp add: writes_def)

lemma appendsE:
  assumes "appends r m"
  obtains r' where "m = Some r'" "grows r r'"
  using assms by (auto simp: appends_def gives_def)

lemma writesE:
  assumes "writes r st m"
  obtains r' st' where "m = Some (r', st')" "grows r r'" "keeps st st'"
  using assms by (auto simp: writes_def gives_def)

lemma writes_after_append:
  assumes "appends r m" "\<And>r'. grows r r' \<Longrightarrow> writes r' st (f r')"
  shows "writes r st (m \<bind> f)"
proof -
  obtain r1 where 1: "m = Some r1" "grows r r1" using appendsE [OF assms(1)] .
  obtain r2 st2 where "f r1 = Some (r2, st2)" "grows r1 r2" "keeps st st2" using writesE [OF assms(2) [OF 1(2)]] .
  with 1 grows_trans show ?thesis by simp
qed

lemma writes_bind:
  assumes "writes r st m" "\<And>r' st'. grows r r' \<Longrightarrow> keeps st st' \<Longrightarrow> writes r' st' (f (r', st'))"
  shows "writes r st (m \<bind> f)"
proof -
  obtain r1 st1 where 1: "m = Some (r1, st1)" "grows r r1" "keeps st st1" using writesE [OF assms(1)] .
  obtain r2 st2 where "f (r1, st1) = Some (r2, st2)" "grows r1 r2" "keeps st1 st2" using writesE [OF assms(2) [OF 1(2,3)]] .
  with 1 grows_trans keeps_trans show ?thesis by simp
qed

lemma writes_after_read:
  assumes "peeks st m" "\<And>v st'. m = Some (v, st') \<Longrightarrow> keeps st st' \<Longrightarrow> writes r st' (f (v, st'))"
  shows "writes r st (m \<bind> f)"
proof -
  obtain v st1 where 1: "m = Some (v, st1)" "keeps st st1" by (rule peeksE [OF assms(1)])
  obtain r2 st2 where "f (v, st1) = Some (r2, st2)" "grows r r2" "keeps st1 st2" using writesE [OF assms(2) [OF 1]] .
  with 1 keeps_trans show ?thesis by simp
qed

lemma expr_helper_writes:
  assumes "wf_symtab st" "gs_max_width r = 0"
  shows "writes r st (expr_print_gstr_helper c (r, st))"
proof -
  obtain sym str where c: "c = (sym, str)" by fastforce
  have "writes r st ((case sym of
         None \<Rightarrow> Some (None, st)
       | Some r \<Rightarrow> do { (v, st) \<leftarrow> sym_get_string_value sym_calc_value r st; Some (Some v, st) }) \<bind>
      (\<lambda>(sym_str, st). do {
         gs \<leftarrow> str_append r str;
         gs \<leftarrow> (case sym of
             Some r \<Rightarrow> if s_type (syms st r) \<noteq> S_UNKNOWN
               then str_printf gs ('' [='' @ printed sym_str @ '']'') else Some gs
           | None \<Rightarrow> Some gs);
         Some (gs, st) }))"
  proof (rule writes_after_read)
    show "peeks st (case sym of
         None \<Rightarrow> Some (None, st)
       | Some r \<Rightarrow> do { (v, st) \<leftarrow> sym_get_string_value sym_calc_value r st; Some (Some v, st) })"
    proof (cases sym)
      case (Some q)
      obtain v st' where "sym_get_string_value sym_calc_value q st = Some (v, st')" "keeps st st'"
        by (rule peeksE [OF string_peeks [OF assms(1)]])
      with Some show ?thesis by simp
    qed simp
    fix v st'
    show "writes r st' (case (v, st') of (sym_str, st) \<Rightarrow> do {
         gs \<leftarrow> str_append r str;
         gs \<leftarrow> (case sym of
             Some r \<Rightarrow> if s_type (syms st r) \<noteq> S_UNKNOWN
               then str_printf gs ('' [='' @ printed sym_str @ '']'') else Some gs
           | None \<Rightarrow> Some gs);
         Some (gs, st) })"
      by (auto intro!: writes_after_append split: option.split)
  qed
  then show ?thesis using assms(2) by (simp add: expr_print_gstr_helper_def c)
qed

lemma grows_width: "grows r r' \<Longrightarrow> gs_max_width r = 0 \<Longrightarrow> gs_max_width r' = 0"
  by (simp add: grows_def)

lemma fold_writes:
  assumes "\<And>x r st. x \<in> set xs \<Longrightarrow> wf_symtab st \<Longrightarrow> gs_max_width r = 0 \<Longrightarrow> writes r st (f x (r, st))"
    and "wf_symtab st" "gs_max_width r = 0"
  shows "writes r st (fold_opt f xs (r, st))"
  using assms
proof (induction xs arbitrary: r st)
  case (Cons x xs)
  have "writes r st (f x (r, st) \<bind> fold_opt f xs)"
    by (rule writes_bind [OF Cons.prems(1)]) (use Cons keeps_wf grows_width in auto)
  then show ?case by simp
qed simp

lemma expr_print_writes:
  "wf_symtab st \<Longrightarrow> gs_max_width r = 0 \<Longrightarrow> writes r st (expr_gstr_print e (r, st))"
  by (simp add: expr_gstr_print_def fold_writes expr_helper_writes)

lemma line_writes:
  assumes "wf_symtab st" "gs_max_width r = 0"
  shows "writes r st (print_expr_line label e (r, st))"
  unfolding print_expr_line_def prod.case
  by (intro writes_after_append str_append_appends writes_bind [OF expr_print_writes])
    (use assms grows_width in \<open>auto intro!: writes_after_append\<close>)

lemma selects_writes:
  "wf_symtab st \<Longrightarrow> gs_max_width r = 0 \<Longrightarrow> writes r st (print_selects hit ps (r, st))"
proof (induction ps arbitrary: hit r st)
  case Nil
  then show ?case by (auto intro!: writes_after_append)
next
  case (Cons p ps)
  show ?case
    unfolding print_selects.simps
    by (intro writes_after_append str_append_appends writes_bind [OF expr_print_writes])
      (use Cons grows_width keeps_wf in auto)
qed

lemma head_writes:
  assumes "wf_symtab st" "gs_max_width r = 0" "q \<in> refs st"
  shows "writes r st (symbol_head q (r, st))"
proof (cases "s_name (syms st q)")
  case (Some name)
  show ?thesis
    unfolding symbol_head_def prod.case Some option.case
  proof (rule writes_after_read [OF string_peeks [OF assms(1)]], unfold prod.case,
      intro writes_after_append str_printf_appends)
    fix v st1 r1 r2
    assume 1: "keeps st st1" "grows r r1" "grows r1 r2"
    have wf: "wf_symtab st1" and width: "gs_max_width r2 = 0"
      using keeps_wf [OF 1(1) assms(1)] 1(2,3) assms(2) grows_width by auto
    have "q \<in> refs st1" using assms(3) framesD(2) [OF keeps_frames [OF 1(1)]] by simp
    then have "sym_ok st1 (syms st1 q)" using wf by (simp add: wf_symtab_def)
    then have "\<forall>p \<in> set (props_of P_RANGE (syms st1 q)). prop_ok st1 p" by (auto simp: sym_ok_def props_of_def)
    then have "peeks st1 (sym_get_range_prop sym_calc_value q st1)" by (rule range_peeks [OF wf])
    then have "writes r2 st1 (do {
           (prop, st) \<leftarrow> sym_get_range_prop sym_calc_value q st1;
           case prop of
             None \<Rightarrow> Some (r2, st)
           | Some (p, _) \<Rightarrow> print_expr_line ''Range : '' (p_expr p) (r2, st) })"
      by (rule writes_after_read) (use line_writes keeps_wf [OF _ wf] width in \<open>auto split: option.split\<close>)
    then show "writes r2 st1 (if s_type (syms st1 q) = S_INT \<or> s_type (syms st1 q) = S_HEX
         then do {
           (prop, st) \<leftarrow> sym_get_range_prop sym_calc_value q st1;
           case prop of
             None \<Rightarrow> Some (r2, st)
           | Some (p, _) \<Rightarrow> print_expr_line ''Range : '' (p_expr p) (r2, st)
         }
         else Some (r2, st1))" by simp
  qed
qed (simp add: symbol_head_def)

lemma deps_writes:
  assumes "wf_symtab st" "gs_max_width r = 0"
    "\<And>p. p \<in> set (s_props (syms st q)) \<Longrightarrow> p_type p = P_SYMBOL \<Longrightarrow> p_menu p \<noteq> None"
  shows "writes r st (symbol_deps pos q (r, st))"
proof -
  define f where "f = (\<lambda>(r, st). do {
     (r, st) \<leftarrow> print_selects False (props_of P_SELECT (syms st q)) (r, st);
     (r, st) \<leftarrow> (if fst (s_rev_dep (syms st q)) = None then Some (r, st)
       else print_expr_line ''  Selected by: '' (fst (s_rev_dep (syms st q))) (r, st));
     r \<leftarrow> str_append r (Some [CHR 0x0A, CHR 0x0A]);
     Some (r, st) })"
  have f: "writes r st (f (r, st))" if "wf_symtab st" "gs_max_width r = 0" for r st
    unfolding f_def prod.case
    by (rule writes_bind [OF selects_writes [OF that]], unfold prod.case, rule writes_bind)
      (use that keeps_wf grows_width line_writes in \<open>auto intro!: writes_after_append\<close>)
  have "writes r st ((case get_symbol_prop (syms st q) of
         None \<Rightarrow> Some (r, st)
       | Some p \<Rightarrow> do {
           pm \<leftarrow> p_menu p;
           r \<leftarrow> str_printf r (''  Defined at '' @ fst (pos pm) @ '':'' @ dec_of_nat (snd (pos pm)) @ [CHR 0x0A]);
           if expr_is_yes (p_visible p) then Some (r, st)
           else print_expr_line ''  Depends on: '' (p_visible p) (r, st)
         }) \<bind> f)"
  proof (rule writes_bind)
    show "writes r st (case get_symbol_prop (syms st q) of
         None \<Rightarrow> Some (r, st)
       | Some p \<Rightarrow> do {
           pm \<leftarrow> p_menu p;
           r \<leftarrow> str_printf r (''  Defined at '' @ fst (pos pm) @ '':'' @ dec_of_nat (snd (pos pm)) @ [CHR 0x0A]);
           if expr_is_yes (p_visible p) then Some (r, st)
           else print_expr_line ''  Depends on: '' (p_visible p) (r, st)
         })"
    proof (cases "get_symbol_prop (syms st q)")
      case (Some p)
      then have "p \<in> set (s_props (syms st q))" "p_type p = P_SYMBOL"
        by (auto simp: get_symbol_prop_def find_Some_iff)
      then obtain pm where "p_menu p = Some pm" using assms(3) by blast
      with Some show ?thesis
        using assms(1,2) grows_width line_writes by (auto intro!: writes_after_append)
    qed simp
  qed (use f assms(1,2) keeps_wf grows_width in blast)
  then show ?thesis by (simp add: symbol_deps_def f_def)
qed


section \<open>The places of the prompts\<close>

text \<open>The menus above an entry, at most \<open>n\<close>, below the root menu, and where a jump for a prompt goes.\<close>

fun menus_above :: "nat \<Rightarrow> kconf \<Rightarrow> nat option \<Rightarrow> nat list" where
  "menus_above (Suc n) k (Some m) = (if m = rootmenu then [] else m # menus_above n k (mn_parent (menus k m)))"
| "menus_above n k mo = []"

definition prompt_target :: "kconf \<Rightarrow> property \<Rightarrow> nat list" where
  "prompt_target k p =
     (case p_menu p of
        None \<Rightarrow> []
      | Some m \<Rightarrow> (case find (seen k) (menus_above 8 k (mn_parent (menus k m))) of
          None \<Rightarrow> []
        | Some l \<Rightarrow> [if seen k m then m else l]))"

definition symbol_targets :: "kconf \<Rightarrow> symref \<Rightarrow> nat list" where
  "symbol_targets k q = concat (map (prompt_target k) (filter (\<lambda>p. p_text p \<noteq> None) (s_props (syms (tab k) q))))"

lemma findD: "find P xs = Some x \<Longrightarrow> P x"
  by (auto simp: find_Some_iff)

lemma prompt_target_seen: "m \<in> set (prompt_target k p) \<Longrightarrow> seen k m"
  by (auto simp: prompt_target_def split: option.splits if_splits) (metis findD)+

lemma menus_above_later: "later k k' \<Longrightarrow> menus_above n k' mo = menus_above n k mo"
  by (induction n k mo rule: menus_above.induct) (auto simp: later_def)

text \<open>At this place of the text an arrow leads to a menu.\<close>

definition arrow_at :: "cstring \<Rightarrow> nat \<Rightarrow> bool" where
  "arrow_at s n \<longleftrightarrow> n < length s \<and> (\<exists>j t. drop n s = replicate j (CHR '' '') @ ''-> '' @ t)"

lemma arrow_append:
  assumes "arrow_at s n"
  shows "arrow_at (s @ t) n"
proof -
  obtain j u where "n < length s" "drop n s = replicate j (CHR '' '') @ ''-> '' @ u" using assms by (auto simp: arrow_at_def)
  then have "n < length (s @ t)" "drop n (s @ t) = replicate j (CHR '' '') @ ''-> '' @ (u @ t)" by simp_all
  then show ?thesis unfolding arrow_at_def by blast
qed

definition jump_ok :: "mtree list \<Rightarrow> cstring \<Rightarrow> jump_key \<Rightarrow> bool" where
  "jump_ok ts s j \<longleftrightarrow> j_target j \<in> set (preorder ts) \<and> arrow_at s (j_offset j)"

lemma forest_parent:
  "forest ms par p ts \<Longrightarrow> m \<in> set (preorder ts) \<Longrightarrow>
   mn_parent (ms m) = par \<or> (\<exists>x \<in> set (preorder ts). mn_parent (ms m) = Some x)"
proof (induction ms par p ts rule: forest.induct)
  case (2 ms par p q ks ts)
  then consider "m = q" | "m \<in> set (preorder ks)" | "m \<in> set (preorder ts)" by auto
  then show ?case
  proof cases
    case 1
    with 2(3) show ?thesis by auto
  next
    case 2
    with "2.IH"(1) "2.prems" show ?thesis by fastforce
  next
    case 3
    with "2.IH"(2) "2.prems" show ?thesis by fastforce
  qed
qed simp

lemma submenus_ok:
  assumes "tree_ok k ts" "m = rootmenu \<or> m \<in> set (preorder ts)"
  shows "\<exists>ms l k'. submenus n (Some m) loc k = Some (ms, l, k') \<and> later k k' \<and> set ms \<subseteq> set (preorder ts) \<and>
    length ms \<le> n \<and> (l = loc \<or> (\<exists>q \<in> set ms. l = Some q)) \<and>
    (calculated (tab k) \<longrightarrow> l = (if loc = None then find (seen k) (menus_above n k (Some m)) else loc))"
  using assms
proof (induction n arbitrary: m loc k)
  case (Suc n)
  show ?case
  proof (cases "m = rootmenu")
    case False
    then have m: "m \<in> set (preorder ts)" using Suc.prems(2) by simp
    obtain v k1 where 1: "menu_is_visible m k = Some (v, k1)" "later k k1" by (rule visible_goes [OF Suc.prems(1) m])
    have v: "v = seen k m" if c: "calculated (tab k)"
    proof (rule visible_seen [OF Suc.prems(1) c])
      show "entry_ok (tab k) (menus k m)" using Suc.prems(1) m by (simp add: tree_ok_def)
    qed (use m 1(1) in auto)
    have "forest (menus k1) (Some rootmenu) (mn_list (menus k rootmenu)) ts"
      using Suc.prems(1) 1(2) by (simp add: tree_ok_def later_def)
    then obtain q where q: "mn_parent (menus k1 m) = Some q" "q = rootmenu \<or> q \<in> set (preorder ts)"
      using forest_parent [OF _ m] by blast
    define l1 where "l1 = (if loc = None \<and> v then Some m else loc)"
    obtain ms l k2 where 2: "submenus n (Some q) l1 k1 = Some (ms, l, k2)" "later k1 k2" "set ms \<subseteq> set (preorder ts)"
      "length ms \<le> n" "l = l1 \<or> (\<exists>q \<in> set ms. l = Some q)"
      "calculated (tab k1) \<longrightarrow> l = (if l1 = None then find (seen k1) (menus_above n k1 (Some q)) else l1)"
      using Suc.IH [OF later_tree_ok [OF 1(2) Suc.prems(1)] q(2), of l1] by blast
    have "mn_parent (menus k m) = Some q" using q(1) 1(2) by (simp add: later_def)
    then have "l = (if loc = None then find (seen k) (menus_above (Suc n) k (Some m)) else loc)" if c: "calculated (tab k)"
      using 2(6) later_calculated [OF 1(2) c] seen_later(1) [OF 1(2) c] menus_above_later [OF 1(2)] v [OF c] False
      by (simp add: l1_def)
    moreover have "l = loc \<or> (\<exists>q \<in> set (m # ms). l = Some q)"
      using 2(5) by (auto simp: l1_def split: if_splits)
    ultimately show ?thesis using False 1 2(1-4) q m l1_def later_trans [OF 1(2) 2(2)]
      by (intro exI [of _ "m # ms"] exI [of _ l] exI [of _ k2]) simp
  qed (use Suc in simp)
qed simp

lemma location_line_ok:
  assumes "tree_ok k ts" "m \<in> set (preorder ts)" "gs_max_width r = 0" "j \<le> 100"
  shows "\<exists>r' k'. location_line j m (r, k) = Some (r', k') \<and> later k k' \<and> grows r r' \<and> arrow_at (gs_s r') (length (gs_s r))"
proof -
  define s where "s = take 9999 (replicate j (CHR '' '') @ ''-> '' @ printed (menu_get_prompt k m))"
  obtain r1 where r1: "str_append r (Some s) = Some r1" "gs_s r1 = gs_s r @ s" "grows r r1"
    using str_append_ok [of r s] str_append_appends [of r "Some s"] by (auto simp: str_get_def appends_def)
  have s: "s = replicate j (CHR '' '') @ ''-> '' @ take (9996 - j) (printed (menu_get_prompt k m))"
    using assms(4) by (simp add: s_def take_Cons')
  have a: "arrow_at (gs_s r1) (length (gs_s r))"
    unfolding arrow_at_def r1(2) by (simp, simp add: s) blast
  have grown: "arrow_at (gs_s r') (length (gs_s r))" if "grows r1 r'" for r'
    using that arrow_append [OF a] assms(3) r1(3) by (auto simp: grows_def)
  have w: "writes r1 (tab k) (case mn_sym (menus k m) of
         None \<Rightarrow> Some (r1, tab k)
       | Some q \<Rightarrow> do {
           (v, st) \<leftarrow> sym_get_string_value sym_calc_value q (tab k);
           r \<leftarrow> str_printf r1 ('' ('' @ name_or_choice (syms st q) @ '' [='' @ v @ ''])'');
           Some (r, st)
         })" (is "writes _ _ ?m")
    using assms(1) by (auto simp: tree_ok_def intro!: writes_after_read [OF string_peeks] writes_after_append split: option.split)
  obtain r2 st where 2: "?m = Some (r2, st)" "grows r1 r2" "keeps (tab k) st" using writesE [OF w] .
  obtain r3 where 3: "str_append r2 (Some [CHR 0x0A]) = Some r3" "grows r2 r3"
    using appendsE [OF str_append_appends] .
  have "location_line j m (r, k) = (case mn_sym (menus k m) of
         None \<Rightarrow> Some (r1, k)
       | Some q \<Rightarrow> do {
           (v, st) \<leftarrow> sym_get_string_value sym_calc_value q (tab k);
           r \<leftarrow> str_printf r1 ('' ('' @ name_or_choice (syms st q) @ '' [='' @ v @ ''])'');
           Some (r, k\<lparr>tab := st\<rparr>)
         }) \<bind> (\<lambda>(r, k). str_append r (Some [CHR 0x0A]) \<bind> (\<lambda>r. Some (r, k)))"
    using r1(1) by (simp add: location_line_def str_printf_def s_def)
  also have "\<dots> = Some (r3, k\<lparr>tab := st\<rparr>)"
    using 2(1) 3(1) by (cases "mn_sym (menus k m)") (auto split: bind_splits)
  finally have "location_line j m (r, k) = Some (r3, k\<lparr>tab := st\<rparr>)" .
  moreover have "grows r1 r3" "grows r r3" using grows_trans 2(2) 3(2) r1(3) by blast+
  ultimately show ?thesis using 2(3) grown by (simp add: later_def)
qed

text \<open>The lines of the places, where the last jump gets its offset.\<close>

lemma set_offset_twice [simp]: "set_offset a (set_offset b h) = set_offset a h"
  by (simp add: set_offset_def)

definition offset_set :: "nat option \<Rightarrow> nat list \<Rightarrow> cstring \<Rightarrow> jump_key list option \<Rightarrow> jump_key list option \<Rightarrow> bool" where
  "offset_set loc ms s head head' \<longleftrightarrow>
     (if \<exists>q \<in> set ms. loc = Some q then \<exists>n. arrow_at s n \<and> head' = map_option (set_offset n) head else head' = head)"

lemma location_lines_ok:
  assumes "tree_ok k ts" "set ms \<subseteq> set (preorder ts)" "gs_max_width r = 0" "j + 2 * length ms \<le> 100"
  shows "\<exists>r' head' k'. location_lines j loc ms (r, head, k) = Some (r', head', k') \<and> later k k' \<and> grows r r' \<and>
    offset_set loc ms (gs_s r') head head'"
  using assms
proof (induction ms arbitrary: j r head k)
  case (Cons m ms)
  define h1 where "h1 = (if loc = Some m then map_option (set_offset (length (gs_s r))) head else head)"
  obtain r1 k1 where 1: "location_line j m (r, k) = Some (r1, k1)" "later k k1" "grows r r1"
    "arrow_at (gs_s r1) (length (gs_s r))"
    using location_line_ok [OF Cons.prems(1), of m r j] Cons.prems by auto
  obtain r2 head' k2 where 2: "location_lines (j + 2) loc ms (r1, h1, k1) = Some (r2, head', k2)" "later k1 k2"
    "grows r1 r2" "offset_set loc ms (gs_s r2) h1 head'"
    using Cons.IH [OF later_tree_ok [OF 1(2) Cons.prems(1)], of r1 "j + 2" h1] Cons.prems grows_width [OF 1(3)] by auto
  have "arrow_at (gs_s r2) (length (gs_s r))"
    using 2(3) grows_width [OF 1(3) Cons.prems(3)] arrow_append [OF 1(4)] by (auto simp: grows_def)
  then have "offset_set loc (m # ms) (gs_s r2) head head'"
    using 2(4) by (auto simp: offset_set_def h1_def option.map_comp comp_def split: if_splits)
  moreover have "location_lines j loc (m # ms) (r, head, k) = Some (r2, head', k2)"
    using 1(1) 2(1) by (simp add: h1_def Let_def)
  ultimately show ?case using later_trans [OF 1(2) 2(2)] grows_trans [OF 1(3) 2(3)] by blast
qed (simp add: offset_set_def)

text \<open>
  The jumps of a list: numbered from 0, each one to a menu of the tree, with its place in the text; \<open>ts\<close> are the
  targets where all symbols are calculated.
\<close>

definition jumps_ok :: "mtree list \<Rightarrow> cstring \<Rightarrow> jump_key list option \<Rightarrow> bool" where
  "jumps_ok ts s head \<longleftrightarrow>
     (\<forall>h. head = Some h \<longrightarrow> map j_index h = [0..<length h] \<and> (\<forall>j \<in> set h. jump_ok ts s j))"

definition leads :: "kconf \<Rightarrow> nat list \<Rightarrow> jump_key list option \<Rightarrow> bool" where
  "leads k gs head \<longleftrightarrow> (calculated (tab k) \<longrightarrow> (\<forall>h. head = Some h \<longrightarrow> map j_target h = gs))"

definition found :: "bool \<Rightarrow> kconf \<Rightarrow> mtree list \<Rightarrow> nat list \<Rightarrow> help_text \<Rightarrow> bool" where
  "found b k ts gs = (\<lambda>(r, head, k'). later k k' \<and> gs_max_width r = 0 \<and> jumps_ok ts (gs_s r) head \<and> (head \<noteq> None \<longleftrightarrow> b) \<and>
     leads k gs head)"

lemma found_grows:
  assumes "found b k ts gs (r, head, k1)" "grows r r'" "later k1 k2"
  shows "found b k ts gs (r', head, k2)"
proof -
  have "jump_ok ts (gs_s r') j" if "jump_ok ts (gs_s r) j" for j
    using that assms(1,2) arrow_append by (auto simp: found_def grows_def jump_ok_def)
  with assms later_trans [OF _ assms(3)] show ?thesis
    by (auto simp: found_def jumps_ok_def grows_def)
qed

lemma fold_found:
  assumes "found b k ts gs (r, head, k1)"
    and "\<And>x gs r head k1. found b k ts gs (r, head, k1) \<Longrightarrow> x \<in> set xs \<Longrightarrow>
      gives (f x (r, head, k1)) (found b k ts (gs @ g x))"
  obtains r' head' k' where "fold_opt f xs (r, head, k1) = Some (r', head', k')"
    "found b k ts (gs @ concat (map g xs)) (r', head', k')"
proof -
  have "\<exists>h'. fold_opt f ys h = Some h' \<and> found b k ts (gs @ concat (map g ys)) h'"
    if "set ys \<subseteq> set xs" "found b k ts gs h" for ys gs h
    using that
  proof (induction ys arbitrary: gs h)
    case (Cons y ys)
    obtain h1 where h1: "f y h = Some h1" "found b k ts (gs @ g y) h1"
      using assms(2) [of gs "fst h" "fst (snd h)" "snd (snd h)" y] Cons.prems by (auto simp: gives_def)
    from Cons.IH [OF _ h1(2)] Cons.prems(1) h1(1) show ?case by simp
  qed simp
  from this [OF subset_refl assms(1)] show ?thesis using that by auto
qed

text \<open>A new jump gets the next number; with its offset it is one of the good ones.\<close>

lemma new_jump_ok:
  assumes "jumps_ok ts s (Some h)" "q \<in> set (preorder ts)" "arrow_at s n"
  shows "jumps_ok ts s (Some (set_offset n (new_jump q h)))"
    and "leads k gs (Some h) \<Longrightarrow> (calculated (tab k) \<Longrightarrow> us = [q]) \<Longrightarrow> leads k (gs @ us) (Some (set_offset n (new_jump q h)))"
proof -
  have i: "map j_index h = [0..<length h]" "\<forall>j \<in> set h. jump_ok ts s j" using assms(1) by (simp_all add: jumps_ok_def)
  have "Suc (j_index (last h)) = length h" if "h \<noteq> []"
    using arg_cong [OF i(1), of last] that by (simp add: last_map)
  then show "jumps_ok ts s (Some (set_offset n (new_jump q h)))" using i assms(2,3)
    by (auto simp: jumps_ok_def set_offset_def new_jump_def jump_ok_def)
  show "leads k gs (Some h) \<Longrightarrow> (calculated (tab k) \<Longrightarrow> us = [q]) \<Longrightarrow> leads k (gs @ us) (Some (set_offset n (new_jump q h)))"
    by (auto simp: leads_def set_offset_def new_jump_def)
qed

text \<open>What a property says of its place.\<close>

definition placed :: "mtree list \<Rightarrow> property \<Rightarrow> bool" where
  "placed ts p \<longleftrightarrow> (\<exists>m \<in> set (preorder ts). p_menu p = Some m)"

lemma jump_target:
  assumes "tree_ok k ts" "later k k1" "pm \<in> set (preorder ts)" "l \<in> set (preorder ts)"
  obtains q k2 where "q \<in> set (preorder ts)" "calculated (tab k) \<longrightarrow> q = (if seen k pm then pm else l)" "later k1 k2"
    "menu_is_visible pm k1 \<bind> (\<lambda>(visible, k). Some (Some (new_jump (if visible then pm else l) h), k)) = Some (Some (new_jump q h), k2)"
proof -
  obtain v k2 where 2: "menu_is_visible pm k1 = Some (v, k2)" "later k1 k2"
    by (rule visible_goes [OF later_tree_ok [OF assms(2,1)] assms(3)])
  have "v = seen k pm" if c: "calculated (tab k)"
  proof (rule visible_seen [OF later_tree_ok [OF assms(2,1)] later_calculated [OF assms(2) c]])
    show "pm = rootmenu \<or> pm \<in> set (preorder ts)" "entry_ok (tab k1) (menus k1 pm)"
      using assms(3) later_tree_ok [OF assms(2,1)] by (simp_all add: tree_ok_def)
  qed (use 2(1) seen_later(1) [OF assms(2) c] in auto)
  then show ?thesis using that [of "if v then pm else l" k2] 2 assms(3,4) by simp
qed

lemma get_prompt_found:
  assumes k: "tree_ok k ts" and h: "found b k ts gs (r, head, k1)" and p: "placed ts p"
  shows "gives (get_prompt_str p (r, head, k1)) (found b k ts (gs @ prompt_target k p))"
proof -
  obtain pm where pm: "pm \<in> set (preorder ts)" "p_menu p = Some pm" using p by (auto simp: placed_def)
  have k1: "later k k1" "tree_ok k1 ts" using h later_tree_ok [OF _ k] by (auto simp: found_def)
  obtain r1 where r1: "str_printf r (''Prompt: '' @ printed (p_text p) @ [CHR 0x0A]) = Some r1" "grows r r1"
    using appendsE [OF str_printf_appends] .
  obtain q where q: "mn_parent (menus k1 pm) = Some q" "q = rootmenu \<or> q \<in> set (preorder ts)"
    using forest_parent [OF _ pm(1), of "menus k1" "Some rootmenu" "mn_list (menus k1 rootmenu)"] k1(2)
    by (auto simp: tree_ok_def)
  obtain ms l k2 where s: "submenus 8 (Some q) None k1 = Some (ms, l, k2)" "later k1 k2"
    "set ms \<subseteq> set (preorder ts)" "length ms \<le> 8" "l = None \<or> (\<exists>q \<in> set ms. l = Some q)"
    "calculated (tab k1) \<longrightarrow> l = find (seen k1) (menus_above 8 k1 (Some q))"
    using submenus_ok [OF k1(2) q(2), of 8 None] by auto
  have l: "prompt_target k p = (case l of None \<Rightarrow> [] | Some l \<Rightarrow> [if seen k pm then pm else l])" if c: "calculated (tab k)"
    using s(6) later_calculated [OF k1(1) c] seen_later(1) [OF k1(1) c] menus_above_later [OF k1(1)] q(1) pm(2) k1(1)
    by (simp add: prompt_target_def later_def)
  have f2: "found b k ts gs (r1, head, k2)" by (rule found_grows [OF h r1(2) s(2)])
  then have k2: "later k k2" by (simp add: found_def)
  define jumped where "jumped = (case (head, l) of
         (Some h, Some l) \<Rightarrow> do {
           (visible, k) \<leftarrow> menu_is_visible pm k2;
           Some (Some (new_jump (if visible then pm else l) h), k)
         }
       | _ \<Rightarrow> Some (head, k2))"
  obtain head1 k3 where 3: "jumped = Some (head1, k3)" "later k2 k3"
    "(head = None \<or> l = None) \<and> head1 = head \<or>
     (\<exists>h n. head = Some h \<and> l \<noteq> None \<and> head1 = Some (new_jump n h) \<and> n \<in> set (preorder ts) \<and>
       (calculated (tab k) \<longrightarrow> prompt_target k p = [n]))"
  proof (cases "head = None \<or> l = None")
    case True
    then have "jumped = Some (head, k2)" by (auto simp: jumped_def split: option.split)
    then show ?thesis using that True later_refl by blast
  next
    case False
    then obtain hs d where hd: "head = Some hs" "l = Some d" by auto
    then have d: "d \<in> set (preorder ts)" using s(3,5) by auto
    obtain n k3 where n: "n \<in> set (preorder ts)" "calculated (tab k) \<longrightarrow> n = (if seen k pm then pm else d)" "later k2 k3"
      "menu_is_visible pm k2 \<bind> (\<lambda>(visible, k). Some (Some (new_jump (if visible then pm else d) hs), k)) =
        Some (Some (new_jump n hs), k3)"
      by (rule jump_target [OF k k2 pm(1) d, of hs])
    with hd have "jumped = Some (Some (new_jump n hs), k3)" by (simp add: jumped_def)
    moreover have "calculated (tab k) \<longrightarrow> prompt_target k p = [n]" using l n(2) hd(2) by simp
    ultimately show ?thesis using that n hd by blast
  qed
  have none: "found b k ts (gs @ prompt_target k p) (r', head, k')" if "found b k ts gs (r', head, k')" "head = None \<or> l = None" for r' k'
    using that l by (auto simp: found_def leads_def)
  have step: "get_prompt_str p (r, head, k1) = (if ms = [] then Some (r1, head1, k3)
     else str_printf r1 (''  Location:'' @ [CHR 0x0A]) \<bind> (\<lambda>r. location_lines 4 l (rev ms) (r, head1, k3)))"
    using 3(1) r1(1) pm(2) q(1) s(1) unfolding jumped_def by (simp add: get_prompt_str_def)
  show ?thesis
  proof (cases "ms = []")
    case True
    then have "l = None" "head1 = head" using s(5) 3(3) by auto
    with step True none [OF found_grows [OF f2 grows_refl 3(2)]] show ?thesis by simp
  next
    case False
    obtain r2 where r2: "str_printf r1 (''  Location:'' @ [CHR 0x0A]) = Some r2" "grows r1 r2"
      using appendsE [OF str_printf_appends] .
    have "gs_max_width r2 = 0" using f2 grows_width [OF r2(2)] by (simp add: found_def)
    then obtain r3 head2 k4 where 4: "location_lines 4 l (rev ms) (r2, head1, k3) = Some (r3, head2, k4)" "later k3 k4"
      "grows r2 r3" "offset_set l (rev ms) (gs_s r3) head1 head2"
      using location_lines_ok [OF later_tree_ok [OF later_trans [OF k2 3(2)] k], of "rev ms" r2 4 l head1] s(3,4) by auto
    have f4: "found b k ts gs (r3, head, k4)"
      using found_grows [OF f2] grows_trans [OF r2(2) 4(3)] later_trans [OF 3(2) 4(2)] by blast
    have "found b k ts (gs @ prompt_target k p) (r3, head2, k4)"
    proof (cases "head = None \<or> l = None")
      case True
      then have "head2 = head" using 3(3) 4(4) by (auto simp: offset_set_def split: if_splits)
      with none [OF f4 True] show ?thesis by simp
    next
      case False
      then obtain hs n where hs: "head = Some hs" "head1 = Some (new_jump n hs)" "n \<in> set (preorder ts)"
        "calculated (tab k) \<Longrightarrow> prompt_target k p = [n]"
        using 3(3) by auto
      obtain a where a: "arrow_at (gs_s r3) a" "head2 = Some (set_offset a (new_jump n hs))"
        using 4(4) s(5) False hs(2) by (auto simp: offset_set_def split: if_splits)
      have "jumps_ok ts (gs_s r3) (Some hs)" "leads k gs (Some hs)" using f4 hs(1) by (simp_all add: found_def)
      from new_jump_ok(1) [OF this(1) hs(3) a(1)] new_jump_ok(2) [OF this(1) hs(3) a(1) this(2) hs(4)]
      show ?thesis using f4 a(2) hs(1) by (simp add: found_def)
    qed
    with step False r2(1) 4(1) show ?thesis by simp
  qed
qed

section \<open>The text of a symbol\<close>

text \<open>The places of its properties are in the tree.\<close>

definition symbol_placed :: "mtree list \<Rightarrow> symbol \<Rightarrow> bool" where
  "symbol_placed ts s \<longleftrightarrow> (\<forall>p \<in> set (s_props s). (p_text p \<noteq> None \<or> p_type p = P_SYMBOL) \<longrightarrow> placed ts p)"

lemma props_later: "keeps st st' \<Longrightarrow> s_props (syms st' q) = s_props (syms st q)"
  using same_frameD(2) [OF framesD(3) [OF keeps_frames]] .

lemma symbol_found:
  assumes k: "tree_ok k ts" and h: "found b k ts gs (r, head, k1)" and q: "q \<in> refs (tab k)" "symbol_placed ts (syms (tab k) q)"
  shows "gives (get_symbol_str q (r, head, k1)) (found b k ts (gs @ symbol_targets k q))"
proof -
  have k1: "later k k1" "tree_ok k1 ts" "gs_max_width r = 0" using h later_tree_ok [OF _ k] by (auto simp: found_def)
  then have q1: "q \<in> refs (tab k1)" using q(1) framesD(2) [OF keeps_frames] by (auto simp: later_def)
  have placed: "symbol_placed ts (syms (tab k') q)" if "later k k'" for k' :: kconf
    using that q(2) props_later [of "tab k" "tab k'" q] by (simp add: later_def symbol_placed_def)
  obtain r1 st1 where 1: "symbol_head q (r, tab k1) = Some (r1, st1)" "grows r r1" "keeps (tab k1) st1"
    using writesE [OF head_writes [OF _ k1(3) q1]] k1(2) by (auto simp: tree_ok_def)
  have f1: "found b k ts gs (r1, head, k1\<lparr>tab := st1\<rparr>)" using found_grows [OF h 1(2)] 1(3) by (simp add: later_def)
  define ps where "ps = filter (\<lambda>p. p_text p \<noteq> None) (s_props (syms st1 q))"
  have l: "later k (k1\<lparr>tab := st1\<rparr>)" using f1 by (simp add: found_def)
  then have ps: "\<forall>p \<in> set ps. placed ts p" using placed by (fastforce simp: ps_def symbol_placed_def)
  have "s_props (syms st1 q) = s_props (syms (tab k) q)" using l props_later by (simp add: later_def)
  then have targets: "concat (map (prompt_target k) ps) = symbol_targets k q" by (simp add: ps_def symbol_targets_def)
  obtain r2 head2 k2 where 2: "fold_opt get_prompt_str ps (r1, head, k1\<lparr>tab := st1\<rparr>) = Some (r2, head2, k2)"
    "found b k ts (gs @ concat (map (prompt_target k) ps)) (r2, head2, k2)"
    by (rule fold_found [where f = get_prompt_str and g = "prompt_target k", OF f1 get_prompt_found [OF k]]) (use ps in auto)
  then have k2: "later k k2" "gs_max_width r2 = 0" by (simp_all add: found_def)
  obtain r3 st3 where 3: "symbol_deps (\<lambda>m. mn_pos (menus k2 m)) q (r2, tab k2) = Some (r3, st3)" "grows r2 r3" "keeps (tab k2) st3"
  proof (rule writesE [OF deps_writes])
    show "wf_symtab (tab k2)" using later_tree_ok [OF k2(1) k] by (simp add: tree_ok_def)
    show "p_menu p \<noteq> None" if "p \<in> set (s_props (syms (tab k2) q))" "p_type p = P_SYMBOL" for p
      using placed [OF k2(1)] that by (auto simp: symbol_placed_def placed_def)
  qed (use k2(2) in blast)+
  have "found b k ts (gs @ symbol_targets k q) (r3, head2, k2\<lparr>tab := st3\<rparr>)"
    using found_grows [OF 2(2) 3(2)] 3(3) targets by (simp add: later_def)
  with 1(1) 2(1) 3(1) show ?thesis by (simp add: get_symbol_str_def ps_def)
qed

lemma get_relations_found:
  assumes k: "tree_ok k ts" and qs: "\<forall>q \<in> set qs. q \<in> refs (tab k) \<and> symbol_placed ts (syms (tab k) q)"
  shows "gives (get_relations_str (Some qs) (Some []) k) (found True k ts (concat (map (symbol_targets k) qs)))"
proof -
  have "found True k ts [] (str_new, Some [], k)" by (simp add: found_def jumps_ok_def leads_def str_new_def)
  then obtain r head k' where 1: "fold_opt get_symbol_str qs (str_new, Some [], k) = Some (r, head, k')"
    "found True k ts ([] @ concat (map (symbol_targets k) qs)) (r, head, k')"
    by (rule fold_found [where f = get_symbol_str and g = "symbol_targets k", OF _ symbol_found [OF k]]) (use qs in auto)
  obtain r' where r': "(if qs = [] then str_append r (Some (''No matches found.'' @ [CHR 0x0A])) else Some r) = Some r'"
    "grows r r'"
  proof (cases "qs = []")
    case True
    then show ?thesis using that appendsE [OF str_append_appends] by metis
  qed (use that in simp)
  have "found True k ts (concat (map (symbol_targets k) qs)) (r', head, k')"
    using found_grows [OF 1(2) r'(2) later_refl] by simp
  with 1(1) r'(1) show ?thesis by (simp add: get_relations_str_def Let_def)
qed

section \<open>Properties\<close>

text \<open>
  C12: the text about the symbols of a search ends, with a list of places to jump to: numbered from 0, each
  one a menu of the tree, and each one with an offset of the text where the arrow of a
  \<open>Location\<close> line begins, so no offset is left unset. The tree and all values calculated before stay.
  Where all symbols are calculated the targets are just these, for each symbol and each of its prompts in order: the
  menu of the prompt where it is seen, else the nearest one seen of the eight menus above it; none where
  none of those above is seen. So every jump leads to an entry that is seen.
\<close>

theorem relations_jumps:
  assumes "tree_ok k ts" "\<forall>q \<in> set qs. q \<in> refs (tab k) \<and> symbol_placed ts (syms (tab k) q)"
  shows "\<exists>r h k'. get_relations_str (Some qs) (Some []) k = Some (r, Some h, k') \<and>
    menus k' = menus k \<and> keeps (tab k) (tab k') \<and> map j_index h = [0..<length h] \<and>
    (\<forall>j \<in> set h. j_target j \<in> set (preorder ts) \<and> arrow_at (gs_s r) (j_offset j)) \<and>
    (calculated (tab k) \<longrightarrow> map j_target h = concat (map (symbol_targets k) qs) \<and> (\<forall>j \<in> set h. seen k (j_target j)))"
proof -
  obtain r head k' where 1: "get_relations_str (Some qs) (Some []) k = Some (r, head, k')"
    "found True k ts (concat (map (symbol_targets k) qs)) (r, head, k')"
    using get_relations_found [OF assms] by (auto simp: gives_def)
  then obtain h where h: "head = Some h" by (auto simp: found_def)
  have "seen k (j_target j)" if "map j_target h = concat (map (symbol_targets k) qs)" "j \<in> set h" for j
  proof -
    have "j_target j \<in> set (concat (map (symbol_targets k) qs))" unfolding that(1) [symmetric] using that(2) by simp
    then show ?thesis using prompt_target_seen by (auto simp: symbol_targets_def)
  qed
  with 1 h show ?thesis by (simp add: found_def jumps_ok_def jump_ok_def later_def leads_def)
qed

definition help_symbol :: symbol where
  "help_symbol = blank_symbol\<lparr>s_name := Some ''A'', s_type := S_BOOLEAN, s_flags := {SYMBOL_VALID}, s_visible := T_yes,
     s_props := [\<lparr>p_type = P_PROMPT, p_text = Some ''all'', p_visible = None, p_expr = None, p_menu = Some 2, p_pos = ([], 0)\<rparr>]\<rparr>"

definition help_conf :: kconf where
  "help_conf = sample_conf\<lparr>
     tab := empty_symtab\<lparr>syms := static_symbol(SymId 0 := help_symbol), next_id := 1, modules_sym := Some SymNo,
       vis_tri := (\<lambda>r i. T_yes)\<rparr>,
     menus := (\<lambda>_. blank_menu)(0 := blank_menu\<lparr>mn_list := Some 1\<rparr>,
       1 := (sample_menu ''packages'')\<lparr>mn_parent := Some 0, mn_list := Some 2\<rparr>,
       2 := blank_menu\<lparr>mn_parent := Some 1, mn_sym := Some (SymId 0), mn_prompt := Some (P_at 0)\<rparr>)\<rparr>"

lemma help_conf_ok: "tree_ok help_conf [MNode 1 [MNode 2 []]]"
proof -
  have r: "refs (tab help_conf) = {SymYes, SymMod, SymNo, SymEmpty} \<union> SymId ` {..<1}"
    by (simp add: refs_def help_conf_def)
  then have "wf_symtab (tab help_conf)"
    by (auto simp: wf_symtab_def sym_ok_def help_conf_def help_symbol_def blank_symbol_def symbol_yes_def
        symbol_mod_def symbol_no_def symbol_empty_def sym_is_choice_def sym_is_choice_value_def
        opt_in_def prop_ok_def range_syms_def)
  then show ?thesis using r
    by (simp add: tree_ok_def) (simp add: help_conf_def sample_menu_def blank_menu_def entry_ok_def opt_in_def sample_property_def)
qed

lemma help_calculated: "calculated (tab help_conf)"
proof -
  have "refs (tab help_conf) = {SymYes, SymMod, SymNo, SymEmpty, SymId 0}" by (auto simp: refs_def help_conf_def)
  then show ?thesis
    by (simp add: calculated_def) (simp add: help_conf_def help_symbol_def symbol_yes_def symbol_mod_def symbol_no_def symbol_empty_def)
qed

theorem relations_jumps_witness:
  "\<exists>r h k'. get_relations_str (Some [SymId 0]) (Some []) help_conf = Some (r, Some h, k') \<and>
     map j_index h = [0] \<and> map j_target h = [2] \<and> (\<forall>j \<in> set h. arrow_at (gs_s r) (j_offset j))"
proof -
  have q: "\<forall>q \<in> set [SymId 0]. q \<in> refs (tab help_conf) \<and> symbol_placed [MNode 1 [MNode 2 []]] (syms (tab help_conf) q)"
    by (simp add: help_conf_def refs_def symbol_placed_def help_symbol_def placed_def)
  have "seen help_conf 1" "seen help_conf 2"
    by (rule seen.own; simp add: allowed_def prompt_val_def help_conf_def sample_menu_def sample_property_def blank_menu_def)+
  moreover have "s_props (syms (tab help_conf) (SymId 0)) = s_props help_symbol" "mn_parent (menus help_conf 2) = Some 1"
    by (simp_all add: help_conf_def blank_menu_def)
  ultimately have t: "symbol_targets help_conf (SymId 0) = [2]"
    by (simp add: symbol_targets_def help_symbol_def prompt_target_def eval_nat_numeral)
  obtain r h k' where 1: "get_relations_str (Some [SymId 0]) (Some []) help_conf = Some (r, Some h, k')"
    "map j_index h = [0..<length h]" "\<forall>j \<in> set h. arrow_at (gs_s r) (j_offset j)"
    "map j_target h = concat (map (symbol_targets help_conf) [SymId 0])"
    using relations_jumps [OF help_conf_ok q] help_calculated by blast
  have "map j_target h = [2]" using 1(4) t by simp
  moreover from this have "length h = 1" by (metis length_map list.size(3,4) One_nat_def add.commute plus_1_eq_Suc)
  ultimately show ?thesis using 1(1-3) by auto
qed

end
