(* ===== verification/Kmenutree.thy ===== *)
theory Kmenutree
  imports Kmenu
begin

text \<open>
  The tree of the menus: the calls the parser makes to add entries and to open and close menus
  always leave pointers that form a tree, in the order of the calls; and what the checks of the
  properties accept.
\<close>

lemma walk_root:
  assumes "forest ms par p ts" "climb ms par = Some None"
  shows "walk_menus ms f p s = fold_opt f (preorder ts) s"
proof -
  have "(case p of None \<Rightarrow> None | Some m \<Rightarrow> Some m) = p" by (cases p) simp_all
  with walk_forest [OF assms, of f s] show ?thesis
    by (cases "fold_opt f (preorder ts) s") (simp_all add: walk_menus.simps [of _ _ None])
qed

section \<open>Segments of sibling lists\<close>

text \<open>A list of siblings up to \<open>q\<close>; with None at the end it is a \<open>forest\<close>.\<close>

fun seg :: "(nat \<Rightarrow> menu) \<Rightarrow> nat option \<Rightarrow> nat option \<Rightarrow> mtree list \<Rightarrow> nat option \<Rightarrow> bool" where
  "seg ms par p [] q \<longleftrightarrow> p = q"
| "seg ms par p (MNode m ks # ts) q \<longleftrightarrow> p = Some m \<and> mn_parent (ms m) = par \<and>
     forest ms (Some m) (mn_list (ms m)) ks \<and> seg ms par (mn_next (ms m)) ts q"

lemma seg_forest: "seg ms par p ts None = forest ms par p ts"
  by (induction ms par p ts rule: forest.induct) simp_all

lemma seg_append: "seg ms par p (ts @ us) q \<longleftrightarrow> (\<exists>r. seg ms par p ts r \<and> seg ms par r us q)"
proof (induction ts arbitrary: p)
  case (Cons t ts)
  then show ?case by (cases t) auto
qed simp

definition same_links :: "menu \<Rightarrow> menu \<Rightarrow> bool" where
  "same_links x y \<longleftrightarrow> mn_list x = mn_list y \<and> mn_next x = mn_next y \<and> mn_parent x = mn_parent y"

lemma forest_frame:
  "forest ms par p ts \<Longrightarrow> (\<And>m. m \<in> set (preorder ts) \<Longrightarrow> same_links (ms' m) (ms m)) \<Longrightarrow> forest ms' par p ts"
  by (induction ms par p ts rule: forest.induct) (simp_all add: same_links_def)

lemma seg_frame:
  "seg ms par p ts q \<Longrightarrow> (\<And>m. m \<in> set (preorder ts) \<Longrightarrow> same_links (ms' m) (ms m)) \<Longrightarrow> seg ms' par p ts q"
  by (induction ms par p ts q rule: seg.induct) (auto simp: same_links_def intro: forest_frame)

fun node :: "mtree \<Rightarrow> nat" where
  "node (MNode m ks) = m"

lemma preorder_append [simp]: "preorder (ts @ us) = preorder ts @ preorder us"
  by (induction ts rule: preorder.induct) simp_all

lemma node_preorder: "t \<in> set ts \<Longrightarrow> node t \<in> set (preorder ts)"
  by (induction ts rule: preorder.induct) auto

text \<open>Another tree behind the last one.\<close>

lemma seg_extend:
  assumes "seg ms par p ts q0" "ts \<noteq> []" "distinct (preorder ts)"
    and "\<And>m. m \<in> set (preorder ts) \<Longrightarrow> m \<noteq> node (last ts) \<Longrightarrow> same_links (ms' m) (ms m)"
    and "mn_list (ms' (node (last ts))) = mn_list (ms (node (last ts)))"
      "mn_parent (ms' (node (last ts))) = mn_parent (ms (node (last ts)))" "mn_next (ms' (node (last ts))) = q"
  shows "seg ms' par p ts q"
proof -
  obtain us m ks where ts: "ts = us @ [MNode m ks]"
    using assms(2) by (metis append_butlast_last_id mtree.exhaust)
  with assms(1) obtain r where r: "seg ms par p us r" "seg ms par r [MNode m ks] q0"
    by (auto simp: seg_append)
  have "seg ms' par p us r"
    by (rule seg_frame [OF r(1)]) (use assms(3,4) ts in auto)
  moreover have "forest ms' (Some m) (mn_list (ms m)) ks"
    by (rule forest_frame [of ms]) (use r(2) assms(3,4) ts in auto)
  then have "seg ms' par r [MNode m ks] q" using r(2) assms(5-7) ts by simp
  ultimately show ?thesis unfolding ts seg_append by blast
qed

section \<open>Open menus\<close>

text \<open>
  Around the current menu: for each menu above, innermost first, its number and the entries before
  the open one.
\<close>

fun around :: "(nat \<Rightarrow> menu) \<Rightarrow> (nat \<times> mtree list) list \<Rightarrow> nat \<Rightarrow> bool" where
  "around ms [] c \<longleftrightarrow> c = rootmenu \<and> mn_parent (ms c) = None \<and> mn_next (ms c) = None"
| "around ms ((m, us) # stk) c \<longleftrightarrow> mn_parent (ms c) = Some m \<and> mn_next (ms c) = None \<and>
     seg ms (Some m) (mn_list (ms m)) us (Some c) \<and> around ms stk m"

fun before :: "(nat \<times> mtree list) list \<Rightarrow> nat \<Rightarrow> nat list" where
  "before [] c = []"
| "before ((m, us) # stk) c = before stk m @ preorder us @ [c]"

definition slot_after :: "nat \<Rightarrow> mtree list \<Rightarrow> slot" where
  "slot_after c ts = (if ts = [] then ListOf c else NextOf (node (last ts)))"

definition building :: "kconf \<Rightarrow> (nat \<times> mtree list) list \<Rightarrow> mtree list \<Rightarrow> bool" where
  "building k stk ts \<longleftrightarrow> 0 < next_menu k \<and> before stk (current_menu k) @ preorder ts = [1..<next_menu k] \<and>
     seg (menus k) (Some (current_menu k)) (mn_list (menus k (current_menu k))) ts None \<and>
     around (menus k) stk (current_menu k) \<and> last_entry k = slot_after (current_menu k) ts"

lemma current_in: "around ms stk c \<Longrightarrow> c = rootmenu \<or> c \<in> set (before stk c)"
  by (cases stk) auto

lemma around_frame:
  "around ms stk c \<Longrightarrow> distinct (before stk c) \<Longrightarrow> rootmenu \<notin> set (before stk c) \<Longrightarrow>
   (\<And>m. m \<in> insert rootmenu (set (before stk c)) \<Longrightarrow> m \<noteq> c \<Longrightarrow> same_links (ms' m) (ms m)) \<Longrightarrow>
   mn_parent (ms' c) = mn_parent (ms c) \<Longrightarrow> mn_next (ms' c) = mn_next (ms c) \<Longrightarrow> around ms' stk c"
proof (induction ms stk c rule: around.induct)
  case (2 ms m us stk c)
  have m: "m = rootmenu \<or> m \<in> set (before stk m)" using current_in 2(2) by auto
  have mc: "m \<noteq> c" using m 2(3,4) by auto
  have lm: "same_links (ms' m) (ms m)" using 2(5) m mc by auto
  have "seg ms' (Some m) (mn_list (ms m)) us (Some c)"
    by (rule seg_frame [of ms]) (use 2 in auto)
  moreover have "around ms' stk m"
    by (rule 2(1)) (use 2 lm in \<open>auto simp: same_links_def\<close>)
  ultimately show ?case using 2(2,6,7) lm by (simp add: same_links_def)
qed simp

section \<open>The calls of the parser\<close>

text \<open>An entry without a menu of its own, one that opens a menu, and the end of a menu.\<close>

datatype build = Entry "symref option" | Open "symref option" | Close

fun build_step :: "build \<Rightarrow> kconf \<Rightarrow> kconf option" where
  "build_step (Entry s) k = map_option menu_end_entry (menu_add_entry s k)"
| "build_step (Open s) k = map_option menu_add_menu (menu_add_entry s k)"
| "build_step Close k = menu_end_menu k"

text \<open>Menus are closed as often as they are opened, and never before.\<close>

fun balanced :: "nat \<Rightarrow> build list \<Rightarrow> bool" where
  "balanced d [] \<longleftrightarrow> d = 0"
| "balanced d (Entry s # bs) \<longleftrightarrow> balanced d bs"
| "balanced d (Open s # bs) \<longleftrightarrow> balanced (Suc d) bs"
| "balanced d (Close # bs) \<longleftrightarrow> 0 < d \<and> balanced (d - 1) bs"

fun entries :: "build list \<Rightarrow> nat" where
  "entries [] = 0"
| "entries (Close # bs) = entries bs"
| "entries (b # bs) = Suc (entries bs)"

text \<open>What \<open>menu_add_entry\<close> does to the menus.\<close>

lemma add_symbol_links:
  "\<exists>k'. menu_add_symbol P_SYMBOL r None k = Some k' \<and> menus k' = menus k \<and> next_menu k' = next_menu k \<and>
     current_entry k' = current_entry k \<and> current_menu k' = current_menu k \<and> last_entry k' = last_entry k"
  by (simp add: menu_add_symbol_def menu_add_prop_def check_dep_def store_prop_def upd_tab_def Let_def
      split: option.split)

definition linked_menus :: "symref option \<Rightarrow> kconf \<Rightarrow> nat \<Rightarrow> menu" where
  "linked_menus s k = (let ms = (menus k)(next_menu k := blank_menu\<lparr>mn_sym := s,
       mn_parent := Some (current_menu k), mn_pos := current_pos (tab k)\<rparr>)
     in case last_entry k of
       ListOf m \<Rightarrow> ms(m := (ms m)\<lparr>mn_list := Some (next_menu k)\<rparr>)
     | NextOf m \<Rightarrow> ms(m := (ms m)\<lparr>mn_next := Some (next_menu k)\<rparr>))"

lemma add_entry_links:
  "\<exists>k'. menu_add_entry s k = Some k' \<and> menus k' = linked_menus s k \<and> next_menu k' = Suc (next_menu k) \<and>
     current_entry k' = next_menu k \<and> current_menu k' = current_menu k \<and> last_entry k' = NextOf (next_menu k)"
proof -
  have f: "menus (set_slot sl p k) = (case sl of ListOf m \<Rightarrow> (menus k)(m := (menus k m)\<lparr>mn_list := p\<rparr>)
      | NextOf m \<Rightarrow> (menus k)(m := (menus k m)\<lparr>mn_next := p\<rparr>))"
    "next_menu (set_slot sl p k) = next_menu k" "current_menu (set_slot sl p k) = current_menu k" for sl p and k :: kconf
    by (cases sl; simp add: upd_menu_def)+
  show ?thesis
  proof (cases s)
    case None
    then show ?thesis by (simp add: menu_add_entry_def Let_def linked_menus_def f split: slot.split)
  next
    case (Some r)
    define k1 where "k1 = set_slot (last_entry k) (Some (next_menu k)) (k\<lparr>menus := (menus k)(next_menu k :=
      blank_menu\<lparr>mn_sym := s, mn_parent := Some (current_menu k), mn_pos := current_pos (tab k)\<rparr>),
      next_menu := next_menu k + 1\<rparr>)\<lparr>last_entry := NextOf (next_menu k), current_entry := next_menu k\<rparr>"
    have "menu_add_entry s k = menu_add_symbol P_SYMBOL r None k1"
      using Some by (simp add: menu_add_entry_def k1_def Let_def)
    moreover have "menus k1 = linked_menus s k" "next_menu k1 = Suc (next_menu k)"
      "current_entry k1 = next_menu k" "current_menu k1 = current_menu k" "last_entry k1 = NextOf (next_menu k)"
      by (simp_all add: k1_def f linked_menus_def Let_def split: slot.split)
    ultimately show ?thesis using add_symbol_links [of r k1] by simp
  qed
qed


section \<open>The calls build a tree\<close>

lemma building_numbers:
  assumes "building k stk ts"
  shows "distinct (before stk (current_menu k) @ preorder ts)"
    "m \<in> set (before stk (current_menu k) @ preorder ts) \<Longrightarrow> 0 < m \<and> m < next_menu k"
    "current_menu k < next_menu k" "current_menu k \<notin> set (preorder ts)"
proof -
  have e: "before stk (current_menu k) @ preorder ts = [1..<next_menu k]" "0 < next_menu k"
    and a: "around (menus k) stk (current_menu k)" using assms by (simp_all add: building_def)
  show d: "distinct (before stk (current_menu k) @ preorder ts)" unfolding e(1) by simp
  show r: "m \<in> set (before stk (current_menu k) @ preorder ts) \<Longrightarrow> 0 < m \<and> m < next_menu k" for m
    unfolding e(1) by auto
  show "current_menu k < next_menu k" "current_menu k \<notin> set (preorder ts)"
    using current_in [OF a] r [of "current_menu k"] e(2) d by auto
qed

lemma entry_building:
  assumes b: "building k stk ts"
  shows "\<exists>k'. menu_add_entry s k = Some k' \<and> building k' stk (ts @ [MNode (next_menu k) []]) \<and>
    current_entry k' = next_menu k"
proof -
  let ?n = "next_menu k" and ?c = "current_menu k" and ?ms = "linked_menus s k"
  obtain k' where k': "menu_add_entry s k = Some k'" "menus k' = ?ms" "next_menu k' = Suc ?n"
    "current_entry k' = ?n" "current_menu k' = ?c" "last_entry k' = NextOf ?n"
    using add_entry_links by blast
  note num = building_numbers [OF b]
  have i: "before stk ?c @ preorder ts = [1..<?n]" "seg (menus k) (Some ?c) (mn_list (menus k ?c)) ts None"
    "around (menus k) stk ?c" "last_entry k = slot_after ?c ts" "0 < ?n"
    using b by (simp_all add: building_def)
  have last: "ts \<noteq> [] \<Longrightarrow> node (last ts) \<in> set (preorder ts)" by (rule node_preorder) simp
  have old: "ts \<noteq> [] \<Longrightarrow> node (last ts) < ?n" using num(2) [of "node (last ts)"] last by auto
  have new: "mn_list (?ms ?n) = None" "mn_next (?ms ?n) = None" "mn_parent (?ms ?n) = Some ?c"
    using num(3) old i(4) by (cases "ts = []"; force simp: linked_menus_def slot_after_def Let_def blank_menu_def)+
  have links: "same_links (?ms m) (menus k m)"
    if "m \<noteq> ?n" "m \<noteq> ?c" "ts \<noteq> [] \<Longrightarrow> m \<noteq> node (last ts)" for m
    using that i(4) by (auto simp: linked_menus_def slot_after_def Let_def same_links_def)
  have c: "mn_parent (?ms ?c) = mn_parent (menus k ?c)" "mn_next (?ms ?c) = mn_next (menus k ?c)"
    "mn_list (?ms ?c) = (if ts = [] then Some ?n else mn_list (menus k ?c))"
    using num(3,4) last i(4) by (auto simp: linked_menus_def slot_after_def Let_def)
  have "seg ?ms (Some ?c) (mn_list (?ms ?c)) ts (Some ?n)"
  proof (cases "ts = []")
    case False
    let ?l = "node (last ts)"
    have l: "mn_list (?ms ?l) = mn_list (menus k ?l)" "mn_parent (?ms ?l) = mn_parent (menus k ?l)"
      "mn_next (?ms ?l) = Some ?n"
      using old [OF False] i(4) False by (auto simp: linked_menus_def slot_after_def Let_def)
    have "seg ?ms (Some ?c) (mn_list (menus k ?c)) ts (Some ?n)"
    proof (rule seg_extend [OF i(2) False])
      fix m assume "m \<in> set (preorder ts)" "m \<noteq> ?l"
      moreover from this have "m \<noteq> ?n" "m \<noteq> ?c" using num(2) [of m] num(4) by auto
      ultimately show "same_links (?ms m) (menus k m)" using links by blast
    qed (use num(1) l in auto)
    then show ?thesis using c(3) False by simp
  qed (simp add: c(3))
  then have "seg ?ms (Some ?c) (mn_list (?ms ?c)) (ts @ [MNode ?n []]) None"
    using new by (auto simp: seg_append)
  moreover have "around ?ms stk ?c"
  proof (rule around_frame [OF i(3)])
    fix m assume m: "m \<in> insert rootmenu (set (before stk ?c))" "m \<noteq> ?c"
    have "m \<noteq> ?n" using m(1) num(2) [of m] i(5) by auto
    moreover have "m \<noteq> node (last ts)" if "ts \<noteq> []"
      using m(1) last [OF that] num(1) num(2) [of "node (last ts)"] by auto
    ultimately show "same_links (?ms m) (menus k m)" using links m(2) by blast
  qed (use num(1,2) c(1,2) in auto)
  moreover have "before stk ?c @ preorder (ts @ [MNode ?n []]) = [1..<Suc ?n]"
    using i(1,5) by simp
  ultimately show ?thesis using k' by (simp add: building_def slot_after_def)
qed

lemma build_step_building:
  assumes "building k stk ts"
  shows "\<exists>k'. build_step (Entry s) k = Some k' \<and> building k' stk (ts @ [MNode (next_menu k) []])"
    and "\<exists>k'. build_step (Open s) k = Some k' \<and> building k' ((current_menu k, ts) # stk) []"
    and "stk = (m, us) # stk' \<Longrightarrow>
      \<exists>k'. build_step Close k = Some k' \<and> building k' stk' (us @ [MNode (current_menu k) ts])"
proof -
  obtain k1 where k1: "menu_add_entry s k = Some k1" "building k1 stk (ts @ [MNode (next_menu k) []])"
    "current_entry k1 = next_menu k"
    using entry_building [OF assms] by blast
  have c1: "current_menu k1 = current_menu k" using add_entry_links [of s k] k1(1) by auto
  show "\<exists>k'. build_step (Entry s) k = Some k' \<and> building k' stk (ts @ [MNode (next_menu k) []])"
    using k1 by (simp add: menu_end_entry_def)
  have b: "seg (menus k1) (Some (current_menu k)) (mn_list (menus k1 (current_menu k))) (ts @ [MNode (next_menu k) []]) None"
    "around (menus k1) stk (current_menu k)" "0 < next_menu k1"
    "before stk (current_menu k) @ preorder ts @ [next_menu k] = [1..<next_menu k1]"
    using k1(2) by (simp_all add: building_def c1)
  then have "building (menu_add_menu k1) ((current_menu k, ts) # stk) []"
    using k1(3) by (auto simp: building_def menu_add_menu_def menu_end_entry_def Let_def slot_after_def seg_append)
  with k1(1) show "\<exists>k'. build_step (Open s) k = Some k' \<and> building k' ((current_menu k, ts) # stk) []" by simp
  assume stk: "stk = (m, us) # stk'"
  have i: "before stk (current_menu k) @ preorder ts = [1..<next_menu k]" "0 < next_menu k"
    "seg (menus k) (Some (current_menu k)) (mn_list (menus k (current_menu k))) ts None"
    "around (menus k) stk (current_menu k)"
    using assms by (simp_all add: building_def)
  have p: "mn_parent (menus k (current_menu k)) = Some m" using i(4) stk by simp
  have "seg (menus k) (Some m) (mn_list (menus k m)) (us @ [MNode (current_menu k) ts]) None"
    using i(3) [unfolded seg_forest] i(4) stk by (auto simp: seg_append)
  then have "building (k\<lparr>last_entry := NextOf (current_menu k), current_menu := m\<rparr>) stk' (us @ [MNode (current_menu k) ts])"
    using i stk by (simp add: building_def slot_after_def)
  with p show "\<exists>k'. build_step Close k = Some k' \<and> building k' stk' (us @ [MNode (current_menu k) ts])"
    by (simp add: menu_end_menu_def Let_def)
qed

lemma build_all:
  "building k stk ts \<Longrightarrow> balanced (length stk) bs \<Longrightarrow>
   \<exists>k' ts'. fold_opt build_step bs k = Some k' \<and> building k' [] ts' \<and> next_menu k' = next_menu k + entries bs"
proof (induction bs arbitrary: k stk ts)
  case Nil
  then show ?case by auto
next
  case (Cons b bs)
  have next_entry: "next_menu k' = Suc (next_menu k)" if "menu_add_entry s k = Some k'" for s k'
    using add_entry_links [of s k] that by auto
  show ?case
  proof (cases b)
    case (Entry s)
    obtain k1 where 1: "build_step (Entry s) k = Some k1" "building k1 stk (ts @ [MNode (next_menu k) []])"
      using build_step_building(1) [OF Cons.prems(1)] by blast
    have "next_menu k1 = Suc (next_menu k)" using 1(1) next_entry by (auto simp: menu_end_entry_def)
    with Cons.IH [OF 1(2)] Cons.prems(2) Entry 1(1) show ?thesis by auto
  next
    case (Open s)
    obtain k1 where 1: "build_step (Open s) k = Some k1" "building k1 ((current_menu k, ts) # stk) []"
      using build_step_building(2) [OF Cons.prems(1)] by blast
    have "next_menu k1 = Suc (next_menu k)"
      using 1(1) next_entry by (auto simp: menu_add_menu_def menu_end_entry_def Let_def)
    with Cons.IH [OF 1(2)] Cons.prems(2) Open 1(1) show ?thesis by auto
  next
    case Close
    then obtain m us stk' where stk: "stk = (m, us) # stk'" using Cons.prems(2) by (cases stk) auto
    obtain k1 where 1: "build_step Close k = Some k1" "building k1 stk' (us @ [MNode (current_menu k) ts])"
      using build_step_building(3) [OF Cons.prems(1) stk] by blast
    have "next_menu k1 = next_menu k" using 1(1) by (auto simp: menu_end_menu_def Let_def)
    with Cons.IH [OF 1(2)] Cons.prems(2) Close stk 1(1) show ?thesis by auto
  qed
qed

section \<open>Properties\<close>

text \<open>
  C9: whatever entries the parser adds, and however it opens and closes menus between them, the
  pointers of the menus form a tree, whose entries in preorder are the ones that were added, in
  the order they were added; the loop over all entries ends and visits them in that order.
\<close>

theorem parser_builds_tree:
  assumes "next_menu k = 1" "mn_list (menus k rootmenu) = None" "mn_next (menus k rootmenu) = None"
    "mn_parent (menus k rootmenu) = None" "balanced 0 bs"
  shows "\<exists>k' ts. fold_opt build_step bs (menu_init k) = Some k' \<and>
    forest (menus k') (Some rootmenu) (mn_list (menus k' rootmenu)) ts \<and> preorder ts = [1..<Suc (entries bs)] \<and>
    (\<forall>f (x :: 'a). walk_menus (menus k') f (mn_list (menus k' rootmenu)) x = fold_opt f [1..<Suc (entries bs)] x)"
proof -
  have "building (menu_init k) [] []"
    using assms(1-4) by (simp add: building_def menu_init_def slot_after_def)
  then obtain k' ts where 1: "fold_opt build_step bs (menu_init k) = Some k'" "building k' [] ts"
    "next_menu k' = next_menu (menu_init k) + entries bs"
    using build_all [of "menu_init k" "[]" "[]" bs] assms(5) by auto
  have n: "next_menu k' = Suc (entries bs)" using 1(3) assms(1) by (simp add: menu_init_def)
  have c: "current_menu k' = rootmenu" "mn_parent (menus k' rootmenu) = None" "mn_next (menus k' rootmenu) = None"
    using 1(2) by (auto simp: building_def)
  have f: "forest (menus k') (Some rootmenu) (mn_list (menus k' rootmenu)) ts"
    and p: "preorder ts = [1..<Suc (entries bs)]"
    using 1(2) n c(1) by (simp_all add: building_def seg_forest)
  have "climb (menus k') (Some rootmenu) = Some None"
    using c(2,3) by (simp add: climb.simps [of _ "Some 0"] climb.simps [of _ None])
  from walk_root [OF f this] 1(1) f show ?thesis unfolding p [symmetric] by blast
qed

text \<open>A menu with two entries, and one behind it.\<close>

definition root_only :: kconf where
  "root_only = \<lparr>tab = empty_symtab, menus = (\<lambda>m. blank_menu), next_menu = 1, current_entry = 0,
     current_menu = 0, last_entry = ListOf 0, sym_defconfig_list = None, zconfnerrs = 0\<rparr>"

theorem parser_builds_tree_witness:
  "\<exists>k' ts. fold_opt build_step [Open None, Entry (Some SymYes), Entry None, Close, Entry None] (menu_init root_only) = Some k' \<and>
     forest (menus k') (Some rootmenu) (mn_list (menus k' rootmenu)) ts \<and> preorder ts = [1, 2, 3, 4]"
  using parser_builds_tree [of root_only "[Open None, Entry (Some SymYes), Entry None, Close, Entry None]"]
  by (force simp: root_only_def blank_menu_def upt_rec)


section \<open>The types the checks demand\<close>

text \<open>A numeral of the type of a symbol, and what may stand for a number.\<close>

definition numeral :: "symbol_type \<Rightarrow> cstring \<Rightarrow> bool" where
  "numeral t n \<longleftrightarrow> (if t = S_INT then n = ''-0'' \<or> (\<exists>z. n = dec_of_int z)
     else \<exists>ds. ds \<noteq> [] \<and> list_all c_isxdigit ds \<and> (n = ds \<or> n = ''0x'' @ ds \<or> n = ''0X'' @ ds))"

definition number_typed :: "symtab \<Rightarrow> symbol_type \<Rightarrow> symref \<Rightarrow> bool" where
  "number_typed st t r2 \<longleftrightarrow> (let s2 = syms st r2 in
     s_type s2 = S_INT \<or> s_type s2 = S_HEX \<or>
     s_type s2 = S_UNKNOWN \<and> numeral t (text_or_empty (s_name s2)))"

definition is_num_type :: "symbol_type \<Rightarrow> bool" where
  "is_num_type t \<longleftrightarrow> t = S_INT \<or> t = S_HEX"

definition well_typed :: "symtab \<Rightarrow> symbol_type \<Rightarrow> property \<Rightarrow> bool" where
  "well_typed st t p \<longleftrightarrow> (case p_type p of
     P_DEFAULT \<Rightarrow> (is_text_type t \<longrightarrow> (\<exists>r2. p_expr p = Some (ESymbol r2))) \<and>
       (is_num_type t \<longrightarrow> (\<forall>r2. p_expr p = Some (ESymbol r2) \<longrightarrow> number_typed st t r2))
   | P_SELECT \<Rightarrow> is_tri t \<and> (\<exists>r2. prop_get_symbol p = Some r2 \<and>
       (is_tri (s_type (syms st r2)) \<or> s_type (syms st r2) = S_UNKNOWN))
   | P_RANGE \<Rightarrow> is_num_type t \<and> (\<exists>lo hi. range_syms p = Some (lo, hi) \<and> number_typed st t lo \<and> number_typed st t hi)
   | _ \<Rightarrow> True)"

text \<open>The expressions a property cannot be without.\<close>

definition has_expr :: "property \<Rightarrow> bool" where
  "has_expr p \<longleftrightarrow> (case p_type p of P_DEFAULT \<Rightarrow> p_expr p \<noteq> None
     | P_SELECT \<Rightarrow> prop_get_symbol p \<noteq> None | P_RANGE \<Rightarrow> range_syms p \<noteq> None | _ \<Rightarrow> True)"

lemma validate_number_typed:
  "is_num_type (s_type (syms st r)) \<Longrightarrow> menu_validate_number st r r2 = number_typed st (s_type (syms st r)) r2"
  by (auto simp: menu_validate_number_def number_typed_def is_num_type_def numeral_def Let_def int_valid_iff hex_valid_iff)

definition check_one :: "symtab \<Rightarrow> symref \<Rightarrow> property \<Rightarrow> cstring list option" where
  "check_one st r p = (case p_type p of P_DEFAULT \<Rightarrow> check_default st r p | P_SELECT \<Rightarrow> check_select st r p
     | P_RANGE \<Rightarrow> check_range st r p | _ \<Rightarrow> Some [])"

lemma check_one_typed:
  assumes "has_expr p"
  shows "\<exists>ws. check_one st r p = Some ws \<and> (ws = [] \<longleftrightarrow> well_typed st (s_type (syms st r)) p)"
proof (cases "p_type p")
  case P_DEFAULT
  then obtain e where e: "p_expr p = Some e" using assms by (auto simp: has_expr_def)
  show ?thesis
  proof (cases "is_num_type (s_type (syms st r))")
    case True
    then have t: "is_text_type (s_type (syms st r))" by (auto simp: is_num_type_def is_text_type_def)
    show ?thesis
      using P_DEFAULT e t validate_number_typed [OF True] True [unfolded is_num_type_def] True
      by (cases e) (simp_all add: check_one_def check_default_def well_typed_def Let_def disj_commute)
  next
    case False
    then show ?thesis
      using P_DEFAULT e False [unfolded is_num_type_def]
      by (cases e) (simp_all add: check_one_def check_default_def well_typed_def Let_def)
  qed
next
  case P_SELECT
  then obtain r2 where "prop_get_symbol p = Some r2" using assms by (auto simp: has_expr_def)
  with P_SELECT show ?thesis by (simp add: check_one_def check_select_def well_typed_def Let_def)
next
  case P_RANGE
  then obtain lo hi where b: "range_syms p = Some (lo, hi)" using assms by (auto simp: has_expr_def)
  show ?thesis
  proof (cases "is_num_type (s_type (syms st r))")
    case True
    with P_RANGE b validate_number_typed [OF True] True [unfolded is_num_type_def] show ?thesis
      by (auto simp: check_one_def check_range_def well_typed_def Let_def)
  next
    case False
    with P_RANGE b False [unfolded is_num_type_def] show ?thesis
      by (simp add: check_one_def check_range_def well_typed_def Let_def)
  qed
qed (simp_all add: check_one_def well_typed_def)

text \<open>
  C10: for a symbol whose properties have the expressions they need, the check of its properties
  ends without a warning exactly when they are well-typed: defaults of strings and numbers are
  single symbols, the default of a number and the bounds of a range are numbers or numerals of its
  type, a range belongs to a number, and a select goes from a boolean or tristate symbol to one, or
  to one without a type.
\<close>

theorem check_prop_types:
  assumes "\<forall>p \<in> set (s_props (syms (tab k) r)). has_expr p"
  shows "\<exists>ws. sym_check_prop r k = Some (fold k_warn ws k) \<and>
    (ws = [] \<longleftrightarrow> (\<forall>p \<in> set (s_props (syms (tab k) r)). well_typed (tab k) (s_type (syms (tab k) r)) p))"
proof -
  have "\<exists>ws. sym_check_props st r ps = Some ws \<and> (ws = [] \<longleftrightarrow> (\<forall>p \<in> set ps. well_typed st (s_type (syms st r)) p))"
    if "\<forall>p \<in> set ps. has_expr p" for st ps
    using that
  proof (induction ps)
    case (Cons p ps)
    then show ?case
      using check_one_typed [of p st r] by (auto simp: check_one_def)
  qed simp
  from this [OF assms, of "tab k"] obtain ws where "sym_check_props (tab k) r (s_props (syms (tab k) r)) = Some ws"
    "ws = [] \<longleftrightarrow> (\<forall>p \<in> set (s_props (syms (tab k) r)). well_typed (tab k) (s_type (syms (tab k) r)) p)"
    by blast
  then show ?thesis by (intro exI [of _ ws]) (simp add: sym_check_prop_def)
qed

theorem check_prop_types_witness:
  "sym_check_prop (SymId 6) (root_only\<lparr>tab := sample_symtab\<rparr>) = Some (root_only\<lparr>tab := sample_symtab\<rparr>)"
proof -
  let ?k = "root_only\<lparr>tab := sample_symtab\<rparr>"
  have s: "s_type (syms (tab ?k) (SymId 6)) = S_INT"
    "s_props (syms (tab ?k) (SymId 6)) = [sample_property P_PROMPT (Some ''bar'') None,
       sample_property P_RANGE None (Some (ERange (SymId 7) (SymId 8)))]"
    "syms (tab ?k) (SymId 7) = sample_const ''1''" "syms (tab ?k) (SymId 8) = sample_const ''10''"
    by (simp_all add: sample_symtab_def)
  have "int_valid ''1''" "int_valid ''10''" by (simp_all add: int_valid_def ctype_defs)
  then have d: "numeral S_INT ''1''" "numeral S_INT ''10''" by (simp_all add: numeral_def int_valid_iff)
  have n: "number_typed (tab ?k) S_INT (SymId 7)" "number_typed (tab ?k) S_INT (SymId 8)"
    unfolding number_typed_def s(3,4) using d
    by (simp_all add: Let_def sample_const_def blank_symbol_def text_or_empty_def)
  have "\<forall>p \<in> set (s_props (syms (tab ?k) (SymId 6))). has_expr p \<and> well_typed (tab ?k) S_INT p"
    unfolding s(2) using n
    by (simp add: has_expr_def well_typed_def is_num_type_def sample_property_def range_syms_def)
  then show ?thesis using check_prop_types [of ?k "SymId 6"] s(1) by auto
qed

end
