(* ===== verification/Kfinal.thy ===== *)
theory Kfinal
  imports Kmenutree
begin

text \<open>
  Finishing the menus after the parser, from \<open>support/kconfig/menu.c\<close>: \<open>menu_finalize\<close> gives the entries
  of a menu the dependencies of the menu, puts entries that depend on the entry before them below it,
  makes the entries of a choice its members and dissolves menus without a title. The loops over
  siblings follow \<open>next\<close> pointers that the body may change.
\<close>

section \<open>Loops over siblings\<close>

partial_function (option) each_menu ::
  "(nat \<Rightarrow> kconf \<Rightarrow> kconf option) \<Rightarrow> nat option \<Rightarrow> kconf \<Rightarrow> kconf option" where
  "each_menu f mo k = (case mo of
      None \<Rightarrow> Some k
    | Some m \<Rightarrow> do { k \<leftarrow> f m k; each_menu f (mn_next (menus k m)) k })"

text \<open>The type of the first entry that has one.\<close>

definition menu_type :: "kconf \<Rightarrow> nat \<Rightarrow> symbol_type" where
  "menu_type k m = (case mn_sym (menus k m) of Some q \<Rightarrow> s_type (syms (tab k) q) | None \<Rightarrow> S_UNKNOWN)"

partial_function (option) first_type :: "nat option \<Rightarrow> kconf \<Rightarrow> symbol_type option option" where
  "first_type mo k = (case mo of
      None \<Rightarrow> Some None
    | Some m \<Rightarrow> if menu_type k m \<noteq> S_UNKNOWN then Some (Some (menu_type k m))
        else first_type (mn_next (menus k m)) k)"

section \<open>Types of choices\<close>

definition choice_types :: "nat \<Rightarrow> symref \<Rightarrow> kconf \<Rightarrow> kconf option" where
  "choice_types parent r k = do {
     k \<leftarrow> (if s_type (syms (tab k) r) = S_UNKNOWN
       then do {
         t \<leftarrow> first_type (mn_list (menus k parent)) k;
         let k = k\<lparr>current_entry := parent\<rparr>;
         case t of None \<Rightarrow> Some k | Some t \<Rightarrow> menu_set_type t k
       }
       else Some k);
     each_menu (\<lambda>m k.
         let k = k\<lparr>current_entry := m\<rparr> in
         if mn_sym (menus k m) \<noteq> None \<and> menu_type k m = S_UNKNOWN
         then menu_set_type (s_type (syms (tab k) r)) k else Some k)
       (mn_list (menus k parent)) k
   }"

section \<open>Dependencies of a list of entries\<close>

definition copy_opt :: "expr option \<Rightarrow> expr option" where
  "copy_opt e = Option.bind e expr_copy"

definition prompt_visible :: "kconf \<Rightarrow> nat \<Rightarrow> expr option" where
  "prompt_visible k m = Option.bind (menu_prompt k m) p_visible"

definition parent_dep :: "kconf \<Rightarrow> nat \<Rightarrow> expr option" where
  "parent_dep k parent =
     (case mn_sym (menus k parent) of
        Some r \<Rightarrow>
          if sym_is_choice (syms (tab k) r) then Some (expr_alloc_symbol r)
          else if menu_has_prompt k parent then prompt_visible k parent else mn_dep (menus k parent)
      | None \<Rightarrow> if menu_has_prompt k parent then prompt_visible k parent else mn_dep (menus k parent))"

text \<open>\<open>expr_eliminate_dups\<close> of what is inherited and what the entry or property has of its own.\<close>

definition join_dep :: "symview \<Rightarrow> expr option \<Rightarrow> expr option \<Rightarrow> expr option option" where
  "join_dep v inherited own =
     expr_eliminate_dups v (expr_alloc_and (copy_opt inherited) (expr_transform_opt (sv_type v) own))"

definition entry_visible :: "kconf \<Rightarrow> nat \<Rightarrow> expr option \<Rightarrow> expr option \<Rightarrow> expr option option" where
  "entry_visible k m basedep vis = do {
     let v = view (tab k);
     dep \<leftarrow> join_dep v basedep vis;
     Some (if mn_sym (menus k m) \<noteq> None \<and> menu_type k m \<noteq> S_TRISTATE
       then map_option (expr_trans_bool (sv_type v)) dep else dep)
   }"

definition upd_prop :: "symref \<Rightarrow> nat \<Rightarrow> (property \<Rightarrow> property) \<Rightarrow> kconf \<Rightarrow> kconf" where
  "upd_prop r i f = upd_tab (upd_sym r (\<lambda>s. s\<lparr>s_props := (s_props s)[i := f (s_props s ! i)]\<rparr>))"

definition add_rev_dep :: "symref \<Rightarrow> expr option \<Rightarrow> kconf \<Rightarrow> kconf" where
  "add_rev_dep es e =
     upd_tab (upd_sym es (\<lambda>s. s\<lparr>s_rev_dep := (expr_alloc_or (fst (s_rev_dep s)) e, snd (s_rev_dep s))\<rparr>))"

definition inherit_prop :: "expr option \<Rightarrow> nat \<Rightarrow> symref \<Rightarrow> nat \<Rightarrow> kconf \<Rightarrow> kconf option" where
  "inherit_prop basedep m r i k =
     (let p = s_props (syms (tab k) r) ! i in
      if p_menu p \<noteq> Some m then Some k
      else do {
        dep \<leftarrow> entry_visible k m basedep (p_visible p);
        let k = upd_prop r i (\<lambda>p. p\<lparr>p_visible := dep\<rparr>) k;
        if p_type p = P_SELECT
        then do {
          es \<leftarrow> prop_get_symbol p;
          Some (add_rev_dep es (expr_alloc_and (Some (expr_alloc_symbol r)) (copy_opt dep)) k)
        }
        else Some k
      })"

text \<open>The properties of an entry: those of its symbol, or its prompt alone.\<close>

definition inherit_props :: "expr option \<Rightarrow> nat \<Rightarrow> kconf \<Rightarrow> kconf option" where
  "inherit_props basedep m k =
     (case mn_sym (menus k m) of
        Some r \<Rightarrow> fold_opt (inherit_prop basedep m r) [0..<length (s_props (syms (tab k) r))] k
      | None \<Rightarrow>
          (case menu_prompt k m of
             None \<Rightarrow> Some k
           | Some p \<Rightarrow>
               if p_menu p \<noteq> Some m then Some k
               else do {
                 dep \<leftarrow> entry_visible k m basedep (p_visible p);
                 Some (upd_menu m (\<lambda>x. x\<lparr>mn_prompt := Some (P_own (p\<lparr>p_visible := dep\<rparr>))\<rparr>) k)
               }))"

definition inherit_entry :: "expr option \<Rightarrow> nat \<Rightarrow> kconf \<Rightarrow> kconf option" where
  "inherit_entry parentdep m k = do {
     basedep \<leftarrow> join_dep (view (tab k)) parentdep (mn_dep (menus k m));
     inherit_props basedep m (upd_menu m (\<lambda>x. x\<lparr>mn_dep := basedep\<rparr>) k)
   }"

definition inherit_deps :: "nat \<Rightarrow> kconf \<Rightarrow> kconf option" where
  "inherit_deps parent k = do {
     k \<leftarrow> (case mn_sym (menus k parent) of
         Some r \<Rightarrow> if sym_is_choice (syms (tab k) r) then choice_types parent r k else Some k
       | None \<Rightarrow> Some k);
     each_menu (inherit_entry (parent_dep k parent)) (mn_list (menus k parent)) k
   }"

section \<open>Entries that go below the one before them\<close>

text \<open>\<open>expr_trans_compare(e, E_UNEQUAL, &symbol_no)\<close>, transformed and without duplicates.\<close>

definition not_no :: "symview \<Rightarrow> expr option \<Rightarrow> expr option option" where
  "not_no v e =
     expr_eliminate_dups v (expr_transform_opt (sv_type v) (expr_trans_compare_opt e E_UNEQUAL SymNo))"

definition goes_below :: "symview \<Rightarrow> symref \<Rightarrow> expr option \<Rightarrow> expr option \<Rightarrow> bool option" where
  "goes_below v r basedep dep =
     (case dep of
        None \<Rightarrow> Some False
      | Some d \<Rightarrow>
          if \<not> expr_contains_symbol d r then Some False
          else if expr_depends_symbol d r then Some True
          else do {
            dep \<leftarrow> not_no v dep;
            let (_, _, dep2) = expr_eliminate_eq 0 dep (copy_opt basedep);
            Some (expr_is_yes dep2)
          })"

definition visible_or_dep :: "kconf \<Rightarrow> nat \<Rightarrow> expr option" where
  "visible_or_dep k m = (if menu_has_prompt k m then prompt_visible k m else mn_dep (menus k m))"

text \<open>The loop, with \<open>last_menu\<close>; \<open>fin\<close> is \<open>menu_finalize\<close>.\<close>

partial_function (option) follow ::
  "(nat \<Rightarrow> kconf \<Rightarrow> kconf option) \<Rightarrow> symref \<Rightarrow> expr option \<Rightarrow> nat \<Rightarrow> nat option \<Rightarrow> nat option \<Rightarrow> kconf \<Rightarrow>
   (nat option \<times> kconf) option" where
  "follow fin r basedep parent mo last_menu k = (case mo of
      None \<Rightarrow> Some (last_menu, k)
    | Some m \<Rightarrow> do {
        below \<leftarrow> goes_below (view (tab k)) r basedep (visible_or_dep k m);
        if \<not> below then Some (last_menu, k)
        else do {
          k \<leftarrow> fin m k;
          let k = upd_menu m (\<lambda>x. x\<lparr>mn_parent := Some parent\<rparr>) k;
          follow fin r basedep parent (mn_next (menus k m)) (Some m) k
        }
      })"

definition take_below :: "nat \<Rightarrow> nat option \<Rightarrow> kconf \<Rightarrow> kconf" where
  "take_below parent last_menu k =
     (case last_menu of
        None \<Rightarrow> k
      | Some l \<Rightarrow>
          let k = upd_menu parent (\<lambda>x. x\<lparr>mn_list := mn_next x\<rparr>) k;
              k = upd_menu parent (\<lambda>x. x\<lparr>mn_next := mn_next (menus k l)\<rparr>) k
          in upd_menu l (\<lambda>x. x\<lparr>mn_next := None\<rparr>) k)"

definition submenu :: "(nat \<Rightarrow> kconf \<Rightarrow> kconf option) \<Rightarrow> nat \<Rightarrow> symref \<Rightarrow> kconf \<Rightarrow> kconf option" where
  "submenu fin parent r k = do {
     basedep \<leftarrow> not_no (view (tab k)) (prompt_visible k parent);
     (last_menu, k) \<leftarrow> follow fin r basedep parent (mn_next (menus k parent)) None k;
     let k = take_below parent last_menu k;
     Some (upd_tab (upd_sym r (\<lambda>s. s\<lparr>s_dir_dep :=
       (expr_alloc_or (fst (s_dir_dep s)) (mn_dep (menus k parent)), snd (s_dir_dep s))\<rparr>)) k)
   }"

section \<open>Members of a choice and menus without a title\<close>

text \<open>The warnings about the properties of a new member.\<close>

fun member_warnings :: "symref \<Rightarrow> nat \<Rightarrow> property list \<Rightarrow> kconf \<Rightarrow> kconf option" where
  "member_warnings r m [] k = Some k"
| "member_warnings r m (p # ps) k = do {
     let k = (if p_type p = P_DEFAULT then prop_warn p ''defaults for choice values not supported'' k else k);
     k \<leftarrow> (if p_menu p \<noteq> Some m \<and> p_type p = P_PROMPT
       then do {
         pm \<leftarrow> p_menu p;
         above \<leftarrow> mn_parent (menus k pm);
         Some (if mn_sym (menus k above) \<noteq> Some r
           then prop_warn p ''choice value used outside its choice group'' k else k)
       }
       else Some k);
     member_warnings r m ps k
   }"

text \<open>A member of a tristate choice that is no tristate itself needs the choice to be y.\<close>

definition need_choice :: "symref \<Rightarrow> nat \<Rightarrow> symref \<Rightarrow> kconf \<Rightarrow> kconf" where
  "need_choice r m q k =
     (let basedep = Some (expr_alloc_comp E_EQUAL r SymYes);
          k = upd_menu m (\<lambda>x. x\<lparr>mn_dep := expr_alloc_and basedep (mn_dep x)\<rparr>) k
      in upd_tab (upd_sym q (\<lambda>s. s\<lparr>s_props := map (\<lambda>p.
           if p_menu p \<noteq> Some m then p
           else p\<lparr>p_visible := expr_alloc_and (copy_opt basedep) (p_visible p)\<rparr>) (s_props s)\<rparr>)) k)"

text \<open>
  A new cell at the end of the list of members; \<open>sym_get_choice_prop\<close> gives the first property of type
  P\_CHOICE. None where there is none, or its expression is not a list.
\<close>

fun list_add :: "expr option \<Rightarrow> symref \<Rightarrow> expr option" where
  "list_add None q = Some (EList None q)"
| "list_add (Some (EList l s)) q = map_option (\<lambda>x. EList (Some x) s) (list_add l q)"
| "list_add (Some e) q = None"

fun add_to_choice :: "symref \<Rightarrow> property list \<Rightarrow> property list option" where
  "add_to_choice q [] = None"
| "add_to_choice q (p # ps) =
     (if p_type p = P_CHOICE then map_option (\<lambda>e. p\<lparr>p_expr := Some e\<rparr> # ps) (list_add (p_expr p) q)
      else map_option (\<lambda>ps. p # ps) (add_to_choice q ps))"

definition make_member :: "symref \<Rightarrow> nat \<Rightarrow> symref \<Rightarrow> kconf \<Rightarrow> kconf option" where
  "make_member r m q k = do {
     let k = upd_tab (set_flags q {SYMBOL_CHOICEVAL}) (k\<lparr>current_entry := m\<rparr>);
     let k = (if \<not> menu_has_prompt k m then menu_warn m ''choice value must have a prompt'' k else k);
     k \<leftarrow> member_warnings r m (s_props (syms (tab k) q)) k;
     let k = (if s_type (syms (tab k) r) = S_TRISTATE \<and> s_type (syms (tab k) q) \<noteq> S_TRISTATE
       then need_choice r m q k else k);
     k \<leftarrow> menu_add_symbol P_CHOICE r None k;
     ps \<leftarrow> add_to_choice q (s_props (syms (tab k) r));
     Some (upd_tab (upd_sym r (\<lambda>s. s\<lparr>s_props := ps\<rparr>)) k)
   }"

text \<open>The entries of a list get another parent; the last one is returned.\<close>

partial_function (option) move_list :: "nat \<Rightarrow> nat \<Rightarrow> kconf \<Rightarrow> (nat \<times> kconf) option" where
  "move_list parent m k =
     (let k = upd_menu m (\<lambda>x. x\<lparr>mn_parent := Some parent\<rparr>) k in
      case mn_next (menus k m) of None \<Rightarrow> Some (m, k) | Some n \<Rightarrow> move_list parent n k)"

definition has_title :: "kconf \<Rightarrow> nat \<Rightarrow> bool" where
  "has_title k m \<longleftrightarrow> (case menu_prompt k m of Some p \<Rightarrow> p_text p \<noteq> None | None \<Rightarrow> False)"

definition dissolve :: "nat \<Rightarrow> nat \<Rightarrow> kconf \<Rightarrow> kconf option" where
  "dissolve parent m k =
     (case mn_list (menus k m) of
        None \<Rightarrow> Some k
      | Some l \<Rightarrow>
          if has_title k m then Some k
          else do {
            (last_menu, k) \<leftarrow> move_list parent l k;
            let k = upd_menu last_menu (\<lambda>x. x\<lparr>mn_next := mn_next (menus k m)\<rparr>) k;
            Some (upd_menu m (\<lambda>x. x\<lparr>mn_next := mn_list x, mn_list := None\<rparr>) k)
          })"

definition adopt :: "nat \<Rightarrow> nat \<Rightarrow> kconf \<Rightarrow> kconf option" where
  "adopt parent m k = do {
     k \<leftarrow> (case (mn_sym (menus k parent), mn_sym (menus k m)) of
         (Some r, Some q) \<Rightarrow>
           if sym_is_choice (syms (tab k) r) \<and> \<not> sym_is_choice_value (syms (tab k) q)
           then make_member r m q k else Some k
       | _ \<Rightarrow> Some k);
     dissolve parent m k
   }"

section \<open>menu\_finalize\<close>

definition final_checks :: "nat \<Rightarrow> symref \<Rightarrow> kconf \<Rightarrow> kconf option" where
  "final_checks parent r k =
     (let s = syms (tab k) r in
      if SYMBOL_WARNED \<in> s_flags s then Some k
      else do {
        let k = (if s_type s = S_UNKNOWN then menu_warn parent ''config symbol defined without type'' k else k);
        let k = (if sym_is_choice s \<and> \<not> menu_has_prompt k parent
          then menu_warn parent ''choice must have a prompt'' k else k);
        k \<leftarrow> sym_check_prop r k;
        Some (upd_tab (set_flags r {SYMBOL_WARNED}) k)
      })"

definition final_symbol :: "nat \<Rightarrow> kconf \<Rightarrow> kconf option" where
  "final_symbol parent k =
     (case mn_sym (menus k parent) of
        None \<Rightarrow> Some k
      | Some r \<Rightarrow> do {
          k \<leftarrow> final_checks parent r k;
          Some (if \<not> sym_is_optional (syms (tab k) r) \<and> menu_has_prompt k parent
            then add_rev_dep r (expr_alloc_and (prompt_visible k parent) (Some (expr_alloc_symbol SymMod))) k
            else k)
        })"

text \<open>
  Each call finalizes another entry behind the one it is called for, so the number of entries bounds
  the depth of the calls.
\<close>

fun final_fuel :: "nat \<Rightarrow> nat \<Rightarrow> kconf \<Rightarrow> kconf option" where
  "final_fuel 0 parent k = None"
| "final_fuel (Suc n) parent k = do {
     k \<leftarrow> (if mn_list (menus k parent) \<noteq> None
       then do {
         k \<leftarrow> inherit_deps parent k;
         each_menu (final_fuel n) (mn_list (menus k parent)) k
       }
       else case mn_sym (menus k parent) of
         Some r \<Rightarrow> submenu (final_fuel n) parent r k
       | None \<Rightarrow> Some k);
     k \<leftarrow> each_menu (adopt parent) (mn_list (menus k parent)) k;
     final_symbol parent k
   }"

definition menu_finalize :: "nat \<Rightarrow> kconf \<Rightarrow> kconf option" where
  "menu_finalize parent k = final_fuel (next_menu k) parent k"

end
