(* ===== verification/Kfinaltree.thy ===== *)
theory Kfinaltree
  imports Kfinal
begin

text \<open>
  What \<open>menu_finalize\<close> keeps: for entries with the properties the parser gives them it ends, the menus
  form a tree again, and the entries of the tree in preorder are the same as before. Only what is
  below what changes.
\<close>

section \<open>Sound states\<close>

definition logical_opt :: "expr option \<Rightarrow> bool" where
  "logical_opt e \<longleftrightarrow> (\<forall>x. e = Some x \<longrightarrow> logical x)"

fun list_expr :: "expr option \<Rightarrow> bool" where
  "list_expr None = True"
| "list_expr (Some (EList l s)) = list_expr l"
| "list_expr (Some e) = False"

text \<open>A prompt belongs to an entry that has a parent.\<close>

definition sound_prop :: "kconf \<Rightarrow> property \<Rightarrow> bool" where
  "sound_prop k p \<longleftrightarrow> logical_opt (p_visible p) \<and> has_expr p \<and>
     (p_type p = P_PROMPT \<longrightarrow> (\<exists>m. p_menu p = Some m \<and> mn_parent (menus k m) \<noteq> None))"

definition sound_symbol :: "kconf \<Rightarrow> symbol \<Rightarrow> bool" where
  "sound_symbol k s \<longleftrightarrow> (\<forall>p \<in> set (s_props s). sound_prop k p) \<and>
     (sym_is_choice s \<longrightarrow> (\<exists>p. sym_get_choice_prop s = Some p \<and> list_expr (p_expr p)))"

definition sound_menu :: "kconf \<Rightarrow> nat \<Rightarrow> bool" where
  "sound_menu k m \<longleftrightarrow> logical_opt (mn_dep (menus k m)) \<and>
     (\<forall>p. mn_prompt (menus k m) = Some (P_own p) \<longrightarrow> logical_opt (p_visible p)) \<and>
     (\<forall>i. mn_prompt (menus k m) = Some (P_at i) \<longrightarrow>
        (\<exists>r. mn_sym (menus k m) = Some r \<and> i < length (s_props (syms (tab k) r))))"

definition sound :: "kconf \<Rightarrow> bool" where
  "sound k \<longleftrightarrow> (\<forall>m. sound_menu k m) \<and> (\<forall>r. sound_symbol k (syms (tab k) r))"

lemma soundI: "(\<And>m. sound_menu k m) \<Longrightarrow> (\<And>r. sound_symbol k (syms (tab k) r)) \<Longrightarrow> sound k"
  by (simp add: sound_def)

lemma soundD: "sound k \<Longrightarrow> sound_menu k m" "sound k \<Longrightarrow> sound_symbol k (syms (tab k) r)"
  by (simp_all add: sound_def)

lemma sound_prompt_visible: "sound k \<Longrightarrow> logical_opt (prompt_visible k m)"
proof (cases "mn_prompt (menus k m)")
  case (Some q)
  assume s: "sound k"
  show ?thesis
  proof (cases q)
    case (P_own p)
    then show ?thesis using Some soundD(1) [OF s, of m]
      by (simp add: sound_menu_def prompt_visible_def menu_prompt_def)
  next
    case (P_at i)
    then obtain r where r: "mn_sym (menus k m) = Some r" "i < length (s_props (syms (tab k) r))"
      using Some soundD(1) [OF s, of m] by (auto simp: sound_menu_def)
    then have "sound_prop k (s_props (syms (tab k) r) ! i)"
      using soundD(2) [OF s, of r] by (simp add: sound_symbol_def)
    then show ?thesis using Some P_at r by (simp add: prompt_visible_def menu_prompt_def sound_prop_def)
  qed
qed (simp add: prompt_visible_def menu_prompt_def logical_opt_def)

lemma sound_parent_dep: "sound k \<Longrightarrow> logical_opt (parent_dep k m)"
  using soundD(1) [of k m] sound_prompt_visible [of k m]
  by (auto simp: parent_dep_def sound_menu_def logical_opt_def expr_alloc_symbol_def split: option.splits)

lemma sound_visible_or_dep: "sound k \<Longrightarrow> logical_opt (visible_or_dep k m)"
  using soundD(1) [of k m] sound_prompt_visible [of k m] by (simp add: visible_or_dep_def sound_menu_def)

subsection \<open>Expressions\<close>

lemma logical_opt_simps [simp]: "logical_opt None" "logical_opt (Some x) = logical x"
  by (simp_all add: logical_opt_def)

lemma copy_logical: "logical_opt e \<Longrightarrow> copy_opt e = e"
  by (cases e) (simp_all add: copy_opt_def)

lemma logical_alloc: "logical_opt (expr_alloc_and a b) \<longleftrightarrow> logical_opt a \<and> logical_opt b"
  by (cases a; cases b) (simp_all add: expr_alloc_two_def)

lemma logical_transform_opt: "logical_opt e \<Longrightarrow> logical_opt (expr_transform_opt ty e)"
  by (cases e) (simp_all add: expr_transform_opt_def)

lemma logical_trans_bool: "logical e \<Longrightarrow> logical (expr_trans_bool ty e)"
  by (induction ty e rule: expr_trans_bool.induct) auto

lemma dups_total:
  assumes "logical_opt e"
  shows "\<exists>e'. expr_eliminate_dups v e = Some e' \<and> logical_opt e' \<and> (e = None \<longleftrightarrow> e' = None)"
proof (cases e)
  case (Some x)
  obtain x' where "expr_eliminate_dups v e = Some (Some x')" "logical x'"
    using dups_loop_total [of x v] Some assms by (auto simp: expr_eliminate_dups_def)
  then show ?thesis using Some by auto
qed (simp add: expr_eliminate_dups_def)

lemma join_dep_total:
  assumes "logical_opt a" "logical_opt b"
  shows "\<exists>e. join_dep v a b = Some e \<and> logical_opt e"
  using dups_total [of "expr_alloc_and a (expr_transform_opt (sv_type v) b)" v] assms
  by (auto simp: join_dep_def copy_logical logical_alloc logical_transform_opt)

lemma entry_visible_total:
  assumes "logical_opt a" "logical_opt b"
  shows "\<exists>e. entry_visible k m a b = Some e \<and> logical_opt e"
proof -
  obtain e where "join_dep (view (tab k)) a b = Some e" "logical_opt e" using join_dep_total [OF assms] by blast
  then show ?thesis by (cases e) (simp_all add: entry_visible_def Let_def logical_trans_bool)
qed

lemma logical_trans_compare: "logical e \<Longrightarrow> \<exists>e'. expr_trans_compare e t SymNo = Some e' \<and> (t \<in> {E_EQUAL, E_UNEQUAL} \<longrightarrow> logical e')"
proof (induction e "t" SymNo rule: expr_trans_compare.induct)
  case (1 l r t)
  then obtain a b where "expr_trans_compare l E_EQUAL SymNo = Some a" "logical a"
    "expr_trans_compare r E_EQUAL SymNo = Some b" "logical b" by auto
  then show ?case by (simp add: expr_alloc_two_def expr_alloc_one_def Let_def)
next
  case (2 l r t)
  then obtain a b where "expr_trans_compare l E_EQUAL SymNo = Some a" "logical a"
    "expr_trans_compare r E_EQUAL SymNo = Some b" "logical b" by auto
  then show ?case by (simp add: expr_alloc_two_def expr_alloc_one_def Let_def)
qed (auto simp: Let_def expr_alloc_one_def expr_alloc_comp_def expr_alloc_symbol_def split: expr_type.splits)

lemma not_no_total:
  assumes "logical_opt e"
  shows "\<exists>x. not_no v e = Some (Some x) \<and> logical x"
proof -
  have "\<exists>x. expr_trans_compare_opt e E_UNEQUAL SymNo = Some x \<and> logical x"
    using assms logical_trans_compare by (cases e) (auto simp: expr_alloc_one_def expr_alloc_symbol_def)
  then obtain x where "expr_trans_compare_opt e E_UNEQUAL SymNo = Some x" "logical x" by blast
  then have t: "expr_transform_opt (sv_type v) (expr_trans_compare_opt e E_UNEQUAL SymNo) = Some (expr_transform (sv_type v) x)"
    "logical (expr_transform (sv_type v) x)" by (simp_all add: expr_transform_opt_def)
  obtain e' where "not_no v e = Some e'" "logical_opt e'" "e' \<noteq> None"
    using dups_total [of "Some (expr_transform (sv_type v) x)" v] t unfolding not_no_def t(1) by auto
  then show ?thesis by auto
qed

lemma goes_below_total:
  assumes "logical_opt dep"
  shows "\<exists>b. goes_below v r basedep dep = Some b"
proof (cases dep)
  case (Some d)
  obtain x where "not_no v dep = Some (Some x)" using not_no_total [OF assms] by blast
  then show ?thesis using Some by (auto simp: goes_below_def split: prod.splits)
qed (auto simp: goes_below_def)


section \<open>Steps that leave the pointers alone\<close>

definition calm :: "(kconf \<Rightarrow> kconf option) \<Rightarrow> bool" where
  "calm f \<longleftrightarrow> (\<forall>k. sound k \<longrightarrow> (\<exists>k'. f k = Some k' \<and> sound k' \<and> (\<forall>m. same_links (menus k' m) (menus k m))))"

lemma calmI:
  "(\<And>k. sound k \<Longrightarrow> \<exists>k'. f k = Some k' \<and> sound k' \<and> (\<forall>m. same_links (menus k' m) (menus k m))) \<Longrightarrow> calm f"
  by (simp add: calm_def)

lemma calmE:
  assumes "calm f" "sound k"
  obtains k' where "f k = Some k'" "sound k'" "\<And>m. same_links (menus k' m) (menus k m)"
  using assms unfolding calm_def by blast

lemma same_links_refl [simp]: "same_links x x"
  by (simp add: same_links_def)

lemma same_links_trans: "same_links x y \<Longrightarrow> same_links y z \<Longrightarrow> same_links x z"
  by (simp add: same_links_def)

lemma calm_Some [simp]: "calm Some"
  by (simp add: calm_def)

lemma calm_bind:
  assumes "calm f" "calm g"
  shows "calm (\<lambda>k. Option.bind (f k) g)"
proof (rule calmI)
  fix k assume "sound k"
  then obtain k1 where 1: "f k = Some k1" "sound k1" "\<And>m. same_links (menus k1 m) (menus k m)"
    using calmE [OF assms(1)] by blast
  obtain k2 where "g k1 = Some k2" "sound k2" "\<And>m. same_links (menus k2 m) (menus k1 m)"
    using calmE [OF assms(2) 1(2)] by blast
  then show "\<exists>k'. Option.bind (f k) g = Some k' \<and> sound k' \<and> (\<forall>m. same_links (menus k' m) (menus k m))"
    using 1 same_links_trans by fastforce
qed

lemma calm_fold: "(\<And>x. x \<in> set xs \<Longrightarrow> calm (f x)) \<Longrightarrow> calm (fold_opt f xs)"
proof (induction xs)
  case Nil
  then show ?case by (simp add: calm_def)
next
  case (Cons x xs)
  then have "calm (\<lambda>k. Option.bind (f x k) (fold_opt f xs))" by (intro calm_bind) auto
  moreover have "fold_opt f (x # xs) = (\<lambda>k. Option.bind (f x k) (fold_opt f xs))" by (rule ext) simp
  ultimately show ?case by simp
qed

text \<open>Changes that \<open>sound\<close> does not look at.\<close>

lemma sound_cong:
  assumes "sound k" "menus k' = menus k"
    and "\<And>r. s_props (syms (tab k') r) = s_props (syms (tab k) r)"
    and "\<And>r. sym_is_choice (syms (tab k') r) = sym_is_choice (syms (tab k) r)"
  shows "sound k'"
proof (rule soundI)
  show "sound_menu k' m" for m
    using soundD(1) [OF assms(1), of m] by (simp add: sound_menu_def assms(2,3))
  show "sound_symbol k' (syms (tab k') r)" for r
    using soundD(2) [OF assms(1), of r]
    by (simp add: sound_symbol_def sound_prop_def sym_get_choice_prop_def assms(2-4))
qed

lemma sound_warn [simp]:
  "sound k \<Longrightarrow> sound (k_warn w k)" "sound k \<Longrightarrow> sound (menu_warn m w k)" "sound k \<Longrightarrow> sound (prop_warn p w k)"
  "sound k \<Longrightarrow> sound (k\<lparr>current_entry := m\<rparr>)"
  by (auto simp: menu_warn_def prop_warn_def k_warn_def upd_tab_def elim!: sound_cong)

lemma menus_simps [simp]:
  "menus (k_warn w k) = menus k" "menus (menu_warn m w k) = menus k" "menus (prop_warn p w k) = menus k"
  "menus (upd_tab f k) = menus k" "menus (upd_prop r i g k) = menus k" "menus (add_rev_dep r e k) = menus k"
  by (simp_all add: menu_warn_def prop_warn_def k_warn_def upd_tab_def upd_prop_def add_rev_dep_def)

lemma sound_symbol_field:
  assumes "sound k" "\<And>s. s_props (f s) = s_props s" "\<And>s. sym_is_choice (f s) = sym_is_choice s"
  shows "sound (upd_tab (upd_sym r f) k)"
  by (rule sound_cong [OF assms(1)]) (simp_all add: upd_tab_def upd_sym_def assms(2,3))

lemma sound_rev_dep [simp]: "sound k \<Longrightarrow> sound (add_rev_dep r e k)"
  unfolding add_rev_dep_def by (rule sound_symbol_field) (simp_all add: sym_is_choice_def)

lemma sound_menus:
  assumes "sound k" "\<And>x. mn_parent (f x) = None \<longrightarrow> mn_parent x = None" "sound_menu (upd_menu m f k) m"
  shows "sound (upd_menu m f k)"
proof (rule soundI)
  show "sound_menu (upd_menu m f k) x" for x
    using soundD(1) [OF assms(1), of x] assms(3) by (cases "x = m") (simp_all add: sound_menu_def upd_menu_def)
  have p: "sound_prop (upd_menu m f k) p" if "sound_prop k p" for p
  proof -
    have "\<exists>n. p_menu p = Some n \<and> mn_parent (menus (upd_menu m f k) n) \<noteq> None" if t: "p_type p = P_PROMPT"
    proof -
      obtain n where "p_menu p = Some n" "mn_parent (menus k n) \<noteq> None"
        using \<open>sound_prop k p\<close> t by (auto simp: sound_prop_def)
      then show ?thesis using assms(2) [of "menus k n"] by (auto simp: upd_menu_def)
    qed
    then show ?thesis using that by (simp add: sound_prop_def)
  qed
  show "sound_symbol (upd_menu m f k) (syms (tab (upd_menu m f k)) r)" for r
    using soundD(2) [OF assms(1), of r] p by (simp add: sound_symbol_def) (simp add: upd_menu_def)
qed

lemma sound_dep:
  "sound k \<Longrightarrow> logical_opt (f (mn_dep (menus k m))) \<Longrightarrow> sound (upd_menu m (\<lambda>x. x\<lparr>mn_dep := f (mn_dep x)\<rparr>) k)"
  by (rule sound_menus) (use soundD(1) [of k m] in \<open>simp_all add: sound_menu_def upd_menu_def\<close>)

lemma sound_own:
  "sound k \<Longrightarrow> logical_opt (p_visible p) \<Longrightarrow> sound (upd_menu m (\<lambda>x. x\<lparr>mn_prompt := Some (P_own p)\<rparr>) k)"
  by (rule sound_menus) (use soundD(1) [of k m] in \<open>simp_all add: sound_menu_def upd_menu_def\<close>)

lemma sound_links:
  assumes "sound k" "\<And>x. mn_dep (f x) = mn_dep x" "\<And>x. mn_prompt (f x) = mn_prompt x"
    "\<And>x. mn_sym (f x) = mn_sym x" "\<And>x. mn_parent (f x) = None \<longrightarrow> mn_parent x = None"
  shows "sound (upd_menu m f k)"
  by (rule sound_menus [OF assms(1,5)])
    (use soundD(1) [OF assms(1), of m] in \<open>simp add: sound_menu_def upd_menu_def assms(2-4)\<close>)

lemma links_upd_menu:
  "(\<And>x. mn_list (f x) = mn_list x \<and> mn_next (f x) = mn_next x \<and> mn_parent (f x) = mn_parent x) \<Longrightarrow>
   same_links (menus (upd_menu m f k) n) (menus k n)"
  by (simp add: same_links_def upd_menu_def)

section \<open>Inherited dependencies\<close>

text \<open>Changes of the properties of a symbol that remove none and keep where the first P\_CHOICE is.\<close>

lemma sound_props:
  assumes "sound k" "length (s_props (syms (tab k) r)) \<le> length ps" "\<And>p. p \<in> set ps \<Longrightarrow> sound_prop k p"
    and "sym_is_choice (syms (tab k) r) \<Longrightarrow> \<exists>p. find (\<lambda>p. p_type p = P_CHOICE) ps = Some p \<and> list_expr (p_expr p)"
  shows "sound (upd_tab (upd_sym r (\<lambda>s. s\<lparr>s_props := ps\<rparr>)) k)" (is "sound ?k")
proof (rule soundI)
  show "sound_menu ?k m" for m
    using soundD(1) [OF assms(1), of m] assms(2) by (fastforce simp: sound_menu_def upd_tab_def upd_sym_def)
  have p: "sound_prop ?k p = sound_prop k p" for p by (simp add: sound_prop_def)
  show "sound_symbol ?k (syms (tab ?k) q)" for q
  proof (cases "q = r")
    case True
    then have "syms (tab ?k) q = (syms (tab k) r)\<lparr>s_props := ps\<rparr>" by (simp add: upd_tab_def upd_sym_def)
    then show ?thesis using assms(3,4) by (simp add: sound_symbol_def p sym_is_choice_def sym_get_choice_prop_def)
  next
    case False
    then have "syms (tab ?k) q = syms (tab k) q" by (simp add: upd_tab_def upd_sym_def)
    then show ?thesis using soundD(2) [OF assms(1), of q] by (simp add: sound_symbol_def p)
  qed
qed

text \<open>Changes of the visibilities of properties.\<close>

lemma find_map_type:
  assumes "\<And>p. p_type (f p) = p_type p"
  shows "find (\<lambda>p. p_type p = t) (map f ps) = map_option f (find (\<lambda>p. p_type p = t) ps)"
  by (induction ps) (simp_all add: assms)

lemma find_update_type:
  assumes "i < length ps" "p_type p = p_type (ps ! i)" "p_expr p = p_expr (ps ! i)"
    "find (\<lambda>p. p_type p = t) ps = Some q"
  shows "\<exists>q'. find (\<lambda>p. p_type p = t) (ps[i := p]) = Some q' \<and> p_expr q' = p_expr q"
  using assms
proof (induction ps arbitrary: i)
  case (Cons x ps)
  then show ?case by (cases i) (auto split: if_splits)
qed simp

lemma sound_upd_visible:
  assumes "sound k" "i < length (s_props (syms (tab k) r))" "logical_opt e"
  shows "sound (upd_prop r i (\<lambda>p. p\<lparr>p_visible := e\<rparr>) k)"
proof -
  let ?ps = "s_props (syms (tab k) r)"
  let ?p = "(?ps ! i)\<lparr>p_visible := e\<rparr>"
  note s = soundD(2) [OF assms(1), of r, unfolded sound_symbol_def]
  have "sound_prop k (?ps ! i)" using s assms(2) by simp
  then have p: "sound_prop k ?p" using assms(3) by (simp add: sound_prop_def has_expr_def prop_get_symbol_def range_syms_def split: prop_type.splits)
  have "sound (upd_tab (upd_sym r (\<lambda>s. s\<lparr>s_props := ?ps[i := ?p]\<rparr>)) k)"
  proof (rule sound_props [OF assms(1)])
    show "sound_prop k q" if "q \<in> set (?ps[i := ?p])" for q
      using that p s set_update_subset_insert [of ?ps i ?p] by auto
    show "\<exists>q. find (\<lambda>p. p_type p = P_CHOICE) (?ps[i := ?p]) = Some q \<and> list_expr (p_expr q)"
      if "sym_is_choice (syms (tab k) r)"
      using s that find_update_type [OF assms(2), of ?p] by (force simp: sym_get_choice_prop_def)
  qed simp
  moreover have "upd_prop r i (\<lambda>p. p\<lparr>p_visible := e\<rparr>) k = upd_tab (upd_sym r (\<lambda>s. s\<lparr>s_props := ?ps[i := ?p]\<rparr>)) k"
    by (simp add: upd_prop_def upd_tab_def upd_sym_def)
  ultimately show ?thesis by simp
qed


lemma inherit_prop_ok:
  assumes "sound k" "i < length (s_props (syms (tab k) r))" "logical_opt basedep"
  shows "\<exists>k'. inherit_prop basedep m r i k = Some k' \<and> sound k' \<and> menus k' = menus k \<and>
    length (s_props (syms (tab k') r)) = length (s_props (syms (tab k) r))"
proof -
  let ?p = "s_props (syms (tab k) r) ! i"
  have p: "sound_prop k ?p" using soundD(2) [OF assms(1), of r] assms(2) by (simp add: sound_symbol_def)
  then obtain e where e: "entry_visible k m basedep (p_visible ?p) = Some e" "logical_opt e"
    using entry_visible_total [OF assms(3), of "p_visible ?p"] by (auto simp: sound_prop_def)
  define k1 where "k1 = upd_prop r i (\<lambda>p. p\<lparr>p_visible := e\<rparr>) k"
  have k1: "sound k1" "menus k1 = menus k" "length (s_props (syms (tab k1) r)) = length (s_props (syms (tab k) r))"
    using sound_upd_visible [OF assms(1,2) e(2)] by (simp_all add: k1_def) (simp add: upd_prop_def upd_tab_def upd_sym_def)
  have len: "length (s_props (syms (tab (add_rev_dep es x k1)) r)) = length (s_props (syms (tab k1) r))" for es x
    by (simp add: add_rev_dep_def upd_tab_def upd_sym_def)
  show ?thesis
  proof (cases "p_menu ?p = Some m \<and> p_type ?p = P_SELECT")
    case True
    then obtain es where "prop_get_symbol ?p = Some es" using p by (auto simp: sound_prop_def has_expr_def)
    with True e(1) k1 len show ?thesis by (simp add: inherit_prop_def Let_def flip: k1_def)
  next
    case False
    then show ?thesis using e(1) k1 assms(1) by (auto simp: inherit_prop_def Let_def simp flip: k1_def)
  qed
qed

lemma calm_inherit_props:
  assumes "logical_opt basedep"
  shows "calm (inherit_props basedep m)"
proof (rule calmI)
  fix k assume s: "sound k"
  show "\<exists>k'. inherit_props basedep m k = Some k' \<and> sound k' \<and> (\<forall>x. same_links (menus k' x) (menus k x))"
  proof (cases "mn_sym (menus k m)")
    case (Some r)
    let ?n = "length (s_props (syms (tab k) r))"
    have "\<exists>k'. fold_opt (inherit_prop basedep m r) [0..<?n] k = Some k' \<and>
      (sound k' \<and> menus k' = menus k \<and> length (s_props (syms (tab k') r)) = ?n)"
    proof (rule fold_opt_inv)
      fix i j assume i: "i \<in> set [0..<?n]"
        and j: "sound j \<and> menus j = menus k \<and> length (s_props (syms (tab j) r)) = ?n"
      then show "\<exists>k'. inherit_prop basedep m r i j = Some k' \<and>
          (sound k' \<and> menus k' = menus k \<and> length (s_props (syms (tab k') r)) = ?n)"
        using inherit_prop_ok [of j i r basedep m] assms by auto
    qed (simp add: s)
    then show ?thesis using Some by (auto simp: inherit_props_def)
  next
    case None
    show ?thesis
    proof (cases "mn_prompt (menus k m)")
      case (Some q)
      then obtain p where q: "q = P_own p" using soundD(1) [OF s, of m] None by (cases q) (auto simp: sound_menu_def)
      then have p: "menu_prompt k m = Some p" "logical_opt (p_visible p)"
        using Some soundD(1) [OF s, of m] by (simp_all add: menu_prompt_def sound_menu_def)
      obtain e where e: "entry_visible k m basedep (p_visible p) = Some e" "logical_opt e"
        using entry_visible_total [OF assms p(2)] by blast
      have "sound (upd_menu m (\<lambda>x. x\<lparr>mn_prompt := Some (P_own (p\<lparr>p_visible := e\<rparr>))\<rparr>) k)"
        by (rule sound_own [OF s]) (simp add: e(2))
      then show ?thesis using None p(1) e(1) s by (auto simp: inherit_props_def intro: links_upd_menu)
    next
      case no: None
      then show ?thesis using None s by (auto simp: inherit_props_def menu_prompt_def)
    qed
  qed
qed

lemma calm_inherit_entry:
  assumes "logical_opt d"
  shows "calm (inherit_entry d m)"
proof (rule calmI)
  fix k assume s: "sound k"
  have "logical_opt (mn_dep (menus k m))" using soundD(1) [OF s, of m] by (simp add: sound_menu_def)
  then obtain b where b: "join_dep (view (tab k)) d (mn_dep (menus k m)) = Some b" "logical_opt b"
    using join_dep_total [OF assms] by blast
  let ?k = "upd_menu m (\<lambda>x. x\<lparr>mn_dep := b\<rparr>) k"
  have "sound ?k" using sound_dep [OF s, of "\<lambda>_. b" m] b(2) by simp
  then obtain k' where k': "inherit_props b m ?k = Some k'" "sound k'" "\<And>x. same_links (menus k' x) (menus ?k x)"
    using calmE [OF calm_inherit_props [OF b(2)]] by blast
  have "same_links (menus ?k x) (menus k x)" for x by (rule links_upd_menu) simp
  with same_links_trans [OF k'(3)] k'(1,2)
  show "\<exists>k'. inherit_entry d m k = Some k' \<and> sound k' \<and> (\<forall>x. same_links (menus k' x) (menus k x))"
    by (simp add: inherit_entry_def b(1))
qed

lemma calm_each:
  assumes "\<And>m. calm (f m)"
  shows "forest (menus k) par p ts \<Longrightarrow> sound k \<Longrightarrow>
    \<exists>k'. each_menu f p k = Some k' \<and> sound k' \<and> (\<forall>x. same_links (menus k' x) (menus k x))"
proof (induction ts arbitrary: k p)
  case Nil
  then show ?case by (simp add: each_menu.simps)
next
  case (Cons t ts)
  obtain m ks where t: "t = MNode m ks" by (cases t)
  obtain k1 where k1: "f m k = Some k1" "sound k1" "\<And>x. same_links (menus k1 x) (menus k x)"
    using calmE [OF assms Cons.prems(2)] by blast
  have f1: "forest (menus k1) par p (MNode m ks # ts)"
    using forest_frame [OF Cons.prems(1) [unfolded t]] k1(3) by blast
  then obtain k2 where "each_menu f (mn_next (menus k1 m)) k1 = Some k2" "sound k2"
    "\<And>x. same_links (menus k2 x) (menus k1 x)"
    using Cons.IH [of k1 "mn_next (menus k1 m)"] k1(2) by auto
  moreover have "each_menu f p k = each_menu f (mn_next (menus k1 m)) k1"
    using f1 k1(1) by (subst each_menu.simps) simp
  ultimately show ?case using k1(3) same_links_trans by metis
qed

lemma calm_set_type:
  assumes "sound k" "mn_sym (menus k (current_entry k)) \<noteq> None"
  shows "\<exists>k'. menu_set_type t k = Some k' \<and> sound k' \<and> (\<forall>x. same_links (menus k' x) (menus k x))"
  using assms sound_symbol_field [OF assms(1), of "\<lambda>s. s\<lparr>s_type := t\<rparr>"]
  by (auto simp: menu_set_type_def Let_def sym_is_choice_def)

lemma first_type_total: "forest (menus k) par p ts \<Longrightarrow> \<exists>t. first_type p k = Some t"
proof (induction ts arbitrary: p)
  case (Cons t ts)
  then obtain m ks where t: "t = MNode m ks" "p = Some m" "forest (menus k) par (mn_next (menus k m)) ts"
    by (cases t) auto
  show ?case using Cons.IH [OF t(3)] t(2) by (simp add: first_type.simps [of "Some m" k])
qed (simp add: first_type.simps)

lemma choice_types_ok:
  assumes "sound k" "mn_sym (menus k parent) = Some r" "forest (menus k) par (mn_list (menus k parent)) ts"
  shows "\<exists>k'. choice_types parent r k = Some k' \<and> sound k' \<and> (\<forall>x. same_links (menus k' x) (menus k x))"
proof -
  let ?first = "if s_type (syms (tab k) r) = S_UNKNOWN
       then do {
         t \<leftarrow> first_type (mn_list (menus k parent)) k;
         let k = k\<lparr>current_entry := parent\<rparr>;
         case t of None \<Rightarrow> Some k | Some t \<Rightarrow> menu_set_type t k
       }
       else Some k"
  have "\<exists>k'. ?first = Some k' \<and> sound k' \<and> (\<forall>x. same_links (menus k' x) (menus k x))"
  proof (cases "s_type (syms (tab k) r) = S_UNKNOWN")
    case True
    obtain t where t: "first_type (mn_list (menus k parent)) k = Some t" using first_type_total [OF assms(3)] by blast
    show ?thesis
    proof (cases t)
      case None
      then show ?thesis using True t assms(1) by simp
    next
      case (Some u)
      have "\<exists>k'. menu_set_type u (k\<lparr>current_entry := parent\<rparr>) = Some k' \<and> sound k' \<and>
          (\<forall>x. same_links (menus k' x) (menus (k\<lparr>current_entry := parent\<rparr>) x))"
        by (rule calm_set_type) (simp_all add: assms(1,2))
      then show ?thesis using True t Some by simp
    qed
  qed (simp add: assms(1))
  then obtain k1 where k1: "?first = Some k1" "sound k1" "\<And>x. same_links (menus k1 x) (menus k x)" by blast
  have l: "forest (menus k1) par (mn_list (menus k1 parent)) ts"
    using forest_frame [OF assms(3)] k1(3) by (simp add: same_links_def)
  let ?f = "\<lambda>m k. let k = k\<lparr>current_entry := m\<rparr> in
         if mn_sym (menus k m) \<noteq> None \<and> menu_type k m = S_UNKNOWN
         then menu_set_type (s_type (syms (tab k) r)) k else Some k"
  have "calm (?f m)" for m
  proof (rule calmI)
    fix k assume "sound k"
    then show "\<exists>k'. ?f m k = Some k' \<and> sound k' \<and> (\<forall>x. same_links (menus k' x) (menus k x))"
      using calm_set_type [of "k\<lparr>current_entry := m\<rparr>" "s_type (syms (tab k) r)"] by (auto simp: Let_def)
  qed
  then obtain k2 where k2: "each_menu ?f (mn_list (menus k1 parent)) k1 = Some k2" "sound k2"
    "\<And>x. same_links (menus k2 x) (menus k1 x)"
    using calm_each [of ?f, OF _ l k1(2)] by blast
  have "choice_types parent r k = Some k2" unfolding choice_types_def k1(1) bind.bind_lunit by (rule k2(1))
  with k2(2) same_links_trans [OF k2(3) k1(3)] show ?thesis by blast
qed

lemma inherit_deps_ok:
  assumes "sound k" "forest (menus k) par (mn_list (menus k parent)) ts"
  shows "\<exists>k'. inherit_deps parent k = Some k' \<and> sound k' \<and> (\<forall>x. same_links (menus k' x) (menus k x))"
proof -
  let ?first = "case mn_sym (menus k parent) of
         Some r \<Rightarrow> if sym_is_choice (syms (tab k) r) then choice_types parent r k else Some k
       | None \<Rightarrow> Some k"
  obtain k1 where k1: "?first = Some k1" "sound k1" "\<And>x. same_links (menus k1 x) (menus k x)"
  proof (cases "mn_sym (menus k parent)")
    case (Some r)
    then show thesis
      using that choice_types_ok [OF assms(1) Some assms(2)] assms(1) by (cases "sym_is_choice (syms (tab k) r)") auto
  qed (use that assms(1) in auto)
  have l: "forest (menus k1) par (mn_list (menus k1 parent)) ts"
    using forest_frame [OF assms(2)] k1(3) by (simp add: same_links_def)
  obtain k2 where k2: "each_menu (inherit_entry (parent_dep k1 parent)) (mn_list (menus k1 parent)) k1 = Some k2" "sound k2"
    "\<And>x. same_links (menus k2 x) (menus k1 x)"
    using calm_each [of "inherit_entry (parent_dep k1 parent)", OF calm_inherit_entry [OF sound_parent_dep [OF k1(2)]] l k1(2)]
    by blast
  have "inherit_deps parent k = Some k2" unfolding inherit_deps_def k1(1) by (simp add: k2(1))
  with k2(2) same_links_trans [OF k2(3) k1(3)] show ?thesis by blast
qed


section \<open>Members and the checks at the end\<close>

lemma sound_warnings [simp]: "sound k \<Longrightarrow> sound (fold k_warn ws k)"
  by (induction ws arbitrary: k) simp_all

lemma menus_warnings [simp]: "menus (fold k_warn ws k) = menus k"
  by (induction ws arbitrary: k) simp_all

lemma sound_flags: "sound k \<Longrightarrow> SYMBOL_CHOICE \<notin> fs \<Longrightarrow> sound (upd_tab (set_flags r fs) k)"
  unfolding set_flags_def by (rule sound_symbol_field) (simp_all add: sym_is_choice_def)

lemma check_prop_sound:
  assumes "sound k"
  shows "\<exists>k'. sym_check_prop r k = Some k' \<and> sound k' \<and> menus k' = menus k"
proof -
  have "\<exists>ws. sym_check_props (tab k) r ps = Some ws" if "\<forall>p \<in> set ps. has_expr p" for ps
    using that
  proof (induction ps)
    case (Cons p ps)
    then show ?case using check_one_typed [of p "tab k" r] by (auto simp: check_one_def)
  qed simp
  moreover have "\<forall>p \<in> set (s_props (syms (tab k) r)). has_expr p"
    using soundD(2) [OF assms, of r] by (simp add: sound_symbol_def sound_prop_def)
  ultimately show ?thesis using assms by (force simp: sym_check_prop_def)
qed

lemma calm_final_symbol: "calm (final_symbol parent)"
proof (rule calmI)
  fix k assume s: "sound k"
  show "\<exists>k'. final_symbol parent k = Some k' \<and> sound k' \<and> (\<forall>x. same_links (menus k' x) (menus k x))"
  proof (cases "mn_sym (menus k parent)")
    case (Some r)
    have "\<exists>k'. final_checks parent r k = Some k' \<and> sound k' \<and> menus k' = menus k"
    proof (cases "SYMBOL_WARNED \<in> s_flags (syms (tab k) r)")
      case False
      define k1 where "k1 = (if s_type (syms (tab k) r) = S_UNKNOWN
        then menu_warn parent ''config symbol defined without type'' k else k)"
      define k2 where "k2 = (if sym_is_choice (syms (tab k) r) \<and> \<not> menu_has_prompt k1 parent
        then menu_warn parent ''choice must have a prompt'' k1 else k1)"
      have k2: "sound k2" "menus k2 = menus k" using s by (simp_all add: k1_def k2_def)
      obtain k3 where "sym_check_prop r k2 = Some k3" "sound k3" "menus k3 = menus k2"
        using check_prop_sound [OF k2(1)] by blast
      then show ?thesis using False k2(2) sound_flags [of k3 "{SYMBOL_WARNED}" r]
        by (simp add: final_checks_def Let_def flip: k1_def k2_def)
    qed (simp add: final_checks_def s)
    then show ?thesis using Some by (auto simp: final_symbol_def)
  qed (simp add: final_symbol_def s)
qed

lemma member_warnings_ok:
  "sound k \<Longrightarrow> (\<And>p. p \<in> set ps \<Longrightarrow> sound_prop k p) \<Longrightarrow>
   \<exists>k'. member_warnings r m ps k = Some k' \<and> sound k' \<and> menus k' = menus k \<and> syms (tab k') = syms (tab k)"
proof (induction ps arbitrary: k)
  case (Cons p ps)
  define k1 where "k1 = (if p_type p = P_DEFAULT then prop_warn p ''defaults for choice values not supported'' k else k)"
  have w: "syms (tab (prop_warn p w k)) = syms (tab k)" for w k
    by (simp add: prop_warn_def k_warn_def upd_tab_def)
  have k1: "sound k1" "menus k1 = menus k" "syms (tab k1) = syms (tab k)"
    using Cons.prems(1) by (simp_all add: k1_def w)
  have "sound_prop k p" using Cons.prems(2) by simp
  then obtain pm above where pm: "p_type p = P_PROMPT \<Longrightarrow> p_menu p = Some pm \<and> mn_parent (menus k1 pm) = Some above"
    using k1(2) by (auto simp: sound_prop_def)
  define k2 where "k2 = (if p_menu p \<noteq> Some m \<and> p_type p = P_PROMPT \<and> mn_sym (menus k1 above) \<noteq> Some r
    then prop_warn p ''choice value used outside its choice group'' k1 else k1)"
  have k2: "sound k2" "menus k2 = menus k" "syms (tab k2) = syms (tab k)"
    using k1 by (simp_all add: k2_def w)
  have "sound_prop k2 q" if "q \<in> set ps" for q
    using Cons.prems(2) [of q] that k2(2) by (simp add: sound_prop_def)
  then obtain k3 where "member_warnings r m ps k2 = Some k3" "sound k3" "menus k3 = menus k2" "syms (tab k3) = syms (tab k2)"
    using Cons.IH [OF k2(1)] by blast
  moreover have "member_warnings r m (p # ps) k = member_warnings r m ps k2"
    using pm by (auto simp: k2_def simp flip: k1_def)
  ultimately show ?case using k2 by simp
qed auto

lemma sound_need_choice:
  assumes "sound k"
  shows "sound (need_choice r m q k)" "same_links (menus (need_choice r m q k) x) (menus k x)"
proof -
  let ?b = "Some (expr_alloc_comp E_EQUAL r SymYes)"
  let ?f = "\<lambda>p. if p_menu p \<noteq> Some m then p else p\<lparr>p_visible := expr_alloc_and (copy_opt ?b) (p_visible p)\<rparr>"
  define k1 where "k1 = upd_menu m (\<lambda>x. x\<lparr>mn_dep := expr_alloc_and ?b (mn_dep x)\<rparr>) k"
  have b: "logical_opt ?b" by (simp add: expr_alloc_comp_def)
  have "logical_opt (expr_alloc_and ?b (mn_dep (menus k m)))"
    using soundD(1) [OF assms, of m] b by (simp add: sound_menu_def logical_alloc)
  then have k1: "sound k1" unfolding k1_def by (rule sound_dep [OF assms])
  let ?ps = "s_props (syms (tab k1) q)"
  note s = soundD(2) [OF k1, of q, unfolded sound_symbol_def]
  have "sound (upd_tab (upd_sym q (\<lambda>s. s\<lparr>s_props := map ?f ?ps\<rparr>)) k1)"
  proof (rule sound_props [OF k1])
    show "sound_prop k1 p" if "p \<in> set (map ?f ?ps)" for p
    proof -
      obtain p' where p': "p' \<in> set ?ps" "p = ?f p'"
        using \<open>p \<in> set (map ?f ?ps)\<close> unfolding set_map by (elim imageE)
      have "sound_prop k1 p'" using s p'(1) by blast
      then show ?thesis using b unfolding p'(2)
        by (auto simp: sound_prop_def has_expr_def prop_get_symbol_def range_syms_def copy_logical logical_alloc
            split: prop_type.splits)
    qed
    show "\<exists>p. find (\<lambda>p. p_type p = P_CHOICE) (map ?f ?ps) = Some p \<and> list_expr (p_expr p)"
      if "sym_is_choice (syms (tab k1) q)"
      using s that find_map_type [of ?f P_CHOICE ?ps] by (force simp: sym_get_choice_prop_def)
  qed simp
  moreover have "need_choice r m q k = upd_tab (upd_sym q (\<lambda>s. s\<lparr>s_props := map ?f ?ps\<rparr>)) k1"
    by (simp add: need_choice_def upd_tab_def upd_sym_def flip: k1_def)
  ultimately show "sound (need_choice r m q k)" "same_links (menus (need_choice r m q k) x) (menus k x)"
    by (simp_all add: k1_def links_upd_menu)
qed

lemma list_add_ok: "list_expr e \<Longrightarrow> \<exists>e'. list_add e q = Some e' \<and> list_expr (Some e')"
  by (induction e q rule: list_add.induct) auto


lemma add_to_choice_ok:
  assumes "find (\<lambda>p. p_type p = P_CHOICE) ps = Some c" "list_expr (p_expr c)"
  shows "\<exists>ps' e. add_to_choice q ps = Some ps' \<and> length ps' = length ps \<and> list_expr (Some e) \<and>
    find (\<lambda>p. p_type p = P_CHOICE) ps' = Some (c\<lparr>p_expr := Some e\<rparr>) \<and> set ps' \<subseteq> insert (c\<lparr>p_expr := Some e\<rparr>) (set ps)"
proof -
  obtain e where e: "list_add (p_expr c) q = Some e" "list_expr (Some e)" using list_add_ok [OF assms(2)] by blast
  have "\<exists>ps'. add_to_choice q ps = Some ps' \<and> length ps' = length ps \<and>
    find (\<lambda>p. p_type p = P_CHOICE) ps' = Some (c\<lparr>p_expr := Some e\<rparr>) \<and> set ps' \<subseteq> insert (c\<lparr>p_expr := Some e\<rparr>) (set ps)"
    using assms(1)
  proof (induction ps)
    case (Cons p ps)
    show ?case
    proof (cases "p_type p = P_CHOICE")
      case True
      then show ?thesis using Cons.prems e(1) by auto
    next
      case False
      then obtain ps' where "add_to_choice q ps = Some ps'" "length ps' = length ps"
        "find (\<lambda>p. p_type p = P_CHOICE) ps' = Some (c\<lparr>p_expr := Some e\<rparr>)"
        "set ps' \<subseteq> insert (c\<lparr>p_expr := Some e\<rparr>) (set ps)"
        using Cons by auto
      with False show ?thesis by auto
    qed
  qed simp
  with e(2) show ?thesis by blast
qed

lemma find_append: "find P (xs @ ys) = (case find P xs of Some x \<Rightarrow> Some x | None \<Rightarrow> find P ys)"
  by (induction xs) simp_all

lemma choice_prop_sound:
  assumes "sound k" "mn_sym (menus k (current_entry k)) = Some q"
  shows "\<exists>k'. menu_add_symbol P_CHOICE r None k = Some k' \<and> sound k' \<and> menus k' = menus k \<and>
    (\<forall>x. sym_is_choice (syms (tab k') x) = sym_is_choice (syms (tab k) x))"
proof -
  let ?p = "(prop_alloc P_CHOICE (tab k))\<lparr>p_menu := Some (current_entry k), p_expr := Some (expr_alloc_symbol r)\<rparr>"
  let ?ps = "s_props (syms (tab k) q)"
  note s = soundD(2) [OF assms(1), of q, unfolded sound_symbol_def]
  have "sound (upd_tab (upd_sym q (\<lambda>s. s\<lparr>s_props := ?ps @ [?p]\<rparr>)) k)"
  proof (rule sound_props [OF assms(1)])
    have "sound_prop k ?p" by (simp add: sound_prop_def has_expr_def prop_alloc_def)
    then show "sound_prop k x" if "x \<in> set (?ps @ [?p])" for x using that s by auto
    show "\<exists>p. find (\<lambda>p. p_type p = P_CHOICE) (?ps @ [?p]) = Some p \<and> list_expr (p_expr p)"
      if "sym_is_choice (syms (tab k) q)"
      using s that by (auto simp: find_append sym_get_choice_prop_def)
  qed simp
  moreover have "menu_add_symbol P_CHOICE r None k = Some (upd_tab (upd_sym q (\<lambda>s. s\<lparr>s_props := ?ps @ [?p]\<rparr>)) k)"
    using assms(2) by (simp add: menu_add_symbol_def menu_add_prop_def check_dep_def store_prop_def Let_def add_prop_def
        prop_alloc_def upd_tab_def upd_sym_def)
  moreover have "sym_is_choice (syms (tab (upd_tab (upd_sym q (\<lambda>s. s\<lparr>s_props := ps\<rparr>)) k)) x) = sym_is_choice (syms (tab k) x)" for ps x
    by (simp add: upd_tab_def upd_sym_def sym_is_choice_def)
  ultimately show ?thesis by simp
qed

lemma current_entry_simps [simp]:
  "current_entry (k_warn w k) = current_entry k" "current_entry (upd_tab f k) = current_entry k"
  "current_entry (menu_warn m w k) = current_entry k" "current_entry (prop_warn p w k) = current_entry k"
  "current_entry (upd_menu m g k) = current_entry k" "current_entry (need_choice r m q k) = current_entry k"
  by (simp_all add: menu_warn_def prop_warn_def k_warn_def upd_tab_def upd_menu_def need_choice_def Let_def)

lemma member_warnings_current: "member_warnings r m ps k = Some k' \<Longrightarrow> current_entry k' = current_entry k"
proof (induction r m ps k rule: member_warnings.induct)
  case (2 r m p ps k)
  then show ?case by (auto split: if_splits bind_splits)
qed simp


lemma make_member_ok:
  assumes "sound k" "mn_sym (menus k m) = Some q" "sym_is_choice (syms (tab k) r)"
  shows "\<exists>k'. make_member r m q k = Some k' \<and> sound k' \<and> (\<forall>x. same_links (menus k' x) (menus k x))"
proof -
  define k1 where "k1 = upd_tab (set_flags q {SYMBOL_CHOICEVAL}) (k\<lparr>current_entry := m\<rparr>)"
  define k2 where "k2 = (if \<not> menu_has_prompt k1 m then menu_warn m ''choice value must have a prompt'' k1 else k1)"
  have k1: "sound k1" "menus k1 = menus k" "current_entry k1 = m" "sym_is_choice (syms (tab k1) r)"
    using assms sound_flags [of "k\<lparr>current_entry := m\<rparr>" "{SYMBOL_CHOICEVAL}" q]
    by (simp_all add: k1_def) (auto simp: upd_tab_def set_flags_def upd_sym_def sym_is_choice_def)
  have w: "syms (tab (menu_warn m w k)) = syms (tab k)" for w and k :: kconf
    by (simp add: menu_warn_def k_warn_def upd_tab_def)
  have k2: "sound k2" "menus k2 = menus k" "current_entry k2 = m" "sym_is_choice (syms (tab k2) r)"
    using k1 by (simp_all add: k2_def w)
  have "sound_prop k2 p" if "p \<in> set (s_props (syms (tab k2) q))" for p
    using soundD(2) [OF k2(1), of q] that by (simp add: sound_symbol_def)
  then obtain k3 where k3: "member_warnings r m (s_props (syms (tab k2) q)) k2 = Some k3" "sound k3" "menus k3 = menus k2"
    "syms (tab k3) = syms (tab k2)"
    using member_warnings_ok [OF k2(1)] by blast
  define k4 where "k4 = (if s_type (syms (tab k3) r) = S_TRISTATE \<and> s_type (syms (tab k3) q) \<noteq> S_TRISTATE
       then need_choice r m q k3 else k3)"
  have k4: "sound k4" "\<And>x. same_links (menus k4 x) (menus k3 x)" "current_entry k4 = m"
    "mn_sym (menus k4 m) = Some q" "sym_is_choice (syms (tab k4) r)"
    using sound_need_choice [OF k3(2)] k3 k2 member_warnings_current [OF k3(1)] assms(2)
    by (auto simp: k4_def need_choice_def upd_tab_def upd_sym_def upd_menu_def sym_is_choice_def Let_def)
  obtain k5 where k5: "menu_add_symbol P_CHOICE r None k4 = Some k5" "sound k5" "menus k5 = menus k4"
    "sym_is_choice (syms (tab k5) r)"
    using choice_prop_sound [OF k4(1), of q r] k4(3-5) by auto
  note s = soundD(2) [OF k5(2), of r, unfolded sound_symbol_def]
  obtain c where c: "find (\<lambda>p. p_type p = P_CHOICE) (s_props (syms (tab k5) r)) = Some c" "list_expr (p_expr c)"
    using s k5(4) by (auto simp: sym_get_choice_prop_def)
  obtain ps e where ps: "add_to_choice q (s_props (syms (tab k5) r)) = Some ps" "length ps = length (s_props (syms (tab k5) r))"
    "list_expr (Some e)" "find (\<lambda>p. p_type p = P_CHOICE) ps = Some (c\<lparr>p_expr := Some e\<rparr>)"
    "set ps \<subseteq> insert (c\<lparr>p_expr := Some e\<rparr>) (set (s_props (syms (tab k5) r)))"
    using add_to_choice_ok [OF c] by blast
  have "sound_prop k5 c" "p_type c = P_CHOICE" using s c(1) by (auto simp: find_Some_iff)
  then have "sound_prop k5 (c\<lparr>p_expr := Some e\<rparr>)" by (simp add: sound_prop_def has_expr_def)
  then have "sound (upd_tab (upd_sym r (\<lambda>s. s\<lparr>s_props := ps\<rparr>)) k5)"
    by (intro sound_props [OF k5(2)]) (use ps s in auto)
  moreover have "make_member r m q k = Some (upd_tab (upd_sym r (\<lambda>s. s\<lparr>s_props := ps\<rparr>)) k5)"
    using k3(1) k5(1) ps(1) by (simp add: make_member_def Let_def flip: k1_def k2_def k4_def)
  ultimately show ?thesis using k4(2) k5(3) k3(3) k2(2) by simp
qed


section \<open>The order of the entries\<close>

text \<open>
  A step for an entry and the entries after it: what comes below it and what stays behind it are,
  in this order, the entries that were there; nothing else is touched.
\<close>

definition in_order :: "nat option \<Rightarrow> nat \<Rightarrow> (nat \<Rightarrow> kconf \<Rightarrow> kconf option) \<Rightarrow> bool" where
  "in_order par n f \<longleftrightarrow> (\<forall>k m ks ts. sound k \<longrightarrow> forest (menus k) par (Some m) (MNode m ks # ts) \<longrightarrow>
     distinct (preorder (MNode m ks # ts)) \<longrightarrow> length (preorder (MNode m ks # ts)) \<le> n \<longrightarrow>
     (\<exists>k' ks' ts'. f m k = Some k' \<and> sound k' \<and> forest (menus k') par (Some m) (MNode m ks' # ts') \<and>
        preorder ks' @ preorder ts' = preorder ks @ preorder ts \<and>
        (\<forall>x. x \<notin> set (preorder (MNode m ks # ts)) \<longrightarrow> same_links (menus k' x) (menus k x))))"

lemma in_orderE:
  assumes "in_order par n f" "sound k" "forest (menus k) par (Some m) (MNode m ks # ts)"
    "distinct (preorder (MNode m ks # ts))" "length (preorder (MNode m ks # ts)) \<le> n"
  obtains k' ks' ts' where "f m k = Some k'" "sound k'" "forest (menus k') par (Some m) (MNode m ks' # ts')"
    "preorder ks' @ preorder ts' = preorder ks @ preorder ts"
    "\<And>x. x \<notin> set (preorder (MNode m ks # ts)) \<Longrightarrow> same_links (menus k' x) (menus k x)"
  using assms unfolding in_order_def by blast

text \<open>The loop over a list of siblings with such a step.\<close>

lemma each_in_order:
  assumes "in_order par n f"
  shows "forest (menus k) par p ts \<Longrightarrow> sound k \<Longrightarrow> distinct (preorder ts) \<Longrightarrow> length (preorder ts) \<le> n \<Longrightarrow>
    \<exists>k' ts'. each_menu f p k = Some k' \<and> sound k' \<and> forest (menus k') par p ts' \<and> preorder ts' = preorder ts \<and>
      (\<forall>x. x \<notin> set (preorder ts) \<longrightarrow> same_links (menus k' x) (menus k x))"
proof (induction "length (preorder ts)" arbitrary: k p ts rule: less_induct)
  case less
  show ?case
  proof (cases ts)
    case Nil
    then show ?thesis using less.prems by (intro exI [of _ k] exI [of _ ts]) (simp add: each_menu.simps)
  next
    case (Cons t us)
    obtain m ks where t: "t = MNode m ks" by (cases t)
    have p: "p = Some m" using less.prems(1) Cons t by simp
    obtain k1 ks' us' where 1: "f m k = Some k1" "sound k1" "forest (menus k1) par (Some m) (MNode m ks' # us')"
      "preorder ks' @ preorder us' = preorder ks @ preorder us"
      "\<And>x. x \<notin> set (preorder ts) \<Longrightarrow> same_links (menus k1 x) (menus k x)"
      using in_orderE [OF assms less.prems(2)] less.prems Cons t p by metis
    have d: "distinct (m # preorder ks' @ preorder us')" "set (preorder ts) = set (m # preorder ks' @ preorder us')"
      using less.prems(3) Cons t 1(4) by auto
    have l: "length (preorder us') < length (preorder ts)" "length (preorder us') \<le> n"
      using arg_cong [OF 1(4), of length] less.prems(4) Cons t by auto
    obtain k2 us2 where 2: "each_menu f (mn_next (menus k1 m)) k1 = Some k2" "sound k2"
      "forest (menus k2) par (mn_next (menus k1 m)) us2" "preorder us2 = preorder us'"
      "\<And>x. x \<notin> set (preorder us') \<Longrightarrow> same_links (menus k2 x) (menus k1 x)"
      using less.hyps [OF l(1), of k1 "mn_next (menus k1 m)"] 1(2,3) d(1) l(2) by auto
    have same: "same_links (menus k2 x) (menus k1 x)" if "x \<in> insert m (set (preorder ks'))" for x
      using 2(5) that d(1) by auto
    have "forest (menus k2) (Some m) (mn_list (menus k1 m)) ks'"
      by (rule forest_frame [of "menus k1"]) (use 1(3) same in auto)
    moreover have "same_links (menus k2 m) (menus k1 m)" by (rule same) simp
    ultimately have "forest (menus k2) par p (MNode m ks' # us2)"
      using 1(3) 2(3) by (simp add: p same_links_def)
    moreover have "each_menu f p k = Some k2" using p 1(1) 2(1) by (subst each_menu.simps) simp
    moreover have "preorder (MNode m ks' # us2) = preorder ts" using 1(4) 2(4) Cons t by simp
    moreover have "same_links (menus k2 x) (menus k x)" if x: "x \<notin> set (preorder ts)" for x
    proof -
      have "x \<notin> set (preorder us')" using x d(2) by simp
      from same_links_trans [OF 2(5) [OF this] 1(5) [OF x]] show ?thesis .
    qed
    ultimately show ?thesis using 2(2) by blast
  qed
qed

subsection \<open>Dissolved menus\<close>

lemma menus_upd_menu: "menus (upd_menu m f k) = (menus k)(m := f (menus k m))"
  by (simp add: upd_menu_def)

lemma move_list_ok:
  "forest (menus k) par (Some l) ts \<Longrightarrow> sound k \<Longrightarrow> distinct (preorder ts) \<Longrightarrow>
   \<exists>k'. move_list parent l k = Some (node (last ts), k') \<and> sound k' \<and> forest (menus k') (Some parent) (Some l) ts \<and>
     (\<forall>x. x \<notin> set (preorder ts) \<longrightarrow> menus k' x = menus k x)"
proof (induction ts arbitrary: k l)
  case (Cons t ts)
  obtain m ks where t: "t = MNode m ks" by (cases t)
  have m: "l = m" "forest (menus k) (Some m) (mn_list (menus k m)) ks" "forest (menus k) par (mn_next (menus k m)) ts"
    "m \<notin> set (preorder ks)" "m \<notin> set (preorder ts)" "set (preorder ks) \<inter> set (preorder ts) = {}" "distinct (preorder ts)"
    using Cons.prems(1,3) t by auto
  define k1 where "k1 = upd_menu m (\<lambda>x. x\<lparr>mn_parent := Some parent\<rparr>) k"
  have s: "sound k1" unfolding k1_def by (rule sound_links [OF Cons.prems(2)]) simp_all
  have k1: "menus k1 x = menus k x" if "x \<noteq> m" for x using that by (simp add: k1_def menus_upd_menu)
  have km: "mn_parent (menus k1 m) = Some parent" "mn_next (menus k1 m) = mn_next (menus k m)" "mn_list (menus k1 m) = mn_list (menus k m)"
    by (simp_all add: k1_def menus_upd_menu)
  have fks: "forest (menus k1) (Some m) (mn_list (menus k m)) ks"
    by (rule forest_frame [OF m(2)]) (use k1 m(4) in \<open>metis same_links_refl\<close>)
  have fts: "forest (menus k1) par (mn_next (menus k m)) ts"
    by (rule forest_frame [OF m(3)]) (use k1 m(5) in \<open>metis same_links_refl\<close>)
  have unf: "move_list parent l k = (case mn_next (menus k m) of None \<Rightarrow> Some (m, k1) | Some n \<Rightarrow> move_list parent n k1)"
    unfolding m(1) by (subst move_list.simps) (simp add: km(2) Let_def flip: k1_def)
  show ?case
  proof (cases "mn_next (menus k m)")
    case None
    then have "ts = []" using m(3) by (cases ts rule: preorder.cases) auto
    then show ?thesis using unf None s fks km m(1) t k1 by auto
  next
    case (Some n)
    then have ne: "ts \<noteq> []" using m(3) by auto
    obtain k2 where k2: "move_list parent n k1 = Some (node (last ts), k2)" "sound k2"
      "forest (menus k2) (Some parent) (Some n) ts" "\<And>x. x \<notin> set (preorder ts) \<Longrightarrow> menus k2 x = menus k1 x"
      using Cons.IH [of k1 n] fts Some s m(7) by auto
    have "forest (menus k2) (Some m) (mn_list (menus k m)) ks"
      by (rule forest_frame [OF fks]) (use k2(4) m(6) in \<open>metis disjoint_iff same_links_refl\<close>)
    moreover have "menus k2 m = menus k1 m" by (rule k2(4) [OF m(5)])
    ultimately have "forest (menus k2) (Some parent) (Some l) (t # ts)"
      using km k2(3) Some by (simp add: t m(1))
    then show ?thesis using unf Some k2 ne k1 t by auto
  qed
qed simp


lemma dissolve_in_order: "in_order (Some parent) n (dissolve parent)"
  unfolding in_order_def
proof (intro allI impI)
  fix k m ks ts
  assume s: "sound k" and f: "forest (menus k) (Some parent) (Some m) (MNode m ks # ts)"
    and d: "distinct (preorder (MNode m ks # ts))"
  let ?ok = "\<lambda>k' ks' ts'. dissolve parent m k = Some k' \<and> sound k' \<and>
      forest (menus k') (Some parent) (Some m) (MNode m ks' # ts') \<and>
      preorder ks' @ preorder ts' = preorder ks @ preorder ts \<and>
      (\<forall>x. x \<notin> set (preorder (MNode m ks # ts)) \<longrightarrow> same_links (menus k' x) (menus k x))"
  show "\<exists>k' ks' ts'. ?ok k' ks' ts'"
  proof (cases "mn_list (menus k m) = None \<or> has_title k m")
    case True
    then have "?ok k ks ts" using s f by (auto simp: dissolve_def split: option.split)
    then show ?thesis by blast
  next
    case False
    then obtain l where l: "mn_list (menus k m) = Some l" by auto
    have fks: "forest (menus k) (Some m) (Some l) ks" and fts: "forest (menus k) (Some parent) (mn_next (menus k m)) ts"
      and pm: "mn_parent (menus k m) = Some parent"
      using f l by auto
    have ne: "ks \<noteq> []" using fks by auto
    have dis: "m \<notin> set (preorder ks)" "m \<notin> set (preorder ts)" "distinct (preorder ks)"
      "set (preorder ks) \<inter> set (preorder ts) = {}" using d by auto
    let ?z = "node (last ks)"
    have z: "?z \<in> set (preorder ks)" using ne by (intro node_preorder) simp
    obtain k1 where k1: "move_list parent l k = Some (?z, k1)" "sound k1" "forest (menus k1) (Some parent) (Some l) ks"
      "\<And>x. x \<notin> set (preorder ks) \<Longrightarrow> menus k1 x = menus k x"
      using move_list_ok [OF fks s dis(3)] by blast
    have k1m: "menus k1 m = menus k m" using k1(4) dis(1) by blast
    define k2 where "k2 = upd_menu ?z (\<lambda>x. x\<lparr>mn_next := mn_next (menus k1 m)\<rparr>) k1"
    define k3 where "k3 = upd_menu m (\<lambda>x. x\<lparr>mn_next := mn_list x, mn_list := None\<rparr>) k2"
    have s3: "sound k3" unfolding k3_def k2_def by (intro sound_links k1(2)) simp_all
    have o: "menus k3 x = menus k1 x" if "x \<noteq> m" "x \<noteq> ?z" for x
      using that by (simp add: k2_def k3_def menus_upd_menu)
    have zm: "?z \<noteq> m" using z dis(1) by blast
    have k3m: "mn_list (menus k3 m) = None" "mn_next (menus k3 m) = Some l" "mn_parent (menus k3 m) = Some parent"
      using zm l pm k1m by (simp_all add: k2_def k3_def menus_upd_menu)
    have "seg (menus k3) (Some parent) (Some l) ks (mn_next (menus k m))"
      by (rule seg_extend [OF k1(3) [folded seg_forest] ne dis(3)])
        (use o dis(1) zm k1m in \<open>auto simp: k2_def k3_def menus_upd_menu\<close>)
    moreover have "forest (menus k3) (Some parent) (mn_next (menus k m)) ts"
      by (rule forest_frame [OF fts]) (use o k1(4) z dis in \<open>metis disjoint_iff same_links_refl\<close>)
    ultimately have "forest (menus k3) (Some parent) (Some l) (ks @ ts)"
      unfolding seg_forest [symmetric] seg_append by blast
    then have "forest (menus k3) (Some parent) (Some m) (MNode m [] # ks @ ts)" using k3m by simp
    moreover have "dissolve parent m k = Some k3"
      using False l k1(1) by (simp add: dissolve_def k2_def k3_def)
    moreover have "menus k3 x = menus k x" if "x \<notin> set (preorder (MNode m ks # ts))" for x
      using o [of x] k1(4) [of x] that z by auto
    ultimately have "?ok k3 [] (ks @ ts)" using s3 by simp
    then show ?thesis by blast
  qed
qed

lemma in_order_after:
  assumes "\<And>k m. sound k \<Longrightarrow> \<exists>k'. g m k = Some k' \<and> sound k' \<and> (\<forall>x. same_links (menus k' x) (menus k x))"
    and "in_order par n f" "\<And>m k. h m k = Option.bind (g m k) (f m)"
  shows "in_order par n h"
  unfolding in_order_def
proof (intro allI impI)
  fix k m ks ts
  assume a: "sound k" "forest (menus k) par (Some m) (MNode m ks # ts)"
    "distinct (preorder (MNode m ks # ts))" "length (preorder (MNode m ks # ts)) \<le> n"
  obtain k1 where k1: "g m k = Some k1" "sound k1" "\<And>x. same_links (menus k1 x) (menus k x)"
    using assms(1) [OF a(1)] by blast
  have "forest (menus k1) par (Some m) (MNode m ks # ts)" by (rule forest_frame [OF a(2)]) (rule k1(3))
  from in_orderE [OF assms(2) k1(2) this a(3,4)]
  obtain k2 ks' ts' where k2: "f m k1 = Some k2" "sound k2" "forest (menus k2) par (Some m) (MNode m ks' # ts')"
    "preorder ks' @ preorder ts' = preorder ks @ preorder ts"
    "\<And>x. x \<notin> set (preorder (MNode m ks # ts)) \<Longrightarrow> same_links (menus k2 x) (menus k1 x)"
    by blast
  have "h m k = Some k2" by (simp add: assms(3) k1(1) k2(1))
  with k2(2-4) same_links_trans [OF k2(5) k1(3)] show "\<exists>k' ks' ts'. h m k = Some k' \<and> sound k' \<and> forest (menus k') par (Some m) (MNode m ks' # ts') \<and>
      preorder ks' @ preorder ts' = preorder ks @ preorder ts \<and>
      (\<forall>x. x \<notin> set (preorder (MNode m ks # ts)) \<longrightarrow> same_links (menus k' x) (menus k x))"
    by blast
qed

lemma adopt_in_order: "in_order (Some parent) n (adopt parent)"
proof (rule in_order_after [OF _ dissolve_in_order])
  fix k :: kconf and m
  assume "sound k"
  then show "\<exists>k'. (case (mn_sym (menus k parent), mn_sym (menus k m)) of
         (Some r, Some q) \<Rightarrow>
           if sym_is_choice (syms (tab k) r) \<and> \<not> sym_is_choice_value (syms (tab k) q)
           then make_member r m q k else Some k
       | _ \<Rightarrow> Some k) = Some k' \<and> sound k' \<and> (\<forall>x. same_links (menus k' x) (menus k x))"
    using make_member_ok [of k m] by (auto split: option.split)
qed (simp add: adopt_def)

subsection \<open>Entries moved below another\<close>

lemma follow_in_order:
  assumes "in_order par n fin"
  shows "forest (menus k) par p ts \<Longrightarrow> sound k \<Longrightarrow> distinct (preorder ts) \<Longrightarrow> length (preorder ts) \<le> n \<Longrightarrow>
    \<exists>k' us vs q. follow fin r b parent p last0 k = Some (if us = [] then last0 else Some (node (last us)), k') \<and>
      sound k' \<and> seg (menus k') (Some parent) p us q \<and> forest (menus k') par q vs \<and>
      preorder us @ preorder vs = preorder ts \<and>
      (\<forall>x. x \<notin> set (preorder ts) \<longrightarrow> same_links (menus k' x) (menus k x))"
proof (induction "length (preorder ts)" arbitrary: k p ts last0 rule: less_induct)
  case less
  let ?stop = "follow fin r b parent p last0 k = Some (last0, k)"
  have stop: ?case if ?stop
    using that less.prems by (intro exI [of _ k] exI [of _ "[]"] exI [of _ ts] exI [of _ p]) simp
  show ?case
  proof (cases ts)
    case Nil
    then have ?stop using less.prems(1) by (simp add: follow.simps)
    then show ?thesis by (rule stop)
  next
    case (Cons t us)
    obtain m ks where t: "t = MNode m ks" by (cases t)
    have p: "p = Some m" using less.prems(1) Cons t by simp
    obtain below where below: "goes_below (view (tab k)) r b (visible_or_dep k m) = Some below"
      using goes_below_total [OF sound_visible_or_dep [OF less.prems(2)]] by blast
    show ?thesis
    proof (cases below)
      case False
      then have ?stop using below p by (subst follow.simps) simp
      then show ?thesis by (rule stop)
    next
      case True
      obtain k1 ks' us' where 1: "fin m k = Some k1" "sound k1" "forest (menus k1) par (Some m) (MNode m ks' # us')"
        "preorder ks' @ preorder us' = preorder ks @ preorder us"
        "\<And>x. x \<notin> set (preorder ts) \<Longrightarrow> same_links (menus k1 x) (menus k x)"
        using in_orderE [OF assms less.prems(2)] less.prems Cons t p by metis
      have d: "distinct (m # preorder ks' @ preorder us')" "set (preorder ts) = set (m # preorder ks' @ preorder us')"
        using less.prems(3) Cons t 1(4) by auto
      have l: "length (preorder us') < length (preorder ts)" "length (preorder us') \<le> n"
        using arg_cong [OF 1(4), of length] less.prems(4) Cons t by auto
      define k2 where "k2 = upd_menu m (\<lambda>x. x\<lparr>mn_parent := Some parent\<rparr>) k1"
      have k2: "sound k2" "\<And>x. x \<noteq> m \<Longrightarrow> menus k2 x = menus k1 x" "mn_next (menus k2 m) = mn_next (menus k1 m)"
        "mn_list (menus k2 m) = mn_list (menus k1 m)" "mn_parent (menus k2 m) = Some parent"
        using sound_links [OF 1(2)] by (simp_all add: k2_def menus_upd_menu)
      have "forest (menus k2) par (mn_next (menus k2 m)) us'"
        by (rule forest_frame [of "menus k1"]) (use 1(3) k2 d(1) in \<open>auto, metis same_links_refl\<close>)
      then obtain k3 us3 vs q where 3: "follow fin r b parent (mn_next (menus k2 m)) (Some m) k2 =
          Some (if us3 = [] then Some m else Some (node (last us3)), k3)" "sound k3"
        "seg (menus k3) (Some parent) (mn_next (menus k2 m)) us3 q" "forest (menus k3) par q vs"
        "preorder us3 @ preorder vs = preorder us'"
        "\<And>x. x \<notin> set (preorder us') \<Longrightarrow> same_links (menus k3 x) (menus k2 x)"
        using less.hyps [OF l(1), of k2 "mn_next (menus k2 m)" "Some m"] k2(1) d(1) l(2) by auto
      have same: "same_links (menus k3 x) (menus k2 x)" if "x \<in> insert m (set (preorder ks'))" for x
        using 3(6) that d(1) by auto
      have "forest (menus k3) (Some m) (mn_list (menus k1 m)) ks'"
        by (rule forest_frame [of "menus k1"]) (use 1(3) same k2(2) d(1) in \<open>auto, metis\<close>)
      moreover have "same_links (menus k3 m) (menus k2 m)" by (rule same) simp
      ultimately have "seg (menus k3) (Some parent) p (MNode m ks' # us3) q"
        using 3(3) k2(3-5) by (simp add: p same_links_def)
      moreover have "follow fin r b parent p last0 k =
          Some (if MNode m ks' # us3 = [] then last0 else Some (node (last (MNode m ks' # us3))), k3)"
        using p 1(1) 3(1) below True by (subst follow.simps) (simp flip: k2_def)
      moreover have "preorder (MNode m ks' # us3) @ preorder vs = preorder ts" using 1(4) 3(5) Cons t by simp
      moreover have "same_links (menus k3 x) (menus k x)" if x: "x \<notin> set (preorder ts)" for x
        using 3(6) [of x] 1(5) [OF x] k2(2) [of x] x d(2) same_links_trans by auto
      ultimately show ?thesis using 3(2,4) by blast
    qed
  qed
qed


lemma seg_last: "seg ms par p us q \<Longrightarrow> us \<noteq> [] \<Longrightarrow> mn_next (ms (node (last us))) = q"
proof (induction us arbitrary: p)
  case (Cons t us)
  then show ?case by (cases t; cases "us = []") auto
qed simp

lemma take_below_ok:
  assumes "sound k" "seg (menus k) (Some m) (mn_next (menus k m)) us q" "forest (menus k) par q vs"
    "mn_list (menus k m) = None" "mn_parent (menus k m) = par" "distinct (m # preorder us @ preorder vs)"
  shows "\<exists>k'. k' = take_below m (if us = [] then None else Some (node (last us))) k \<and> sound k' \<and>
    forest (menus k') par (Some m) (MNode m us # vs) \<and> tab k' = tab k \<and>
    (\<forall>x. x \<notin> set (m # preorder us) \<longrightarrow> menus k' x = menus k x)"
proof (cases "us = []")
  case True
  then show ?thesis using assms by (simp add: take_below_def)
next
  case False
  let ?z = "node (last us)"
  have z: "?z \<in> set (preorder us)" using False by (intro node_preorder) simp
  then have zm: "?z \<noteq> m" using assms(6) by auto
  have q: "mn_next (menus k ?z) = q" by (rule seg_last [OF assms(2) False])
  define k1 where "k1 = upd_menu m (\<lambda>x. x\<lparr>mn_list := mn_next x\<rparr>) k"
  define k2 where "k2 = upd_menu m (\<lambda>x. x\<lparr>mn_next := mn_next (menus k1 ?z)\<rparr>) k1"
  define k3 where "k3 = upd_menu ?z (\<lambda>x. x\<lparr>mn_next := None\<rparr>) k2"
  have s: "sound k3" unfolding k3_def k2_def k1_def by (intro sound_links assms(1)) simp_all
  have o: "menus k3 x = menus k x" if "x \<noteq> m" "x \<noteq> ?z" for x
    using that by (simp add: k3_def k2_def k1_def menus_upd_menu)
  have m: "mn_list (menus k3 m) = mn_next (menus k m)" "mn_next (menus k3 m) = q" "mn_parent (menus k3 m) = par"
    using zm q assms(5) by (simp_all add: k3_def k2_def k1_def menus_upd_menu)
  have "seg (menus k3) (Some m) (mn_next (menus k m)) us None"
    by (rule seg_extend [OF assms(2) False])
      (use o assms(6) zm in \<open>auto simp: k1_def k2_def k3_def menus_upd_menu\<close>)
  moreover have "forest (menus k3) par q vs"
    by (rule forest_frame [OF assms(3)]) (use o assms(6) z in \<open>auto, metis disjoint_iff same_links_refl\<close>)
  ultimately have "forest (menus k3) par (Some m) (MNode m us # vs)" using m by (simp add: seg_forest)
  moreover have "menus k3 x = menus k x" if "x \<notin> set (m # preorder us)" for x
    using o [of x] that z by auto
  moreover have "tab k3 = tab k" by (simp add: k3_def k2_def k1_def upd_menu_def)
  moreover have "take_below m (Some ?z) k = k3" by (simp add: take_below_def k1_def k2_def k3_def Let_def)
  ultimately show ?thesis using False s by simp
qed

lemma submenu_ok:
  assumes "in_order par n fin" "sound k" "forest (menus k) par (Some m) (MNode m [] # ts)"
    "distinct (preorder (MNode m [] # ts))" "length (preorder ts) \<le> n"
  shows "\<exists>k' us vs. submenu fin m r k = Some k' \<and> sound k' \<and> forest (menus k') par (Some m) (MNode m us # vs) \<and>
    preorder us @ preorder vs = preorder ts \<and>
    (\<forall>x. x \<notin> set (m # preorder ts) \<longrightarrow> same_links (menus k' x) (menus k x))"
proof -
  have m: "mn_parent (menus k m) = par" "mn_list (menus k m) = None" "forest (menus k) par (mn_next (menus k m)) ts"
    "m \<notin> set (preorder ts)" "distinct (preorder ts)"
    using assms(3,4) by auto
  obtain b where b: "not_no (view (tab k)) (prompt_visible k m) = Some b"
    using not_no_total [OF sound_prompt_visible [OF assms(2)]] by blast
  obtain k1 us vs q where 1: "follow fin r b m (mn_next (menus k m)) None k =
      Some (if us = [] then None else Some (node (last us)), k1)" "sound k1"
    "seg (menus k1) (Some m) (mn_next (menus k m)) us q" "forest (menus k1) par q vs"
    "preorder us @ preorder vs = preorder ts" "\<And>x. x \<notin> set (preorder ts) \<Longrightarrow> same_links (menus k1 x) (menus k x)"
    using follow_in_order [OF assms(1) m(3) assms(2) m(5) assms(5), of r b m None] by blast
  have sm: "same_links (menus k1 m) (menus k m)" using 1(6) m(4) by blast
  define k2 where "k2 = take_below m (if us = [] then None else Some (node (last us))) k1"
  have k2: "sound k2" "forest (menus k2) par (Some m) (MNode m us # vs)"
    "\<And>x. x \<notin> set (m # preorder us) \<Longrightarrow> menus k2 x = menus k1 x"
  proof -
    have "\<exists>k'. k' = take_below m (if us = [] then None else Some (node (last us))) k1 \<and> sound k' \<and>
        forest (menus k') par (Some m) (MNode m us # vs) \<and> tab k' = tab k1 \<and>
        (\<forall>x. x \<notin> set (m # preorder us) \<longrightarrow> menus k' x = menus k1 x)"
      by (rule take_below_ok [where q = q]) (use 1 sm m in \<open>auto simp: same_links_def\<close>)
    then show "sound k2" "forest (menus k2) par (Some m) (MNode m us # vs)"
      "\<And>x. x \<notin> set (m # preorder us) \<Longrightarrow> menus k2 x = menus k1 x" by (auto simp: k2_def)
  qed
  define k3 where "k3 = upd_tab (upd_sym r (\<lambda>s. s\<lparr>s_dir_dep :=
       (expr_alloc_or (fst (s_dir_dep s)) (mn_dep (menus k2 m)), snd (s_dir_dep s))\<rparr>)) k2"
  have k3: "sound k3" "menus k3 = menus k2"
    unfolding k3_def using sound_symbol_field [OF k2(1)] by (simp_all add: sym_is_choice_def)
  have "submenu fin m r k = Some k3"
    by (simp add: submenu_def b 1(1) k3_def Let_def flip: k2_def)
  moreover have "same_links (menus k3 x) (menus k x)" if "x \<notin> set (m # preorder ts)" for x
  proof -
    have "x \<notin> set (m # preorder us)" "x \<notin> set (preorder ts)" using that arg_cong [OF 1(5), of set] by auto
    then show ?thesis using k2(3) [of x] 1(6) [of x] k3(2) by simp
  qed
  ultimately show ?thesis using k2(2) k3 1(5) by (intro exI [of _ k3] exI [of _ us] exI [of _ vs]) simp
qed

section \<open>menu\_finalize\<close>

text \<open>Entries only move below: what stays behind an entry is the end of what was behind it.\<close>

lemma final_moves_below:
  "sound k \<Longrightarrow> forest (menus k) par (Some m) (MNode m ks # ts) \<Longrightarrow> distinct (preorder (MNode m ks # ts)) \<Longrightarrow>
   length (preorder (MNode m ks # ts)) \<le> n \<Longrightarrow>
   \<exists>k' ks' ts'. final_fuel n m k = Some k' \<and> sound k' \<and> forest (menus k') par (Some m) (MNode m ks' # ts') \<and>
     preorder ks' @ preorder ts' = preorder ks @ preorder ts \<and>
     (\<forall>x. x \<notin> set (preorder (MNode m ks # ts)) \<longrightarrow> same_links (menus k' x) (menus k x)) \<and>
     length (preorder ts') \<le> length (preorder ts)"
proof (induction n arbitrary: par k m ks ts)
  case (Suc n)
  note a = Suc.prems
  have IH: "in_order par n (final_fuel n)" for par
    unfolding in_order_def using Suc.IH by blast
  let ?below = "if mn_list (menus k m) \<noteq> None
     then do {
       k \<leftarrow> inherit_deps m k;
       each_menu (final_fuel n) (mn_list (menus k m)) k
     }
     else case mn_sym (menus k m) of
       Some r \<Rightarrow> submenu (final_fuel n) m r k
     | None \<Rightarrow> Some k"
  have f: "mn_parent (menus k m) = par" "forest (menus k) (Some m) (mn_list (menus k m)) ks"
    "forest (menus k) par (mn_next (menus k m)) ts" using a(2) by auto
  have d: "m \<notin> set (preorder ks)" "m \<notin> set (preorder ts)" "distinct (preorder ks)" "distinct (preorder ts)"
    "set (preorder ks) \<inter> set (preorder ts) = {}" using a(3) by auto
  have "\<exists>k1 us vs. ?below = Some k1 \<and> sound k1 \<and> forest (menus k1) par (Some m) (MNode m us # vs) \<and>
    preorder us @ preorder vs = preorder ks @ preorder ts \<and>
    (\<forall>x. x \<notin> set (preorder (MNode m ks # ts)) \<longrightarrow> same_links (menus k1 x) (menus k x)) \<and>
    length (preorder vs) \<le> length (preorder ts)"
  proof (cases "mn_list (menus k m) = None")
    case True
    then have ks: "ks = []" using f(2) by (cases ks rule: preorder.cases) auto
    show ?thesis
    proof (cases "mn_sym (menus k m)")
      case (Some r)
      have "length (preorder ts) \<le> n" using a(4) ks by simp
      from submenu_ok [OF IH a(1) a(2) [unfolded ks] a(3) [unfolded ks] this, of r]
        obtain k1 us vs where 1: "submenu (final_fuel n) m r k = Some k1" "sound k1"
          "forest (menus k1) par (Some m) (MNode m us # vs)" "preorder us @ preorder vs = preorder ts"
          "\<forall>x. x \<notin> set (m # preorder ts) \<longrightarrow> same_links (menus k1 x) (menus k x)"
          by blast
        have "length (preorder vs) \<le> length (preorder us @ preorder vs)" by simp
        then have "length (preorder vs) \<le> length (preorder ts)" unfolding 1(4) .
        with 1 True Some ks have "?below = Some k1 \<and> sound k1 \<and> forest (menus k1) par (Some m) (MNode m us # vs) \<and>
          preorder us @ preorder vs = preorder ks @ preorder ts \<and>
          (\<forall>x. x \<notin> set (preorder (MNode m ks # ts)) \<longrightarrow> same_links (menus k1 x) (menus k x)) \<and>
          length (preorder vs) \<le> length (preorder ts)" by simp
        then show ?thesis by blast
    next
      case None
      then show ?thesis using True a(1,2) by (intro exI [of _ k] exI [of _ ks] exI [of _ ts]) simp
    qed
  next
    case False
    obtain k0 where k0: "inherit_deps m k = Some k0" "sound k0" "\<And>x. same_links (menus k0 x) (menus k x)"
      using inherit_deps_ok [OF a(1) f(2)] by blast
    have "forest (menus k0) (Some m) (mn_list (menus k0 m)) ks"
      using forest_frame [OF f(2)] k0(3) by (simp add: same_links_def)
    moreover have "length (preorder ks) \<le> n" using a(4) by simp
    ultimately obtain k1 us where k1: "each_menu (final_fuel n) (mn_list (menus k0 m)) k0 = Some k1" "sound k1"
      "forest (menus k1) (Some m) (mn_list (menus k0 m)) us" "preorder us = preorder ks"
      "\<And>x. x \<notin> set (preorder ks) \<Longrightarrow> same_links (menus k1 x) (menus k0 x)"
      using each_in_order [OF IH _ k0(2) d(3)] by metis
    have sl: "same_links (menus k1 x) (menus k x)" if "x \<notin> set (preorder ks)" for x
      using same_links_trans [OF k1(5) [OF that] k0(3)] .
    have "forest (menus k1) par (mn_next (menus k m)) ts"
      by (rule forest_frame [OF f(3)]) (use sl d(5) in auto)
    then have "forest (menus k1) par (Some m) (MNode m us # ts)"
      using k1(3) sl [OF d(1)] k0(3) [of m] f(1) by (simp add: same_links_def)
    then show ?thesis
      using False k0(1) k1(1,2,4) sl by (intro exI [of _ k1] exI [of _ us] exI [of _ ts]) simp
  qed
  then obtain k1 us vs where k1: "?below = Some k1" "sound k1" "forest (menus k1) par (Some m) (MNode m us # vs)"
    "preorder us @ preorder vs = preorder ks @ preorder ts"
    "\<And>x. x \<notin> set (preorder (MNode m ks # ts)) \<Longrightarrow> same_links (menus k1 x) (menus k x)"
    "length (preorder vs) \<le> length (preorder ts)"
    by blast
  have d1: "distinct (m # preorder us @ preorder vs)" using a(3) k1(4) by simp
  obtain k2 us2 where k2: "each_menu (adopt m) (mn_list (menus k1 m)) k1 = Some k2" "sound k2"
    "forest (menus k2) (Some m) (mn_list (menus k1 m)) us2" "preorder us2 = preorder us"
    "\<And>x. x \<notin> set (preorder us) \<Longrightarrow> same_links (menus k2 x) (menus k1 x)"
    using each_in_order [OF adopt_in_order _ k1(2), of m "mn_list (menus k1 m)" us "length (preorder us)"] k1(3) d1
    by auto
  obtain k3 where k3: "final_symbol m k2 = Some k3" "sound k3" "\<And>x. same_links (menus k3 x) (menus k2 x)"
    using calmE [OF calm_final_symbol k2(2)] by blast
  have "forest (menus k2) par (mn_next (menus k1 m)) vs"
    by (rule forest_frame [of "menus k1"]) (use k1(3) k2(5) d1 in \<open>auto simp: disjoint_iff\<close>)
  moreover have "same_links (menus k2 m) (menus k1 m)" using k2(5) d1 by simp
  ultimately have "forest (menus k2) par (Some m) (MNode m us2 # vs)"
    using k1(3) k2(3) by (simp add: same_links_def)
  then have "forest (menus k3) par (Some m) (MNode m us2 # vs)" by (rule forest_frame) (rule k3(3))
  moreover have "final_fuel (Suc n) m k = Some k3"
    unfolding final_fuel.simps k1(1) bind.bind_lunit k2(1) by (rule k3(1))
  moreover have "same_links (menus k3 x) (menus k x)" if x: "x \<notin> set (preorder (MNode m ks # ts))" for x
  proof -
    have "x \<notin> set (preorder us)" using x arg_cong [OF k1(4), of set] by auto
    from same_links_trans [OF k3(3) same_links_trans [OF k2(5) [OF this] k1(5) [OF x]]] show ?thesis .
  qed
  moreover have "preorder us2 @ preorder vs = preorder ks @ preorder ts" using k2(4) k1(4) by simp
  ultimately show ?case using k3(2) k1(6) by blast
qed simp

lemma final_in_order: "in_order par n (final_fuel n)"
  unfolding in_order_def using final_moves_below by blast


section \<open>Properties\<close>

text \<open>
  C5: for menus that form a tree under the root menu, with the properties the parser gives them,
  \<open>menu_finalize\<close> ends; the menus form a tree again, and its entries in preorder are the same, in the
  same order: entries move below the one before them or out of a menu without a title, and none is
  lost, doubled or moved past another.
\<close>

theorem finalize_keeps_order:
  assumes "sound k" "forest (menus k) None (Some rootmenu) [MNode rootmenu ts]"
    "distinct (preorder ts)" "rootmenu \<notin> set (preorder ts)" "length (preorder ts) < next_menu k"
  shows "\<exists>k' ts'. menu_finalize rootmenu k = Some k' \<and> forest (menus k') None (Some rootmenu) [MNode rootmenu ts'] \<and>
    preorder ts' = preorder ts \<and>
    (\<forall>f (x :: 'a). walk_menus (menus k') f (mn_list (menus k' rootmenu)) x = fold_opt f (preorder ts) x)"
proof -
  have d: "distinct (preorder [MNode rootmenu ts])" "length (preorder [MNode rootmenu ts]) \<le> next_menu k"
    using assms(3-5) by simp_all
  obtain k' ts' us where k': "menu_finalize rootmenu k = Some k'"
    "forest (menus k') None (Some rootmenu) (MNode rootmenu ts' # us)" "preorder ts' @ preorder us = preorder ts @ preorder []"
    "length (preorder us) \<le> length (preorder [])"
    unfolding menu_finalize_def using final_moves_below [OF assms(1,2) d] by metis
  have us: "us = []" using k'(4) by (cases us rule: preorder.cases) auto
  have f: "forest (menus k') (Some rootmenu) (mn_list (menus k' rootmenu)) ts'"
    and root: "mn_parent (menus k' rootmenu) = None" "mn_next (menus k' rootmenu) = None"
    using k'(2) us by auto
  have p: "preorder ts' = preorder ts" using k'(3) us by simp
  have "climb (menus k') (Some rootmenu) = Some None"
    using root by (simp add: climb.simps [of _ "Some 0"] climb.simps [of _ None])
  then have "\<forall>f (x :: 'a). walk_menus (menus k') f (mn_list (menus k' rootmenu)) x = fold_opt f (preorder ts) x"
    using walk_root [OF f] p by metis
  then show ?thesis using k'(1,2) us p by (intro exI [of _ k'], intro exI [of _ ts']) simp
qed


text \<open>
  An entry, one that depends on it, and one in a menu without a title. The second goes below the
  first, the last takes the place of the menu.
\<close>

definition sample_entry :: "cstring \<Rightarrow> nat \<Rightarrow> expr option \<Rightarrow> symbol" where
  "sample_entry n m cond = blank_symbol\<lparr>s_name := Some n, s_type := S_BOOLEAN,
     s_props := [\<lparr>p_type = P_PROMPT, p_text = Some n, p_visible = cond, p_expr = None, p_menu = Some m, p_pos = ([], 0)\<rparr>]\<rparr>"

definition sample_tree :: kconf where
  "sample_tree = root_only\<lparr>
     tab := empty_symtab\<lparr>syms := static_symbol(SymId 0 := sample_entry ''A'' 1 None,
       SymId 1 := sample_entry ''B'' 2 (Some (ESymbol (SymId 0))), SymId 2 := sample_entry ''C'' 4 None), next_id := 3\<rparr>,
     menus := (\<lambda>_. blank_menu)(0 := blank_menu\<lparr>mn_list := Some 1\<rparr>,
       1 := blank_menu\<lparr>mn_parent := Some 0, mn_next := Some 2, mn_sym := Some (SymId 0), mn_prompt := Some (P_at 0)\<rparr>,
       2 := blank_menu\<lparr>mn_parent := Some 0, mn_next := Some 3, mn_sym := Some (SymId 1), mn_prompt := Some (P_at 0)\<rparr>,
       3 := blank_menu\<lparr>mn_parent := Some 0, mn_list := Some 4\<rparr>,
       4 := blank_menu\<lparr>mn_parent := Some 3, mn_sym := Some (SymId 2), mn_prompt := Some (P_at 0)\<rparr>),
     next_menu := 5\<rparr>"

lemma sample_tree_sound: "sound sample_tree"
proof (rule soundI)
  show "sound_menu sample_tree m" for m
    by (simp add: sound_menu_def sample_tree_def sample_entry_def blank_menu_def)
  have "s_props (static_symbol r) = [] \<and> \<not> sym_is_choice (static_symbol r)" for r
    by (cases r) (simp_all add: symbol_yes_def symbol_mod_def symbol_no_def symbol_empty_def blank_symbol_def sym_is_choice_def)
  then have "sound_symbol sample_tree (static_symbol r)" for r by (simp add: sound_symbol_def)
  then show "sound_symbol sample_tree (syms (tab sample_tree) r)" for r
    by (simp add: sample_tree_def)
      (simp add: sound_symbol_def sound_prop_def sample_entry_def sym_is_choice_def has_expr_def blank_menu_def blank_symbol_def)
qed

lemma sample_tree_forest:
  "forest (menus sample_tree) None (Some rootmenu) [MNode 0 [MNode 1 [], MNode 2 [], MNode 3 [MNode 4 []]]]"
  by (simp add: sample_tree_def blank_menu_def)

theorem finalize_keeps_order_witness:
  "\<exists>k' ts'. menu_finalize rootmenu sample_tree = Some k' \<and>
     forest (menus k') None (Some rootmenu) [MNode rootmenu ts'] \<and> preorder ts' = [1, 2, 3, 4]"
  using finalize_keeps_order [OF sample_tree_sound sample_tree_forest]
  by (auto simp: sample_tree_def root_only_def)

end
