(* ===== verification/Kfinaldeps.thy ===== *)
theory Kfinaldeps
  imports Kfinaltree
begin

text \<open>
  What \<open>menu_finalize\<close> does to dependencies: an entry and its properties are visible where the menu above
  and their own conditions are, a select adds its condition to the symbol it selects, an entry goes
  below another only if it needs it, and a choice gets its entries as members, in order. Rewriting
  happens while the files are read; the values are those of any later state with the same types.
\<close>

section \<open>Views with the same types\<close>

definition alike :: "symview \<Rightarrow> symview \<Rightarrow> bool" where
  "alike v w \<longleftrightarrow> sv_type v = sv_type w \<and> sv_const v = sv_const w"

lemma alike_refl [simp]: "alike v v"
  by (simp add: alike_def)

lemma alike_sym: "alike v w \<Longrightarrow> alike w v"
  by (simp add: alike_def)

lemma alike_join:
  assumes "alike v w"
  shows "expr_join_or v = expr_join_or w" "expr_join_and v = expr_join_and w" "dups2_check v = dups2_check w"
proof -
  have t: "sv_type v = sv_type w" "sv_const v = sv_const w" using assms by (simp_all add: alike_def)
  show "expr_join_or v = expr_join_or w" "expr_join_and v = expr_join_and w" "dups2_check v = dups2_check w"
    by (intro ext; simp only: expr_join_or_def expr_join_and_def join_eq_ne_def dups2_check_def t)+
qed

lemma alike_slots: "alike v w \<Longrightarrow> join_slots v = join_slots w"
  by (intro ext) (simp add: join_slots_def expr_join_def alike_join)

lemma alike_dups1:
  assumes "expr_eliminate_dups1 v t p1 p2 st = Some r"
  shows "alike v w \<longrightarrow> expr_eliminate_dups1 w t p1 p2 st = Some r"
proof (rule expr_eliminate_dups1.raw_induct
    [where P = "\<lambda>v t p1 p2 st r. alike v w \<longrightarrow> expr_eliminate_dups1 w t p1 p2 st = Some r", OF _ assms], rule impI, goal_cases)
  case (1 f v t p1 p2 st r)
  note e = alike_slots [OF 1(3)] and IH = 1(1) [rule_format, OF _ 1(3)]
  show ?case
  proof (cases "etype (get_at p1 (snd st)) = t \<or> etype (get_at p2 (snd st)) = t")
    case True
    show ?thesis
    proof (cases "etype (get_at p1 (snd st)) = t")
      case True
      then have "Option.bind (f v t (p1 @ [Lft]) p2 st) (f v t (p1 @ [Rgt]) p2) = Some r" using 1(2) by (simp add: Let_def)
      with True show ?thesis by (subst expr_eliminate_dups1.simps) (auto simp: Let_def split: bind_splits dest!: IH)
    next
      case no: False
      then have "Option.bind (f v t p1 (p2 @ [Lft]) st) (f v t p1 (p2 @ [Rgt])) = Some r"
        using 1(2) True by (simp add: Let_def)
      with True no show ?thesis by (subst expr_eliminate_dups1.simps) (auto simp: Let_def split: bind_splits dest!: IH)
    qed
  next
    case False
    then have "(if p1 = p2 then Some st
      else Option.bind
             (if etype (get_at p1 (snd st)) = E_OR \<or> etype (get_at p1 (snd st)) = E_AND
              then Option.bind (f v (etype (get_at p1 (snd st))) [] [] (fst st, get_at p1 (snd st)))
                     (\<lambda>r. Some (fst r, put_at p1 (snd r) (snd st)))
              else Some st)
             (\<lambda>st. Some (join_slots w t p1 p2 st))) = Some r"
      using 1(2) unfolding Let_def e by simp
    with False show ?thesis
      by (subst expr_eliminate_dups1.simps) (auto simp: Let_def split: if_splits bind_splits dest!: IH)
  qed
qed

lemma alike_dups2:
  assumes "expr_eliminate_dups2 v t p1 p2 st = Some r"
  shows "alike v w \<longrightarrow> expr_eliminate_dups2 w t p1 p2 st = Some r"
proof (rule expr_eliminate_dups2.raw_induct
    [where P = "\<lambda>v t p1 p2 st r. alike v w \<longrightarrow> expr_eliminate_dups2 w t p1 p2 st = Some r", OF _ assms], rule impI, goal_cases)
  case (1 f v t p1 p2 st r)
  note e = alike_join [OF 1(3)] and IH = 1(1) [rule_format, OF _ 1(3)]
  show ?case
  proof (cases "etype (get_at p1 (snd st)) = t")
    case True
    then show ?thesis using 1(2) by (subst expr_eliminate_dups2.simps) (auto split: bind_splits dest!: IH)
  next
    case False
    let ?g = "\<lambda>h v. if etype (get_at p2 (snd st)) = t
       then Option.bind (h v t p1 (p2 @ [Lft]) st) (\<lambda>st. h v t p1 (p2 @ [Rgt]) st) else Some st"
    obtain st1 where 2: "?g f v = Some st1"
      using 1(2) False by (auto split: bind_splits)
    then have g: "?g expr_eliminate_dups2 w = Some st1" by (auto split: if_splits bind_splits dest!: IH)
    have "(let e1 = get_at p1 (snd st1) in
           if p1 = p2 then Some st1
           else if etype e1 = E_OR \<or> etype e1 = E_AND
           then Option.bind (f v (etype e1) [] [] (fst st1, e1))
                  (\<lambda>r. Some (dups2_check v p1 p2 (fst r, put_at p1 (snd r) (snd st1))))
           else Some st1) = Some r"
      using 1(2) False 2 by simp
    then have "(let e1 = get_at p1 (snd st1) in
           if p1 = p2 then Some st1
           else if etype e1 = E_OR \<or> etype e1 = E_AND
           then Option.bind (expr_eliminate_dups2 w (etype e1) [] [] (fst st1, e1))
                  (\<lambda>r. Some (dups2_check w p1 p2 (fst r, put_at p1 (snd r) (snd st1))))
           else Some st1) = Some r"
      unfolding Let_def e by (auto split: if_splits bind_splits dest!: IH)
    with False g show ?thesis by (subst expr_eliminate_dups2.simps) simp
  qed
qed


lemma alike_turn: "dups_turn v e = Some r \<Longrightarrow> alike v w \<Longrightarrow> dups_turn w e = Some r"
proof (cases "etype e = E_OR \<or> etype e = E_AND")
  case True
  assume a: "dups_turn v e = Some r" "alike v w"
  then obtain st where "expr_eliminate_dups1 v (etype e) [] [] (0, e) = Some st"
    "expr_eliminate_dups2 v (etype (snd st)) [] [] st = Some r"
    using True by (auto simp: dups_turn_def split: bind_splits)
  then have "expr_eliminate_dups1 w (etype e) [] [] (0, e) = Some st"
    "expr_eliminate_dups2 w (etype (snd st)) [] [] st = Some r"
    using alike_dups1 alike_dups2 a(2) by blast+
  with True show ?thesis by (simp add: dups_turn_def)
qed (simp add: dups_turn_def)

lemma alike_loop:
  assumes "dups_loop v e = Some r"
  shows "alike v w \<longrightarrow> dups_loop w e = Some r"
proof (rule dups_loop.raw_induct [where P = "\<lambda>v e r. alike v w \<longrightarrow> dups_loop w e = Some r", OF _ assms],
    rule impI, goal_cases)
  case (1 f v e r)
  note IH = 1(1) [rule_format, OF _ 1(3)]
  obtain st where st: "dups_turn v e = Some st" using 1(2) by (auto split: bind_splits)
  have "(if fst st = 0 then Some (snd st) else dups_loop w (expr_eliminate_yn (snd st))) = Some r"
    using 1(2) st by (auto split: if_splits dest: IH)
  with alike_turn [OF st 1(3)] show ?case by (subst dups_loop.simps) simp
qed

lemma alike_eliminate_dups:
  assumes "alike v w" "logical_opt e"
  shows "expr_eliminate_dups v e = expr_eliminate_dups w e"
proof (cases e)
  case (Some x)
  then obtain y where "dups_loop v x = Some y" using dups_loop_total [of x v] assms(2) by auto
  with alike_loop [OF this] assms(1) Some show ?thesis by (simp add: expr_eliminate_dups_def)
qed (simp add: expr_eliminate_dups_def)

lemma alike_join_dep:
  assumes "alike v w" "logical_opt a" "logical_opt b"
  shows "join_dep v a b = join_dep w a b"
proof -
  have t: "sv_type v = sv_type w" using assms(1) by (simp add: alike_def)
  have "logical_opt (expr_alloc_and (copy_opt a) (expr_transform_opt (sv_type w) b))"
    using assms(2,3) by (simp add: copy_logical logical_alloc logical_transform_opt)
  from alike_eliminate_dups [OF assms(1) this] show ?thesis unfolding join_dep_def t .
qed

lemma logical_trans_compare_opt: "logical_opt e \<Longrightarrow> logical_opt (expr_trans_compare_opt e E_UNEQUAL SymNo)"
proof (cases e)
  case (Some x)
  assume "logical_opt e"
  then show ?thesis using logical_trans_compare [of x E_UNEQUAL] Some by auto
qed (simp add: Let_def expr_alloc_one_def expr_alloc_symbol_def)

lemma alike_not_no:
  assumes "alike v w" "logical_opt e"
  shows "not_no v e = not_no w e"
proof -
  have "sv_type v = sv_type w" using assms(1) by (simp add: alike_def)
  then show ?thesis
    unfolding not_no_def by (simp only: alike_eliminate_dups [OF assms(1) logical_transform_opt [OF logical_trans_compare_opt [OF assms(2)]]])
qed

section \<open>Values\<close>

text \<open>The dependencies of boolean symbols.\<close>

definition two_valued_opt :: "symview \<Rightarrow> expr option \<Rightarrow> bool" where
  "two_valued_opt v e \<longleftrightarrow> (\<forall>x. e = Some x \<longrightarrow> two_valued v x)"

lemma two_valued_opt_simps [simp]: "two_valued_opt v None" "two_valued_opt v (Some x) = two_valued v x"
  by (simp_all add: two_valued_opt_def)

lemma two_valued_opt_logical: "two_valued_opt v e \<Longrightarrow> logical_opt e"
  by (cases e) (simp_all add: two_valued_logical)

lemma two_valued_opt_val: "sane v \<Longrightarrow> two_valued_opt v e \<Longrightarrow> expr_val_opt v e \<in> {T_yes, T_no}"
  by (cases e) (use two_valued_val in auto)

lemma two_valued_transform: "two_valued v e \<Longrightarrow> ty = sv_type v \<Longrightarrow> two_valued v (expr_transform ty e)"
proof (induction ty e rule: expr_transform.induct)
  case (9 ty x)
  then show ?case by (cases "expr_transform ty x") auto
qed (auto split: if_splits)

lemma dups_two_valued:
  assumes "sane v" "two_valued_opt v e"
  shows "\<exists>e'. expr_eliminate_dups v e = Some e' \<and> two_valued_opt v e' \<and> expr_val_opt v e' = expr_val_opt v e \<and>
    (e = None \<longleftrightarrow> e' = None)"
proof (cases e)
  case (Some x)
  with assms(2) obtain x' where "dups_loop v x = Some x'" "two_valued v x'" "expr_val v x' = expr_val v x"
    using dups_loop_total [of x v] two_valued_logical assms(1) by auto
  then show ?thesis using Some by (simp add: expr_eliminate_dups_def)
qed (simp add: expr_eliminate_dups_def)

lemma EXPR_AND_T_yes [simp]: "EXPR_AND T_yes a = a" "EXPR_AND a T_yes = a"
  by (cases a; simp add: EXPR_AND_def tri_order)+

lemma join_dep_value:
  assumes "sane v" "two_valued_opt v a" "two_valued_opt v b"
  shows "\<exists>e. join_dep v a b = Some e \<and> two_valued_opt v e \<and>
    expr_val_opt v e = EXPR_AND (expr_val_opt v a) (expr_val_opt v b)"
proof -
  let ?e = "expr_alloc_and a (expr_transform_opt (sv_type v) b)"
  have "two_valued_opt v ?e"
    using assms(2,3) by (cases a; cases b) (simp_all add: expr_alloc_two_def expr_transform_opt_def two_valued_transform)
  moreover have "expr_val_opt v ?e = EXPR_AND (expr_val_opt v a) (expr_val_opt v b)"
    using assms(1) by (cases a; cases b) (simp_all add: expr_alloc_two_def expr_transform_opt_def kval)
  ultimately show ?thesis
    using dups_two_valued [OF assms(1), of ?e] copy_logical [OF two_valued_opt_logical [OF assms(2)]]
    by (auto simp: join_dep_def)
qed

lemma not_no_value:
  assumes "sane v" "two_valued_opt v e"
  shows "\<exists>x. not_no v e = Some (Some x) \<and> two_valued v x \<and> expr_val v x = (if expr_val_opt v e = T_no then T_no else T_yes)"
proof -
  have "\<exists>x. expr_trans_compare_opt e E_UNEQUAL SymNo = Some x \<and> two_valued v x \<and>
      expr_val v x = (if expr_val_opt v e = T_no then T_no else T_yes)"
  proof (cases e)
    case None
    then show ?thesis using assms(1) by (simp add: Let_def expr_alloc_one_def expr_alloc_symbol_def saneD)
  next
    case (Some y)
    then show ?thesis
      using trans_compare_val [OF assms(1), of y E_UNEQUAL SymNo] assms(2) by (auto simp: cmp_val_def)
  qed
  then obtain x where x: "expr_trans_compare_opt e E_UNEQUAL SymNo = Some x" "two_valued v x"
    "expr_val v x = (if expr_val_opt v e = T_no then T_no else T_yes)" by blast
  have "two_valued_opt v (Some (expr_transform (sv_type v) x))" by (simp add: two_valued_transform x(2))
  from dups_two_valued [OF assms(1) this] show ?thesis
    unfolding not_no_def x(1) expr_transform_opt_def using assms(1) by (auto simp: kval x(3))
qed


section \<open>Entries below another\<close>

lemma eliminate_eq_le:
  assumes "sane v" "expr_eliminate_eq c (Some a) (Some b) = (c', x, y)" "expr_is_yes y"
  shows "expr_val v a \<le> expr_val v b"
proof -
  obtain a1 b1 where e: "eliminate_eq_by expr_eq c a b = (c', a1, b1)" "y = Some b1"
    using assms(2) by (auto simp: expr_eliminate_eq_def split: prod.splits)
  have le: "expr_val v a1 \<le> expr_val v b1"
    using assms(1,3) e(2) by (cases "expr_val v a1") (auto simp: expr_is_yes_def saneD tri_order)
  obtain t t' a' b' a'' b'' where "shares v t (a, b) (a', b')" "shares v t' (a', b') (a'', b'')"
    "expr_val v a'' = expr_val v a1" "expr_val v b'' = expr_val v b1"
    by (rule eliminate_eq_by_shares [OF assms(1) expr_eq_sound [OF assms(1)] e(1)])
  with le show ?thesis by (metis shares_le)
qed

text \<open>
  C7: an entry that \<open>menu_finalize\<close> puts below another needs it: in every state of the values of boolean
  symbols where the entry is visible, the other one is visible or its symbol is not n. This is what
  makes it right to hide the entry with the other one.
\<close>

theorem goes_below_needed:
  assumes "sane v" "alike w v" "two_valued_opt v vis" "two_valued_opt v dep"
    "sv_type v r \<in> {S_BOOLEAN, S_TRISTATE}" "not_no w vis = Some b" "goes_below w r b dep = Some True"
    "expr_val_opt v dep \<noteq> T_no"
  shows "sv_tri v r \<noteq> T_no \<or> expr_val_opt v vis \<noteq> T_no"
proof (cases dep)
  case None
  then show ?thesis using assms(7) by (simp add: goes_below_def)
next
  case (Some d)
  show ?thesis
  proof (cases "expr_depends_symbol d r")
    case True
    then show ?thesis using depends_symbol_val [OF assms(1,5) _ True] assms(8) Some by auto
  next
    case False
    obtain x where x: "not_no w vis = Some (Some x)" "two_valued v x"
      "expr_val v x = (if expr_val_opt v vis = T_no then T_no else T_yes)"
      using not_no_value [OF assms(1,3)] alike_not_no [OF assms(2) two_valued_opt_logical [OF assms(3)]] by auto
    obtain y where y: "not_no w dep = Some (Some y)" "expr_val v y = T_yes"
      using not_no_value [OF assms(1,4)] alike_not_no [OF assms(2) two_valued_opt_logical [OF assms(4)]] assms(8) by auto
    have b: "copy_opt b = Some x" using x(1,2) assms(6) by (simp add: copy_logical two_valued_logical)
    obtain c p q where e: "expr_eliminate_eq 0 (Some y) (Some x) = (c, p, q)" by (metis prod_cases3)
    have "expr_is_yes q"
      using assms(7) Some False b y(1) e by (auto simp: goes_below_def split: if_splits)
    from eliminate_eq_le [OF assms(1) e this] have "expr_val v x = T_yes"
      using y(2) by (cases "expr_val v x") (simp_all add: tri_order)
    then show ?thesis using x(3) by (simp split: if_splits)
  qed
qed

text \<open>An entry that depends on C and on A or B goes below B where B depends on A or B.\<close>

theorem goes_below_needed_witness:
  "expr_val_opt (sample_view (\<lambda>_. S_BOOLEAN) (\<lambda>i. if i = 5 then T_no else T_yes))
     (Some (EOr (ESymbol (SymId 0)) (ESymbol (SymId 5)))) \<noteq> T_no"
proof -
  let ?v = "sample_view (\<lambda>_. S_BOOLEAN) (\<lambda>i. if i = 5 then T_no else T_yes)"
    and ?w = "sample_view (\<lambda>_. S_BOOLEAN) (\<lambda>i. T_no)"
  let ?vis = "Some (EOr (ESymbol (SymId 0)) (ESymbol (SymId 5)))"
  let ?dep = "Some (EAnd (EOr (ESymbol (SymId 0)) (ESymbol (SymId 5))) (ESymbol (SymId 7)))"
  have b: "not_no ?w ?vis = Some ?vis" by code_simp
  have "goes_below ?w (SymId 5) ?vis ?dep = Some True" by code_simp
  from goes_below_needed [of ?v ?w ?vis ?dep "SymId 5", OF _ _ _ _ _ b this] show ?thesis
    by (auto simp: alike_def sample_view_def)
qed

section \<open>Inherited conditions\<close>

text \<open>No tristate symbol is m: modules are disabled, as they always are in Buildroot.\<close>

definition no_modules :: "symview \<Rightarrow> bool" where
  "no_modules v \<longleftrightarrow> (\<forall>s. sv_type v s = S_TRISTATE \<longrightarrow> sv_tri v s \<noteq> T_mod)"

lemma trans_bool_value:
  "sane v \<Longrightarrow> no_modules v \<Longrightarrow> ty = sv_type v \<Longrightarrow> expr_val v (expr_trans_bool ty e) = expr_val v e"
proof (induction ty e rule: expr_trans_bool.induct)
  case (4 ty s t)
  then show ?case
    using saneD(9) [of v s] by (cases "sv_tri v s") (auto simp: no_modules_def saneD)
qed auto

lemma entry_visible_value:
  assumes "sane v" "alike (view (tab k)) v" "no_modules v" "two_valued_opt v b" "two_valued_opt v e"
  shows "\<exists>x. entry_visible k m b e = Some x \<and> logical_opt x \<and>
    expr_val_opt v x = EXPR_AND (expr_val_opt v b) (expr_val_opt v e)"
proof -
  obtain x where x: "join_dep (view (tab k)) b e = Some x" "two_valued_opt v x"
    "expr_val_opt v x = EXPR_AND (expr_val_opt v b) (expr_val_opt v e)"
    using join_dep_value [OF assms(1,4,5)] alike_join_dep [OF assms(2)] two_valued_opt_logical assms(4,5) by metis
  have t: "sv_type (view (tab k)) = sv_type v" using assms(2) by (simp add: alike_def)
  show ?thesis
  proof (cases x)
    case None
    then show ?thesis using x by (simp add: entry_visible_def Let_def)
  next
    case (Some y)
    have "logical y" "expr_val v (expr_trans_bool (sv_type v) y) = expr_val v y"
      using x(2) Some two_valued_logical trans_bool_value [OF assms(1,3)] by auto
    then show ?thesis using x Some by (simp add: entry_visible_def Let_def t logical_trans_bool)
  qed
qed

text \<open>What \<open>rev_dep\<close> stands for; without an expression nothing selects the symbol.\<close>

definition selected :: "symview \<Rightarrow> kconf \<Rightarrow> symref \<Rightarrow> bool" where
  "selected v k es \<longleftrightarrow> (\<exists>e. fst (s_rev_dep (syms (tab k) es)) = Some e \<and> expr_val v e \<noteq> T_no)"

definition plist :: "kconf \<Rightarrow> symref \<Rightarrow> property list" where
  "plist k r = s_props (syms (tab k) r)"

lemma selected_or:
  "(\<exists>e. expr_alloc_or a (expr_alloc_and (Some (ESymbol r)) x) = Some e \<and> expr_val v e \<noteq> T_no) \<longleftrightarrow>
   (\<exists>e. a = Some e \<and> expr_val v e \<noteq> T_no) \<or> sv_tri v r \<noteq> T_no \<and> expr_val_opt v x \<noteq> T_no"
  by (cases a; cases x) (simp_all add: expr_alloc_two_def)

lemma view_upd:
  "alike (view (tab (upd_prop r i f k))) (view (tab k))" "alike (view (tab (add_rev_dep r e k))) (view (tab k))"
  by (auto simp: alike_def view_def upd_prop_def add_rev_dep_def upd_tab_def upd_sym_def)

lemma alike_trans: "alike u v \<Longrightarrow> alike v w \<Longrightarrow> alike u w"
  by (simp add: alike_def)

lemma inherit_prop_value:
  assumes "sane v" "alike (view (tab k)) v" "no_modules v" "two_valued_opt v b"
    and "i < length (plist k r)" "p = plist k r ! i" "two_valued_opt v (p_visible p)"
    "p_type p = P_SELECT \<Longrightarrow> prop_get_symbol p \<noteq> None" "p_menu p = Some m"
  shows "\<exists>e k'. inherit_prop b m r i k = Some k' \<and> menus k' = menus k \<and> alike (view (tab k')) v \<and>
    expr_val_opt v e = EXPR_AND (expr_val_opt v b) (expr_val_opt v (p_visible p)) \<and>
    plist k' r = (plist k r)[i := p\<lparr>p_visible := e\<rparr>] \<and>
    (\<forall>es. selected v k' es \<longleftrightarrow> selected v k es \<or>
       p_type p = P_SELECT \<and> prop_get_symbol p = Some es \<and> sv_tri v r \<noteq> T_no \<and> expr_val_opt v e \<noteq> T_no)"
proof -
  obtain e where e: "entry_visible k m b (p_visible p) = Some e" "logical_opt e"
    "expr_val_opt v e = EXPR_AND (expr_val_opt v b) (expr_val_opt v (p_visible p))"
    using entry_visible_value [OF assms(1-4,7)] by blast
  define k1 where "k1 = upd_prop r i (\<lambda>p. p\<lparr>p_visible := e\<rparr>) k"
  have k1: "menus k1 = menus k" "alike (view (tab k1)) v" "plist k1 r = (plist k r)[i := p\<lparr>p_visible := e\<rparr>]"
    "selected v k1 es = selected v k es" for es
    using alike_trans [OF view_upd(1) assms(2)] assms(6)
    by (auto simp: k1_def) (auto simp: plist_def selected_def upd_prop_def upd_tab_def upd_sym_def split: if_splits)
  have p: "s_props (syms (tab k) r) ! i = p" using assms(6) by (simp add: plist_def)
  show ?thesis
  proof (cases "p_type p = P_SELECT")
    case False
    then have "inherit_prop b m r i k = Some k1" using assms(9) e(1) by (simp add: inherit_prop_def p k1_def)
    with False k1 e(3) show ?thesis by (intro exI [of _ e] exI [of _ k1]) simp
  next
    case True
    then obtain es where es: "prop_get_symbol p = Some es" using assms(8) by auto
    define k2 where "k2 = add_rev_dep es (expr_alloc_and (Some (ESymbol r)) e) k1"
    have "inherit_prop b m r i k = Some k2"
      using True assms(9) e(1,2) es
      by (simp add: inherit_prop_def p k2_def expr_alloc_symbol_def copy_logical flip: k1_def)
    moreover have "menus k2 = menus k" "alike (view (tab k2)) v" "plist k2 r = plist k1 r"
      using k1(1) alike_trans [OF view_upd(2) k1(2)]
      by (simp_all add: k2_def) (simp add: plist_def add_rev_dep_def upd_tab_def upd_sym_def)
    moreover have "selected v k2 x \<longleftrightarrow> selected v k x \<or> x = es \<and> sv_tri v r \<noteq> T_no \<and> expr_val_opt v e \<noteq> T_no" for x
    proof (cases "x = es")
      case True
      then show ?thesis
        using selected_or [of "fst (s_rev_dep (syms (tab k1) es))" r e v] k1(4) [of es]
        by (simp add: selected_def k2_def add_rev_dep_def upd_tab_def upd_sym_def)
    next
      case False
      then show ?thesis using k1(4) [of x] by (simp add: selected_def k2_def add_rev_dep_def upd_tab_def upd_sym_def)
    qed
    ultimately show ?thesis using True es k1(3) e(3) by (intro exI [of _ e] exI [of _ k2]) auto
  qed
qed


text \<open>The properties up to the \<open>j\<close>th are done.\<close>

definition inherited ::
  "symview \<Rightarrow> expr option \<Rightarrow> nat \<Rightarrow> symref \<Rightarrow> nat \<Rightarrow> kconf \<Rightarrow> kconf \<Rightarrow> bool" where
  "inherited v b m r j k k' \<longleftrightarrow> menus k' = menus k \<and> alike (view (tab k')) v \<and>
     length (plist k' r) = length (plist k r) \<and>
     (\<forall>i < length (plist k r). let p = plist k r ! i; q = plist k' r ! i in
        if i < j \<and> p_menu p = Some m
        then (\<exists>e. q = p\<lparr>p_visible := e\<rparr> \<and> expr_val_opt v e = EXPR_AND (expr_val_opt v b) (expr_val_opt v (p_visible p)))
        else q = p) \<and>
     (\<forall>es. selected v k' es \<longleftrightarrow> selected v k es \<or> sv_tri v r \<noteq> T_no \<and>
        (\<exists>i < length (plist k r). i < j \<and> (let q = plist k' r ! i in
           p_menu q = Some m \<and> p_type q = P_SELECT \<and> prop_get_symbol q = Some es \<and> expr_val_opt v (p_visible q) \<noteq> T_no)))"

lemma inherit_props_value:
  assumes "sane v" "alike (view (tab k)) v" "no_modules v" "two_valued_opt v b"
    and "\<And>p. p \<in> set (plist k r) \<Longrightarrow> two_valued_opt v (p_visible p) \<and> (p_type p = P_SELECT \<longrightarrow> prop_get_symbol p \<noteq> None)"
  shows "j \<le> length (plist k r) \<Longrightarrow> \<exists>k'. fold_opt (inherit_prop b m r) [0..<j] k = Some k' \<and> inherited v b m r j k k'"
proof (induction j)
  case 0
  have "inherited v b m r 0 k k" using assms(2) by (simp add: inherited_def Let_def)
  then show ?case by simp
next
  case (Suc j)
  then obtain k1 where k1: "fold_opt (inherit_prop b m r) [0..<j] k = Some k1" "inherited v b m r j k k1" by auto
  let ?p = "plist k r ! j"
  have j: "j < length (plist k r)" using Suc.prems by simp
  have i1: "menus k1 = menus k" "alike (view (tab k1)) v" "length (plist k1 r) = length (plist k r)"
    "plist k1 r ! j = ?p"
    using k1(2) j by (auto simp: inherited_def Let_def)
  have p: "two_valued_opt v (p_visible ?p)" "p_type ?p = P_SELECT \<Longrightarrow> prop_get_symbol ?p \<noteq> None"
    using assms(5) [of ?p] j by auto
  have f: "fold_opt (inherit_prop b m r) [0..<Suc j] k = inherit_prop b m r j k1"
    using k1(1) by (cases "inherit_prop b m r j k1") (simp_all add: fold_opt_append)
  show ?case
  proof (cases "p_menu ?p = Some m")
    case False
    then have "inherit_prop b m r j k1 = Some k1" using i1(4) by (simp add: inherit_prop_def plist_def)
    moreover have "inherited v b m r (Suc j) k k1"
      using k1(2) False i1(4) j unfolding inherited_def Let_def by (auto simp: less_Suc_eq split: if_splits)
    ultimately show ?thesis using f by simp
  next
    case True
    obtain e k2 where k2: "inherit_prop b m r j k1 = Some k2" "menus k2 = menus k1" "alike (view (tab k2)) v"
      "expr_val_opt v e = EXPR_AND (expr_val_opt v b) (expr_val_opt v (p_visible ?p))"
      "plist k2 r = (plist k1 r)[j := ?p\<lparr>p_visible := e\<rparr>]"
      "\<And>es. selected v k2 es \<longleftrightarrow> selected v k1 es \<or>
       p_type ?p = P_SELECT \<and> prop_get_symbol ?p = Some es \<and> sv_tri v r \<noteq> T_no \<and> expr_val_opt v e \<noteq> T_no"
      using inherit_prop_value [OF assms(1) i1(2) assms(3,4), of j r ?p m] j i1(3,4) p True by auto
    have same: "plist k2 r ! i = plist k1 r ! i" if "i \<noteq> j" for i using k2(5) that by simp
    have at: "plist k2 r ! j = ?p\<lparr>p_visible := e\<rparr>" using k2(5) j i1(3) by simp
    have "inherited v b m r (Suc j) k k2"
      unfolding inherited_def
    proof (intro conjI allI impI)
      fix i assume "i < length (plist k r)"
      then show "let p = plist k r ! i; q = plist k2 r ! i in
        if i < Suc j \<and> p_menu p = Some m
        then (\<exists>e. q = p\<lparr>p_visible := e\<rparr> \<and> expr_val_opt v e = EXPR_AND (expr_val_opt v b) (expr_val_opt v (p_visible p)))
        else q = p"
        using k1(2) k2(4) at same [of i] True unfolding inherited_def Let_def by (cases "i = j") (auto simp: less_Suc_eq)
    next
      fix es
      let ?new = "\<lambda>k i. let q = plist k r ! i in
           p_menu q = Some m \<and> p_type q = P_SELECT \<and> prop_get_symbol q = Some es \<and> expr_val_opt v (p_visible q) \<noteq> T_no"
      have "?new k2 i = ?new k1 i" if "i < j" for i using same [of i] that by simp
      moreover have "?new k2 j \<longleftrightarrow> p_type ?p = P_SELECT \<and> prop_get_symbol ?p = Some es \<and> expr_val_opt v e \<noteq> T_no"
        using True by (simp add: at prop_get_symbol_def)
      moreover have "selected v k1 es \<longleftrightarrow> selected v k es \<or> sv_tri v r \<noteq> T_no \<and>
          (\<exists>i < length (plist k r). i < j \<and> ?new k1 i)" using k1(2) unfolding inherited_def by blast
      ultimately show "selected v k2 es \<longleftrightarrow> selected v k es \<or> sv_tri v r \<noteq> T_no \<and>
          (\<exists>i < length (plist k r). i < Suc j \<and> ?new k2 i)"
        using j by (simp only: k2(6) less_Suc_eq) blast
    qed (use k2(2,3,5) i1 in simp_all)
    then show ?thesis using f k2(1) by simp
  qed
qed

text \<open>
  C6: an entry of a menu depends on what the menu depends on and on its own condition, and each of
  its properties on that and on the condition of the property; and what it selects is selected where
  the entry is not n and the condition of the select holds. For boolean conditions, in every state of
  the values without modules.
\<close>

theorem inherit_entry_values:
  assumes "sane v" "alike (view (tab k)) v" "no_modules v" "two_valued_opt v d" "two_valued_opt v (mn_dep (menus k m))"
    and "mn_sym (menus k m) = Some r"
    and "\<And>p. p \<in> set (plist k r) \<Longrightarrow> two_valued_opt v (p_visible p) \<and> (p_type p = P_SELECT \<longrightarrow> prop_get_symbol p \<noteq> None)"
  shows "\<exists>k'. inherit_entry d m k = Some k' \<and>
    (let own = expr_val_opt v (mn_dep (menus k' m)) in
     own = EXPR_AND (expr_val_opt v d) (expr_val_opt v (mn_dep (menus k m))) \<and>
     (\<forall>i < length (plist k r). let p = plist k r ! i; q = plist k' r ! i in
        expr_val_opt v (p_visible q) =
          (if p_menu p = Some m then EXPR_AND own (expr_val_opt v (p_visible p)) else expr_val_opt v (p_visible p))) \<and>
     (\<forall>es. selected v k' es \<longleftrightarrow> selected v k es \<or> sv_tri v r \<noteq> T_no \<and>
        (\<exists>q \<in> set (plist k' r). p_menu q = Some m \<and> p_type q = P_SELECT \<and> prop_get_symbol q = Some es \<and>
           expr_val_opt v (p_visible q) \<noteq> T_no)))"
proof -
  obtain b where b: "join_dep (view (tab k)) d (mn_dep (menus k m)) = Some b" "two_valued_opt v b"
    "expr_val_opt v b = EXPR_AND (expr_val_opt v d) (expr_val_opt v (mn_dep (menus k m)))"
    using join_dep_value [OF assms(1,4,5)] alike_join_dep [OF assms(2)] two_valued_opt_logical assms(4,5) by metis
  define k1 where "k1 = upd_menu m (\<lambda>x. x\<lparr>mn_dep := b\<rparr>) k"
  have k1: "tab k1 = tab k" "mn_dep (menus k1 m) = b" "mn_sym (menus k1 m) = Some r" "plist k1 r = plist k r"
    "selected v k1 es = selected v k es" for es
    using assms(6) by (simp_all add: k1_def upd_menu_def plist_def selected_def)
  let ?n = "length (plist k r)"
  obtain k2 where k2: "fold_opt (inherit_prop b m r) [0..<?n] k1 = Some k2" "inherited v b m r ?n k1 k2"
    using inherit_props_value [OF assms(1) _ assms(3) b(2), of k1 r ?n m] assms(2,7) k1(1,4) by auto
  have e: "inherit_entry d m k = Some k2"
    using k2(1) k1(3) b(1) by (simp add: inherit_entry_def inherit_props_def plist_def k1(1) flip: k1_def)
  have own: "mn_dep (menus k2 m) = b" using k2(2) k1(2) by (simp add: inherited_def)
  have len: "length (plist k2 r) = ?n" using k2(2) k1(4) by (simp add: inherited_def)
  have ex: "(\<exists>q \<in> set (plist k2 r). P q) \<longleftrightarrow> (\<exists>i < ?n. P (plist k2 r ! i))" for P
    using len by (metis in_set_conv_nth)
  have "selected v k2 es \<longleftrightarrow> selected v k es \<or> sv_tri v r \<noteq> T_no \<and>
        (\<exists>q \<in> set (plist k2 r). p_menu q = Some m \<and> p_type q = P_SELECT \<and> prop_get_symbol q = Some es \<and>
           expr_val_opt v (p_visible q) \<noteq> T_no)" for es
    using k2(2) k1(4,5) unfolding inherited_def Let_def ex by auto
  moreover have "expr_val_opt v (p_visible (plist k2 r ! i)) =
      (if p_menu (plist k r ! i) = Some m then EXPR_AND (expr_val_opt v b) (expr_val_opt v (p_visible (plist k r ! i)))
       else expr_val_opt v (p_visible (plist k r ! i)))" if i: "i < ?n" for i
  proof -
    have "if p_menu (plist k r ! i) = Some m
        then (\<exists>e. plist k2 r ! i = (plist k r ! i)\<lparr>p_visible := e\<rparr> \<and>
          expr_val_opt v e = EXPR_AND (expr_val_opt v b) (expr_val_opt v (p_visible (plist k r ! i))))
        else plist k2 r ! i = plist k r ! i"
      using k2(2) i unfolding inherited_def Let_def k1(4) by simp
    then show ?thesis by auto
  qed
  ultimately show ?thesis using e own b(3) by (simp add: Let_def)
qed

theorem inherit_entry_values_witness:
  "\<exists>k'. inherit_entry (Some (ESymbol (SymId 2))) 2 sample_tree = Some k' \<and>
     expr_val_opt (sample_view (\<lambda>i. if i < 3 then S_BOOLEAN else S_UNKNOWN) (\<lambda>i. if i = 2 then T_no else T_yes))
       (p_visible (plist k' (SymId 1) ! 0)) = T_no"
proof -
  let ?ty = "\<lambda>i :: nat. if i < 3 then S_BOOLEAN else S_UNKNOWN" and ?val = "\<lambda>i :: nat. if i = 2 then T_no else T_yes"
  let ?v = "sample_view ?ty ?val"
  have "s_type (syms (tab sample_tree) s) = sv_type ?v s \<and> (SYMBOL_CONST \<in> s_flags (syms (tab sample_tree) s)) = sv_const ?v s" for s
    by (cases s) (auto simp: sample_tree_def sample_entry_def symbol_yes_def symbol_mod_def symbol_no_def symbol_empty_def
        blank_symbol_def)
  then have a: "alike (view (tab sample_tree)) ?v" by (auto simp: alike_def view_def)
  have m: "mn_sym (menus sample_tree 2) = Some (SymId 1)" "mn_dep (menus sample_tree 2) = None"
    by (simp_all add: sample_tree_def blank_menu_def)
  have p: "plist sample_tree (SymId 1) = s_props (sample_entry ''B'' 2 (Some (ESymbol (SymId 0))))"
    by (simp add: plist_def sample_tree_def)
  have nm: "no_modules ?v" by (auto simp: no_modules_def split: symref.splits)
  show ?thesis
    using inherit_entry_values [of ?v sample_tree "Some (ESymbol (SymId 2))" 2 "SymId 1"] a nm m p
    by (auto simp: sample_entry_def Let_def)
qed


section \<open>Members of a choice\<close>

lemma list_add_syms: "list_add e q = Some e' \<Longrightarrow> expr_list_syms e' = (case e of Some x \<Rightarrow> expr_list_syms x | None \<Rightarrow> []) @ [q]"
proof (induction e q arbitrary: e' rule: list_add.induct)
  case (2 l s q)
  then show ?case by (cases l) auto
qed auto

lemma add_to_choice_find:
  "add_to_choice q ps = Some ps' \<Longrightarrow> \<exists>c e. find (\<lambda>p. p_type p = P_CHOICE) ps = Some c \<and> list_add (p_expr c) q = Some e \<and>
     find (\<lambda>p. p_type p = P_CHOICE) ps' = Some (c\<lparr>p_expr := Some e\<rparr>)"
  by (induction ps arbitrary: ps') (auto split: if_splits)

lemma need_choice_tab:
  "tab (need_choice r m q k) = upd_sym q (\<lambda>s. s\<lparr>s_props := map (\<lambda>p.
     if p_menu p \<noteq> Some m then p
     else p\<lparr>p_visible := expr_alloc_and (Some (EEqual r SymYes)) (p_visible p)\<rparr>) (s_props s)\<rparr>) (tab k)"
  by (simp add: need_choice_def upd_tab_def upd_menu_def upd_sym_def expr_alloc_comp_def copy_opt_def Let_def cong: if_cong)

text \<open>The condition a member gets that is no tristate itself.\<close>

definition member_cond :: "symtab \<Rightarrow> symref \<Rightarrow> nat \<Rightarrow> symref \<Rightarrow> property \<Rightarrow> property" where
  "member_cond st r m q p =
     (if s_type (syms st r) = S_TRISTATE \<and> s_type (syms st q) \<noteq> S_TRISTATE \<and> p_menu p = Some m
      then p\<lparr>p_visible := expr_alloc_and (Some (EEqual r SymYes)) (p_visible p)\<rparr> else p)"

lemma member_cond_type [simp]: "p_type (member_cond st r m q p) = p_type p" "p_expr (member_cond st r m q p) = p_expr p"
  by (simp_all add: member_cond_def)

text \<open>
  C8: an entry of a choice that is no member yet becomes its last member: it is marked as a member, the
  choice lists it behind the others, its own property says which choice it belongs to, and if the
  choice is a tristate and the entry is not, its properties need the choice to be y.
\<close>

theorem choice_member_added:
  assumes "sound k" "mn_sym (menus k m) = Some q" "sym_is_choice (syms (tab k) r)" "q \<noteq> r"
  shows "\<exists>k' p. make_member r m q k = Some k' \<and> sym_is_choice_value (syms (tab k') q) \<and>
    choice_syms (syms (tab k') r) = choice_syms (syms (tab k) r) @ [q] \<and>
    plist k' q = map (member_cond (tab k) r m q) (plist k q) @ [p] \<and>
    p_type p = P_CHOICE \<and> prop_get_symbol p = Some r \<and> p_menu p = Some m"
proof -
  define k1 where "k1 = upd_tab (set_flags q {SYMBOL_CHOICEVAL}) (k\<lparr>current_entry := m\<rparr>)"
  define k2 where "k2 = (if \<not> menu_has_prompt k1 m then menu_warn m ''choice value must have a prompt'' k1 else k1)"
  have k2: "syms (tab k2) = syms (set_flags q {SYMBOL_CHOICEVAL} (tab k))" "menus k2 = menus k" "current_entry k2 = m"
    by (simp_all add: k1_def k2_def menu_warn_def k_warn_def upd_tab_def)
  obtain k' where k': "make_member r m q k = Some k'" using make_member_ok [OF assms(1-3)] by blast
  then obtain k3 where k3: "member_warnings r m (s_props (syms (tab k2) q)) k2 = Some k3"
    by (auto simp: make_member_def Let_def split: bind_splits simp flip: k1_def k2_def)
  have s2: "sound k2"
    using assms(1) sound_flags [of "k\<lparr>current_entry := m\<rparr>" "{SYMBOL_CHOICEVAL}" q] by (simp add: k1_def k2_def)
  have k3': "syms (tab k3) = syms (tab k2)" "menus k3 = menus k" "current_entry k3 = m"
    using member_warnings_ok [OF s2, of "s_props (syms (tab k2) q)" r m] k3 soundD(2) [OF s2, of q] k2
      member_warnings_current [OF k3]
    by (auto simp: sound_symbol_def)
  define k4 where "k4 = (if s_type (syms (tab k3) r) = S_TRISTATE \<and> s_type (syms (tab k3) q) \<noteq> S_TRISTATE
       then need_choice r m q k3 else k3)"
  have ty: "s_type (syms (tab k3) x) = s_type (syms (tab k) x)" "s_props (syms (tab k3) x) = s_props (syms (tab k) x)"
    "s_flags (syms (tab k3) x) = (if x = q then insert SYMBOL_CHOICEVAL (s_flags (syms (tab k) x)) else s_flags (syms (tab k) x))" for x
    by (simp_all add: k3'(1) k2(1) set_flags_def upd_sym_def)
  have k4: "s_props (syms (tab k4) q) = map (member_cond (tab k) r m q) (plist k q)"
    "s_props (syms (tab k4) r) = s_props (syms (tab k) r)" "SYMBOL_CHOICEVAL \<in> s_flags (syms (tab k4) q)"
    "current_entry k4 = m" "mn_sym (menus k4 m) = Some q"
    using assms(2,4) k3'(2,3) ty
    by (auto simp: k4_def need_choice_tab upd_sym_def plist_def member_cond_def need_choice_def upd_tab_def upd_menu_def Let_def
        expr_alloc_comp_def copy_opt_def intro!: map_idI [symmetric] map_cong)
  let ?p = "(prop_alloc P_CHOICE (tab k4))\<lparr>p_menu := Some m, p_expr := Some (expr_alloc_symbol r)\<rparr>"
  define k5 where "k5 = upd_tab (upd_sym q (\<lambda>s. s\<lparr>s_props := s_props s @ [?p]\<rparr>)) k4"
  have k5: "menu_add_symbol P_CHOICE r None k4 = Some k5"
    using k4(4,5) by (simp add: k5_def menu_add_symbol_def menu_add_prop_def check_dep_def store_prop_def Let_def add_prop_def
        prop_alloc_def upd_tab_def upd_sym_def)
  have r5: "s_props (syms (tab k5) r) = s_props (syms (tab k) r)"
    using assms(4) k4(2) by (simp add: k5_def upd_tab_def upd_sym_def)
  obtain ps where ps: "add_to_choice q (s_props (syms (tab k) r)) = Some ps"
    "k' = upd_tab (upd_sym r (\<lambda>s. s\<lparr>s_props := ps\<rparr>)) k5"
    using k' k3 k5 by (auto simp: make_member_def Let_def r5 split: bind_splits simp flip: k1_def k2_def k4_def)
  obtain c e where c: "find (\<lambda>p. p_type p = P_CHOICE) (s_props (syms (tab k) r)) = Some c" "list_add (p_expr c) q = Some e"
    "find (\<lambda>p. p_type p = P_CHOICE) ps = Some (c\<lparr>p_expr := Some e\<rparr>)"
    using add_to_choice_find [OF ps(1)] by blast
  have "choice_syms (syms (tab k') r) = expr_list_syms e" "choice_syms (syms (tab k) r) @ [q] = expr_list_syms e"
    using c list_add_syms [OF c(2)]
    by (simp_all add: choice_syms_def sym_get_choice_prop_def ps(2) upd_tab_def upd_sym_def)
  moreover have "plist k' q = map (member_cond (tab k) r m q) (plist k q) @ [?p]"
    using assms(4) k4(1) by (simp add: plist_def ps(2) k5_def upd_tab_def upd_sym_def)
  moreover have "sym_is_choice_value (syms (tab k') q)"
    using assms(4) k4(3) by (simp add: sym_is_choice_value_def ps(2) k5_def upd_tab_def upd_sym_def)
  ultimately show ?thesis using k'
    by (intro exI [of _ k'] exI [of _ ?p]) (simp add: prop_alloc_def prop_get_symbol_def expr_alloc_symbol_def)
qed
text \<open>A tristate choice with one boolean entry.\<close>

definition sample_choice :: kconf where
  "sample_choice = root_only\<lparr>
     tab := empty_symtab\<lparr>syms := static_symbol(SymId 0 := sample_entry ''A'' 2 None,
       SymId 1 := blank_symbol\<lparr>s_type := S_TRISTATE, s_flags := {SYMBOL_CHOICE},
         s_props := [sample_property P_CHOICE None None]\<rparr>), next_id := 2\<rparr>,
     menus := (\<lambda>_. blank_menu)(0 := blank_menu\<lparr>mn_list := Some 1\<rparr>,
       1 := blank_menu\<lparr>mn_parent := Some 0, mn_list := Some 2, mn_sym := Some (SymId 1)\<rparr>,
       2 := blank_menu\<lparr>mn_parent := Some 1, mn_sym := Some (SymId 0), mn_prompt := Some (P_at 0)\<rparr>),
     next_menu := 3\<rparr>"

lemma static_symbol_sound: "sound_symbol k (static_symbol r)"
  by (cases r) (simp_all add: sound_symbol_def symbol_yes_def symbol_mod_def symbol_no_def symbol_empty_def blank_symbol_def
      sym_is_choice_def)

lemma sample_choice_sound: "sound sample_choice"
proof (rule soundI)
  show "sound_menu sample_choice m" for m
    by (simp add: sound_menu_def sample_choice_def sample_entry_def blank_menu_def)
  show "sound_symbol sample_choice (syms (tab sample_choice) r)" for r
    using static_symbol_sound [of sample_choice r]
    by (simp add: sample_choice_def)
      (simp add: sound_symbol_def sound_prop_def sample_entry_def sym_is_choice_def has_expr_def blank_menu_def
        blank_symbol_def sample_property_def sym_get_choice_prop_def)
qed

theorem choice_member_added_witness:
  "\<exists>k'. make_member (SymId 1) 2 (SymId 0) sample_choice = Some k' \<and>
     choice_syms (syms (tab k') (SymId 1)) = [SymId 0] \<and>
     p_visible (plist k' (SymId 0) ! 0) = Some (EEqual (SymId 1) SymYes)"
proof -
  have m: "mn_sym (menus sample_choice 2) = Some (SymId 0)" "sym_is_choice (syms (tab sample_choice) (SymId 1))"
    by (simp_all add: sample_choice_def sym_is_choice_def blank_menu_def)
  have p: "plist sample_choice (SymId 0) = s_props (sample_entry ''A'' 2 None)"
    "choice_syms (syms (tab sample_choice) (SymId 1)) = []"
    "s_type (syms (tab sample_choice) (SymId 1)) = S_TRISTATE" "s_type (syms (tab sample_choice) (SymId 0)) = S_BOOLEAN"
    by (simp_all add: sample_choice_def plist_def choice_syms_def sym_get_choice_prop_def sample_property_def sample_entry_def)
  show ?thesis
    using choice_member_added [OF sample_choice_sound m] p
    by (auto simp: sample_entry_def member_cond_def nth_append)
qed

end
