(* ===== verification/Kask.thy ===== *)
theory Kask
  imports Khelp
begin

text \<open>
  The text front end, \<open>support/kconfig/conf.c\<close>: asking for the values of symbols and for the members of
  choices on standard input, going down the menus, and looking for new symbols. \<open>front\<close> is what these
  functions share: the menus and symbols, the unread input, what was printed, and the static
  variables of the file. Where the code calls \<open>exit\<close>, the result is \<open>Inl\<close>; None is a loop that does
  not end, a NULL pointer that is followed, or a write outside an object. \<open>pre\<close> is \<open>CONFIG_\<close>.
\<close>

section \<open>The state\<close>

datatype input_mode = oldaskconfig | silentoldconfig | oldconfig | allnoconfig | allyesconfig | allmodconfig
  | alldefconfig | randconfig | defconfig | savedefconfig | listnewconfig | olddefconfig

record front =
  fr_k :: kconf
  fr_in :: cstring
  fr_out :: cstring
  fr_err :: cstring
  fr_line :: cstring
  fr_indent :: nat
  fr_mode :: input_mode
  fr_tty :: bool
  fr_valid :: bool
  fr_cnt :: nat
  fr_root :: "nat option"

text \<open>The code of an exit, with the state it leaves.\<close>

type_synonym exited = "nat \<times> front"

definition go_on :: "('e + 'a) option \<Rightarrow> ('a \<Rightarrow> ('e + 'b) option) \<Rightarrow> ('e + 'b) option" where
  "go_on m f = m \<bind> (\<lambda>r. case r of Inl e \<Rightarrow> Some (Inl e) | Inr x \<Rightarrow> f x)"

lemma go_on_simps [simp]:
  "go_on None f = None" "go_on (Some (Inl e)) f = Some (Inl e)" "go_on (Some (Inr x)) f = f x"
  by (simp_all add: go_on_def)

lemma go_on_mono [partial_function_mono]:
  assumes "mono_option B" "\<And>y. mono_option (\<lambda>f. C y f)"
  shows "mono_option (\<lambda>f. go_on (B f) (\<lambda>y. C y f))"
  unfolding go_on_def
  by (rule bind_mono [OF assms(1)]) (use assms(2) in \<open>auto simp: monotone_def flat_ord_def fun_ord_def split: sum.split\<close>)

abbreviation here :: "front \<Rightarrow> nat \<Rightarrow> menu" where
  "here s m \<equiv> menus (fr_k s) m"

abbreviation symbol_of :: "front \<Rightarrow> symref \<Rightarrow> symbol" where
  "symbol_of s q \<equiv> syms (tab (fr_k s)) q"

definition print :: "cstring \<Rightarrow> front \<Rightarrow> front" where
  "print t s = s\<lparr>fr_out := fr_out s @ t\<rparr>"

definition with_k :: "kconf \<Rightarrow> front \<Rightarrow> front" where
  "with_k k s = s\<lparr>fr_k := k\<rparr>"

definition with_tab :: "symtab \<Rightarrow> front \<Rightarrow> front" where
  "with_tab st s = with_k ((fr_k s)\<lparr>tab := st\<rparr>) s"

text \<open>\<open>%*s\<close> with an empty text, and \<open>%*c\<close>.\<close>

definition pad :: "front \<Rightarrow> cstring" where
  "pad s = replicate (fr_indent s - 1) (CHR '' '')"

abbreviation nl :: char where "nl \<equiv> CHR 0x0A"

section \<open>Input\<close>

text \<open>\<open>fgets\<close>: at most \<open>n\<close> characters up to a newline, and the rest.\<close>

fun fgets_split :: "nat \<Rightarrow> cstring \<Rightarrow> cstring \<times> cstring" where
  "fgets_split 0 t = ([], t)"
| "fgets_split (Suc n) [] = ([], [])"
| "fgets_split (Suc n) (c # t) =
     (if c = nl then ([c], t) else let (a, r) = fgets_split n t in (c # a, r))"

text \<open>As a C string the line ends at its first NUL. At the end of the input the line stays as it is.\<close>

definition xfgets :: "front \<Rightarrow> front" where
  "xfgets s =
     (if fr_in s = []
      then s\<lparr>fr_err := fr_err s @ [nl] @ ''Error in reading or end of file.'' @ [nl]\<rparr>
      else let (a, r) = fgets_split 127 (fr_in s)
           in s\<lparr>fr_line := takeWhile (\<lambda>c. c \<noteq> CHR 0x00) a, fr_in := r\<rparr>)"

definition strip :: "cstring \<Rightarrow> cstring" where
  "strip t = rev (dropWhile c_isspace (rev (dropWhile c_isspace t)))"

definition check_stdin :: "front \<Rightarrow> exited + front" where
  "check_stdin s =
     (if \<not> fr_valid s
      then Inl (1, print (''aborted!'' @ [nl, nl] @ ''Console input/output is redirected. '' @
             ''Run '' @ single_quoted ''make oldconfig'' @ '' to update configuration.'' @ [nl, nl]) s)
      else Inr s)"

definition print_help :: "cstring \<Rightarrow> nat \<Rightarrow> front \<Rightarrow> front option" where
  "print_help pre m s = do {
     (help, k) \<leftarrow> menu_get_ext_help pre m (str_new, fr_k s);
     Some (print ([nl] @ str_get help @ [nl]) (with_k k s))
   }"

section \<open>Asking for a value\<close>

text \<open>A line from standard input, and whether the caller looks at the line.\<close>

definition read_answer :: "front \<Rightarrow> bool \<times> front" where
  "read_answer s = (let s = xfgets s in (True, if \<not> fr_tty s then print [nl] s else s))"

definition conf_askvalue :: "symref \<Rightarrow> cstring \<Rightarrow> front \<Rightarrow> exited + bool \<times> front" where
  "conf_askvalue q def s =
     (let type = sym_get_type (tab (fr_k s)) q;
          s = (if \<not> sym_has_value (symbol_of s q) then print ''(NEW) '' s else s);
          s = s\<lparr>fr_line := [nl]\<rparr>
      in if \<not> sym_is_changable (symbol_of s q) then Inr (False, (print (def @ [nl]) s)\<lparr>fr_line := [nl]\<rparr>)
      else if fr_mode s \<in> {oldconfig, silentoldconfig}
      then if sym_has_value (symbol_of s q) then Inr (False, print (def @ [nl]) s)
           else (case check_stdin s of Inl e \<Rightarrow> Inl e | Inr s \<Rightarrow> Inr (read_answer s))
      else if fr_mode s = oldaskconfig then Inr (read_answer s)
      else if type \<in> {S_INT, S_HEX, S_STRING} then Inr (True, print (def @ [nl]) s)
      else Inr (True, print (fr_line s) s))"

text \<open>
  The text that was typed, without its last character, or the value the symbol has for an empty line;
  None after a help text. A line that begins with a NUL has no last character: the code writes before it.
\<close>

definition typed_value :: "cstring \<Rightarrow> nat \<Rightarrow> cstring \<Rightarrow> front \<Rightarrow> (cstring option \<times> front) option" where
  "typed_value pre m def s =
     (case fr_line s of
        [] \<Rightarrow> None
      | c # r \<Rightarrow>
          if c = nl then Some (Some def, s)
          else if c = CHR ''?'' \<and> first_is nl r
          then map_option (Pair None) (print_help pre m s)
          else Some (Some (butlast (c # r)), s\<lparr>fr_line := butlast (c # r)\<rparr>))"

partial_function (option) conf_string :: "cstring \<Rightarrow> nat \<Rightarrow> front \<Rightarrow> (exited + front) option" where
  "conf_string pre m s = do {
     q \<leftarrow> mn_sym (here s m);
     prompt \<leftarrow> menu_prompt (fr_k s) m;
     let s = print (pad s @ printed (p_text prompt) @ '' '') s;
     let s = print (''('' @ printed (s_name (symbol_of s q)) @ '') '') s;
     (def, st) \<leftarrow> sym_get_string_value sym_calc_value q (tab (fr_k s));
     (_, st) \<leftarrow> sym_get_string_value sym_calc_value q st;
     let s = print (''['' @ def @ ''] '') (with_tab st s);
     go_on (Some (conf_askvalue q def s)) (\<lambda>(look, s).
       if \<not> look then Some (Inr s)
       else do {
         (new, s) \<leftarrow> typed_value pre m def s;
         case new of
           None \<Rightarrow> conf_string pre m s
         | Some v \<Rightarrow> do {
             (ok, st) \<leftarrow> sym_set_string_value q v (tab (fr_k s));
             if ok then Some (Inr (with_tab st s)) else conf_string pre m (with_tab st s)
           }
       })
   }"

datatype answer = Again | Help | Take tristate

definition sym_answer :: "tristate \<Rightarrow> cstring \<Rightarrow> answer" where
  "sym_answer oldval t =
     (case t of
        [] \<Rightarrow> Take oldval
      | c # r \<Rightarrow>
          if c \<in> {CHR ''n'', CHR ''N''} then if r \<in> {[], ''o''} then Take T_no else Again
          else if c \<in> {CHR ''m'', CHR ''M''} then if r = [] then Take T_mod else Again
          else if c \<in> {CHR ''y'', CHR ''Y''} then if r \<in> {[], ''es''} then Take T_yes else Again
          else if c = CHR ''?'' then Help
          else Again)"

text \<open>The letter of the value, and the other values and \<open>?\<close> as far as they can be answered.\<close>

definition sym_choices :: "nat \<Rightarrow> symref \<Rightarrow> front \<Rightarrow> cstring" where
  "sym_choices m q s =
     (let oldval = sym_get_tristate_value (symbol_of s q); ok = sym_tristate_within_range (tab (fr_k s)) q
      in ''['' @ (case oldval of T_no \<Rightarrow> ''N'' | T_mod \<Rightarrow> ''M'' | T_yes \<Rightarrow> ''Y'') @
         (if oldval \<noteq> T_no \<and> ok T_no then ''/n'' else []) @
         (if oldval \<noteq> T_mod \<and> ok T_mod then ''/m'' else []) @
         (if oldval \<noteq> T_yes \<and> ok T_yes then ''/y'' else []) @
         (if menu_has_help (fr_k s) m then ''/?'' else []) @ ''] '')"

partial_function (option) conf_sym :: "cstring \<Rightarrow> nat \<Rightarrow> front \<Rightarrow> (exited + front) option" where
  "conf_sym pre m s = do {
     q \<leftarrow> mn_sym (here s m);
     prompt \<leftarrow> menu_prompt (fr_k s) m;
     let s = print (pad s @ printed (p_text prompt) @ '' '') s;
     let s = (case s_name (symbol_of s q) of Some n \<Rightarrow> print (''('' @ n @ '') '') s | None \<Rightarrow> s);
     let oldval = sym_get_tristate_value (symbol_of s q);
     let s = print (sym_choices m q s) s;
     (def, st) \<leftarrow> sym_get_string_value sym_calc_value q (tab (fr_k s));
     go_on (Some (conf_askvalue q def (with_tab st s))) (\<lambda>(look, s).
       if \<not> look then Some (Inr s)
       else let s = s\<lparr>fr_line := strip (fr_line s)\<rparr>
            in case sym_answer oldval (fr_line s) of
                 Again \<Rightarrow> conf_sym pre m s
               | Help \<Rightarrow> do { s \<leftarrow> print_help pre m s; conf_sym pre m s }
               | Take newval \<Rightarrow> do {
                   (ok, st) \<leftarrow> sym_set_tristate_value q newval (tab (fr_k s));
                   if ok then Some (Inr (with_tab st s))
                   else do { s \<leftarrow> print_help pre m (with_tab st s); conf_sym pre m s }
                 })
   }"

section \<open>Choices\<close>

definition sym_get_choice_value :: "symbol \<Rightarrow> symref option" where
  "sym_get_choice_value s = (case fst (s_curr s) of V_sym d \<Rightarrow> Some d | _ \<Rightarrow> None)"

definition sym_set_choice_value :: "symref \<Rightarrow> symtab \<Rightarrow> (bool \<times> symtab) option" where
  "sym_set_choice_value chval st = sym_set_tristate_value chval T_yes st"

definition menu_line :: "nat \<Rightarrow> front \<Rightarrow> front" where
  "menu_line m s = print (pad s @ printed (menu_get_prompt (fr_k s) m) @ [nl]) s"

text \<open>The first part of \<open>conf_choice\<close>: whether its members are asked for, and whether it was new.\<close>

definition choice_start :: "cstring \<Rightarrow> nat \<Rightarrow> symref \<Rightarrow> front \<Rightarrow> (exited + bool \<times> front) option" where
  "choice_start pre m q s =
     (if sym_is_changable (symbol_of s q)
      then go_on (conf_sym pre m s) (\<lambda>s. do {
        st \<leftarrow> sym_calc_value q (tab (fr_k s));
        let s = with_tab st s;
        Some (Inr (sym_get_tristate_value (symbol_of s q) = T_yes, s))
      })
      else Some (Inr (case sym_get_tristate_value (symbol_of s q) of
          T_no \<Rightarrow> (False, s)
        | T_mod \<Rightarrow> (False, menu_line m s)
        | T_yes \<Rightarrow> (True, s))))"

text \<open>The lines of the entries: how many members there are, and which one is chosen (0 for none).\<close>

definition list_member :: "symref option \<Rightarrow> nat \<Rightarrow> nat \<Rightarrow> nat \<Rightarrow> front \<Rightarrow> (nat \<times> nat \<times> front) option" where
  "list_member def_sym child cnt def s = do {
     (v, k) \<leftarrow> menu_is_visible child (fr_k s);
     let s = with_k k s;
     if \<not> v then Some (cnt, def, s)
     else case mn_sym (here s child) of
       None \<Rightarrow> Some (cnt, def, print (pad s @ ''* '' @ printed (menu_get_prompt k child) @ [nl]) s)
     | Some q \<Rightarrow>
         let cnt = Suc cnt; chosen = (def_sym = Some q);
             s = print (pad s @ (if chosen then ''>'' else '' '') @ '' '' @ dec_of_nat cnt @ ''. '' @
                   printed (menu_get_prompt k child) @
                   (case s_name (symbol_of s q) of Some n \<Rightarrow> '' ('' @ n @ '')'' | None \<Rightarrow> []) @
                   (if \<not> sym_has_value (symbol_of s q) then '' (NEW)'' else []) @ [nl]) s
         in Some (cnt, if chosen then cnt else def, s)
   }"

partial_function (option) list_members ::
  "symref option \<Rightarrow> nat option \<Rightarrow> nat \<Rightarrow> nat \<Rightarrow> front \<Rightarrow> (nat \<times> nat \<times> front) option" where
  "list_members def_sym p cnt def s =
     (case p of
        None \<Rightarrow> Some (cnt, def, s)
      | Some c \<Rightarrow> do {
          (cnt, def, s) \<leftarrow> list_member def_sym c cnt def s;
          list_members def_sym (mn_next (here s c)) cnt def s
        })"

text \<open>The visible member with a number; numbers are as wide as it takes.\<close>

partial_function (option) pick_child :: "nat option \<Rightarrow> int \<Rightarrow> front \<Rightarrow> (nat option \<times> front) option" where
  "pick_child p cnt s =
     (case p of
        None \<Rightarrow> Some (None, s)
      | Some c \<Rightarrow>
          if mn_sym (here s c) = None then pick_child (mn_next (here s c)) cnt s
          else do {
            (v, k) \<leftarrow> menu_is_visible c (fr_k s);
            let s = with_k k s;
            if \<not> v then pick_child (mn_next (here s c)) cnt s
            else if cnt - 1 = 0 then Some (Some c, s)
            else pick_child (mn_next (here s c)) (cnt - 1) s
          })"

definition answered_number :: "cstring \<Rightarrow> int" where
  "answered_number t = sint (word_of_int (fst (c_strtol llong_min llong_max 10 t)) :: 32 word)"

text \<open>The number that is answered; None where the question is asked again.\<close>

definition choice_number :: "cstring \<Rightarrow> nat \<Rightarrow> bool \<Rightarrow> nat \<Rightarrow> nat \<Rightarrow> front \<Rightarrow> (exited + int option \<times> front) option" where
  "choice_number pre m is_new cnt def s =
     (if fr_mode s \<in> {oldconfig, silentoldconfig} \<and> \<not> is_new
      then Some (Inr (Some (int def), print (dec_of_nat def @ [nl]) s))
      else if fr_mode s \<notin> {oldconfig, silentoldconfig, oldaskconfig} then Some (Inr (Some (int cnt), s))
      else go_on (Some (if fr_mode s = oldaskconfig then Inr s else check_stdin s)) (\<lambda>s.
        let s = xfgets s; s = s\<lparr>fr_line := strip (fr_line s)\<rparr>
        in case fr_line s of
             [] \<Rightarrow> Some (Inr (Some (int def), s))
           | c # _ \<Rightarrow>
               if c = CHR ''?'' then map_option (\<lambda>s. Inr (None, s)) (print_help pre m s)
               else if c_isdigit c then Some (Inr (Some (answered_number (fr_line s)), s))
               else Some (Inr (None, s))))"

text \<open>One turn of the loop: the member that is chosen, if any.\<close>

definition choice_turn :: "cstring \<Rightarrow> nat \<Rightarrow> bool \<Rightarrow> front \<Rightarrow> (exited + nat option \<times> front) option" where
  "choice_turn pre m is_new s = do {
     q \<leftarrow> mn_sym (here s m);
     let s = menu_line m s;
     let def_sym = sym_get_choice_value (symbol_of s q);
     (cnt, def, s) \<leftarrow> list_members def_sym (mn_list (here s m)) 0 0 (s\<lparr>fr_line := []\<rparr>);
     let s = print (pad s @ ''choice'') s;
     go_on (if cnt = 1 then Some (Inr (Some 1, print (''[1]: 1'' @ [nl]) s))
            else choice_number pre m is_new cnt def
              (print (''[1-'' @ dec_of_nat cnt @ (if menu_has_help (fr_k s) m then ''?'' else []) @ '']: '') s))
       (\<lambda>(number, s). case number of
          None \<Rightarrow> Some (Inr (None, s))
        | Some n \<Rightarrow> do {
            (child, s) \<leftarrow> pick_child (mn_list (here s m)) n s;
            case child of
              None \<Rightarrow> Some (Inr (None, s))
            | Some c \<Rightarrow>
                if fr_line s \<noteq> [] \<and> last (fr_line s) = CHR ''?''
                then map_option (\<lambda>s. Inr (None, s)) (print_help pre c s)
                else do {
                  chval \<leftarrow> mn_sym (here s c);
                  (_, st) \<leftarrow> sym_set_choice_value chval (tab (fr_k s));
                  Some (Inr (Some c, with_tab st s))
                }
          })
   }"

section \<open>The menus\<close>

text \<open>The title of a menu or a comment.\<close>

definition title :: "nat \<Rightarrow> front \<Rightarrow> front" where
  "title m s =
     (case menu_prompt (fr_k s) m of
        None \<Rightarrow> s
      | Some p \<Rightarrow>
          if p_type p \<in> {P_MENU, P_COMMENT}
          then (case menu_get_prompt (fr_k s) m of
              None \<Rightarrow> s
            | Some t \<Rightarrow> print (pad s @ ''*'' @ [nl] @ pad s @ ''* '' @ t @ [nl] @ pad s @ ''*'' @ [nl]) s)
          else s)"

text \<open>In these modes the menus below the one that is asked about are only looked over.\<close>

definition looked_over :: "nat \<Rightarrow> front \<Rightarrow> bool" where
  "looked_over m s \<longleftrightarrow> (\<exists>p. menu_prompt (fr_k s) m = Some p \<and> p_type p = P_MENU) \<and>
     fr_mode s \<in> {silentoldconfig, listnewconfig, olddefconfig} \<and> fr_root s \<noteq> Some m"

text \<open>A new symbol that needs an answer.\<close>

definition needs_answer :: "nat \<Rightarrow> front \<Rightarrow> bool" where
  "needs_answer m s \<longleftrightarrow>
     (case mn_sym (here s m) of
        None \<Rightarrow> False
      | Some q \<Rightarrow> \<not> sym_has_value (symbol_of s q) \<and>
          (sym_is_changable (symbol_of s q) \<or>
           sym_is_choice (symbol_of s q) \<and> sym_get_tristate_value (symbol_of s q) = T_yes))"

text \<open>The name of a new symbol, for the list of them.\<close>

definition list_new :: "cstring \<Rightarrow> nat \<Rightarrow> front \<Rightarrow> front" where
  "list_new pre m s =
     (case mn_sym (here s m) of
        None \<Rightarrow> s
      | Some q \<Rightarrow> (case s_name (symbol_of s q) of
          Some n \<Rightarrow> if sym_is_choice_value (symbol_of s q) then s else print (pre @ n @ [nl]) s
        | None \<Rightarrow> s))"

definition indent_by :: "nat \<Rightarrow> front \<Rightarrow> front" where
  "indent_by d s = s\<lparr>fr_indent := fr_indent s + d\<rparr>"

definition unindent :: "nat \<Rightarrow> front \<Rightarrow> front" where
  "unindent d s = s\<lparr>fr_indent := fr_indent s - d\<rparr>"

text \<open>
  \<open>conf\<close>, \<open>conf_choice\<close> and \<open>check_conf\<close> call each other: \<open>Conf\<close> is the call for a menu, \<open>Confs d\<close> the loop
  over a list of siblings that calls it, \<open>d\<close> columns to the right, \<open>Choice\<close> the loop of \<open>conf_choice\<close>;
  \<open>Check\<close> and \<open>Checks\<close> are \<open>check_conf\<close> and its loop.
\<close>

datatype call = Conf nat | Confs nat "nat option" | Choice nat bool | Check nat | Checks "nat option"

partial_function (option) front_call :: "cstring \<Rightarrow> call \<Rightarrow> front \<Rightarrow> (exited + front) option" where
  "front_call pre j s =
     (case j of
        Confs d p \<Rightarrow> (case p of
          None \<Rightarrow> Some (Inr s)
        | Some c \<Rightarrow> go_on (front_call pre (Conf c) (indent_by d s)) (\<lambda>s.
            front_call pre (Confs d (mn_next (here s c))) (unindent d s)))
      | Conf m \<Rightarrow> do {
          (v, k) \<leftarrow> menu_is_visible m (fr_k s);
          let s = with_k k s;
          if \<not> v then Some (Inr s)
          else if looked_over m s then front_call pre (Check m) s
          else let s = title m s in
            case mn_sym (here s m) of
              None \<Rightarrow> front_call pre (Confs 0 (mn_list (here s m))) s
            | Some q \<Rightarrow>
                if sym_is_choice (symbol_of s q)
                then let is_new = (\<not> sym_has_value (symbol_of s q)) in
                  go_on (go_on (choice_start pre m q s) (\<lambda>(ask, s).
                      if ask then front_call pre (Choice m is_new) s else Some (Inr s))) (\<lambda>s.
                    if sym_get_tristate_value (symbol_of s q) \<noteq> T_mod then Some (Inr s)
                    else go_on (front_call pre (Confs 0 (mn_list (here s m))) (indent_by 2 s)) (\<lambda>s.
                      Some (Inr (unindent 2 s))))
                else
                  go_on (if s_type (symbol_of s q) \<in> {S_INT, S_HEX, S_STRING}
                         then conf_string pre m s else conf_sym pre m s) (\<lambda>s.
                    go_on (front_call pre (Confs 0 (mn_list (here s m))) (indent_by 2 s)) (\<lambda>s.
                      Some (Inr (unindent 2 s))))
        }
      | Choice m is_new \<Rightarrow> go_on (choice_turn pre m is_new s) (\<lambda>(child, s).
          case child of
            None \<Rightarrow> front_call pre (Choice m is_new) s
          | Some c \<Rightarrow> front_call pre (Confs 2 (mn_list (here s c))) s)
      | Check m \<Rightarrow> do {
          (v, k) \<leftarrow> menu_is_visible m (fr_k s);
          let s = with_k k s;
          if \<not> v then Some (Inr s)
          else go_on
            (if \<not> needs_answer m s then Some (Inr s)
             else if fr_mode s = listnewconfig then Some (Inr (list_new pre m s))
             else if fr_mode s = olddefconfig then Some (Inr s)
             else do {
               let s = (if fr_cnt s = 0 then print (''*'' @ [nl] @ ''* Restart config...'' @ [nl] @ ''*'' @ [nl]) s else s);
               root \<leftarrow> menu_get_parent_menu (fr_k s) m;
               front_call pre (Conf root) (s\<lparr>fr_cnt := Suc (fr_cnt s), fr_root := Some root\<rparr>)
             })
            (\<lambda>s. front_call pre (Checks (mn_list (here s m))) s)
        }
      | Checks p \<Rightarrow> (case p of
          None \<Rightarrow> Some (Inr s)
        | Some c \<Rightarrow> go_on (front_call pre (Check c) s) (\<lambda>s. front_call pre (Checks (mn_next (here s c))) s)))"

definition conf :: "cstring \<Rightarrow> nat \<Rightarrow> front \<Rightarrow> (exited + front) option" where
  "conf pre m s = front_call pre (Conf m) s"

definition conf_choice :: "cstring \<Rightarrow> nat \<Rightarrow> symref \<Rightarrow> front \<Rightarrow> (exited + front) option" where
  "conf_choice pre m q s =
     go_on (choice_start pre m q s) (\<lambda>(ask, t).
       if ask then front_call pre (Choice m (\<not> sym_has_value (symbol_of s q))) t else Some (Inr t))"

definition check_conf :: "cstring \<Rightarrow> nat \<Rightarrow> front \<Rightarrow> (exited + front) option" where
  "check_conf pre m s = front_call pre (Check m) s"

end
