(* ===== verification/Kasked.thy ===== *)
theory Kasked
  imports Kask "HOL-Library.Sublist"
begin

text \<open>
  What the functions of \<open>Kask\<close> do: the search for new symbols ends and finds those that are seen, a question ends
  for every input and leaves a value the user may give, and where asking goes on for ever.
\<close>

section \<open>The search for new symbols\<close>

text \<open>A new symbol with a name, that is no member of a choice.\<close>

definition named_new :: "nat \<Rightarrow> front \<Rightarrow> bool" where
  "named_new m s \<longleftrightarrow> (\<exists>q n. mn_sym (here s m) = Some q \<and> s_name (symbol_of s q) = Some n \<and>
     SYMBOL_DEF_USER \<notin> s_flags (symbol_of s q) \<and> \<not> sym_is_choice_value (symbol_of s q) \<and>
     (sym_is_changable (symbol_of s q) \<or> sym_is_choice (symbol_of s q) \<and> snd (s_curr (symbol_of s q)) = T_yes))"

lemma named_new_iff:
  "named_new m s \<longleftrightarrow> needs_answer m s \<and>
     (\<exists>q n. mn_sym (here s m) = Some q \<and> s_name (symbol_of s q) = Some n \<and> \<not> sym_is_choice_value (symbol_of s q))"
  by (auto simp: named_new_def needs_answer_def sym_has_value_def sym_get_tristate_value_def)

definition new_line :: "cstring \<Rightarrow> kconf \<Rightarrow> nat \<Rightarrow> cstring" where
  "new_line pre k m =
     (case mn_sym (menus k m) of
        Some q \<Rightarrow> (case s_name (syms (tab k) q) of Some n \<Rightarrow> pre @ n @ [nl] | None \<Rightarrow> [])
      | None \<Rightarrow> [])"

text \<open>The entries of a tree that are seen with everything above them, in order.\<close>

fun shown_entries :: "kconf \<Rightarrow> mtree list \<Rightarrow> nat list" where
  "shown_entries k [] = []"
| "shown_entries k (MNode m ks # ts) = (if seen k m then m # shown_entries k ks else []) @ shown_entries k ts"

lemma shown_later: "later k k' \<Longrightarrow> calculated (tab k) \<Longrightarrow> shown_entries k' = shown_entries k"
proof
  fix ts assume "later k k'" "calculated (tab k)"
  note s = seen_later(1) [OF this]
  show "shown_entries k' ts = shown_entries k ts" by (induction ts rule: preorder.induct) (simp_all add: s)
qed

text \<open>
  The entries \<open>ns\<close> that \<open>check_conf\<close> stops at, of those that are seen: the new ones, where those seen for what is
  below them only are marked and so not new any more.
\<close>

definition entry_carried :: "kconf \<Rightarrow> nat \<Rightarrow> bool" where
  "entry_carried k m \<longleftrightarrow> (\<exists>q. mn_sym (menus k m) = Some q \<and> carried k q)"

definition new_found :: "front \<Rightarrow> nat list \<Rightarrow> nat list \<Rightarrow> bool" where
  "new_found s ms ns \<longleftrightarrow>
     subseq (filter (\<lambda>m. named_new m s \<and> \<not> entry_carried (fr_k s) m) ms) ns \<and>
     subseq ns (filter (\<lambda>m. named_new m s \<and> prompt_val (fr_k s) m \<noteq> T_no) ms)"

definition looked :: "cstring \<Rightarrow> front \<Rightarrow> nat list \<Rightarrow> nat list \<Rightarrow> front \<Rightarrow> bool" where
  "looked pre s ms ns s' \<longleftrightarrow> marked (fr_k s) (fr_k s') \<and> new_found s ms ns \<and>
     s' = s\<lparr>fr_k := fr_k s', fr_out := fr_out s @
       (if fr_mode s = listnewconfig then concat (map (new_line pre (fr_k s)) ns) else [])\<rparr>"

lemma named_new_k:
  fixes s t :: front
  assumes "fr_k s = fr_k t"
  shows "named_new m s = named_new m t"
  unfolding named_new_iff needs_answer_def assms ..

lemma with_k_simps [simp]:
  "fr_k (with_k k s) = k" "fr_mode (with_k k s) = fr_mode s" "fr_out (with_k k s) = fr_out s" "with_k k (with_k k1 s) = with_k k s"
  "fr_in (with_k k s) = fr_in s" "fr_line (with_k k s) = fr_line s" "fr_indent (with_k k s) = fr_indent s"
  "fr_tty (with_k k s) = fr_tty s" "fr_valid (with_k k s) = fr_valid s" "fr_cnt (with_k k s) = fr_cnt s"
  by (simp_all add: with_k_def)

lemma lookedD:
  assumes "looked pre s ms ns s'"
  shows "marked (fr_k s) (fr_k s')" "fr_mode s' = fr_mode s" "new_found s ms ns"
    and "s' = s\<lparr>fr_k := fr_k s', fr_out := fr_out s @
       (if fr_mode s = listnewconfig then concat (map (new_line pre (fr_k s)) ns) else [])\<rparr>"
    and "later (fr_k s) (fr_k s')"
proof -
  show e: "s' = s\<lparr>fr_k := fr_k s', fr_out := fr_out s @
       (if fr_mode s = listnewconfig then concat (map (new_line pre (fr_k s)) ns) else [])\<rparr>"
    using assms by (simp add: looked_def)
  show "fr_mode s' = fr_mode s" by (subst e) simp
qed (use assms marked_later in \<open>simp_all add: looked_def\<close>)

lemma new_line_later: "later k k' \<Longrightarrow> new_line pre k' = new_line pre k"
proof (intro ext)
  fix m assume l: "later k k'"
  then have "s_name (syms (tab k') r) = s_name (syms (tab k) r)" for r
    using same_frameD(9) [OF framesD(3) [OF keeps_frames], of "tab k" "tab k'"] by (simp add: later_def)
  with l show "new_line pre k' m = new_line pre k m" by (simp add: new_line_def later_def split: option.split)
qed

text \<open>Marking a symbol takes it from the new ones, and touches no other.\<close>

lemma marked_new:
  assumes "marked (fr_k s) (fr_k s')"
  shows "named_new m s' \<Longrightarrow> named_new m s" "\<not> entry_carried (fr_k s) m \<Longrightarrow> named_new m s' = named_new m s"
proof -
  have m: "menus (fr_k s') = menus (fr_k s)" using marked_later [OF assms] by (simp add: later_def)
  have r: "symbol_of s' q = symbol_of s q \<or> carried (fr_k s) q \<and> symbol_of s' q = user_marked (symbol_of s q)" for q
    using assms by (simp add: marked_def)
  have u: "sym_has_value (user_marked x)" for x by (simp add: user_marked_def sym_has_value_def)
  show "named_new m s' \<Longrightarrow> named_new m s"
  proof -
    assume n: "named_new m s'"
    then obtain q where q: "mn_sym (here s m) = Some q" by (auto simp: named_new_iff m)
    have "\<not> sym_has_value (symbol_of s' q)" using n q by (simp add: named_new_iff needs_answer_def m)
    then have "symbol_of s' q = symbol_of s q" using r [of q] u by auto
    with n q show "named_new m s" by (simp add: named_new_iff needs_answer_def m)
  qed
  show "named_new m s' = named_new m s" if "\<not> entry_carried (fr_k s) m"
  proof (cases "mn_sym (here s m)")
    case (Some q)
    then have "symbol_of s' q = symbol_of s q" using r [of q] that by (auto simp: entry_carried_def)
    with Some show ?thesis by (simp add: named_new_iff needs_answer_def m)
  qed (simp add: named_new_iff m)
qed

lemma filter_subseq: "(\<And>x. x \<in> set xs \<Longrightarrow> P x \<Longrightarrow> Q x) \<Longrightarrow> subseq (filter P xs) (filter Q xs)"
proof (induction xs)
  case (Cons x xs)
  then have "subseq (filter P xs) (filter Q xs)" by simp
  with Cons.prems [of x] show ?case by auto
qed simp

lemma new_found_later:
  assumes "marked (fr_k s) (fr_k s')" "calculated (tab (fr_k s))" "new_found s' ms ns"
  shows "new_found s ms ns"
proof -
  note later = seen_later [OF marked_later [OF assms(1)] assms(2)]
  have "menus (fr_k s') = menus (fr_k s)" using marked_later [OF assms(1)] by (simp add: later_def)
  then have c: "entry_carried (fr_k s') = entry_carried (fr_k s)" by (intro ext) (simp add: entry_carried_def later(3))
  have "filter (\<lambda>m. named_new m s' \<and> \<not> entry_carried (fr_k s) m) ms = filter (\<lambda>m. named_new m s \<and> \<not> entry_carried (fr_k s) m) ms"
    using marked_new(2) [OF assms(1)] by (intro filter_cong) auto
  moreover have "subseq (filter (\<lambda>m. named_new m s' \<and> prompt_val (fr_k s) m \<noteq> T_no) ms)
      (filter (\<lambda>m. named_new m s \<and> prompt_val (fr_k s) m \<noteq> T_no) ms)"
    using marked_new(1) [OF assms(1)] by (intro filter_subseq) auto
  ultimately show ?thesis using assms(3) subseq_order.trans unfolding new_found_def later(2) c by metis
qed

lemma looked_append:
  assumes "calculated (tab (fr_k s))" "looked pre s ms ns s1" "looked pre s1 ms' ns' s2"
  shows "looked pre s (ms @ ms') (ns @ ns') s2"
proof -
  note a = lookedD [OF assms(2)] and b = lookedD [OF assms(3)]
  have "s2 = s\<lparr>fr_k := fr_k s2, fr_out := fr_out s @
       (if fr_mode s = listnewconfig then concat (map (new_line pre (fr_k s)) (ns @ ns')) else [])\<rparr>"
    by (subst b(4), subst a(4)) (simp add: a(2) new_line_later [OF a(5)], simp add: a(4) [THEN arg_cong [of _ _ fr_out]])
  moreover have "new_found s (ms @ ms') (ns @ ns')"
    using a(3) new_found_later [OF a(1) assms(1) b(3)] by (simp add: new_found_def list_emb_append_mono)
  ultimately show ?thesis using marked_trans [OF assms(1) a(1) b(1)] by (simp add: looked_def)
qed

lemma looked_nothing: "looked pre s [] [] s"
  by (simp add: looked_def new_found_def)

text \<open>One entry, with what is below it.\<close>

lemma check_one_entry:
  assumes k: "rooted (fr_k s) ts" "m = rootmenu \<or> m \<in> set (preorder ts)" "calculated (tab (fr_k s))"
    and mode: "fr_mode s \<in> {listnewconfig, olddefconfig}"
    and below: "\<And>s' :: front. marked (fr_k s) (fr_k s') \<Longrightarrow> fr_mode s' = fr_mode s \<Longrightarrow>
      \<exists>s'' ns. front_call pre (Checks (mn_list (here s m))) s' = Some (Inr s'') \<and> looked pre s' (shown_entries (fr_k s) ks) ns s''"
  shows "\<exists>s' ns. front_call pre (Check m) s = Some (Inr s') \<and>
    looked pre s (if seen (fr_k s) m then m # shown_entries (fr_k s) ks else []) ns s'"
proof -
  have t: "tree_ok (fr_k s) ts" "entry_ok (tab (fr_k s)) (here s m)" using k(1,2) by (auto simp: rooted_def tree_ok_def)
  obtain k1 where 1: "menu_is_visible m (fr_k s) = Some (seen (fr_k s) m, k1)" "marked (fr_k s) k1"
    "seen (fr_k s) m \<longrightarrow> prompt_val (fr_k s) m = T_no \<longrightarrow>
       (\<exists>r. mn_sym (here s m) = Some r \<and> SYMBOL_DEF_USER \<in> s_flags (syms (tab k1) r))"
    by (rule visible_seen [OF t(1) k(3,2) t(2)])
  have later1: "later (fr_k s) k1" by (rule marked_later [OF 1(2)])
  show ?thesis
  proof (cases "seen (fr_k s) m")
    case False
    then have "looked pre s [] [] (with_k k1 s)"
      using 1(2) by (simp add: looked_def with_k_def new_found_def)
    moreover have "front_call pre (Check m) s = Some (Inr (with_k k1 s))"
      using 1(1) False by (simp add: front_call.simps [of pre "Check m"])
    ultimately show ?thesis using False by auto
  next
    case True
    define s1 where "s1 = with_k k1 s"
    define s2 where "s2 = (if needs_answer m s1 \<and> fr_mode s = listnewconfig then list_new pre m s1 else s1)"
    have later2: "marked (fr_k s) (fr_k s2)" "fr_mode s2 = fr_mode s" "here s2 m = here s m"
      using 1(2) later1 by (auto simp: s2_def s1_def list_new_def print_def later_def split: option.split)
    obtain s3 ns where 3: "front_call pre (Checks (mn_list (here s m))) s2 = Some (Inr s3)"
      "looked pre s2 (shown_entries (fr_k s) ks) ns s3"
      using below [OF later2(1,2)] by blast
    have s1: "fr_mode s1 = fr_mode s" "here s1 m = here s m" "marked (fr_k s) (fr_k s1)" "later (fr_k s) (fr_k s1)"
      using 1(2) later1 by (simp_all add: s1_def later_def)
    have run: "front_call pre (Check m) s = Some (Inr s3)"
      using 1(1) True mode 3(1) later2(3)
        s1(1,2) by (subst front_call.simps) (auto simp: s1_def [symmetric] s2_def)
    note new = marked_new [OF s1(3), of m]
    have "\<exists>ns. looked pre s [m] ns s2"
    proof (cases "named_new m s1")
      case n: True
      then obtain q n where q: "mn_sym (here s1 m) = Some q" "s_name (symbol_of s1 q) = Some n"
        "\<not> sym_is_choice_value (symbol_of s1 q)" "needs_answer m s1"
        by (auto simp: named_new_iff)
      have "SYMBOL_DEF_USER \<notin> s_flags (symbol_of s1 q)" using q by (simp add: needs_answer_def sym_has_value_def)
      then have "prompt_val (fr_k s) m \<noteq> T_no" using 1(3) True q(1) s1(2) by (auto simp: s1_def)
      then have "new_found s [m] [m]" using new(1) [OF n] by (simp add: new_found_def)
      moreover have "new_line pre (fr_k s) m = pre @ n @ [nl]"
        using q(1,2) by (simp only: new_line_later [OF s1(4), symmetric]) (simp add: s1_def new_line_def)
      moreover have "s2 = (if fr_mode s = listnewconfig then print (pre @ n @ [nl]) s1 else s1)"
        using q by (simp add: s2_def list_new_def)
      ultimately have "looked pre s [m] [m] s2"
        using 1(2) by (simp add: looked_def s1_def with_k_def print_def)
      then show ?thesis by blast
    next
      case False
      then have "s2 = s1"
        by (auto simp: s2_def list_new_def named_new_iff split: option.split)
      moreover have "new_found s [m] []" using False new(2) by (auto simp: new_found_def)
      ultimately have "looked pre s [m] [] s2"
        using 1(2) by (simp add: looked_def s1_def with_k_def)
      then show ?thesis by blast
    qed
    then obtain ns1 where "looked pre s [m] ns1 s2" by blast
    with looked_append [OF k(3) this 3(2)] run True show ?thesis by auto
  qed
qed

lemma check_forest:
  "part (fr_k s) ts par p us \<Longrightarrow> rooted (fr_k s) ts \<Longrightarrow> calculated (tab (fr_k s)) \<Longrightarrow>
   fr_mode s \<in> {listnewconfig, olddefconfig} \<Longrightarrow>
   \<exists>s' ns. front_call pre (Checks p) s = Some (Inr s') \<and> looked pre s (shown_entries (fr_k s) us) ns s'"
proof (induction us arbitrary: s par p rule: preorder.induct)
  case 1
  then have "p = None" by (simp add: part_def)
  then show ?case using looked_nothing by (simp add: front_call.simps [of pre "Checks None"]) blast
next
  case (2 m ks us)
  note part = part_Cons [OF 2(3)]
  have moved: "part (fr_k s') ts q r vs \<and> rooted (fr_k s') ts \<and> calculated (tab (fr_k s')) \<and> shown_entries (fr_k s') = shown_entries (fr_k s)"
    if "later (fr_k s) (fr_k s')" "part (fr_k s) ts q r vs" for s' :: front and q r vs
    using part_later [OF that] rooted_later [OF that(1) 2(4)] later_calculated [OF that(1) 2(5)] shown_later [OF that(1) 2(5)] by simp
  obtain s1 ns1 where 1: "front_call pre (Check m) s = Some (Inr s1)"
    "looked pre s (if seen (fr_k s) m then m # shown_entries (fr_k s) ks else []) ns1 s1"
  proof -
    have "\<exists>s' ns. front_call pre (Check m) s = Some (Inr s') \<and>
        looked pre s (if seen (fr_k s) m then m # shown_entries (fr_k s) ks else []) ns s'"
    proof (rule check_one_entry [OF 2(4) _ 2(5,6)])
      fix s' :: front assume "marked (fr_k s) (fr_k s')" "fr_mode s' = fr_mode s"
      then show "\<exists>s'' ns. front_call pre (Checks (mn_list (here s m))) s' = Some (Inr s'') \<and>
          looked pre s' (shown_entries (fr_k s) ks) ns s''"
        using 2(1) [of s'] moved [OF marked_later part(3)] 2(6) by metis
    qed (use part(2) in simp)
    then show ?thesis using that by blast
  qed
  have l1: "later (fr_k s) (fr_k s1)" "fr_mode s1 = fr_mode s" using lookedD(2,5) [OF 1(2)] by simp_all
  then have n1: "here s1 m = here s m" by (simp add: later_def)
  obtain s2 ns2 where 2: "front_call pre (Checks (mn_next (here s m))) s1 = Some (Inr s2)"
    "looked pre s1 (shown_entries (fr_k s) us) ns2 s2"
    using 2(2) [of s1] moved [OF l1(1) part(4)] 2(6) l1(2) by metis
  have "front_call pre (Checks p) s = Some (Inr s2)"
    using 1(1) 2(1) n1 part(1) by (simp add: front_call.simps [of pre "Checks (Some m)"])
  with looked_append [OF \<open>calculated (tab (fr_k s))\<close> 1(2) 2(2)] show ?case by auto
qed

section \<open>Questions that never end\<close>

lemma print_simps [simp]:
  "fr_k (print t s) = fr_k s" "fr_in (print t s) = fr_in s" "fr_mode (print t s) = fr_mode s"
  "fr_line (print t s) = fr_line s" "fr_tty (print t s) = fr_tty s" "fr_valid (print t s) = fr_valid s"
  "fr_cnt (print t s) = fr_cnt s" "fr_indent (print t s) = fr_indent s"
  by (simp_all add: print_def)

lemma with_tab_simps [simp]:
  "fr_k (with_tab st s) = (fr_k s)\<lparr>tab := st\<rparr>" "fr_in (with_tab st s) = fr_in s" "fr_mode (with_tab st s) = fr_mode s"
  "fr_line (with_tab st s) = fr_line s" "fr_tty (with_tab st s) = fr_tty s" "fr_valid (with_tab st s) = fr_valid s"
  "fr_cnt (with_tab st s) = fr_cnt s" "fr_indent (with_tab st s) = fr_indent s"
  by (simp_all add: with_tab_def)

text \<open>A number at the end of the input, whose own value is no number.\<close>

definition no_number :: "nat \<Rightarrow> symref \<Rightarrow> front \<Rightarrow> bool" where
  "no_number m q s \<longleftrightarrow> mn_sym (here s m) = Some q \<and> fr_in s = [] \<and> fr_mode s = oldaskconfig \<and>
     sym_is_changable (symbol_of s q) \<and> s_type (symbol_of s q) \<in> {S_INT, S_HEX} \<and>
     \<not> sym_string_valid (s_type (symbol_of s q)) (sval_string (fst (s_curr (symbol_of s q))))"

lemma no_number_k: "no_number m q s \<Longrightarrow> fr_k t = fr_k s \<Longrightarrow> fr_in t = [] \<Longrightarrow> fr_mode t = oldaskconfig \<Longrightarrow> no_number m q t"
  by (simp add: no_number_def)

lemma no_number_value:
  assumes "no_number m q s" "fr_k t = fr_k s"
  shows "sym_get_string_value sym_calc_value q (tab (fr_k t)) = Some (sval_string (fst (s_curr (symbol_of s q))), tab (fr_k s))"
    and "sym_set_string_value q (sval_string (fst (s_curr (symbol_of s q)))) (tab (fr_k t)) = Some (False, tab (fr_k s))"
  using assms
  by (auto simp: no_number_def sym_get_string_value_def is_tri_def sym_set_string_value_def sym_string_within_range_def
      Let_def)

lemma read_answer_end:
  assumes "fr_in s = []"
  obtains u where "read_answer s = (True, u)" "fr_k u = fr_k s" "fr_in u = []" "fr_mode u = fr_mode s" "fr_line u = fr_line s"
    "fr_valid u = fr_valid s"
  by (rule that [of "snd (read_answer s)"]) (simp_all add: read_answer_def xfgets_def assms Let_def)

lemma no_number_answer:
  assumes "no_number m q s" "fr_k t = fr_k s" "fr_in t = []" "fr_mode t = oldaskconfig"
  obtains u where "conf_askvalue q def t = Inr (True, u)" "fr_k u = fr_k s" "fr_in u = []" "fr_mode u = oldaskconfig"
    "fr_line u = [nl]"
proof -
  let ?t = "(if \<not> sym_has_value (symbol_of s q) then print ''(NEW) '' t else t)\<lparr>fr_line := [nl]\<rparr>"
  have t: "fr_in ?t = []" "fr_k ?t = fr_k s" "fr_mode ?t = oldaskconfig" "fr_line ?t = [nl]" using assms(2-4) by simp_all
  obtain u where u: "read_answer ?t = (True, u)" "fr_k u = fr_k ?t" "fr_in u = []" "fr_mode u = fr_mode ?t" "fr_line u = fr_line ?t"
    by (rule read_answer_end [OF t(1)])
  have "conf_askvalue q def t = Inr (read_answer ?t)"
    using assms by (simp add: conf_askvalue_def no_number_def Let_def)
  then show ?thesis using u unfolding t by (intro that [of u]) simp_all
qed

text \<open>A choice none of whose members can be seen: an entry of its list that is seen has no symbol.\<close>

definition unseen :: "kconf \<Rightarrow> nat option \<Rightarrow> bool" where
  "unseen k p \<longleftrightarrow> calculated (tab k) \<and> (\<exists>ts par us. part k ts par p us) \<and>
     (\<forall>c \<in> siblings k p. seen k c \<longrightarrow> mn_sym (menus k c) = None)"

lemma unseen_later:
  assumes "later k k'" "unseen k p"
  shows "unseen k' p"
proof -
  have c: "calculated (tab k)" using assms(2) by (simp add: unseen_def)
  have m: "menus k' = menus k" using assms(1) by (simp add: later_def)
  then have "siblings k' p = siblings k p" by (simp add: siblings_def)
  moreover have "\<exists>ts par us. part k' ts par p us" using assms(2) part_later [OF assms(1)] unfolding unseen_def by blast
  ultimately show ?thesis
    using assms(2) later_calculated [OF assms(1) c] seen_later(1) [OF assms(1) c] m
    unfolding unseen_def by auto
qed

lemma unseen_first:
  assumes "unseen k (Some c)"
  obtains ts par ks us where "part k ts par (Some c) (MNode c ks # us)"
proof -
  obtain ts par us where "part k ts par (Some c) us" using assms by (auto simp: unseen_def)
  then show ?thesis using that by (cases us; cases "hd us") (auto simp: part_def)
qed

lemma unseen_next:
  assumes "unseen k (Some c)"
  shows "unseen k (mn_next (menus k c))"
proof -
  obtain ts par ks us where "part k ts par (Some c) (MNode c ks # us)" by (rule unseen_first [OF assms])
  then have "\<exists>ts par us. part k ts par (mn_next (menus k c)) us" using part_Cons(4) by blast
  then show ?thesis using assms by (auto simp: unseen_def siblings_Some)
qed

lemma unseenD:
  assumes "unseen k (Some c)" "menu_is_visible c k = Some (v, k2)"
  shows "later k k2 \<and> (v \<longrightarrow> mn_sym (menus k c) = None)"
proof -
  obtain ts par ks us where p: "part k ts par (Some c) (MNode c ks # us)" by (rule unseen_first [OF assms(1)])
  have t: "tree_ok k ts" "c \<in> set (preorder ts)" "entry_ok (tab k) (menus k c)"
    using p part_Cons(2) [OF p] by (auto simp: part_def tree_ok_def)
  have u: "calculated (tab k)" "seen k c \<longrightarrow> mn_sym (menus k c) = None"
    using assms(1) by (simp_all add: unseen_def siblings_Some)
  show ?thesis
    by (rule visible_seen [OF t(1) u(1) disjI2 [OF t(2)] t(3)]) (use assms(2) u(2) marked_later in auto)
qed

text \<open>Nothing but the state of the symbols and the output changes.\<close>

definition same_input :: "front \<Rightarrow> front \<Rightarrow> bool" where
  "same_input s s' \<longleftrightarrow> later (fr_k s) (fr_k s') \<and> fr_in s' = fr_in s \<and> fr_valid s' = fr_valid s \<and> fr_line s' = fr_line s \<and>
     fr_mode s' = fr_mode s"

lemma same_input_trans: "same_input a b \<Longrightarrow> same_input b c \<Longrightarrow> same_input a c"
  using later_trans by (auto simp: same_input_def)

lemma list_members_unseen:
  assumes "list_members def_sym p cnt def s = Some y" "unseen (fr_k s) p"
  shows "\<exists>s'. y = (cnt, def, s') \<and> same_input s s'"
  using assms(2)
proof (rule list_members.raw_induct [where P = "\<lambda>d p cnt def s y. unseen (fr_k s) p \<longrightarrow>
    (\<exists>s'. y = (cnt, def, s') \<and> same_input s s')", OF _ assms(1), rule_format, rotated], goal_cases)
  case (1 f d p cnt def s y)
  show ?case
  proof (cases p)
    case None
    with 1(2) show ?thesis by (auto simp: same_input_def)
  next
    case (Some c)
    obtain v k2 where v: "menu_is_visible c (fr_k s) = Some (v, k2)"
      using 1(2) Some by (auto simp: list_member_def split: bind_splits)
    have l: "later (fr_k s) k2" "v \<longrightarrow> mn_sym (menus (fr_k s) c) = None"
      using unseenD [OF _ v] 1(3) Some by simp_all
    obtain s1 where s1: "list_member d c cnt def s = Some (cnt, def, s1)" "same_input s s1"
      using v l by (cases v) (auto simp: list_member_def same_input_def later_def Let_def)
    have u: "unseen (fr_k s1) (mn_next (here s1 c))"
      using unseen_next unseen_later [of "fr_k s" "fr_k s1" "Some c"] 1(3) s1(2) Some by (simp add: same_input_def)
    have "f d (mn_next (here s1 c)) cnt def s1 = Some y" using 1(2) Some s1(1) by simp
    from 1(1) [OF this] u show ?thesis using same_input_trans [OF s1(2)] by blast
  qed
qed

lemma pick_child_unseen:
  assumes "pick_child p n s = Some y" "unseen (fr_k s) p"
  shows "fst y = None \<and> same_input s (snd y)"
  using assms(2)
proof (rule pick_child.raw_induct [where P = "\<lambda>p n s y. unseen (fr_k s) p \<longrightarrow> fst y = None \<and> same_input s (snd y)",
      OF _ assms(1), rule_format, rotated], goal_cases)
  case (1 f p n s y)
  show ?case
  proof (cases p)
    case None
    with 1(2) show ?thesis by (auto simp: same_input_def)
  next
    case (Some c)
    note u = unseen_next [OF 1(3) [unfolded Some]]
    show ?thesis
    proof (cases "mn_sym (here s c)")
      case None
      with 1(2) Some have "f (mn_next (here s c)) n s = Some y" by simp
      from 1(1) [OF this u] show ?thesis .
    next
      case sym: (Some q)
      obtain v k2 where v: "menu_is_visible c (fr_k s) = Some (v, k2)"
        using 1(2) Some sym by (auto split: bind_splits)
      have l: "later (fr_k s) k2" "\<not> v" using unseenD [OF _ v] 1(3) Some sym by auto
      have "f (mn_next (menus k2 c)) n (with_k k2 s) = Some y" using 1(2) Some sym v l(2) by simp
      moreover have "menus k2 = menus (fr_k s)" using l(1) by (simp add: later_def)
      ultimately have "fst y = None \<and> same_input (with_k k2 s) (snd y)"
        using 1(1) unseen_later [OF l(1) u] by simp
      then show ?thesis using same_input_trans [of s "with_k k2 s"] l(1) by (simp add: same_input_def)
    qed
  qed
qed


lemma fgets_split_append: "fst (fgets_split n t) @ snd (fgets_split n t) = t"
  by (induction n t rule: fgets_split.induct) (auto simp: split_beta)

lemma fgets_split_shorter:
  assumes "t \<noteq> []"
  shows "length (snd (fgets_split (Suc n) t)) < length t"
proof -
  have "fst (fgets_split (Suc n) t) \<noteq> []" using assms by (cases t) (simp_all add: split_beta)
  moreover have "length t = length (fst (fgets_split (Suc n) t)) + length (snd (fgets_split (Suc n) t))"
    unfolding length_append [symmetric] fgets_split_append ..
  ultimately show ?thesis by (cases "fst (fgets_split (Suc n) t)") simp_all
qed

lemma xfgets_simps [simp]:
  "fr_k (xfgets s) = fr_k s" "fr_mode (xfgets s) = fr_mode s" "fr_valid (xfgets s) = fr_valid s" "fr_tty (xfgets s) = fr_tty s"
  "fr_indent (xfgets s) = fr_indent s" "fr_cnt (xfgets s) = fr_cnt s"
  by (simp_all add: xfgets_def split_beta Let_def)

lemma xfgets_chars: "set (fr_in (xfgets s)) \<subseteq> set (fr_in s)" "set (fr_line (xfgets s)) \<subseteq> set (fr_line s) \<union> set (fr_in s)"
  using arg_cong [OF fgets_split_append [of 127 "fr_in s"], of set]
  by (auto simp: xfgets_def split_beta Let_def dest: set_takeWhileD)

lemma strip_chars: "set (strip t) \<subseteq> set t"
  by (auto simp: strip_def dest!: set_dropWhileD)

definition no_help :: "front \<Rightarrow> bool" where
  "no_help s \<longleftrightarrow> fr_valid s \<and> CHR ''?'' \<notin> set (fr_in s)"

lemma choice_number_asks:
  assumes "choice_number pre m is_new cnt def s = Some r" "no_help s" "fr_line s = []"
  shows "\<exists>n t. r = Inr (n, t) \<and> fr_k t = fr_k s \<and> no_help t"
proof -
  have line: "CHR ''?'' \<notin> set (strip (fr_line (xfgets s)))" and rest: "no_help (xfgets s)"
    using xfgets_chars [of s] strip_chars [of "fr_line (xfgets s)"] assms(2,3) by (auto simp: no_help_def)
  then have "c \<noteq> CHR ''?''" if "strip (fr_line (xfgets s)) = c # t" for c t using that by auto
  then show ?thesis
    using assms rest
    by (auto simp: choice_number_def Let_def check_stdin_def no_help_def split: if_splits list.splits)
qed

text \<open>A turn of the loop comes back to its start.\<close>

lemma choice_turn_unseen:
  assumes "choice_turn pre m is_new s = Some r" "unseen (fr_k s) (mn_list (here s m))" "no_help s"
  shows "\<exists>t. r = Inr (None, t) \<and> later (fr_k s) (fr_k t) \<and> no_help t"
proof -
  obtain q where q: "mn_sym (here s m) = Some q" using assms(1) by (auto simp: choice_turn_def split: bind_splits)
  let ?s = "(menu_line m s)\<lparr>fr_line := []\<rparr>"
  have s: "fr_k ?s = fr_k s" "fr_in ?s = fr_in s" "fr_valid ?s = fr_valid s" by (simp_all add: menu_line_def)
  obtain y where y: "list_members (sym_get_choice_value (symbol_of s q)) (mn_list (here s m)) 0 0 ?s = Some y"
    using assms(1) q s(1) by (auto simp: choice_turn_def Let_def menu_line_def split: bind_splits)
  obtain s1 where s1: "y = (0, 0, s1)" "same_input ?s s1"
    using list_members_unseen [OF y] assms(2) s(1) by auto
  define s2 where "s2 = print (''[1-'' @ dec_of_nat 0 @ (if menu_has_help (fr_k s1) m then ''?'' else []) @ '']: '')
    (print (pad s1 @ ''choice'') s1)"
  have s2: "later (fr_k s) (fr_k s2)" "no_help s2" "fr_line s2 = []"
    using s1(2) s assms(3) by (simp_all add: s2_def same_input_def no_help_def)
  have "go_on (choice_number pre m is_new 0 0 s2) (\<lambda>(number, s). case number of
          None \<Rightarrow> Some (Inr (None, s))
        | Some n \<Rightarrow> do {
            (child, s) \<leftarrow> pick_child (mn_list (here s m)) n s;
            case child of
              None \<Rightarrow> Some (Inr (None, s))
            | Some c \<Rightarrow>
                if fr_line s \<noteq> [] \<and> last (fr_line s) = CHR ''?''
                then map_option (\<lambda>s. Inr (None, s)) (print_help pre c s)
                else do {
                  chval \<leftarrow> mn_sym (here s c);
                  (_, st) \<leftarrow> sym_set_choice_value chval (tab (fr_k s));
                  Some (Inr (Some c, with_tab st s))
                }
          }) = Some r"
    using assms(1) q y s1(1) by (simp add: choice_turn_def Let_def menu_line_def s2_def)
  then obtain x where x: "choice_number pre m is_new 0 0 s2 = Some x" by (auto simp: go_on_def split: bind_splits)
  obtain n t where t: "x = Inr (n, t)" "fr_k t = fr_k s2" "no_help t"
    using choice_number_asks [OF x s2(2,3)] by blast
  show ?thesis
  proof (cases n)
    case None
    then show ?thesis using \<open>go_on _ _ = _\<close> x t s2(1) by auto
  next
    case (Some i)
    have ms: "here t m = here s m" using s2(1) t(2) by (simp add: later_def)
    obtain z where z: "pick_child (mn_list (here s m)) i t = Some z"
      using \<open>go_on _ _ = _\<close> x t(1) Some ms by (auto split: bind_splits)
    have "unseen (fr_k t) (mn_list (here s m))" using unseen_later [OF s2(1) assms(2)] t(2) by simp
    then have z': "fst z = None" "same_input t (snd z)" using pick_child_unseen [OF z] by simp_all
    then have "r = Inr (None, snd z)" using \<open>go_on _ _ = _\<close> x t(1) Some ms z by (cases z) auto
    moreover have "later (fr_k s) (fr_k (snd z))" "no_help (snd z)"
      using z'(2) t(2,3) later_trans [OF s2(1)] by (auto simp: same_input_def no_help_def)
    ultimately show ?thesis by blast
  qed
qed

section \<open>Properties\<close>

text \<open>
  C15: \<open>listnewconfig\<close> and \<open>olddefconfig\<close> look over the whole tree and ask nothing. In a state whose symbols are all
  calculated, as \<open>conf_read\<close> leaves them where no text or number is out of its range, \<open>check_conf\<close> ends, reads nothing,
  and changes nothing but the mark \<open>SYMBOL_DEF_USER\<close> of symbols that are seen for what is below them only.
  \<open>listnewconfig\<close> prints one line for each entry of a list \<open>ns\<close>. Where no symbol is seen so, these are exactly the entries, in the
  order of the tree, that are seen together with all entries above them and have a new symbol that has a name, needs an answer and is no member of a choice.
  Else each of \<open>ns\<close> is such an entry, seen for its own prompt, and each such entry whose symbol is not carried by what is below it is in \<open>ns\<close>.
\<close>

theorem new_symbols_listed:
  assumes "rooted (fr_k s) ts" "fr_mode s \<in> {listnewconfig, olddefconfig}" "calculated (tab (fr_k s))"
    and "shown = (if seen (fr_k s) rootmenu then rootmenu # shown_entries (fr_k s) ts else [])"
  shows "\<exists>s' ns. check_conf pre rootmenu s = Some (Inr s') \<and> marked (fr_k s) (fr_k s') \<and> fr_in s' = fr_in s \<and>
    fr_out s' = fr_out s @ (if fr_mode s = listnewconfig then concat (map (new_line pre (fr_k s)) ns) else []) \<and>
    ((\<forall>q. \<not> carried (fr_k s) q) \<longrightarrow> ns = filter (\<lambda>m. named_new m s) shown) \<and>
    subseq ns (filter (\<lambda>m. named_new m s \<and> prompt_val (fr_k s) m \<noteq> T_no) shown) \<and>
    subseq (filter (\<lambda>m. named_new m s \<and> \<not> entry_carried (fr_k s) m) shown) ns"
proof -
  have "\<exists>s' ns. front_call pre (Check rootmenu) s = Some (Inr s') \<and> looked pre s shown ns s'"
    unfolding assms(4)
  proof (rule check_one_entry [OF assms(1) _ assms(3,2)])
    fix s' :: front assume l: "marked (fr_k s) (fr_k s')" "fr_mode s' = fr_mode s"
    have k: "tree_ok (fr_k s) ts" using assms(1) by (simp add: rooted_def)
    note l' = marked_later [OF l(1)]
    have "part (fr_k s') ts (Some rootmenu) (mn_list (here s rootmenu)) ts"
      by (rule part_later [OF l' root_part [OF k]])
    then show "\<exists>s'' ns. front_call pre (Checks (mn_list (here s rootmenu))) s' = Some (Inr s'') \<and>
        looked pre s' (shown_entries (fr_k s) ts) ns s''"
      using check_forest rooted_later [OF l' assms(1)] later_calculated [OF l' assms(3)] assms(2) l(2)
        shown_later [OF l' assms(3)] by metis
  qed simp
  then obtain s' ns where 1: "check_conf pre rootmenu s = Some (Inr s')" "looked pre s shown ns s'"
    by (auto simp: check_conf_def)
  note l = lookedD [OF 1(2)]
  have "ns = filter (\<lambda>m. named_new m s) shown" if "\<forall>q. \<not> carried (fr_k s) q"
  proof (rule subseq_order.antisym)
    have "subseq ns (filter (\<lambda>m. named_new m s \<and> prompt_val (fr_k s) m \<noteq> T_no) shown)"
      using l(3) by (simp add: new_found_def)
    then show "subseq ns (filter (\<lambda>m. named_new m s) shown)"
      by (rule subseq_order.trans [OF _ filter_subseq]) simp
    show "subseq (filter (\<lambda>m. named_new m s) shown) ns"
      using l(3) that by (simp add: new_found_def entry_carried_def)
  qed
  moreover have "fr_in s' = fr_in s" "fr_out s' = fr_out s @ (if fr_mode s = listnewconfig then concat (map (new_line pre (fr_k s)) ns) else [])"
    by (subst l(4), simp)+
  ultimately show ?thesis using 1(1) l(1,3) unfolding new_found_def by blast
qed

definition list_front :: front where
  "list_front = \<lparr>fr_k = help_conf\<lparr>menus := (menus help_conf)(0 := (sample_menu ''top'')\<lparr>mn_list := Some 1\<rparr>)\<rparr>,
     fr_in = [], fr_out = [], fr_err = [], fr_line = [], fr_indent = 1, fr_mode = listnewconfig,
     fr_tty = True, fr_valid = True, fr_cnt = 0, fr_root = None\<rparr>"

lemma list_front_rooted: "rooted (fr_k list_front) [MNode 1 [MNode 2 []]]"
proof -
  have "tab (fr_k list_front) = tab help_conf" "forest (menus (fr_k list_front)) (Some rootmenu) (mn_list (here list_front rootmenu)) [MNode 1 [MNode 2 []]]"
    "entry_ok (tab help_conf) (here list_front m) \<longleftrightarrow> m = 0 \<or> entry_ok (tab help_conf) (menus help_conf m)" for m
    by (auto simp: list_front_def help_conf_def sample_menu_def blank_menu_def entry_ok_def opt_in_def sample_property_def)
  with help_conf_ok show ?thesis by (simp add: rooted_def tree_ok_def)
qed

text \<open>The symbol of the prompt in \<open>packages\<close> is new, and is listed.\<close>

lemma list_front_menus:
  "menus (fr_k list_front) 0 = (sample_menu ''top'')\<lparr>mn_list := Some 1\<rparr>"
  "menus (fr_k list_front) 1 = (sample_menu ''packages'')\<lparr>mn_parent := Some 0, mn_list := Some 2\<rparr>"
  "menus (fr_k list_front) 2 = blank_menu\<lparr>mn_parent := Some 1, mn_sym := Some (SymId 0), mn_prompt := Some (P_at 0)\<rparr>"
  "m \<notin> {0, 1, 2} \<Longrightarrow> menus (fr_k list_front) m = blank_menu" "vis_tri (tab (fr_k list_front)) = (\<lambda>r i. T_yes)"
  by (simp_all add: list_front_def help_conf_def)

lemma list_front_seen:
  "seen (fr_k list_front) m \<longleftrightarrow> m \<in> {0, 1, 2}" "\<not> carried (fr_k list_front) q"
proof -
  have own: "allowed (fr_k list_front) m \<and> prompt_val (fr_k list_front) m = T_yes" if "m \<in> {0, 1, 2}" for m
    using that list_front_menus(1-3,5)
    by (elim insertE; simp add: allowed_def prompt_val_def sample_menu_def sample_property_def blank_menu_def)
  have none: "\<not> allowed (fr_k list_front) m" if "m \<notin> {0, 1, 2}" for m
    by (simp add: allowed_def list_front_menus(4) [OF that] blank_menu_def)
  have allowed: "allowed (fr_k list_front) m" if "seen (fr_k list_front) m" for m
    by (rule seen.cases [OF that]) simp_all
  show s: "seen (fr_k list_front) m \<longleftrightarrow> m \<in> {0, 1, 2}" for m
  proof
    show "seen (fr_k list_front) m \<Longrightarrow> m \<in> {0, 1, 2}" using allowed none by blast
    show "m \<in> {0, 1, 2} \<Longrightarrow> seen (fr_k list_front) m" using own [of m] by (intro seen.own) simp_all
  qed
  show "\<not> carried (fr_k list_front) q"
  proof
    assume "carried (fr_k list_front) q"
    then obtain m where "seen (fr_k list_front) m" "prompt_val (fr_k list_front) m = T_no" by (auto simp: carried_def)
    with s [of m] own [of m] show False by simp
  qed
qed

theorem new_symbols_listed_witness:
  "\<exists>s'. check_conf ''CONFIG_'' rootmenu list_front = Some (Inr s') \<and> fr_out s' = ''CONFIG_A'' @ [nl]"
proof -
  let ?k = "fr_k list_front"
  have k: "tab ?k = tab help_conf" "fr_mode list_front = listnewconfig" "fr_out list_front = []" by (simp_all add: list_front_def)
  have m: "fr_mode list_front \<in> {listnewconfig, olddefconfig}" "calculated (tab ?k)" using k help_calculated by simp_all
  have n: "named_new 0 list_front = False" "named_new 1 list_front = False" "named_new 2 list_front"
    and l: "new_line ''CONFIG_'' ?k 2 = ''CONFIG_A'' @ [nl]"
    by (simp_all add: named_new_iff needs_answer_def new_line_def list_front_def help_conf_def sample_menu_def blank_menu_def
        help_symbol_def blank_symbol_def sym_has_value_def sym_is_changable_def sym_is_choice_value_def tri_order)
  obtain s' ns where "check_conf ''CONFIG_'' rootmenu list_front = Some (Inr s')"
    "fr_out s' = concat (map (new_line ''CONFIG_'' ?k) ns)" "ns = filter (\<lambda>m. named_new m list_front) [0, 1, 2]"
    using new_symbols_listed [OF list_front_rooted m refl, of "''CONFIG_''"] list_front_seen k by auto
  with n l show ?thesis by simp
qed


definition number_front :: front where
  "number_front = list_front\<lparr>fr_k := help_conf\<lparr>tab := upd_sym (SymId 0) (\<lambda>s. s\<lparr>s_type := S_INT, s_visible := T_yes\<rparr>) (tab help_conf)\<rparr>,
     fr_mode := oldaskconfig\<rparr>"



definition empty_choice :: front where
  "empty_choice = list_front\<lparr>fr_k := help_conf\<lparr>tab := (tab help_conf)\<lparr>vis_tri := (\<lambda>r i. T_no)\<rparr>\<rparr>, fr_mode := oldconfig\<rparr>"


end
