(* ===== verification/Kanswers.thy ===== *)
theory Kanswers
  imports Kasked
begin

text \<open>
  Questions end: for menus of boolean, tristate and string symbols that are no choices, \<open>conf\<close> comes to the
  end of the tree for every input, and the symbols stay well-formed.
\<close>

section \<open>Trees that can be asked about\<close>

definition plain_entry :: "mtree list \<Rightarrow> symtab \<Rightarrow> menu \<Rightarrow> bool" where
  "plain_entry ts st x \<longleftrightarrow> (\<forall>q. mn_sym x = Some q \<longrightarrow> ordinary (syms st q) \<and>
     s_type (syms st q) \<notin> {S_INT, S_HEX} \<and> symbol_placed ts (syms st q))"

definition askable :: "kconf \<Rightarrow> mtree list \<Rightarrow> bool" where
  "askable k ts \<longleftrightarrow> rooted k ts \<and> members_linked (tab k) \<and>
     (\<forall>m \<in> insert rootmenu (set (preorder ts)). plain_entry ts (tab k) (menus k m))"

text \<open>What a question leaves: the menus, the shape of the symbols, a rest of the input.\<close>

definition moved :: "front \<Rightarrow> front \<Rightarrow> bool" where
  "moved s s' \<longleftrightarrow> menus (fr_k s') = menus (fr_k s) \<and> frames (tab (fr_k s)) (tab (fr_k s')) \<and>
     suffix (fr_in s') (fr_in s) \<and> fr_mode s' = fr_mode s \<and> fr_valid s' = fr_valid s"

definition asks_well :: "front \<Rightarrow> (exited + front) option \<Rightarrow> bool" where
  "asks_well s m \<longleftrightarrow> gives m (\<lambda>r. case r of
       Inl (c, s') \<Rightarrow> c = 1 \<and> \<not> fr_valid s \<and> moved s s'
     | Inr s' \<Rightarrow> moved s s')"

lemma moved_refl [simp]: "moved s s"
  by (simp add: moved_def)

lemma moved_trans: "moved a b \<Longrightarrow> moved b c \<Longrightarrow> moved a c"
  unfolding moved_def using frames_trans suffix_order.order_trans by metis

lemma later_moved:
  "later (fr_k s) (fr_k s') \<Longrightarrow> fr_in s' = fr_in s \<Longrightarrow> fr_mode s' = fr_mode s \<Longrightarrow> fr_valid s' = fr_valid s \<Longrightarrow> moved s s'"
  using keeps_frames by (auto simp: moved_def later_def)

lemma frames_tree_ok:
  assumes "tree_ok k ts" "menus k' = menus k" "frames (tab k) (tab k')"
  shows "tree_ok k' ts"
  using assms frames_wf [OF assms(3)] entry_ok_frames [OF assms(3)]
  by (simp add: tree_ok_def)

lemma frames_rooted:
  assumes "rooted k ts" "menus k' = menus k" "frames (tab k) (tab k')"
  shows "rooted k' ts"
  using assms frames_wf [OF assms(3)] entry_ok_frames [OF assms(3)]
  by (simp add: rooted_def tree_ok_def)

lemma frames_askable:
  assumes "askable k ts" "menus k' = menus k" "frames (tab k) (tab k')"
  shows "askable k' ts"
proof -
  have "plain_entry ts (tab k') = plain_entry ts (tab k)"
    using same_frameD(1,2,5,6) [OF framesD(3) [OF assms(3)]]
    by (intro ext) (simp add: plain_entry_def ordinary_def symbol_placed_def)
  with assms frames_rooted [OF _ assms(2,3)] frames_linked [OF assms(3)] show ?thesis
    by (simp add: askable_def)
qed

lemma moved_askable: "moved s s' \<Longrightarrow> askable (fr_k s) ts \<Longrightarrow> askable (fr_k s') ts"
  using frames_askable by (simp add: moved_def)

lemma later_askable: "later k k' \<Longrightarrow> askable k ts \<Longrightarrow> askable k' ts"
  using frames_askable keeps_frames by (simp add: later_def)

lemma asks_well_Inr [simp]: "asks_well s (Some (Inr s')) \<longleftrightarrow> moved s s'"
  by (simp add: asks_well_def)

lemma asks_wellE:
  assumes "asks_well s m"
  obtains (exits) s' where "m = Some (Inl (1, s'))" "\<not> fr_valid s" "moved s s'"
    | (goes) s' where "m = Some (Inr s')" "moved s s'"
proof -
  obtain r where r: "m = Some r" "case r of Inl (c, s') \<Rightarrow> c = 1 \<and> \<not> fr_valid s \<and> moved s s' | Inr s' \<Rightarrow> moved s s'"
    using assms by (auto simp: asks_well_def gives_def)
  then show ?thesis
  proof (cases r)
    case (Inl e)
    with r show ?thesis by (cases e) (auto intro: exits)
  qed (auto intro: goes)
qed

lemma asks_well_from: "moved s s1 \<Longrightarrow> asks_well s1 m \<Longrightarrow> asks_well s m"
  by (erule asks_wellE) (auto simp: asks_well_def dest: moved_trans, auto simp: moved_def)

lemma asks_well_go:
  assumes "asks_well s m" "\<And>s'. moved s s' \<Longrightarrow> asks_well s' (f s')"
  shows "asks_well s (go_on m f)"
  using assms(1)
proof (cases rule: asks_wellE)
  case (exits s')
  then show ?thesis by (simp add: asks_well_def)
next
  case (goes s')
  with asks_well_from [OF goes(2) assms(2)] show ?thesis by simp
qed

section \<open>Help texts and lines\<close>

lemma print_help_ok:
  assumes "rooted (fr_k s) ts" "mn_sym (here s m) = Some q" "q \<in> refs (tab (fr_k s))" "symbol_placed ts (symbol_of s q)"
  obtains s' where "print_help pre m s = Some s'" "later (fr_k s) (fr_k s')" "fr_in s' = fr_in s" "fr_mode s' = fr_mode s"
    "fr_valid s' = fr_valid s"
proof -
  have k: "tree_ok (fr_k s) ts" using assms(1) by (simp add: rooted_def)
  have f0: "found False (fr_k s) ts [] (str_new, None, fr_k s)" by (simp add: found_def jumps_ok_def leads_def str_new_def)
  let ?intro = "if menu_has_help (fr_k s) m
       then do {
         q \<leftarrow> mn_sym (here s m);
         case s_name (symbol_of s q) of
           Some n \<Rightarrow> str_printf str_new (pre @ n @ '':'' @ [nl, nl])
         | None \<Rightarrow> Some str_new
       }
       else Some str_new"
  have "appends str_new ?intro" using assms(2) by (simp split: option.split)
  then obtain h1 where h1: "?intro = Some h1" "grows str_new h1" by (rule appendsE)
  obtain h2 where h2: "str_printf h1 ((if menu_has_help (fr_k s) m then menu_get_help (fr_k s) m else nohelp_text) @ [nl]) = Some h2"
    "grows h1 h2" using appendsE [OF str_printf_appends] .
  have "found False (fr_k s) ts [] (h2, None, fr_k s)"
    by (rule found_grows [OF f0 grows_trans [OF h1(2) h2(2)] later_refl])
  then have "gives (get_symbol_str q (h2, None, fr_k s)) (found False (fr_k s) ts ([] @ symbol_targets (fr_k s) q))"
    by (rule symbol_found [OF k _ assms(3,4)])
  then obtain h3 hd k' where 3: "get_symbol_str q (h2, None, fr_k s) = Some (h3, hd, k')" "later (fr_k s) k'"
    by (auto simp: gives_def found_def)
  have "menu_get_ext_help pre m (str_new, fr_k s) = Some (h3, k')"
    using h1(1) h2(1) 3(1) assms(2) unfolding menu_get_ext_help_def by simp
  then have "print_help pre m s = Some (print ([nl] @ str_get h3 @ [nl]) (with_k k' s))" by (simp add: print_help_def)
  then show ?thesis using that 3(2) by simp
qed

text \<open>What \<open>conf_askvalue\<close> gives: an exit, no need to ask, or a line.\<close>

definition line_of :: "cstring \<Rightarrow> cstring" where
  "line_of t = takeWhile (\<lambda>c. c \<noteq> CHR 0x00) (fst (fgets_split 127 t))"

lemma fgets_split_Nil [simp]: "fgets_split n [] = ([], [])"
  by (cases n) simp_all

lemma xfgets_line:
  "fr_in (xfgets s) = snd (fgets_split 127 (fr_in s))"
  "fr_line (xfgets s) = (if fr_in s = [] then fr_line s else line_of (fr_in s))"
  by (simp_all add: xfgets_def Let_def split_beta line_of_def)

lemma read_answer_line:
  obtains u where "read_answer s = (True, u)" "fr_k u = fr_k s" "fr_mode u = fr_mode s" "fr_valid u = fr_valid s"
    "fr_in u = snd (fgets_split 127 (fr_in s))" "fr_line u = (if fr_in s = [] then fr_line s else line_of (fr_in s))"
  by (rule that [of "snd (read_answer s)"]) (simp_all add: read_answer_def xfgets_line Let_def)

lemma askvalue_cases:
  obtains (exits) s' where "conf_askvalue q def s = Inl (1, s')" "\<not> fr_valid s" "fr_k s' = fr_k s" "fr_in s' = fr_in s"
      "fr_mode s' = fr_mode s" "fr_valid s' = fr_valid s"
    | (known) s' where "conf_askvalue q def s = Inr (False, s')" "fr_k s' = fr_k s" "fr_in s' = fr_in s"
      "fr_mode s' = fr_mode s" "fr_valid s' = fr_valid s"
    | (asked) s' where "conf_askvalue q def s = Inr (True, s')" "fr_k s' = fr_k s"
      "fr_mode s' = fr_mode s" "fr_valid s' = fr_valid s"
      "fr_in s' = fr_in s \<and> fr_line s' = [nl] \<or>
       fr_in s \<noteq> [] \<and> fr_in s' = snd (fgets_split 127 (fr_in s)) \<and> fr_line s' = line_of (fr_in s)"
proof -
  define s1 where "s1 = (if \<not> sym_has_value (symbol_of s q) then print ''(NEW) '' s else s)\<lparr>fr_line := [nl]\<rparr>"
  have s1: "fr_k s1 = fr_k s" "fr_in s1 = fr_in s" "fr_mode s1 = fr_mode s" "fr_valid s1 = fr_valid s" "fr_line s1 = [nl]"
    by (simp_all add: s1_def)
  obtain u where u: "read_answer s1 = (True, u)" "fr_k u = fr_k s1" "fr_mode u = fr_mode s1" "fr_valid u = fr_valid s1"
    "fr_in u = snd (fgets_split 127 (fr_in s1))" "fr_line u = (if fr_in s1 = [] then fr_line s1 else line_of (fr_in s1))"
    by (rule read_answer_line)
  have e: "conf_askvalue q def s = (
      if \<not> sym_is_changable (symbol_of s q) then Inr (False, (print (def @ [nl]) s1)\<lparr>fr_line := [nl]\<rparr>)
      else if fr_mode s \<in> {oldconfig, silentoldconfig}
      then if sym_has_value (symbol_of s q) then Inr (False, print (def @ [nl]) s1)
           else (case check_stdin s1 of Inl e \<Rightarrow> Inl e | Inr s \<Rightarrow> Inr (read_answer s))
      else if fr_mode s = oldaskconfig then Inr (read_answer s1)
      else if sym_get_type (tab (fr_k s)) q \<in> {S_INT, S_HEX, S_STRING} then Inr (True, print (def @ [nl]) s1)
      else Inr (True, print (fr_line s1) s1))"
    unfolding conf_askvalue_def Let_def s1_def [symmetric] s1(1,3) ..
  consider "\<not> sym_is_changable (symbol_of s q)"
    | "sym_is_changable (symbol_of s q)" "fr_mode s \<in> {oldconfig, silentoldconfig}" "sym_has_value (symbol_of s q)"
    | "sym_is_changable (symbol_of s q)" "fr_mode s \<in> {oldconfig, silentoldconfig}" "\<not> sym_has_value (symbol_of s q)" "\<not> fr_valid s"
    | "sym_is_changable (symbol_of s q)" "fr_mode s \<in> {oldconfig, silentoldconfig}" "\<not> sym_has_value (symbol_of s q)" "fr_valid s"
    | "sym_is_changable (symbol_of s q)" "fr_mode s = oldaskconfig"
    | "sym_is_changable (symbol_of s q)" "fr_mode s \<notin> {oldconfig, silentoldconfig, oldaskconfig}" by blast
  then show ?thesis
  proof cases
    case 1
    then show ?thesis using e s1 by (intro known [of "(print (def @ [nl]) s1)\<lparr>fr_line := [nl]\<rparr>"]) simp_all
  next
    case 2
    then show ?thesis using e s1 by (intro known [of "print (def @ [nl]) s1"]) simp_all
  next
    case 3
    obtain t where "check_stdin s1 = Inl (1, print t s1)" using 3 s1 by (simp add: check_stdin_def)
    with 3 show ?thesis using e s1 by (intro exits [of "print t s1"]) simp_all
  next
    case 4
    then have "check_stdin s1 = Inr s1" using s1 by (simp add: check_stdin_def)
    with 4 show ?thesis using e s1 u by (intro asked [of u]) auto
  next
    case 5
    then show ?thesis using e s1 u by (intro asked [of u]) auto
  next
    case 6
    then obtain t where "conf_askvalue q def s = Inr (True, print t s1)" using e by (simp split: if_splits)
    then show ?thesis using s1 by (intro asked [of "print t s1"]) simp_all
  qed
qed

lemma rest_suffix: "suffix (snd (fgets_split n t)) t"
  using fgets_split_append [of n t] by (metis suffixI)


section \<open>A question about a boolean or tristate symbol\<close>

lemma calc_gives_valid:
  assumes "wf_symtab st" "q \<in> refs st" "ordinary (syms st q)" "sym_calc_value q st = Some st'"
  shows "SYMBOL_VALID \<in> s_flags (syms st' q)"
proof (rule calc_fuel_valid [OF _ assms(2) assms(4) [unfolded sym_calc_value_def]])
  show "ready (calc_depth st) st" using assms(1) todo_bound [of st] by (simp add: ready_def)
  have "sym_ok st (syms st q)" using assms(1,2) by (simp add: wf_symtab_def)
  then show "SYMBOL_NEED_SET_CHOICE_VALUES \<in> s_flags (syms st q) \<longrightarrow> sym_is_choice_value (syms st q)"
    using assms(3) by (simp add: sym_ok_def ordinary_def)
qed

lemma below_goes:
  assumes "rooted k ts" "m = rootmenu \<or> m \<in> set (preorder ts)"
  shows "goes k (menu_search False (mn_list (menus k m)) k)"
proof -
  have k: "wf_symtab (tab k)" "forest (menus k) (Some rootmenu) (mn_list (menus k rootmenu)) ts"
    "\<forall>m \<in> set (preorder ts). entry_ok (tab k) (menus k m)"
    using assms(1) by (simp_all add: rooted_def tree_ok_def)
  show ?thesis
  proof (cases "m \<in> set (preorder ts)")
    case True
    then obtain ks where "forest (menus k) (Some m) (mn_list (menus k m)) ks" "set (preorder ks) \<subseteq> set (preorder ts)"
      using forest_below [OF k(2)] by blast
    with k show ?thesis by (intro menu_search_forest [where ts = ks]) auto
  next
    case False
    with assms(2) k show ?thesis by (auto intro: menu_search_forest)
  qed
qed

text \<open>The symbol of an entry that is visible was calculated.\<close>

lemma visible_valid:
  assumes k: "rooted k ts" "m = rootmenu \<or> m \<in> set (preorder ts)"
    and v: "menu_is_visible m k = Some (True, k')" and q: "mn_sym (menus k m) = Some q" "ordinary (syms (tab k) q)"
  shows "SYMBOL_VALID \<in> s_flags (syms (tab k') q)" "menu_prompt k' m \<noteq> None"
proof -
  have ent: "entry_ok (tab k) (menus k m)" and wf: "wf_symtab (tab k)"
    using k by (auto simp: rooted_def tree_ok_def)
  have q_in: "q \<in> refs (tab k)" using ent q(1) by (simp add: entry_ok_def)
  have later: "later k k'" using entry_visible [OF k] v by (metis Pair_inject option.inject)
  have p: "mn_prompt (menus k m) \<noteq> None"
    using v by (auto simp: menu_is_visible_def menu_search.simps [of True "Some m" k] split: if_splits)
  with later q(1) show "menu_prompt k' m \<noteq> None"
    by (auto simp: menu_prompt_def later_def split: option.split prompt.split)
  obtain k1 where 1: "visibility_no m k = Some (False, k1)" "menus k1 = menus k" "keeps (tab k) (tab k1)"
    using v p visibility_no_goes [OF wf ent]
    by (auto simp: menu_is_visible_def menu_search.simps [of True "Some m" k] goes_def gives_def split: if_splits)
  obtain st where st: "sym_calc_value q (tab k1) = Some st"
    using v p 1 q(1)
    by (auto simp: menu_is_visible_def menu_search.simps [of True "Some m" k] prompt_tri_def split: if_splits bind_splits)
  have q1: "q \<in> refs (tab k1)" "ordinary (syms (tab k1) q)" "wf_symtab (tab k1)"
    using q_in q(2) keeps_wf [OF 1(3) wf] framesD(2) [OF keeps_frames [OF 1(3)]]
      same_frameD(5,6) [OF framesD(3) [OF keeps_frames [OF 1(3)]]] by (simp_all add: ordinary_def)
  have valid: "SYMBOL_VALID \<in> s_flags (syms st q)" by (rule calc_gives_valid [OF q1(3,1,2) st])
  define k2 where "k2 = k1\<lparr>tab := st\<rparr>"
  obtain t where t: "prompt_tri m k1 = Some (t, k2)" using st 1(2) q(1) by (simp add: prompt_tri_def k2_def)
  have 2: "later k k2"
    by (rule calc_peeks [OF q1(3,1)]) (use 1(2) keeps_trans [OF 1(3)] st in \<open>auto simp: later_def k2_def\<close>)
  have e: "menu_search True (Some m) k = (if t \<noteq> T_no then Some (True, k2)
      else if sym_get_tristate_value (syms (tab k2) q) = T_no then Some (False, k2)
      else do {
        (v, k) \<leftarrow> menu_search False (mn_list (menus k2 m)) k2;
        if v then Some (True, upd_tab (set_flags q {SYMBOL_DEF_USER}) k) else Some (False, k)
      })"
  proof -
    obtain y where "mn_prompt (menus k m) = Some y" using p by blast
    then show ?thesis using 1(1) t q(1) 2 by (subst menu_search.simps) (simp add: later_def)
  qed
  show "SYMBOL_VALID \<in> s_flags (syms (tab k') q)"
  proof (cases "t \<noteq> T_no")
    case True
    with e v have "k' = k2" by (simp add: menu_is_visible_def)
    with valid show ?thesis by (simp add: k2_def)
  next
    case False
    obtain k3 where 3: "menu_search False (mn_list (menus k2 m)) k2 = Some (True, k3)"
      "k' = upd_tab (set_flags q {SYMBOL_DEF_USER}) k3"
      using e v False by (auto simp: menu_is_visible_def split: if_splits bind_splits)
    have "keeps (tab k2) (tab k3)"
      using below_goes [OF rooted_later [OF 2 k(1)] k(2)] 3(1) by (simp add: goes_def)
    from keepsD(2) [OF this, of q] valid 3(2) show ?thesis by (simp add: k2_def upd_tab_def set_flags_def upd_sym_def)
  qed
qed


text \<open>What \<open>conf_sym\<close> does in one turn, once its symbol is calculated.\<close>

definition ready_to_ask :: "mtree list \<Rightarrow> nat \<Rightarrow> symref \<Rightarrow> front \<Rightarrow> bool" where
  "ready_to_ask ts m q s \<longleftrightarrow> askable (fr_k s) ts \<and> (m = rootmenu \<or> m \<in> set (preorder ts)) \<and>
     mn_sym (here s m) = Some q \<and> menu_prompt (fr_k s) m \<noteq> None \<and> SYMBOL_VALID \<in> s_flags (symbol_of s q)"

lemma prompt_later:
  assumes "later k k'"
  shows "menu_prompt k' m = menu_prompt k m"
proof -
  have "s_props (syms (tab k') r) = s_props (syms (tab k) r)" for r
    using assms props_later by (simp add: later_def)
  then show ?thesis using assms by (simp add: menu_prompt_def later_def split: option.split prompt.split)
qed

lemma ready_later:
  assumes "ready_to_ask ts m q s" "later (fr_k s) (fr_k s')"
  shows "ready_to_ask ts m q s'" "sym_get_tristate_value (symbol_of s' q) = sym_get_tristate_value (symbol_of s q)"
  using assms later_askable [OF assms(2)] prompt_later [OF assms(2)]
    keepsD(2,3) [of "tab (fr_k s)" "tab (fr_k s')" q]
  by (auto simp: ready_to_ask_def later_def sym_get_tristate_value_def)

lemma ready_symbol:
  assumes "ready_to_ask ts m q s"
  shows "wf_symtab (tab (fr_k s))" "q \<in> refs (tab (fr_k s))" "members_linked (tab (fr_k s))" "rooted (fr_k s) ts"
    "symbol_placed ts (symbol_of s q)" "ordinary (symbol_of s q)" "s_type (symbol_of s q) \<notin> {S_INT, S_HEX}"
proof -
  have a: "askable (fr_k s) ts" "m = rootmenu \<or> m \<in> set (preorder ts)" "mn_sym (here s m) = Some q"
    using assms by (auto simp: ready_to_ask_def)
  then have r: "rooted (fr_k s) ts" and e: "entry_ok (tab (fr_k s)) (here s m)" and p: "plain_entry ts (tab (fr_k s)) (here s m)"
    by (auto simp: askable_def rooted_def tree_ok_def)
  show "wf_symtab (tab (fr_k s))" "members_linked (tab (fr_k s))" "rooted (fr_k s) ts"
    using a(1) by (simp_all add: askable_def rooted_def tree_ok_def)
  show "q \<in> refs (tab (fr_k s))" using e a(3) by (simp add: entry_ok_def)
  show "symbol_placed ts (symbol_of s q)" "ordinary (symbol_of s q)" "s_type (symbol_of s q) \<notin> {S_INT, S_HEX}"
    using p a(3) by (simp_all add: plain_entry_def)
qed

lemma help_again:
  assumes "ready_to_ask ts m q s"
  obtains s' where "print_help pre m s = Some s'" "ready_to_ask ts m q s'" "moved s s'" "fr_in s' = fr_in s"
proof -
  have "mn_sym (here s m) = Some q" using assms by (simp add: ready_to_ask_def)
  then obtain s' where "print_help pre m s = Some s'" "later (fr_k s) (fr_k s')" "fr_in s' = fr_in s" "fr_mode s' = fr_mode s"
    "fr_valid s' = fr_valid s"
    using print_help_ok ready_symbol(2,4,5) [OF assms] by metis
  then show ?thesis using that ready_later(1) [OF assms] later_moved by blast
qed

lemma conf_sym_ends:
  assumes "ready_to_ask ts m q s"
  shows "asks_well s (conf_sym pre m s)"
  using assms
proof (induction "length (fr_in s)" arbitrary: s rule: less_induct)
  case less
  note r = less.prems and sym = ready_symbol [OF less.prems]
  obtain p where p: "menu_prompt (fr_k s) m = Some p" and q: "mn_sym (here s m) = Some q"
    using r by (auto simp: ready_to_ask_def)
  obtain def st where st: "sym_get_string_value sym_calc_value q (tab (fr_k s)) = Some (def, st)" "keeps (tab (fr_k s)) st"
    by (rule peeksE [OF string_peeks [OF sym(1)]])
  define old where "old = sym_get_tristate_value (symbol_of s q)"
  define s1 where "s1 = with_tab st (print (sym_choices m q ((case s_name (symbol_of s q) of Some n \<Rightarrow> print (''('' @ n @ '') '')
      (print (pad s @ printed (p_text p) @ '' '') s) | None \<Rightarrow> print (pad s @ printed (p_text p) @ '' '') s)))
      (case s_name (symbol_of s q) of Some n \<Rightarrow> print (''('' @ n @ '') '')
      (print (pad s @ printed (p_text p) @ '' '') s) | None \<Rightarrow> print (pad s @ printed (p_text p) @ '' '') s))"
  have s1: "later (fr_k s) (fr_k s1)" "fr_in s1 = fr_in s" "fr_mode s1 = fr_mode s" "fr_valid s1 = fr_valid s"
    using st(2) by (simp_all add: s1_def later_def split: option.split)
  define react where "react = (\<lambda>s. case sym_answer old (fr_line s) of
                 Again \<Rightarrow> conf_sym pre m s
               | Help \<Rightarrow> do { s \<leftarrow> print_help pre m s; conf_sym pre m s }
               | Take newval \<Rightarrow> do {
                   (ok, st) \<leftarrow> sym_set_tristate_value q newval (tab (fr_k s));
                   if ok then Some (Inr (with_tab st s))
                   else do { s \<leftarrow> print_help pre m (with_tab st s); conf_sym pre m s }
                 })"
  define turn where "turn = (\<lambda>(look, s). if \<not> look then Some (Inr s) else react (s\<lparr>fr_line := strip (fr_line s)\<rparr>))"
  have step: "conf_sym pre m s = go_on (Some (conf_askvalue q def s1)) turn"
    using p q st(1) by (subst conf_sym.simps) (simp add: Let_def s1_def turn_def react_def old_def split: option.split cong: if_cong)
  note ready1 = ready_later [OF r s1(1)]
  show ?case
  proof (cases rule: askvalue_cases [of q def s1])
    case (exits s')
    then have "moved s s'" using s1 by (intro later_moved) simp_all
    with exits s1 show ?thesis by (simp add: step asks_well_def)
  next
    case (known s')
    then have "moved s s'" using s1 by (intro later_moved) simp_all
    with known show ?thesis by (simp add: step turn_def)
  next
    case (asked s')
    define s2 where "s2 = s'\<lparr>fr_line := strip (fr_line s')\<rparr>"
    have s2: "later (fr_k s) (fr_k s2)" "fr_mode s2 = fr_mode s" "fr_valid s2 = fr_valid s" "fr_k s2 = fr_k s1"
      using asked s1 by (simp_all add: s2_def)
    note ready2 = ready_later [OF r s2(1)] and sym2 = ready_symbol [OF ready_later(1) [OF r s2(1)]]
    have in2: "suffix (fr_in s2) (fr_in s)" using asked(5) s1(2) rest_suffix by (auto simp: s2_def)
    have m2: "moved s s2" using s2 keeps_frames in2 by (auto simp: moved_def later_def)
    have again: "asks_well s (conf_sym pre m t)" if "length (fr_in s2) < length (fr_in s)" "ready_to_ask ts m q t" "moved s2 t" "fr_in t = fr_in s2" for t
      using less.hyps [of t] that asks_well_from [OF moved_trans [OF m2 that(3)]] by simp
    define ok where "ok = (\<lambda>v. fst (the (sym_set_tristate_value q v (tab (fr_k s2)))))"
    define st2 where "st2 = (\<lambda>v. snd (the (sym_set_tristate_value q v (tab (fr_k s2)))))"
    have set: "sym_set_tristate_value q v (tab (fr_k s2)) = Some (ok v, st2 v)" "frames (tab (fr_k s2)) (st2 v)"
      "\<not> ok v \<longrightarrow> st2 v = tab (fr_k s2)" "sym_get_tristate_value (symbol_of s2 q) = v \<longrightarrow> ok v" for v
      using set_tristate_total [OF sym2(1,3,2), of v] by (auto simp: ok_def st2_def)
    have finish: "moved s (with_tab (st2 v) s2)" for v
      by (rule moved_trans [OF m2]) (use set(2) [of v] in \<open>simp add: moved_def\<close>)
    have run: "conf_sym pre m s = (case sym_answer old (fr_line s2) of
                 Again \<Rightarrow> conf_sym pre m s2
               | Help \<Rightarrow> do { s \<leftarrow> print_help pre m s2; conf_sym pre m s }
               | Take newval \<Rightarrow> if ok newval then Some (Inr (with_tab (st2 newval) s2))
                   else do { s \<leftarrow> print_help pre m (with_tab (st2 newval) s2); conf_sym pre m s })"
    proof -
      have "conf_sym pre m s = react s2" using asked(1) by (simp add: step turn_def s2_def)
      then show ?thesis using set(1) by (simp add: react_def split: answer.split)
    qed
    show ?thesis
    proof (cases "length (fr_in s2) < length (fr_in s)")
      case True
      obtain s3 where 3: "print_help pre m s2 = Some s3" "ready_to_ask ts m q s3" "moved s2 s3" "fr_in s3 = fr_in s2"
        by (rule help_again [OF ready2(1)])
      have no: "\<not> ok v \<Longrightarrow> with_tab (st2 v) s2 = s2" for v using set(3) [of v] by (simp add: with_tab_def with_k_def)
      show ?thesis
        unfolding run
        using again [OF True ready2(1)] again [OF True 3(2,3,4)] 3(1) finish no by (auto split: answer.split)
    next
      case False
      then have "fr_line s' = [nl]"
        using asked(5) s1(2) fgets_split_shorter [of "fr_in s" 126] by (auto simp: s2_def)
      then have "sym_answer old (fr_line s2) = Take old" by (simp add: s2_def strip_def sym_answer_def c_isspace_def byte_of_def)
      moreover have "ok old" using set(4) [of old] ready2(2) by (simp add: old_def)
      ultimately show ?thesis using finish by (simp add: run)
    qed
  qed
qed

section \<open>A question about a string\<close>

lemma set_string_total:
  assumes "wf_symtab st" "q \<in> refs st" "s_type (syms st q) = S_STRING" "ordinary (syms st q)"
  shows "\<exists>st'. sym_set_string_value q v st = Some (True, st') \<and> frames st st'"
proof -
  define st1 where "st1 = mark_user q st"
  define st2 where "st2 = set_user q (V_str v, snd (s_user (syms st1 q))) st1"
  have f1: "frames st st1" unfolding st1_def by (rule frames_mark_user)
  have t1: "s_type (syms st1 q) = S_STRING" "\<not> sym_is_choice (syms st1 q)"
    using assms(3,4) same_frameD(1,5) [OF framesD(3) [OF f1]] by (simp_all add: ordinary_def)
  have f2: "frames st st2" unfolding st2_def using t1(2) by (intro frames_trans [OF f1] frames_set_user) simp
  obtain st3 where 3: "sym_clear_all_valid st2 = Some st3" "frames st2 st3"
    using clear_all_valid_total [OF frames_wf [OF f2 assms(1)]] by blast
  have "sym_set_string_value q v st = Some (True, if fst (s_user (syms st1 q)) \<noteq> V_str v then st3 else st1)"
    using assms(3) t1(1) 3(1)
    by (simp add: sym_set_string_value_def sym_string_within_range_def is_tri_def Let_def st1_def [symmetric] st2_def [symmetric])
  with f1 frames_trans [OF f2 3(2)] show ?thesis by auto
qed

lemma fgets_split_first: "t \<noteq> [] \<Longrightarrow> \<exists>r. fst (fgets_split (Suc n) t) = hd t # r"
  by (cases t) (auto simp: split_beta)

lemma line_of_nonempty:
  assumes "t \<noteq> []" "CHR 0x00 \<notin> set t"
  shows "line_of t \<noteq> []"
proof -
  obtain r where "fst (fgets_split 127 t) = hd t # r" using fgets_split_first [OF assms(1), of 126] by auto
  moreover have "hd t \<noteq> CHR 0x00" using assms hd_in_set by metis
  ultimately show ?thesis by (simp add: line_of_def)
qed

lemma conf_string_ends:
  assumes "ready_to_ask ts m q s" "s_type (symbol_of s q) = S_STRING" "CHR 0x00 \<notin> set (fr_in s)"
  shows "asks_well s (conf_string pre m s)"
  using assms
proof (induction "length (fr_in s)" arbitrary: s rule: less_induct)
  case less
  note r = less.prems(1) and sym = ready_symbol [OF less.prems(1)]
  obtain p where p: "menu_prompt (fr_k s) m = Some p" and q: "mn_sym (here s m) = Some q"
    using r by (auto simp: ready_to_ask_def)
  define def where "def = sval_string (fst (s_curr (symbol_of s q)))"
  have st: "sym_get_string_value sym_calc_value q (tab (fr_k s)) = Some (def, tab (fr_k s))"
    using less.prems(2) by (simp add: sym_get_string_value_def is_tri_def def_def)
  define s1 where "s1 = print (''['' @ def @ ''] '') (with_tab (tab (fr_k s))
    (print (''('' @ printed (s_name (symbol_of s q)) @ '') '') (print (pad s @ printed (p_text p) @ '' '') s)))"
  have s1: "fr_k s1 = fr_k s" "fr_in s1 = fr_in s" "fr_mode s1 = fr_mode s" "fr_valid s1 = fr_valid s"
    by (simp_all add: s1_def)
  define react where "react = (\<lambda>s. do {
         (new, s) \<leftarrow> typed_value pre m def s;
         case new of
           None \<Rightarrow> conf_string pre m s
         | Some v \<Rightarrow> do {
             (ok, st) \<leftarrow> sym_set_string_value q v (tab (fr_k s));
             if ok then Some (Inr (with_tab st s)) else conf_string pre m (with_tab st s)
           }
       })"
  have step: "conf_string pre m s = go_on (Some (conf_askvalue q def s1)) (\<lambda>(look, s). if \<not> look then Some (Inr s) else react s)"
    using p q st by (subst conf_string.simps) (simp add: Let_def s1_def react_def cong: if_cong)
  show ?case
  proof (cases rule: askvalue_cases [of q def s1])
    case (exits s')
    then have "moved s s'" using s1 by (intro later_moved) simp_all
    with exits s1 show ?thesis by (simp add: step asks_well_def)
  next
    case (known s')
    then have "moved s s'" using s1 by (intro later_moved) simp_all
    with known show ?thesis by (simp add: step)
  next
    case (asked s2)
    have k2: "fr_k s2 = fr_k s" using asked(2) s1(1) by simp
    have in2: "suffix (fr_in s2) (fr_in s)" using asked(5) s1(2) rest_suffix by auto
    have m2: "moved s s2" using asked s1 in2 by (simp add: moved_def)
    have ready2: "ready_to_ask ts m q s2" using ready_later(1) [OF r] k2 by simp
    have run: "conf_string pre m s = react s2" using asked(1) by (simp add: step)
    have set: "asks_well s (react s2)" if "typed_value pre m def s2 = Some (Some v, s3)" "fr_k s3 = fr_k s" "moved s s3" for v s3
    proof -
      obtain st' where st': "sym_set_string_value q v (tab (fr_k s)) = Some (True, st')" "frames (tab (fr_k s)) st'"
        using set_string_total [OF sym(1,2) less.prems(2) sym(6)] by blast
      have "moved s3 (with_tab st' s3)" using st'(2) that(2) by (simp add: moved_def)
      with that st'(1) moved_trans show ?thesis by (simp add: react_def)
    qed
    have line: "fr_line s2 \<noteq> []" using asked(5) s1(2) line_of_nonempty less.prems(3) by auto
    then obtain c t where ct: "fr_line s2 = c # t" by (cases "fr_line s2") auto
    show ?thesis
    proof (cases "c = nl")
      case True
      then show ?thesis unfolding run by (intro set [of def s2]) (simp_all add: typed_value_def ct k2 m2)
    next
      case no: False
      then have shorter: "length (fr_in s2) < length (fr_in s)"
        using asked(5) s1(2) fgets_split_shorter [of "fr_in s" 126] ct by auto
      show ?thesis
      proof (cases "c = CHR ''?'' \<and> first_is nl t")
        case True
        obtain s3 where 3: "print_help pre m s2 = Some s3" "ready_to_ask ts m q s3" "moved s2 s3" "fr_in s3 = fr_in s2"
          by (rule help_again [OF ready2])
        have "s_type (symbol_of s3 q) = S_STRING"
          using same_frameD(1) [OF framesD(3), of "tab (fr_k s)" "tab (fr_k s3)" q] 3(3) less.prems(2) k2 by (simp add: moved_def)
        moreover have "CHR 0x00 \<notin> set (fr_in s3)" using less.prems(3) in2 3(4) set_mono_suffix by fastforce
        ultimately have "asks_well s3 (conf_string pre m s3)" using less.hyps [of s3] 3(2,4) shorter by simp
        then have "asks_well s (conf_string pre m s3)" by (rule asks_well_from [OF moved_trans [OF m2 3(3)]])
        then show ?thesis using True no 3(1) by (simp add: run react_def typed_value_def ct)
      next
        case False
        show ?thesis
          unfolding run
          by (rule set [of "butlast (c # t)" "s2\<lparr>fr_line := butlast (c # t)\<rparr>"])
            (use False no m2 k2 in \<open>simp_all add: typed_value_def ct moved_def\<close>)
      qed
    qed
  qed
qed


section \<open>The whole tree\<close>

lemma title_simps [simp]:
  "fr_k (title m s) = fr_k s" "fr_in (title m s) = fr_in s" "fr_mode (title m s) = fr_mode s" "fr_valid (title m s) = fr_valid s"
  by (simp_all add: title_def split: option.split)

lemma indent_simps [simp]:
  "fr_k (indent_by d s) = fr_k s" "fr_in (indent_by d s) = fr_in s" "fr_mode (indent_by d s) = fr_mode s" "fr_valid (indent_by d s) = fr_valid s"
  "fr_k (unindent d s) = fr_k s" "fr_in (unindent d s) = fr_in s" "fr_mode (unindent d s) = fr_mode s" "fr_valid (unindent d s) = fr_valid s"
  by (simp_all add: indent_by_def unindent_def)

lemma moved_same: "fr_k s' = fr_k s \<Longrightarrow> fr_in s' = fr_in s \<Longrightarrow> fr_mode s' = fr_mode s \<Longrightarrow> fr_valid s' = fr_valid s \<Longrightarrow> moved s s'"
  by (simp add: moved_def)

text \<open>The states in which a tree is asked about.\<close>

definition asking :: "mtree list \<Rightarrow> front \<Rightarrow> bool" where
  "asking ts s \<longleftrightarrow> askable (fr_k s) ts \<and> fr_mode s \<in> {oldaskconfig, oldconfig} \<and> CHR 0x00 \<notin> set (fr_in s)"

lemma moved_asking: "moved s s' \<Longrightarrow> asking ts s \<Longrightarrow> asking ts s'"
  using moved_askable set_mono_suffix by (fastforce simp: asking_def moved_def)

lemma conf_entry:
  assumes a: "asking ts s" and m: "m = rootmenu \<or> m \<in> set (preorder ts)"
    and below: "\<And>s'. moved s s' \<Longrightarrow> asks_well s' (front_call pre (Confs 0 (mn_list (here s m))) s')"
  shows "asks_well s (front_call pre (Conf m) s)"
proof -
  have rooted: "rooted (fr_k s) ts" using a by (simp add: asking_def askable_def)
  obtain v k1 where 1: "menu_is_visible m (fr_k s) = Some (v, k1)" "later (fr_k s) k1"
    by (rule entry_visible [OF rooted m])
  define s1 where "s1 = with_k k1 s"
  have s1: "moved s s1" "here s1 m = here s m" using 1(2) by (auto intro: later_moved simp: s1_def later_def)
  have mode: "\<not> looked_over m s1" using a by (auto simp: looked_over_def s1_def asking_def)
  define s2 where "s2 = title m s1"
  have s2: "moved s s2" "here s2 m = here s m" "fr_k s2 = k1"
    using moved_trans [OF s1(1) moved_same [of s2 s1]] s1(2) by (simp_all add: s2_def s1_def)
  have children: "asks_well s' (front_call pre (Confs 0 (mn_list (here s' m))) s')" if "moved s s'" for s'
    using below [OF that] that by (simp add: moved_def)
  show ?thesis
  proof (cases v)
    case False
    with 1(1) s1(1) show ?thesis by (simp add: front_call.simps [of pre "Conf m"] s1_def)
  next
    case True
    have start: "front_call pre (Conf m) s = (case mn_sym (here s m) of
              None \<Rightarrow> front_call pre (Confs 0 (mn_list (here s2 m))) s2
            | Some q \<Rightarrow>
                  go_on (if s_type (symbol_of s2 q) \<in> {S_INT, S_HEX, S_STRING}
                         then conf_string pre m s2 else conf_sym pre m s2) (\<lambda>s.
                    go_on (front_call pre (Confs 0 (mn_list (here s m))) (indent_by 2 s)) (\<lambda>s.
                      Some (Inr (unindent 2 s)))))" if "\<And>q. mn_sym (here s m) = Some q \<Longrightarrow> \<not> sym_is_choice (symbol_of s2 q)"
      using 1(1) True mode s2(2) that
      by (subst front_call.simps) (simp add: s1_def [symmetric] s2_def [symmetric] Let_def split: option.split)
    show ?thesis
    proof (cases "mn_sym (here s m)")
      case None
      with start asks_well_from [OF s2(1) children [OF s2(1)]] show ?thesis by simp
    next
      case (Some q)
      have plain: "plain_entry ts (tab (fr_k s)) (here s m)" using a m by (auto simp: asking_def askable_def)
      then have ord: "ordinary (symbol_of s q)" using Some by (simp add: plain_entry_def)
      have "SYMBOL_VALID \<in> s_flags (syms (tab k1) q)" "menu_prompt k1 m \<noteq> None"
        using visible_valid [OF rooted m _ Some ord] 1(1) True by simp_all
      then have ready: "ready_to_ask ts m q s2"
        using moved_asking [OF s2(1) a] m Some s2(2,3) by (simp add: ready_to_ask_def asking_def)
      note sym = ready_symbol [OF ready]
      have "asks_well s2 (if s_type (symbol_of s2 q) \<in> {S_INT, S_HEX, S_STRING} then conf_string pre m s2 else conf_sym pre m s2)"
        using conf_sym_ends [OF ready] conf_string_ends [OF ready] sym(7) moved_asking [OF s2(1) a]
        by (auto simp: asking_def)
      then have "asks_well s (if s_type (symbol_of s2 q) \<in> {S_INT, S_HEX, S_STRING} then conf_string pre m s2 else conf_sym pre m s2)"
        by (rule asks_well_from [OF s2(1)])
      moreover have "asks_well s' (go_on (front_call pre (Confs 0 (mn_list (here s' m))) (indent_by 2 s')) (\<lambda>s. Some (Inr (unindent 2 s))))"
        if "moved s s'" for s'
      proof (rule asks_well_go)
        have i: "moved s' (indent_by 2 s')" by (rule moved_same) simp_all
        have "asks_well (indent_by 2 s') (front_call pre (Confs 0 (mn_list (here s' m))) (indent_by 2 s'))"
          using children [OF moved_trans [OF that i]] by simp
        then show "asks_well s' (front_call pre (Confs 0 (mn_list (here s' m))) (indent_by 2 s'))"
          by (rule asks_well_from [OF i])
      qed (simp add: moved_same)
      ultimately have "asks_well s (go_on (if s_type (symbol_of s2 q) \<in> {S_INT, S_HEX, S_STRING} then conf_string pre m s2 else conf_sym pre m s2)
          (\<lambda>s'. go_on (front_call pre (Confs 0 (mn_list (here s' m))) (indent_by 2 s')) (\<lambda>s. Some (Inr (unindent 2 s)))))"
        by (rule asks_well_go)
      with start Some sym(6) show ?thesis by (simp add: ordinary_def)
    qed
  qed
qed


lemma conf_forest:
  "asking ts s \<Longrightarrow> part (fr_k s) ts par p us \<Longrightarrow> asks_well s (front_call pre (Confs 0 p) s)"
proof (induction us arbitrary: s par p rule: preorder.induct)
  case 1
  then have "p = None" by (simp add: part_def)
  then show ?case by (simp add: front_call.simps [of pre "Confs 0 None"])
next
  case (2 m ks us)
  note part = part_Cons [OF 2(4)]
  have part_moved: "part (fr_k s') ts q r vs" if "moved s s'" "part (fr_k s) ts q r vs" for s' :: front and q r vs
    using that by (auto simp: part_def moved_def intro: frames_tree_ok)
  have "asks_well s (front_call pre (Conf m) s)"
  proof (rule conf_entry [OF 2(3)])
    show "m = rootmenu \<or> m \<in> set (preorder ts)" using part(2) by simp
    fix s' assume "moved s s'"
    then show "asks_well s' (front_call pre (Confs 0 (mn_list (here s m))) s')"
      using 2(1) moved_asking [OF _ 2(3)] part_moved [OF _ part(3)] by blast
  qed
  moreover have "indent_by 0 s = s" "\<And>s. unindent 0 s = s" by (simp_all add: indent_by_def unindent_def)
  moreover have "asks_well s' (front_call pre (Confs 0 (mn_next (here s' m))) s')" if "moved s s'" for s'
    using 2(2) moved_asking [OF that 2(3)] part_moved [OF that part(4)] that by (simp add: moved_def)
  ultimately show ?case
    using part(1) asks_well_go by (simp add: front_call.simps [of pre "Confs 0 (Some m)"])
qed

lemma conf_any:
  assumes "asking ts s" "m = rootmenu \<or> m \<in> set (preorder ts)"
  shows "asks_well s (front_call pre (Conf m) s)"
proof -
  have r: "rooted (fr_k s) ts" using assms(1) by (simp add: asking_def askable_def)
  then have k: "tree_ok (fr_k s) ts" by (simp add: rooted_def)
  obtain ks where ks: "part (fr_k s) ts (Some m) (mn_list (here s m)) ks" by (rule below_part [OF k assms(2)])
  show ?thesis
  proof (rule conf_entry [OF assms])
    fix s' assume m: "moved s s'"
    have "part (fr_k s') ts (Some m) (mn_list (here s m)) ks"
      using ks m by (auto simp: part_def moved_def intro: frames_tree_ok)
    then show "asks_well s' (front_call pre (Confs 0 (mn_list (here s m))) s')"
      by (rule conf_forest [OF moved_asking [OF m assms(1)]])
  qed
qed

lemma forest_upwards:
  "forest ms (Some q) p us \<Longrightarrow> m \<in> set (preorder us) \<Longrightarrow> (m, q) \<in> {(m, p). mn_parent (ms m) = Some p}\<^sup>*"
proof (induction us arbitrary: q p rule: preorder.induct)
  case (2 n ks ts)
  then have n: "mn_parent (ms n) = Some q" "forest ms (Some n) (mn_list (ms n)) ks" "forest ms (Some q) (mn_next (ms n)) ts"
    by auto
  then have step: "(n, q) \<in> {(m, p). mn_parent (ms m) = Some p}" by simp
  consider "m = n" | "m \<in> set (preorder ks)" | "m \<in> set (preorder ts)" using 2(4) by auto
  then show ?case
  proof cases
    case 1
    with step show ?thesis by blast
  next
    case 2
    then have "(m, n) \<in> {(m, p). mn_parent (ms m) = Some p}\<^sup>*" using "2.IH"(1) n(2) by blast
    then show ?thesis using step by (rule rtrancl_into_rtrancl)
  next
    case 3
    then show ?thesis using "2.IH"(2) n(3) by blast
  qed
qed simp

lemma parent_menu_ok:
  assumes "rooted k ts" "m = rootmenu \<or> m \<in> set (preorder ts)"
  shows "\<exists>r. menu_get_parent_menu k m = Some r \<and> (r = rootmenu \<or> r \<in> set (preorder ts))"
proof -
  have f: "forest (menus k) (Some rootmenu) (mn_list (menus k rootmenu)) ts"
    using assms(1) by (simp add: rooted_def tree_ok_def)
  have root: "menu_get_parent_menu k rootmenu = Some rootmenu" by (subst menu_get_parent_menu.simps) simp
  have "(m, rootmenu) \<in> {(m, p). mn_parent (menus k m) = Some p}\<^sup>*"
    using forest_upwards [OF f, of m] assms(2) by auto
  then show ?thesis
    using assms(2)
  proof (induction rule: converse_rtrancl_induct)
    case (step y z)
    then have y: "mn_parent (menus k y) = Some z" by simp
    show ?case
    proof (cases "y = rootmenu")
      case False
      then have "y \<in> set (preorder ts)" using step.prems by simp
      then have "z = rootmenu \<or> z \<in> set (preorder ts)" using forest_parent [OF f, of y] y by auto
      with step.IH False step.prems y show ?thesis by (subst menu_get_parent_menu.simps) simp
    qed (use root in simp)
  qed (use root in simp)
qed

lemma check_entry:
  assumes a: "asking ts s" and m: "m = rootmenu \<or> m \<in> set (preorder ts)" and mode: "fr_mode s = oldconfig"
    and below: "\<And>s'. moved s s' \<Longrightarrow> asks_well s' (front_call pre (Checks (mn_list (here s m))) s')"
  shows "asks_well s (front_call pre (Check m) s)"
proof -
  have rooted: "rooted (fr_k s) ts" using a by (simp add: asking_def askable_def)
  obtain v k1 where 1: "menu_is_visible m (fr_k s) = Some (v, k1)" "later (fr_k s) k1"
    by (rule entry_visible [OF rooted m])
  define s1 where "s1 = with_k k1 s"
  have s1: "moved s s1" "here s1 m = here s m" using 1(2) by (auto intro: later_moved simp: s1_def later_def)
  show ?thesis
  proof (cases v)
    case False
    with 1(1) s1(1) show ?thesis by (simp add: front_call.simps [of pre "Check m"] s1_def)
  next
    case True
    obtain root where root: "menu_get_parent_menu k1 m = Some root" "root = rootmenu \<or> root \<in> set (preorder ts)"
      using parent_menu_ok [OF rooted_later [OF 1(2) rooted] m] by blast
    define s2 where "s2 = (if fr_cnt s = 0 then print (''*'' @ [nl] @ ''* Restart config...'' @ [nl] @ ''*'' @ [nl]) s1 else s1)"
    have cnt: "fr_cnt s1 = fr_cnt s" "fr_mode s1 = oldconfig" "fr_k s1 = k1" using mode by (simp_all add: s1_def)
    define s3 where "s3 = s2\<lparr>fr_cnt := Suc (fr_cnt s2), fr_root := Some root\<rparr>"
    have k2: "fr_k s2 = k1" by (simp add: s2_def s1_def)
    have s3: "moved s s3" using moved_trans [OF s1(1) moved_same [of s3 s1]] by (simp add: s3_def s2_def)
    define first where "first = (if needs_answer m s1 then front_call pre (Conf root) s3 else Some (Inr s1))"
    have start: "front_call pre (Check m) s = go_on first (\<lambda>s. front_call pre (Checks (mn_list (here s m))) s)"
    proof (cases "needs_answer m s1")
      case n: True
      have "front_call pre (Check m) s = go_on (front_call pre (Conf root) s3) (\<lambda>s. front_call pre (Checks (mn_list (here s m))) s)"
        by (subst front_call.simps)
          (simp only: call.simps 1(1) bind.bind_lunit prod.case s1_def [symmetric] Let_def True n not_True_eq_False if_False if_True
            cnt input_mode.distinct root(1) s2_def [symmetric] s3_def [symmetric] k2)
      with n show ?thesis by (simp add: first_def)
    next
      case n: False
      then show ?thesis using 1(1) True
        by (subst front_call.simps) (simp add: s1_def [symmetric] first_def Let_def)
    qed
    have "asks_well s first"
      using asks_well_from [OF s3 conf_any [OF moved_asking [OF s3 a] root(2)]] s1(1) by (simp add: first_def)
    moreover have "asks_well s' (front_call pre (Checks (mn_list (here s' m))) s')" if "moved s s'" for s'
      using below [OF that] that by (simp add: moved_def)
    ultimately show ?thesis unfolding start by (rule asks_well_go)
  qed
qed

lemma checks_end:
  "asking ts s \<Longrightarrow> fr_mode s = oldconfig \<Longrightarrow> part (fr_k s) ts par p us \<Longrightarrow> asks_well s (front_call pre (Checks p) s)"
proof (induction us arbitrary: s par p rule: preorder.induct)
  case 1
  then have "p = None" by (simp add: part_def)
  then show ?case by (simp add: front_call.simps [of pre "Checks None"])
next
  case (2 m ks us)
  note part = part_Cons [OF 2(5)]
  have moves: "asking ts s'" "fr_mode s' = oldconfig" "part (fr_k s) ts q r vs \<Longrightarrow> part (fr_k s') ts q r vs"
    if "moved s s'" for s' :: front and q r vs
    using moved_asking [OF that 2(3)] that 2(4) by (auto simp: part_def moved_def intro: frames_tree_ok)
  have "asks_well s (front_call pre (Check m) s)"
  proof (rule check_entry [OF 2(3) _ 2(4)])
    show "m = rootmenu \<or> m \<in> set (preorder ts)" using part(2) by simp
    fix s' assume "moved s s'"
    then show "asks_well s' (front_call pre (Checks (mn_list (here s m))) s')"
      using 2(1) moves part(3) by blast
  qed
  moreover have "asks_well s' (front_call pre (Checks (mn_next (here s' m))) s')" if "moved s s'" for s'
  proof -
    have "here s' m = here s m" using that by (simp add: moved_def)
    then show ?thesis using 2(2) [OF moves(1,2) [OF that] moves(3) [OF that part(4)]] by simp
  qed
  ultimately show ?case
    using part(1) asks_well_go by (simp add: front_call.simps [of pre "Checks (Some m)"])
qed

section \<open>Properties\<close>

text \<open>
  C14: asking about a whole tree ends for every input without a NUL, in the modes of \<open>make config\<close> and \<open>make
  oldconfig\<close>, where its symbols are boolean, tristate or strings and no choices, also when the input ends too
  early; so does \<open>check_conf\<close>, which starts such questions for new symbols. They come back, with the same
  menus, a well-formed table of the same symbols, and what was not read of the input; or they exit with 1,
  which happens only where the input may not be read.
\<close>

theorem questions_end:
  assumes "asking ts s"
  shows "asks_well s (conf pre rootmenu s) \<and> (fr_mode s = oldconfig \<longrightarrow> asks_well s (check_conf pre rootmenu s)) \<and>
    (\<forall>s'. moved s s' \<longrightarrow> wf_symtab (tab (fr_k s')))"
proof (intro conjI allI impI)
  have r: "rooted (fr_k s) ts" using assms by (simp add: asking_def askable_def)
  show "asks_well s (conf pre rootmenu s)" unfolding conf_def by (rule conf_any [OF assms]) simp
  show "asks_well s (check_conf pre rootmenu s)" if "fr_mode s = oldconfig"
    unfolding check_conf_def
  proof (rule check_entry [OF assms _ that])
    fix s' assume m: "moved s s'"
    have "part (fr_k s') ts (Some rootmenu) (mn_list (here s rootmenu)) ts"
      using root_part [of "fr_k s'" ts] frames_rooted [OF r, of "fr_k s'"] m by (simp add: moved_def rooted_def)
    then show "asks_well s' (front_call pre (Checks (mn_list (here s rootmenu))) s')"
      using checks_end moved_asking [OF m assms] m that by (simp add: moved_def)
  qed simp
  show "wf_symtab (tab (fr_k s'))" if "moved s s'" for s'
    using that r by (auto simp: moved_def rooted_def tree_ok_def intro: frames_wf)
qed

text \<open>A tree with one boolean symbol, and input that is no answer before one that is.\<close>

definition ask_front :: front where
  "ask_front = \<lparr>fr_k = help_conf\<lparr>menus := (menus help_conf)(0 := (sample_menu ''top'')\<lparr>mn_list := Some 1\<rparr>)\<rparr>,
     fr_in = ''what?'' @ [nl] @ ''y'' @ [nl], fr_out = [], fr_err = [], fr_line = [], fr_indent = 1, fr_mode = oldaskconfig,
     fr_tty = True, fr_valid = True, fr_cnt = 0, fr_root = None\<rparr>"

lemma ask_front_asking: "asking [MNode 1 [MNode 2 []]] ask_front"
proof -
  have k: "tab (fr_k ask_front) = tab help_conf" "forest (menus (fr_k ask_front)) (Some rootmenu) (mn_list (here ask_front rootmenu)) [MNode 1 [MNode 2 []]]"
    "entry_ok (tab help_conf) (here ask_front m) \<longleftrightarrow> m = 0 \<or> entry_ok (tab help_conf) (menus help_conf m)" for m
    by (auto simp: ask_front_def help_conf_def sample_menu_def blank_menu_def entry_ok_def opt_in_def sample_property_def)
  have m: "members_linked (tab help_conf)"
    by (auto simp: members_linked_def refs_def help_conf_def help_symbol_def blank_symbol_def sym_is_choice_value_def
        symbol_yes_def symbol_mod_def symbol_no_def symbol_empty_def)
  have p: "plain_entry [MNode 1 [MNode 2 []]] (tab help_conf) (here ask_front m)" for m
    by (simp add: plain_entry_def ask_front_def help_conf_def sample_menu_def blank_menu_def ordinary_def help_symbol_def
        blank_symbol_def sym_is_choice_def sym_is_choice_value_def symbol_placed_def placed_def)
  have "rooted (fr_k ask_front) [MNode 1 [MNode 2 []]]"
    using help_conf_ok k by (simp add: rooted_def tree_ok_def)
  then show ?thesis using m p k(1) by (simp add: asking_def askable_def) (simp add: ask_front_def)
qed

theorem questions_end_witness:
  "\<exists>s'. conf [] rootmenu ask_front = Some (Inr s') \<and> wf_symtab (tab (fr_k s'))"
proof -
  have w: "asks_well ask_front (conf [] rootmenu ask_front)" "\<forall>s'. moved ask_front s' \<longrightarrow> wf_symtab (tab (fr_k s'))"
    using questions_end [OF ask_front_asking] by blast+
  have "fr_valid ask_front" by (simp add: ask_front_def)
  with w(1) obtain s' where "conf [] rootmenu ask_front = Some (Inr s')" "moved ask_front s'"
    by (cases rule: asks_wellE) auto
  with w(2) show ?thesis by blast
qed

end
