(* ===== verification/Kallnew.thy ===== *)
theory Kallnew
  imports Kset
begin

text \<open>
  Values for all new symbols, from \<open>support/kconfig/confdata.c\<close>: \<open>conf_set_all_new_symbols\<close> for
  \<open>allyesconfig\<close>, \<open>allnoconfig\<close>, \<open>alldefconfig\<close> and \<open>randconfig\<close> with its probabilities, and
  \<open>randomize_choice_values\<close>. \<open>rand\<close> is a sequence of numbers, read from a position on.
\<close>

section \<open>Probabilities\<close>

datatype conf_def_mode = def_default | def_yes | def_mod | def_no | def_random

record probabilities =
  pby :: int
  pty :: int
  ptm :: int

text \<open>At most three numbers, separated by colons; None is the exit with 1. \<open>strtol\<close> is cut to an int.\<close>

function read_probs :: "int list \<Rightarrow> cstring \<Rightarrow> int list option" where
  "read_probs p env =
     (if env = [] \<or> length p \<ge> 3 then Some p
      else let (v, endp) = c_strtol llong_min llong_max 10 env;
               tmp = sint (word_of_int v :: 32 word)
           in if 0 \<le> tmp \<and> tmp \<le> 100
              then read_probs (p @ [tmp]) (if starts_with endp '':'' then tl endp else endp)
              else None)"
  by pat_completeness auto
termination by (relation "measure (\<lambda>(p, env). 3 - length p)") auto

declare read_probs.simps [simp del]

definition chosen_probabilities :: "int list \<Rightarrow> probabilities" where
  "chosen_probabilities p =
     (case p of
        [a] \<Rightarrow> \<lparr>pby = a, pty = a - a div 2, ptm = a div 2\<rparr>
      | [a, b] \<Rightarrow> \<lparr>pby = a + b, pty = a, ptm = b\<rparr>
      | [a, b, c] \<Rightarrow> \<lparr>pby = a, pty = b, ptm = c\<rparr>
      | _ \<Rightarrow> \<lparr>pby = 50, pty = 33, ptm = 33\<rparr>)"

definition random_probabilities :: "cstring option \<Rightarrow> probabilities option" where
  "random_probabilities env = do {
     p \<leftarrow> read_probs [] (case env of Some e \<Rightarrow> e | None \<Rightarrow> []);
     let q = chosen_probabilities p;
     if pty q + ptm q > 100 then None else Some q
   }"

section \<open>New values\<close>

text \<open>The value for a symbol of the given type, and how many random numbers were used.\<close>

definition random_tri :: "probabilities \<Rightarrow> symbol_type \<Rightarrow> nat \<Rightarrow> tristate" where
  "random_tri q type n =
     (let cnt = int (n mod 100) in
      if type = S_TRISTATE
      then (if cnt < pty q then T_yes else if cnt < pty q + ptm q then T_mod else T_no)
      else if cnt < pby q then T_yes else T_no)"

fun mode_tri :: "conf_def_mode \<Rightarrow> probabilities \<Rightarrow> symbol_type \<Rightarrow> nat \<Rightarrow> tristate option" where
  "mode_tri def_yes q type n = Some T_yes"
| "mode_tri def_mod q type n = Some T_mod"
| "mode_tri def_no q type n = Some T_no"
| "mode_tri def_random q type n = Some (random_tri q type n)"
| "mode_tri def_default q type n = None"

text \<open>The position in the sequence and whether a symbol without a value was met go along.\<close>

definition set_new_value ::
  "conf_def_mode \<Rightarrow> probabilities \<Rightarrow> (nat \<Rightarrow> nat) \<Rightarrow> symref \<Rightarrow> nat \<times> bool \<times> symtab \<Rightarrow> nat \<times> bool \<times> symtab" where
  "set_new_value mode q rand r = (\<lambda>(i, changed, st).
     let s = syms st r in
     if sym_has_value s \<or> SYMBOL_VALID \<in> s_flags s then (i, changed, st)
     else if \<not> is_tri (sym_get_type st r) then (i, changed, st)
     else case mode_tri mode q (s_type s) (rand i) of
       None \<Rightarrow> (i, True, st)
     | Some v \<Rightarrow>
         let st = set_user r (fst (s_user s), v) st;
             st = (if sym_is_choice s \<and> mode = def_random then st else set_flags r {SYMBOL_DEF_USER} st)
         in (if mode = def_random then i + 1 else i, True, st))"

section \<open>Choices\<close>

text \<open>
  The member at place \<open>def\<close> is given \<open>y\<close> and the others \<open>n\<close>, all as values of the user. A choice
  without members would divide by 0.
\<close>

definition pick_member :: "symref \<Rightarrow> nat \<Rightarrow> nat \<times> symref \<Rightarrow> symtab \<Rightarrow> symtab" where
  "pick_member cs def = (\<lambda>(cnt, d) st.
     let st = set_user d (fst (s_user (syms st d)), if def = cnt then T_yes else T_no) st;
         st = (if def = cnt then set_user cs (V_sym d, snd (s_user (syms st cs))) st else st)
     in clear_flags d {SYMBOL_VALID} (set_flags d {SYMBOL_DEF_USER} st))"

definition randomize_choice_values :: "nat \<Rightarrow> symref \<Rightarrow> symtab \<Rightarrow> (bool \<times> symtab) option" where
  "randomize_choice_values n cs st =
     (if snd (s_curr (syms st cs)) \<noteq> T_yes then Some (False, st)
      else do {
        prop \<leftarrow> sym_get_choice_prop (syms st cs);
        let ds = members prop;
        if ds = [] then None
        else do {
          let st = fold (pick_member cs (n mod length ds)) (enumerate 0 ds) st;
          let st = set_flags cs {SYMBOL_DEF_USER} st;
          Some (True, clear_flags cs {SYMBOL_VALID} st)
        }
      })"

definition mark_choices :: "symtab \<Rightarrow> symtab" where
  "mark_choices = for_all_symbols (\<lambda>s.
     if sym_is_choice s \<and> \<not> sym_has_value s \<or> sym_is_choice_value s
     then s\<lparr>s_flags := insert SYMBOL_NEED_SET_CHOICE_VALUES (s_flags s)\<rparr> else s)"

definition set_choice ::
  "conf_def_mode \<Rightarrow> (nat \<Rightarrow> nat) \<Rightarrow> symref \<Rightarrow> nat \<times> bool \<times> symtab \<Rightarrow> (nat \<times> bool \<times> symtab) option" where
  "set_choice mode rand cs = (\<lambda>(i, changed, st).
     if sym_has_value (syms st cs) \<or> \<not> sym_is_choice (syms st cs) then Some (i, changed, st)
     else do {
       st \<leftarrow> sym_calc_value cs st;
       if mode = def_random
       then do {
         (c, st') \<leftarrow> randomize_choice_values (rand i) cs st;
         Some (if snd (s_curr (syms st cs)) = T_yes then i + 1 else i, c, st')
       }
       else do {
         st \<leftarrow> set_all_choice_values cs st;
         Some (i, True, st)
       }
     })"

text \<open>
  \<open>env\<close> is \<open>KCONFIG_PROBABILITY\<close>. Left is the exit with that code; right whether anything changed,
  which for \<open>randconfig\<close> is the result for the last choice alone if there is one.
\<close>

definition conf_set_all_new_symbols ::
  "conf_def_mode \<Rightarrow> cstring option \<Rightarrow> (nat \<Rightarrow> nat) \<Rightarrow> symtab \<Rightarrow> (nat + bool \<times> symtab) option" where
  "conf_set_all_new_symbols mode env rand st =
     (case (if mode = def_random then random_probabilities env else Some (chosen_probabilities [])) of
        None \<Rightarrow> Some (Inl 1)
      | Some q \<Rightarrow> do {
          let (i, changed, st) = fold (set_new_value mode q rand) (all_symbols st) (0, False, st);
          st \<leftarrow> sym_clear_all_valid st;
          let st = (if mode \<noteq> def_random then mark_choices st else st);
          (_, changed, st) \<leftarrow> fold_opt (set_choice mode rand) (all_symbols st) (i, changed, st);
          Some (Inr (changed, st))
        })"


section \<open>Lemmas\<close>

lemma all_symbols_iff: "r \<in> set (all_symbols st) \<longleftrightarrow> hashed st r \<and> s_type (syms st r) \<noteq> S_OTHER"
  by (auto simp: all_symbols_def hashed_def)

text \<open>Numbers below a bound.\<close>

lemma card_below: "0 \<le> a \<Longrightarrow> a \<le> 100 \<Longrightarrow> card {n :: nat. n < 100 \<and> int n < a} = nat a"
proof -
  assume "0 \<le> a" "a \<le> 100"
  then have "{n :: nat. n < 100 \<and> int n < a} = {..<nat a}" by auto
  then show ?thesis by simp
qed

lemma card_between:
  assumes "0 \<le> a" "0 \<le> b" "a + b \<le> 100"
  shows "card {n :: nat. n < 100 \<and> a \<le> int n \<and> int n < a + b} = nat b"
proof -
  have "{n :: nat. n < 100 \<and> a \<le> int n \<and> int n < a + b} = {nat a..<nat (a + b)}" using assms by auto
  then show ?thesis using assms by (simp add: nat_add_distrib)
qed

lemma read_probs_range:
  "read_probs p env = Some p' \<Longrightarrow> (\<forall>x \<in> set p. 0 \<le> x \<and> x \<le> 100) \<Longrightarrow> length p \<le> 3 \<Longrightarrow>
   (\<forall>x \<in> set p'. 0 \<le> x \<and> x \<le> 100) \<and> length p' \<le> 3"
proof (induction p env rule: read_probs.induct)
  case (1 p env)
  show ?case
  proof (cases "env = [] \<or> length p \<ge> 3")
    case True
    with "1.prems" show ?thesis by (simp add: read_probs.simps)
  next
    case False
    obtain v endp where s: "c_strtol llong_min llong_max 10 env = (v, endp)" by fastforce
    define tmp where "tmp = sint (word_of_int v :: 32 word)"
    have r: "0 \<le> tmp \<and> tmp \<le> 100"
      using "1.prems"(1) False s unfolding tmp_def
      by (simp add: read_probs.simps [of p env] Let_def split: if_splits)
    have "read_probs (p @ [tmp]) (if starts_with endp '':'' then tl endp else endp) = Some p'"
      using "1.prems"(1) False s r by (simp add: read_probs.simps [of p env] tmp_def [symmetric] Let_def)
    from "1.IH" [OF False s [symmetric] refl tmp_def r this] "1.prems"(2) False r show ?thesis by auto
  qed
qed

lemma chosen_range:
  assumes "\<forall>x \<in> set p. 0 \<le> x \<and> x \<le> 100" "pty (chosen_probabilities p) + ptm (chosen_probabilities p) \<le> 100"
  shows "0 \<le> pby (chosen_probabilities p) \<and> pby (chosen_probabilities p) \<le> 100 \<and>
    0 \<le> pty (chosen_probabilities p) \<and> 0 \<le> ptm (chosen_probabilities p)"
  using assms by (auto simp: chosen_probabilities_def split: list.splits)

text \<open>One symbol.\<close>

lemma set_user_frame:
  "modules_val (set_user r v st) = modules_val st" "modules_val (set_flags r fs st) = modules_val st"
  "syms (set_user r v st) q = (if q = r then (syms st r)\<lparr>s_user := v\<rparr> else syms st q)"
  "syms (set_flags r fs st) q = (if q = r then (syms st r)\<lparr>s_flags := s_flags (syms st r) \<union> fs\<rparr> else syms st q)"
  by (simp_all add: set_user_def set_flags_def)

definition is_new :: "symtab \<Rightarrow> symref \<Rightarrow> bool" where
  "is_new st r \<longleftrightarrow> \<not> sym_has_value (syms st r) \<and> SYMBOL_VALID \<notin> s_flags (syms st r) \<and> is_tri (sym_get_type st r)"

definition with_value :: "tristate \<Rightarrow> symbol \<Rightarrow> symbol" where
  "with_value v s = s\<lparr>s_user := (fst (s_user s), v), s_flags := insert SYMBOL_DEF_USER (s_flags s)\<rparr>"

definition given_value :: "tristate \<Rightarrow> symtab \<Rightarrow> symref \<Rightarrow> symbol" where
  "given_value v st r = (if is_new st r then with_value v (syms st r) else syms st r)"

lemma is_new_cong:
  "syms st' r = syms st r \<Longrightarrow> modules_val st' = modules_val st \<Longrightarrow> is_new st' r = is_new st r"
  by (simp add: is_new_def sym_get_type_def)

lemma given_once:
  assumes "syms st' r = given_value v st r" "modules_val st' = modules_val st"
  shows "\<not> (is_new st r \<and> is_new st' r)" "given_value v st' r = given_value v st r"
  using assms is_new_cong [of st' r st]
  by (auto simp: given_value_def is_new_def with_value_def sym_has_value_def)

lemma set_new_value_syms:
  assumes m: "mode \<noteq> def_random" "\<And>t n. mode_tri mode q t n = Some v"
  shows "\<exists>st'. set_new_value mode q rand r (i, c, st) = (i, c \<or> is_new st r, st') \<and>
    syms st' = (syms st)(r := given_value v st r) \<and> modules_val st' = modules_val st"
  using m
  by (auto simp: set_new_value_def is_new_def given_value_def with_value_def Let_def set_user_frame fun_eq_iff)

lemma set_new_values_syms:
  assumes m: "mode \<noteq> def_random" "\<And>t n. mode_tri mode q t n = Some v"
  shows "\<exists>st'. fold (set_new_value mode q rand) rs (i, c, st) = (i, c \<or> (\<exists>r \<in> set rs. is_new st r), st') \<and>
    syms st' = (\<lambda>x. if x \<in> set rs then given_value v st x else syms st x) \<and> modules_val st' = modules_val st"
proof (induction rs rule: rev_induct)
  case (snoc r rs)
  then obtain st1 where 1: "fold (set_new_value mode q rand) rs (i, c, st) = (i, c \<or> (\<exists>r \<in> set rs. is_new st r), st1)"
    "syms st1 = (\<lambda>x. if x \<in> set rs then given_value v st x else syms st x)" "modules_val st1 = modules_val st" by blast
  obtain st2 where 2: "set_new_value mode q rand r (i, c \<or> (\<exists>r \<in> set rs. is_new st r), st1) =
      (i, (c \<or> (\<exists>r \<in> set rs. is_new st r)) \<or> is_new st1 r, st2)"
    "syms st2 = (syms st1)(r := given_value v st1 r)" "modules_val st2 = modules_val st1"
    using set_new_value_syms [OF m] by blast
  have new: "(is_new st1 r \<longrightarrow> is_new st r) \<and> (is_new st r \<longrightarrow> r \<notin> set rs \<longrightarrow> is_new st1 r) \<and>
    given_value v st1 r = given_value v st r"
  proof (cases "r \<in> set rs")
    case True
    then have s: "syms st1 r = given_value v st r" by (simp add: 1(2))
    have "is_new st1 r \<longrightarrow> is_new st r"
    proof (cases "is_new st r")
      case False
      then have "syms st1 r = syms st r" using s by (simp add: given_value_def)
      then show ?thesis using is_new_cong 1(3) by blast
    qed simp
    then show ?thesis using given_once(2) [OF s 1(3)] True by blast
  next
    case False
    then have "syms st1 r = syms st r" by (simp add: 1(2))
    then show ?thesis using is_new_cong [of st1 r st] 1(3) by (simp add: given_value_def)
  qed
  have b: "(c \<or> (\<exists>x \<in> set rs. is_new st x)) \<or> is_new st1 r \<longleftrightarrow> c \<or> (\<exists>x \<in> set (rs @ [r]). is_new st x)"
    using new by auto
  have "fold (set_new_value mode q rand) (rs @ [r]) (i, c, st) = (i, c \<or> (\<exists>x \<in> set (rs @ [r]). is_new st x), st2)"
    using 1(1) 2(1) b by simp
  moreover have "syms st2 = (\<lambda>x. if x \<in> set (rs @ [r]) then given_value v st x else syms st x)"
    using new unfolding 2(2) 1(2) by (intro ext) simp
  moreover have "modules_val st2 = modules_val st" using 1(3) 2(3) by simp
  ultimately show ?case by blast
qed (simp add: fun_eq_iff)


text \<open>The members of a choice, one after the other.\<close>

lemma enumerate_snoc: "enumerate n (ds @ [d]) = enumerate n ds @ [(n + length ds, d)]"
  by (simp add: enumerate_append_eq)

lemma pick_members:
  assumes "distinct ds" "cs \<notin> set ds"
  shows "\<forall>r. syms (fold (pick_member cs def) (enumerate 0 ds) st) r =
    (if r \<in> set ds then (syms st r)\<lparr>s_user := (fst (s_user (syms st r)), if def < length ds \<and> r = ds ! def then T_yes else T_no),
        s_flags := insert SYMBOL_DEF_USER (s_flags (syms st r)) - {SYMBOL_VALID}\<rparr>
     else if r = cs \<and> def < length ds then (syms st r)\<lparr>s_user := (V_sym (ds ! def), snd (s_user (syms st r)))\<rparr>
     else syms st r)"
  using assms
proof (induction ds rule: rev_induct)
  case (snoc d ds)
  define st1 where "st1 = fold (pick_member cs def) (enumerate 0 ds) st"
  have old: "syms st1 r =
    (if r \<in> set ds then (syms st r)\<lparr>s_user := (fst (s_user (syms st r)), if def < length ds \<and> r = ds ! def then T_yes else T_no),
        s_flags := insert SYMBOL_DEF_USER (s_flags (syms st r)) - {SYMBOL_VALID}\<rparr>
     else if r = cs \<and> def < length ds then (syms st r)\<lparr>s_user := (V_sym (ds ! def), snd (s_user (syms st r)))\<rparr>
     else syms st r)" for r
    unfolding st1_def using snoc by simp
  have step: "fold (pick_member cs def) (enumerate 0 (ds @ [d])) st = pick_member cs def (length ds, d) st1"
    by (simp add: enumerate_snoc st1_def)
  have d: "d \<notin> set ds" "d \<noteq> cs" "syms st1 d = syms st d" using snoc.prems old [of d] by auto
  have new: "syms (pick_member cs def (length ds, d) st1) r =
      (if r = d then (syms st1 d)\<lparr>s_user := (fst (s_user (syms st1 d)), if def = length ds then T_yes else T_no),
          s_flags := insert SYMBOL_DEF_USER (s_flags (syms st1 d)) - {SYMBOL_VALID}\<rparr>
       else if r = cs \<and> def = length ds then (syms st1 r)\<lparr>s_user := (V_sym d, snd (s_user (syms st1 r)))\<rparr>
       else syms st1 r)" for r
    using d(2) by (simp add: pick_member_def Let_def set_user_def set_flags_def clear_flags_def)
  have nth: "def < length ds \<Longrightarrow> ds ! def \<in> set ds" by simp
  show ?case
    unfolding step new using old d nth snoc.prems by (auto simp: nth_append less_Suc_eq)
qed simp

section \<open>Properties\<close>

text \<open>
  the probabilities \<open>randconfig\<close> accepts are percentages: of a hundred random numbers in a row
  exactly \<open>pty\<close> make a tristate symbol \<open>y\<close> and \<open>ptm\<close> make it \<open>m\<close>, and exactly \<open>pby\<close> make a boolean
  one \<open>y\<close>.
\<close>

theorem random_percentages:
  assumes "random_probabilities env = Some q"
  shows "int (card {n. n < 100 \<and> random_tri q S_TRISTATE n = T_yes}) = pty q \<and>
    int (card {n. n < 100 \<and> random_tri q S_TRISTATE n = T_mod}) = ptm q \<and>
    int (card {n. n < 100 \<and> random_tri q S_BOOLEAN n = T_yes}) = pby q"
proof -
  obtain p where p: "read_probs [] (case env of Some e \<Rightarrow> e | None \<Rightarrow> []) = Some p"
    "q = chosen_probabilities p" "pty q + ptm q \<le> 100"
    using assms by (auto simp: random_probabilities_def Let_def split: bind_splits if_splits)
  have "\<forall>x \<in> set p. 0 \<le> x \<and> x \<le> 100" using read_probs_range [OF p(1)] by simp
  with chosen_range p(2,3) have q: "0 \<le> pby q" "pby q \<le> 100" "0 \<le> pty q" "0 \<le> ptm q" by blast+
  have "{n. n < 100 \<and> random_tri q S_TRISTATE n = T_yes} = {n :: nat. n < 100 \<and> int n < pty q}"
    "{n. n < 100 \<and> random_tri q S_TRISTATE n = T_mod} = {n :: nat. n < 100 \<and> pty q \<le> int n \<and> int n < pty q + ptm q}"
    "{n. n < 100 \<and> random_tri q S_BOOLEAN n = T_yes} = {n :: nat. n < 100 \<and> int n < pby q}"
    by (auto simp: random_tri_def Let_def split: if_splits)
  with q p(3) card_below [of "pty q"] card_below [of "pby q"] card_between [of "pty q" "ptm q"] show ?thesis
    by simp
qed

theorem random_percentages_witness:
  "int (card {n. n < 100 \<and> random_tri \<lparr>pby = 30, pty = 10, ptm = 20\<rparr> S_TRISTATE n = T_mod}) = 20"
proof -
  have "random_probabilities (Some ''10:20'') = Some \<lparr>pby = 30, pty = 10, ptm = 20\<rparr>" by code_simp
  from random_percentages [OF this] show ?thesis by simp
qed


text \<open>A choice of two symbols that is \<open>y\<close>.\<close>

definition sample_choice :: symtab where
  "sample_choice = empty_symtab\<lparr>syms := (\<lambda>r. blank_symbol)
     (SymId 5 := blank_symbol\<lparr>s_flags := {SYMBOL_CHOICE}, s_curr := (V_NULL, T_yes),
        s_props := [sample_property P_CHOICE None (Some (EList (Some (EList None (SymId 6))) (SymId 7)))]\<rparr>)\<rparr>"


text \<open>
  \<open>allyesconfig\<close>, \<open>allmodconfig\<close> and \<open>allnoconfig\<close> give their value to exactly the new symbols, the
  boolean and tristate ones that are not yet calculated and have no value of the user; nothing
  else of the symbols changes, and a change is reported exactly when there was a new symbol.
\<close>

theorem new_symbols_given:
  assumes "mode \<in> {def_yes, def_mod, def_no}"
  shows "\<exists>st' v. (mode, v) \<in> {(def_yes, T_yes), (def_mod, T_mod), (def_no, T_no)} \<and>
    fold (set_new_value mode q rand) (all_symbols st) (0, False, st) = (0, \<exists>r. hashed st r \<and> is_new st r, st') \<and>
    (\<forall>r. syms st' r = (if hashed st r \<and> is_new st r then with_value v (syms st r) else syms st r))"
proof -
  have nr: "mode \<noteq> def_random" using assms by auto
  obtain v where v: "(mode, v) \<in> {(def_yes, T_yes), (def_mod, T_mod), (def_no, T_no)}"
    "\<And>t n. mode_tri mode q t n = Some v" using assms by auto
  obtain st' where st': "fold (set_new_value mode q rand) (all_symbols st) (0, False, st) =
      (0, False \<or> (\<exists>r \<in> set (all_symbols st). is_new st r), st')"
    "syms st' = (\<lambda>x. if x \<in> set (all_symbols st) then given_value v st x else syms st x)"
    using set_new_values_syms [OF nr v(2)] by blast
  have new: "r \<in> set (all_symbols st) \<and> is_new st r \<longleftrightarrow> hashed st r \<and> is_new st r" for r
    by (auto simp: all_symbols_iff is_new_def sym_get_type_def is_tri_def Let_def split: if_splits)
  have "(\<exists>r \<in> set (all_symbols st). is_new st r) \<longleftrightarrow> (\<exists>r. hashed st r \<and> is_new st r)" using new by blast
  moreover have "syms st' r = (if hashed st r \<and> is_new st r then with_value v (syms st r) else syms st r)" for r
    using new [of r] by (auto simp: st'(2) given_value_def)
  ultimately show ?thesis using v(1) st'(1) by auto
qed

text \<open>A table with one new symbol.\<close>

definition fresh_table :: symtab where
  "fresh_table = empty_symtab\<lparr>syms := (\<lambda>r. blank_symbol\<lparr>s_type := S_BOOLEAN\<rparr>),
     buckets := (\<lambda>i. if i = 0 then [SymId 5] else [])\<rparr>"

theorem new_symbols_given_witness:
  "\<exists>st'. fold (set_new_value def_mod (chosen_probabilities []) (\<lambda>i. 0)) (all_symbols fresh_table)
     (0, False, fresh_table) = (0, True, st') \<and> s_user (syms st' (SymId 5)) = (V_NULL, T_mod)"
proof -
  have new: "hashed fresh_table (SymId 5)" "is_new fresh_table (SymId 5)"
    unfolding hashed_def SYMBOL_HASHSIZE_def
    by (auto simp: fresh_table_def is_new_def sym_has_value_def sym_get_type_def blank_symbol_def is_tri_def
        intro: exI [of _ 0])
  then have "(\<exists>r. hashed fresh_table r \<and> is_new fresh_table r) = True" by blast
  then obtain st' where "fold (set_new_value def_mod (chosen_probabilities []) (\<lambda>i. 0)) (all_symbols fresh_table)
     (0, False, fresh_table) = (0, True, st')"
    "syms st' (SymId 5) = with_value T_mod (syms fresh_table (SymId 5))"
    using new_symbols_given [of def_mod "chosen_probabilities []" "\<lambda>i. 0" fresh_table] new by auto
  then show ?thesis by (simp add: with_value_def fresh_table_def blank_symbol_def)
qed

end
