(* ===== verification/Kmain.thy ===== *)
theory Kmain
  imports Kcheck Kask Kallnew Kfinal
begin

text \<open>
  How the parts of kconfig are put together: \<open>conf_parse\<close> (\<open>support/kconfig/zconf.y\<close>) from the end of the
  parser on, and \<open>main\<close> of the text front end (\<open>conf.c\<close>), from the options to the files that are written.
  The parser itself and the system are arguments. What a program prints is the text of its own calls: the
  warnings are collected in the table (\<open>warnings\<close>), and what \<open>getopt_long\<close> says of a bad option is left out.
\<close>

section \<open>conf\_parse\<close>

text \<open>The text of the root menu with its \<open>$NAME\<close> expanded; it has a prompt of its own.\<close>

definition expand_root :: "kconf \<Rightarrow> kconf option" where
  "expand_root k =
     (case mn_prompt (menus k rootmenu) of
        Some (P_own p) \<Rightarrow> do {
          t \<leftarrow> p_text p;
          (t, sto) \<leftarrow> sym_expand_string_value expand_look (Some (tab k)) t;
          st \<leftarrow> sto;
          Some (upd_menu rootmenu (\<lambda>x. x\<lparr>mn_prompt := Some (P_own (p\<lparr>p_text := Some t\<rparr>))\<rparr>) (k\<lparr>tab := st\<rparr>))
        }
      | _ \<Rightarrow> None)"

definition need_modules :: "symtab \<Rightarrow> symtab" where
  "need_modules st = (if modules_sym st = None then st\<lparr>modules_sym := sym_find (Some ''n'') st\<rparr> else st)"

text \<open>What \<open>conf_parse\<close> does after \<open>zconfparse\<close>; left is the exit with that code.\<close>

definition conf_parse :: "kconf \<Rightarrow> (nat + kconf) option" where
  "conf_parse k =
     (if zconfnerrs k \<noteq> 0 then Some (Inl 1)
      else do {
        k \<leftarrow> expand_root (upd_tab need_modules k);
        k \<leftarrow> menu_finalize rootmenu k;
        (n, st) \<leftarrow> check_all (\<lambda>m. mn_pos (menus k m)) (all_symbols (tab k)) (tab k);
        let k = k\<lparr>tab := st, zconfnerrs := zconfnerrs k + n\<rparr>;
        if zconfnerrs k \<noteq> 0 then Some (Inl 1)
        else Some (Inr (upd_tab (sym_set_change_count 1) k))
      })"

section \<open>The options\<close>

text \<open>
  The system: the environment, the time in seconds and microseconds, the numbers \<open>rand\<close> gives after a seed in
  each round, standard input, and what the parser makes of a file: the menus, and the files it read.
\<close>

record system =
  sys_env :: "cstring \<Rightarrow> cstring option"
  sys_pid :: int
  sys_cwd :: cstring
  sys_now :: "int \<times> int"
  sys_rand :: "32 word \<Rightarrow> nat \<Rightarrow> nat \<Rightarrow> nat"
  sys_stdin :: cstring
  sys_tty :: bool
  sys_parse :: "cstring \<Rightarrow> kconf \<times> cstring list"

record options =
  o_mode :: input_mode
  o_sync :: bool
  o_file :: "cstring option"
  o_seed :: "32 word"
  o_err :: cstring

text \<open>\<open>strtol\<close> with base 0: the prefix says which base it is.\<close>

definition strtol_any :: "cstring \<Rightarrow> int \<times> cstring" where
  "strtol_any t =
     (let u = snd (read_sign (skip_spaces t));
          base = (if read_prefix 16 u \<noteq> u then 16 else if first_is (CHR ''0'') u then 8 else 10)
      in c_strtol llong_min llong_max base t)"

definition rand_seed :: "(cstring \<Rightarrow> cstring option) \<Rightarrow> int \<times> int \<Rightarrow> 32 word" where
  "rand_seed env = (\<lambda>(sec, usec).
     let seed = word_of_int ((sec + 1) * (usec + 1)) in
     case env ''KCONFIG_SEED'' of
       None \<Rightarrow> seed
     | Some t \<Rightarrow> let (v, endp) = strtol_any t in if t \<noteq> [] \<and> endp = [] then word_of_int v else seed)"

definition initial_options :: options where
  "initial_options = \<lparr>o_mode = oldaskconfig, o_sync = False, o_file = None, o_seed = 1, o_err = []\<rparr>"

text \<open>One option, with its argument, as \<open>getopt_long\<close> gives it.\<close>

definition take_option :: "(cstring \<Rightarrow> cstring option) \<Rightarrow> int \<times> int \<Rightarrow> input_mode \<times> cstring option \<Rightarrow> options \<Rightarrow> options" where
  "take_option env now = (\<lambda>(opt, arg) opts.
     let opts = opts\<lparr>o_mode := opt\<rparr> in
     case opt of
       silentoldconfig \<Rightarrow> opts\<lparr>o_sync := True\<rparr>
     | defconfig \<Rightarrow> opts\<lparr>o_file := arg\<rparr>
     | savedefconfig \<Rightarrow> opts\<lparr>o_file := arg\<rparr>
     | randconfig \<Rightarrow> let seed = rand_seed env now in
         opts\<lparr>o_seed := seed, o_err := o_err opts @ ''KCONFIG_SEED=0x'' @ map c_toupper (hex_of_nat (unat seed)) @ [nl]\<rparr>
     | _ \<Rightarrow> opts)"

text \<open>An option that is not known is None; then the result is left, and the usage is printed.\<close>

fun read_options ::
  "(cstring \<Rightarrow> cstring option) \<Rightarrow> int \<times> int \<Rightarrow> (input_mode \<times> cstring option) option list \<Rightarrow> options \<Rightarrow> options + options" where
  "read_options env now [] opts = Inr opts"
| "read_options env now (None # os) opts = Inl opts"
| "read_options env now (Some x # os) opts = read_options env now os (take_option env now x opts)"

definition conf_usage :: "cstring \<Rightarrow> cstring" where
  "conf_usage progname = concat (map (\<lambda>t. t @ [nl])
     [''Usage: '' @ progname @ '' [option] <kconfig-file>'', ''[option] is _one_ of the following:'',
      ''  --listnewconfig         List new options'',
      ''  --oldaskconfig          Start a new configuration using a line-oriented program'',
      ''  --oldconfig             Update a configuration using a provided .config as base'',
      ''  --silentoldconfig       Same as oldconfig, but quietly, additionally update deps'',
      ''  --olddefconfig          Same as silentoldconfig but sets new symbols to their default value'',
      ''  --oldnoconfig           An alias of olddefconfig'',
      ''  --defconfig <file>      New config with default defined in <file>'',
      ''  --savedefconfig <file>  Save the minimal current configuration to <file>'',
      ''  --allnoconfig           New config where all options are answered with no'',
      ''  --allyesconfig          New config where all options are answered with yes'',
      ''  --allmodconfig          New config where all options are answered with mod'',
      ''  --alldefconfig          New config with all symbols set to default'',
      ''  --randconfig            New config with random answer to all options''])"

section \<open>Reading\<close>

text \<open>Files that were written are there to be read.\<close>

definition env_now :: "system \<Rightarrow> fs \<Rightarrow> env" where
  "env_now sys w = \<lparr>env_files = fs_files w, env_var = sys_env sys\<rparr>"

definition exists_file :: "fs \<Rightarrow> cstring \<Rightarrow> bool" where
  "exists_file w name \<longleftrightarrow> fs_files w name \<noteq> None \<or> name \<in> fs_dirs w"

definition config_prefix :: "(cstring \<Rightarrow> cstring option) \<Rightarrow> cstring" where
  "config_prefix env = (case env ''CONFIG_'' of Some p \<Rightarrow> p | None \<Rightarrow> ''CONFIG_'')"

definition first_reader :: "symtab \<Rightarrow> reader" where
  "first_reader st = \<lparr>rd_tab = st, conf_filename = [], conf_lineno = 0, conf_warnings = 0,
     conf_unsaved = 0, conf_messages = []\<rparr>"

definition all_name :: "input_mode \<Rightarrow> cstring" where
  "all_name mode = (case mode of
       allnoconfig \<Rightarrow> ''allno.config'' | allyesconfig \<Rightarrow> ''allyes.config'' | allmodconfig \<Rightarrow> ''allmod.config''
     | alldefconfig \<Rightarrow> ''alldef.config'' | randconfig \<Rightarrow> ''allrandom.config'' | _ \<Rightarrow> [])"

text \<open>The configuration that is read first; left is the message of an exit with 1, to standard output or error.\<close>

definition read_first ::
  "system \<Rightarrow> cstring \<Rightarrow> symref option \<Rightarrow> options \<Rightarrow> fs \<Rightarrow> reader \<Rightarrow> (bool \<times> cstring + reader) option" where
  "read_first sys pre dl opts w rd =
     (let env = env_now sys w in
      if o_mode opts = defconfig
      then do {
        (name, st) \<leftarrow> (case o_file opts of
            Some f \<Rightarrow> Some (f, rd_tab rd)
          | None \<Rightarrow> conf_get_default_confname env (rd_tab rd));
        (ret, rd) \<leftarrow> conf_read env pre dl (Some name) (rd\<lparr>rd_tab := st\<rparr>);
        Some (if ret \<noteq> 0
          then Inl (True, ''***'' @ [nl] @ ''*** Can'' @ [CHR 0x27] @ ''t find default configuration '' @
                 [CHR 0x22] @ name @ [CHR 0x22] @ ''!'' @ [nl] @ ''***'' @ [nl])
          else Inr rd)
      }
      else if o_mode opts \<in> {savedefconfig, silentoldconfig, oldaskconfig, oldconfig, listnewconfig, olddefconfig}
      then map_option (\<lambda>(ret, rd). Inr rd) (conf_read env pre dl None rd)
      else case sys_env sys ''KCONFIG_ALLCONFIG'' of
        None \<Rightarrow> Some (Inr rd)
      | Some name \<Rightarrow>
          if name \<notin> {[], ''1''}
          then do {
            (ret, rd) \<leftarrow> conf_read_simple env pre dl (Some name) S_DEF_USER rd;
            Some (if ret \<noteq> 0
              then Inl (False, ''*** Can'' @ [CHR 0x27] @ ''t read seed configuration '' @ [CHR 0x22] @ name @ [CHR 0x22] @ ''!'' @ [nl])
              else Inr rd)
          }
          else do {
            (ret, rd) \<leftarrow> conf_read_simple env pre dl (Some (all_name (o_mode opts))) S_DEF_USER rd;
            (ret, rd) \<leftarrow> (if ret = 0 then Some (0, rd)
              else conf_read_simple env pre dl (Some ''all.config'') S_DEF_USER rd);
            Some (if ret \<noteq> 0
              then Inl (False, ''*** KCONFIG_ALLCONFIG set, but no '' @ [CHR 0x22] @ all_name (o_mode opts) @ [CHR 0x22] @
                     '' or '' @ [CHR 0x22] @ ''all.config'' @ [CHR 0x22] @ '' file found'' @ [nl])
              else Inr rd)
          })"

section \<open>Setting\<close>

text \<open>\<open>randconfig\<close>: until a round changes nothing.\<close>

partial_function (option) rand_loop ::
  "cstring option \<Rightarrow> (nat \<Rightarrow> nat \<Rightarrow> nat) \<Rightarrow> nat \<Rightarrow> symtab \<Rightarrow> (nat + symtab) option" where
  "rand_loop env rand n st =
     go_on (conf_set_all_new_symbols def_random env (rand n) st) (\<lambda>(changed, st).
       if changed then rand_loop env rand (Suc n) st else Some (Inr st))"

text \<open>New symbols are looked for until a round restarted nothing.\<close>

partial_function (option) update_loop :: "cstring \<Rightarrow> front \<Rightarrow> (exited + front) option" where
  "update_loop pre s =
     go_on (check_conf pre rootmenu (s\<lparr>fr_cnt := 0\<rparr>)) (\<lambda>s.
       if fr_cnt s \<noteq> 0 \<and> fr_mode s \<notin> {listnewconfig, olddefconfig} then update_loop pre s else Some (Inr s))"

text \<open>The mode of \<open>conf_set_all_new_symbols\<close>.\<close>

definition all_mode :: "input_mode \<Rightarrow> conf_def_mode option" where
  "all_mode mode = (case mode of
       allnoconfig \<Rightarrow> Some def_no | allyesconfig \<Rightarrow> Some def_yes | allmodconfig \<Rightarrow> Some def_mod
     | alldefconfig \<Rightarrow> Some def_default | defconfig \<Rightarrow> Some def_default | _ \<Rightarrow> None)"

definition set_values :: "system \<Rightarrow> cstring \<Rightarrow> options \<Rightarrow> front \<Rightarrow> (exited + front) option" where
  "set_values sys pre opts s =
     (let prob = sys_env sys ''KCONFIG_PROBABILITY'' in
      case all_mode (fr_mode s) of
        Some d \<Rightarrow> do {
          r \<leftarrow> conf_set_all_new_symbols d prob (sys_rand sys (o_seed opts) 0) (tab (fr_k s));
          Some (case r of Inl c \<Rightarrow> Inl (c, s) | Inr (_, st) \<Rightarrow> Inr (with_tab st s))
        }
      | None \<Rightarrow>
          if fr_mode s = randconfig
          then do {
            r \<leftarrow> rand_loop prob (sys_rand sys (o_seed opts)) 0 (tab (fr_k s));
            Some (case r of Inl c \<Rightarrow> Inl (c, s) | Inr st \<Rightarrow> Inr (with_tab st s))
          }
          else if fr_mode s = savedefconfig then Some (Inr s)
          else if fr_mode s = oldaskconfig
          then go_on (conf pre rootmenu (s\<lparr>fr_root := Some rootmenu\<rparr>)) (\<lambda>s.
            update_loop pre (s\<lparr>fr_mode := silentoldconfig\<rparr>))
          else update_loop pre s)"

section \<open>Writing, and main\<close>

text \<open>The messages of \<open>confdata.c\<close> as its default callback prints them; the exit code, what was printed, and the files.\<close>

definition message_text :: "cstring list \<Rightarrow> cstring" where
  "message_text msgs = concat (map (\<lambda>t. ''#'' @ [nl] @ ''# '' @ t @ [nl] @ ''#'' @ [nl]) msgs)"

type_synonym ended = "nat \<times> cstring \<times> cstring \<times> fs"

definition ends :: "nat \<Rightarrow> cstring \<Rightarrow> front \<Rightarrow> fs \<Rightarrow> ended" where
  "ends code msg s w = (code, fr_out s, fr_err s @ msg, w)"

definition save_all :: "system \<Rightarrow> cstring \<Rightarrow> cstring list \<Rightarrow> options \<Rightarrow> front \<Rightarrow> reader \<Rightarrow> fs \<Rightarrow> ended option" where
  "save_all sys pre files opts s rd w =
     (let written = (\<lambda>s w. conf_write (env_now sys w) (sys_pid sys) pre None (fr_k s, w));
          failed = [nl] @ ''*** Error during writing of the configuration.'' @ [nl, nl]
      in if o_sync opts
      then do {
        (ret, msgs, k, w) \<leftarrow> (if conf_get_changed (tab (fr_k s)) then written s w else Some (0, [], fr_k s, w));
        let s = print (message_text msgs) (with_k k s);
        if ret \<noteq> 0 then Some (ends 1 failed s w)
        else do {
          (ret, k, rd, w) \<leftarrow> conf_write_autoconf (env_now sys w) (sys_cwd sys) pre files (fr_k s, rd\<lparr>rd_tab := tab (fr_k s)\<rparr>, w);
          Some (if ret \<noteq> 0 then ends 1 ([nl] @ ''*** Error during update of the configuration.'' @ [nl, nl]) s w
                else ends 0 [] s w)
        }
      }
      else if fr_mode s = savedefconfig
      then do {
        name \<leftarrow> o_file opts;
        (ret, k, w) \<leftarrow> conf_write_defconfig pre name (fr_k s, w);
        Some (if ret \<noteq> 0 then ends 1 (''n*** Error while saving defconfig to: '' @ name @ [nl, nl]) s w else ends 0 [] s w)
      }
      else if fr_mode s = listnewconfig then Some (ends 0 [] s w)
      else do {
        (ret, msgs, k, w) \<leftarrow> written s w;
        Some (if ret \<noteq> 0 then ends 1 failed (print (message_text msgs) s) w else ends 0 [] (print (message_text msgs) s) w)
      })"

text \<open>\<open>silentoldconfig\<close> may not change the configuration where \<open>KCONFIG_NOSILENTUPDATE\<close> is set.\<close>

definition must_not_update :: "system \<Rightarrow> options \<Rightarrow> symtab \<Rightarrow> bool" where
  "must_not_update sys opts st \<longleftrightarrow> o_sync opts \<and> conf_get_changed st \<and>
     (case sys_env sys ''KCONFIG_NOSILENTUPDATE'' of Some t \<Rightarrow> t \<noteq> [] | None \<Rightarrow> False)"

definition config_missing :: "system \<Rightarrow> options \<Rightarrow> fs \<Rightarrow> bool" where
  "config_missing sys opts w \<longleftrightarrow> o_sync opts \<and> \<not> exists_file w (conf_get_configname (env_now sys w))"

definition first_front :: "system \<Rightarrow> options \<Rightarrow> kconf \<Rightarrow> cstring list \<Rightarrow> front" where
  "first_front sys opts k msgs = \<lparr>fr_k = k, fr_in = sys_stdin sys, fr_out = message_text msgs, fr_err = o_err opts, fr_line = [],
     fr_indent = 1, fr_mode = o_mode opts, fr_tty = sys_tty sys, fr_valid = (o_sync opts \<longrightarrow> sys_tty sys),
     fr_cnt = 0, fr_root = None\<rparr>"

text \<open>From the parsed menus on.\<close>

definition configure :: "system \<Rightarrow> options \<Rightarrow> kconf \<Rightarrow> cstring list \<Rightarrow> fs \<Rightarrow> ended option" where
  "configure sys opts k files w =
     (let pre = config_prefix (sys_env sys) in
      if config_missing sys opts w
      then Some (1, [], o_err opts @ ''***'' @ [nl] @ ''*** Configuration file '' @ [CHR 0x22] @
             conf_get_configname (env_now sys w) @ [CHR 0x22] @ '' not found!'' @
             [nl] @ ''***'' @ [nl] @ ''*** Please run some configurator (e.g. '' @ [CHR 0x22] @ ''make oldconfig'' @ [CHR 0x22] @
             '' or'' @ [nl] @ ''*** '' @ [CHR 0x22] @ ''make menuconfig'' @ [CHR 0x22] @ '' or '' @ [CHR 0x22] @ ''make xconfig'' @
             [CHR 0x22] @ '').'' @ [nl] @ ''***'' @ [nl], w)
      else do {
        r \<leftarrow> read_first sys pre (sym_defconfig_list k) opts w (first_reader (tab k));
        case r of
          Inl (out, msg) \<Rightarrow> Some (if out then (1, msg, o_err opts, w) else (1, [], o_err opts @ msg, w))
        | Inr rd \<Rightarrow>
            let s = first_front sys opts (k\<lparr>tab := rd_tab rd\<rparr>) (conf_messages rd)
            in if must_not_update sys opts (rd_tab rd)
            then Some (ends 1 ([nl] @ ''*** The configuration requires explicit update.'' @ [nl, nl]) s w)
            else do {
              r \<leftarrow> set_values sys pre opts s;
              case r of
                Inl (code, s) \<Rightarrow> Some (ends code [] s w)
              | Inr s \<Rightarrow> save_all sys pre files opts s rd w
            }
      })"

text \<open>The arguments as \<open>getopt_long\<close> splits them: the options, and the name of the Kconfig file.\<close>

definition conf_main ::
  "cstring \<Rightarrow> system \<Rightarrow> (input_mode \<times> cstring option) option list \<Rightarrow> cstring option \<Rightarrow> fs \<Rightarrow> ended option" where
  "conf_main progname sys os name w =
     (case read_options (sys_env sys) (sys_now sys) os initial_options of
        Inl opts \<Rightarrow> Some (1, conf_usage progname, o_err opts, w)
      | Inr opts \<Rightarrow> (case name of
          None \<Rightarrow> Some (1, progname @ '': Kconfig file missing'' @ [nl] @ conf_usage progname, o_err opts, w)
        | Some name \<Rightarrow>
            (let (k, files) = sys_parse sys name in do {
              r \<leftarrow> conf_parse k;
              case r of
                Inl code \<Rightarrow> Some (code, [], o_err opts, w)
              | Inr k \<Rightarrow> configure sys opts k files w
            })))"

end
