(* ===== verification/Kconfigured.thy ===== *)
theory Kconfigured
  imports Kmain
begin

text \<open>
  What the program of \<open>Kmain\<close> does from its options to the files: giving the new symbols their values ends,
  and \<open>conf --defconfig\<close> replaces the configuration by a whole new one, or exits with 1.
\<close>

section \<open>Giving values to the new symbols\<close>

text \<open>Marking the choices: the table of before is a frame of the table of after, but for what is well-formed.\<close>

definition same_symbols :: "symtab \<Rightarrow> symtab \<Rightarrow> bool" where
  "same_symbols st st' \<longleftrightarrow> refs st' = refs st \<and> buckets st' = buckets st \<and>
     (\<forall>r. s_name (syms st' r) = s_name (syms st r) \<and> s_type (syms st' r) = s_type (syms st r) \<and>
        s_props (syms st' r) = s_props (syms st r))"

lemma same_symbols_frames: "frames st st' \<Longrightarrow> same_symbols st st'"
  using framesD(2) same_frameD(1,2,9) [OF framesD(3)] by (fastforce simp: same_symbols_def frames_def)

lemma same_symbols_back: "same_symbols st st' \<Longrightarrow> same_symbols st' st"
  by (simp add: same_symbols_def)

lemma same_symbols_trans: "same_symbols a b \<Longrightarrow> same_symbols b c \<Longrightarrow> same_symbols a c"
  by (simp add: same_symbols_def)

lemma mark_choices_frames: "frames (mark_choices st) st"
  by (auto simp: frames_def mark_choices_def for_all_symbols_def same_frame_def fixed_flags_def)

lemma mark_choices_config:
  assumes "config_ok st"
  shows "config_ok (mark_choices st)"
proof -
  note f = mark_choices_frames [of st]
  note eqs = framesD(1,2) [OF f] same_frameD(1,2,3,4,5,6,7,8) [OF framesD(3) [OF f]]
  have opt: "opt_in (mark_choices st) = opt_in st" using eqs(2) by (simp add: opt_in_def fun_eq_iff split: option.splits)
  have props: "prop_ok (mark_choices st) = prop_ok st" by (simp add: prop_ok_def opt fun_eq_iff)
  have user: "s_user (syms (mark_choices st) r) = s_user (syms st r)" for r
    by (simp add: mark_choices_def for_all_symbols_def)
  have need: "SYMBOL_NEED_SET_CHOICE_VALUES \<in> s_flags (syms (mark_choices st) r) \<Longrightarrow>
      SYMBOL_NEED_SET_CHOICE_VALUES \<in> s_flags (syms st r) \<or> sym_is_choice (syms st r) \<or> sym_is_choice_value (syms st r)" for r
    by (auto simp: mark_choices_def for_all_symbols_def split: if_splits)
  have "sym_ok (mark_choices st) (syms (mark_choices st) r)" if "sym_ok st (syms st r)" for r
    using that need [of r]
    by (auto simp: sym_ok_def opt props choice_ok_def member_ok_def user eqs [symmetric])
  then have "wf_symtab (mark_choices st)"
    using assms eqs(1,2) by (simp add: config_ok_def wf_symtab_def)
  moreover have "members_linked (mark_choices st)"
    using assms by (simp add: config_ok_def members_linked_def eqs [symmetric])
  ultimately show ?thesis
    using assms frames_hashed [OF f] by (simp add: config_ok_def eqs [symmetric])
qed

lemma mark_choices_menus:
  assumes "menus_ok pre k ts"
  shows "menus_ok pre (k\<lparr>tab := mark_choices (tab k)\<rparr>) ts"
proof -
  have "frames (tab (k\<lparr>tab := mark_choices (tab k)\<rparr>)) (tab k)" using mark_choices_frames by simp
  from frames_entries(1) [OF this, of pre] frames_entries(2,3) [OF this] show ?thesis
    using assms mark_choices_config by (simp add: menus_ok_def)
qed

lemma frames_clear_flags: "fs \<subseteq> {SYMBOL_DEF_USER, SYMBOL_VALID, SYMBOL_NEED_SET_CHOICE_VALUES} \<Longrightarrow> frames st (clear_flags r fs st)"
  unfolding clear_flags_def by (rule frames_upd) (auto simp: same_frame_defs)

lemma user_tri_frames: "frames st (user_tri_no d st)"
  unfolding user_tri_no_def by (simp add: frames_upd same_frame_def)

lemma set_new_value_frames: "frames (snd (snd x)) (snd (snd (set_new_value mode q rand r x)))"
  by (auto simp: set_new_value_def Let_def split_beta split: option.split
      intro!: frames_trans [OF frames_set_user frames_set_flags] frames_set_user frames_set_flags)

lemma set_new_values_frames: "frames (snd (snd x)) (snd (snd (fold (set_new_value mode q rand) rs x)))"
proof (induction rs arbitrary: x)
  case (Cons r rs)
  show ?case using frames_trans [OF set_new_value_frames [of x mode q rand r] Cons.IH] by simp
qed simp

lemma set_all_choice_frames:
  assumes "wf_symtab st" "r \<in> refs st" "sym_is_choice (syms st r)"
  shows "\<exists>st'. set_all_choice_values r st = Some st' \<and> frames st st'"
proof -
  have "choice_ok st (syms st r)" using assms by (auto simp: wf_symtab_def sym_ok_def)
  then obtain p where p: "sym_get_choice_prop (syms st r) = Some p" by (auto simp: choice_ok_def)
  define st1 where "st1 = fold user_tri_no (members p) st"
  have "frames st st1" unfolding st1_def by (rule frames_fold [OF user_tri_frames])
  moreover have "frames st1 (clear_flags r {SYMBOL_VALID, SYMBOL_NEED_SET_CHOICE_VALUES} (set_flags r {SYMBOL_DEF_USER} st1))"
    by (rule frames_trans [OF frames_set_flags frames_clear_flags]) simp_all
  ultimately show ?thesis
    using p frames_trans by (simp add: set_all_choice_values_def st1_def [symmetric] Let_def)
qed

lemma set_choice_total:
  assumes "config_ok st" "hashed st r" "mode \<noteq> def_random"
  shows "\<exists>i' c' st'. set_choice mode rand r (i, c, st) = Some (i', c', st') \<and> frames st st'"
proof (cases "sym_has_value (syms st r) \<or> \<not> sym_is_choice (syms st r)")
  case True
  then show ?thesis by (simp add: set_choice_def)
next
  case False
  have r: "wf_symtab st" "r \<in> refs st" using assms(1,2) by (simp_all add: config_ok_def)
  obtain st1 where 1: "sym_calc_value r st = Some st1" "frames st st1"
    using calc_value_moves [OF r] by (blast elim: movesE intro: evolves_frames)
  obtain st2 where 2: "set_all_choice_values r st1 = Some st2" "frames st1 st2"
    using set_all_choice_frames [of st1 r] frames_wf [OF 1(2) r(1)] framesD(2) [OF 1(2)] r(2) False
      same_frameD(5) [OF framesD(3) [OF 1(2)]] by auto
  have "set_choice mode rand r (i, c, st) = Some (i, True, st2)" using False assms(3) 1(1) 2(1) by (simp add: set_choice_def)
  with frames_trans [OF 1(2) 2(2)] show ?thesis by blast
qed

lemma set_all_total:
  assumes k: "menus_ok pre k ts" and mode: "mode \<noteq> def_random"
  shows "\<exists>c st'. conf_set_all_new_symbols mode env rand (tab k) = Some (Inr (c, st')) \<and>
    menus_ok pre (k\<lparr>tab := st'\<rparr>) ts \<and> same_symbols (tab k) st'"
proof -
  let ?q = "chosen_probabilities []"
  obtain i c st1 where 1: "fold (set_new_value mode ?q rand) (all_symbols (tab k)) (0, False, tab k) = (i, c, st1)"
    by (metis prod_cases3)
  have f1: "frames (tab k) st1" using set_new_values_frames [of "(0, False, tab k)" mode ?q rand "all_symbols (tab k)"] by (simp add: 1)
  have "wf_symtab st1" using frames_wf [OF f1] k by (simp add: menus_ok_def config_ok_def)
  then obtain st2 where 2: "sym_clear_all_valid st1 = Some st2" "frames st1 st2"
    using clear_all_valid_total by blast
  define st3 where "st3 = mark_choices st2"
  have f2: "frames (tab k) st2" by (rule frames_trans [OF f1 2(2)])
  have k3: "menus_ok pre (k\<lparr>tab := st3\<rparr>) ts"
    using mark_choices_menus [OF frames_menus_ok [OF k f2]] by (simp add: st3_def)
  then have ok3: "config_ok st3" by (simp add: menus_ok_def)
  have "\<exists>x. fold_opt (set_choice mode rand) (all_symbols st3) (i, c, st3) = Some x \<and> frames st3 (snd (snd x))"
  proof (rule fold_opt_inv)
    fix r and x :: "nat \<times> bool \<times> symtab"
    assume r: "r \<in> set (all_symbols st3)" and x: "frames st3 (snd (snd x))"
    obtain i c st where x': "x = (i, c, st)" by (metis prod_cases3)
    have "config_ok st" "hashed st r"
      using frames_config [OF x ok3] frames_hashed [OF x] all_symbols_hashed [OF r] by (simp_all add: x')
    then obtain i' c' st' where "set_choice mode rand r (i, c, st) = Some (i', c', st')" "frames st st'"
      using set_choice_total mode by blast
    then show "\<exists>y. set_choice mode rand r x = Some y \<and> frames st3 (snd (snd y))"
      using frames_trans [of st3 st st'] x by (simp add: x')
  qed simp
  then obtain i' c' st' where 3: "fold_opt (set_choice mode rand) (all_symbols st3) (i, c, st3) = Some (i', c', st')" "frames st3 st'"
    by auto
  have "conf_set_all_new_symbols mode env rand (tab k) = Some (Inr (c', st'))"
    using mode 1 2(1) 3(1) by (simp add: conf_set_all_new_symbols_def st3_def [symmetric])
  moreover have "menus_ok pre (k\<lparr>tab := st'\<rparr>) ts" using frames_menus_ok [OF k3] 3(2) by simp
  moreover have "same_symbols st2 st3" unfolding st3_def by (rule same_symbols_back [OF same_symbols_frames [OF mark_choices_frames]])
  then have "same_symbols (tab k) st'"
    using same_symbols_trans same_symbols_frames [OF f2] same_symbols_frames [OF 3(2)] by blast
  ultimately show ?thesis by blast
qed

section \<open>A whole run\<close>

text \<open>A table of the same symbols whose text is in the file.\<close>

definition holds_configuration :: "cstring \<Rightarrow> kconf \<Rightarrow> cstring \<Rightarrow> fs \<Rightarrow> bool" where
  "holds_configuration pre k name w \<longleftrightarrow> (\<exists>st text k'. same_symbols (tab k) st \<and>
     conf_text pre (k\<lparr>tab := st\<rparr>) = Some (text, k') \<and> fs_files w name = Some text)"

section \<open>Properties\<close>

text \<open>
  C13: \<open>conf --defconfig FILE\<close> ends. Where the file cannot be opened it exits with 1 and changes no file. Otherwise it
  gives the new symbols their values and exits with 0 exactly when the temporary file can be opened and
  renamed; then the whole text of a configuration of the symbols that were parsed is in place, and in
  every case no file but that one, the temporary one and the one with \<open>.old\<close> changes.
\<close>

theorem defconfig_configures:
  assumes parsed: "sys_parse sys kconfig = (k0, files)" "conf_parse k0 = Some (Inr k)" "menus_ok pre k ts"
    and pre: "pre = config_prefix (sys_env sys)" and opened: "zconf_fopen (env_now sys w) file = Some content"
    and env: "\<not> overwrites (env_now sys w)" "split_name (env_now sys w) w (conf_get_configname (env_now sys w)) = (dir, base)"
      "length (dir @ base) + 4 \<le> PATH_MAX" "length (dir @ ''.tmpconfig.'' @ dec_of_int (sys_pid sys)) \<le> PATH_MAX"
    and tmp: "tmp = dir @ ''.tmpconfig.'' @ dec_of_int (sys_pid sys)" "new = dir @ base" "tmp \<noteq> new" "tmp \<noteq> new @ ''.old''"
  shows "\<exists>code out err w'. conf_main progname sys [Some (defconfig, Some file)] (Some kconfig) w = Some (code, out, err, w') \<and>
    code \<le> 1 \<and> (code = 0 \<longleftrightarrow> content \<noteq> None \<and> fs_opens w tmp \<and> fs_renames w tmp new) \<and>
    (content = None \<longrightarrow> w' = w) \<and> (code = 0 \<longrightarrow> holds_configuration pre k new w') \<and>
    (\<forall>f. f \<notin> {tmp, new, new @ ''.old''} \<longrightarrow> fs_files w' f = fs_files w f)"
proof -
  define opts where "opts = \<lparr>o_mode = defconfig, o_sync = False, o_file = Some file, o_seed = 1, o_err = []\<rparr>"
  have run: "conf_main progname sys [Some (defconfig, Some file)] (Some kconfig) w = configure sys opts k files w"
    using parsed(1,2) by (simp add: conf_main_def take_option_def initial_options_def opts_def Let_def)
  have opts: "o_mode opts = defconfig" "\<not> o_sync opts" "o_file opts = Some file" "o_err opts = []" by (simp_all add: opts_def)
  have "config_ok (rd_tab (first_reader (tab k)))" using parsed(3) by (simp add: first_reader_def menus_ok_def)
  from conf_read_goes [OF this opened, of pre "sym_defconfig_list k"] obtain ret rd where
    1: "conf_read (env_now sys w) pre (sym_defconfig_list k) (Some file) (first_reader (tab k)) = Some (ret, rd)"
    "ret = 0 \<longleftrightarrow> content \<noteq> None" "frames (tab k) (rd_tab rd)"
    by (auto simp: first_reader_def)
  show ?thesis
  proof (cases content)
    case None
    with 1(1,2) opts show ?thesis
      by (simp add: run configure_def config_missing_def read_first_def pre [symmetric] Let_def first_reader_def)
  next
    case (Some t)
    define s where "s = first_front sys opts (k\<lparr>tab := rd_tab rd\<rparr>) (conf_messages rd)"
    have s: "fr_mode s = defconfig" "fr_k s = k\<lparr>tab := rd_tab rd\<rparr>" by (simp_all add: s_def first_front_def opts)
    have k1: "menus_ok pre (fr_k s) ts" using frames_menus_ok [OF parsed(3) 1(3)] by (simp add: s)
    obtain c st where 2: "conf_set_all_new_symbols def_default (sys_env sys ''KCONFIG_PROBABILITY'')
        (sys_rand sys (o_seed opts) 0) (tab (fr_k s)) = Some (Inr (c, st))"
      "menus_ok pre ((fr_k s)\<lparr>tab := st\<rparr>) ts" "same_symbols (tab (fr_k s)) st"
      using set_all_total [OF k1, of def_default] by blast
    define s2 where "s2 = with_tab st s"
    have s2: "fr_mode s2 = defconfig" "fr_k s2 = k\<lparr>tab := st\<rparr>" by (simp_all add: s2_def with_tab_def with_k_def s)
    obtain ret' msgs k' w' where 3: "conf_write (env_now sys w) (sys_pid sys) pre (Some (conf_get_configname (env_now sys w))) (fr_k s2, w)
        = Some (ret', msgs, k', w')"
      "if \<not> fs_opens w tmp then ret' = 1 \<and> k' = fr_k s2 \<and> w' = w
       else (\<exists>out k1. conf_text pre (fr_k s2) = Some (out, k1) \<and>
         (if fs_renames w tmp new
          then ret' = 0 \<and> fs_files w' new = Some out \<and> fs_files w' tmp = None \<and> \<not> conf_get_changed (tab k')
          else ret' = 1 \<and> fs_files w' tmp = Some out) \<and>
         (if fs_files w new \<noteq> None \<and> fs_renames w new (new @ ''.old'')
          then fs_files w' (new @ ''.old'') = fs_files w new
          else fs_files w' (new @ ''.old'') = fs_files w (new @ ''.old'')) \<and>
         (\<forall>f. f \<notin> {tmp, new, new @ ''.old''} \<longrightarrow> fs_files w' f = fs_files w f))"
      using write_keeps_files [OF _ env tmp, of pre "fr_k s2" ts] 2(2) by (auto simp: s s2)
    have w: "conf_write (env_now sys w) (sys_pid sys) pre None (fr_k s2, w) = Some (ret', msgs, k', w')"
      using 3(1) by (simp add: conf_write_def)
    have "configure sys opts k files w = save_all sys pre files opts s2 rd w"
      using 1(1,2) 2(1) opts Some
      by (simp add: configure_def config_missing_def read_first_def pre [symmetric] Let_def must_not_update_def
          s_def [symmetric] set_values_def s(1) all_mode_def s2_def)
    also have "\<dots> = Some (if ret' \<noteq> 0 then ends 1 ([nl] @ ''*** Error during writing of the configuration.'' @ [nl, nl])
        (print (message_text msgs) s2) w' else ends 0 [] (print (message_text msgs) s2) w')"
      using w opts s2(1) by (simp add: save_all_def Let_def)
    finally have r: "configure sys opts k files w = \<dots>" .
    have "same_symbols (tab k) st"
      using same_symbols_trans [OF same_symbols_frames [OF 1(3)]] 2(3) by (simp add: s)
    then have "ret' = 0 \<longrightarrow> holds_configuration pre k new w'"
      using 3(2) s2(2) unfolding holds_configuration_def by (auto split: if_splits)
    then show ?thesis using 3(2) Some by (auto simp: run r ends_def split: if_splits)
  qed
qed

text \<open>A root menu alone, and a configuration to start from.\<close>

definition bare_table :: symtab where
  "bare_table = sample_set\<lparr>buckets := (\<lambda>i. [])\<rparr>"

definition bare_conf :: kconf where
  "bare_conf = sample_conf\<lparr>tab := bare_table, menus := (\<lambda>m. sample_menu ''Buildroot Configuration''), next_menu := 1\<rparr>"

definition bare_system :: system where
  "bare_system = \<lparr>sys_env = Map.empty, sys_pid = 7, sys_cwd = ''/'', sys_now = (0, 0), sys_rand = (\<lambda>s i j. 0), sys_stdin = [],
     sys_tty = True, sys_parse = (\<lambda>f. (bare_conf, []))\<rparr>"

definition bare_files :: fs where
  "bare_files = \<lparr>fs_files = [''qemu_defconfig'' \<mapsto> ''# comment'' @ [nl]], fs_dirs = {}, fs_opens = (\<lambda>f. True), fs_renames = (\<lambda>a b. True)\<rparr>"

lemma bare_config: "config_ok bare_table"
proof -
  have r: "refs bare_table = refs sample_set" by (simp add: refs_def bare_table_def)
  have o: "opt_in bare_table = opt_in sample_set" by (simp add: opt_in_def r fun_eq_iff split: option.splits)
  have p: "prop_ok bare_table = prop_ok sample_set" by (simp add: prop_ok_def o fun_eq_iff)
  have "sym_ok bare_table = sym_ok sample_set"
    by (simp add: sym_ok_def o p choice_ok_def fun_eq_iff) (simp add: bare_table_def)
  then have "wf_symtab bare_table" using sample_set_wf(1) by (simp add: wf_symtab_def r) (simp add: bare_table_def)
  then show ?thesis
    using sample_set_wf(2) sample_types by (simp add: config_ok_def members_linked_def r hashed_def) (simp add: bare_table_def)
qed

lemma bare_menus:
  assumes "frames bare_table st" "CHR '' '' \<notin> set pre"
  shows "menus_ok pre (bare_conf\<lparr>tab := st\<rparr>) []"
proof -
  have "modules_plain bare_table"
    by (simp add: modules_plain_def bare_table_def sample_set_simps symbol_no_def sym_is_choice_def)
  then have "menus_ok pre bare_conf []"
    using bare_config assms(2)
    by (simp add: menus_ok_def bare_conf_def sample_menu_def blank_menu_def menu_prompt_def harmless_def sample_property_def
        text_or_empty_def)
  from frames_menus_ok [OF this, of st] show ?thesis using assms by (simp add: bare_conf_def)
qed

lemma bare_parse: "conf_parse bare_conf = Some (Inr (upd_tab (sym_set_change_count 1) bare_conf))"
proof -
  have m: "modules_sym bare_table = Some SymNo" "all_symbols bare_table = []"
    by (simp_all add: bare_table_def sample_set_simps all_symbols_def)
  have e: "expand_root bare_conf = Some bare_conf"
    by (simp add: expand_root_def bare_conf_def sample_menu_def sample_property_def sym_expand_string_value_def
        expand_loop.simps append_to_def upd_menu_def fun_upd_idem)
  have f: "menu_finalize rootmenu bare_conf = Some bare_conf"
    by (simp add: menu_finalize_def bare_conf_def sample_menu_def blank_menu_def final_symbol_def each_menu.simps)
  have k: "upd_tab need_modules bare_conf = bare_conf" "zconfnerrs bare_conf = 0" "tab bare_conf = bare_table"
    "bare_conf\<lparr>tab := bare_table, zconfnerrs := 0\<rparr> = bare_conf"
    using m(1) by (simp_all add: upd_tab_def need_modules_def bare_conf_def sample_conf_def)
  have "upd_tab (sym_set_change_count 1) (bare_conf\<lparr>tab := bare_table, zconfnerrs := 0\<rparr>) = upd_tab (sym_set_change_count 1) bare_conf"
    by (simp only: k(4))
  then show ?thesis using e f k(1,2,3) m(2) by (simp add: conf_parse_def)
qed

theorem defconfig_configures_witness:
  "\<exists>out err w'. conf_main ''conf'' bare_system [Some (defconfig, Some ''qemu_defconfig'')] (Some ''Config.in'') bare_files =
     Some (0, out, err, w') \<and> holds_configuration ''CONFIG_'' (upd_tab (sym_set_change_count 1) bare_conf) ''.config'' w'"
proof -
  define k where "k = upd_tab (sym_set_change_count 1) bare_conf"
  let ?env = "env_now bare_system bare_files"
  have p: "sys_parse bare_system ''Config.in'' = (bare_conf, [])" "config_prefix (sys_env bare_system) = ''CONFIG_''" "sys_pid bare_system = 7"
    by (simp_all add: bare_system_def config_prefix_def)
  have name: "conf_get_configname ?env = ''.config''"
    by (simp add: conf_get_configname_def env_now_def bare_system_def)
  have s: "\<not> overwrites ?env" "split_name ?env bare_files ''.config'' = ([], ''.config'')"
    by (simp_all add: split_name_def overwrites_def env_now_def bare_system_def bare_files_def)
  have n: "split_name ?env bare_files (conf_get_configname ?env) = ([], ''.config'')" unfolding name by (rule s(2))
  have o: "zconf_fopen ?env ''qemu_defconfig'' = Some (Some (''# comment'' @ [nl]))"
    by (simp add: zconf_fopen_def env_now_def bare_files_def)
  have d: "dec_of_int 7 = ''7''" by code_simp
  have l: "length ([] @ ''.config'') + 4 \<le> PATH_MAX" "length ([] @ ''.tmpconfig.'' @ dec_of_int 7) \<le> PATH_MAX"
    "''.tmpconfig.7'' = [] @ ''.tmpconfig.'' @ dec_of_int 7" "''.config'' = [] @ ''.config''"
    "''.tmpconfig.7'' \<noteq> ''.config''" "''.tmpconfig.7'' \<noteq> ''.config'' @ ''.old''"
    by (simp_all add: PATH_MAX_def d)
  have "menus_ok ''CONFIG_'' (bare_conf\<lparr>tab := sym_set_change_count 1 bare_table\<rparr>) []"
    by (rule bare_menus) (simp_all add: sym_set_change_count_def frames_def same_frame_def)
  then have m: "menus_ok ''CONFIG_'' k []" by (simp add: k_def upd_tab_def bare_conf_def)
  have w: "fs_opens bare_files f" "fs_renames bare_files f g" for f g by (simp_all add: bare_files_def)
  obtain code out err w' where r:
    "conf_main ''conf'' bare_system [Some (defconfig, Some ''qemu_defconfig'')] (Some ''Config.in'') bare_files = Some (code, out, err, w')"
    "code = 0 \<longleftrightarrow> Some (''# comment'' @ [nl]) \<noteq> None \<and> fs_opens bare_files ''.tmpconfig.7'' \<and> fs_renames bare_files ''.tmpconfig.7'' ''.config''"
    "code = 0 \<longrightarrow> holds_configuration ''CONFIG_'' k ''.config'' w'"
    using defconfig_configures [OF p(1) bare_parse [folded k_def] m p(2) [symmetric] o s(1) n l(1)
        l(2) [folded p(3)] l(3) [folded p(3)] l(4,5,6), of "''conf''"]
    by (elim exE conjE) (rule that)
  then show ?thesis unfolding k_def [symmetric] by (simp add: w)
qed

end
