(* ===== verification/Kgettext.thy ===== *)
theory Kgettext
  imports Kmain
begin

text \<open>
  The program \<open>support/kconfig/kxgettext.c\<close>: it collects the prompts and help texts of the menus and prints
  them as a template for translation. Allocation does not fail; the list of messages is a list, the
  newest first. None is a write outside the buffer of \<open>escape\<close>, a NULL text, or menus that are no tree.
\<close>

section \<open>Quoting\<close>

abbreviation quote :: char where "quote \<equiv> CHR 0x22"
abbreviation backslash :: char where "backslash \<equiv> CHR 0x5C"

text \<open>The loop: \<open>len\<close> is what the code takes for the space that is left, which for a quote is one too many.\<close>

fun escape_step :: "cstring \<Rightarrow> int \<Rightarrow> cstring \<Rightarrow> cstring" where
  "escape_step [] len bf = bf"
| "escape_step (c # text) len bf =
     (if len \<le> 1 then bf
      else if c = quote then escape_step text (len - 1) (bf @ [backslash, c])
      else if c = nl then escape_step text (len - 5 - 1) (bf @ [backslash, CHR ''n'', quote, nl, quote])
      else if c = backslash then escape_step text (len - 1 - 1) (bf @ [backslash, c])
      else escape_step text (len - 1) (bf @ [c]))"

definition escape :: "cstring \<Rightarrow> nat \<Rightarrow> cstring option" where
  "escape text space =
     (let multiline = nl \<in> set text;
          eol = (text \<noteq> [] \<and> last text = nl);
          bf = escape_step text (int space - 1 - (if multiline then 3 else 0))
                 ([quote] @ (if multiline then [quote, nl, quote] else []));
          bfp = length bf - (if multiline \<and> eol then 3 else 0)
      in if length bf > space \<or> bfp + 2 > space then None else Some (take bfp bf @ [quote]))"

section \<open>The messages\<close>

record message =
  msg :: cstring
  msg_option :: "cstring option"
  msg_files :: "(cstring \<times> nat) list"

definition message_new :: "cstring \<Rightarrow> cstring option \<Rightarrow> cstring \<times> nat \<Rightarrow> message" where
  "message_new t option loc = \<lparr>msg = t, msg_option = option, msg_files = [loc]\<rparr>"

text \<open>\<open>mesage__find\<close> and \<open>message__add_file_line\<close>: the first message with the text gets another place.\<close>

fun add_file_line :: "cstring \<Rightarrow> cstring \<times> nat \<Rightarrow> message list \<Rightarrow> message list option" where
  "add_file_line t loc [] = None"
| "add_file_line t loc (m # ms) =
     (if msg m = t then Some (m\<lparr>msg_files := loc # msg_files m\<rparr> # ms)
      else map_option (\<lambda>ms. m # ms) (add_file_line t loc ms))"

definition message_add :: "cstring \<Rightarrow> cstring option \<Rightarrow> cstring \<times> nat \<Rightarrow> message list \<Rightarrow> message list option" where
  "message_add t option loc ms = do {
     e \<leftarrow> escape t 16384;
     Some (case add_file_line e loc ms of Some ms \<Rightarrow> ms | None \<Rightarrow> message_new e option loc # ms)
   }"

text \<open>Only the root menu has no file.\<close>

definition menu_place :: "kconf \<Rightarrow> nat \<Rightarrow> cstring \<times> nat" where
  "menu_place k m = (if fst (mn_pos (menus k m)) = [] then ''Root Menu'' else fst (mn_pos (menus k m)), snd (mn_pos (menus k m)))"

definition add_entry :: "kconf \<Rightarrow> nat \<Rightarrow> message list \<Rightarrow> message list option" where
  "add_entry k m ms = do {
     t \<leftarrow> menu_get_prompt k m;
     ms \<leftarrow> message_add t None (menu_place k m) ms;
     case mn_sym (menus k m) of
       Some r \<Rightarrow>
         if menu_has_help k m
         then message_add (menu_get_help k m) (s_name (syms (tab k) r)) (menu_place k m) ms
         else Some ms
     | None \<Rightarrow> Some ms
   }"

text \<open>\<open>menu_build_message_list\<close> of an entry, and its loop over a list of siblings.\<close>

datatype build = Build nat | Builds "nat option"

partial_function (option) menu_build_message_list :: "kconf \<Rightarrow> build \<Rightarrow> message list \<Rightarrow> message list option" where
  "menu_build_message_list k b ms =
     (case b of
        Build m \<Rightarrow> do {
          ms \<leftarrow> add_entry k m ms;
          menu_build_message_list k (Builds (mn_list (menus k m))) ms
        }
      | Builds None \<Rightarrow> Some ms
      | Builds (Some c) \<Rightarrow> do {
          ms \<leftarrow> (if menu_prompt k c \<noteq> None then menu_build_message_list k (Build c) ms else Some ms);
          menu_build_message_list k (Builds (mn_next (menus k c))) ms
        })"

section \<open>Printing, and main\<close>

definition place_text :: "cstring \<times> nat \<Rightarrow> cstring" where
  "place_text p = fst p @ '':'' @ dec_of_nat (snd p)"

definition print_file_lineno :: "message \<Rightarrow> cstring" where
  "print_file_lineno m =
     [nl] @ (case msg_option m of Some n \<Rightarrow> ''# '' @ n @ '':00000'' @ [nl] | None \<Rightarrow> []) @
     ''#: '' @ place_text (hd (msg_files m)) @ concat (map (\<lambda>p. '', '' @ place_text p) (tl (msg_files m))) @ [nl]"

definition print_gettext_msgid_msgstr :: "message \<Rightarrow> cstring" where
  "print_gettext_msgid_msgstr m =
     print_file_lineno m @ ''msgid '' @ msg m @ [nl] @ ''msgstr '' @ [quote, quote, nl]"

text \<open>\<open>sizeof\<close> of a literal of two characters is 3, so a text of one character is passed over as well.\<close>

definition menu_xgettext :: "message list \<Rightarrow> cstring" where
  "menu_xgettext ms = concat (map print_gettext_msgid_msgstr (filter (\<lambda>m. length (msg m) > 3) ms))"

text \<open>The exit code and the output.\<close>

definition xgettext_main :: "system \<Rightarrow> cstring \<Rightarrow> (nat \<times> cstring) option" where
  "xgettext_main sys name = do {
     r \<leftarrow> conf_parse (fst (sys_parse sys name));
     case r of
       Inl code \<Rightarrow> Some (code, [])
     | Inr k \<Rightarrow> map_option (\<lambda>ms. (0, menu_xgettext ms)) (menu_build_message_list k (Build rootmenu) [])
   }"

section \<open>Reading a quoted text\<close>

text \<open>A text in a file of translations: quoted pieces, one after the other.\<close>

fun po_text :: "bool \<Rightarrow> cstring \<Rightarrow> cstring" where
  "po_text inside [] = []"
| "po_text False (c # t) = po_text (c = quote) t"
| "po_text True [c] = []"
| "po_text True (c # d # t) =
     (if c = quote then po_text False (d # t)
      else if c = backslash then (if d = CHR ''n'' then nl else d) # po_text True t
      else c # po_text True (d # t))"

definition po_read :: "cstring \<Rightarrow> cstring" where
  "po_read = po_text False"

fun po_char :: "char \<Rightarrow> cstring" where
  "po_char c =
     (if c = quote \<or> c = backslash then [backslash, c]
      else if c = nl then [backslash, CHR ''n'', quote, nl, quote] else [c])"

definition po_length :: "cstring \<Rightarrow> nat" where
  "po_length t = sum_list (map (\<lambda>c. if c = nl then 6 else length (po_char c)) t)"

lemma escape_step_all:
  "int (po_length t) + 1 < len \<Longrightarrow> escape_step t len bf = bf @ concat (map po_char t)"
proof (induction t arbitrary: len bf)
  case (Cons c t)
  then show ?case by (cases "c = quote"; cases "c = nl"; cases "c = backslash") (simp_all add: po_length_def)
qed simp

declare po_char.simps [simp del]

lemma po_length_text: "length (concat (map po_char t)) \<le> po_length t"
  by (induction t) (auto simp: po_length_def po_char.simps)

lemma po_text_char: "y \<noteq> [] \<Longrightarrow> po_text True (po_char c @ y) = c # po_text True y"
  by (cases y) (auto simp: po_char.simps)

lemma po_text_body: "y \<noteq> [] \<Longrightarrow> po_text True (concat (map po_char t) @ y) = t @ po_text True y"
proof (induction t)
  case (Cons c t)
  have "po_text True (po_char c @ concat (map po_char t) @ y) = c # po_text True (concat (map po_char t) @ y)"
    by (rule po_text_char) (simp add: Cons.prems)
  with Cons show ?case by simp
qed simp

lemma escape_reads_back:
  assumes "po_length t + 6 \<le> n"
  shows "\<exists>e. escape t n = Some e \<and> po_read e = t"
proof (cases "nl \<in> set t")
  case False
  let ?bf = "quote # concat (map po_char t)"
  have b: "escape_step t (int n - 1) [quote] = ?bf"
    using escape_step_all [of t "int n - 1" "[quote]"] assms by simp
  have l: "length ?bf + 2 \<le> n" using po_length_text [of t] assms by simp
  have e: "escape t n = Some (?bf @ [quote])"
    using b l False unfolding escape_def by (simp add: Let_def)
  show ?thesis using po_text_body [of "[quote]" t] by (simp add: e po_read_def)
next
  case True
  let ?head = "[quote, quote, nl, quote]"
  let ?bf = "?head @ concat (map po_char t)"
  have b: "escape_step t (int n - 1 - 3) ([quote] @ [quote, nl, quote]) = ?bf"
    using escape_step_all [of t "int n - 1 - 3" ?head] assms by simp
  have l: "length ?bf + 2 \<le> n" using po_length_text [of t] assms by simp
  have read: "po_text False (?head @ r) = po_text True r" for r by (cases r) simp_all
  show ?thesis
  proof (cases "last t = nl")
    case eol: True
    then obtain u where u: "t = u @ [nl]" using True by (metis append_butlast_last_id empty_iff list.set(1))
    let ?r = "?head @ concat (map po_char u) @ [backslash, CHR ''n'']"
    have bf: "?bf = ?r @ [quote, nl, quote]" by (simp add: u po_char.simps)
    have "escape t n = Some (take (length ?bf - 3) ?bf @ [quote])"
      using b l True eol unfolding escape_def by (auto simp: Let_def numeral_3_eq_3 simp del: append_Cons)
    then have e: "escape t n = Some (?r @ [quote])" unfolding bf by simp
    have "po_text True (concat (map po_char u) @ [backslash, CHR ''n'', quote]) = t"
      by (simp add: po_text_body u)
    then have body: "po_text False (?r @ [quote]) = t" using read by simp
    show ?thesis using e body by (simp add: po_read_def)
  next
    case False
    have e: "escape t n = Some (?bf @ [quote])"
      using b l True False unfolding escape_def by (simp add: Let_def)
    show ?thesis using po_text_body [of "[quote]" t] read by (simp add: e po_read_def)
  qed
qed

section \<open>Collecting\<close>

text \<open>A text that was collected, with the name of the symbol of a help text and the place.\<close>

type_synonym collected_text = "cstring \<times> cstring option \<times> (cstring \<times> nat)"

definition uses :: "collected_text list \<Rightarrow> cstring \<Rightarrow> collected_text list" where
  "uses cs t = filter (\<lambda>c. fst c = t) cs"

text \<open>The messages hold the texts: each text is one message, with all its places, the last one first.\<close>

definition gathered :: "message list \<Rightarrow> collected_text list \<Rightarrow> bool" where
  "gathered ms cs \<longleftrightarrow> distinct (map msg ms) \<and> (\<lambda>m. po_read (msg m)) ` set ms = fst ` set cs \<and>
     (\<forall>m \<in> set ms. escape (po_read (msg m)) 16384 = Some (msg m) \<and>
        msg_files m = rev (map (snd \<circ> snd) (uses cs (po_read (msg m)))) \<and>
        msg_option m = fst (snd (hd (uses cs (po_read (msg m))))))"

lemma add_file_line_map:
  "distinct (map msg ms) \<Longrightarrow> add_file_line e loc ms =
     (if e \<in> msg ` set ms then Some (map (\<lambda>m. if msg m = e then m\<lparr>msg_files := loc # msg_files m\<rparr> else m) ms) else None)"
proof (induction ms)
  case (Cons m ms)
  have "map (\<lambda>m. if msg m = e then m\<lparr>msg_files := loc # msg_files m\<rparr> else m) ms = ms" if "e \<notin> msg ` set ms"
    using that by (intro map_idI) auto
  with Cons show ?case by auto
qed simp

lemma uses_append [simp]: "uses (cs @ [(t, option, loc)]) u = uses cs u @ (if t = u then [(t, option, loc)] else [])"
  by (simp add: uses_def)

lemma message_add_gathered:
  assumes g: "gathered ms cs" and fits: "po_length t + 6 \<le> 16384"
  shows "\<exists>ms'. message_add t option loc ms = Some ms' \<and> gathered ms' (cs @ [(t, option, loc)])"
proof -
  obtain e where e: "escape t 16384 = Some e" "po_read e = t" using escape_reads_back [OF fits] by blast
  have d: "distinct (map msg ms)" and texts: "(\<lambda>m. po_read (msg m)) ` set ms = fst ` set cs"
    and held: "\<And>m. m \<in> set ms \<Longrightarrow> escape (po_read (msg m)) 16384 = Some (msg m)"
    and files: "\<And>m. m \<in> set ms \<Longrightarrow> msg_files m = rev (map (snd \<circ> snd) (uses cs (po_read (msg m))))"
    and opt: "\<And>m. m \<in> set ms \<Longrightarrow> msg_option m = fst (snd (hd (uses cs (po_read (msg m)))))"
    using g by (simp_all add: gathered_def)
  have same: "po_read (msg m) = t \<longleftrightarrow> msg m = e" if "m \<in> set ms" for m
  proof
    assume "po_read (msg m) = t"
    then show "msg m = e" using held [OF that] e(1) by simp
  qed (use e(2) in simp)
  have some: "uses cs (po_read (msg m)) \<noteq> []" if "m \<in> set ms" for m
  proof -
    have "po_read (msg m) \<in> fst ` set cs" unfolding texts [symmetric] using that by (rule imageI)
    then obtain c where "po_read (msg m) = fst c" "c \<in> set cs" by (rule imageE)
    then show ?thesis unfolding uses_def filter_empty_conv by metis
  qed
  show ?thesis
  proof (cases "e \<in> msg ` set ms")
    case True
    let ?f = "\<lambda>m. if msg m = e then m\<lparr>msg_files := loc # msg_files m\<rparr> else m"
    have msg: "msg (?f m) = msg m" "msg_option (?f m) = msg_option m" for m by simp_all
    have "message_add t option loc ms = Some (map ?f ms)"
      using True d e(1) by (simp add: message_add_def add_file_line_map)
    moreover have "gathered (map ?f ms) (cs @ [(t, option, loc)])"
      unfolding gathered_def
    proof (intro conjI ballI)
      have same_msg: "map msg (map ?f ms) = map msg ms" by simp
      then show "distinct (map msg (map ?f ms))" using d by (simp only:)
      obtain m0 where "m0 \<in> set ms" "msg m0 = e" using True by blast
      then have "t \<in> fst ` set cs" unfolding texts [symmetric] using e(2) by blast
      moreover have "(\<lambda>m. po_read (msg m)) ` set (map ?f ms) = (\<lambda>m. po_read (msg m)) ` set ms"
        using arg_cong [OF same_msg, of "\<lambda>xs. po_read ` set xs"] by (simp only: set_map image_image)
      ultimately show "(\<lambda>m. po_read (msg m)) ` set (map ?f ms) = fst ` set (cs @ [(t, option, loc)])"
        unfolding texts by (simp add: insert_absorb)
    next
      fix x assume "x \<in> set (map ?f ms)"
      then obtain m where m: "m \<in> set ms" "x = ?f m" by auto
      have x: "msg x = msg m" "msg_option x = msg_option m" "msg_files x = (if msg m = e then [loc] else []) @ msg_files m"
        unfolding m(2) by simp_all
      show "escape (po_read (msg x)) 16384 = Some (msg x)" unfolding x by (rule held [OF m(1)])
      show "msg_files x = rev (map (snd \<circ> snd) (uses (cs @ [(t, option, loc)]) (po_read (msg x))))"
        unfolding x files [OF m(1)] using same [OF m(1)] by auto
      show "msg_option x = fst (snd (hd (uses (cs @ [(t, option, loc)]) (po_read (msg x)))))"
        unfolding x opt [OF m(1)] using some [OF m(1)] by simp
    qed
    ultimately show ?thesis by blast
  next
    case False
    have "message_add t option loc ms = Some (message_new e option loc # ms)"
      using False d e(1) by (simp add: message_add_def add_file_line_map)
    moreover have new: "t \<notin> fst ` set cs"
    proof
      assume "t \<in> fst ` set cs"
      then obtain m where "m \<in> set ms" "t = po_read (msg m)" unfolding texts [symmetric] by blast
      with same [of m] False show False by auto
    qed
    have "gathered (message_new e option loc # ms) (cs @ [(t, option, loc)])"
      unfolding gathered_def
    proof (intro conjI ballI)
      show "distinct (map msg (message_new e option loc # ms))" using d False by (simp add: message_new_def)
      show "(\<lambda>m. po_read (msg m)) ` set (message_new e option loc # ms) = fst ` set (cs @ [(t, option, loc)])"
        using texts e(2) by (simp add: message_new_def)
    next
      fix m assume "m \<in> set (message_new e option loc # ms)"
      then consider "m = message_new e option loc" | "m \<in> set ms" "msg m \<noteq> e" using False by auto
      then have "escape (po_read (msg m)) 16384 = Some (msg m) \<and>
        msg_files m = rev (map (snd \<circ> snd) (uses (cs @ [(t, option, loc)]) (po_read (msg m)))) \<and>
        msg_option m = fst (snd (hd (uses (cs @ [(t, option, loc)]) (po_read (msg m)))))"
      proof cases
        case 1
        have "uses cs t = []" using new by (auto simp: uses_def filter_empty_conv)
        then show ?thesis using e by (simp add: 1 message_new_def)
      next
        case 2
        have "t \<noteq> po_read (msg m)" using same [OF 2(1)] 2(2) by auto
        then show ?thesis using held [OF 2(1)] files [OF 2(1)] opt [OF 2(1)] by simp
      qed
      then show "escape (po_read (msg m)) 16384 = Some (msg m)"
        "msg_files m = rev (map (snd \<circ> snd) (uses (cs @ [(t, option, loc)]) (po_read (msg m))))"
        "msg_option m = fst (snd (hd (uses (cs @ [(t, option, loc)]) (po_read (msg m)))))" by simp_all
    qed
    ultimately show ?thesis by blast
  qed
qed

text \<open>The texts of an entry, and of a list of entries; entries without a prompt are left out with all below them.\<close>

definition entry_texts :: "kconf \<Rightarrow> nat \<Rightarrow> collected_text list" where
  "entry_texts k m = [(text_or_empty (menu_get_prompt k m), None, menu_place k m)] @
     (case mn_sym (menus k m) of
        Some r \<Rightarrow> if menu_has_help k m then [(menu_get_help k m, s_name (syms (tab k) r), menu_place k m)] else []
      | None \<Rightarrow> [])"

fun forest_texts :: "kconf \<Rightarrow> mtree list \<Rightarrow> collected_text list" where
  "forest_texts k [] = []"
| "forest_texts k (MNode m ks # ts) =
     (if menu_prompt k m \<noteq> None then entry_texts k m @ forest_texts k ks else []) @ forest_texts k ts"

definition texts_fit :: "kconf \<Rightarrow> nat \<Rightarrow> bool" where
  "texts_fit k m \<longleftrightarrow> menu_get_prompt k m \<noteq> None \<and>
     po_length (text_or_empty (menu_get_prompt k m)) + 6 \<le> 16384 \<and> po_length (menu_get_help k m) + 6 \<le> 16384"

definition all_texts_fit :: "kconf \<Rightarrow> mtree list \<Rightarrow> bool" where
  "all_texts_fit k ts \<longleftrightarrow> texts_fit k rootmenu \<and> (\<forall>m \<in> set (preorder ts). menu_prompt k m \<noteq> None \<longrightarrow> texts_fit k m)"

lemma add_entry_gathered:
  assumes "gathered ms cs" "texts_fit k m"
  shows "\<exists>ms'. add_entry k m ms = Some ms' \<and> gathered ms' (cs @ entry_texts k m)"
proof -
  obtain t where t: "menu_get_prompt k m = Some t" using assms(2) by (auto simp: texts_fit_def)
  then have l: "po_length t + 6 \<le> 16384" "po_length (menu_get_help k m) + 6 \<le> 16384"
    using assms(2) by (simp_all add: texts_fit_def text_or_empty_def)
  obtain ms1 where 1: "message_add t None (menu_place k m) ms = Some ms1" "gathered ms1 (cs @ [(t, None, menu_place k m)])"
    using message_add_gathered [OF assms(1) l(1)] by blast
  show ?thesis
  proof (cases "mn_sym (menus k m) \<noteq> None \<and> menu_has_help k m")
    case True
    then obtain r where r: "mn_sym (menus k m) = Some r" by blast
    obtain ms2 where "message_add (menu_get_help k m) (s_name (syms (tab k) r)) (menu_place k m) ms1 = Some ms2"
      "gathered ms2 ((cs @ [(t, None, menu_place k m)]) @ [(menu_get_help k m, s_name (syms (tab k) r), menu_place k m)])"
      using message_add_gathered [OF 1(2) l(2)] by blast
    with 1(1) t r True show ?thesis by (simp add: add_entry_def entry_texts_def text_or_empty_def)
  next
    case False
    with 1 t show ?thesis by (auto simp: add_entry_def entry_texts_def text_or_empty_def split: option.split)
  qed
qed

lemma build_forest:
  "gathered ms cs \<Longrightarrow> forest (menus k) par p ts \<Longrightarrow>
   (\<And>m. m \<in> set (preorder ts) \<Longrightarrow> menu_prompt k m \<noteq> None \<Longrightarrow> texts_fit k m) \<Longrightarrow>
   \<exists>ms'. menu_build_message_list k (Builds p) ms = Some ms' \<and> gathered ms' (cs @ forest_texts k ts)"
proof (induction ts arbitrary: ms cs par p rule: preorder.induct)
  case 1
  then show ?case by (simp add: menu_build_message_list.simps [of k "Builds None"])
next
  case (2 m ks ts)
  then have f: "p = Some m" "forest (menus k) (Some m) (mn_list (menus k m)) ks" "forest (menus k) par (mn_next (menus k m)) ts"
    by auto
  have "\<exists>ms1. (if menu_prompt k m \<noteq> None then menu_build_message_list k (Build m) ms else Some ms) = Some ms1 \<and>
      gathered ms1 (cs @ (if menu_prompt k m \<noteq> None then entry_texts k m @ forest_texts k ks else []))"
  proof (cases "menu_prompt k m")
    case None
    with 2(3) show ?thesis by simp
  next
    case (Some q)
    then have "texts_fit k m" using 2(5) by simp
    then obtain ms1 where 1: "add_entry k m ms = Some ms1" "gathered ms1 (cs @ entry_texts k m)"
      using add_entry_gathered [OF 2(3)] by blast
    obtain ms2 where "menu_build_message_list k (Builds (mn_list (menus k m))) ms1 = Some ms2"
      "gathered ms2 ((cs @ entry_texts k m) @ forest_texts k ks)"
      using "2.IH"(1) [OF 1(2) f(2)] 2(5) by auto
    with 1(1) Some show ?thesis by (simp add: menu_build_message_list.simps [of k "Build m"])
  qed
  then obtain ms1 where 1: "(if menu_prompt k m \<noteq> None then menu_build_message_list k (Build m) ms else Some ms) = Some ms1"
    "gathered ms1 (cs @ (if menu_prompt k m \<noteq> None then entry_texts k m @ forest_texts k ks else []))" by blast
  obtain ms2 where "menu_build_message_list k (Builds (mn_next (menus k m))) ms1 = Some ms2"
    "gathered ms2 ((cs @ (if menu_prompt k m \<noteq> None then entry_texts k m @ forest_texts k ks else [])) @ forest_texts k ts)"
    using "2.IH"(2) [OF 1(2) f(3)] 2(5) by auto
  with 1(1) f(1) show ?case by (simp add: menu_build_message_list.simps [of k "Builds (Some m)"])
qed

section \<open>Properties\<close>

text \<open>
  C16: for menus that form a tree and texts that fit the buffer of \<open>escape\<close> \<open>menu_build_message_list\<close> ends. Each prompt
  and help text of an entry, as a file of translations reads it, is exactly one message, with every
  place where it is used, the last one first, and the symbol of the first; entries without a prompt are left out
  with all that is below them.
\<close>

theorem messages_collected:
  assumes "forest (menus k) (Some rootmenu) (mn_list (menus k rootmenu)) ts"
    and "all_texts_fit k ts"
  shows "\<exists>ms cs. menu_build_message_list k (Build rootmenu) [] = Some ms \<and> cs = entry_texts k rootmenu @ forest_texts k ts \<and>
    distinct (map (\<lambda>m. po_read (msg m)) ms) \<and> (\<lambda>m. po_read (msg m)) ` set ms = fst ` set cs \<and>
    (\<forall>m \<in> set ms. msg_files m = rev (map (snd \<circ> snd) (uses cs (po_read (msg m)))) \<and>
       msg_option m = fst (snd (hd (uses cs (po_read (msg m))))))"
proof -
  have "gathered [] []" by (simp add: gathered_def)
  then obtain ms1 where 1: "add_entry k rootmenu [] = Some ms1" "gathered ms1 ([] @ entry_texts k rootmenu)"
    using add_entry_gathered [of "[]" "[]" k rootmenu] assms(2) by (auto simp: all_texts_fit_def)
  obtain ms where 2: "menu_build_message_list k (Builds (mn_list (menus k rootmenu))) ms1 = Some ms"
    "gathered ms (([] @ entry_texts k rootmenu) @ forest_texts k ts)"
    using build_forest [OF 1(2) assms(1)] assms(2) by (auto simp: all_texts_fit_def)
  have held: "\<And>m. m \<in> set ms \<Longrightarrow> escape (po_read (msg m)) 16384 = Some (msg m)" and inj: "inj_on msg (set ms)"
    using 2(2) by (simp_all add: gathered_def distinct_map)
  have "inj_on (\<lambda>m. po_read (msg m)) (set ms)"
  proof (rule inj_onI)
    fix x y assume m: "x \<in> set ms" "y \<in> set ms" and eq: "po_read (msg x) = po_read (msg y)"
    have "escape (po_read (msg y)) 16384 = Some (msg x)" using held [OF m(1)] by (simp only: eq)
    from trans [OF sym [OF this] held [OF m(2)]] have "msg x = msg y" by (simp only: option.inject)
    then show "x = y" using inj m by (simp add: inj_on_def)
  qed
  then have "distinct (map (\<lambda>m. po_read (msg m)) ms)"
    using 2(2) by (simp add: gathered_def distinct_map)
  moreover have "menu_build_message_list k (Build rootmenu) [] = Some ms"
    using 1(1) 2(1) by (simp add: menu_build_message_list.simps [of k "Build rootmenu"])
  ultimately show ?thesis
    using 2(2) unfolding gathered_def append_Nil
    by (intro exI [of _ ms] exI [of _ "entry_texts k rootmenu @ forest_texts k ts"] conjI ballI refl) blast+
qed

theorem messages_collected_witness:
  "\<exists>ms. menu_build_message_list sample_conf (Build rootmenu) [] = Some ms \<and>
     (\<lambda>m. po_read (msg m)) ` set ms = {''Buildroot Configuration'', ''foo'', ''more options''}"
proof -
  have f: "forest (menus sample_conf) (Some rootmenu) (mn_list (menus sample_conf rootmenu)) [MNode 1 [], MNode 2 []]"
    by (simp add: sample_conf_def blank_menu_def sample_menu_def)
  have fit: "texts_fit sample_conf m" if "m \<in> {0, 1, 2}" for m
    using that by (auto simp: texts_fit_def text_or_empty_def menu_get_prompt_def menu_prompt_def menu_get_help_def sample_conf_def
        blank_menu_def sample_menu_def sample_property_def sample_table_simps sample_set_simps po_length_def po_char.simps)
  have "entry_texts sample_conf rootmenu @ forest_texts sample_conf [MNode 1 [], MNode 2 []] =
      [(''Buildroot Configuration'', None, ''Root Menu'', 0), (''foo'', None, ''Root Menu'', 0), (''more options'', None, ''Root Menu'', 0)]"
    by (simp add: entry_texts_def text_or_empty_def menu_get_prompt_def menu_prompt_def menu_has_help_def menu_place_def sample_conf_def
        blank_menu_def sample_menu_def sample_property_def sample_table_simps sample_set_simps)
  moreover have fit': "all_texts_fit sample_conf [MNode 1 [], MNode 2 []]" using fit by (simp add: all_texts_fit_def)
  obtain ms cs where "menu_build_message_list sample_conf (Build rootmenu) [] = Some ms"
    "cs = entry_texts sample_conf rootmenu @ forest_texts sample_conf [MNode 1 [], MNode 2 []]"
    "(\<lambda>m. po_read (msg m)) ` set ms = fst ` set cs"
    using messages_collected [OF f fit'] by (elim exE conjE) (rule that)
  ultimately show ?thesis by (intro exI [of _ ms]) simp
qed

text \<open>
  \<open>escape\<close> counts a quotation mark as one character and writes two, so 8191 of them fill its buffer and are
  written past its end, where a text of letters of any length is cut.
\<close>

theorem escape_overflow: "escape (replicate n quote) 16384 = None \<longleftrightarrow> 8191 \<le> n"
proof -
  have s: "escape_step (replicate n quote) len bf = bf @ concat (replicate (min n (nat (len - 1))) [backslash, quote])" for len bf
  proof (induction n arbitrary: len bf)
    case (Suc n)
    show ?case
    proof (cases "len \<le> 1")
      case False
      then have "min (Suc n) (nat (len - 1)) = Suc (min n (nat (len - 1 - 1)))" by (simp add: nat_diff_distrib')
      with False Suc show ?thesis by simp
    qed simp
  qed simp
  have "length (escape_step (replicate n quote) 16383 [quote]) = 1 + 2 * min n 16382" unfolding s
    by (simp add: length_concat sum_list_replicate)
  moreover have "nl \<notin> set (replicate n quote)" by simp
  ultimately show ?thesis unfolding escape_def by (simp add: Let_def) arith
qed

end
