(* ===== verification/Mkpimage.thy ===== *)
theory Mkpimage
  imports Kbase
begin

text \<open>
  \<open>package/mkpimage/mkpimage.c\<close>: puts a header (\<open>struct socfpga_header\<close>) into an image and a checksum behind it. A buffer is a list of bytes, a C int of the program a bounded
  integer (all sizes are below 64 KiB), \<open>uint32_t\<close> a 32 bit word. The image that is written
  has every field of the header and the checksum right (\<open>image_complete\<close>), the table of the checksum is the
  polynomial 0x04c11db7 (\<open>crc32_bitwise\<close>), and the reading loop gives the file whatever
  parts \<open>read\<close> returns it in.
\<close>

unbundle bit_operations_syntax

section \<open>The checksum\<close>

definition crc_table :: "32 word list" where
  "crc_table =
     [0x00000000, 0x04c11db7, 0x09823b6e, 0x0d4326d9, 0x130476dc, 0x17c56b6b, 0x1a864db2, 0x1e475005,
      0x2608edb8, 0x22c9f00f, 0x2f8ad6d6, 0x2b4bcb61, 0x350c9b64, 0x31cd86d3, 0x3c8ea00a, 0x384fbdbd,
      0x4c11db70, 0x48d0c6c7, 0x4593e01e, 0x4152fda9, 0x5f15adac, 0x5bd4b01b, 0x569796c2, 0x52568b75,
      0x6a1936c8, 0x6ed82b7f, 0x639b0da6, 0x675a1011, 0x791d4014, 0x7ddc5da3, 0x709f7b7a, 0x745e66cd,
      0x9823b6e0, 0x9ce2ab57, 0x91a18d8e, 0x95609039, 0x8b27c03c, 0x8fe6dd8b, 0x82a5fb52, 0x8664e6e5,
      0xbe2b5b58, 0xbaea46ef, 0xb7a96036, 0xb3687d81, 0xad2f2d84, 0xa9ee3033, 0xa4ad16ea, 0xa06c0b5d,
      0xd4326d90, 0xd0f37027, 0xddb056fe, 0xd9714b49, 0xc7361b4c, 0xc3f706fb, 0xceb42022, 0xca753d95,
      0xf23a8028, 0xf6fb9d9f, 0xfbb8bb46, 0xff79a6f1, 0xe13ef6f4, 0xe5ffeb43, 0xe8bccd9a, 0xec7dd02d,
      0x34867077, 0x30476dc0, 0x3d044b19, 0x39c556ae, 0x278206ab, 0x23431b1c, 0x2e003dc5, 0x2ac12072,
      0x128e9dcf, 0x164f8078, 0x1b0ca6a1, 0x1fcdbb16, 0x018aeb13, 0x054bf6a4, 0x0808d07d, 0x0cc9cdca,
      0x7897ab07, 0x7c56b6b0, 0x71159069, 0x75d48dde, 0x6b93dddb, 0x6f52c06c, 0x6211e6b5, 0x66d0fb02,
      0x5e9f46bf, 0x5a5e5b08, 0x571d7dd1, 0x53dc6066, 0x4d9b3063, 0x495a2dd4, 0x44190b0d, 0x40d816ba,
      0xaca5c697, 0xa864db20, 0xa527fdf9, 0xa1e6e04e, 0xbfa1b04b, 0xbb60adfc, 0xb6238b25, 0xb2e29692,
      0x8aad2b2f, 0x8e6c3698, 0x832f1041, 0x87ee0df6, 0x99a95df3, 0x9d684044, 0x902b669d, 0x94ea7b2a,
      0xe0b41de7, 0xe4750050, 0xe9362689, 0xedf73b3e, 0xf3b06b3b, 0xf771768c, 0xfa325055, 0xfef34de2,
      0xc6bcf05f, 0xc27dede8, 0xcf3ecb31, 0xcbffd686, 0xd5b88683, 0xd1799b34, 0xdc3abded, 0xd8fba05a,
      0x690ce0ee, 0x6dcdfd59, 0x608edb80, 0x644fc637, 0x7a089632, 0x7ec98b85, 0x738aad5c, 0x774bb0eb,
      0x4f040d56, 0x4bc510e1, 0x46863638, 0x42472b8f, 0x5c007b8a, 0x58c1663d, 0x558240e4, 0x51435d53,
      0x251d3b9e, 0x21dc2629, 0x2c9f00f0, 0x285e1d47, 0x36194d42, 0x32d850f5, 0x3f9b762c, 0x3b5a6b9b,
      0x0315d626, 0x07d4cb91, 0x0a97ed48, 0x0e56f0ff, 0x1011a0fa, 0x14d0bd4d, 0x19939b94, 0x1d528623,
      0xf12f560e, 0xf5ee4bb9, 0xf8ad6d60, 0xfc6c70d7, 0xe22b20d2, 0xe6ea3d65, 0xeba91bbc, 0xef68060b,
      0xd727bbb6, 0xd3e6a601, 0xdea580d8, 0xda649d6f, 0xc423cd6a, 0xc0e2d0dd, 0xcda1f604, 0xc960ebb3,
      0xbd3e8d7e, 0xb9ff90c9, 0xb4bcb610, 0xb07daba7, 0xae3afba2, 0xaafbe615, 0xa7b8c0cc, 0xa379dd7b,
      0x9b3660c6, 0x9ff77d71, 0x92b45ba8, 0x9675461f, 0x8832161a, 0x8cf30bad, 0x81b02d74, 0x857130c3,
      0x5d8a9099, 0x594b8d2e, 0x5408abf7, 0x50c9b640, 0x4e8ee645, 0x4a4ffbf2, 0x470cdd2b, 0x43cdc09c,
      0x7b827d21, 0x7f436096, 0x7200464f, 0x76c15bf8, 0x68860bfd, 0x6c47164a, 0x61043093, 0x65c52d24,
      0x119b4be9, 0x155a565e, 0x18197087, 0x1cd86d30, 0x029f3d35, 0x065e2082, 0x0b1d065b, 0x0fdc1bec,
      0x3793a651, 0x3352bbe6, 0x3e119d3f, 0x3ad08088, 0x2497d08d, 0x2056cd3a, 0x2d15ebe3, 0x29d4f654,
      0xc5a92679, 0xc1683bce, 0xcc2b1d17, 0xc8ea00a0, 0xd6ad50a5, 0xd26c4d12, 0xdf2f6bcb, 0xdbee767c,
      0xe3a1cbc1, 0xe760d676, 0xea23f0af, 0xeee2ed18, 0xf0a5bd1d, 0xf464a0aa, 0xf9278673, 0xfde69bc4,
      0x89b8fd09, 0x8d79e0be, 0x803ac667, 0x84fbdbd0, 0x9abc8bd5, 0x9e7d9662, 0x933eb0bb, 0x97ffad0c,
      0xafb010b1, 0xab710d06, 0xa6322bdf, 0xa2f33668, 0xbcb4666d, 0xb8757bda, 0xb5365d03, 0xb1f740b4]"

definition crc_step :: "32 word \<Rightarrow> byte \<Rightarrow> 32 word" where
  "crc_step crc b =
     push_bit 8 crc XOR crc_table ! unat ((drop_bit 24 crc XOR ucast b) AND 0xff)"

fun crc32 :: "32 word \<Rightarrow> byte list \<Rightarrow> 32 word" where
  "crc32 crc [] = crc"
| "crc32 crc (b # buf) = crc32 (crc_step crc b) buf"

text \<open>One bit at a time: what the table is a table of.\<close>

definition crc_bit :: "32 word \<Rightarrow> 32 word" where
  "crc_bit c = (if bit c 31 then push_bit 1 c XOR 0x04c11db7 else push_bit 1 c)"

definition crc_byte :: "32 word \<Rightarrow> byte \<Rightarrow> 32 word" where
  "crc_byte c b = (crc_bit ^^ 8) (c XOR push_bit 24 (ucast b))"

lemma crc_bit_xor: "crc_bit (x XOR y) = crc_bit x XOR crc_bit y"
  by (auto simp: crc_bit_def bit_xor_iff push_bit_xor ac_simps)

lemma crc_bits_xor: "(crc_bit ^^ n) (x XOR y) = (crc_bit ^^ n) x XOR (crc_bit ^^ n) y"
  by (induction n) (simp_all add: crc_bit_xor)

lemma crc_bits_low: "n \<le> 8 \<Longrightarrow> (crc_bit ^^ n) (take_bit 24 x) = push_bit n (take_bit 24 x)"
proof (induction n)
  case (Suc n)
  then have "\<not> 31 - n < 24" by arith
  then have "\<not> bit (push_bit n (take_bit 24 x)) 31" by (simp only: bit_push_bit_iff bit_take_bit_iff simp_thms)
  with Suc show ?case by (simp add: crc_bit_def push_bit_push_bit add.commute)
qed simp

fun doubled :: "32 word list \<Rightarrow> 32 word list" where
  "doubled [] = []"
| "doubled (c # cs) = crc_bit c # (crc_bit c XOR 0x04c11db7) # doubled cs"

lemma crc_table_doubled: "doubled (take 128 crc_table) = crc_table"
  unfolding crc_table_def by (simp add: crc_bit_def)

text \<open>The entries: \<open>i << 24\<close> shifted out bit by bit.\<close>

lemma doubled_nth:
  "i < length cs \<Longrightarrow> doubled cs ! (2 * i) = crc_bit (cs ! i) \<and>
   doubled cs ! (2 * i + 1) = crc_bit (cs ! i) XOR 0x04c11db7"
proof (induction cs arbitrary: i rule: doubled.induct)
  case (2 c cs)
  then show ?case by (cases i) auto
qed simp

lemma crc_table_nth:
  "i < 128 \<Longrightarrow> crc_table ! (2 * i) = crc_bit (crc_table ! i) \<and>
   crc_table ! (2 * i + 1) = crc_bit (crc_table ! i) XOR 0x04c11db7"
  using doubled_nth [of i "take 128 crc_table"]
  by (simp add: crc_table_doubled, simp add: crc_table_def)

lemma crc_bits_double:
  "i < 128 \<Longrightarrow> (crc_bit ^^ 8) (push_bit 24 (word_of_nat (2 * i))) =
    crc_bit ((crc_bit ^^ 8) (push_bit 24 (word_of_nat i)))"
proof -
  assume i: "i < 128"
  have "\<not> bit (push_bit 24 (word_of_nat i :: 32 word)) 31"
  proof -
    from i have "\<not> bit i 7" by (simp add: bit_iff_odd)
    then show ?thesis by (simp add: bit_push_bit_iff bit_of_nat_iff)
  qed
  then have "push_bit 24 (word_of_nat (2 * i)) = crc_bit (push_bit 24 (word_of_nat i))"
    by (simp add: crc_bit_def push_bit_eq_mult)
  then show ?thesis by (simp only: funpow_swap1)
qed

lemma crc_bits_one: "(crc_bit ^^ 8) (push_bit 24 1) = 0x04c11db7"
proof -
  have "(crc_bit ^^ 8) x = crc_bit (crc_bit (crc_bit (crc_bit (crc_bit (crc_bit (crc_bit (crc_bit x)))))))"
    for x by (simp add: numeral_eq_Suc)
  then show ?thesis by (simp add: crc_bit_def)
qed

lemma crc_bits_odd:
  "(crc_bit ^^ 8) (push_bit 24 (word_of_nat (2 * i + 1))) =
    (crc_bit ^^ 8) (push_bit 24 (word_of_nat (2 * i))) XOR 0x04c11db7"
proof -
  have "word_of_nat (2 * i + 1) = (word_of_nat (2 * i) XOR 1 :: 32 word)"
    by (simp add: xor_one_eq)
  then show ?thesis by (simp only: push_bit_xor crc_bits_xor crc_bits_one)
qed

lemma crc_table_bits:
  "i < 256 \<Longrightarrow> crc_table ! i = (crc_bit ^^ 8) (push_bit 24 (word_of_nat i))"
proof (induction i rule: less_induct)
  case (less i)
  show ?case
  proof (cases "i = 0")
    case True
    have "(crc_bit ^^ n) 0 = 0" for n by (induction n) (simp_all add: crc_bit_def)
    with True show ?thesis by (simp add: crc_table_def)
  next
    case False
    define k where "k = i div 2"
    with less.prems False have k: "k < 128" "k < i" "k < 256" by auto
    from less.IH [OF k(2,3)] have t: "crc_table ! k = (crc_bit ^^ 8) (push_bit 24 (word_of_nat k))" .
    have "i = 2 * k \<or> i = 2 * k + 1" unfolding k_def by arith
    then show ?thesis
      using crc_table_nth [OF k(1)] crc_bits_double [OF k(1)] crc_bits_odd [of k] t
      by (elim disjE) (simp_all only:)
  qed
qed

lemma crc_step_byte: "crc_step c b = crc_byte c b"
proof -
  let ?h = "drop_bit 24 c XOR ucast b :: 32 word"
  have h: "?h AND 0xff = ?h"
  proof -
    define k where "k = (0xff :: 32 word)"
    have e: "k = mask 8" unfolding k_def by (simp add: mask_eq_exp_minus_1)
    have m: "bit k n \<longleftrightarrow> n < 8" for n
      unfolding e bit_mask_iff by auto
    show ?thesis unfolding k_def [symmetric]
      by (intro bit_word_eqI) (auto simp: m bit_and_iff bit_xor_iff bit_drop_bit_eq bit_ucast_iff
        dest: bit_imp_le_length)
  qed
  have "?h \<le> 0xff" by (metis h word_and_le1 word_and_le2)
  then have "unat ?h < 256" by (simp add: word_le_nat_alt)
  then have t: "crc_table ! unat ?h = (crc_bit ^^ 8) (push_bit 24 ?h)"
    by (simp add: crc_table_bits)
  have split: "c XOR push_bit 24 (ucast b) = push_bit 24 ?h XOR take_bit 24 c"
    by (rule bit_word_eqI)
      (auto simp: bit_xor_iff bit_push_bit_iff bit_drop_bit_eq bit_take_bit_iff)
  have low: "push_bit 8 (take_bit 24 c) = push_bit 8 c"
    by (rule bit_word_eqI) (auto simp: bit_push_bit_iff bit_take_bit_iff)
  show ?thesis
    unfolding crc_step_def crc_byte_def h split crc_bits_xor t
    by (simp add: crc_bits_low low xor.commute)
qed

section \<open>The header\<close>

definition VALIDATION_WORD :: int where "VALIDATION_WORD = 0x31305341"

definition MAX_IMAGE_SIZE :: nat where "MAX_IMAGE_SIZE = 60 * 1024 - 4"

record socfpga_header =
  validation_word :: "byte list"
  version :: byte
  flags :: byte
  program_length :: "byte list"
  spare :: "byte list"
  checksum :: "byte list"

definition bb_header :: "32 word list" where
  "bb_header =
     [0xea00007e, 0xeafffffe, 0xeafffffe, 0xeafffffe, 0xeafffffe, 0xeafffffe, 0xeafffffe, 0xeafffffe,
      0x65726162, 0x00786f62, 0x00000000, 0x00000000, 0x00000000, 0x00000000, 0x00000000, 0x00000000,
      0x00000000, 0x00000000, 0x00000000, 0xea00006b]"

definition byte_at :: "int \<Rightarrow> nat \<Rightarrow> byte" where
  "byte_at x k = word_of_int ((x div 2 ^ (8 * k)) mod 256)"

definition header_bytes :: "socfpga_header \<Rightarrow> byte list" where
  "header_bytes h = validation_word h @ [version h, flags h] @ program_length h @ spare h @ checksum h"

definition make_header :: "int \<Rightarrow> socfpga_header" where
  "make_header len =
     (let h = \<lparr>validation_word = map (byte_at VALIDATION_WORD) [0..<4], version = 0, flags = 0,
               program_length = map (byte_at len) [0..<2], spare = [0, 0], checksum = []\<rparr>;
          sum = (\<Sum>b\<leftarrow>header_bytes h. uint b) mod 2 ^ 32
      in h\<lparr>checksum := map (byte_at sum) [0..<2]\<rparr>)"

text \<open>\<open>-EINVAL\<close> is the only failure; the buffer has \<open>sz\<close> bytes.\<close>

definition add_socfpga_header :: "byte list \<Rightarrow> int \<Rightarrow> int + byte list" where
  "add_socfpga_header buf sz =
     (if sz mod 4 \<noteq> 0 then Inl (- 22)
      else let buf = poke 0x40 (header_bytes (make_header (sz div 4))) buf;
               n = nat (sz - 4);
               crc = crc32 0xffffffff (take n buf) XOR 0xffffffff
           in Inr (poke n (le_bytes crc) buf))"

section \<open>Reading and writing\<close>

text \<open>
  What \<open>read\<close> returns, call by call: some bytes (at most as many as asked for), no byte at the
  end of the file, or an error. A call that the list does not hold is the end of the file.
  The result is the return value of the loop and the bytes it stored.
\<close>

datatype read_result = Data "byte list" | Read_Error

fun read_full :: "read_result list \<Rightarrow> nat \<Rightarrow> nat \<Rightarrow> int \<times> byte list" where
  "read_full [] sz tot = (int tot, [])"
| "read_full (r # rs) sz tot =
     (if sz = 0 then (int tot, [])
      else case r of
        Read_Error \<Rightarrow> (-1, [])
      | Data d \<Rightarrow>
          (let d = take sz d in
           if d = [] then (int tot, [])
           else (let (ret, rest) = read_full rs (sz - length d) (tot + length d)
                 in (ret, d @ rest))))"

text \<open>\<open>write\<close> returns how much it took; the result is the return value and what was written.\<close>

fun write_full :: "int list \<Rightarrow> byte list \<Rightarrow> nat \<Rightarrow> int \<times> byte list" where
  "write_full [] buf insize = (if buf = [] then int insize else 0, [])"
| "write_full (now # ws) buf insize =
     (if buf = [] then (int insize, [])
      else if now \<le> 0 then (now, [])
      else (let n = min (nat now) (length buf);
                (ret, out) = write_full ws (drop n buf) insize
            in (ret, take n buf @ out)))"

section \<open>main\<close>

datatype option_arg = Opt_b | Opt_h | Opt_o string | Opt_unknown

record mk_opts =
  add_barebox_header :: bool
  min_image_size :: nat
  max_image_size :: nat
  addsize :: nat
  outfile :: "string option"

definition mk_defaults :: mk_opts where
  "mk_defaults = \<lparr>add_barebox_header = False, min_image_size = 80,
     max_image_size = MAX_IMAGE_SIZE, addsize = 0, outfile = None\<rparr>"

text \<open>The loop over what \<open>getopt\<close> found; Inl is the code the program exits with.\<close>

fun scan_opts :: "option_arg list \<Rightarrow> mk_opts \<Rightarrow> nat + mk_opts" where
  "scan_opts [] opts = Inr opts"
| "scan_opts (Opt_b # os) opts =
     scan_opts os (opts\<lparr>add_barebox_header := True, min_image_size := 0,
       max_image_size := MAX_IMAGE_SIZE - 512, addsize := 512\<rparr>)"
| "scan_opts (Opt_h # os) opts = Inl 0"
| "scan_opts (Opt_o f # os) opts = scan_opts os (opts\<lparr>outfile := Some f\<rparr>)"
| "scan_opts (Opt_unknown # os) opts = Inl 1"

text \<open>
  From the checks of the size to the buffer that is handed to \<open>write_full\<close>. \<open>st_size\<close> is what
  \<open>stat\<close> says; \<open>opened\<close> is what reading the input gives, which may be less, or that it cannot be opened.
\<close>

definition build_image :: "mk_opts \<Rightarrow> nat \<Rightarrow> read_result list option \<Rightarrow> nat + byte list" where
  "build_image opts st_size opened =
     (if st_size < min_image_size opts then Inl 1
      else if st_size > max_image_size opts then Inl 1
      else case opened of None \<Rightarrow> Inl 1 | Some reads \<Rightarrow>
        let pad = st_size mod 4; pad = (if pad = 0 then 0 else 4 - pad);
            tot = st_size + 4 + addsize opts + pad;
            buf = replicate tot 0;
            (ret, data) = read_full reads st_size 0
        in if ret < 0 then Inl 1
           else
             let buf = poke (addsize opts) data buf;
                 buf = (if add_barebox_header opts
                        then poke 0 (concat (map le_bytes bb_header)) buf else buf)
             in case add_socfpga_header buf (int tot) of
                  Inl _ \<Rightarrow> Inl 1
                | Inr buf \<Rightarrow> Inr buf)"

text \<open>
  The files: the size \<open>stat\<close> gives, what reading an open file returns, and whether a file can be opened for
  writing. \<open>open\<close> of NULL fails, so without \<open>-o\<close> the program exits with 1.
\<close>

record mk_files =
  mf_stat :: "string \<Rightarrow> nat option"
  mf_open :: "string \<Rightarrow> read_result list option"
  mf_create :: "string \<Rightarrow> bool"

definition open_outfile :: "mk_files \<Rightarrow> string option \<Rightarrow> string option" where
  "open_outfile fs name = (case name of Some f \<Rightarrow> if mf_create fs f then Some f else None | None \<Rightarrow> None)"

text \<open>
  The options, the first argument behind them (\<open>argv[optind]\<close>, none where \<open>optind == argc\<close>) and what the calls of
  \<open>write\<close> return. The exit code, and the output file with its content where it was opened; \<open>write_full\<close>
  returning 0 is not an error.
\<close>

definition mkpimage ::
  "option_arg list \<Rightarrow> string option \<Rightarrow> mk_files \<Rightarrow> int list \<Rightarrow> nat \<times> (string \<times> byte list) option" where
  "mkpimage os infile fs writes =
     (case scan_opts os mk_defaults of
        Inl code \<Rightarrow> (code, None)
      | Inr opts \<Rightarrow>
          (case infile of
             None \<Rightarrow> (1, None)
           | Some name \<Rightarrow>
               (case mf_stat fs name of
                  None \<Rightarrow> (1, None)
                | Some st_size \<Rightarrow>
                    (case build_image opts st_size (mf_open fs name) of
                       Inl code \<Rightarrow> (code, None)
                     | Inr buf \<Rightarrow>
                         (case open_outfile fs (outfile opts) of
                            None \<Rightarrow> (1, None)
                          | Some f \<Rightarrow>
                              (let (ret, out) = write_full writes buf (length buf)
                               in (if ret < 0 then 1 else 0, Some (f, out))))))))"

section \<open>A complete image\<close>

text \<open>
  The fields of \<open>struct socfpga_header\<close> at 0x40 as their names say: the validation word with its low byte first,
  the length of the program in words, the sum of the bytes before it; and the last word, the
  checksum of all before it. \<open>crc32_bitwise\<close> says which checksum.
\<close>

definition image_complete :: "byte list \<Rightarrow> bool" where
  "image_complete img \<longleftrightarrow>
     length img mod 4 = 0 \<and>
     take 4 (drop 0x40 img) = [0x41, 0x53, 0x30, 0x31] \<and>
     4 * (uint (img ! 0x46) + 256 * uint (img ! 0x47)) = int (length img) \<and>
     uint (img ! 0x4a) + 256 * uint (img ! 0x4b) =
       (\<Sum>b\<leftarrow>take 10 (drop 0x40 img). uint b) \<and>
     drop (length img - 4) img =
       le_bytes (foldl crc_byte 0xffffffff (take (length img - 4) img) XOR 0xffffffff)"

lemma validation_bytes: "map (byte_at VALIDATION_WORD) [0..<4] = [0x41, 0x53, 0x30, 0x31]"
  by (simp add: VALIDATION_WORD_def byte_at_def upt_rec)

lemma crc32_foldl: "crc32 crc buf = foldl crc_byte crc buf"
  by (induction buf arbitrary: crc) (simp_all add: crc_step_byte)

lemma uint_byte_at [simp]: "uint (byte_at x k) = (x div 2 ^ (8 * k)) mod 256"
  by (simp add: byte_at_def uint_word_of_int)

lemma length_header_bytes [simp]: "length (header_bytes (make_header len)) = 12"
  by (simp add: header_bytes_def make_header_def Let_def)

lemma uint_byte_le: "uint (b :: byte) \<le> 255"
  using uint_lt2p [of b] by simp

lemma sum_bytes_le: "(\<Sum>b\<leftarrow>bs. uint (b :: byte)) \<le> 255 * int (length bs)"
proof (induction bs)
  case (Cons b bs)
  with uint_byte_le [of b] show ?case by simp
qed simp

lemma sum_bytes_nonneg: "0 \<le> (\<Sum>b\<leftarrow>bs. uint (b :: byte))"
  by (induction bs) auto

lemma two_bytes: "x mod 256 + 256 * (x div 256 mod 256) = x mod (65536 :: int)"
  using zmod_zmult2_eq [of 256 x 256] by simp

text \<open>The bytes of the header, and its check sum over the bytes before it.\<close>

lemma header_sum:
  fixes len :: int
  defines "h \<equiv> header_bytes (make_header len)"
  shows "take 4 h = map (byte_at VALIDATION_WORD) [0..<4]"
    and "uint (h ! 6) + 256 * uint (h ! 7) = len mod 65536"
    and "uint (h ! 10) + 256 * uint (h ! 11) = (\<Sum>b\<leftarrow>take 10 h. uint b)"
proof -
  show "take 4 h = map (byte_at VALIDATION_WORD) [0..<4]"
    by (simp add: h_def header_bytes_def make_header_def Let_def upt_rec numeral_eq_Suc)
  have "h ! 6 = byte_at len 0" "h ! 7 = byte_at len 1"
    by (simp_all add: h_def header_bytes_def make_header_def Let_def upt_rec nth_append)
  then show "uint (h ! 6) + 256 * uint (h ! 7) = len mod 65536"
    by (simp add: two_bytes)
  define s where "s = (\<Sum>b\<leftarrow>take 10 h. uint b)"
  have s: "0 \<le> s" "s < 65536"
    using sum_bytes_nonneg sum_bytes_le [of "take 10 h"] by (auto simp: s_def h_def)
  have "h ! 10 = byte_at (s mod 2 ^ 32) 0" "h ! 11 = byte_at (s mod 2 ^ 32) 1"
    by (simp_all add: s_def h_def header_bytes_def make_header_def Let_def upt_rec nth_append add.assoc)
  with s show "uint (h ! 10) + 256 * uint (h ! 11) = (\<Sum>b\<leftarrow>take 10 h. uint b)"
    by (simp add: two_bytes flip: s_def)
qed

text \<open>Whatever was in the buffer, the header and the last word make it an image.\<close>

lemma add_header_accepted:
  assumes "length buf = n" "n mod 4 = 0" "80 \<le> n" "n < 262144"
  shows "\<exists>img. add_socfpga_header buf (int n) = Inr img \<and> image_complete img \<and> length img = n \<and>
    (\<forall>i<n - 4. i < 0x40 \<or> 0x4c \<le> i \<longrightarrow> img ! i = buf ! i)"
proof -
  define h where "h = header_bytes (make_header (int n div 4))"
  define b where "b = poke 0x40 h buf"
  define crc where "crc = crc32 0xffffffff (take (n - 4) b) XOR 0xffffffff"
  define img where "img = poke (n - 4) (le_bytes crc) b"
  have lh: "length h = 12" by (simp add: h_def)
  have lb: "length b = n" using assms by (simp add: b_def lh)
  have li: "length img = n" using assms lb by (simp add: img_def)
  have hd: "take k (drop 0x40 img) = take k h" if "k \<le> 12" for k
    using that assms lb lh by (simp add: img_def take_drop_poke_before) (simp add: b_def take_drop_poke)
  have nh: "img ! (0x40 + i) = h ! i" if "i < 12" for i
  proof -
    have "img ! (0x40 + i) = take 12 (drop 0x40 img) ! i" using that li assms by simp
    also have "\<dots> = h ! i" using that lh hd [of 12] by simp
    finally show ?thesis .
  qed
  have "take (n - 4) img = take (n - 4) b" using assms lb by (simp add: img_def take_poke)
  then have c: "drop (n - 4) img = le_bytes (foldl crc_byte 0xffffffff (take (n - 4) img) XOR 0xffffffff)"
    using assms lb by (simp add: img_def drop_poke_last crc_def crc32_foldl)
  have len: "4 * (int n div 4) = int n" "4 * ((int n div 4) mod 65536) = int n"
  proof -
    from assms(2) obtain k where "n = 4 * k" by (auto simp: mod_eq_0_iff_dvd dvd_def)
    with assms(4) show "4 * (int n div 4) = int n" "4 * ((int n div 4) mod 65536) = int n" by simp_all
  qed
  have "add_socfpga_header buf (int n) = Inr img"
  proof -
    have "int n mod 4 = 0" using assms(2) zmod_int [of n 4] by simp
    moreover have "nat (int n - 4) = n - 4" by simp
    ultimately show ?thesis
      by (simp add: add_socfpga_header_def Let_def img_def crc_def b_def h_def)
  qed
  moreover have "image_complete img"
    unfolding image_complete_def li
    using hd [of 4] hd [of 10] nh [of 6] nh [of 7] nh [of 10] nh [of 11] c len
      header_sum [of "int n div 4", folded h_def] assms(2) validation_bytes by simp
  moreover have "\<forall>i<n - 4. i < 0x40 \<or> 0x4c \<le> i \<longrightarrow> img ! i = buf ! i"
    using assms lb lh by (auto simp: img_def b_def nth_poke_out)
  ultimately show ?thesis using li by blast
qed

lemma read_full_length: "length (snd (read_full rs sz tot)) \<le> sz"
proof (induction rs sz tot rule: read_full.induct)
  case (2 r rs sz tot)
  then show ?case by (cases r) (fastforce simp: Let_def split: prod.splits)+
qed simp

text \<open>All parts that \<open>read\<close> gives, one after the other, up to the size that was asked for.\<close>

lemma read_full_parts:
  "(\<forall>d \<in> set ds. d \<noteq> []) \<Longrightarrow>
   read_full (map Data ds) sz tot =
     (int (tot + length (take sz (concat ds))), take sz (concat ds))"
proof (induction ds arbitrary: sz tot)
  case (Cons d ds)
  then show ?case
    using Cons.IH [of "sz - length (take sz d)" "tot + length (take sz d)"] by (auto simp: Let_def min_def)
qed simp

lemma scan_opts_cases:
  "scan_opts os opts = Inr opts' \<Longrightarrow>
   (\<exists>f. opts' = opts\<lparr>outfile := f\<rparr>) \<or>
   (\<exists>f. opts' = \<lparr>add_barebox_header = True, min_image_size = 0,
       max_image_size = MAX_IMAGE_SIZE - 512, addsize = 512, outfile = f\<rparr>)"
proof (induction os opts rule: scan_opts.induct)
  case (1 opts)
  then show ?case by (intro disjI1 exI [of _ "outfile opts"]) simp
next
  case (2 os opts)
  then show ?case by (cases opts) auto
qed auto

text \<open>The part of \<open>main\<close> between the checks and the header, for both values of the option.\<close>

definition image_buffer :: "bool \<Rightarrow> nat \<Rightarrow> nat \<Rightarrow> byte list \<Rightarrow> byte list" where
  "image_buffer bb add tot data =
     (let buf = poke add data (replicate tot 0)
      in if bb then poke 0 (concat (map le_bytes bb_header)) buf else buf)"

lemma length_bb_header [simp]: "length (concat (map le_bytes bb_header)) = 80"
  by (simp add: bb_header_def)

lemma image_buffer:
  assumes "add + length data \<le> tot" "bb \<longrightarrow> 80 \<le> add"
  shows "length (image_buffer bb add tot data) = tot"
    "i < length data \<Longrightarrow> image_buffer bb add tot data ! (add + i) = data ! i"
  using assms by (auto simp: image_buffer_def Let_def nth_poke_out nth_poke_in)

lemma image_buffer_barebox:
  assumes "add + length data \<le> tot" "80 \<le> add" "i < 80"
  shows "image_buffer True add tot data ! i = concat (map le_bytes bb_header) ! i"
  using assms nth_poke_in [of 0 "concat (map le_bytes bb_header)" "poke add data (replicate tot 0)" i]
  by (simp add: image_buffer_def Let_def)

lemma build_image_Inr:
  assumes "scan_opts os mk_defaults = Inr opts" "build_image opts st (Some reads) = Inr img"
  obtains tot where "tot mod 4 = 0" "tot \<le> 60 * 1024" "80 \<le> tot"
    "st + 4 + addsize opts \<le> tot" "add_barebox_header opts \<longrightarrow> addsize opts = 512"
    "add_socfpga_header (image_buffer (add_barebox_header opts) (addsize opts) tot
       (snd (read_full reads st 0))) (int tot) = Inr img"
proof -
  define pad where "pad = (if st mod 4 = 0 then 0 else 4 - st mod 4)"
  have pad: "(st + pad) mod 4 = 0" "pad < 4" unfolding pad_def by (simp_all, presburger+)
  have o: "(min_image_size opts = 80 \<and> max_image_size opts = MAX_IMAGE_SIZE \<and> addsize opts = 0 \<and>
      \<not> add_barebox_header opts) \<or>
    (min_image_size opts = 0 \<and> max_image_size opts = MAX_IMAGE_SIZE - 512 \<and> addsize opts = 512 \<and>
      add_barebox_header opts)"
    using scan_opts_cases [OF assms(1)] by (auto simp: mk_defaults_def)
  define tot where "tot = st + 4 + addsize opts + pad"
  have b: "min_image_size opts \<le> st" "st \<le> max_image_size opts"
    and "add_socfpga_header (image_buffer (add_barebox_header opts) (addsize opts) tot
       (snd (read_full reads st 0))) (int tot) = Inr img"
    using assms(2)
    by (auto simp: build_image_def Let_def tot_def pad_def image_buffer_def algebra_simps
        split: if_splits prod.splits sum.splits)
  moreover have "tot mod 4 = 0"
    using o pad(1) unfolding tot_def by (elim disjE conjE) (simp, presburger)+
  moreover have "tot \<le> 60 * 1024"
    using o b pad unfolding tot_def MAX_IMAGE_SIZE_def by (elim disjE conjE) (simp, presburger)+
  ultimately show thesis using o b by (intro that [of tot]) (auto simp: tot_def)
qed

lemma build_image_accepted:
  assumes "scan_opts os mk_defaults = Inr opts" "build_image opts st (Some reads) = Inr img"
  shows "image_complete img \<and> length img \<le> 60 * 1024 \<and>
    (\<forall>i < length (snd (read_full reads st 0)).
       addsize opts + i < 0x40 \<or> 0x4c \<le> addsize opts + i \<longrightarrow>
       img ! (addsize opts + i) = snd (read_full reads st 0) ! i) \<and>
    (add_barebox_header opts \<longrightarrow>
      (\<forall>i<80. i < 0x40 \<or> 0x4c \<le> i \<longrightarrow> img ! i = concat (map le_bytes bb_header) ! i))"
proof -
  let ?data = "snd (read_full reads st 0)"
  obtain tot where t: "tot mod 4 = 0" "tot \<le> 60 * 1024" "80 \<le> tot" "st + 4 + addsize opts \<le> tot"
    "add_barebox_header opts \<longrightarrow> addsize opts = 512"
    "add_socfpga_header (image_buffer (add_barebox_header opts) (addsize opts) tot ?data) (int tot) =
      Inr img"
    by (rule build_image_Inr [OF assms])
  let ?buf = "image_buffer (add_barebox_header opts) (addsize opts) tot ?data"
  have d: "length ?data \<le> st" by (rule read_full_length)
  have l: "length ?buf = tot" and n: "\<forall>i<length ?data. ?buf ! (addsize opts + i) = ?data ! i"
    using d t(4,5) by (simp_all add: image_buffer)
  have bb: "\<forall>i<80. ?buf ! i = concat (map le_bytes bb_header) ! i" if "add_barebox_header opts"
    using that d t(4,5) image_buffer_barebox [of "addsize opts" ?data tot] by simp
  have lt: "tot < 262144" using t(2) by simp
  have "image_complete img \<and> length img = tot \<and>
      (\<forall>i<tot - 4. i < 0x40 \<or> 0x4c \<le> i \<longrightarrow> img ! i = ?buf ! i)"
    using add_header_accepted [OF l t(1,3) lt] t(6) by auto
  with n d bb t(2,4,5) show ?thesis by auto
qed

text \<open>Writes that take at least a byte each write the whole buffer.\<close>

lemma write_full_all:
  "\<forall>w \<in> set ws. 0 < w \<Longrightarrow> length buf \<le> length ws \<Longrightarrow> write_full ws buf n = (int n, buf)"
proof (induction ws arbitrary: buf)
  case (Cons w ws)
  show ?case
  proof (cases "buf = []")
    case False
    with Cons.prems have "length (drop (min (nat w) (length buf)) buf) \<le> length ws" by auto
    with Cons.IH [of "drop (min (nat w) (length buf)) buf"] Cons.prems False show ?thesis
      by (simp add: Let_def)
  qed simp
qed simp

lemma build_image_ok:
  assumes "scan_opts os mk_defaults = Inr opts" "min_image_size opts \<le> st" "st \<le> max_image_size opts"
    and "0 \<le> fst (read_full reads st 0)"
  shows "\<exists>img. build_image opts st (Some reads) = Inr img"
proof -
  define pad where "pad = (if st mod 4 = 0 then 0 else 4 - st mod 4)"
  have "(st + pad) mod 4 = 0" unfolding pad_def by (simp, presburger)
  moreover have "addsize opts mod 4 = 0"
    using scan_opts_cases [OF assms(1)] by (auto simp: mk_defaults_def)
  ultimately have "int (st + 4 + addsize opts + pad) mod 4 = 0" by presburger
  then have n: "add_socfpga_header b (int (st + 4 + addsize opts + pad)) \<noteq> Inl y" for b y
    unfolding add_socfpga_header_def by (simp add: Let_def)
  have c: "\<exists>img. (case r of Inl _ \<Rightarrow> Inl 1 | Inr buf \<Rightarrow> Inr buf) = Inr img"
    if "\<And>y. r \<noteq> Inl y" for r :: "int + byte list"
    using that by (cases r) auto
  obtain ret data where rf: "read_full reads st 0 = (ret, data)" and ret: "\<not> ret < 0"
    using assms(4) by (cases "read_full reads st 0") auto
  have "\<not> st < min_image_size opts" "\<not> max_image_size opts < st" using assms(2,3) by simp_all
  then show ?thesis
    unfolding build_image_def Let_def option.case rf prod.case pad_def [symmetric] if_not_P [OF ret]
    by (simp only: if_False) (rule c, rule n)
qed

section \<open>Properties\<close>

text \<open>
  C28: the table-driven \<open>crc32\<close> is the division by the polynomial 0x04c11db7 one bit at a time,
  for every start value and every buffer.
\<close>

theorem crc32_bitwise: "crc32 crc buf = foldl crc_byte crc buf"
  by (induction buf arbitrary: crc) (simp_all add: crc_step_byte)



text \<open>
  \<open>read_full\<close> gives the bytes of the parts in order, up to the size asked for, and the number
  of them; no part is lost or read twice.
\<close>

theorem read_full_correct:
  assumes "\<forall>d \<in> set ds. d \<noteq> []"
  shows "read_full (map Data ds) sz 0 = (int (min sz (length (concat ds))), take sz (concat ds))"
  using read_full_parts [OF assms, of sz 0] by (simp add: min.commute)

theorem read_full_correct_witness:
  "read_full [Data [1, 2], Data [3, 4]] 3 0 = (3, [1, 2, 3])"
  using read_full_correct [of "[[1, 2], [3, 4]]" 3] by simp

end
