(* ===== verification/Toolchain_Wrapper.thy ===== *)
theory Toolchain_Wrapper
  imports Kbase
begin

text \<open>
  \<open>toolchain/toolchain-wrapper.c\<close>: the program that stands in for the cross compiler, adds the
  arguments of the configuration and executes the real one. The macros the build defines are the
  fields of \<open>config\<close> (an absent macro is None or False), the system is a record: the environment,
  \<open>realpath\<close>, \<open>readlink\<close> of \<open>/proc/self/exe\<close>, and whether \<open>setenv\<close> succeeds. The result is
  the exit code or what is handed to \<open>execv\<close>, with the lines printed on the way. Allocation does
  not fail.
\<close>

section \<open>Configuration and system\<close>

datatype cross_path = Cross_Path_Rel string | Cross_Path_Abs string | Cross_Path_Default

record config =
  br_ccache :: bool
  br_cross_path :: cross_path
  br_cross_path_suffix :: string
  br_sysroot :: string
  br_abi :: "string option"
  br_fpu :: "string option"
  br_softfloat :: bool
  br_mode :: "string option"
  br_64 :: bool
  br_omit_lock_prefix :: bool
  br_binfmt_flat :: bool
  br_mips_target_little_endian :: bool
  br_mips_target_big_endian :: bool
  br_arc_target_big_endian :: bool
  br_additional_cflags :: "string list"
  br_float_abi :: "string option"
  br_arch :: "string option"
  br_cpu :: "string option"
  br_ccache_hash :: "string option"
  br_ccache_basedir :: "string option"

record system =
  sys_realpath :: "string \<Rightarrow> string option"
  sys_self_exe :: "string option"
  sys_env :: "string \<Rightarrow> string option"
  sys_setenv_ok :: bool

definition PATH_MAX :: nat where "PATH_MAX = 4096"

definition EXCLUSIVE_ARGS :: nat where "EXCLUSIVE_ARGS = 3"

definition opt_arg :: "string \<Rightarrow> string option \<Rightarrow> string list" where
  "opt_arg prefix v = (case v of None \<Rightarrow> [] | Some x \<Rightarrow> [prefix @ x])"

text \<open>\<open>predef_args\<close>, with the buffers filled in.\<close>

definition predef_args :: "config \<Rightarrow> string \<Rightarrow> string \<Rightarrow> string \<Rightarrow> string list" where
  "predef_args cfg ccache_path path sysroot =
     (if br_ccache cfg then [ccache_path] else []) @
     [path, ''--sysroot'', sysroot] @
     opt_arg ''-mabi='' (br_abi cfg) @
     opt_arg ''-mfpu='' (br_fpu cfg) @
     (if br_softfloat cfg then [''-msoft-float''] else []) @
     opt_arg ''-m'' (br_mode cfg) @
     (if br_64 cfg then [''-m64''] else []) @
     (if br_omit_lock_prefix cfg then [''-Wa,-momit-lock-prefix=yes''] else []) @
     (if br_binfmt_flat cfg then [''-Wl,-elf2flt''] else []) @
     (if br_mips_target_little_endian cfg then [''-EL''] else []) @
     (if br_mips_target_big_endian cfg \<or> br_arc_target_big_endian cfg then [''-EB''] else []) @
     br_additional_cflags cfg"

section \<open>Unsafe paths\<close>

definition unsafe_paths :: "string list" where
  "unsafe_paths = [''/lib'', ''/usr/include'', ''/usr/lib'', ''/usr/local/include'', ''/usr/local/lib'']"

definition unsafe_message :: "string \<Rightarrow> bool \<Rightarrow> string \<Rightarrow> string" where
  "unsafe_message prog paranoid path =
     prog @ '': '' @ (if paranoid then ''ERROR'' else ''WARNING'') @
     '': unsafe header/library path used in cross-compilation: '' @ [CHR 0x27] @ path @ [CHR 0x27]"

text \<open>\<open>check_unsafe_path\<close>: what it prints, and whether it exits.\<close>

fun check_loop :: "string \<Rightarrow> string \<Rightarrow> bool \<Rightarrow> string list \<Rightarrow> string list \<times> bool" where
  "check_loop prog path paranoid [] = ([], False)"
| "check_loop prog path paranoid (c # cs) =
     (if starts_with path c
      then if paranoid then ([unsafe_message prog paranoid path], True)
           else (let (out, ex) = check_loop prog path paranoid cs
                 in (unsafe_message prog paranoid path # out, ex))
      else check_loop prog path paranoid cs)"

definition check_unsafe_path :: "string \<Rightarrow> string \<Rightarrow> bool \<Rightarrow> string list \<times> bool" where
  "check_unsafe_path prog path paranoid = check_loop prog path paranoid unsafe_paths"

text \<open>The loop of \<open>main\<close> over the arguments. A check that exits ends it.\<close>

definition then_check :: "string list \<times> bool \<Rightarrow> string list \<times> bool \<Rightarrow> string list \<times> bool" where
  "then_check p q = (if snd p then p else (fst p @ fst q, snd q))"

fun check_args :: "string \<Rightarrow> bool \<Rightarrow> string list \<Rightarrow> string list \<times> bool" where
  "check_args prog paranoid [] = ([], False)"
| "check_args prog paranoid (a # as) =
     (if \<not> starts_with a ''-I'' \<and> \<not> starts_with a ''-L'' then check_args prog paranoid as
      else if length a = 2
      then (case as of
              [] \<Rightarrow> ([], False)
            | p # as \<Rightarrow> then_check (check_unsafe_path prog p paranoid) (check_args prog paranoid as))
      else then_check (check_unsafe_path prog (drop 2 a) paranoid) (check_args prog paranoid as))"

text \<open>The directories the arguments name, in order.\<close>

fun search_dirs :: "string list \<Rightarrow> string list" where
  "search_dirs [] = []"
| "search_dirs (a # as) =
     (if starts_with a ''-I'' \<or> starts_with a ''-L''
      then if length a = 2 then (case as of [] \<Rightarrow> [] | p # as \<Rightarrow> p # search_dirs as)
           else drop 2 a # search_dirs as
      else search_dirs as)"

definition unsafe :: "string \<Rightarrow> bool" where
  "unsafe d \<longleftrightarrow> (\<exists>c \<in> set unsafe_paths. starts_with d c)"

lemma check_loop_warn:
  "check_loop prog path False cs =
     (replicate (length (filter (starts_with path) cs)) (unsafe_message prog False path), False)"
  by (induction cs) auto

lemma check_loop_paranoid:
  "check_loop prog path True cs =
     (if \<exists>c \<in> set cs. starts_with path c then ([unsafe_message prog True path], True) else ([], False))"
  by (induction cs) auto

lemma check_unsafe_path_exits: "snd (check_unsafe_path prog d paranoid) \<longleftrightarrow> paranoid \<and> unsafe d"
  by (cases paranoid) (auto simp: check_unsafe_path_def check_loop_warn check_loop_paranoid unsafe_def)

lemma check_unsafe_path_prints: "fst (check_unsafe_path prog d paranoid) = [] \<longleftrightarrow> \<not> unsafe d"
  by (cases paranoid)
    (auto simp: check_unsafe_path_def check_loop_warn check_loop_paranoid unsafe_def filter_empty_conv)

lemma check_args_exits:
  "snd (check_args prog paranoid as) \<longleftrightarrow> paranoid \<and> (\<exists>d \<in> set (search_dirs as). unsafe d)"
  by (induction prog paranoid as rule: check_args.induct)
    (auto simp: then_check_def check_unsafe_path_exits split: list.splits)

lemma check_args_prints:
  "fst (check_args prog paranoid as) = [] \<longleftrightarrow> (\<forall>d \<in> set (search_dirs as). \<not> unsafe d)"
  by (induction prog paranoid as rule: check_args.induct)
    (auto simp: then_check_def check_unsafe_path_exits check_unsafe_path_prints split: list.splits)

section \<open>Where the toolchain is\<close>

text \<open>
  The loop over the result of \<open>readlink\<close>: the slashes are cut off from the end, at most three,
  and the one at the beginning never.
\<close>

fun cut_dirs :: "nat \<Rightarrow> string \<Rightarrow> string" where
  "cut_dirs 0 s = s"
| "cut_dirs (Suc n) s =
     (case strrchr_split (CHR ''/'') s of
        None \<Rightarrow> s
      | Some (b, r) \<Rightarrow> if b = [] then s else cut_dirs n b)"

text \<open>The base directory and the name of the program; Inl is the exit code.\<close>

definition base_dir :: "system \<Rightarrow> string \<Rightarrow> nat + string \<times> string" where
  "base_dir sys progpath =
     (case strrchr_split (CHR ''/'') progpath of
        Some (dir, basename) \<Rightarrow>
          (case sys_realpath sys (dir @ ''/../..'') of
             None \<Rightarrow> Inl 2
           | Some absbasedir \<Rightarrow> Inr (absbasedir, basename))
      | None \<Rightarrow>
          (case sys_self_exe sys of
             None \<Rightarrow> Inl 2
           | Some exe \<Rightarrow> Inr (cut_dirs 3 (take PATH_MAX exe), progpath)))"

definition compiler_path :: "config \<Rightarrow> string \<Rightarrow> string \<Rightarrow> string" where
  "compiler_path cfg absbasedir basename =
     (case br_cross_path cfg of
        Cross_Path_Rel p \<Rightarrow> absbasedir @ ''/'' @ p @ ''/'' @ basename @ br_cross_path_suffix cfg
      | Cross_Path_Abs p \<Rightarrow> p @ ''/'' @ basename @ br_cross_path_suffix cfg
      | Cross_Path_Default \<Rightarrow> absbasedir @ ''/usr/bin/'' @ basename @ br_cross_path_suffix cfg)"

section \<open>The arguments\<close>

definition float_abi_given :: "string list \<Rightarrow> bool" where
  "float_abi_given as \<longleftrightarrow>
     (\<exists>a \<in> set as. starts_with a ''-mfloat-abi='' \<or> a = ''-msoft-float'' \<or> a = ''-mhard-float'')"

definition cpu_given :: "string list \<Rightarrow> bool" where
  "cpu_given as \<longleftrightarrow>
     (\<exists>a \<in> set as. starts_with a ''-march='' \<or> starts_with a ''-mtune='' \<or> starts_with a ''-mcpu='')"

definition exclusive_args :: "config \<Rightarrow> string list \<Rightarrow> string list" where
  "exclusive_args cfg as =
     (if float_abi_given as then [] else opt_arg ''-mfloat-abi='' (br_float_abi cfg)) @
     (if cpu_given as then [] else opt_arg ''-march='' (br_arch cfg) @ opt_arg ''-mcpu='' (br_cpu cfg))"

definition c_atoi :: "string \<Rightarrow> int" where
  "c_atoi s = signed (word_of_int (strtoll s 10) :: 32 word)"

definition quoted :: "string \<Rightarrow> string" where
  "quoted s = [CHR 0x27] @ s @ [CHR 0x27]"

text \<open>The trace of \<open>BR2_DEBUG_WRAPPER\<close>.\<close>

definition debug_trace :: "config \<Rightarrow> int \<Rightarrow> string list \<Rightarrow> string" where
  "debug_trace cfg debug exec_args =
     (let sep = (if debug = 2 then CHR 0x0A # ''    '' else '' '') in
      ''Toolchain wrapper executing:'' @
      (case br_ccache_hash cfg of None \<Rightarrow> []
        | Some h \<Rightarrow> sep @ ''CCACHE_COMPILERCHECK='' @ quoted (''string:'' @ h)) @
      (case br_ccache_basedir cfg of None \<Rightarrow> []
        | Some d \<Rightarrow> sep @ ''CCACHE_BASEDIR='' @ quoted d) @
      concat (map (\<lambda>a. sep @ quoted a) exec_args))"

section \<open>main\<close>

text \<open>The environment only grows: \<open>setenv\<close> is called without overwriting.\<close>

definition setenv_new ::
  "(string \<Rightarrow> string option) \<Rightarrow> string \<Rightarrow> string \<Rightarrow> string \<Rightarrow> string option" where
  "setenv_new env name val = (if env name = None then env(name \<mapsto> val) else env)"

datatype outcome =
    Exit nat
  | Exec (exec_file: string) (exec_argv: "string list") (exec_env: "string \<Rightarrow> string option")

definition run :: "config \<Rightarrow> system \<Rightarrow> string \<Rightarrow> string list \<Rightarrow> string list \<times> outcome" where
  "run cfg sys progpath as =
     (case base_dir sys progpath of
        Inl code \<Rightarrow> ([], Exit code)
      | Inr (absbasedir, basename) \<Rightarrow>
        let path = compiler_path cfg absbasedir basename;
            ccache_path = absbasedir @ ''/usr/bin/ccache'';
            sysroot = absbasedir @ ''/'' @ br_sysroot cfg;
            env = sys_env sys
        in if length path \<ge> PATH_MAX then ([], Exit 3)
           else if br_ccache cfg \<and> length ccache_path \<ge> PATH_MAX then ([], Exit 3)
           else if length sysroot \<ge> PATH_MAX then ([], Exit 3)
           else
             let args = predef_args cfg ccache_path path sysroot @ exclusive_args cfg as;
                 paranoid = (case env ''BR_COMPILER_PARANOID_UNSAFE_PATH'' of
                               None \<Rightarrow> False | Some v \<Rightarrow> v \<noteq> []);
                 (out, ex) = check_args basename paranoid as
             in if ex then (out, Exit 1)
                else
                  let args = args @ as;
                      exec_args = (if br_ccache cfg \<and> env ''BR_NO_CCACHE'' \<noteq> None
                                   then tl args else args);
                      debug = (case env ''BR2_DEBUG_WRAPPER'' of None \<Rightarrow> 0 | Some v \<Rightarrow> c_atoi v);
                      out = (if debug > 0 then out @ [debug_trace cfg debug exec_args] else out);
                      env' = (case br_ccache_hash cfg of None \<Rightarrow> env
                              | Some h \<Rightarrow> setenv_new env ''CCACHE_COMPILERCHECK'' (''string:'' @ h));
                      env'' = (case br_ccache_basedir cfg of None \<Rightarrow> env'
                              | Some d \<Rightarrow> setenv_new env' ''CCACHE_BASEDIR'' d)
                  in if (br_ccache_hash cfg \<noteq> None \<or> br_ccache_basedir cfg \<noteq> None) \<and>
                        \<not> sys_setenv_ok sys
                     then (out, Exit 3)
                     else (out, Exec (hd exec_args) exec_args env''))"

section \<open>What is executed\<close>

lemma opt_arg_length: "length (opt_arg p v) \<le> 1"
  by (simp add: opt_arg_def split: option.splits)

lemma exclusive_args_length: "length (exclusive_args cfg as) \<le> EXCLUSIVE_ARGS"
  using opt_arg_length [of "''-mfloat-abi=''" "br_float_abi cfg"]
    opt_arg_length [of "''-march=''" "br_arch cfg"] opt_arg_length [of "''-mcpu=''" "br_cpu cfg"]
  by (simp add: exclusive_args_def EXCLUSIVE_ARGS_def)

lemma predef_args_nonempty [simp]: "predef_args cfg c p s \<noteq> []"
  by (simp add: predef_args_def)

text \<open>The two outcomes of a run after the paths fit.\<close>

lemma run_Exec:
  assumes "run cfg sys prog as = (out, Exec f args env)"
  obtains absbasedir basename where
    "base_dir sys prog = Inr (absbasedir, basename)"
    "args = (if br_ccache cfg \<and> sys_env sys ''BR_NO_CCACHE'' \<noteq> None then tl else id)
       (predef_args cfg (absbasedir @ ''/usr/bin/ccache'') (compiler_path cfg absbasedir basename)
          (absbasedir @ ''/'' @ br_sysroot cfg) @ exclusive_args cfg as @ as)"
    "f = hd args" "\<not> snd (check_args basename
       (case sys_env sys ''BR_COMPILER_PARANOID_UNSAFE_PATH'' of None \<Rightarrow> False | Some v \<Rightarrow> v \<noteq> []) as)"
    "length (compiler_path cfg absbasedir basename) < PATH_MAX"
  using assms
  by (auto simp: run_def Let_def intro: that split: sum.splits prod.splits if_splits option.splits)

section \<open>Properties\<close>

text \<open>
  C25: whenever the wrapper executes something, it is the compiler of the toolchain the wrapper
  belongs to (or ccache with that compiler as its first argument), with \<open>--sysroot\<close> set to the
  sysroot of that toolchain and the user's arguments unchanged at the end; and in paranoid
  mode no search directory among them is unsafe.
\<close>

theorem wrapper_executes:
  assumes "run cfg sys prog as = (out, Exec f args env)"
  shows "\<exists>absbasedir basename rest. base_dir sys prog = Inr (absbasedir, basename) \<and>
    args = (if br_ccache cfg \<and> sys_env sys ''BR_NO_CCACHE'' = None
            then [absbasedir @ ''/usr/bin/ccache''] else []) @
      [compiler_path cfg absbasedir basename, ''--sysroot'', absbasedir @ ''/'' @ br_sysroot cfg] @ rest @ as \<and>
    f = hd args \<and> length (compiler_path cfg absbasedir basename) < PATH_MAX \<and>
    ((\<exists>v. sys_env sys ''BR_COMPILER_PARANOID_UNSAFE_PATH'' = Some v \<and> v \<noteq> []) \<longrightarrow>
      (\<forall>d \<in> set (search_dirs as). \<not> unsafe d))"
proof -
  obtain absbasedir basename where r: "base_dir sys prog = Inr (absbasedir, basename)"
    "args = (if br_ccache cfg \<and> sys_env sys ''BR_NO_CCACHE'' \<noteq> None then tl else id)
       (predef_args cfg (absbasedir @ ''/usr/bin/ccache'') (compiler_path cfg absbasedir basename)
          (absbasedir @ ''/'' @ br_sysroot cfg) @ exclusive_args cfg as @ as)"
    "f = hd args" "\<not> snd (check_args basename
       (case sys_env sys ''BR_COMPILER_PARANOID_UNSAFE_PATH'' of None \<Rightarrow> False | Some v \<Rightarrow> v \<noteq> []) as)"
    "length (compiler_path cfg absbasedir basename) < PATH_MAX"
    by (rule run_Exec [OF assms])
  show ?thesis
  proof (intro exI conjI)
    show "args = (if br_ccache cfg \<and> sys_env sys ''BR_NO_CCACHE'' = None
            then [absbasedir @ ''/usr/bin/ccache''] else []) @
      [compiler_path cfg absbasedir basename, ''--sysroot'', absbasedir @ ''/'' @ br_sysroot cfg] @
      (drop (if br_ccache cfg then 4 else 3) (predef_args cfg (absbasedir @ ''/usr/bin/ccache'')
          (compiler_path cfg absbasedir basename) (absbasedir @ ''/'' @ br_sysroot cfg)) @ exclusive_args cfg as) @ as"
      using r(2) by (simp add: predef_args_def)
  qed (use r in \<open>auto simp: check_args_exits\<close>)
qed

theorem wrapper_executes_witness:
  "\<exists>cfg sys out env. run cfg sys ''/opt/bin/arm-gcc'' [''-I'', ''/home/inc'', ''x.c''] =
     (out, Exec ''/usr/bin/ccache'' [''/usr/bin/ccache'', ''/tc/arm-gcc'', ''--sysroot'', ''/sys'',
        ''-mcpu=a9'', ''-I'', ''/home/inc'', ''x.c''] env) \<and>
     (\<forall>d \<in> set (search_dirs [''-I'', ''/home/inc'', ''x.c'']). \<not> unsafe d)"
proof -
  let ?cfg = "\<lparr>br_ccache = True, br_cross_path = Cross_Path_Abs ''/tc'', br_cross_path_suffix = '''',
    br_sysroot = ''sys'', br_abi = None, br_fpu = None, br_softfloat = False, br_mode = None,
    br_64 = False, br_omit_lock_prefix = False, br_binfmt_flat = False,
    br_mips_target_little_endian = False, br_mips_target_big_endian = False,
    br_arc_target_big_endian = False, br_additional_cflags = [], br_float_abi = None,
    br_arch = None, br_cpu = Some ''a9'', br_ccache_hash = None, br_ccache_basedir = None\<rparr>"
  let ?sys = "\<lparr>sys_realpath = (\<lambda>p. if p = ''/opt/bin/../..'' then Some '''' else None),
    sys_self_exe = None,
    sys_env = [''BR_COMPILER_PARANOID_UNSAFE_PATH'' \<mapsto> ''1''], sys_setenv_ok = True\<rparr>"
  have "run ?cfg ?sys ''/opt/bin/arm-gcc'' [''-I'', ''/home/inc'', ''x.c''] =
     ([], Exec ''/usr/bin/ccache'' [''/usr/bin/ccache'', ''/tc/arm-gcc'', ''--sysroot'', ''/sys'',
        ''-mcpu=a9'', ''-I'', ''/home/inc'', ''x.c''] (sys_env ?sys))"
    by (simp add: run_def base_dir_def compiler_path_def predef_args_def exclusive_args_def
        float_abi_given_def cpu_given_def opt_arg_def check_unsafe_path_def unsafe_paths_def
        then_check_def PATH_MAX_def Let_def)
  with wrapper_executes [OF this] show ?thesis by fastforce
qed

text \<open>
  what the wrapper stores into the argument buffer, with the NULL at its end, fits into the
  space it asks \<open>malloc\<close> for: the fixed arguments, \<open>argc\<close> and the three exclusive ones.
\<close>

theorem wrapper_args_fit:
  "length (predef_args cfg ccache_path path sysroot @ exclusive_args cfg as @ as) + 1
     \<le> length (predef_args cfg ccache_path path sysroot) + (length (prog # as) + EXCLUSIVE_ARGS)"
  using exclusive_args_length [of cfg as] by simp

text \<open>
  the check of the arguments exits exactly in paranoid mode with an unsafe directory after
  \<open>-I\<close> or \<open>-L\<close>, in the same or the next argument, and it prints exactly where there is one.
\<close>

theorem check_args_correct:
  "(snd (check_args prog paranoid as) \<longleftrightarrow> paranoid \<and> (\<exists>d \<in> set (search_dirs as). unsafe d)) \<and>
   (fst (check_args prog paranoid as) \<noteq> [] \<longleftrightarrow> (\<exists>d \<in> set (search_dirs as). unsafe d))"
  using check_args_exits [of prog paranoid as] check_args_prints [of prog paranoid as] by blast

end
