(* ===== verification/Mcookie.thy ===== *)
theory Mcookie
  imports Kbase
begin

text \<open>
  \<open>package/x11r7/mcookie/mcookie.c\<close>: the MD5 code and the program that hashes what randomness it
  finds. \<open>uint32\<close> has 32 bits (the case of the 64 bit machines the header names) and the
  machine is little-endian, so \<open>byteReverse\<close> is nothing. The context is a record with the block
  buffer as a list of 64 bytes. \<open>MD5Transform\<close> is the list of its 64 steps; it is shown to be the
  loop of RFC 1321. A context stands for the bytes it was updated with (\<open>represents\<close>), and the
  digest of \<open>MD5Final\<close> is the hash of all of them at once, whatever pieces they came in.
\<close>

unbundle bit_operations_syntax

section \<open>MD5Transform\<close>

definition F1 :: "32 word \<Rightarrow> 32 word \<Rightarrow> 32 word \<Rightarrow> 32 word" where
  "F1 x y z = z XOR (x AND (y XOR z))"

definition F2 :: "32 word \<Rightarrow> 32 word \<Rightarrow> 32 word \<Rightarrow> 32 word" where
  "F2 x y z = F1 z x y"

definition F3 :: "32 word \<Rightarrow> 32 word \<Rightarrow> 32 word \<Rightarrow> 32 word" where
  "F3 x y z = x XOR y XOR z"

definition F4 :: "32 word \<Rightarrow> 32 word \<Rightarrow> 32 word \<Rightarrow> 32 word" where
  "F4 x y z = y XOR (x OR NOT z)"

text \<open>\<open>w += f(x, y, z) + data,  w = w<<s | w>>(32-s),  w += x\<close>\<close>

definition md5_step ::
  "(32 word \<Rightarrow> 32 word \<Rightarrow> 32 word \<Rightarrow> 32 word) \<Rightarrow>
   32 word \<Rightarrow> 32 word \<Rightarrow> 32 word \<Rightarrow> 32 word \<Rightarrow> 32 word \<Rightarrow> nat \<Rightarrow> 32 word" where
  "md5_step f w x y z data s =
     (let w = w + (f x y z + data);
          w = push_bit s w OR drop_bit (32 - s) w
      in w + x)"

text \<open>
  The registers \<open>a, b, c, d\<close>. The first argument of \<open>MD5STEP\<close> says which one is changed; the other
  three follow it in a circle in every line of the code.
\<close>

type_synonym regs = "32 word \<times> 32 word \<times> 32 word \<times> 32 word"

datatype reg = Ra | Rb | Rc | Rd

type_synonym md5_line =
  "(32 word \<Rightarrow> 32 word \<Rightarrow> 32 word \<Rightarrow> 32 word) \<times> reg \<times> nat \<times> 32 word \<times> nat"

fun MD5STEP :: "32 word list \<Rightarrow> md5_line \<Rightarrow> regs \<Rightarrow> regs" where
  "MD5STEP inp (f, Ra, k, t, s) (a, b, c, d) = (md5_step f a b c d (inp ! k + t) s, b, c, d)"
| "MD5STEP inp (f, Rd, k, t, s) (a, b, c, d) = (a, b, c, md5_step f d a b c (inp ! k + t) s)"
| "MD5STEP inp (f, Rc, k, t, s) (a, b, c, d) = (a, b, md5_step f c d a b (inp ! k + t) s, d)"
| "MD5STEP inp (f, Rb, k, t, s) (a, b, c, d) = (a, md5_step f b c d a (inp ! k + t) s, c, d)"

definition md5_lines :: "md5_line list" where
  "md5_lines =
     [(F1, Ra, 0, 0xd76aa478, 7), (F1, Rd, 1, 0xe8c7b756, 12),
      (F1, Rc, 2, 0x242070db, 17), (F1, Rb, 3, 0xc1bdceee, 22),
      (F1, Ra, 4, 0xf57c0faf, 7), (F1, Rd, 5, 0x4787c62a, 12),
      (F1, Rc, 6, 0xa8304613, 17), (F1, Rb, 7, 0xfd469501, 22),
      (F1, Ra, 8, 0x698098d8, 7), (F1, Rd, 9, 0x8b44f7af, 12),
      (F1, Rc, 10, 0xffff5bb1, 17), (F1, Rb, 11, 0x895cd7be, 22),
      (F1, Ra, 12, 0x6b901122, 7), (F1, Rd, 13, 0xfd987193, 12),
      (F1, Rc, 14, 0xa679438e, 17), (F1, Rb, 15, 0x49b40821, 22),
      (F2, Ra, 1, 0xf61e2562, 5), (F2, Rd, 6, 0xc040b340, 9),
      (F2, Rc, 11, 0x265e5a51, 14), (F2, Rb, 0, 0xe9b6c7aa, 20),
      (F2, Ra, 5, 0xd62f105d, 5), (F2, Rd, 10, 0x02441453, 9),
      (F2, Rc, 15, 0xd8a1e681, 14), (F2, Rb, 4, 0xe7d3fbc8, 20),
      (F2, Ra, 9, 0x21e1cde6, 5), (F2, Rd, 14, 0xc33707d6, 9),
      (F2, Rc, 3, 0xf4d50d87, 14), (F2, Rb, 8, 0x455a14ed, 20),
      (F2, Ra, 13, 0xa9e3e905, 5), (F2, Rd, 2, 0xfcefa3f8, 9),
      (F2, Rc, 7, 0x676f02d9, 14), (F2, Rb, 12, 0x8d2a4c8a, 20),
      (F3, Ra, 5, 0xfffa3942, 4), (F3, Rd, 8, 0x8771f681, 11),
      (F3, Rc, 11, 0x6d9d6122, 16), (F3, Rb, 14, 0xfde5380c, 23),
      (F3, Ra, 1, 0xa4beea44, 4), (F3, Rd, 4, 0x4bdecfa9, 11),
      (F3, Rc, 7, 0xf6bb4b60, 16), (F3, Rb, 10, 0xbebfbc70, 23),
      (F3, Ra, 13, 0x289b7ec6, 4), (F3, Rd, 0, 0xeaa127fa, 11),
      (F3, Rc, 3, 0xd4ef3085, 16), (F3, Rb, 6, 0x04881d05, 23),
      (F3, Ra, 9, 0xd9d4d039, 4), (F3, Rd, 12, 0xe6db99e5, 11),
      (F3, Rc, 15, 0x1fa27cf8, 16), (F3, Rb, 2, 0xc4ac5665, 23),
      (F4, Ra, 0, 0xf4292244, 6), (F4, Rd, 7, 0x432aff97, 10),
      (F4, Rc, 14, 0xab9423a7, 15), (F4, Rb, 5, 0xfc93a039, 21),
      (F4, Ra, 12, 0x655b59c3, 6), (F4, Rd, 3, 0x8f0ccc92, 10),
      (F4, Rc, 10, 0xffeff47d, 15), (F4, Rb, 1, 0x85845dd1, 21),
      (F4, Ra, 8, 0x6fa87e4f, 6), (F4, Rd, 15, 0xfe2ce6e0, 10),
      (F4, Rc, 6, 0xa3014314, 15), (F4, Rb, 13, 0x4e0811a1, 21),
      (F4, Ra, 4, 0xf7537e82, 6), (F4, Rd, 11, 0xbd3af235, 10),
      (F4, Rc, 2, 0x2ad7d2bb, 15), (F4, Rb, 9, 0xeb86d391, 21)]"

definition MD5Transform :: "regs \<Rightarrow> 32 word list \<Rightarrow> regs" where
  "MD5Transform buf inp =
     (case (buf, fold (MD5STEP inp) md5_lines buf) of
        ((a0, b0, c0, d0), (a, b, c, d)) \<Rightarrow> (a0 + a, b0 + b, c0 + c, d0 + d))"

section \<open>The loop of RFC 1321\<close>

definition md5_T :: "32 word list" where
  "md5_T =
     [0xd76aa478, 0xe8c7b756, 0x242070db, 0xc1bdceee, 0xf57c0faf, 0x4787c62a, 0xa8304613, 0xfd469501,
      0x698098d8, 0x8b44f7af, 0xffff5bb1, 0x895cd7be, 0x6b901122, 0xfd987193, 0xa679438e, 0x49b40821,
      0xf61e2562, 0xc040b340, 0x265e5a51, 0xe9b6c7aa, 0xd62f105d, 0x02441453, 0xd8a1e681, 0xe7d3fbc8,
      0x21e1cde6, 0xc33707d6, 0xf4d50d87, 0x455a14ed, 0xa9e3e905, 0xfcefa3f8, 0x676f02d9, 0x8d2a4c8a,
      0xfffa3942, 0x8771f681, 0x6d9d6122, 0xfde5380c, 0xa4beea44, 0x4bdecfa9, 0xf6bb4b60, 0xbebfbc70,
      0x289b7ec6, 0xeaa127fa, 0xd4ef3085, 0x04881d05, 0xd9d4d039, 0xe6db99e5, 0x1fa27cf8, 0xc4ac5665,
      0xf4292244, 0x432aff97, 0xab9423a7, 0xfc93a039, 0x655b59c3, 0x8f0ccc92, 0xffeff47d, 0x85845dd1,
      0x6fa87e4f, 0xfe2ce6e0, 0xa3014314, 0x4e0811a1, 0xf7537e82, 0xbd3af235, 0x2ad7d2bb, 0xeb86d391]"

definition rfc_f :: "nat \<Rightarrow> 32 word \<Rightarrow> 32 word \<Rightarrow> 32 word \<Rightarrow> 32 word" where
  "rfc_f i x y z =
     (if i < 16 then (x AND y) OR (NOT x AND z)
      else if i < 32 then (x AND z) OR (y AND NOT z)
      else if i < 48 then x XOR y XOR z
      else y XOR (x OR NOT z))"

definition rfc_index :: "nat \<Rightarrow> nat" where
  "rfc_index i =
     (if i < 16 then i
      else if i < 32 then (5 * i + 1) mod 16
      else if i < 48 then (3 * i + 5) mod 16
      else (7 * i) mod 16)"

definition rfc_shift :: "nat \<Rightarrow> nat" where
  "rfc_shift i =
     [[7, 12, 17, 22], [5, 9, 14, 20], [4, 11, 16, 23], [6, 10, 15, 21]] ! (i div 16) ! (i mod 4)"

text \<open>One turn: the registers move on by one, and the new one comes to the second place.\<close>

definition rfc_turn :: "32 word list \<Rightarrow> nat \<Rightarrow> regs \<Rightarrow> regs" where
  "rfc_turn inp i =
     (\<lambda>(a, b, c, d).
        (d, b + word_rotl (rfc_shift i) (a + rfc_f i b c d + md5_T ! i + inp ! rfc_index i), b, c))"

definition rfc_transform :: "regs \<Rightarrow> 32 word list \<Rightarrow> regs" where
  "rfc_transform buf inp =
     (case (buf, fold (rfc_turn inp) [0..<64] buf) of
        ((a0, b0, c0, d0), (a, b, c, d)) \<Rightarrow> (a0 + a, b0 + b, c0 + c, d0 + d))"

lemma rotl_shifts:
  assumes "0 < s" "s < 32"
  shows "word_rotl s w = push_bit s w OR drop_bit (32 - s) (w :: 32 word)"
proof (rule bit_word_eqI)
  fix n assume "n < LENGTH(32)"
  then have n: "n < 32" by simp
  show "bit (word_rotl s w) n \<longleftrightarrow> bit (push_bit s w OR drop_bit (32 - s) w) n"
  proof (cases "s \<le> n")
    case True
    with assms n have "(n + (32 - s)) mod 32 = n - s" by (simp add: mod_if)
    moreover from True assms have "\<not> bit w (32 - s + n)"
      by (auto dest: bit_imp_le_length)
    ultimately show ?thesis
      using True assms n by (simp add: bit_word_rotl_iff bit_or_iff bit_push_bit_iff bit_drop_bit_eq)
  next
    case False
    with assms n have "(n + (32 - s)) mod 32 = 32 - s + n" by simp
    then show ?thesis
      using False assms n by (simp add: bit_word_rotl_iff bit_or_iff bit_push_bit_iff bit_drop_bit_eq)
  qed
qed

lemma F1_eq: "F1 x y z = (x AND y) OR (NOT x AND z)"
  by (rule bit_word_eqI) (auto simp: F1_def bit_simps)

lemma F2_eq: "F2 x y z = (x AND z) OR (y AND NOT z)"
  by (rule bit_word_eqI) (auto simp: F2_def F1_def bit_simps)

definition md5_line :: "nat \<Rightarrow> md5_line" where
  "md5_line i = ([F1, F2, F3, F4] ! (i div 16), [Ra, Rd, Rc, Rb] ! (i mod 4), rfc_index i, md5_T ! i, rfc_shift i)"

lemma md5_lines_line: "md5_lines = map md5_line [0..<64]"
  by (simp add: md5_lines_def md5_line_def upt_rec rfc_index_def rfc_shift_def md5_T_def)

text \<open>The registers as the loop of the RFC has them before turn \<open>i\<close>.\<close>

fun view :: "nat \<Rightarrow> regs \<Rightarrow> regs" where
  "view i (a, b, c, d) =
     (case i mod 4 of 0 \<Rightarrow> (a, b, c, d) | Suc 0 \<Rightarrow> (d, a, b, c) | Suc (Suc 0) \<Rightarrow> (c, d, a, b)
      | _ \<Rightarrow> (b, c, d, a))"

lemma rfc_f_line: "i < 64 \<Longrightarrow> rfc_f i = [F1, F2, F3, F4] ! (i div 16)"
proof -
  assume i: "i < 64"
  then have "i div 16 = 0 \<or> i div 16 = 1 \<or> i div 16 = 2 \<or> i div 16 = 3" by linarith
  with i show ?thesis
    by (intro ext) (auto simp: rfc_f_def F1_eq F2_eq F3_def F4_def div_eq_dividend_iff)
qed

lemma rfc_shift_bounds: "i < 64 \<Longrightarrow> 0 < rfc_shift i \<and> rfc_shift i < 32"
proof -
  assume i: "i < 64"
  then have "i div 16 = 0 \<or> i div 16 = 1 \<or> i div 16 = 2 \<or> i div 16 = 3" by linarith
  moreover have "i mod 4 = 0 \<or> i mod 4 = 1 \<or> i mod 4 = 2 \<or> i mod 4 = 3" by linarith
  ultimately show ?thesis by (auto simp: rfc_shift_def)
qed

lemma md5_step_rotl:
  "i < 64 \<Longrightarrow> md5_step f w x y z data (rfc_shift i) = x + word_rotl (rfc_shift i) (w + (f x y z + data))"
  using rfc_shift_bounds by (simp add: md5_step_def Let_def rotl_shifts)

lemma rfc_turn_view:
  "i < 64 \<Longrightarrow> rfc_turn inp i (view i r) = view (Suc i) (MD5STEP inp (md5_line i) r)"
proof -
  assume i: "i < 64"
  obtain a b c d where r: "r = (a, b, c, d)" by (metis prod_cases4)
  have "i mod 4 = 0 \<and> Suc i mod 4 = 1 \<or> i mod 4 = 1 \<and> Suc i mod 4 = 2 \<or>
      i mod 4 = 2 \<and> Suc i mod 4 = 3 \<or> i mod 4 = 3 \<and> Suc i mod 4 = 0" by presburger
  then show ?thesis
    by (elim disjE conjE) (simp_all add: r rfc_turn_def md5_line_def md5_step_rotl i rfc_f_line ac_simps)
qed

lemma fold_rfc_turn:
  "n \<le> 64 \<Longrightarrow> fold (rfc_turn inp) [0..<n] r = view n (fold (MD5STEP inp) (map md5_line [0..<n]) r)"
proof (induction n)
  case 0
  then show ?case by (cases r) simp
next
  case (Suc n)
  then show ?case by (simp add: rfc_turn_view)
qed

lemma MD5Transform_rfc: "MD5Transform = rfc_transform"
proof (intro ext)
  fix buf inp
  have "view 64 r = r" for r by (cases r) simp
  then show "MD5Transform buf inp = rfc_transform buf inp"
    unfolding MD5Transform_def rfc_transform_def md5_lines_line fold_rfc_turn [OF order.refl] by simp
qed

section \<open>The context\<close>

record MD5Context =
  buf :: regs
  bits :: "32 word \<times> 32 word"
  inb :: "byte list"

text \<open>\<open>(uint32 *) ctx->in\<close>\<close>

definition words_of :: "byte list \<Rightarrow> 32 word list" where
  "words_of bs =
     map (\<lambda>i. ucast (bs ! (4 * i)) OR push_bit 8 (ucast (bs ! (4 * i + 1))) OR
              push_bit 16 (ucast (bs ! (4 * i + 2))) OR push_bit 24 (ucast (bs ! (4 * i + 3))))
       [0..<16]"

definition md5_start :: regs where
  "md5_start = (0x67452301, 0xefcdab89, 0x98badcfe, 0x10325476)"

definition MD5Init :: "MD5Context \<Rightarrow> MD5Context" where
  "MD5Init ctx = ctx\<lparr>buf := md5_start, bits := (0, 0)\<rparr>"

definition transform_in :: "MD5Context \<Rightarrow> MD5Context" where
  "transform_in ctx = ctx\<lparr>buf := MD5Transform (buf ctx) (words_of (inb ctx))\<rparr>"

text \<open>The loop over 64-byte chunks, with the bytes that are left.\<close>

function md5_chunks :: "MD5Context \<Rightarrow> byte list \<Rightarrow> MD5Context \<times> byte list" where
  "md5_chunks ctx data =
     (if length data < 64 then (ctx, data)
      else md5_chunks (transform_in (ctx\<lparr>inb := poke 0 (take 64 data) (inb ctx)\<rparr>)) (drop 64 data))"
  by pat_completeness auto
termination by (relation "measure (\<lambda>(ctx, data). length data)") auto

declare md5_chunks.simps [simp del]

definition md5_tail :: "MD5Context \<Rightarrow> byte list \<Rightarrow> MD5Context" where
  "md5_tail ctx data =
     (let (ctx, rest) = md5_chunks ctx data in ctx\<lparr>inb := poke 0 rest (inb ctx)\<rparr>)"

definition add_bits :: "32 word \<times> 32 word \<Rightarrow> 32 word \<Rightarrow> 32 word \<times> 32 word" where
  "add_bits b len =
     (let t = fst b; lo = t + push_bit 3 len
      in (lo, snd b + (if lo < t then 1 else 0) + drop_bit 29 len))"

definition bytes_in :: "32 word \<times> 32 word \<Rightarrow> nat" where
  "bytes_in b = unat (drop_bit 3 (fst b) AND 0x3f)"

text \<open>\<open>len\<close> is an \<open>unsigned\<close>: \<open>data\<close> has less than 2 ^ 32 bytes.\<close>

definition MD5Update :: "MD5Context \<Rightarrow> byte list \<Rightarrow> MD5Context" where
  "MD5Update ctx data =
     (let t = bytes_in (bits ctx);
          ctx = ctx\<lparr>bits := add_bits (bits ctx) (word_of_nat (length data))\<rparr>
      in if t \<noteq> 0
         then (if length data < 64 - t
               then ctx\<lparr>inb := poke t data (inb ctx)\<rparr>
               else md5_tail (transform_in (ctx\<lparr>inb := poke t (take (64 - t) data) (inb ctx)\<rparr>))
                      (drop (64 - t) data))
         else md5_tail ctx data)"

definition digest_bytes :: "regs \<Rightarrow> byte list" where
  "digest_bytes r =
     (case r of (a, b, c, d) \<Rightarrow> le_bytes a @ le_bytes b @ le_bytes c @ le_bytes d)"

text \<open>
  The digest and the context that is left. \<open>memset(ctx, 0, sizeof(ctx))\<close> has the size of a
  pointer, 8 bytes: the first two words of the state.
\<close>

definition MD5Final :: "MD5Context \<Rightarrow> byte list \<times> MD5Context" where
  "MD5Final ctx =
     (let count = bytes_in (bits ctx);
          ctx = ctx\<lparr>inb := poke count [0x80] (inb ctx)\<rparr>;
          p = count + 1;
          count = 64 - 1 - count;
          ctx = (if count < 8
                 then (let ctx = transform_in (ctx\<lparr>inb := poke p (replicate count 0) (inb ctx)\<rparr>)
                       in ctx\<lparr>inb := poke 0 (replicate 56 0) (inb ctx)\<rparr>)
                 else ctx\<lparr>inb := poke p (replicate (count - 8) 0) (inb ctx)\<rparr>);
          ctx = ctx\<lparr>inb := poke 56 (le_bytes (fst (bits ctx)) @ le_bytes (snd (bits ctx))) (inb ctx)\<rparr>;
          ctx = transform_in ctx;
          digest = digest_bytes (buf ctx)
      in (digest, ctx\<lparr>buf := (0, 0, snd (snd (buf ctx)))\<rparr>))"

section \<open>The hash of a message\<close>

function hash_blocks :: "regs \<Rightarrow> byte list \<Rightarrow> regs" where
  "hash_blocks r bs =
     (if length bs < 64 then r
      else hash_blocks (rfc_transform r (words_of (take 64 bs))) (drop 64 bs))"
  by pat_completeness auto
termination by (relation "measure (\<lambda>(r, bs). length bs)") auto

declare hash_blocks.simps [simp del]

definition pad_zeros :: "nat \<Rightarrow> nat" where
  "pad_zeros n = (119 - n mod 64) mod 64"

definition length_words :: "nat \<Rightarrow> 32 word \<times> 32 word" where
  "length_words n = (word_of_nat (8 * n), word_of_nat (8 * n div 2 ^ 32))"

definition md5_pad :: "byte list \<Rightarrow> byte list" where
  "md5_pad msg =
     msg @ [0x80] @ replicate (pad_zeros (length msg)) 0 @
     le_bytes (fst (length_words (length msg))) @ le_bytes (snd (length_words (length msg)))"

definition md5 :: "byte list \<Rightarrow> byte list" where
  "md5 msg = digest_bytes (hash_blocks md5_start (md5_pad msg))"

text \<open>A context that was updated with the bytes of \<open>msg\<close>.\<close>

definition represents :: "MD5Context \<Rightarrow> byte list \<Rightarrow> bool" where
  "represents ctx msg \<longleftrightarrow>
     length (inb ctx) = 64 \<and>
     bits ctx = length_words (length msg) \<and>
     buf ctx = hash_blocks md5_start msg \<and>
     take (length msg mod 64) (inb ctx) = drop (64 * (length msg div 64)) msg"

lemma hash_blocks_short [simp]: "length bs < 64 \<Longrightarrow> hash_blocks r bs = r"
  by (simp add: hash_blocks.simps)

lemma hash_blocks_append:
  "length xs mod 64 = 0 \<Longrightarrow> hash_blocks r (xs @ ys) = hash_blocks (hash_blocks r xs) ys"
proof (induction r xs rule: hash_blocks.induct)
  case (1 r xs)
  show ?case
  proof (cases "length xs < 64")
    case True
    with 1 show ?thesis by simp
  next
    case False
    with 1 have "length (drop 64 xs) mod 64 = 0" by (simp add: le_mod_geq)
    with 1 False show ?thesis by (simp add: hash_blocks.simps [of r xs] hash_blocks.simps [of r "xs @ ys"])
  qed
qed

lemma hash_blocks_one:
  "length bs = 64 \<Longrightarrow> hash_blocks r bs = rfc_transform r (words_of bs)"
  by (simp add: hash_blocks.simps)

lemma hash_blocks_two:
  "length a = 64 \<Longrightarrow> length b = 64 \<Longrightarrow>
   hash_blocks r (a @ b) = rfc_transform (rfc_transform r (words_of a)) (words_of b)"
  by (simp add: hash_blocks_append hash_blocks_one)

lemma transform_in_simps [simp]:
  "buf (transform_in ctx) = rfc_transform (buf ctx) (words_of (inb ctx))"
  "bits (transform_in ctx) = bits ctx" "inb (transform_in ctx) = inb ctx"
  by (simp_all add: transform_in_def MD5Transform_rfc)

lemma poke_all: "length bytes = length xs \<Longrightarrow> poke 0 bytes xs = bytes"
  by (simp add: poke_def)

lemma md5_chunks:
  "length (inb ctx) = 64 \<Longrightarrow>
   buf (fst (md5_chunks ctx data)) = hash_blocks (buf ctx) data \<and>
   bits (fst (md5_chunks ctx data)) = bits ctx \<and>
   length (inb (fst (md5_chunks ctx data))) = 64 \<and>
   snd (md5_chunks ctx data) = drop (64 * (length data div 64)) data"
proof (induction ctx data rule: md5_chunks.induct)
  case (1 ctx data)
  show ?case
  proof (cases "length data < 64")
    case True
    with 1 show ?thesis by (simp add: md5_chunks.simps)
  next
    case False
    then have "64 * ((length data - 64) div 64) + 64 = 64 * (length data div 64)"
      using div_add_self2 [of 64 "length data - 64"] by simp
    with 1 False show ?thesis
      by (simp add: md5_chunks.simps [of ctx data] hash_blocks.simps [of _ data] poke_all)
  qed
qed

lemma md5_tail:
  assumes "length (inb ctx) = 64"
  shows "buf (md5_tail ctx data) = hash_blocks (buf ctx) data"
    "bits (md5_tail ctx data) = bits ctx" "length (inb (md5_tail ctx data)) = 64"
    "take (length data mod 64) (inb (md5_tail ctx data)) = drop (64 * (length data div 64)) data"
proof -
  have "length (drop (64 * (length data div 64)) data) = length data mod 64"
    by (simp add: modulo_nat_def)
  with md5_chunks [OF assms, of data]
  show "buf (md5_tail ctx data) = hash_blocks (buf ctx) data"
    "bits (md5_tail ctx data) = bits ctx" "length (inb (md5_tail ctx data)) = 64"
    "take (length data mod 64) (inb (md5_tail ctx data)) = drop (64 * (length data div 64)) data"
    by (simp_all add: md5_tail_def Let_def split_def poke_def)
qed

text \<open>The counter of the bits.\<close>

lemma bytes_in_length: "bytes_in (length_words n) = n mod 64"
proof -
  have m: "(0x3f :: 32 word) = mask 6" by (simp add: mask_eq_exp_minus_1)
  have "8 * n mod 2 ^ 32 div 8 mod 64 = 8 * (n mod 2 ^ 29) div 8 mod 64"
    using mult_mod_right [of 8 n "2 ^ 29"] by simp
  also have "\<dots> = n mod 64" by (simp add: mod_mod_cancel)
  finally show ?thesis
    unfolding bytes_in_def length_words_def m take_bit_eq_mask [symmetric] fst_conv
    by (subst unsigned_take_bit_eq, subst unat_drop_bit_eq)
      (simp add: take_bit_eq_mod drop_bit_eq_div unat_of_nat del: of_nat_mult)
qed

lemma carry_at:
  fixes a b k :: nat
  assumes "0 < k"
  shows "(a + b) div k = a div k + (if (a + b) mod k < a mod k then 1 else 0) + b div k"
proof -
  have lt: "a mod k < k" "b mod k < k" using assms by simp_all
  have m: "(a + b) mod k = (if a mod k + b mod k < k then a mod k + b mod k else a mod k + b mod k - k)"
  proof -
    have "x < k \<Longrightarrow> y < k \<Longrightarrow> (x + y) mod k = (if x + y < k then x + y else x + y - k)" for x y
      by (auto simp: le_mod_geq)
    from this [OF lt] show ?thesis by (simp add: mod_add_eq)
  qed
  have "(a mod k + b mod k) div k = (if a mod k + b mod k < k then 0 else 1)"
  proof -
    have "x < k \<Longrightarrow> y < k \<Longrightarrow> (x + y) div k = (if x + y < k then 0 else 1)" for x y
      using assms by (auto simp: le_div_geq)
    from this [OF lt] show ?thesis .
  qed
  with m lt show ?thesis by (auto simp: div_add1_eq [of a b])
qed

lemmas carry = carry_at [of "2 ^ 32", OF zero_less_power [OF zero_less_numeral]]

lemma add_bits_length:
  assumes "m < 2 ^ 32"
  shows "add_bits (length_words n) (word_of_nat m) = length_words (n + m)"
proof -
  have p: "push_bit 3 (word_of_nat m) = (word_of_nat (8 * m) :: 32 word)"
    by (simp add: push_bit_eq_mult)
  have "unat (drop_bit 29 (word_of_nat m :: 32 word)) = 8 * m div 2 ^ 32"
    using assms by (subst unat_drop_bit_eq) (simp add: drop_bit_eq_div unat_of_nat)
  then have d: "drop_bit 29 (word_of_nat m) = (word_of_nat (8 * m div 2 ^ 32) :: 32 word)"
    by (metis of_nat_unat ucast_id)
  have lo: "word_of_nat (8 * n) + word_of_nat (8 * m) = (word_of_nat (8 * n + 8 * m) :: 32 word)"
    by simp
  have lt: "(word_of_nat (8 * n + 8 * m) :: 32 word) < word_of_nat (8 * n) \<longleftrightarrow>
      (8 * n + 8 * m) mod 2 ^ 32 < 8 * n mod 2 ^ 32"
    by (simp add: word_less_nat_alt unat_of_nat del: of_nat_add of_nat_mult)
  have "word_of_nat (8 * n div 2 ^ 32) +
        (if (8 * n + 8 * m) mod 2 ^ 32 < 8 * n mod 2 ^ 32 then 1 else 0) +
        word_of_nat (8 * m div 2 ^ 32) = (word_of_nat ((8 * n + 8 * m) div 2 ^ 32) :: 32 word)"
    by (subst carry) simp
  then show ?thesis
    unfolding add_bits_def length_words_def Let_def fst_conv snd_conv p d lo lt
    by (simp only: distrib_left)
qed

section \<open>Updating and finishing\<close>

lemma represents_parts:
  "length pre mod 64 = 0 \<Longrightarrow> length r < 64 \<Longrightarrow>
   represents ctx (pre @ r) \<longleftrightarrow>
     length (inb ctx) = 64 \<and> bits ctx = length_words (length (pre @ r)) \<and>
     buf ctx = hash_blocks md5_start pre \<and> take (length r) (inb ctx) = r"
proof -
  assume p: "length pre mod 64 = 0" and r: "length r < 64"
  have "(length pre + length r) mod 64 = length r" using p r by (simp add: mod_add_eq [symmetric, of "length pre"])
  moreover have "64 * ((length pre + length r) div 64) = length pre"
    using p r by (simp add: mod_eq_0_iff_dvd div_plus_div_distrib_dvd_left)
  ultimately show ?thesis
    unfolding represents_def using p r by (simp add: hash_blocks_append)
qed

lemma split_message:
  obtains pre r where "msg = pre @ r" "length pre mod 64 = 0" "length r < 64"
proof
  show "msg = take (64 * (length msg div 64)) msg @ drop (64 * (length msg div 64)) msg" by simp
  show "length (take (64 * (length msg div 64)) msg) mod 64 = 0"
    by (simp add: min_absorb2)
  show "length (drop (64 * (length msg div 64)) msg) < 64"
    using mod_less_divisor [of 64 "length msg"] by (simp add: minus_mult_div_eq_mod)
qed

lemma tail_represents:
  assumes "length (inb ctx) = 64" "length pre mod 64 = 0" "buf ctx = hash_blocks md5_start pre"
    and "bits ctx = length_words (length (pre @ data))"
  shows "represents (md5_tail ctx data) (pre @ data)"
proof -
  have "(length pre + length data) mod 64 = length data mod 64"
    using assms(2) by (simp add: mod_add_eq [symmetric, of "length pre"])
  moreover have "64 * ((length pre + length data) div 64) = length pre + 64 * (length data div 64)"
    using assms(2) by (simp add: mod_eq_0_iff_dvd div_plus_div_distrib_dvd_left)
  ultimately show ?thesis
    unfolding represents_def using md5_tail [OF assms(1), of data] assms
    by (simp add: hash_blocks_append)
qed

lemma MD5Update_represents:
  assumes "represents ctx msg" "length data < 2 ^ 32"
  shows "represents (MD5Update ctx data) (msg @ data)"
proof -
  obtain pre r where m: "msg = pre @ r" "length pre mod 64 = 0" "length r < 64"
    by (rule split_message)
  note ctx = assms(1) [unfolded m(1) represents_parts [OF m(2,3)]]
  let ?ctx = "ctx\<lparr>bits := add_bits (bits ctx) (word_of_nat (length data))\<rparr>"
  have b: "bits ?ctx = length_words (length (pre @ r @ data))"
    using ctx add_bits_length [OF assms(2)] by (simp add: add.assoc)
  have t: "bytes_in (bits ctx) = length r"
    using ctx m(2,3) by (simp add: bytes_in_length mod_add_eq [symmetric, of "length pre"])
  consider "r = []" | "r \<noteq> []" "length data < 64 - length r" | "r \<noteq> []" "\<not> length data < 64 - length r"
    by blast
  then show ?thesis
  proof cases
    case 1
    with t have "MD5Update ctx data = md5_tail ?ctx data" by (simp add: MD5Update_def Let_def)
    with tail_represents [of ?ctx pre data] ctx b m 1 show ?thesis by simp
  next
    case 2
    let ?c = "?ctx\<lparr>inb := poke (length r) data (inb ctx)\<rparr>"
    from 2 t have u: "MD5Update ctx data = ?c" by (simp add: MD5Update_def Let_def)
    from 2 have l: "length (r @ data) < 64" by simp
    have "represents ?c (pre @ r @ data)"
      unfolding represents_parts [OF m(2) l] using ctx b l by (simp add: poke_def)
    with u m(1) show ?thesis by simp
  next
    case 3
    let ?d = "take (64 - length r) data"
    let ?c = "transform_in (?ctx\<lparr>inb := poke (length r) ?d (inb ctx)\<rparr>)"
    from 3 t have u: "MD5Update ctx data = md5_tail ?c (drop (64 - length r) data)"
      by (simp add: MD5Update_def Let_def)
    have p: "poke (length r) ?d (inb ctx) = r @ ?d" and l: "length (r @ ?d) = 64"
      using 3 ctx m(3) by (simp_all add: poke_def min_def)
    have lp: "length (pre @ r @ ?d) mod 64 = 0"
      using m(2) l by (simp add: add.assoc)
    have "represents (md5_tail ?c (drop (64 - length r) data)) ((pre @ r @ ?d) @ drop (64 - length r) data)"
    proof (rule tail_represents [OF _ lp])
      show "length (inb ?c) = 64" using p l by simp
      show "buf ?c = hash_blocks md5_start (pre @ r @ ?d)"
        using ctx p l by (simp add: hash_blocks_append [OF m(2)] hash_blocks_one)
      show "bits ?c = length_words (length ((pre @ r @ ?d) @ drop (64 - length r) data))"
        using b 3 m(3) by (simp add: min_def)
    qed
    with u m(1) show ?thesis by simp
  qed
qed

lemma pad_zeros:
  assumes "length pre mod 64 = 0" "k < 64"
  shows "k < 56 \<Longrightarrow> pad_zeros (length pre + k) = 55 - k"
    "\<not> k < 56 \<Longrightarrow> pad_zeros (length pre + k) = (63 - k) + 56"
proof -
  have "(length pre + k) mod 64 = k" using assms by (simp add: mod_add_eq [symmetric, of "length pre"])
  then show "k < 56 \<Longrightarrow> pad_zeros (length pre + k) = 55 - k"
    "\<not> k < 56 \<Longrightarrow> pad_zeros (length pre + k) = (63 - k) + 56"
    using assms(2) by (simp_all add: pad_zeros_def le_mod_geq)
qed

lemma MD5Final_md5:
  assumes "represents ctx msg"
  shows "fst (MD5Final ctx) = md5 msg"
proof -
  obtain pre r where m: "msg = pre @ r" "length pre mod 64 = 0" "length r < 64"
    by (rule split_message)
  let ?k = "length r" and ?L = "length_words (length (pre @ r))"
  let ?l = "le_bytes (fst ?L) @ le_bytes (snd ?L)"
  note ctx = assms [unfolded m(1) represents_parts [OF m(2,3)]]
  have t: "bytes_in (bits ctx) = ?k"
    using ctx m(2,3) by (simp add: bytes_in_length mod_add_eq [symmetric, of "length pre"])
  let ?p1 = "poke ?k [0x80] (inb ctx)"
  have p1: "take (Suc ?k) ?p1 = r @ [0x80]" "length ?p1 = 64"
    using ctx m(3) by (simp_all add: poke_def)
  show ?thesis
  proof (cases "?k < 56")
    case True
    then have "56 - ?k = Suc (55 - ?k)" by simp
    then have "poke 56 ?l (poke (Suc ?k) (replicate (55 - ?k) 0) ?p1) = r @ [0x80] @ replicate (55 - ?k) 0 @ ?l"
      using p1 True by (simp add: poke_def)
    moreover have "length (r @ [0x80] @ replicate (55 - ?k) 0 @ ?l) = 64" using True by simp
    moreover have "md5_pad msg = pre @ (r @ [0x80] @ replicate (55 - ?k) 0 @ ?l)"
      using pad_zeros(1) [OF m(2,3) True] by (simp add: md5_pad_def m(1))
    moreover have "\<not> 63 - ?k < 8" using True by simp
    ultimately show ?thesis
      using True ctx t
      by (simp add: MD5Final_def Let_def md5_def hash_blocks_append [OF m(2)] hash_blocks_one)
  next
    case False
    let ?b1 = "r @ [0x80] @ replicate (63 - ?k) 0"
    have 1: "poke (Suc ?k) (replicate (63 - ?k) 0) ?p1 = ?b1"
      using p1 False m(3) by (simp add: poke_def)
    have l1: "length ?b1 = 64" using m(3) by simp
    have 2: "poke 56 ?l (poke 0 (replicate 56 0) ?b1) = replicate 56 0 @ ?l"
      using l1 by (simp add: poke_def)
    have "md5_pad msg = pre @ ?b1 @ (replicate 56 0 @ ?l)"
      using pad_zeros(2) [OF m(2,3) False] by (simp add: md5_pad_def m(1) replicate_add)
    then have "md5 msg = digest_bytes (hash_blocks (hash_blocks md5_start pre) (?b1 @ (replicate 56 0 @ ?l)))"
      by (simp only: md5_def hash_blocks_append [OF m(2)])
    also have "\<dots> = digest_bytes (rfc_transform (rfc_transform (hash_blocks md5_start pre) (words_of ?b1))
        (words_of (replicate 56 0 @ ?l)))"
      by (subst hash_blocks_two [OF l1]) simp_all
    finally have "md5 msg = \<dots>" .
    moreover have "fst (MD5Final ctx) = digest_bytes (rfc_transform (rfc_transform (buf ctx) (words_of ?b1))
        (words_of (poke 56 ?l (poke 0 (replicate 56 0) ?b1))))"
    proof -
      from False m(3) have "63 - ?k < 8" by simp
      with ctx t 1 show ?thesis by (simp add: MD5Final_def Let_def)
    qed
    ultimately show ?thesis using ctx 2 by simp
  qed
qed

section \<open>The streaming interface\<close>

text \<open>
  What the program needs of the three functions: after \<open>init\<close> the state stands for no bytes,
  \<open>update\<close> adds bytes, \<open>final\<close> gives the hash of all of them.
\<close>

locale streaming_hash =
  fixes init :: "'s \<Rightarrow> 's" and update :: "'s \<Rightarrow> byte list \<Rightarrow> 's" and final :: "'s \<Rightarrow> 'd"
    and hash :: "byte list \<Rightarrow> 'd" and stands_for :: "'s \<Rightarrow> byte list \<Rightarrow> bool"
    and fits :: "byte list \<Rightarrow> bool" and usable :: "'s \<Rightarrow> bool"
  assumes init: "usable s \<Longrightarrow> stands_for (init s) []"
    and update: "stands_for s msg \<Longrightarrow> fits d \<Longrightarrow> stands_for (update s d) (msg @ d)"
    and final: "stands_for s msg \<Longrightarrow> final s = hash msg"
begin

lemma updates: "stands_for s msg \<Longrightarrow> list_all fits ds \<Longrightarrow> stands_for (foldl update s ds) (msg @ concat ds)"
proof (induction ds arbitrary: s msg)
  case (Cons d ds)
  with update [of s msg d] show ?case by fastforce
qed simp

lemma pieces:
  "usable s \<Longrightarrow> list_all fits ds \<Longrightarrow> final (foldl update (init s) ds) = hash (concat ds)"
  using final [OF updates [OF init]] by simp

lemma pieces_irrelevant:
  "usable s \<Longrightarrow> usable s' \<Longrightarrow> list_all fits ds \<Longrightarrow> list_all fits es \<Longrightarrow> concat ds = concat es \<Longrightarrow>
   final (foldl update (init s) ds) = final (foldl update (init s') es)"
  by (simp add: pieces)

end

definition has_buffer :: "MD5Context \<Rightarrow> bool" where
  "has_buffer ctx \<longleftrightarrow> length (inb ctx) = 64"

definition fits_unsigned :: "byte list \<Rightarrow> bool" where
  "fits_unsigned d \<longleftrightarrow> length d < 2 ^ 32"

lemma MD5Init_represents: "has_buffer ctx \<Longrightarrow> represents (MD5Init ctx) []"
  by (simp add: has_buffer_def represents_def MD5Init_def length_words_def)

interpretation md5_stream: streaming_hash MD5Init MD5Update "fst \<circ> MD5Final" md5 represents
    fits_unsigned has_buffer
  by unfold_locales
    (simp_all add: MD5Init_represents MD5Update_represents MD5Final_md5 fits_unsigned_def)

section \<open>The program\<close>

text \<open>What the calls of \<open>read\<close> on a descriptor return, up to the first that returns 0 or less.\<close>

definition hash_file :: "MD5Context \<Rightarrow> byte list list \<Rightarrow> MD5Context \<times> nat" where
  "hash_file ctx reads =
     (let (ctx, count) =
            foldl (\<lambda>(ctx, count) r. (MD5Update ctx r, count + length r)) (ctx, 0)
              (takeWhile (\<lambda>r. r \<noteq> []) reads)
      in (MD5Update ctx [0], count))"

type_synonym rng = "string \<times> nat \<times> nat"

definition rngs :: "rng list" where
  "rngs =
     [(''/dev/random'', 16, 16), (''/proc/interrupts'', 0, 0), (''/proc/slabinfo'', 0, 0),
      (''/proc/stat'', 0, 0), (''/dev/urandom'', 32, 64)]"

definition BUFFERSIZE :: nat where "BUFFERSIZE = 4096"

text \<open>
  The system: \<open>openf path\<close> is what the file has to give, None when it cannot be opened; \<open>read\<close>
  returns at most as much as it is asked for. The bytes hashed from a source.
\<close>

fun hash_rngs :: "(string \<Rightarrow> byte list option) \<Rightarrow> MD5Context \<Rightarrow> rng list \<Rightarrow> MD5Context" where
  "hash_rngs openf ctx [] = ctx"
| "hash_rngs openf ctx ((path, minlength, maxlength) # rs) =
     (case openf path of
        None \<Rightarrow> hash_rngs openf ctx rs
      | Some content \<Rightarrow>
          (let count = (if maxlength \<noteq> 0 \<and> BUFFERSIZE > maxlength then maxlength else BUFFERSIZE);
               got = take count content;
               ctx = (if got \<noteq> [] then MD5Update ctx got else ctx)
           in if minlength \<noteq> 0 \<and> length got \<ge> minlength then ctx else hash_rngs openf ctx rs))"

definition hex_byte :: "byte \<Rightarrow> string" where
  "hex_byte b = [digit_char (unat b div 16), digit_char (unat b mod 16)]"

text \<open>
  \<open>main\<close>: \<open>tv\<close>, \<open>ppid\<close>, \<open>pid\<close> are the bytes of the time and the process ids, \<open>file\<close> the reads of the
  file named with -f when it could be opened. The result is what is printed.
\<close>

definition mcookie ::
  "MD5Context \<Rightarrow> byte list \<Rightarrow> byte list \<Rightarrow> byte list \<Rightarrow> byte list list option \<Rightarrow>
   (string \<Rightarrow> byte list option) \<Rightarrow> string" where
  "mcookie ctx tv ppid pid file openf =
     (let ctx = MD5Init ctx;
          ctx = MD5Update ctx tv;
          ctx = MD5Update ctx ppid;
          ctx = MD5Update ctx pid;
          ctx = (case file of None \<Rightarrow> ctx | Some reads \<Rightarrow> fst (hash_file ctx reads));
          ctx = hash_rngs openf ctx rngs
      in concat (map hex_byte (fst (MD5Final ctx))) @ [CHR 0x0A])"

text \<open>The bytes that are hashed, in order.\<close>

fun rng_bytes :: "(string \<Rightarrow> byte list option) \<Rightarrow> rng list \<Rightarrow> byte list" where
  "rng_bytes openf [] = []"
| "rng_bytes openf ((path, minlength, maxlength) # rs) =
     (case openf path of
        None \<Rightarrow> rng_bytes openf rs
      | Some content \<Rightarrow>
          (let got = take (if maxlength \<noteq> 0 \<and> BUFFERSIZE > maxlength then maxlength else BUFFERSIZE) content
           in got @ (if minlength \<noteq> 0 \<and> length got \<ge> minlength then [] else rng_bytes openf rs)))"

definition cookie_bytes ::
  "byte list \<Rightarrow> byte list \<Rightarrow> byte list \<Rightarrow> byte list list option \<Rightarrow> (string \<Rightarrow> byte list option) \<Rightarrow> byte list" where
  "cookie_bytes tv ppid pid file openf =
     tv @ ppid @ pid @
     (case file of None \<Rightarrow> [] | Some reads \<Rightarrow> concat (takeWhile (\<lambda>r. r \<noteq> []) reads) @ [0]) @
     rng_bytes openf rngs"

lemma hash_file_represents:
  assumes "represents ctx msg" "list_all fits_unsigned reads"
  shows "represents (fst (hash_file ctx reads)) (msg @ concat (takeWhile (\<lambda>r. r \<noteq> []) reads) @ [0])"
proof -
  have f: "fst (foldl (\<lambda>p r. (MD5Update (fst p) r, snd p + length r)) (ctx, n) rs) =
      foldl MD5Update ctx rs" for ctx n rs
    by (induction rs arbitrary: ctx n) auto
  have "list_all fits_unsigned (takeWhile (\<lambda>r. r \<noteq> []) reads)"
    using assms(2) by (auto simp: list_all_iff dest: set_takeWhileD)
  with md5_stream.updates [OF assms(1)]
  have "represents (foldl MD5Update ctx (takeWhile (\<lambda>r. r \<noteq> []) reads))
      (msg @ concat (takeWhile (\<lambda>r. r \<noteq> []) reads))" by blast
  from md5_stream.update [OF this, of "[0]"] show ?thesis
    by (simp add: hash_file_def Let_def split_def f fits_unsigned_def)
qed

lemma hash_rngs_represents:
  assumes "represents ctx msg" "\<forall>(p, mn, mx) \<in> set rs. mx < 2 ^ 32"
  shows "represents (hash_rngs openf ctx rs) (msg @ rng_bytes openf rs)"
  using assms
proof (induction openf ctx rs arbitrary: msg rule: hash_rngs.induct)
  case (2 openf ctx path mn mx rs)
  show ?case
  proof (cases "openf path")
    case None
    with 2 show ?thesis by simp
  next
    case (Some content)
    define n where "n = (if mx \<noteq> 0 \<and> BUFFERSIZE > mx then mx else BUFFERSIZE)"
    define ctx' where "ctx' = (if take n content \<noteq> [] then MD5Update ctx (take n content) else ctx)"
    have "length (take n content) \<le> 4096"
      by (simp add: n_def BUFFERSIZE_def min_def)
    then have "fits_unsigned (take n content)" by (simp add: fits_unsigned_def)
    then have r: "represents ctx' (msg @ take n content)"
      using 2(3) md5_stream.update by (auto simp: ctx'_def)
    have h: "hash_rngs openf ctx ((path, mn, mx) # rs) =
        (if mn \<noteq> 0 \<and> length (take n content) \<ge> mn then ctx' else hash_rngs openf ctx' rs)"
      unfolding ctx'_def n_def by (simp add: Some Let_def del: length_take take_eq_Nil)
    have b: "rng_bytes openf ((path, mn, mx) # rs) =
        take n content @ (if mn \<noteq> 0 \<and> length (take n content) \<ge> mn then [] else rng_bytes openf rs)"
      unfolding n_def by (simp add: Some Let_def del: length_take)
    show ?thesis
    proof (cases "mn \<noteq> 0 \<and> length (take n content) \<ge> mn")
      case True
      with r show ?thesis unfolding h b if_P [OF True] by (simp only: append_Nil2)
    next
      case False
      with "2.IH"(2) [OF Some n_def refl ctx'_def _ r] 2(4)
      have "represents (hash_rngs openf ctx' rs) ((msg @ take n content) @ rng_bytes openf rs)" by auto
      then show ?thesis unfolding h b if_not_P [OF False] by (simp only: append_assoc)
    qed
  qed
qed simp

lemma mcookie_value:
  assumes "has_buffer ctx" "list_all fits_unsigned [tv, ppid, pid]"
    and "case file of None \<Rightarrow> True | Some reads \<Rightarrow> list_all fits_unsigned reads"
  shows "mcookie ctx tv ppid pid file openf =
    concat (map hex_byte (md5 (cookie_bytes tv ppid pid file openf))) @ [CHR 0x0A]"
proof -
  let ?ctx1 = "MD5Update (MD5Update (MD5Update (MD5Init ctx) tv) ppid) pid"
  let ?ctx2 = "case file of None \<Rightarrow> ?ctx1 | Some reads \<Rightarrow> fst (hash_file ?ctx1 reads)"
  have "represents ?ctx1 (tv @ ppid @ pid)"
    using md5_stream.updates [OF md5_stream.init [OF assms(1)] assms(2)] by simp
  then have "represents ?ctx2 (tv @ ppid @ pid @
      (case file of None \<Rightarrow> [] | Some reads \<Rightarrow> concat (takeWhile (\<lambda>r. r \<noteq> []) reads) @ [0]))"
    using hash_file_represents [of ?ctx1 "tv @ ppid @ pid"] assms(3) by (cases "file") simp_all
  then have "represents (hash_rngs openf ?ctx2 rngs) (cookie_bytes tv ppid pid file openf)"
    using hash_rngs_represents [of ?ctx2 _ rngs] by (fastforce simp: cookie_bytes_def rngs_def)
  from MD5Final_md5 [OF this] show ?thesis by (simp add: mcookie_def Let_def)
qed

lemma length_digest_bytes: "length (digest_bytes r) = 16"
  by (cases r) (simp add: digest_bytes_def)

lemma length_hex: "length (concat (map hex_byte bs)) = 2 * length bs"
  by (induction bs) (simp_all add: hex_byte_def)

text \<open>A test vector of RFC 1321: the hash of abc.\<close>

lemma md5_abc: "md5 [0x61, 0x62, 0x63] =
    [0x90, 0x01, 0x50, 0x98, 0x3c, 0xd2, 0x4f, 0xb0, 0xd6, 0x96, 0x3f, 0x7d, 0x28, 0xe1, 0x7f, 0x72]"
proof -
  have p: "md5_pad [0x61, 0x62, 0x63] = [0x61, 0x62, 0x63, 0x80] @ replicate 52 0 @ [24, 0, 0, 0, 0, 0, 0, 0]"
    by (simp add: md5_pad_def pad_zeros_def length_words_def le_bytes_def upt_rec)
  have r: "replicate 52 (0 :: byte) =
     [0, 0, 0, 0, 0, 0, 0, 0, 0, 0, 0, 0, 0, 0, 0, 0, 0, 0, 0, 0, 0, 0, 0, 0, 0, 0, 0,
      0, 0, 0, 0, 0, 0, 0, 0, 0, 0, 0, 0, 0, 0, 0, 0, 0, 0, 0, 0, 0, 0, 0, 0, 0]"
    by (simp add: numeral_nat)
  have w: "words_of ([0x61, 0x62, 0x63, 0x80] @ replicate 52 0 @ [24, 0, 0, 0, 0, 0, 0, 0]) =
     [0x80636261, 0, 0, 0, 0, 0, 0, 0, 0, 0, 0, 0, 0, 0, 24, 0]"
    unfolding r by (simp add: words_of_def upt_rec)
  have "MD5Transform md5_start [0x80636261, 0, 0, 0, 0, 0, 0, 0, 0, 0, 0, 0, 0, 0, 24, 0] =
     (0x98500190, 0xb04fd23c, 0x7d3f96d6, 0x727fe128)"
    by (simp add: MD5Transform_def md5_lines_def md5_start_def md5_step_def F1_def F2_def F3_def F4_def)
  with p w show ?thesis
    by (simp add: md5_def hash_blocks.simps MD5Transform_rfc digest_bytes_def le_bytes_def upt_rec)
qed

section \<open>Properties\<close>

text \<open>
  the 64 unrolled steps of \<open>MD5Transform\<close> are the loop of RFC 1321 over its tables, for every
  state and every block.
\<close>

theorem MD5Transform_correct: "MD5Transform st blk = rfc_transform st blk"
  by (simp add: MD5Transform_rfc)

text \<open>
  C23: however the bytes are cut into calls of \<open>MD5Update\<close>, \<open>MD5Final\<close> gives the MD5 of all of
  them: padding, bit count and the blocks that lie across two calls included.
\<close>

theorem MD5_pieces:
  assumes "has_buffer ctx" "list_all fits_unsigned ds"
  shows "fst (MD5Final (foldl MD5Update (MD5Init ctx) ds)) = md5 (concat ds)"
  using md5_stream.pieces [OF assms] by simp

theorem MD5_pieces_witness:
  "fst (MD5Final (foldl MD5Update (MD5Init \<lparr>buf = (0, 0, 0, 0), bits = (0, 0), inb = replicate 64 0\<rparr>)
      [[0x61], [0x62, 0x63]])) =
   [0x90, 0x01, 0x50, 0x98, 0x3c, 0xd2, 0x4f, 0xb0, 0xd6, 0x96, 0x3f, 0x7d, 0x28, 0xe1, 0x7f, 0x72]"
  using MD5_pieces [of "\<lparr>buf = (0, 0, 0, 0), bits = (0, 0), inb = replicate 64 0\<rparr>" "[[0x61], [0x62, 0x63]]"] md5_abc
  by (simp add: has_buffer_def fits_unsigned_def)

text \<open>
  C27: the cookie is 32 hexadecimal digits and a newline, the MD5 of the time, the process ids,
  the file and the random sources up to the first one that gave enough, in this order.
\<close>

theorem mcookie_correct:
  assumes "has_buffer ctx" "list_all fits_unsigned [tv, ppid, pid]"
    and "case file of None \<Rightarrow> True | Some reads \<Rightarrow> list_all fits_unsigned reads"
  shows "mcookie ctx tv ppid pid file openf =
      concat (map hex_byte (md5 (cookie_bytes tv ppid pid file openf))) @ [CHR 0x0A] \<and>
    length (mcookie ctx tv ppid pid file openf) = 33"
  using mcookie_value [OF assms] by (simp add: length_hex md5_def length_digest_bytes del: length_concat)

theorem mcookie_correct_witness:
  "length (mcookie \<lparr>buf = (0, 0, 0, 0), bits = (0, 0), inb = replicate 64 0\<rparr> [1, 2] [3] [4]
     (Some [[5, 6], []]) (\<lambda>p. if p = ''/dev/urandom'' then Some (replicate 16 7) else None)) = 33"
  by (rule mcookie_correct [THEN conjunct2]) (simp_all add: has_buffer_def fits_unsigned_def)

text \<open>
  \<open>MD5Final\<close> does not clear the context: \<open>memset(ctx, 0, sizeof(ctx))\<close> only reaches the first
  eight bytes, and the second half of the digest stays in it.
\<close>

theorem MD5Final_not_cleared:
  "drop 8 (fst (MD5Final ctx)) =
     le_bytes (fst (snd (snd (buf (snd (MD5Final ctx)))))) @
     le_bytes (snd (snd (snd (buf (snd (MD5Final ctx))))))"
  by (auto simp: MD5Final_def Let_def digest_bytes_def split: prod.splits)

end
