(* ===== verification/Makedevs.thy ===== *)
theory Makedevs
  imports Kbase
begin

text \<open>
  \<open>package/makedevs/makedevs.c\<close>: creates the directories and device nodes of a table. A line is read
  with \<open>sscanf\<close> conversion by conversion (\<open>run_convs\<close>); what it does not reach keeps its default,
  and the buffers of the user and the group keep what was on the stack (the arguments \<open>user0\<close> and
  \<open>group0\<close>). The file system is a record of answers; what the program did is the list of the calls
  that change it, so the theorems are about which calls are made, with which paths and numbers.
\<close>

unbundle bit_operations_syntax

section \<open>Reading a line\<close>

record entry =
  e_name :: string
  e_type :: char
  e_mode :: "32 word"
  e_user :: string
  e_group :: string
  e_major :: "32 word"
  e_minor :: "32 word"
  e_start :: "32 word"
  e_increment :: "32 word"
  e_count :: "32 word"

definition no_entry :: "string \<Rightarrow> string \<Rightarrow> entry" where
  "no_entry user0 group0 =
     \<lparr>e_name = [], e_type = CHR 0x00, e_mode = 0x1ed, e_user = user0, e_group = group0,
      e_major = 0, e_minor = 0, e_start = 0, e_increment = 0, e_count = 0\<rparr>"

text \<open>0x1ed is 0755.\<close>

text \<open>The conversions: the value and the rest of the line, or None where \<open>sscanf\<close> stops.\<close>

definition scan_s :: "nat \<Rightarrow> string \<Rightarrow> (string \<times> string) option" where
  "scan_s width s =
     (let t = skip_spaces s; word = take width (takeWhile (\<lambda>c. \<not> c_isspace c) t)
      in if word = [] then None else Some (word, drop (length word) t))"

definition scan_c :: "string \<Rightarrow> (char \<times> string) option" where
  "scan_c s = (case skip_spaces s of [] \<Rightarrow> None | c # r \<Rightarrow> Some (c, r))"

definition unsigned_long :: "bool \<Rightarrow> nat \<Rightarrow> 64 word" where
  "unsigned_long neg n =
     (if n \<ge> 2 ^ 64 then - 1 else if neg then - word_of_nat n else word_of_nat n)"

definition scan_num :: "nat \<Rightarrow> string \<Rightarrow> (32 word \<times> string) option" where
  "scan_num base s =
     (let (neg, t) = read_sign (skip_spaces s) in
      case t of
        [] \<Rightarrow> None
      | c # _ \<Rightarrow>
          if is_digit_in base c
          then (let (n, r) = read_digits base 0 t in Some (ucast (unsigned_long neg n), r))
          else None)"

type_synonym conv = "string \<Rightarrow> entry \<Rightarrow> (string \<times> entry) option"

definition conv :: "(string \<Rightarrow> ('a \<times> string) option) \<Rightarrow> ('a \<Rightarrow> entry \<Rightarrow> entry) \<Rightarrow> conv" where
  "conv scan upd s e = (case scan s of None \<Rightarrow> None | Some (v, r) \<Rightarrow> Some (r, upd v e))"

fun run_convs :: "conv list \<Rightarrow> string \<Rightarrow> entry \<Rightarrow> nat \<Rightarrow> nat \<times> entry" where
  "run_convs [] s e n = (n, e)"
| "run_convs (f # fs) s e n =
     (case f s e of None \<Rightarrow> (n, e) | Some (r, e') \<Rightarrow> run_convs fs r e' (n + 1))"

text \<open>\<open>"%4095s %c %o %40s %40s %u %u %u %u %u"\<close>\<close>

definition line_format :: "conv list" where
  "line_format =
     [conv (scan_s 4095) (\<lambda>v e. e\<lparr>e_name := v\<rparr>),
      conv scan_c (\<lambda>v e. e\<lparr>e_type := v\<rparr>),
      conv (scan_num 8) (\<lambda>v e. e\<lparr>e_mode := v\<rparr>),
      conv (scan_s 40) (\<lambda>v e. e\<lparr>e_user := v\<rparr>),
      conv (scan_s 40) (\<lambda>v e. e\<lparr>e_group := v\<rparr>),
      conv (scan_num 10) (\<lambda>v e. e\<lparr>e_major := v\<rparr>),
      conv (scan_num 10) (\<lambda>v e. e\<lparr>e_minor := v\<rparr>),
      conv (scan_num 10) (\<lambda>v e. e\<lparr>e_start := v\<rparr>),
      conv (scan_num 10) (\<lambda>v e. e\<lparr>e_increment := v\<rparr>),
      conv (scan_num 10) (\<lambda>v e. e\<lparr>e_count := v\<rparr>)]"

datatype line = Skipped | Invalid | Entry entry

definition parse_line :: "string \<Rightarrow> string \<Rightarrow> string \<Rightarrow> line" where
  "parse_line user0 group0 s =
     (let (n, e) = run_convs line_format s (no_entry user0 group0) 0 in
      if n < 2 \<or> (e_major e OR e_minor e OR e_start e OR e_count e OR e_increment e) > 0xfffff
      then (case s of
              [] \<Rightarrow> Skipped
            | c # _ \<Rightarrow> if c = CHR ''#'' \<or> c_isspace c then Skipped else Invalid)
      else if hd (e_name e @ [CHR 0x00]) = CHR ''#'' then Skipped
      else Entry e)"

section \<open>Users, groups and paths\<close>

definition strtoul10 :: "string \<Rightarrow> 64 word \<times> string" where
  "strtoul10 s =
     (let (neg, t) = read_sign (skip_spaces s) in
      case t of
        [] \<Rightarrow> (0, s)
      | c # _ \<Rightarrow>
          if is_digit_in 10 c
          then (let (n, r) = read_digits 10 0 t in (unsigned_long neg n, r))
          else (0, s))"

text \<open>\<open>my_getpwnam\<close>, \<open>my_getgrnam\<close>: the first entry of the name; without one the program dies.\<close>

definition my_getxxnam :: "(string \<times> 32 word) list \<Rightarrow> string \<Rightarrow> 32 word option" where
  "my_getxxnam db name = map_of db name"

definition get_ug_id :: "(string \<times> 32 word) list \<Rightarrow> string \<Rightarrow> 32 word option" where
  "get_ug_id db s =
     (let (r, p) = strtoul10 s
      in if p \<noteq> [] \<or> p = s then my_getxxnam db s else Some (ucast r))"

definition last_char_is :: "string \<Rightarrow> char \<Rightarrow> bool" where
  "last_char_is s c =
     (case strrchr_split c s of None \<Rightarrow> False | Some (b, r) \<Rightarrow> r = [])"

definition concat_path_file :: "string \<Rightarrow> string \<Rightarrow> string" where
  "concat_path_file path filename =
     path @ (if last_char_is path (CHR ''/'') then [] else ''/'') @
     dropWhile (\<lambda>c. c = CHR ''/'') filename"

section \<open>The file system\<close>

datatype fs_op =
    Mkdir string
  | Chmod string "32 word"
  | Chown string "32 word" "32 word"
  | Mknod string "32 word" "32 word" "32 word"

datatype mkdir_result = Created | Exists_Dir | Cannot_Create

text \<open>
  What the calls answer: \<open>mkdir\<close> (a directory that is there already is EEXIST, and \<open>stat\<close> says
  S\_ISDIR), whether the other calls succeed, whether a regular file is there, and the walk of
  \<open>nftw\<close>, None when it cannot start.
\<close>

record fsys =
  fs_mkdir :: "string \<Rightarrow> mkdir_result"
  fs_ok :: "fs_op \<Rightarrow> bool"
  fs_is_reg :: "string \<Rightarrow> bool"
  fs_walk :: "string \<Rightarrow> string list option"

text \<open>
  \<open>bb_make_directory\<close> with FILEUTILS\_RECUR: \<open>acc\<close> is the text before \<open>s\<close>. Each turn goes over
  one component and the slashes after it. The result is the calls and whether 0 is returned.
\<close>

definition next_component :: "string \<Rightarrow> string \<times> string" where
  "next_component s =
     (let a = takeWhile (\<lambda>c. c \<noteq> CHR ''/'') s; t = dropWhile (\<lambda>c. c \<noteq> CHR ''/'') s
      in (a @ takeWhile (\<lambda>c. c = CHR ''/'') t, dropWhile (\<lambda>c. c = CHR ''/'') t))"

lemma next_component_append: "fst (next_component s) @ snd (next_component s) = s"
  by (simp add: next_component_def Let_def)

lemma next_component_shorter:
  "snd (next_component s) \<noteq> [] \<Longrightarrow> length (snd (next_component s)) < length s"
proof -
  assume ne: "snd (next_component s) \<noteq> []"
  have "fst (next_component s) \<noteq> []"
  proof
    assume "fst (next_component s) = []"
    then have "takeWhile (\<lambda>c. c \<noteq> CHR ''/'') s = []"
      "takeWhile (\<lambda>c. c = CHR ''/'') (dropWhile (\<lambda>c. c \<noteq> CHR ''/'') s) = []"
      by (simp_all add: next_component_def Let_def)
    with ne show False
      by (cases s) (auto simp: next_component_def Let_def split: if_splits)
  qed
  then have "0 < length (fst (next_component s))" by simp
  moreover have "length (fst (next_component s)) + length (snd (next_component s)) = length s"
    using arg_cong [OF next_component_append [of s], of length] by simp
  ultimately show ?thesis by linarith
qed

function make_dirs :: "fsys \<Rightarrow> 32 word \<Rightarrow> string \<Rightarrow> string \<Rightarrow> fs_op list \<times> bool" where
  "make_dirs fs mode acc s =
     (let p = acc @ fst (next_component s); r = snd (next_component s) in
      case fs_mkdir fs p of
        Cannot_Create \<Rightarrow> ([], False)
      | Exists_Dir \<Rightarrow> if r = [] then ([], True) else make_dirs fs mode p r
      | Created \<Rightarrow>
          if r = []
          then (if fs_ok fs (Chmod p mode) then ([Mkdir p, Chmod p mode], True) else ([Mkdir p], False))
          else (let (ops, ok) = make_dirs fs mode p r in (Mkdir p # ops, ok)))"
  by pat_completeness auto
termination
  by (relation "measure (\<lambda>(fs, mode, acc, s). length s)") (auto simp: next_component_shorter)

declare make_dirs.simps [simp del]

definition bb_make_directory :: "fsys \<Rightarrow> string \<Rightarrow> 32 word \<Rightarrow> fs_op list \<times> bool" where
  "bb_make_directory fs path mode = make_dirs fs mode [] path"

section \<open>An entry\<close>

text \<open>\<open>bb_recursive\<close> on the files \<open>nftw\<close> gives it; the walk stops at the first failure.\<close>

fun bb_recursive :: "fsys \<Rightarrow> 32 word \<Rightarrow> 32 word \<Rightarrow> 32 word \<Rightarrow> string list \<Rightarrow> fs_op list \<times> bool" where
  "bb_recursive fs uid gid mode [] = ([], True)"
| "bb_recursive fs uid gid mode (f # files) =
     (if \<not> fs_ok fs (Chown f uid gid) then ([], False)
      else if mode \<noteq> -1 \<and> \<not> fs_ok fs (Chmod f mode) then ([Chown f uid gid], False)
      else (let (ops, ok) = bb_recursive fs uid gid mode files
            in (Chown f uid gid # (if mode \<noteq> -1 then [Chmod f mode] else []) @ ops, ok)))"

text \<open>\<open>chown\<close> and then, when it succeeded, \<open>chmod\<close>: the cases of directories and files.\<close>

definition own_and_mode :: "fsys \<Rightarrow> string \<Rightarrow> 32 word \<Rightarrow> 32 word \<Rightarrow> 32 word \<Rightarrow> fs_op list \<times> bool" where
  "own_and_mode fs name uid gid mode =
     (if \<not> fs_ok fs (Chown name uid gid) then ([], False)
      else if mode \<noteq> -1
      then (if fs_ok fs (Chmod name mode) then ([Chown name uid gid, Chmod name mode], True)
            else ([Chown name uid gid], False))
      else ([Chown name uid gid], True))"

text \<open>A device node: here the mode is set whether the node could be made or not.\<close>

definition make_node ::
  "fsys \<Rightarrow> string \<Rightarrow> 32 word \<Rightarrow> 32 word \<Rightarrow> 32 word \<Rightarrow> 32 word \<Rightarrow> 32 word \<Rightarrow> fs_op list \<times> bool" where
  "make_node fs name mode uid gid major minor =
     (let mk = Mknod name mode major minor; ow = Chown name uid gid; md = Chmod name mode;
          (ops, ok) = (if \<not> fs_ok fs mk then ([], False)
                       else if \<not> fs_ok fs ow then ([mk], False) else ([mk, ow], True))
      in if mode \<noteq> -1
         then (if fs_ok fs md then (ops @ [md], ok) else (ops, False))
         else (ops, ok))"

definition node_name :: "string \<Rightarrow> 32 word \<Rightarrow> nat \<Rightarrow> string" where
  "node_name full_name start i = full_name @ dec_of_int (sint (start + word_of_nat i))"

definition node_type :: "char \<Rightarrow> 32 word option" where
  "node_type t =
     (if t = CHR ''p'' then Some 0x1000 else if t = CHR ''c'' then Some 0x2000
      else if t = CHR ''b'' then Some 0x6000 else None)"

definition all_runs :: "(fs_op list \<times> bool) list \<Rightarrow> fs_op list \<times> bool" where
  "all_runs rs = (concat (map fst rs), list_all snd rs)"

text \<open>The body of the loop of \<open>main\<close> after the numbers of the user and the group are known.\<close>

definition process_entry :: "fsys \<Rightarrow> string \<Rightarrow> entry \<Rightarrow> 32 word \<Rightarrow> 32 word \<Rightarrow> fs_op list \<times> bool" where
  "process_entry fs rootdir e uid gid =
     (let full_name = concat_path_file rootdir (e_name e); mode = e_mode e in
      if e_type e = CHR ''d''
      then (let (ops, _) = bb_make_directory fs full_name (mode OR 0x4000);
                (ops', ok) = own_and_mode fs full_name uid gid mode
            in (ops @ ops', ok))
      else if e_type e = CHR ''f''
      then (if \<not> fs_is_reg fs full_name then ([], False) else own_and_mode fs full_name uid gid mode)
      else if e_type e = CHR ''r''
      then (case fs_walk fs full_name of
              None \<Rightarrow> ([], False)
            | Some files \<Rightarrow> bb_recursive fs uid gid mode files)
      else (case node_type (e_type e) of
              None \<Rightarrow> ([], False)
            | Some ft \<Rightarrow>
                (let mode = mode OR ft in
                 if e_count e > 0
                 then all_runs (map (\<lambda>i. make_node fs (node_name full_name (e_start e) i) mode uid gid
                        (e_major e) (e_minor e + word_of_nat i * e_increment e)) [0..<unat (e_count e)])
                 else make_node fs full_name mode uid gid (e_major e) (e_minor e))))"

section \<open>main\<close>

record ids =
  passwd :: "(string \<times> 32 word) list"
  groups :: "(string \<times> 32 word) list"
  own_uid :: "32 word"
  own_gid :: "32 word"

datatype line_result = Done "fs_op list" bool | Dies

definition process_line :: "fsys \<Rightarrow> ids \<Rightarrow> string \<Rightarrow> entry \<Rightarrow> line_result" where
  "process_line fs db rootdir e =
     (case (if e_group e \<noteq> [] then get_ug_id (groups db) (e_group e) else Some (own_gid db)) of
        None \<Rightarrow> Dies
      | Some gid \<Rightarrow>
          (case (if e_user e \<noteq> [] then get_ug_id (passwd db) (e_user e) else Some (own_uid db)) of
             None \<Rightarrow> Dies
           | Some uid \<Rightarrow>
               (let (ops, ok) = process_entry fs rootdir e uid gid in Done ops ok)))"

text \<open>
  The loop over the lines of the table, after \<open>chdir\<close>. \<open>stack\<close> is what the buffers of the user and
  the group hold when the loop comes to a line. The result is the calls and the exit code.
\<close>

fun run_table ::
  "fsys \<Rightarrow> ids \<Rightarrow> string \<Rightarrow> (nat \<Rightarrow> string \<times> string) \<Rightarrow> nat \<Rightarrow> string list \<Rightarrow> fs_op list \<times> nat" where
  "run_table fs db rootdir stack n [] = ([], 0)"
| "run_table fs db rootdir stack n (l # ls) =
     (case parse_line (fst (stack n)) (snd (stack n)) l of
        Skipped \<Rightarrow> run_table fs db rootdir stack (n + 1) ls
      | Invalid \<Rightarrow> (fst (run_table fs db rootdir stack (n + 1) ls), 1)
      | Entry e \<Rightarrow>
          (case process_line fs db rootdir e of
             Dies \<Rightarrow> ([], 1)
           | Done ops ok \<Rightarrow>
               (let (ops', code) = run_table fs db rootdir stack (n + 1) ls
                in (ops @ ops', if ok then code else 1))))"

text \<open>
  \<open>private_get_line_from_file\<close> with \<open>c = 1\<close>, over the whole text: up to a newline, which is not
  part of the line, or up to a NUL, or up to the end.
\<close>

fun chomped_line :: "string \<Rightarrow> string \<times> string" where
  "chomped_line [] = ([], [])"
| "chomped_line (ch # s) =
     (if ch = CHR 0x00 \<or> ch = CHR 0x0A then ([], s)
      else (let (l, r) = chomped_line s in (ch # l, r)))"

lemma chomped_line_shorter: "s \<noteq> [] \<Longrightarrow> length (snd (chomped_line s)) < length s"
proof (induction s)
  case (Cons a s)
  then show ?case by (cases "s = []") (auto simp: Let_def split_def)
qed simp

function table_lines :: "string \<Rightarrow> string list" where
  "table_lines s =
     (if s = [] then [] else fst (chomped_line s) # table_lines (snd (chomped_line s)))"
  by pat_completeness auto
termination by (relation "measure length") (auto simp: chomped_line_shorter)

declare table_lines.simps [simp del]

definition makedevs ::
  "fsys \<Rightarrow> ids \<Rightarrow> string option \<Rightarrow> bool \<Rightarrow> (nat \<Rightarrow> string \<times> string) \<Rightarrow> string \<Rightarrow> fs_op list \<times> nat" where
  "makedevs fs db rootdir chdir_ok stack table =
     (case rootdir of
        None \<Rightarrow> ([], 1)
      | Some dir \<Rightarrow>
          if \<not> chdir_ok then ([], 1) else run_table fs db dir stack 0 (table_lines table))"

section \<open>What an accepted line holds\<close>

lemma or_le: "x OR y \<le> b \<Longrightarrow> x \<le> b \<and> y \<le> (b :: 32 word)"
  using le_word_or2 [of x y] le_word_or2 [of y x] by (auto simp: or.commute intro: order_trans)

lemma parse_line_bounds:
  assumes "parse_line user0 group0 s = Entry e"
  shows "e_major e \<le> 0xfffff" "e_minor e \<le> 0xfffff" "e_start e \<le> 0xfffff"
    "e_count e \<le> 0xfffff" "e_increment e \<le> 0xfffff"
proof -
  have "(e_major e OR e_minor e OR e_start e OR e_count e OR e_increment e) \<le> 0xfffff"
    using assms by (auto simp: parse_line_def Let_def not_less split: prod.splits if_splits list.splits)
  then show "e_major e \<le> 0xfffff" "e_minor e \<le> 0xfffff" "e_start e \<le> 0xfffff"
    "e_count e \<le> 0xfffff" "e_increment e \<le> 0xfffff"
    using or_le by blast+
qed

lemma dec_of_int_inject [simp]: "dec_of_int x = dec_of_int y \<longleftrightarrow> x = y"
proof
  assume e: "dec_of_int x = dec_of_int y"
  have s: "stops_number 10 []" by (simp add: stops_number_def)
  have "c_strtol (min x y) (max x y) 10 (dec_of_int x @ []) = (x, [])"
    "c_strtol (min x y) (max x y) 10 (dec_of_int y @ []) = (y, [])"
    by (rule strtol_dec_of_int [OF _ _ s]; simp)+
  with e show "x = y" by simp
qed simp

lemma dec_of_int_nat [simp]: "dec_of_int (int n) = dec_of_nat n"
  by (simp add: dec_of_int_def)

lemma node_number:
  assumes "start \<le> 0xfffff" "i \<le> 0xfffff"
  shows "sint (start + word_of_nat i :: 32 word) = int (unat start + i)"
proof -
  have s: "unat start \<le> 0xfffff" using assms(1) by (simp add: word_le_nat_alt)
  have u: "unat (start + word_of_nat i) = unat start + i"
    using s assms(2) by (simp add: unat_word_ariths unat_of_nat)
  then have "start + word_of_nat i < (2 ^ 31 :: 32 word)"
    using s assms(2) by (simp add: word_less_nat_alt)
  then have "sint (start + word_of_nat i) = uint (start + word_of_nat i)"
    by (simp add: sint_uint word_less_def signed_take_bit_eq_if_positive bit_iff_odd take_bit_int_eq_self
        flip: take_bit_eq_mod)
  then show ?thesis using u by (metis uint_nat)
qed

text \<open>The buffer for the name has room for eight more characters.\<close>

lemma node_name_fits:
  assumes "start \<le> 0xfffff" "i \<le> 0xfffff"
  shows "length (node_name full start i) + 1 \<le> length full + 8"
proof -
  have "unat start \<le> 0xfffff" using assms(1) by (simp add: word_le_nat_alt)
  with assms(2) have "unat start + i < 10 ^ 7" by simp
  then have "length (num_of_nat 10 (unat start + i)) \<le> 7" by (intro num_of_nat_length) simp_all
  then show ?thesis
    by (simp only: node_name_def node_number [OF assms] dec_of_int_nat) (simp add: dec_of_nat_def)
qed

text \<open>The nodes among the calls, with their minor numbers.\<close>

fun mknods :: "fs_op list \<Rightarrow> (string \<times> 32 word) list" where
  "mknods [] = []"
| "mknods (Mknod name mode major minor # ops) = (name, minor) # mknods ops"
| "mknods (_ # ops) = mknods ops"

lemma mknods_append [simp]: "mknods (a @ b) = mknods a @ mknods b"
  by (induction a rule: mknods.induct) auto

lemma mknods_concat: "mknods (concat xs) = concat (map mknods xs)"
  by (induction xs) auto

lemma mknods_make_node:
  "mknods (fst (make_node fs name mode uid gid major minor)) =
     (if fs_ok fs (Mknod name mode major minor) then [(name, minor)] else [])"
  by (simp add: make_node_def Let_def)

lemma mknods_all_ok:
  assumes "\<And>op. fs_ok fs op"
  shows "mknods (fst (all_runs (map (\<lambda>i. make_node fs (name i) mode uid gid major (minor i)) is))) =
    map (\<lambda>i. (name i, minor i)) is"
  by (induction "is") (simp_all add: all_runs_def mknods_make_node assms)

lemma node_entry_mknods:
  assumes "\<And>op. fs_ok fs op" "node_type (e_type e) \<noteq> None" "e_count e > 0"
  shows "mknods (fst (process_entry fs rootdir e uid gid)) =
    map (\<lambda>i. (node_name (concat_path_file rootdir (e_name e)) (e_start e) i,
              e_minor e + word_of_nat i * e_increment e)) [0..<unat (e_count e)]"
proof -
  have "e_type e \<notin> {CHR ''d'', CHR ''f'', CHR ''r''}" using assms(2) by (auto simp: node_type_def)
  moreover obtain ft where "node_type (e_type e) = Some ft" using assms(2) by auto
  ultimately show ?thesis
    using assms(3) mknods_all_ok [OF assms(1)] by (simp add: process_entry_def Let_def)
qed

lemma node_names_distinct:
  assumes "start \<le> 0xfffff" "n \<le> 0xfffff"
  shows "distinct (map (node_name full start) [0..<n])"
  using assms node_number [OF assms(1)]
  by (auto simp: distinct_map inj_on_def node_name_def)

section \<open>Directories\<close>

text \<open>
  Every directory that is made is a beginning of the path, a shorter one before a longer one; and
  when 0 is returned the path itself is a directory or was made.
\<close>

fun mkdirs :: "fs_op list \<Rightarrow> string list" where
  "mkdirs [] = []"
| "mkdirs (Mkdir p # ops) = p # mkdirs ops"
| "mkdirs (_ # ops) = mkdirs ops"

lemma make_dirs_prefixes:
  "p \<in> set (mkdirs (fst (make_dirs fs mode acc s))) \<Longrightarrow>
   \<exists>a b. p = acc @ a \<and> s = a @ b"
proof (induction fs mode acc s rule: make_dirs.induct)
  case (1 fs mode acc s)
  define a r where "a = fst (next_component s)" and "r = snd (next_component s)"
  have s: "s = a @ r" by (simp add: next_component_append a_def r_def)
  have "p = acc @ a \<or> (\<exists>b c. p = (acc @ a) @ b \<and> r = b @ c)"
    using "1.IH" "1.prems" unfolding a_def r_def
    by (cases "fs_mkdir fs (acc @ fst (next_component s))"; cases "snd (next_component s) = []")
      (auto simp: make_dirs.simps [of fs mode acc s] Let_def split_def split: if_splits)
  then show ?case using s by fastforce
qed

lemma make_dirs_result:
  "snd (make_dirs fs mode acc s) \<Longrightarrow>
   fs_mkdir fs (acc @ s) = Exists_Dir \<or> acc @ s \<in> set (mkdirs (fst (make_dirs fs mode acc s)))"
proof (induction fs mode acc s rule: make_dirs.induct)
  case (1 fs mode acc s)
  let ?a = "fst (next_component s)" and ?r = "snd (next_component s)"
  have s: "s = ?a @ ?r" by (simp add: next_component_append)
  from 1 show ?case
    by (cases "fs_mkdir fs (acc @ ?a)"; cases "?r = []")
      (use s in \<open>auto simp: make_dirs.simps [of fs mode acc s] Let_def split_def\<close>)
qed

section \<open>The exit code\<close>

lemma run_table_code: "snd (run_table fs db dir stack n ls) \<le> 1"
  by (induction fs db dir stack n ls rule: run_table.induct)
    (auto simp: Let_def split_def split: line.splits line_result.splits)

text \<open>0 exactly when every line was processed and none of them failed.\<close>

lemma run_table_success:
  "snd (run_table fs db dir stack n ls) = 0 \<longleftrightarrow>
     (\<forall>k < length ls. case parse_line (fst (stack (n + k))) (snd (stack (n + k))) (ls ! k) of
        Skipped \<Rightarrow> True | Invalid \<Rightarrow> False
      | Entry e \<Rightarrow> (\<exists>ops. process_line fs db dir e = Done ops True))"
proof (induction ls arbitrary: n)
  case (Cons l ls)
  have all: "(\<forall>k<Suc m. P k) \<longleftrightarrow> P 0 \<and> (\<forall>k<m. P (Suc k))" for m P
    by (auto simp: less_Suc_eq_0_disj)
  show ?case
    unfolding all length_Cons
    using Cons.IH [of "Suc n"]
    by (auto simp: Let_def split_def split: line.splits line_result.splits)
qed simp

text \<open>What a line needs to be read by \<open>simp\<close>.\<close>

lemmas parse_line_simps = parse_line_def line_format_def conv_def scan_s_def scan_c_def scan_num_def
  no_entry_def read_sign_def is_digit_in_def digit_of_def unsigned_long_def ctype_defs

section \<open>Properties\<close>

text \<open>
  C26: an accepted line for device nodes with a count makes exactly that many nodes when the calls
  succeed: the \<open>i\<close>th, from 0 on, has the name with \<open>start + i\<close> behind it, all different, and the minor
  number \<open>minor + i * increment\<close> as a 32 bit word. (The manual counts otherwise: in its text the number behind the name is
  incremented by \<open>increment\<close>, and \<open>count\<close> is where it stops.)
\<close>

theorem nodes_made:
  assumes "parse_line user0 group0 s = Entry e" "node_type (e_type e) \<noteq> None" "e_count e > 0"
    and "\<forall>op. fs_ok fs op"
  shows "mknods (fst (process_entry fs rootdir e uid gid)) =
      map (\<lambda>i. (concat_path_file rootdir (e_name e) @ dec_of_nat (unat (e_start e) + i),
                e_minor e + word_of_nat i * e_increment e)) [0..<unat (e_count e)] \<and>
    distinct (map fst (mknods (fst (process_entry fs rootdir e uid gid))))"
proof -
  note b = parse_line_bounds [OF assms(1)]
  have c: "unat (e_count e) \<le> 0xfffff" using b(4) by (simp add: word_le_nat_alt)
  have n: "node_name full (e_start e) i = full @ dec_of_nat (unat (e_start e) + i)"
    if "i < unat (e_count e)" for full i
    using node_number [OF b(3), of i] that c unfolding node_name_def by (simp del: of_nat_add)
  have m: "mknods (fst (process_entry fs rootdir e uid gid)) =
    map (\<lambda>i. (node_name (concat_path_file rootdir (e_name e)) (e_start e) i,
              e_minor e + word_of_nat i * e_increment e)) [0..<unat (e_count e)]"
    using assms(2-4) by (intro node_entry_mknods) auto
  then show ?thesis
    using n node_names_distinct [OF b(3) c, of "concat_path_file rootdir (e_name e)"]
    by (auto simp: comp_def)
qed

theorem nodes_made_witness:
  "mknods (fst (process_entry
      \<lparr>fs_mkdir = (\<lambda>_. Created), fs_ok = (\<lambda>_. True), fs_is_reg = (\<lambda>_. False), fs_walk = (\<lambda>_. None)\<rparr>
      ''/t'' \<lparr>e_name = ''/dev/hda'', e_type = CHR ''b'', e_mode = 0x1b0, e_user = ''0'', e_group = ''0'',
        e_major = 3, e_minor = 1, e_start = 1, e_increment = 1, e_count = 2\<rparr> 0 0)) =
   [(''/t/dev/hda1'', 1), (''/t/dev/hda2'', 2)]"
proof -
  have "parse_line [] [] ''/dev/hda b 660 0 0 3 1 1 1 2'' =
    Entry \<lparr>e_name = ''/dev/hda'', e_type = CHR ''b'', e_mode = 0x1b0, e_user = ''0'', e_group = ''0'',
        e_major = 3, e_minor = 1, e_start = 1, e_increment = 1, e_count = 2\<rparr>"
    by (simp add: parse_line_simps)
  from nodes_made [OF this, of "\<lparr>fs_mkdir = (\<lambda>_. Created), fs_ok = (\<lambda>_. True),
      fs_is_reg = (\<lambda>_. False), fs_walk = (\<lambda>_. None)\<rparr>" "''/t''" 0 0]
  show ?thesis
    by (simp add: node_type_def concat_path_file_def last_char_is_def dec_of_nat_def num_of_nat.simps char_of_def bit_0
        digit_char_def upt_rec)
qed

text \<open>
  the numbers of an accepted line are at most 0xfffff, and the name of each of its nodes, with
  the NUL, fits into the buffer of \<open>strlen(full_name) + 8\<close> bytes.
\<close>

theorem node_names_fit:
  assumes "parse_line user0 group0 s = Entry e" "i < unat (e_count e)"
  shows "e_major e \<le> 0xfffff \<and> e_minor e \<le> 0xfffff \<and> e_count e \<le> 0xfffff \<and>
    length (node_name full (e_start e) i) + 1 \<le> length full + 8"
proof -
  note b = parse_line_bounds [OF assms(1)]
  have "i \<le> 0xfffff" using b(4) assms(2) by (simp add: word_le_nat_alt)
  with b node_name_fits [OF b(3)] show ?thesis by blast
qed

theorem node_names_fit_witness:
  "length (node_name ''/dev/ram'' 1048575 0) + 1 \<le> length ''/dev/ram'' + 8"
proof -
  have "parse_line [] [] ''/dev/ram b 640 0 0 1 0 1048575 1 1'' =
    Entry \<lparr>e_name = ''/dev/ram'', e_type = CHR ''b'', e_mode = 0x1a0, e_user = ''0'', e_group = ''0'',
        e_major = 1, e_minor = 0, e_start = 1048575, e_increment = 1, e_count = 1\<rparr>"
    by (simp add: parse_line_simps)
  from node_names_fit [OF this, of 0 "''/dev/ram''"] show ?thesis by simp
qed

text \<open>
  the program ends with 0 or 1, and with 0 exactly when every line of the table was a comment or
  blank or was an entry whose user and group exist and all of whose calls succeeded.
\<close>

theorem table_exit_code:
  "snd (run_table fs db dir stack n ls) \<le> 1 \<and>
   (snd (run_table fs db dir stack n ls) = 0 \<longleftrightarrow>
     (\<forall>k < length ls. case parse_line (fst (stack (n + k))) (snd (stack (n + k))) (ls ! k) of
        Skipped \<Rightarrow> True | Invalid \<Rightarrow> False
      | Entry e \<Rightarrow> (\<exists>ops. process_line fs db dir e = Done ops True)))"
  using run_table_code run_table_success by blast

theorem table_exit_code_witness:
  "snd (run_table \<lparr>fs_mkdir = (\<lambda>_. Created), fs_ok = (\<lambda>_. True), fs_is_reg = (\<lambda>_. False),
      fs_walk = (\<lambda>_. None)\<rparr> \<lparr>passwd = [], groups = [], own_uid = 0, own_gid = 0\<rparr> ''/t''
      (\<lambda>_. ([], [])) 0 [''# nodes'', ''bad'']) \<noteq> 0"
proof -
  have "parse_line [] [] ''bad'' = Invalid" by (simp add: parse_line_simps)
  then show ?thesis
    using table_exit_code [of "\<lparr>fs_mkdir = (\<lambda>_. Created), fs_ok = (\<lambda>_. True), fs_is_reg = (\<lambda>_. False),
      fs_walk = (\<lambda>_. None)\<rparr>" "\<lparr>passwd = [], groups = [], own_uid = 0, own_gid = 0\<rparr>" "''/t''"
      "\<lambda>_. ([], [])" 0 "[''# nodes'', ''bad'']"]
    by (auto dest!: spec [of _ 1])
qed

text \<open>
  \<open>bb_make_directory\<close> only makes directories on the way to the path, and when it returns 0 the
  path was a directory before or is one it made.
\<close>

theorem bb_make_directory_correct:
  "(snd (bb_make_directory fs path mode) \<longrightarrow>
      fs_mkdir fs path = Exists_Dir \<or> path \<in> set (mkdirs (fst (bb_make_directory fs path mode)))) \<and>
   (\<forall>p \<in> set (mkdirs (fst (bb_make_directory fs path mode))). \<exists>rest. path = p @ rest)"
  using make_dirs_prefixes [where acc = "[]" and s = path and fs = fs and mode = mode]
    make_dirs_result [where acc = "[]" and s = path and fs = fs and mode = mode]
  by (auto simp: bb_make_directory_def)

theorem bb_make_directory_correct_witness:
  "''/a/b'' \<in> set (mkdirs (fst (bb_make_directory
      \<lparr>fs_mkdir = (\<lambda>p. if p = ''/'' then Exists_Dir else Created), fs_ok = (\<lambda>_. True),
       fs_is_reg = (\<lambda>_. False), fs_walk = (\<lambda>_. None)\<rparr> ''/a/b'' 0x1ed)))"
  using bb_make_directory_correct [of "\<lparr>fs_mkdir = (\<lambda>p. if p = ''/'' then Exists_Dir else Created),
      fs_ok = (\<lambda>_. True), fs_is_reg = (\<lambda>_. False), fs_walk = (\<lambda>_. None)\<rparr>" "''/a/b''" "0x1ed"]
  by (simp add: bb_make_directory_def make_dirs.simps next_component_def Let_def)

end
