(* ===== verification/Mkpasswd.thy ===== *)
theory Mkpasswd
  imports Kbase
begin

text \<open>
  \<open>package/mkpasswd/mkpasswd.c\<close> and \<open>merge_args\<close> of \<open>utils.c\<close>: options, salt, rounds, and the checks
  around \<open>crypt\<close>. The methods are those of a build with glibc (\<open>HAVE_SHA_CRYPT\<close>,
  \<open>RANDOM_DEVICE\<close>, without a \<open>crypt_gensalt\<close>). \<open>getopt_long\<close> gives the list of options and the
  other arguments, \<open>crypt\<close> is a function of the password and the salt; both are arguments here, as
  are the random bytes and where a password can be read from.
\<close>

section \<open>merge\_args\<close>

text \<open>\<open>strtok(s, " ")\<close> until it returns NULL.\<close>

function tokens :: "string \<Rightarrow> string list" where
  "tokens s =
     (let t = dropWhile (\<lambda>c. c = CHR '' '') s
      in if t = [] then []
         else takeWhile (\<lambda>c. c \<noteq> CHR '' '') t # tokens (dropWhile (\<lambda>c. c \<noteq> CHR '' '') t))"
  by pat_completeness auto
termination
proof (relation "measure length")
  fix s t :: string
  assume t: "t = dropWhile (\<lambda>c. c = CHR '' '') s" "t \<noteq> []"
  then have "hd t \<noteq> CHR '' ''" using hd_dropWhile [of "\<lambda>c. c = CHR '' ''" s] by simp
  with t(2) have "length (dropWhile (\<lambda>c. c \<noteq> CHR '' '') t) < length t"
    by (cases t) (auto simp: length_dropWhile_le le_imp_less_Suc)
  also have "\<dots> \<le> length s" by (simp add: t(1) length_dropWhile_le)
  finally show "(dropWhile (\<lambda>c. c \<noteq> CHR '' '') t, s) \<in> measure length" by simp
qed simp

declare tokens.simps [simp del]

text \<open>
  The new array, cell by cell; a cell is None where it was not written, and the argument vector
  ends with a NULL, the \<open>None\<close> of the inner option.
\<close>

definition merge_array :: "string list \<Rightarrow> string list \<Rightarrow> string option option list" where
  "merge_array env argv =
     (let num_env = length env; argc = length argv;
          newargs = replicate (num_env + argc + 1) None;
          newargs = foldl (\<lambda>a k. a[k := Some (Some (env ! (k - 1)))]) newargs [1..<num_env + 1];
          newargs = newargs[0 := Some (Some (argv ! 0))]
      in foldl (\<lambda>a i. a[num_env + i := Some (if i < argc then Some (argv ! i) else None)])
           newargs [1..<argc + 1])"

definition merge_args :: "string option \<Rightarrow> string list \<Rightarrow> string list" where
  "merge_args args argv =
     (case args of
        None \<Rightarrow> argv
      | Some s \<Rightarrow> if tokens s = [] then argv else hd argv # tokens s @ tl argv)"

text \<open>Writes to cells next to each other.\<close>

lemma foldl_update_block:
  "c + n < length a \<Longrightarrow>
   foldl (\<lambda>a k. a[c + k := f k]) a [1..<n + 1] = take (c + 1) a @ map f [1..<n + 1] @ drop (c + n + 1) a"
proof (induction n)
  case (Suc n)
  have "drop (c + n + 1) a = a ! (c + n + 1) # drop (c + n + 2) a"
    using Suc.prems by (simp add: Cons_nth_drop_Suc)
  with Suc show ?case
    by (simp add: upt_Suc_append list_update_append)
qed (simp add: append_take_drop_id)

lemma merge_array:
  assumes "argv \<noteq> []"
  shows "merge_array env argv = map (Some \<circ> Some) (hd argv # env @ tl argv) @ [Some None]"
proof -
  have ne: "Suc 0 \<le> length argv" using assms by (simp add: Suc_leI)
  let ?e = "length env" and ?n = "length argv"
  let ?a0 = "replicate (?e + ?n + 1) None :: string option option list"
  let ?a1 = "take 1 ?a0 @ map (\<lambda>k. Some (Some (env ! (k - 1)))) [1..<?e + 1] @ drop (?e + 1) ?a0"
  have 1: "foldl (\<lambda>a k. a[k := Some (Some (env ! (k - 1)))]) ?a0 [1..<?e + 1] = ?a1"
    using foldl_update_block [of 0 ?e ?a0 "\<lambda>k. Some (Some (env ! (k - 1)))"] assms by simp
  have m: "map (\<lambda>k. Some (Some (env ! (k - 1)))) [1..<?e + 1] = map (Some \<circ> Some) env"
    by (rule nth_equalityI) (simp_all del: upt_Suc)
  have a2: "?a1[0 := Some (Some (argv ! 0))] =
      Some (Some (argv ! 0)) # map (Some \<circ> Some) env @ replicate ?n None"
    unfolding m by simp
  have l: "?e + ?n < length (Some (Some (argv ! 0)) # map (Some \<circ> Some) env @ replicate ?n None)"
    by simp
  have "map (\<lambda>i. Some (if i < ?n then Some (argv ! i) else None)) [1..<?n + 1] =
      map (Some \<circ> Some) (tl argv) @ [Some None]"
    using assms ne by (intro nth_equalityI) (auto simp: nth_append nth_tl less_Suc_eq)
  with a2 1 foldl_update_block [OF l, of "\<lambda>i. Some (if i < ?n then Some (argv ! i) else None)"] assms
  show ?thesis using ne by (simp add: merge_array_def hd_conv_nth)
qed

text \<open>The words, without the blanks between them.\<close>

lemma tokens_words: "w \<in> set (tokens s) \<Longrightarrow> w \<noteq> [] \<and> CHR '' '' \<notin> set w"
proof (induction s rule: tokens.induct)
  case (1 s)
  define t where "t = dropWhile (\<lambda>c. c = CHR '' '') s"
  show ?case
  proof (cases "t = []")
    case True
    with 1 show ?thesis by (simp add: tokens.simps [of s] t_def)
  next
    case False
    then have "hd t \<noteq> CHR '' ''" using hd_dropWhile [of "\<lambda>c. c = CHR '' ''" s] by (simp add: t_def)
    with False have "takeWhile (\<lambda>c. c \<noteq> CHR '' '') t \<noteq> []" by (cases t) auto
    moreover have "w = takeWhile (\<lambda>c. c \<noteq> CHR '' '') t \<or> w \<in> set (tokens (dropWhile (\<lambda>c. c \<noteq> CHR '' '') t))"
      using "1.prems" False by (simp add: tokens.simps [of s] Let_def flip: t_def)
    ultimately show ?thesis
      using "1.IH" [OF t_def False] by (auto dest: set_takeWhileD)
  qed
qed

lemma tokens_concat: "concat (tokens s) = filter (\<lambda>c. c \<noteq> CHR '' '') s"
proof (induction s rule: tokens.induct)
  case (1 s)
  define t where "t = dropWhile (\<lambda>c. c = CHR '' '') s"
  let ?p = "\<lambda>c. c \<noteq> CHR '' ''"
  have f: "filter ?p s = filter ?p t"
    unfolding t_def by (induction s) auto
  show ?case
  proof (cases "t = []")
    case True
    with f show ?thesis by (simp add: tokens.simps [of s] flip: t_def)
  next
    case False
    have "filter ?p t = filter ?p (takeWhile ?p t @ dropWhile ?p t)" by simp
    also have "\<dots> = takeWhile ?p t @ filter ?p (dropWhile ?p t)"
      unfolding filter_append by (metis filter_True set_takeWhileD)
    finally show ?thesis
      using "1.IH" [OF t_def False] f False by (simp add: tokens.simps [of s] Let_def flip: t_def)
  qed
qed

section \<open>Methods and salts\<close>

definition valid_salts :: string where
  "valid_salts =
     ''abcdefghijklmnopqrstuvwxyz'' @ ''ABCDEFGHIJKLMNOPQRSTUVWXYZ0123456789./''"

record crypt_method =
  cm_method :: string
  cm_prefix :: string
  cm_minlen :: nat
  cm_maxlen :: nat
  cm_rounds :: nat

definition methods :: "crypt_method list" where
  "methods =
     [\<lparr>cm_method = ''des'', cm_prefix = [], cm_minlen = 2, cm_maxlen = 2, cm_rounds = 0\<rparr>,
      \<lparr>cm_method = ''md5'', cm_prefix = ''$1$'', cm_minlen = 8, cm_maxlen = 8, cm_rounds = 0\<rparr>,
      \<lparr>cm_method = ''sha-256'', cm_prefix = ''$5$'', cm_minlen = 8, cm_maxlen = 16, cm_rounds = 1\<rparr>,
      \<lparr>cm_method = ''sha-512'', cm_prefix = ''$6$'', cm_minlen = 8, cm_maxlen = 16, cm_rounds = 1\<rparr>]"

definition strcaseeq :: "string \<Rightarrow> string \<Rightarrow> bool" where
  "strcaseeq a b \<longleftrightarrow> map c_tolower a = map c_tolower b"

definition strneq :: "string \<Rightarrow> string \<Rightarrow> nat \<Rightarrow> bool" where
  "strneq a b n \<longleftrightarrow> take n a = take n b"

section \<open>Options\<close>

text \<open>-m and -H have an optional argument; -5 is -m md5.\<close>

datatype pw_opt =
  Opt_5 | Opt_m "string option" | Opt_P string | Opt_R string | Opt_s | Opt_S string
  | Opt_V | Opt_h | Opt_other

record pw_state =
  password_fd :: int
  salt_minlen :: nat
  salt_maxlen :: nat
  rounds_support :: nat
  salt_prefix :: "string option"
  salt_arg :: "string option"
  rounds :: "32 word"

definition pw_start :: pw_state where
  "pw_start = \<lparr>password_fd = -1, salt_minlen = 0, salt_maxlen = 0, rounds_support = 0,
     salt_prefix = None, salt_arg = None, rounds = 0\<rparr>"

text \<open>\<open>strtol\<close> into an int; only the text after the number makes it invalid, or its sign.\<close>

definition strtol_word :: "string \<Rightarrow> 32 word \<times> string" where
  "strtol_word s = (let (n, p) = c_strtol llong_min llong_max 10 s in (word_of_int n, p))"

definition set_method :: "string option \<Rightarrow> pw_state \<Rightarrow> nat + pw_state" where
  "set_method arg st =
     (case arg of
        None \<Rightarrow> Inl 0
      | Some a \<Rightarrow>
          if strcaseeq ''help'' a then Inl 0
          else
            let st' = (case find (\<lambda>m. strcaseeq (cm_method m) a) methods of
                         None \<Rightarrow> st
                       | Some m \<Rightarrow> st\<lparr>salt_prefix := Some (cm_prefix m), salt_minlen := cm_minlen m,
                           salt_maxlen := cm_maxlen m, rounds_support := cm_rounds m\<rparr>)
            in if salt_prefix st' = None then Inl 1 else Inr st')"

text \<open>
  One option: Inl is the exit code. \<open>rounds\<close> is unsigned, so the check for a negative number
  never fails; \<open>display_help\<close> exits with the code it is given.
\<close>

fun pw_option :: "pw_opt \<Rightarrow> pw_state \<Rightarrow> nat + pw_state" where
  "pw_option Opt_5 st = set_method (Some ''md5'') st"
| "pw_option (Opt_m arg) st = set_method arg st"
| "pw_option (Opt_P arg) st =
     (let (w, p) = strtol_word arg; fd = sint w
      in if p \<noteq> [] \<or> fd < 0 then Inl 1 else Inr (st\<lparr>password_fd := fd\<rparr>))"
| "pw_option (Opt_R arg) st =
     (let (w, p) = strtol_word arg
      in if p \<noteq> [] \<or> w < 0 then Inl 1 else Inr (st\<lparr>rounds := w\<rparr>))"
| "pw_option Opt_s st = Inr (st\<lparr>password_fd := 0\<rparr>)"
| "pw_option (Opt_S arg) st = Inr (st\<lparr>salt_arg := Some arg\<rparr>)"
| "pw_option Opt_V st = Inl 0"
| "pw_option Opt_h st = Inl 0"
| "pw_option Opt_other st = Inl 1"

fun pw_options :: "pw_opt list \<Rightarrow> pw_state \<Rightarrow> nat + pw_state" where
  "pw_options [] st = Inr st"
| "pw_options (x # os) st = (case pw_option x st of Inl code \<Rightarrow> Inl code | Inr st' \<Rightarrow> pw_options os st')"

section \<open>The salt\<close>

definition rounds_str :: "string \<Rightarrow> nat \<Rightarrow> 32 word \<Rightarrow> string" where
  "rounds_str prefix support n =
     (if prefix = ''$2a$'' \<or> prefix = ''$2y$''
      then (let n = (if n \<le> 5 then 5 else n); d = dec_of_nat (unat n)
            in take 29 ((if length d < 2 then ''0'' @ d else d) @ ''$''))
      else if support \<noteq> 0 \<and> n \<noteq> 0 then take 29 (''rounds='' @ dec_of_nat (unat n) @ ''$'')
      else [])"

definition salt_accepted :: "pw_state \<Rightarrow> string \<Rightarrow> bool" where
  "salt_accepted st s \<longleftrightarrow>
     salt_minlen st \<le> length s \<and> length s \<le> salt_maxlen st \<and> (\<forall>c \<in> set s. c \<in> set valid_salts)"

text \<open>\<open>get_random_bytes\<close>: None where the device cannot be opened or gives too little.\<close>

definition get_random_bytes :: "byte list option \<Rightarrow> nat \<Rightarrow> byte list option" where
  "get_random_bytes dev n =
     (case dev of None \<Rightarrow> None | Some bs \<Rightarrow> if length (take n bs) = n then Some (take n bs) else None)"

definition generate_salt :: "byte list \<Rightarrow> string" where
  "generate_salt entropy = map (\<lambda>b. valid_salts ! (unat b mod length valid_salts)) entropy"

section \<open>main\<close>

record pw_system =
  sys_crypt :: "string \<Rightarrow> string \<Rightarrow> string option"
  sys_random :: "byte list option"
  sys_rand :: nat
  sys_fd :: "int \<Rightarrow> string option"
  sys_getpass :: "string option"

datatype pw_result = Exit_Code nat | Printed string

definition with_default_method :: "pw_state \<Rightarrow> pw_state" where
  "with_default_method st =
     (if salt_prefix st = None
      then st\<lparr>salt_minlen := cm_minlen (methods ! 0), salt_maxlen := cm_maxlen (methods ! 0),
              salt_prefix := Some (cm_prefix (methods ! 0))\<rparr>
      else st)"

text \<open>The salt with the prefix and the rounds.\<close>

definition make_salt :: "pw_system \<Rightarrow> pw_state \<Rightarrow> nat + string" where
  "make_salt sys st =
     (let prefix = the (salt_prefix st); rs = rounds_str prefix (rounds_support st) (rounds st) in
      case salt_arg st of
        Some s \<Rightarrow> if salt_accepted st s then Inr (prefix @ rs @ s) else Inl 1
      | None \<Rightarrow>
          (let salt_len = (if salt_minlen st \<noteq> salt_maxlen st
                           then sys_rand sys mod (salt_maxlen st - salt_minlen st + 1) + salt_minlen st
                           else salt_maxlen st)
           in case get_random_bytes (sys_random sys) salt_len of
                None \<Rightarrow> Inl 2
              | Some entropy \<Rightarrow> Inr (prefix @ rs @ generate_salt entropy)))"

text \<open>\<open>fgets(password, 128, fp)\<close>, cut at the end of the line.\<close>

definition read_password :: "string option \<Rightarrow> string option" where
  "read_password content =
     (case content of
        None \<Rightarrow> None
      | Some [] \<Rightarrow> None
      | Some s \<Rightarrow> Some (takeWhile (\<lambda>c. c \<noteq> CHR 0x0A \<and> c \<noteq> CHR 0x0D) (take 127 s)))"

definition crypt_checked :: "pw_system \<Rightarrow> pw_state \<Rightarrow> string \<Rightarrow> string \<Rightarrow> pw_result" where
  "crypt_checked sys st password salt =
     (case sys_crypt sys password salt of
        None \<Rightarrow> Exit_Code 2
      | Some result \<Rightarrow>
          if result \<noteq> [] \<and> hd result = CHR ''*'' then Exit_Code 2
          else if \<not> strneq result salt (length (the (salt_prefix st))) then Exit_Code 2
          else Printed result)"

definition mkpasswd :: "pw_system \<Rightarrow> pw_opt list \<Rightarrow> string list \<Rightarrow> pw_result" where
  "mkpasswd sys os args =
     (case pw_options os pw_start of
        Inl code \<Rightarrow> Exit_Code code
      | Inr st \<Rightarrow>
          if length args = 2 \<and> salt_arg st = None \<or> length args = 1 \<or> length args = 0
          then
            let st = (if length args = 2 \<and> salt_arg st = None then st\<lparr>salt_arg := Some (args ! 1)\<rparr> else st);
                st = with_default_method st
            in case make_salt sys st of
                 Inl code \<Rightarrow> Exit_Code code
               | Inr salt \<Rightarrow>
                   (case (if args \<noteq> [] then Some (args ! 0)
                          else if password_fd st \<noteq> -1 then read_password (sys_fd sys (password_fd st))
                          else sys_getpass sys) of
                      None \<Rightarrow> Exit_Code 2
                    | Some password \<Rightarrow> crypt_checked sys st password salt)
          else Exit_Code 1)"

section \<open>Salts that go to crypt\<close>

lemma valid_salts_length: "length valid_salts = 64"
  by (simp add: valid_salts_def)

lemma generate_salt_valid: "c \<in> set (generate_salt entropy) \<Longrightarrow> c \<in> set valid_salts"
  by (auto simp: generate_salt_def valid_salts_length intro!: nth_mem)

lemma length_generate_salt [simp]: "length (generate_salt e) = length e"
  by (simp add: generate_salt_def)

lemma methods_bounds: "m \<in> set methods \<Longrightarrow> cm_minlen m \<le> cm_maxlen m"
  by (auto simp: methods_def)

lemma rounds_text:
  assumes "m \<in> set methods"
  shows "rounds_str (cm_prefix m) (cm_rounds m) n =
    (if cm_rounds m \<noteq> 0 \<and> n \<noteq> 0 then ''rounds='' @ dec_of_nat (unat n) @ ''$'' else [])"
proof -
  have "unat n < 10 ^ 10" using unsigned_less [of n, where 'a = nat] by simp
  then have "length (num_of_nat 10 (unat n)) \<le> 10" by (intro num_of_nat_length) simp_all
  then have "take 29 (''rounds='' @ dec_of_nat (unat n) @ ''$'') = ''rounds='' @ dec_of_nat (unat n) @ ''$''"
    by (simp add: dec_of_nat_def)
  with assms show ?thesis by (auto simp: rounds_str_def methods_def)
qed

text \<open>What the options say: of each kind the last one counts.\<close>

definition last_said :: "(pw_opt \<Rightarrow> 'a option) \<Rightarrow> 'a \<Rightarrow> pw_opt list \<Rightarrow> 'a" where
  "last_said f = foldl (\<lambda>v x. case f x of Some w \<Rightarrow> w | None \<Rightarrow> v)"

fun says_method :: "pw_opt \<Rightarrow> crypt_method option" where
  "says_method Opt_5 = find (\<lambda>m. strcaseeq (cm_method m) ''md5'') methods"
| "says_method (Opt_m (Some a)) = find (\<lambda>m. strcaseeq (cm_method m) a) methods"
| "says_method _ = None"

fun says_rounds :: "pw_opt \<Rightarrow> 32 word option" where
  "says_rounds (Opt_R a) = Some (fst (strtol_word a))"
| "says_rounds _ = None"

fun says_fd :: "pw_opt \<Rightarrow> int option" where
  "says_fd (Opt_P a) = Some (sint (fst (strtol_word a)))"
| "says_fd Opt_s = Some 0"
| "says_fd _ = None"

fun says_salt :: "pw_opt \<Rightarrow> string option option" where
  "says_salt (Opt_S a) = Some (Some a)"
| "says_salt _ = None"

definition given_salt :: "pw_opt list \<Rightarrow> string list \<Rightarrow> string option" where
  "given_salt os args =
     (case last_said says_salt None os of Some s \<Rightarrow> Some s
      | None \<Rightarrow> if length args = 2 then Some (args ! 1) else None)"

fun holds_method :: "crypt_method option \<Rightarrow> pw_state \<Rightarrow> bool" where
  "holds_method None st \<longleftrightarrow> salt_prefix st = None \<and> rounds_support st = 0"
| "holds_method (Some m) st \<longleftrightarrow> salt_prefix st = Some (cm_prefix m) \<and> salt_minlen st = cm_minlen m \<and>
     salt_maxlen st = cm_maxlen m \<and> rounds_support st = cm_rounds m"

lemma last_said_simps [simp]:
  "last_said f v [] = v"
  "last_said f v (x # xs) = last_said f (case f x of Some w \<Rightarrow> w | None \<Rightarrow> v) xs"
  by (simp_all add: last_said_def)

lemma last_said_Some:
  "last_said (\<lambda>x. map_option Some (f x)) (Some v) xs = Some (last_said f v xs)"
  by (induction xs arbitrary: v) (auto split: option.splits)

lemma last_said_None:
  "(case last_said (\<lambda>x. map_option Some (f x)) None xs of None \<Rightarrow> v | Some w \<Rightarrow> w) = last_said f v xs"
proof (induction xs)
  case (Cons x xs)
  then show ?case by (cases "f x") (simp_all add: last_said_Some)
qed simp

lemma set_method_holds:
  assumes "holds_method M st" "set_method (Some a) st = Inr st'"
  shows "holds_method (case find (\<lambda>m. strcaseeq (cm_method m) a) methods of Some m \<Rightarrow> Some m | None \<Rightarrow> M) st' \<and>
    rounds st' = rounds st \<and> password_fd st' = password_fd st \<and> salt_arg st' = salt_arg st"
  using assms by (cases M) (auto simp: set_method_def split: option.splits if_splits)

lemma pw_option_says:
  assumes "holds_method M st" "pw_option x st = Inr st'"
  shows "holds_method (case says_method x of Some m \<Rightarrow> Some m | None \<Rightarrow> M) st' \<and>
    rounds st' = (case says_rounds x of Some n \<Rightarrow> n | None \<Rightarrow> rounds st) \<and>
    password_fd st' = (case says_fd x of Some n \<Rightarrow> n | None \<Rightarrow> password_fd st) \<and>
    salt_arg st' = (case says_salt x of Some n \<Rightarrow> n | None \<Rightarrow> salt_arg st)"
proof -
  have "holds_method M (st\<lparr>password_fd := f\<rparr>)" "holds_method M (st\<lparr>rounds := r\<rparr>)"
    "holds_method M (st\<lparr>salt_arg := a\<rparr>)" for f r a
    using assms(1) by (cases M; simp)+
  moreover have "\<exists>a. arg = Some a" if "set_method arg st = Inr st'" for arg
    using that by (auto simp: set_method_def split: option.splits)
  ultimately show ?thesis
    using assms set_method_holds [OF assms(1), of _ st']
    by (cases x) (fastforce simp: Let_def split_def split: if_splits)+
qed

lemma pw_options_says:
  assumes "holds_method M st" "pw_options os st = Inr st'"
  shows "holds_method (last_said (\<lambda>x. map_option Some (says_method x)) M os) st' \<and>
    rounds st' = last_said says_rounds (rounds st) os \<and>
    password_fd st' = last_said says_fd (password_fd st) os \<and>
    salt_arg st' = last_said says_salt (salt_arg st) os"
  using assms
proof (induction os arbitrary: M st)
  case (Cons x os)
  then obtain st1 where 1: "pw_option x st = Inr st1" "pw_options os st1 = Inr st'"
    by (auto split: sum.splits)
  have o: "(case map_option Some (says_method x) of Some w \<Rightarrow> w | None \<Rightarrow> M) =
      (case says_method x of Some m \<Rightarrow> Some m | None \<Rightarrow> M)" by (simp split: option.split)
  note x = pw_option_says [OF Cons.prems(1) 1(1)]
  from x Cons.IH [OF conjunct1 [OF x] 1(2)]
  show ?case unfolding last_said_simps o by simp
qed simp

lemma last_method_in: "v \<in> set methods \<Longrightarrow> last_said says_method v os \<in> set methods"
proof (induction os arbitrary: v)
  case (Cons x os)
  have "m \<in> set methods" if "says_method x = Some m" for m
    using that by (cases x rule: says_method.cases) (auto simp: find_Some_iff)
  with Cons show ?case by (auto split: option.splits)
qed simp

lemma default_method_holds:
  "holds_method M st \<Longrightarrow>
   holds_method (Some (case M of None \<Rightarrow> methods ! 0 | Some m \<Rightarrow> m)) (with_default_method st)"
  by (cases M) (simp_all add: with_default_method_def methods_def)

text \<open>The salt: the one that was given, or one of the length that was drawn from the random bytes.\<close>

lemma make_salt_parts:
  assumes "make_salt sys st = Inr full" "salt_minlen st \<le> salt_maxlen st"
  obtains s where "full = the (salt_prefix st) @
      rounds_str (the (salt_prefix st)) (rounds_support st) (rounds st) @ s"
    "salt_accepted st s"
    "case salt_arg st of Some s' \<Rightarrow> s = s'
     | None \<Rightarrow> \<exists>bs. sys_random sys = Some bs \<and> s = generate_salt (take (length s) bs)"
proof (cases "salt_arg st")
  case (Some s)
  with assms(1) show thesis
    by (intro that [of s]) (auto simp: make_salt_def Let_def split: if_splits)
next
  case None
  define n where "n = (if salt_minlen st \<noteq> salt_maxlen st
      then sys_rand sys mod (salt_maxlen st - salt_minlen st + 1) + salt_minlen st else salt_maxlen st)"
  have n: "salt_minlen st \<le> n" "n \<le> salt_maxlen st"
  proof -
    have "sys_rand sys mod (salt_maxlen st - salt_minlen st + 1) \<le> salt_maxlen st - salt_minlen st"
      using mod_less_divisor [of "salt_maxlen st - salt_minlen st + 1" "sys_rand sys"] by simp
    with assms(2) have "sys_rand sys mod (salt_maxlen st - salt_minlen st + 1) + salt_minlen st \<le> salt_maxlen st"
      by linarith
    with assms(2) show "salt_minlen st \<le> n" "n \<le> salt_maxlen st" by (simp_all add: n_def)
  qed
  from None assms(1) obtain e where e: "get_random_bytes (sys_random sys) n = Some e"
    and t: "full = the (salt_prefix st) @
      rounds_str (the (salt_prefix st)) (rounds_support st) (rounds st) @ generate_salt e"
    by (auto simp: make_salt_def Let_def simp flip: n_def split: option.splits)
  from e obtain bs where "sys_random sys = Some bs" "e = take n bs" "length e = n"
    by (auto simp: get_random_bytes_def split: option.splits if_splits)
  with n None t show thesis
    by (intro that [of "generate_salt e"]) (auto simp: salt_accepted_def generate_salt_valid)
qed

text \<open>What the options need to be read by \<open>simp\<close>.\<close>

lemmas pw_simps = mkpasswd_def pw_start_def set_method_def methods_def strcaseeq_def strtol_word_def
  c_strtol_def read_sign_def read_prefix_def is_digit_in_def digit_of_def clamp_def ctype_defs
  with_default_method_def make_salt_def salt_accepted_def valid_salts_def rounds_str_def
  dec_of_nat_def num_of_nat.simps char_of_def bit_0 digit_char_def crypt_checked_def strneq_def

section \<open>Properties\<close>

text \<open>
  C29: what is printed is what \<open>crypt\<close> gave for the password and the salt the arguments ask for. The method is the one of
  the last \<open>-m\<close> or \<open>-5\<close> that names one, or DES; behind its prefix come the rounds of the last \<open>-R\<close> where the method
  has them, then the salt of the last \<open>-S\<close> or of the second argument, or one of random characters, of a length the method
  allows. The password is the first argument, or else the first line (at most 127 characters) of the file
  of \<open>-P\<close> or \<open>-s\<close>, or else what \<open>getpass\<close> gives. The hash begins with the prefix and not with an asterisk.
\<close>

theorem printed_hash:
  fixes os :: "pw_opt list"
  assumes "mkpasswd sys os args = Printed h"
  defines "m \<equiv> last_said says_method (methods ! 0) os"
    and "n \<equiv> last_said says_rounds 0 os" and "fd \<equiv> last_said says_fd (-1) os"
  shows "\<exists>password salt.
    sys_crypt sys password
      (cm_prefix m @ (if cm_rounds m \<noteq> 0 \<and> n \<noteq> 0 then ''rounds='' @ dec_of_nat (unat n) @ ''$'' else []) @ salt) = Some h \<and>
    (case args of p # _ \<Rightarrow> password = p
     | [] \<Rightarrow> if fd = -1 then sys_getpass sys = Some password
             else \<exists>line. sys_fd sys fd = Some line \<and>
               password = takeWhile (\<lambda>c. c \<noteq> CHR 0x0A \<and> c \<noteq> CHR 0x0D) (take 127 line)) \<and>
    (case given_salt os args of Some s \<Rightarrow> salt = s
     | None \<Rightarrow> \<exists>bs. sys_random sys = Some bs \<and> salt = generate_salt (take (length salt) bs)) \<and>
    cm_minlen m \<le> length salt \<and> length salt \<le> cm_maxlen m \<and> set salt \<subseteq> set valid_salts \<and>
    take (length (cm_prefix m)) h = cm_prefix m \<and> take 1 h \<noteq> ''*''"
proof -
  obtain st where st: "pw_options os pw_start = Inr st"
    using assms(1) by (auto simp: mkpasswd_def split: sum.splits)
  let ?M = "last_said (\<lambda>x. map_option Some (says_method x)) None os"
  have "holds_method None pw_start" by (simp add: pw_start_def)
  from pw_options_says [OF this st] have M: "holds_method ?M st" and so: "rounds st = n"
    "password_fd st = fd" "salt_arg st = last_said says_salt None os"
    by (simp_all add: pw_start_def n_def fd_def)
  define st1 where "st1 = (if length args = 2 \<and> salt_arg st = None then st\<lparr>salt_arg := Some (args ! 1)\<rparr> else st)"
  define st2 where "st2 = with_default_method st1"
  define password where "password = (if args \<noteq> [] then Some (args ! 0)
      else if password_fd st2 \<noteq> -1 then read_password (sys_fd sys (password_fd st2)) else sys_getpass sys)"
  from assms(1) st obtain full pw where salt: "make_salt sys st2 = Inr full" and pw: "password = Some pw"
    and c: "crypt_checked sys st2 pw full = Printed h"
    unfolding st2_def st1_def password_def
    by (auto simp: mkpasswd_def Let_def split: if_splits sum.splits option.splits)
  from M have "holds_method ?M st1" by (cases ?M) (simp_all add: st1_def)
  from default_method_holds [OF this] have m: "holds_method (Some m) st2"
    unfolding last_said_None st2_def [symmetric] m_def [symmetric] .
  have ms: "m \<in> set methods" unfolding m_def by (rule last_method_in) (simp add: methods_def)
  have s2: "rounds st2 = n" "password_fd st2 = fd" "salt_arg st2 = given_salt os args"
    using so by (auto simp: st2_def st1_def with_default_method_def given_salt_def split: option.splits)
  obtain s where s: "full = cm_prefix m @ rounds_str (cm_prefix m) (cm_rounds m) n @ s"
      "salt_accepted st2 s"
      "case given_salt os args of Some s' \<Rightarrow> s = s'
       | None \<Rightarrow> \<exists>bs. sys_random sys = Some bs \<and> s = generate_salt (take (length s) bs)"
    using make_salt_parts [OF salt] methods_bounds [OF ms] m s2 by auto
  have h: "sys_crypt sys pw full = Some h" "take (length (cm_prefix m)) h = cm_prefix m" "take 1 h \<noteq> ''*''"
    using c m s(1) by (cases h; auto simp: crypt_checked_def strneq_def split: option.splits if_splits)+
  have p: "case args of p # _ \<Rightarrow> pw = p
     | [] \<Rightarrow> if fd = -1 then sys_getpass sys = Some pw
             else \<exists>line. sys_fd sys fd = Some line \<and>
               pw = takeWhile (\<lambda>c. c \<noteq> CHR 0x0A \<and> c \<noteq> CHR 0x0D) (take 127 line)"
    using pw unfolding password_def s2
    by (auto simp: read_password_def split: list.splits option.splits if_splits)
  from h(1) s(1) have "sys_crypt sys pw (cm_prefix m @
      (if cm_rounds m \<noteq> 0 \<and> n \<noteq> 0 then ''rounds='' @ dec_of_nat (unat n) @ ''$'' else []) @ s) = Some h"
    by (simp only: rounds_text [OF ms])
  moreover have "cm_minlen m \<le> length s" "length s \<le> cm_maxlen m" "set s \<subseteq> set valid_salts"
    using s(2) m by (auto simp: salt_accepted_def)
  ultimately show ?thesis using p s(3) h(2,3) by blast
qed

theorem printed_hash_witness:
  "\<exists>password. mkpasswd \<lparr>sys_crypt = (\<lambda>p s. Some (s @ p)), sys_random = None, sys_rand = 0, sys_fd = (\<lambda>_. None),
      sys_getpass = None\<rparr> [Opt_m (Some ''SHA-256''), Opt_R ''5000'', Opt_S ''saltsalt''] [''pw''] =
     Printed (''$5$rounds=5000$saltsalt'' @ password) \<and> password = ''pw''"
proof -
  let ?sys = "\<lparr>sys_crypt = (\<lambda>p s. Some (s @ p)), sys_random = None, sys_rand = 0, sys_fd = (\<lambda>_. None), sys_getpass = None\<rparr>"
  let ?os = "[Opt_m (Some ''SHA-256''), Opt_R ''5000'', Opt_S ''saltsalt'']"
  have p: "mkpasswd ?sys ?os [''pw''] = Printed ''$5$rounds=5000$saltsaltpw''" by (simp add: pw_simps)
  have m: "last_said says_method (methods ! 0) ?os = methods ! 2"
    by code_simp
  have n: "last_said says_rounds 0 ?os = 5000" by (simp add: pw_simps)
  have g: "given_salt ?os [''pw''] = Some ''saltsalt''" by (simp add: given_salt_def)
  have d: "dec_of_nat (unat (5000 :: 32 word)) = ''5000''" by (simp add: pw_simps)
  have c: "cm_prefix (methods ! 2) = ''$5$''" "cm_rounds (methods ! 2) = 1" by (simp_all add: methods_def)
  from printed_hash [OF p, unfolded m n g d c] obtain password where
    "Printed (''$5$rounds=5000$saltsalt'' @ password) = Printed ''$5$rounds=5000$saltsaltpw''" "password = ''pw''"
    by auto
  with p show ?thesis by metis
qed

text \<open>
  \<open>merge_args\<close> writes every cell of the new array, the NULL at its end included: the name of the
  program, the words of the variable in order, the other arguments. The words are not empty,
  hold no blank, and hold all other characters of the variable.
\<close>

theorem merge_args_correct:
  assumes "argv \<noteq> []"
  shows "merge_array (tokens s) argv = map (Some \<circ> Some) (hd argv # tokens s @ tl argv) @ [Some None] \<and>
    (\<forall>w \<in> set (tokens s). w \<noteq> [] \<and> CHR '' '' \<notin> set w) \<and>
    concat (tokens s) = filter (\<lambda>c. c \<noteq> CHR '' '') s"
  using merge_array [OF assms] tokens_words tokens_concat by blast

theorem merge_args_correct_witness:
  "merge_array [''-m'', ''md5''] [''mkpasswd'', ''x''] =
     [Some (Some ''mkpasswd''), Some (Some ''-m''), Some (Some ''md5''), Some (Some ''x''), Some None]"
proof -
  have "tokens ''  -m md5 '' = [''-m'', ''md5'']" by code_simp
  with merge_args_correct [of "[''mkpasswd'', ''x'']" "''  -m md5 ''"] show ?thesis by simp
qed

text \<open>
  two mistakes in the options are not noticed. An unknown method is refused, but not after a
  known one, which stays; and a negative number of rounds is taken for a large one.
\<close>

theorem bad_options_accepted:
  "pw_option (Opt_m (Some ''bogus'')) pw_start = Inl 1 \<and>
   pw_options [Opt_m (Some ''md5''), Opt_m (Some ''bogus'')] pw_start =
     pw_options [Opt_m (Some ''md5'')] pw_start \<and>
   (\<exists>st. pw_options [Opt_m (Some ''md5'')] pw_start = Inr st) \<and>
   pw_option (Opt_R ''-1'') st0 = Inr (st0\<lparr>rounds := 0xffffffff\<rparr>)"
proof (intro conjI)
  show "pw_option (Opt_R ''-1'') st0 = Inr (st0\<lparr>rounds := 0xffffffff\<rparr>)"
  proof -
    have "strtol_word ''-1'' = (0xffffffff, [])" by (simp add: pw_simps)
    then show ?thesis by simp
  qed
qed (simp_all add: pw_simps)

end
